(* ===== verification/Prelude.thy ===== *)
theory Prelude
  imports Main "HOL-Library.Word" "HOL-Library.Monad_Syntax"
begin

text \<open>
  Shared vocabulary of the development: the machine-integer types of the C++ code, arrays as
  functions from indices, \<^verbatim>\<open>memmove\<close> on them, and the generic lemmas about lists, words and
  options that more than one component uses.
\<close>

section \<open>Machine integers\<close>

type_synonym u8 = "8 word"
type_synonym u16 = "16 word"
type_synonym u32 = "32 word"
type_synonym u64 = "64 word"

text \<open>
  Named collections: \<open>arr_simps\<close> for array updates seen as lists, \<open>word_facts\<close> for the
  no-wrap facts on words that several components use.
\<close>

named_theorems arr_simps
named_theorems word_facts

lemma unat_add_no_wrap [word_facts]:
  fixes a b :: "'a::len word"
  assumes "unat a + unat b < 2 ^ LENGTH('a)"
  shows "unat (a + b) = unat a + unat b"
  using assms by (simp add: unat_word_ariths(1))

lemma unat_sub_le [word_facts]:
  fixes a b :: "'a::len word"
  assumes "b \<le> a"
  shows "unat (a - b) = unat a - unat b"
  using assms by (rule unat_sub)

lemma unat_min [word_facts]:
  fixes a b :: "'a::len word"
  shows "unat (min a b) = min (unat a) (unat b)"
  by (simp add: min_def word_le_nat_alt)

lemma of_nat_eq_0_small:
  assumes "n < 2 ^ LENGTH('a)"
  shows "((of_nat n :: 'a::len word) = 0) = (n = 0)"
proof -
  have "((of_nat n :: 'a word) = 0) \<longleftrightarrow> unat (of_nat n :: 'a word) = 0"
    by (rule unat_eq_zero [symmetric])
  also have "\<dots> \<longleftrightarrow> n = 0"
    using assms by (simp add: unsigned_of_nat take_bit_nat_eq_self)
  finally show ?thesis .
qed

lemma unat_u32_less: "unat (w :: u32) < 2 ^ 32"
  using unsigned_less [of w, where ?'a = nat] by simp

lemma unat_u64_less: "unat (w :: u64) < 2 ^ 64"
  using unsigned_less [of w, where ?'a = nat] by simp

lemma unat_ucast_u32_u64 [word_facts]: "unat (ucast (w :: u32) :: u64) = unat w"
proof -
  have "unat w < 2 ^ 64" using unat_u32_less [of w] by simp
  then show ?thesis by (simp add: unsigned_ucast_eq take_bit_nat_eq_self)
qed

text \<open>\<^verbatim>\<open>uint32_t(std::min<uint64_t>(t, UINT32_MAX))\<close>.\<close>

lemma unat_clamp_u32:
  "unat (ucast (min (t :: u64) 0xFFFFFFFF) :: u32) = min (unat t) (2 ^ 32 - 1)"
proof -
  have "unat (min t 0xFFFFFFFF) = min (unat t) (2 ^ 32 - 1)" by (simp add: unat_min)
  then show ?thesis by (simp add: unsigned_ucast_eq take_bit_nat_eq_self)
qed

section \<open>Arrays as functions\<close>

text \<open>
  A fixed-size C array is a function from its indices; what lies beyond the part in use is never
  read. \<open>arr_list f n\<close> is the list of the first \<open>n\<close> cells.
\<close>

definition arr_list :: "(nat \<Rightarrow> 'a) \<Rightarrow> nat \<Rightarrow> 'a list" where
  "arr_list f n = map f [0..<n]"

lemma length_arr_list [simp]: "length (arr_list f n) = n"
  by (simp add: arr_list_def)

lemma nth_arr_list [simp]: "i < n \<Longrightarrow> arr_list f n ! i = f i"
  by (simp add: arr_list_def)

lemma set_arr_list: "set (arr_list f n) = f ` {0..<n}"
  by (simp add: arr_list_def)

text \<open>\<^verbatim>\<open>std::memmove(&f[dst], &f[src], n * sizeof(elem))\<close>: the source range is read first.\<close>

definition memmove :: "(nat \<Rightarrow> 'a) \<Rightarrow> nat \<Rightarrow> nat \<Rightarrow> nat \<Rightarrow> (nat \<Rightarrow> 'a)" where
  "memmove f dst src n = (\<lambda>i. if dst \<le> i \<and> i < dst + n then f (i - dst + src) else f i)"

lemma memmove_insert [arr_simps]:
  assumes "pos \<le> n"
  shows "arr_list ((memmove f (Suc pos) pos (n - pos))(pos := v)) (Suc n) =
    take pos (arr_list f n) @ v # drop pos (arr_list f n)"
  using assms by (intro nth_equalityI) (auto simp: memmove_def nth_append nth_Cons')

lemma memmove_delete [arr_simps]:
  assumes "idx < n"
  shows "arr_list (memmove f idx (Suc idx) (n - idx - 1)) (n - 1) =
    take idx (arr_list f n) @ drop (Suc idx) (arr_list f n)"
  using assms by (intro nth_equalityI) (auto simp: memmove_def nth_append)

lemma arr_list_upd [arr_simps]:
  "arr_list (f(i := v)) n = (arr_list f n)[i := v]"
  by (intro nth_equalityI) (auto simp: nth_list_update)

section \<open>Sums of fixed-width quantities\<close>

lemma sum_list_remove1_word:
  fixes f :: "'a \<Rightarrow> 'b::len word"
  assumes "x \<in> set xs"
  shows "sum_list (map f (remove1 x xs)) = sum_list (map f xs) - f x"
  using assms by (induction xs) auto

lemma sum_list_map_cong:
  assumes "\<And>x. x \<in> set xs \<Longrightarrow> f x = g x"
  shows "sum_list (map f xs) = sum_list (map g xs)"
  using assms by (induction xs) auto

section \<open>Reading from a list that may be too short\<close>

definition nth_opt :: "'a list \<Rightarrow> nat \<Rightarrow> 'a option" where
  "nth_opt xs i = (if i < length xs then Some (xs ! i) else None)"

lemma nth_opt_Some [simp]: "nth_opt xs i = Some x \<longleftrightarrow> i < length xs \<and> xs ! i = x"
  by (auto simp: nth_opt_def)

lemma distinct_split_unique:
  assumes "distinct (a @ x # b)"
  shows "x \<notin> set a" and "x \<notin> set b"
  using assms by auto

end
