(* ===== verification/Engine_Types.thy ===== *)
theory Engine_Types
  imports Prelude
begin

text \<open>
  The data types of \<^verbatim>\<open>options-engine/include/core/types.hpp\<close>: enumerations, the order, the
  execution report, the market-data message and the top-of-book snapshot. A price is an \<open>int\<close>
  (the code's \<^verbatim>\<open>int64_t\<close> fixed point, only compared and copied by the book); quantities,
  identifiers and sequence numbers keep their unsigned width.
\<close>

type_synonym price = int
type_synonym qty = u32
type_synonym order_id = u64
type_synonym symbol_id = u16
type_synonym seq_num = u64

definition PRICE_INVALID :: price where
  "PRICE_INVALID = - (2 ^ 63)"

definition ORDER_ID_INVALID :: order_id where
  "ORDER_ID_INVALID = 0"

section \<open>Enumerations\<close>

text \<open>
  \<^verbatim>\<open>OrderType\<close> and \<^verbatim>\<open>MarketDataMsg::Type\<close> are filled by casts from raw bytes
  (\<^verbatim>\<open>market_data.cpp\<close>, \<^verbatim>\<open>replay.hpp\<close>), so they can hold values without an
  enumerator; the last constructor carries those.
\<close>

datatype side = Buy | Sell

datatype order_type = Limit | Market | IOC | FOK | OtherOrderType u8

datatype order_status =
  StatusNew | StatusPartiallyFilled | StatusFilled | StatusCancelled | StatusRejected

datatype exec_type = ExecNew | ExecFill | ExecPartialFill | ExecCancelled | ExecRejected

datatype msg_type = NewOrder | CancelOrder | ModifyOrder | Heartbeat | OtherMsgType u8

definition order_type_of_u8 :: "u8 \<Rightarrow> order_type" where
  "order_type_of_u8 b =
    (if b = 0 then Limit else if b = 1 then Market else if b = 2 then IOC
     else if b = 3 then FOK else OtherOrderType b)"

definition u8_of_order_type :: "order_type \<Rightarrow> u8" where
  "u8_of_order_type t =
    (case t of Limit \<Rightarrow> 0 | Market \<Rightarrow> 1 | IOC \<Rightarrow> 2 | FOK \<Rightarrow> 3 | OtherOrderType b \<Rightarrow> b)"

definition msg_type_of_u8 :: "u8 \<Rightarrow> msg_type" where
  "msg_type_of_u8 b =
    (if b = 0 then NewOrder else if b = 1 then CancelOrder else if b = 2 then ModifyOrder
     else if b = 3 then Heartbeat else OtherMsgType b)"

definition u8_of_msg_type :: "msg_type \<Rightarrow> u8" where
  "u8_of_msg_type t =
    (case t of NewOrder \<Rightarrow> 0 | CancelOrder \<Rightarrow> 1 | ModifyOrder \<Rightarrow> 2 | Heartbeat \<Rightarrow> 3 | OtherMsgType b \<Rightarrow> b)"

lemma u8_of_order_type_of_u8 [simp]: "u8_of_order_type (order_type_of_u8 b) = b"
  by (simp add: order_type_of_u8_def u8_of_order_type_def)

lemma u8_of_msg_type_of_u8 [simp]: "u8_of_msg_type (msg_type_of_u8 b) = b"
  by (simp add: msg_type_of_u8_def u8_of_msg_type_def)

text \<open>The enumerators of \<^verbatim>\<open>Side\<close> are ordered by their underlying values 0 and 1.\<close>

instantiation side :: linorder
begin

definition less_eq_side :: "side \<Rightarrow> side \<Rightarrow> bool" where
  "less_eq_side a b \<longleftrightarrow> a = Buy \<or> b = Sell"

definition less_side :: "side \<Rightarrow> side \<Rightarrow> bool" where
  "less_side a b \<longleftrightarrow> a = Buy \<and> b = Sell"

instance
  by standard (auto simp: less_eq_side_def less_side_def intro: side.exhaust)

end

section \<open>Records\<close>

record order =
  ord_id :: order_id
  ord_price :: price
  ord_qty :: qty
  ord_qty_remaining :: qty
  ord_symbol :: symbol_id
  ord_side :: side
  ord_type :: order_type
  ord_status :: order_status
  ord_account :: u32

definition is_buy :: "order \<Rightarrow> bool" where
  "is_buy o1 \<longleftrightarrow> ord_side o1 = Buy"

definition is_sell :: "order \<Rightarrow> bool" where
  "is_sell o1 \<longleftrightarrow> ord_side o1 = Sell"

definition is_filled :: "order \<Rightarrow> bool" where
  "is_filled o1 \<longleftrightarrow> ord_qty_remaining o1 = 0"

lemma is_sell_iff_not_buy: "is_sell o1 \<longleftrightarrow> \<not> is_buy o1"
  by (cases "ord_side o1") (simp_all add: is_buy_def is_sell_def)

record exec_report =
  er_order_id :: order_id
  er_contra_order_id :: order_id
  er_exec_price :: price
  er_exec_qty :: qty
  er_leaves_qty :: qty
  er_symbol :: symbol_id
  er_side :: side
  er_exec_type :: exec_type

record md_msg =
  md_seq :: seq_num
  md_order_id :: order_id
  md_price :: price
  md_qty :: qty
  md_symbol :: symbol_id
  md_side :: side
  md_msg_type :: msg_type
  md_order_type :: order_type

text \<open>The value-initialised \<^verbatim>\<open>MarketDataMsg m{}\<close>.\<close>

definition md_zero :: md_msg where
  "md_zero = \<lparr>md_seq = 0, md_order_id = 0, md_price = 0, md_qty = 0, md_symbol = 0,
     md_side = Buy, md_msg_type = NewOrder, md_order_type = Limit\<rparr>"

record best_quote_rec =
  bq_bid_price :: price
  bq_ask_price :: price
  bq_bid_qty :: qty
  bq_ask_qty :: qty
  bq_symbol :: symbol_id

end
