(* ===== verification/Order_Index.thy ===== *)
theory Order_Index
  imports Engine_Types
begin

text \<open>
  \<^verbatim>\<open>OrderBook::OrderIndex\<close> of \<^verbatim>\<open>core/order_book.hpp\<close> and
  \<^verbatim>\<open>order_book.cpp\<close>: a Fibonacci-hashed open-addressing table with linear probing and
  backward-shift deletion. Its loops run until they meet an empty slot, so they are
  \<open>partial_function (option)\<close>: \<open>None\<close> is a probe that never ends. The theory shows that
  under the representation invariant every operation returns and acts as on a finite map; the
  contract is the locale \<open>id_map\<close>, interpreted on the table.
\<close>

section \<open>The table\<close>

definition kMaxOrders :: nat where
  "kMaxOrders = 65536"

definition NULL_IDX :: nat where
  "NULL_IDX = 4294967295"

definition kTableSize :: nat where
  "kTableSize = kMaxOrders * 2"

definition kBits :: nat where
  "kBits = 17"

definition kMask :: nat where
  "kMask = kTableSize - 1"

definition kEmpty :: nat where
  "kEmpty = 4294967295"

record index_entry =
  ie_key :: order_id
  ie_slot :: nat
  ie_side :: nat

text \<open>The default entry \<^verbatim>\<open>Entry{}\<close>: key 0, slot \<^verbatim>\<open>kEmpty\<close>, side \<^verbatim>\<open>0xFF\<close>.\<close>

definition empty_entry :: index_entry where
  "empty_entry = \<lparr>ie_key = 0, ie_slot = kEmpty, ie_side = 255\<rparr>"

type_synonym index_table = "nat \<Rightarrow> index_entry"

definition index_init :: index_table where
  "index_init = (\<lambda>_. empty_entry)"

definition home :: "order_id \<Rightarrow> nat" where
  "home oid = unat (drop_bit (64 - kBits) (oid * 0x9E3779B97F4A7C15))"

partial_function (option) probe_from :: "index_table \<Rightarrow> order_id \<Rightarrow> nat \<Rightarrow> nat option" where
  "probe_from t oid h =
    (if ie_slot (t h) \<noteq> kEmpty \<and> ie_key (t h) \<noteq> oid
     then probe_from t oid (and (h + 1) kMask)
     else Some h)"

definition probe :: "index_table \<Rightarrow> order_id \<Rightarrow> nat option" where
  "probe t oid = probe_from t oid (home oid)"

definition index_insert ::
    "index_table \<Rightarrow> order_id \<Rightarrow> nat \<Rightarrow> nat \<Rightarrow> (bool \<times> index_table) option" where
  "index_insert t oid s sd = do {
     h \<leftarrow> probe t oid;
     if ie_slot (t h) \<noteq> kEmpty \<and> ie_key (t h) \<noteq> oid then Some (False, t)
     else Some (True, t(h := \<lparr>ie_key = oid, ie_slot = s, ie_side = sd\<rparr>))
   }"

text \<open>The inner \<open>option\<close> is the \<^verbatim>\<open>bool\<close> result with its two output parameters.\<close>

definition index_lookup :: "index_table \<Rightarrow> order_id \<Rightarrow> (nat \<times> nat) option option" where
  "index_lookup t oid = do {
     h \<leftarrow> probe t oid;
     if ie_slot (t h) = kEmpty then Some None
     else Some (Some (ie_slot (t h), ie_side (t h)))
   }"

text \<open>
  The deletion loop: \<open>j\<close> has already been advanced past the slots examined so far; one turn
  advances it once more and either stops, skips the entry or moves it into the hole.
\<close>

definition entry_stays :: "nat \<Rightarrow> nat \<Rightarrow> nat \<Rightarrow> bool" where
  "entry_stays hole h j =
    (if hole \<le> j then hole < h \<and> h \<le> j else hole < h \<or> h \<le> j)"

partial_function (option) remove_shift ::
    "index_table \<Rightarrow> nat \<Rightarrow> nat \<Rightarrow> index_table option" where
  "remove_shift t hole j0 =
    (let j = and (j0 + 1) kMask in
     if ie_slot (t j) = kEmpty then Some (t(hole := empty_entry))
     else if entry_stays hole (home (ie_key (t j))) j then remove_shift t hole j
     else remove_shift (t(hole := t j)) j j)"

definition index_remove :: "index_table \<Rightarrow> order_id \<Rightarrow> (bool \<times> index_table) option" where
  "index_remove t oid = do {
     hole \<leftarrow> probe t oid;
     if ie_slot (t hole) = kEmpty then Some (False, t)
     else do { t' \<leftarrow> remove_shift t hole hole; Some (True, t') }
   }"

section \<open>Cyclic distance\<close>

lemma kTableSize_pow: "kTableSize = 2 ^ kBits"
  by (simp add: kTableSize_def kBits_def kMaxOrders_def)

lemma kTableSize_pos [simp]: "0 < kTableSize"
  by (simp add: kTableSize_def kMaxOrders_def)

lemma kTableSize_gt1: "Suc 0 < kTableSize"
  by (simp add: kTableSize_def kMaxOrders_def)

definition nxt :: "nat \<Rightarrow> nat" where
  "nxt h = and (h + 1) kMask"

lemma nxt_mod: "nxt h = (h + 1) mod kTableSize"
proof -
  have "and (h + 1) (mask kBits) = take_bit kBits (h + 1)"
    by (simp add: take_bit_eq_mask)
  then show ?thesis
    by (simp add: nxt_def kMask_def kTableSize_pow mask_eq_exp_minus_1 take_bit_eq_mod)
qed

lemma nxt_eq: "h < kTableSize \<Longrightarrow> nxt h = (if h = kTableSize - 1 then 0 else h + 1)"
  using kTableSize_pos by (auto simp: nxt_mod)

lemma nxt_less [simp]: "nxt h < kTableSize"
  by (simp add: nxt_mod)

lemma home_less [simp]: "home oid < kTableSize"
proof -
  have "unat (drop_bit 47 w) < 2 ^ 17" for w :: u64
  proof -
    have "unat w < 2 ^ 17 * 2 ^ 47"
      using unsigned_less [of w, where ?'a = nat] by simp
    then have "unat w div 2 ^ 47 < 2 ^ 17" by (rule less_mult_imp_div_less)
    moreover have "unat (drop_bit 47 w) = unat w div 2 ^ 47"
      by (rule trans [OF unat_drop_bit_eq drop_bit_eq_div])
    ultimately show ?thesis by simp
  qed
  then show ?thesis
    by (simp add: home_def kBits_def kTableSize_def kMaxOrders_def)
qed

text \<open>The number of steps from slot \<open>x\<close> forward to slot \<open>y\<close>, wrapping at the end.\<close>

definition cdist :: "nat \<Rightarrow> nat \<Rightarrow> nat" where
  "cdist x y = (if x \<le> y then y - x else y + kTableSize - x)"

lemma cdist_self [simp]: "cdist x x = 0"
  by (simp add: cdist_def)

lemma cdist_less: "x < kTableSize \<Longrightarrow> y < kTableSize \<Longrightarrow> cdist x y < kTableSize"
  by (auto simp: cdist_def)

lemma cdist_0: "x < kTableSize \<Longrightarrow> y < kTableSize \<Longrightarrow> cdist x y = 0 \<longleftrightarrow> x = y"
  by (auto simp: cdist_def)

lemma cdist_nxt:
  "x < kTableSize \<Longrightarrow> y < kTableSize \<Longrightarrow> x \<noteq> y \<Longrightarrow> cdist (nxt x) y = cdist x y - 1"
  by (auto simp: cdist_def nxt_eq)

lemma cdist_to_nxt:
  "x < kTableSize \<Longrightarrow> y < kTableSize \<Longrightarrow> nxt y \<noteq> x \<Longrightarrow> cdist x (nxt y) = cdist x y + 1"
  by (auto simp: cdist_def nxt_eq)

lemma cdist_from_nxt_self:
  "x < kTableSize \<Longrightarrow> cdist (nxt x) x = kTableSize - 1"
  using kTableSize_gt1 by (auto simp: cdist_def nxt_eq)

text \<open>The skip test of the deletion loop asks whether the probe path of the entry misses the hole.\<close>

lemma entry_stays_iff:
  assumes "hole < kTableSize" "h < kTableSize" "j < kTableSize" "hole \<noteq> j"
  shows "entry_stays hole h j \<longleftrightarrow> \<not> cdist h hole < cdist h j"
  using assms by (auto simp: entry_stays_def cdist_def)

section \<open>Representation invariant\<close>

lemma cdist_inj:
  "x < kTableSize \<Longrightarrow> y < kTableSize \<Longrightarrow> z < kTableSize \<Longrightarrow> cdist x y = cdist x z \<Longrightarrow> y = z"
  by (auto simp: cdist_def split: if_splits)

definition occ :: "index_table \<Rightarrow> nat \<Rightarrow> bool" where
  "occ t j \<longleftrightarrow> ie_slot (t j) \<noteq> kEmpty"

text \<open>Slot \<open>i\<close> lies on the probe path that leads to the entry stored at \<open>j\<close>.\<close>

definition on_path :: "index_table \<Rightarrow> nat \<Rightarrow> nat \<Rightarrow> bool" where
  "on_path t j i \<longleftrightarrow> cdist (home (ie_key (t j))) i < cdist (home (ie_key (t j))) j"

definition keys_distinct :: "index_table \<Rightarrow> (nat \<Rightarrow> bool) \<Rightarrow> bool" where
  "keys_distinct t P \<longleftrightarrow>
    (\<forall>i j. i < kTableSize \<and> j < kTableSize \<and> P i \<and> P j \<and> ie_key (t i) = ie_key (t j) \<longrightarrow> i = j)"

lemma keys_distinctD:
  "keys_distinct t P \<Longrightarrow> i < kTableSize \<Longrightarrow> j < kTableSize \<Longrightarrow> P i \<Longrightarrow> P j \<Longrightarrow>
    ie_key (t i) = ie_key (t j) \<Longrightarrow> i = j"
  by (simp add: keys_distinct_def)

lemma keys_distinct_sub:
  assumes "keys_distinct t P" "\<And>j. j < kTableSize \<Longrightarrow> P' j \<Longrightarrow> P j" "\<And>j. P' j \<Longrightarrow> t' j = t j"
  shows "keys_distinct t' P'"
  unfolding keys_distinct_def using assms(2,3) keys_distinctD [OF assms(1)] by metis

lemma keys_distinct_upd:
  assumes "keys_distinct t P" "\<And>j. j < kTableSize \<Longrightarrow> P j \<Longrightarrow> ie_key (t j) = ie_key e \<Longrightarrow> j = r"
    and "\<And>j. j < kTableSize \<Longrightarrow> P' j \<Longrightarrow> j = r \<or> P j"
  shows "keys_distinct (t(r := e)) P'"
  unfolding keys_distinct_def
proof (intro allI impI)
  fix i j
  assume a: "i < kTableSize \<and> j < kTableSize \<and> P' i \<and> P' j \<and>
      ie_key ((t(r := e)) i) = ie_key ((t(r := e)) j)"
  then have "i = r \<or> P i" "j = r \<or> P j" using assms(3) by blast+
  then consider "i = r" "j = r" | "i = r" "j \<noteq> r" "P j" | "i \<noteq> r" "j = r" "P i"
    | "i \<noteq> r" "j \<noteq> r" "P i" "P j"
    by blast
  then show "i = j"
  proof cases
    case 2 with a assms(2) [of j] show ?thesis by simp
  next
    case 3 with a assms(2) [of i] show ?thesis by simp
  next
    case 4 with a keys_distinctD [OF assms(1), of i j] show ?thesis by simp
  qed simp
qed

definition index_inv :: "index_table \<Rightarrow> bool" where
  "index_inv t \<longleftrightarrow>
    (\<forall>j i. j < kTableSize \<and> i < kTableSize \<and> occ t j \<and> on_path t j i \<longrightarrow> occ t i) \<and>
    keys_distinct t (occ t) \<and> (\<exists>e < kTableSize. \<not> occ t e)"

text \<open>The finite map a table stands for.\<close>

definition index_abs :: "index_table \<Rightarrow> order_id \<Rightarrow> (nat \<times> nat) option" where
  "index_abs t oid = (case index_lookup t oid of None \<Rightarrow> None | Some r \<Rightarrow> r)"

lemma index_abs_init [simp]: "index_abs index_init oid = None"
  by (simp add: index_abs_def index_lookup_def probe_def probe_from.simps index_init_def empty_entry_def)

lemma index_inv_init: "index_inv index_init"
  using kTableSize_pos
  by (auto simp: index_inv_def index_init_def occ_def empty_entry_def keys_distinct_def
      intro: exI [of _ 0])

lemma probe_from_spec:
  assumes "e < kTableSize" "\<not> occ t e" "h < kTableSize"
  shows "\<exists>r < kTableSize. probe_from t oid h = Some r \<and> (occ t r \<longrightarrow> ie_key (t r) = oid) \<and>
    (\<forall>i < kTableSize. cdist h i < cdist h r \<longrightarrow> occ t i \<and> ie_key (t i) \<noteq> oid)"
  using assms(3)
proof (induction "cdist h e" arbitrary: h rule: less_induct)
  case less
  show ?case
  proof (cases "occ t h \<and> ie_key (t h) \<noteq> oid")
    case False
    then have "probe_from t oid h = Some h"
      by (subst probe_from.simps) (auto simp: occ_def)
    with False less.prems show ?thesis by auto
  next
    case True
    with assms(2) have "h \<noteq> e" by auto
    then have "cdist h e \<noteq> 0"
      using cdist_0 assms(1) less.prems by blast
    then have "cdist (nxt h) e < cdist h e"
      using \<open>h \<noteq> e\<close> assms(1) less.prems by (simp add: cdist_nxt)
    from less.hyps [OF this nxt_less] obtain r where r: "r < kTableSize"
        "probe_from t oid (nxt h) = Some r" "occ t r \<longrightarrow> ie_key (t r) = oid"
        and path: "\<forall>i < kTableSize. cdist (nxt h) i < cdist (nxt h) r \<longrightarrow> occ t i \<and> ie_key (t i) \<noteq> oid"
      by blast
    have "probe_from t oid h = probe_from t oid (nxt h)"
      using True by (subst probe_from.simps) (auto simp: occ_def nxt_def)
    moreover have "occ t i \<and> ie_key (t i) \<noteq> oid"
      if i: "i < kTableSize" "cdist h i < cdist h r" for i
    proof (cases "i = h")
      case False
      have "cdist h i \<noteq> 0" and "r \<noteq> h"
        using False cdist_0 i less.prems by auto
      then have "cdist (nxt h) i < cdist (nxt h) r"
        using i False r(1) less.prems by (simp add: cdist_nxt)
      with path i(1) show ?thesis by blast
    qed (use True in simp)
    ultimately show ?thesis using r by auto
  qed
qed

lemma probe_spec:
  assumes "index_inv t"
  obtains r where "r < kTableSize" "probe t oid = Some r"
    "occ t r \<longrightarrow> ie_key (t r) = oid"
    "\<And>i. i < kTableSize \<Longrightarrow> cdist (home oid) i < cdist (home oid) r \<Longrightarrow> occ t i \<and> ie_key (t i) \<noteq> oid"
proof -
  obtain e where "e < kTableSize" "\<not> occ t e"
    using assms by (auto simp: index_inv_def)
  from probe_from_spec [OF this home_less, of oid oid] that show ?thesis
    by (auto simp: probe_def)
qed

text \<open>If the key is stored anywhere, the probe stops exactly there.\<close>

lemma probe_finds:
  assumes inv: "index_inv t" and j: "j < kTableSize" "occ t j" "ie_key (t j) = oid"
  shows "probe t oid = Some j"
proof -
  obtain r where r: "r < kTableSize" "probe t oid = Some r" "occ t r \<longrightarrow> ie_key (t r) = oid"
      "\<And>i. i < kTableSize \<Longrightarrow> cdist (home oid) i < cdist (home oid) r \<Longrightarrow> occ t i \<and> ie_key (t i) \<noteq> oid"
    using probe_spec [OF inv, of oid] by blast
  have reach: "occ t i" if "i < kTableSize" "cdist (home oid) i < cdist (home oid) j" for i
    using inv j that unfolding index_inv_def on_path_def by blast
  consider "cdist (home oid) r < cdist (home oid) j" | "cdist (home oid) j < cdist (home oid) r"
    | "cdist (home oid) r = cdist (home oid) j"
    by linarith
  then show ?thesis
  proof cases
    case 1
    then have "occ t r" using reach r(1) by blast
    with r(3) j inv r(1) have "r = j"
      unfolding index_inv_def keys_distinct_def by blast
    with r show ?thesis by simp
  next
    case 2
    with r(4) j show ?thesis by blast
  next
    case 3
    then have "r = j" using cdist_inj home_less r(1) j(1) by blast
    with r show ?thesis by simp
  qed
qed

lemma index_lookup_returns:
  assumes "index_inv t"
  shows "index_lookup t oid = Some (index_abs t oid)"
proof -
  obtain r where "probe t oid = Some r" using probe_spec [OF assms] by blast
  then show ?thesis by (auto simp: index_abs_def index_lookup_def)
qed

lemma index_abs_Some_iff:
  assumes "index_inv t"
  shows "index_abs t oid = Some (s, sd) \<longleftrightarrow>
    (\<exists>j < kTableSize. occ t j \<and> t j = \<lparr>ie_key = oid, ie_slot = s, ie_side = sd\<rparr>)"
proof
  assume "index_abs t oid = Some (s, sd)"
  moreover obtain r where "r < kTableSize" "probe t oid = Some r" "occ t r \<longrightarrow> ie_key (t r) = oid"
    using probe_spec [OF assms] by blast
  ultimately show "\<exists>j < kTableSize. occ t j \<and> t j = \<lparr>ie_key = oid, ie_slot = s, ie_side = sd\<rparr>"
    by (auto simp: index_abs_def index_lookup_def occ_def split: if_splits intro!: exI [of _ r])
next
  assume "\<exists>j < kTableSize. occ t j \<and> t j = \<lparr>ie_key = oid, ie_slot = s, ie_side = sd\<rparr>"
  then obtain j where j: "j < kTableSize" "occ t j" "t j = \<lparr>ie_key = oid, ie_slot = s, ie_side = sd\<rparr>"
    by blast
  with probe_finds [OF assms j(1,2)] show "index_abs t oid = Some (s, sd)"
    by (auto simp: index_abs_def index_lookup_def occ_def)
qed

lemma index_abs_None_iff:
  assumes "index_inv t"
  shows "index_abs t oid = None \<longleftrightarrow> (\<forall>j < kTableSize. occ t j \<longrightarrow> ie_key (t j) \<noteq> oid)"
proof -
  have "index_abs t oid = None \<longleftrightarrow> \<not> (\<exists>s sd. index_abs t oid = Some (s, sd))"
    by (cases "index_abs t oid") auto
  also have "\<dots> \<longleftrightarrow> (\<forall>j < kTableSize. occ t j \<longrightarrow> ie_key (t j) \<noteq> oid)"
    unfolding index_abs_Some_iff [OF assms] by (metis index_entry.surjective old.unit.exhaust index_entry.select_convs(1))
  finally show ?thesis .
qed

section \<open>Insertion\<close>

lemma index_abs_cong:
  assumes "index_inv t" "index_inv t'"
    and "\<And>j. j < kTableSize \<Longrightarrow> occ t' j \<longleftrightarrow> occ t j" "\<And>j. j < kTableSize \<Longrightarrow> occ t j \<Longrightarrow> t' j = t j"
  shows "index_abs t' = index_abs t"
proof
  fix oid
  have "index_abs t' oid = Some p \<longleftrightarrow> index_abs t oid = Some p" for p
    using assms by (cases p) (auto simp: index_abs_Some_iff)
  then show "index_abs t' oid = index_abs t oid"
    by (metis not_Some_eq)
qed

definition occupied :: "index_table \<Rightarrow> nat set" where
  "occupied t = {j. j < kTableSize \<and> occ t j}"

lemma occupied_finite [simp]: "finite (occupied t)"
  by (simp add: occupied_def)

lemma card_occupied:
  assumes "index_inv t"
  shows "card (occupied t) = card (dom (index_abs t))"
proof (rule bij_betw_same_card)
  show "bij_betw (\<lambda>j. ie_key (t j)) (occupied t) (dom (index_abs t))"
    unfolding bij_betw_def
  proof
    show "inj_on (\<lambda>j. ie_key (t j)) (occupied t)"
      using assms by (auto simp: inj_on_def occupied_def index_inv_def keys_distinct_def)
    have "oid \<in> dom (index_abs t) \<longleftrightarrow> oid \<in> (\<lambda>j. ie_key (t j)) ` occupied t" for oid
      using index_abs_None_iff [OF assms, of oid] by (auto simp: occupied_def dom_def image_iff)
    then show "(\<lambda>j. ie_key (t j)) ` occupied t = dom (index_abs t)"
      by blast
  qed
qed

lemma some_slot_empty:
  assumes "card (occupied t) < kTableSize"
  shows "\<exists>e < kTableSize. \<not> occ t e"
proof (rule ccontr)
  assume "\<not> (\<exists>e < kTableSize. \<not> occ t e)"
  then have "occupied t = {0..<kTableSize}"
    by (auto simp: occupied_def)
  with assms show False by simp
qed

lemma index_insert_correct:
  assumes inv: "index_inv t" and s: "s \<noteq> kEmpty"
    and room: "Suc (card (dom (index_abs t))) < kTableSize"
  shows "\<exists>t'. index_insert t oid s sd = Some (True, t') \<and> index_inv t' \<and>
    index_abs t' = (index_abs t)(oid \<mapsto> (s, sd))"
proof -
  obtain r where r: "r < kTableSize" "probe t oid = Some r" "occ t r \<longrightarrow> ie_key (t r) = oid"
    and path: "\<And>i. i < kTableSize \<Longrightarrow> cdist (home oid) i < cdist (home oid) r \<Longrightarrow> occ t i \<and> ie_key (t i) \<noteq> oid"
    using probe_spec [OF inv, of oid] by blast
  define t' where "t' = t(r := \<lparr>ie_key = oid, ie_slot = s, ie_side = sd\<rparr>)"
  have ins: "index_insert t oid s sd = Some (True, t')"
    using r by (auto simp: index_insert_def t'_def occ_def)
  have occ': "occ t' j \<longleftrightarrow> j = r \<or> occ t j" for j
    using s by (simp add: t'_def occ_def)
  have only: "j = r" if "j < kTableSize" "occ t j" "ie_key (t j) = oid" for j
    using probe_finds [OF inv that] r(2) by simp
  have "occupied t' \<subseteq> insert r (occupied t)"
    by (auto simp: occupied_def occ')
  then have "card (occupied t') \<le> card (insert r (occupied t))"
    by (intro card_mono) simp_all
  also have "\<dots> \<le> Suc (card (occupied t))" by (simp add: card_insert_le_m1 card_insert_if)
  also have "\<dots> < kTableSize" using room card_occupied [OF inv] by simp
  finally have "\<exists>e < kTableSize. \<not> occ t' e" by (rule some_slot_empty)
  moreover have "keys_distinct t' (occ t')"
    unfolding t'_def
    by (rule keys_distinct_upd [of t "occ t"])
      (use inv only occ' in \<open>auto simp: index_inv_def t'_def\<close>)
  moreover have "occ t' i" if "j < kTableSize" "i < kTableSize" "occ t' j" "on_path t' j i" for i j
  proof (cases "j = r")
    case True
    with that path show ?thesis by (auto simp: on_path_def t'_def occ_def)
  next
    case False
    with that have "on_path t j i" "occ t j" by (auto simp: on_path_def t'_def occ_def)
    with inv that show ?thesis unfolding index_inv_def by (auto simp: occ')
  qed
  ultimately have inv': "index_inv t'" unfolding index_inv_def by blast
  have "index_abs t' k = Some p \<longleftrightarrow> ((index_abs t)(oid \<mapsto> (s, sd))) k = Some p" for k p
  proof (cases "k = oid")
    case True
    have "index_abs t' oid = Some (s, sd)"
      unfolding index_abs_Some_iff [OF inv'] using r(1) s
      by (intro exI [of _ r]) (simp add: occ_def t'_def)
    with True show ?thesis by auto
  next
    case False
    have "(\<exists>j < kTableSize. occ t' j \<and> t' j = \<lparr>ie_key = k, ie_slot = fst p, ie_side = snd p\<rparr>) \<longleftrightarrow>
        (\<exists>j < kTableSize. occ t j \<and> t j = \<lparr>ie_key = k, ie_slot = fst p, ie_side = snd p\<rparr>)"
      using False r(3) by (force simp: t'_def occ_def)
    with False show ?thesis
      by (cases p) (simp add: index_abs_Some_iff [OF inv'] index_abs_Some_iff [OF inv])
  qed
  then have "index_abs t' = (index_abs t)(oid \<mapsto> (s, sd))"
    by (intro ext) (metis not_Some_eq)
  with ins inv' show ?thesis by blast
qed

section \<open>Deletion by backward shift\<close>

text \<open>
  The invariant of the deletion loop: leaving the hole out, the stored entries are the ones to
  keep, and an entry whose probe path crosses the hole has not been examined yet.
\<close>

definition hole_inv :: "index_table \<Rightarrow> nat \<Rightarrow> nat \<Rightarrow> bool" where
  "hole_inv t hole cur \<longleftrightarrow>
    hole < kTableSize \<and> cur < kTableSize \<and>
    (\<forall>k < kTableSize. cdist hole k \<le> cdist hole cur \<longrightarrow> occ t k) \<and>
    (\<forall>j i. j < kTableSize \<and> i < kTableSize \<and> occ t j \<and> j \<noteq> hole \<and> on_path t j i \<longrightarrow> occ t i) \<and>
    (\<forall>j < kTableSize. occ t j \<and> j \<noteq> hole \<and> on_path t j hole \<longrightarrow> cdist hole cur < cdist hole j) \<and>
    keys_distinct t (\<lambda>j. occ t j \<and> j \<noteq> hole) \<and> (\<exists>e < kTableSize. \<not> occ t e)"

lemma hole_invI:
  assumes "hole < kTableSize" "cur < kTableSize"
    and "\<And>k. k < kTableSize \<Longrightarrow> cdist hole k \<le> cdist hole cur \<Longrightarrow> occ t k"
    and "\<And>j i. j < kTableSize \<Longrightarrow> i < kTableSize \<Longrightarrow> occ t j \<Longrightarrow> j \<noteq> hole \<Longrightarrow> on_path t j i \<Longrightarrow> occ t i"
    and "\<And>j. j < kTableSize \<Longrightarrow> occ t j \<Longrightarrow> j \<noteq> hole \<Longrightarrow> on_path t j hole \<Longrightarrow> cdist hole cur < cdist hole j"
    and "keys_distinct t (\<lambda>j. occ t j \<and> j \<noteq> hole)" "\<exists>e < kTableSize. \<not> occ t e"
  shows "hole_inv t hole cur"
  unfolding hole_inv_def using assms by blast

lemma hole_invD:
  assumes "hole_inv t hole cur"
  shows "hole < kTableSize" "cur < kTableSize"
    and "\<And>k. k < kTableSize \<Longrightarrow> cdist hole k \<le> cdist hole cur \<Longrightarrow> occ t k"
    and "\<And>j i. j < kTableSize \<Longrightarrow> i < kTableSize \<Longrightarrow> occ t j \<Longrightarrow> j \<noteq> hole \<Longrightarrow> on_path t j i \<Longrightarrow> occ t i"
    and "\<And>j. j < kTableSize \<Longrightarrow> occ t j \<Longrightarrow> j \<noteq> hole \<Longrightarrow> on_path t j hole \<Longrightarrow> cdist hole cur < cdist hole j"
    and "keys_distinct t (\<lambda>j. occ t j \<and> j \<noteq> hole)" "\<exists>e < kTableSize. \<not> occ t e"
  using assms unfolding hole_inv_def by blast+

definition kept :: "index_table \<Rightarrow> nat \<Rightarrow> index_entry set" where
  "kept t hole = t ` (occupied t - {hole})"

lemma path_between:
  assumes "h < kTableSize" "i < kTableSize" "j < kTableSize" "k < kTableSize"
    and "cdist h i < cdist h j" "cdist i k < cdist i j"
  shows "cdist h k < cdist h j"
  using assms by (auto simp: cdist_def split: if_splits)

lemma remove_shift_stop:
  assumes inv: "hole_inv t hole cur" and empty: "\<not> occ t (nxt cur)"
  defines "t' \<equiv> t(hole := empty_entry)"
  shows "index_inv t'" and "kept t hole = t' ` occupied t'"
proof -
  have occ': "occ t' j \<longleftrightarrow> occ t j \<and> j \<noteq> hole" for j
    by (simp add: t'_def occ_def empty_entry_def)
  have clear: "\<not> on_path t j hole" if j: "j < kTableSize" "occ t j" "j \<noteq> hole" for j
  proof
    assume crosses: "on_path t j hole"
    with inv j have lt: "cdist hole cur < cdist hole j"
      unfolding hole_inv_def by blast
    have hc: "hole < kTableSize" "cur < kTableSize" "hole \<noteq> nxt cur" "j \<noteq> nxt cur"
      using inv empty j by (auto simp: hole_inv_def)
    then have "cdist hole (nxt cur) \<le> cdist hole j"
      using lt by (simp add: cdist_to_nxt)
    with hc j have "cdist hole (nxt cur) < cdist hole j"
      using cdist_inj [OF hc(1) j(1) nxt_less] by (metis le_neq_implies_less)
    with crosses hc j have "on_path t j (nxt cur)"
      unfolding on_path_def using path_between home_less nxt_less by blast
    with inv j empty show False unfolding hole_inv_def using nxt_less by blast
  qed
  have "occ t' i" if "j < kTableSize" "i < kTableSize" "occ t' j" "on_path t' j i" for i j
  proof -
    have j: "occ t j" "j \<noteq> hole" using that(3) by (simp_all add: occ')
    then have "on_path t j i" using that(4) by (simp add: on_path_def t'_def)
    note j = j this
    with inv that(1,2) have "occ t i" unfolding hole_inv_def by blast
    with clear [OF that(1) j(1,2)] j(3) show ?thesis by (auto simp: occ')
  qed
  moreover have "keys_distinct t' (occ t')"
    by (rule keys_distinct_sub [of t "\<lambda>j. occ t j \<and> j \<noteq> hole"])
      (use inv occ' in \<open>auto simp: hole_inv_def t'_def\<close>)
  moreover have "\<exists>e < kTableSize. \<not> occ t' e"
    using inv by (auto simp: hole_inv_def occ')
  ultimately show "index_inv t'" unfolding index_inv_def by blast
  show "kept t hole = t' ` occupied t'"
    unfolding kept_def
  proof (rule image_cong)
    show "occupied t - {hole} = occupied t'" by (auto simp: occupied_def occ')
    then show "t j = t' j" if "j \<in> occupied t'" for j using that by (auto simp: t'_def)
  qed
qed

lemma hole_inv_occ:
  assumes "hole_inv t hole cur"
  shows "occ t hole" "occ t cur"
  using hole_invD(1-3) [OF assms] by simp_all

lemma hole_inv_next_not_hole:
  assumes inv: "hole_inv t hole cur"
  shows "nxt cur \<noteq> hole"
proof
  assume eq: "nxt cur = hole"
  have "cur < kTableSize" using inv by (simp add: hole_inv_def)
  then have full: "cdist hole cur = kTableSize - 1" using cdist_from_nxt_self eq by auto
  obtain e where e: "e < kTableSize" "\<not> occ t e" using inv by (auto simp: hole_inv_def)
  have "cdist hole e \<le> cdist hole cur"
    using cdist_less [of hole e] e(1) full inv by (simp add: hole_inv_def)
  with inv e show False by (auto simp: hole_inv_def)
qed

lemma remove_shift_skip:
  assumes inv: "hole_inv t hole cur" and j: "occ t (nxt cur)" "\<not> on_path t (nxt cur) hole"
  shows "hole_inv t hole (nxt cur)"
proof -
  have b: "hole < kTableSize" "cur < kTableSize" using inv by (auto simp: hole_inv_def)
  have step: "cdist hole (nxt cur) = cdist hole cur + 1"
    using cdist_to_nxt b hole_inv_next_not_hole [OF inv] by blast
  have upto: "occ t k" if "k < kTableSize" "cdist hole k \<le> cdist hole (nxt cur)" for k
  proof (cases "k = nxt cur")
    case False
    then have "cdist hole k \<noteq> cdist hole (nxt cur)"
      using cdist_inj [OF b(1) that(1) nxt_less] by blast
    then show ?thesis using that inv step by (auto simp: hole_inv_def)
  qed (use j in simp)
  have cross: "cdist hole (nxt cur) < cdist hole k"
    if k: "k < kTableSize" "occ t k" "k \<noteq> hole" "on_path t k hole" for k
  proof -
    have "cdist hole cur < cdist hole k" using inv k unfolding hole_inv_def by blast
    moreover have "cdist hole (nxt cur) \<noteq> cdist hole k"
      using cdist_inj [OF b(1) nxt_less k(1)] j(2) k(4) by metis
    ultimately show ?thesis using step by linarith
  qed
  show ?thesis
    using b(1) nxt_less upto hole_invD(4) [OF inv] cross hole_invD(6,7) [OF inv]
    by (rule hole_invI)
qed

lemma remove_shift_move:
  assumes inv: "hole_inv t hole cur" and j: "occ t (nxt cur)" "on_path t (nxt cur) hole"
  defines "t2 \<equiv> t(hole := t (nxt cur))"
  shows "hole_inv t2 (nxt cur) (nxt cur)" and "kept t2 (nxt cur) = kept t hole"
    and "occ t2 = occ t"
proof -
  have b: "hole < kTableSize" "nxt cur \<noteq> hole" "occ t hole"
    using hole_invD(1) [OF inv] hole_inv_next_not_hole [OF inv] hole_inv_occ(1) [OF inv] .
  show occ2: "occ t2 = occ t"
    using j(1) b(3) by (auto simp: t2_def occ_def fun_eq_iff)
  have other: "t2 k = t k" if "k \<noteq> hole" for k
    using that by (simp add: t2_def)
  show "hole_inv t2 (nxt cur) (nxt cur)"
  proof (rule hole_invI)
    show "occ t2 k" if "k < kTableSize" "cdist (nxt cur) k \<le> cdist (nxt cur) (nxt cur)" for k
      using that j(1) cdist_0 [OF nxt_less that(1), of cur] by (simp add: occ2)
  next
    fix k i
    assume k: "k < kTableSize" "i < kTableSize" "occ t2 k" "k \<noteq> nxt cur" "on_path t2 k i"
    show "occ t2 i"
    proof (cases "k = hole")
      case True
      with k(5) j(2) have "on_path t (nxt cur) i"
        by (simp add: on_path_def t2_def)
      with hole_invD(4) [OF inv nxt_less k(2) j(1) b(2)] show ?thesis by (simp add: occ2)
    next
      case False
      with k have "on_path t k i" by (simp add: on_path_def other)
      with hole_invD(4) [OF inv k(1,2)] k(3) False show ?thesis by (simp add: occ2)
    qed
  next
    show "cdist (nxt cur) (nxt cur) < cdist (nxt cur) k" if "k < kTableSize" "k \<noteq> nxt cur" for k
      using cdist_0 [OF nxt_less that(1), of cur] that(2) by simp
  next
    have kd: "keys_distinct t (\<lambda>k. occ t k \<and> k \<noteq> hole)"
      by (rule hole_invD(6) [OF inv])
    then have "keys_distinct t (\<lambda>k. occ t k \<and> k \<noteq> hole \<and> k \<noteq> nxt cur)"
      by (rule keys_distinct_sub) auto
    then show "keys_distinct t2 (\<lambda>k. occ t2 k \<and> k \<noteq> nxt cur)"
      unfolding t2_def
    proof (rule keys_distinct_upd)
      show "k = hole" if "k < kTableSize" "occ t k \<and> k \<noteq> hole \<and> k \<noteq> nxt cur"
          "ie_key (t k) = ie_key (t (nxt cur))" for k
        using keys_distinctD [OF kd that(1) nxt_less, of cur] that(2,3) j(1) b(2) by blast
      show "k = hole \<or> occ t k \<and> k \<noteq> hole \<and> k \<noteq> nxt cur"
        if "occ (t(hole := t (nxt cur))) k \<and> k \<noteq> nxt cur" for k
        using that occ2 unfolding t2_def by auto
    qed
  next
    show "\<exists>e < kTableSize. \<not> occ t2 e"
      using hole_invD(7) [OF inv] by (simp add: occ2)
  qed simp_all
  have "occupied t - {nxt cur} = insert hole (occupied t - {hole, nxt cur})"
    and "occupied t - {hole} = insert (nxt cur) (occupied t - {hole, nxt cur})"
    using b j(1) by (auto simp: occupied_def)
  moreover have "t2 ` (occupied t - {hole, nxt cur}) = t ` (occupied t - {hole, nxt cur})"
    by (rule image_cong) (auto simp: other)
  moreover have "occupied t2 = occupied t" and "t2 hole = t (nxt cur)"
    unfolding occupied_def occ2 by (simp_all add: t2_def)
  ultimately show "kept t2 (nxt cur) = kept t hole"
    unfolding kept_def by (metis image_insert)
qed

lemma remove_shift_spec:
  assumes "hole_inv t hole cur" "e < kTableSize" "\<not> occ t e"
  shows "\<exists>t'. remove_shift t hole cur = Some t' \<and> index_inv t' \<and>
    t' ` occupied t' = kept t hole"
  using assms
proof (induction "cdist cur e" arbitrary: t hole cur rule: less_induct)
  case less
  let ?j = "nxt cur"
  have cur: "cur < kTableSize" "cur \<noteq> e"
    using hole_invD(2) [OF less.prems(1)] hole_inv_occ(2) [OF less.prems(1)] less.prems(3) by auto
  then have "cdist cur e \<noteq> 0" using cdist_0 less.prems(2) by blast
  then have closer: "cdist ?j e < cdist cur e"
    using cdist_nxt cur less.prems(2) by simp
  have unfold: "remove_shift t hole cur =
      (if \<not> occ t ?j then Some (t(hole := empty_entry))
       else if entry_stays hole (home (ie_key (t ?j))) ?j then remove_shift t hole ?j
       else remove_shift (t(hole := t ?j)) ?j ?j)"
    by (subst remove_shift.simps) (simp add: Let_def nxt_def occ_def)
  have stays: "entry_stays hole (home (ie_key (t ?j))) ?j \<longleftrightarrow> \<not> on_path t ?j hole"
    using entry_stays_iff [OF hole_invD(1) [OF less.prems(1)] home_less nxt_less]
      hole_inv_next_not_hole [OF less.prems(1)] by (metis on_path_def)
  consider "\<not> occ t ?j" | "occ t ?j" "\<not> on_path t ?j hole" | "occ t ?j" "on_path t ?j hole"
    by blast
  then show ?case
  proof cases
    case 1
    with remove_shift_stop [OF less.prems(1)] show ?thesis by (simp add: unfold)
  next
    case 2
    with less.hyps [OF closer remove_shift_skip [OF less.prems(1)]] less.prems show ?thesis
      by (simp add: unfold stays)
  next
    case 3
    note mv = remove_shift_move [OF less.prems(1) 3]
    have "\<not> occ (t(hole := t ?j)) e" using less.prems(3) by (simp add: mv(3))
    with less.hyps [OF closer mv(1) less.prems(2)] 3 show ?thesis
      by (simp add: unfold stays mv(2))
  qed
qed

lemma index_abs_by_entries:
  assumes "index_inv t"
  shows "index_abs t oid = Some (s, sd) \<longleftrightarrow>
    \<lparr>ie_key = oid, ie_slot = s, ie_side = sd\<rparr> \<in> t ` occupied t"
  unfolding index_abs_Some_iff [OF assms] image_iff occupied_def by (simp add: eq_commute Bex_def conj_assoc)

lemma index_remove_correct:
  assumes inv: "index_inv t"
  shows "\<exists>t'. index_remove t oid = Some (index_abs t oid \<noteq> None, t') \<and> index_inv t' \<and>
    index_abs t' = (index_abs t)(oid := None)"
proof -
  obtain r where r: "r < kTableSize" "probe t oid = Some r" "occ t r \<longrightarrow> ie_key (t r) = oid"
    using probe_spec [OF inv, of oid] by blast
  show ?thesis
  proof (cases "occ t r")
    case False
    then have "index_remove t oid = Some (False, t)" "index_abs t oid = None"
      using r by (auto simp: index_remove_def index_abs_def index_lookup_def occ_def)
    with inv show ?thesis by auto
  next
    case True
    have kd: "keys_distinct t (occ t)" and ex: "\<exists>e < kTableSize. \<not> occ t e"
      using inv by (auto simp: index_inv_def)
    have "hole_inv t r r"
    proof (rule hole_invI)
      show "occ t k" if "k < kTableSize" "cdist r k \<le> cdist r r" for k
        using that True cdist_0 [OF r(1) that(1)] by simp
      show "occ t i" if "j < kTableSize" "i < kTableSize" "occ t j" "on_path t j i" for j i
        using inv that unfolding index_inv_def by blast
      show "cdist r r < cdist r j" if "j < kTableSize" "j \<noteq> r" for j
        using cdist_0 [OF r(1) that(1)] that(2) by simp
      show "keys_distinct t (\<lambda>j. occ t j \<and> j \<noteq> r)"
        using kd by (rule keys_distinct_sub) auto
    qed (use r(1) ex in auto)
    then obtain t' where t': "remove_shift t r r = Some t'" "index_inv t'"
        "t' ` occupied t' = kept t r"
      using remove_shift_spec ex by blast
    have at_r: "ie_key (t j) = oid \<longleftrightarrow> j = r" if "j \<in> occupied t" for j
      using that keys_distinctD [OF kd _ r(1), of j] r(3) True by (auto simp: occupied_def)
    have "index_abs t oid \<noteq> None"
      using index_abs_None_iff [OF inv] r True by blast
    then have "index_remove t oid = Some (index_abs t oid \<noteq> None, t')"
      using r(2) True t'(1) by (simp add: index_remove_def occ_def)
    moreover have "index_abs t' = (index_abs t)(oid := None)"
    proof
      fix k
      have "index_abs t' k = Some (s, sd) \<longleftrightarrow> ((index_abs t)(oid := None)) k = Some (s, sd)" for s sd
      proof -
        have "\<lparr>ie_key = k, ie_slot = s, ie_side = sd\<rparr> \<in> kept t r \<longleftrightarrow>
            k \<noteq> oid \<and> \<lparr>ie_key = k, ie_slot = s, ie_side = sd\<rparr> \<in> t ` occupied t"
          unfolding kept_def image_iff using at_r by (metis DiffD1 DiffD2 DiffI index_entry.select_convs(1) singletonD singletonI)
        then show ?thesis
          by (simp add: index_abs_by_entries [OF t'(2)] index_abs_by_entries [OF inv] t'(3))
      qed
      then show "index_abs t' k = ((index_abs t)(oid := None)) k"
        by (cases "index_abs t' k"; cases "((index_abs t)(oid := None)) k") (auto simp del: fun_upd_apply)
    qed
    ultimately show ?thesis using t'(2) by blast
  qed
qed

section \<open>The contract of an order-id map\<close>

text \<open>
  What the order book relies on: an invariant, an abstraction to a finite map, and three
  operations that return (the outer \<open>Some\<close>) and act as lookup, update and deletion. \<open>cap\<close>
  bounds the number of keys; \<open>ok\<close> says which values may be stored.
\<close>

locale id_map =
  fixes inv :: "'t \<Rightarrow> bool"
    and abs :: "'t \<Rightarrow> 'k \<rightharpoonup> nat \<times> nat"
    and lookup :: "'t \<Rightarrow> 'k \<Rightarrow> (nat \<times> nat) option option"
    and insert :: "'t \<Rightarrow> 'k \<Rightarrow> nat \<Rightarrow> nat \<Rightarrow> (bool \<times> 't) option"
    and remove :: "'t \<Rightarrow> 'k \<Rightarrow> (bool \<times> 't) option"
    and cap :: nat
    and ok :: "nat \<Rightarrow> bool"
  assumes lookup_law: "inv t \<Longrightarrow> lookup t k = Some (abs t k)"
    and insert_law: "inv t \<Longrightarrow> ok s \<Longrightarrow> Suc (card (dom (abs t))) < cap \<Longrightarrow>
      \<exists>t'. insert t k s sd = Some (True, t') \<and> inv t' \<and> abs t' = (abs t)(k \<mapsto> (s, sd))"
    and remove_law: "inv t \<Longrightarrow>
      \<exists>t'. remove t k = Some (abs t k \<noteq> None, t') \<and> inv t' \<and> abs t' = (abs t)(k := None)"
begin

text \<open>What a caller sees of one operation after another.\<close>

lemma lookup_after_insert:
  assumes "inv t" "ok s" "Suc (card (dom (abs t))) < cap"
  shows "\<exists>t'. insert t k s sd = Some (True, t') \<and> inv t' \<and> lookup t' k = Some (Some (s, sd)) \<and>
    (\<forall>k'. k' \<noteq> k \<longrightarrow> lookup t' k' = lookup t k')"
  using insert_law [OF assms] lookup_law assms(1) by fastforce

lemma lookup_after_remove:
  assumes "inv t"
  shows "\<exists>b t'. remove t k = Some (b, t') \<and> inv t' \<and> lookup t' k = Some None \<and>
    (\<forall>k'. k' \<noteq> k \<longrightarrow> lookup t' k' = lookup t k')"
  using remove_law [OF assms] lookup_law assms by fastforce

lemma remove_undoes_insert:
  assumes "inv t" "ok s" "Suc (card (dom (abs t))) < cap" "abs t k = None"
  shows "\<exists>t1 t2. insert t k s sd = Some (True, t1) \<and> remove t1 k = Some (True, t2) \<and>
    inv t2 \<and> abs t2 = abs t"
proof -
  obtain t1 where t1: "insert t k s sd = Some (True, t1)" "inv t1" "abs t1 = (abs t)(k \<mapsto> (s, sd))"
    using insert_law [OF assms(1-3)] by blast
  obtain t2 where "remove t1 k = Some (abs t1 k \<noteq> None, t2)" "inv t2" "abs t2 = (abs t1)(k := None)"
    using remove_law [OF t1(2)] by blast
  with t1 assms(4) show ?thesis by (auto simp: fun_upd_idem)
qed

end

interpretation oi: id_map index_inv index_abs index_lookup index_insert index_remove
  kTableSize "\<lambda>s. s \<noteq> kEmpty"
  by unfold_locales
    (rule index_lookup_returns index_insert_correct index_remove_correct, assumption+)+

end
