(* ===== verification/Slot_Pool.thy ===== *)
theory Slot_Pool
  imports Order_Index
begin

text \<open>
  \<^verbatim>\<open>OrderBook::SlotPool\<close>: parallel arrays for the order slots, the free list threaded
  through \<^verbatim>\<open>free_nexts\<close>, and the doubly-linked order queues threaded through
  \<^verbatim>\<open>nexts\<close> and \<^verbatim>\<open>prevs\<close>. The free list is shown to implement the
  allocator contract (locale \<open>slot_allocator\<close>); the queue segments get the lemmas for
  appending, unlinking and framing that the book needs.
\<close>

section \<open>The pool\<close>

record slot_pool =
  sp_ids :: "nat \<Rightarrow> order_id"
  sp_qtys :: "nat \<Rightarrow> qty"
  sp_nexts :: "nat \<Rightarrow> nat"
  sp_prevs :: "nat \<Rightarrow> nat"
  sp_free_nexts :: "nat \<Rightarrow> nat"
  sp_prices :: "nat \<Rightarrow> price"
  sp_accounts :: "nat \<Rightarrow> u32"
  sp_free_head :: nat
  sp_used :: u32

definition pool_init :: slot_pool where
  "pool_init = \<lparr>sp_ids = (\<lambda>_. 0), sp_qtys = (\<lambda>_. 0), sp_nexts = (\<lambda>_. NULL_IDX),
     sp_prevs = (\<lambda>_. NULL_IDX),
     sp_free_nexts = (\<lambda>i. if i < kMaxOrders - 1 then i + 1 else NULL_IDX),
     sp_prices = (\<lambda>_. 0), sp_accounts = (\<lambda>_. 0), sp_free_head = 0, sp_used = 0\<rparr>"

definition pool_alloc :: "slot_pool \<Rightarrow> nat \<times> slot_pool" where
  "pool_alloc sp =
    (if sp_free_head sp = NULL_IDX then (NULL_IDX, sp)
     else (let idx = sp_free_head sp in
       (idx, sp\<lparr>sp_free_head := sp_free_nexts sp idx, sp_used := sp_used sp + 1\<rparr>)))"

definition pool_free_slot :: "slot_pool \<Rightarrow> nat \<Rightarrow> slot_pool" where
  "pool_free_slot sp idx =
    sp\<lparr>sp_free_nexts := (sp_free_nexts sp)(idx := sp_free_head sp), sp_free_head := idx,
       sp_used := sp_used sp - 1\<rparr>"

section \<open>Free lists\<close>

fun chain :: "(nat \<Rightarrow> nat) \<Rightarrow> nat \<Rightarrow> nat list \<Rightarrow> bool" where
  "chain nx h [] \<longleftrightarrow> h = NULL_IDX"
| "chain nx h (x # xs) \<longleftrightarrow> h = x \<and> x \<noteq> NULL_IDX \<and> chain nx (nx x) xs"

lemma chain_frame [simp]: "x \<notin> set xs \<Longrightarrow> chain (nx(x := v)) h xs \<longleftrightarrow> chain nx h xs"
  by (induction xs arbitrary: h) auto

lemma chain_from_upt:
  assumes "m \<le> n" "n = kMaxOrders"
  shows "chain (\<lambda>i. if i < kMaxOrders - 1 then i + 1 else NULL_IDX) (if m < n then m else NULL_IDX) [m..<n]"
  using assms
proof (induction "n - m" arbitrary: m)
  case (Suc k)
  then have "[m..<n] = m # [Suc m..<n]" by (simp add: upt_conv_Cons)
  moreover have "m \<noteq> NULL_IDX" using Suc by (simp add: NULL_IDX_def kMaxOrders_def)
  moreover have "m < kMaxOrders - 1 \<longleftrightarrow> Suc m < n" using Suc.prems(2) by linarith
  ultimately show ?case using Suc.hyps(1) [of "Suc m"] Suc.hyps(2) Suc.prems by auto
qed simp

definition pool_inv :: "slot_pool \<Rightarrow> nat list \<Rightarrow> bool" where
  "pool_inv sp F \<longleftrightarrow> chain (sp_free_nexts sp) (sp_free_head sp) F \<and> distinct F \<and>
    set F \<subseteq> {0..<kMaxOrders} \<and> sp_used sp = of_nat (kMaxOrders - length F)"

lemma NULL_IDX_ge: "x < kMaxOrders \<Longrightarrow> x \<noteq> NULL_IDX"
  by (simp add: NULL_IDX_def kMaxOrders_def)

lemma kMaxOrders_not_kEmpty: "x < kMaxOrders \<Longrightarrow> x \<noteq> kEmpty"
  by (simp add: kEmpty_def kMaxOrders_def)

lemma pool_inv_init: "pool_inv pool_init [0..<kMaxOrders]"
  using chain_from_upt [of 0 kMaxOrders] by (simp add: pool_inv_def pool_init_def kMaxOrders_def)

lemma free_length: "distinct F \<Longrightarrow> set F \<subseteq> {0..<n} \<Longrightarrow> length F \<le> n"
  by (metis card_atLeastLessThan card_mono diff_zero distinct_card finite_atLeastLessThan)

section \<open>The allocator contract\<close>

text \<open>
  A state with a list of free cells, taken from and returned to its front. \<open>valid\<close> are the
  cells the allocator owns; \<open>none\<close> is what it returns when nothing is free.
\<close>

locale slot_allocator =
  fixes inv :: "'s \<Rightarrow> 'c list \<Rightarrow> bool"
    and alloc :: "'s \<Rightarrow> 'c \<times> 's"
    and free :: "'s \<Rightarrow> 'c \<Rightarrow> 's"
    and none :: 'c
    and valid :: "'c \<Rightarrow> bool"
  assumes alloc_full: "inv s [] \<Longrightarrow> alloc s = (none, s)"
    and alloc_law: "inv s (c # F) \<Longrightarrow> \<exists>s'. alloc s = (c, s') \<and> inv s' F \<and> c \<noteq> none"
    and free_law: "inv s F \<Longrightarrow> valid c \<Longrightarrow> c \<notin> set F \<Longrightarrow> inv (free s c) (c # F)"
    and owned: "inv s F \<Longrightarrow> c \<in> set F \<Longrightarrow> valid c"
    and no_dup: "inv s F \<Longrightarrow> distinct F"
begin

lemma alloc_fails_iff:
  assumes "inv s F"
  shows "fst (alloc s) = none \<longleftrightarrow> F = []"
  using assms alloc_full alloc_law by (cases F) fastforce+

lemma alloc_after_free:
  assumes "inv s F" "valid c" "c \<notin> set F"
  shows "\<exists>s'. alloc (free s c) = (c, s') \<and> inv s' F"
  using alloc_law [OF free_law [OF assms]] by blast

lemma alloc_fresh:
  assumes "inv s F" "alloc s = (c, s')" "c \<noteq> none"
  shows "\<exists>F'. F = c # F' \<and> inv s' F' \<and> c \<notin> set F' \<and> valid c"
proof (cases F)
  case Nil
  with assms alloc_full [of s] show ?thesis by simp
next
  case (Cons x F')
  with assms alloc_law [of s x F'] no_dup [OF assms(1)] owned [OF assms(1), of x] show ?thesis
    by auto
qed

text \<open>Allocating \<open>n\<close> cells one after another.\<close>

lemma alloc_all_distinct:
  assumes "inv s (xs @ F)"
  shows "\<exists>s'. inv s' F \<and> distinct xs \<and> set xs \<inter> set F = {}"
  using assms
proof (induction xs arbitrary: s)
  case Nil
  then show ?case by auto
next
  case (Cons x xs)
  then obtain s1 where "inv s1 (xs @ F)" using alloc_law by fastforce
  from Cons.IH [OF this] no_dup [OF Cons.prems] show ?case by auto
qed

end

lemma pool_alloc_full: "pool_inv sp [] \<Longrightarrow> pool_alloc sp = (NULL_IDX, sp)"
  by (simp add: pool_inv_def pool_alloc_def)

lemma pool_alloc_Cons:
  assumes "pool_inv sp (c # F)"
  shows "\<exists>sp'. pool_alloc sp = (c, sp') \<and> pool_inv sp' F \<and> c \<noteq> NULL_IDX"
proof -
  have "Suc (length F) \<le> kMaxOrders"
    using free_length [of "c # F" kMaxOrders] assms by (simp add: pool_inv_def)
  then have "(of_nat (kMaxOrders - Suc (length F)) :: u32) + 1 = of_nat (kMaxOrders - length F)"
    by (metis Suc_diff_le Suc_eq_plus1 diff_Suc_Suc of_nat_Suc add.commute)
  with assms show ?thesis
    by (auto simp: pool_inv_def pool_alloc_def Let_def)
qed

lemma pool_free_inv:
  assumes "pool_inv sp F" "c < kMaxOrders" "c \<notin> set F"
  shows "pool_inv (pool_free_slot sp c) (c # F)"
proof -
  have "length (c # F) \<le> kMaxOrders"
    using free_length [of "c # F" kMaxOrders] assms by (simp add: pool_inv_def)
  then have "(of_nat (kMaxOrders - length F) :: u32) - 1 = of_nat (kMaxOrders - Suc (length F))"
    by (metis Suc_diff_le add_diff_cancel_left' diff_Suc_Suc length_Cons of_nat_Suc)
  with assms show ?thesis
    by (auto simp: pool_inv_def pool_free_slot_def NULL_IDX_ge)
qed

lemma pool_inv_owned: "pool_inv sp F \<Longrightarrow> c \<in> set F \<Longrightarrow> c < kMaxOrders"
  by (auto simp: pool_inv_def)

lemma pool_inv_distinct: "pool_inv sp F \<Longrightarrow> distinct F"
  by (simp add: pool_inv_def)

interpretation sa: slot_allocator pool_inv pool_alloc pool_free_slot NULL_IDX "\<lambda>c. c < kMaxOrders"
  by unfold_locales
    (rule pool_alloc_full pool_alloc_Cons pool_free_inv pool_inv_owned pool_inv_distinct, assumption+)+

section \<open>Doubly-linked queue segments\<close>

text \<open>
  \<open>dls nx pv p q n h t\<close>: starting at \<open>h\<close>, the slots of \<open>q\<close> are linked forward by \<open>nx\<close> and
  backward by \<open>pv\<close>; the slot before the first is \<open>p\<close>, the one after the last is \<open>n\<close>, and
  \<open>t\<close> is the last slot (\<open>p\<close> when there is none).
\<close>

fun dls :: "(nat \<Rightarrow> nat) \<Rightarrow> (nat \<Rightarrow> nat) \<Rightarrow> nat \<Rightarrow> nat list \<Rightarrow> nat \<Rightarrow> nat \<Rightarrow> nat \<Rightarrow> bool" where
  "dls nx pv p [] n h t \<longleftrightarrow> h = n \<and> t = p"
| "dls nx pv p (x # q) n h t \<longleftrightarrow> h = x \<and> pv x = p \<and> dls nx pv x q n (nx x) t"

lemma dls_cong:
  assumes "\<And>x. x \<in> set q \<Longrightarrow> nx' x = nx x" "\<And>x. x \<in> set q \<Longrightarrow> pv' x = pv x"
  shows "dls nx' pv' p q n h t \<longleftrightarrow> dls nx pv p q n h t"
  using assms by (induction q arbitrary: p h) auto

lemma dls_frame [simp]:
  "x \<notin> set q \<Longrightarrow> dls (nx(x := v)) pv p q n h t \<longleftrightarrow> dls nx pv p q n h t"
  "x \<notin> set q \<Longrightarrow> dls nx (pv(x := v)) p q n h t \<longleftrightarrow> dls nx pv p q n h t"
  by (rule dls_cong; auto)+

lemma dls_append:
  "dls nx pv p (q1 @ q2) n h t \<longleftrightarrow> (\<exists>m l. dls nx pv p q1 m h l \<and> dls nx pv l q2 n m t)"
  by (induction q1 arbitrary: p h) auto

lemma dls_head: "dls nx pv p q n h t \<Longrightarrow> h = (if q = [] then n else hd q)"
  by (cases q) auto

lemma dls_tail: "dls nx pv p q n h t \<Longrightarrow> t = (if q = [] then p else last q)"
  by (induction q arbitrary: p h) auto

lemma dls_set_next:
  assumes "dls nx pv p q n h t" "q \<noteq> []" "distinct q"
  shows "dls (nx(last q := n')) pv p q n' h t"
  using assms
proof (induction q arbitrary: p h)
  case (Cons x q)
  show ?case
  proof (cases "q = []")
    case False
    then have "last q \<noteq> x" using Cons.prems(3) by (metis distinct.simps(2) last_in_set)
    with Cons False show ?thesis by simp
  qed (use Cons in simp)
qed simp

lemma dls_set_prev:
  assumes "dls nx pv p q n h t" "q \<noteq> []" "distinct q"
  shows "dls nx (pv(hd q := p')) p' q n h t"
  using assms by (cases q) simp_all

text \<open>Appending a slot at the tail, as \<^verbatim>\<open>add_order\<close> does.\<close>

lemma dls_snoc:
  assumes "dls nx pv NULL_IDX q NULL_IDX h t" "distinct q" "x \<notin> set q" "q \<noteq> []"
  shows "dls ((nx(x := NULL_IDX))(t := x)) (pv(x := t)) NULL_IDX (q @ [x]) NULL_IDX h x"
proof -
  have t: "t = last q" "t \<noteq> x" using assms dls_tail [OF assms(1)] by auto
  have "dls (nx(x := NULL_IDX)) (pv(x := t)) NULL_IDX q NULL_IDX h t"
    using assms(1,3) by simp
  from dls_set_next [OF this assms(4,2), of x] t show ?thesis
    by (auto simp: dls_append)
qed

text \<open>Unlinking a slot, as \<^verbatim>\<open>remove_order_from_level\<close> and \<^verbatim>\<open>modify_order\<close> do.\<close>

lemma dls_mid:
  assumes "dls nx pv NULL_IDX (a @ x # b) NULL_IDX h t"
  shows "pv x = (if a = [] then NULL_IDX else last a)" "nx x = (if b = [] then NULL_IDX else hd b)"
    "h = (if a = [] then x else hd a)" "t = (if b = [] then x else last b)"
proof -
  obtain l where *: "dls nx pv NULL_IDX a x h l" "pv x = l" "dls nx pv x b NULL_IDX (nx x) t"
    using assms by (auto simp: dls_append)
  show "pv x = (if a = [] then NULL_IDX else last a)" "h = (if a = [] then x else hd a)"
    using dls_tail [OF *(1)] dls_head [OF *(1)] *(2) by simp_all
  show "nx x = (if b = [] then NULL_IDX else hd b)" "t = (if b = [] then x else last b)"
    using dls_tail [OF *(3)] dls_head [OF *(3)] by simp_all
qed

definition unlink_nexts :: "(nat \<Rightarrow> nat) \<Rightarrow> nat \<Rightarrow> nat \<Rightarrow> (nat \<Rightarrow> nat)" where
  "unlink_nexts nx prev nxt1 = (if prev \<noteq> NULL_IDX then nx(prev := nxt1) else nx)"

definition unlink_prevs :: "(nat \<Rightarrow> nat) \<Rightarrow> nat \<Rightarrow> nat \<Rightarrow> (nat \<Rightarrow> nat)" where
  "unlink_prevs pv prev nxt1 = (if nxt1 \<noteq> NULL_IDX then pv(nxt1 := prev) else pv)"

lemma dls_unlink:
  assumes seg: "dls nx pv NULL_IDX (a @ x # b) NULL_IDX h t" and d: "distinct (a @ x # b)"
    and nn: "NULL_IDX \<notin> set (a @ x # b)"
  shows "dls (unlink_nexts nx (pv x) (nx x)) (unlink_prevs pv (pv x) (nx x))
    NULL_IDX (a @ b) NULL_IDX
    (if pv x \<noteq> NULL_IDX then h else nx x) (if nx x \<noteq> NULL_IDX then t else pv x)"
proof -
  obtain l where *: "dls nx pv NULL_IDX a x h l" "pv x = l" "dls nx pv x b NULL_IDX (nx x) t"
    using seg by (auto simp: dls_append)
  note mid = dls_mid [OF seg]
  have a: "dls (unlink_nexts nx (pv x) (nx x)) (unlink_prevs pv (pv x) (nx x)) NULL_IDX a (nx x)
      (if pv x \<noteq> NULL_IDX then h else nx x) l"
  proof (cases "a = []")
    case True
    with * mid show ?thesis by simp
  next
    case False
    then have l: "l = last a" "l \<noteq> NULL_IDX" using mid(1) *(2) nn by (auto dest: last_in_set)
    have "nx x \<notin> set a" using mid(2) d nn by (auto split: if_splits dest: hd_in_set)
    with dls_set_next [OF *(1) False, of "nx x"] d l *(2) show ?thesis
      by (cases "nx x = NULL_IDX") (simp_all add: unlink_nexts_def unlink_prevs_def)
  qed
  have b: "dls (unlink_nexts nx (pv x) (nx x)) (unlink_prevs pv (pv x) (nx x)) l b NULL_IDX
      (nx x) (if nx x \<noteq> NULL_IDX then t else pv x)"
  proof (cases "b = []")
    case True
    with * mid show ?thesis by simp
  next
    case False
    then have n: "nx x = hd b" "nx x \<noteq> NULL_IDX" using mid(2) nn by (auto dest: hd_in_set)
    have "l \<notin> set b" using mid(1) *(2) d nn by (auto split: if_splits dest: last_in_set)
    with dls_set_prev [OF *(3) False, of l] d n *(2) show ?thesis
      by (cases "l = NULL_IDX") (simp_all add: unlink_nexts_def unlink_prevs_def)
  qed
  from a b show ?thesis unfolding dls_append by blast
qed

end
