(* ===== verification/Price_Levels.thy ===== *)
theory Price_Levels
  imports Slot_Pool
begin

text \<open>
  \<^verbatim>\<open>OrderBook::Side\<close>: the price levels of one side as parallel arrays, best price
  first. Levels are found by a scan (scalar, or four lanes at a time with AVX2) and inserted
  or removed by \<^verbatim>\<open>memmove\<close> on each array. The theory proves the vectorised search equal
  to the scalar one and turns insertion and removal into operations on the list of levels.
\<close>

section \<open>One side of the book\<close>

definition kMaxLevels :: nat where
  "kMaxLevels = 4096"

record book_side =
  sd_prices :: "nat \<Rightarrow> price"
  sd_qtys :: "nat \<Rightarrow> qty"
  sd_order_counts :: "nat \<Rightarrow> u32"
  sd_head_idxs :: "nat \<Rightarrow> nat"
  sd_tail_idxs :: "nat \<Rightarrow> nat"
  sd_count :: nat

definition side_init :: book_side where
  "side_init = \<lparr>sd_prices = (\<lambda>_. 0), sd_qtys = (\<lambda>_. 0), sd_order_counts = (\<lambda>_. 0),
     sd_head_idxs = (\<lambda>_. NULL_IDX), sd_tail_idxs = (\<lambda>_. NULL_IDX), sd_count = 0\<rparr>"

section \<open>Level search\<close>

text \<open>The scalar loop; the code's result \<open>-1\<close> is \<open>None\<close>.\<close>

function find_level_from :: "(nat \<Rightarrow> price) \<Rightarrow> nat \<Rightarrow> price \<Rightarrow> nat \<Rightarrow> nat option" where
  "find_level_from prices count p i =
    (if i < count then (if prices i = p then Some i else find_level_from prices count p (i + 1))
     else None)"
  by pat_completeness auto
termination
  by (relation "measure (\<lambda>(prices, count, p, i). count - i)") auto

declare find_level_from.simps [simp del]

definition find_level :: "book_side \<Rightarrow> price \<Rightarrow> nat option" where
  "find_level s p = find_level_from (sd_prices s) (sd_count s) p 0"

text \<open>
  The AVX2 loop. \<open>movemask\<close> is \<^verbatim>\<open>_mm256_movemask_epi8\<close> of the lane-wise comparison:
  eight set bits for every lane that is equal; \<open>ctz\<close> counts trailing zero bits of a
  non-zero mask.
\<close>

definition movemask :: "(nat \<Rightarrow> price) \<Rightarrow> price \<Rightarrow> nat \<Rightarrow> u32" where
  "movemask prices p i =
    or (if prices i = p then 0x000000FF else 0)
   (or (if prices (i + 1) = p then 0x0000FF00 else 0)
   (or (if prices (i + 2) = p then 0x00FF0000 else 0)
       (if prices (i + 3) = p then 0xFF000000 else 0)))"

definition ctz :: "u32 \<Rightarrow> nat" where
  "ctz w = length (takeWhile (\<lambda>k. \<not> bit w k) [0..<32])"

function avx2_from :: "(nat \<Rightarrow> price) \<Rightarrow> nat \<Rightarrow> price \<Rightarrow> nat \<Rightarrow> nat option" where
  "avx2_from prices count p i =
    (if i + 4 \<le> count then
       (let msk = movemask prices p i in
        if msk \<noteq> 0 then Some (i + ctz msk div 8) else avx2_from prices count p (i + 4))
     else find_level_from prices count p i)"
  by pat_completeness auto
termination
  by (relation "measure (\<lambda>(prices, count, p, i). count - i)") auto

declare avx2_from.simps [simp del]

definition find_level_avx2 :: "(nat \<Rightarrow> price) \<Rightarrow> nat \<Rightarrow> price \<Rightarrow> nat option" where
  "find_level_avx2 prices count p = avx2_from prices count p 0"

section \<open>Insertion and removal of levels\<close>

text \<open>The position loop: past the strictly better prices.\<close>

function insert_pos :: "(nat \<Rightarrow> price) \<Rightarrow> nat \<Rightarrow> price \<Rightarrow> bool \<Rightarrow> nat \<Rightarrow> nat" where
  "insert_pos prices count p descending pos =
    (if pos < count \<and> (if descending then prices pos > p else prices pos < p)
     then insert_pos prices count p descending (pos + 1) else pos)"
  by pat_completeness auto
termination
  by (relation "measure (\<lambda>(prices, count, p, d, pos). count - pos)") (auto split: if_splits)

declare insert_pos.simps [simp del]

definition insert_level :: "book_side \<Rightarrow> price \<Rightarrow> bool \<Rightarrow> nat option \<times> book_side" where
  "insert_level s p descending =
    (if sd_count s \<ge> kMaxLevels then (None, s)
     else (let count = sd_count s;
               pos = insert_pos (sd_prices s) count p descending 0;
               n = count - pos;
               s1 = (if pos < count then
                   s\<lparr>sd_prices := memmove (sd_prices s) (Suc pos) pos n,
                     sd_qtys := memmove (sd_qtys s) (Suc pos) pos n,
                     sd_order_counts := memmove (sd_order_counts s) (Suc pos) pos n,
                     sd_head_idxs := memmove (sd_head_idxs s) (Suc pos) pos n,
                     sd_tail_idxs := memmove (sd_tail_idxs s) (Suc pos) pos n\<rparr>
                 else s)
           in (Some pos,
               s1\<lparr>sd_prices := (sd_prices s1)(pos := p),
                  sd_qtys := (sd_qtys s1)(pos := 0),
                  sd_order_counts := (sd_order_counts s1)(pos := 0),
                  sd_head_idxs := (sd_head_idxs s1)(pos := NULL_IDX),
                  sd_tail_idxs := (sd_tail_idxs s1)(pos := NULL_IDX),
                  sd_count := count + 1\<rparr>)))"

text \<open>\<^verbatim>\<open>remove_level\<close>; the code asserts \<^verbatim>\<open>idx < count\<close>.\<close>

definition remove_level :: "book_side \<Rightarrow> nat \<Rightarrow> book_side" where
  "remove_level s idx =
    (let n = sd_count s - idx - 1;
         s1 = (if n > 0 then
             s\<lparr>sd_prices := memmove (sd_prices s) idx (Suc idx) n,
               sd_qtys := memmove (sd_qtys s) idx (Suc idx) n,
               sd_order_counts := memmove (sd_order_counts s) idx (Suc idx) n,
               sd_head_idxs := memmove (sd_head_idxs s) idx (Suc idx) n,
               sd_tail_idxs := memmove (sd_tail_idxs s) idx (Suc idx) n\<rparr>
           else s)
     in s1\<lparr>sd_count := sd_count s - 1\<rparr>)"

section \<open>The search finds the first matching level\<close>

lemma find_level_from_Some_iff:
  "find_level_from prices count p i = Some k \<longleftrightarrow>
    i \<le> k \<and> k < count \<and> prices k = p \<and> (\<forall>j. i \<le> j \<and> j < k \<longrightarrow> prices j \<noteq> p)"
proof (induction prices count p i rule: find_level_from.induct)
  case (1 prices count p i)
  note IH = 1
  consider "\<not> i < count" | "i < count" "prices i = p" | "i < count" "prices i \<noteq> p"
    by blast
  then show ?case
  proof cases
    case 1
    then show ?thesis by (auto simp: find_level_from.simps [of prices count p i])
  next
    case 2
    then have "find_level_from prices count p i = Some i"
      by (simp add: find_level_from.simps [of prices count p i])
    with 2 show ?thesis by (auto simp: le_less)
  next
    case 3
    have "i \<le> k \<and> prices k = p \<longleftrightarrow> Suc i \<le> k \<and> prices k = p"
      using 3(2) by (auto simp: Suc_le_eq le_less)
    moreover have "(\<forall>j. i \<le> j \<and> j < k \<longrightarrow> prices j \<noteq> p) \<longleftrightarrow> (\<forall>j. Suc i \<le> j \<and> j < k \<longrightarrow> prices j \<noteq> p)"
      using 3(2) by (metis Suc_leD Suc_leI le_neq_implies_less)
    moreover have "find_level_from prices count p i = find_level_from prices count p (i + 1)"
      using 3 by (simp add: find_level_from.simps [of prices count p i])
    ultimately show ?thesis using IH [OF 3] 3 by (metis Suc_eq_plus1)
  qed
qed

lemma find_level_from_None_iff:
  "find_level_from prices count p i = None \<longleftrightarrow> (\<forall>j. i \<le> j \<and> j < count \<longrightarrow> prices j \<noteq> p)"
proof -
  have "find_level_from prices count p i = None" if "\<forall>j. i \<le> j \<and> j < count \<longrightarrow> prices j \<noteq> p"
    using that find_level_from_Some_iff by (metis not_Some_eq)
  moreover have "False"
    if "find_level_from prices count p i = None" "i \<le> j" "j < count" "prices j = p" for j
  proof -
    define k where "k = (LEAST k. i \<le> k \<and> prices k = p)"
    have "i \<le> k \<and> prices k = p" "k \<le> j"
      unfolding k_def using that(2,4) by (metis (mono_tags, lifting) LeastI Least_le)+
    moreover have "\<forall>j. i \<le> j \<and> j < k \<longrightarrow> prices j \<noteq> p"
      unfolding k_def using not_less_Least by blast
    ultimately have "find_level_from prices count p i = Some k"
      unfolding find_level_from_Some_iff using that(3) by auto
    with that(1) show False by simp
  qed
  ultimately show ?thesis by blast
qed

section \<open>The vectorised search\<close>

lemma movemask_zero:
  "movemask prices p i = 0 \<longleftrightarrow>
    prices i \<noteq> p \<and> prices (i + 1) \<noteq> p \<and> prices (i + 2) \<noteq> p \<and> prices (i + 3) \<noteq> p"
  by (simp add: movemask_def)

lemma movemask_lane:
  assumes "movemask prices p i \<noteq> 0"
  shows "ctz (movemask prices p i) div 8 =
    (if prices i = p then 0 else if prices (i + 1) = p then 1
     else if prices (i + 2) = p then 2 else 3)"
  using assms
  by (cases "prices i = p"; cases "prices (i + 1) = p"; cases "prices (i + 2) = p";
      cases "prices (i + 3) = p")
    (simp_all add: movemask_def, code_simp+)

lemma avx2_from_eq: "avx2_from prices count p i = find_level_from prices count p i"
proof (induction prices count p i rule: avx2_from.induct)
  case (1 prices count p i)
  show ?case
  proof (cases "i + 4 \<le> count")
    case False
    then show ?thesis by (simp add: avx2_from.simps [of prices count p i])
  next
    case True
    have step: "find_level_from prices count p i =
        (if prices i = p then Some i else if prices (i + 1) = p then Some (i + 1)
         else if prices (i + 2) = p then Some (i + 2) else if prices (i + 3) = p then Some (i + 3)
         else find_level_from prices count p (i + 4))"
      using True
      by (simp add: find_level_from.simps [of prices count p i]
          find_level_from.simps [of prices count p "i + 1"] find_level_from.simps [of prices count p "Suc i"]
          find_level_from.simps [of prices count p "Suc (Suc i)"]
          find_level_from.simps [of prices count p "Suc (Suc (Suc i))"] numeral_eq_Suc)
    show ?thesis
    proof (cases "movemask prices p i = 0")
      case zero: True
      then show ?thesis
        using 1 True by (simp add: avx2_from.simps [of prices count p i] step movemask_zero)
    next
      case False
      then have "prices i = p \<or> prices (i + 1) = p \<or> prices (i + 2) = p \<or> prices (i + 3) = p"
        by (simp add: movemask_zero)
      then show ?thesis
        using True False
        by (auto simp: avx2_from.simps [of prices count p i] Let_def step movemask_lane [OF False])
    qed
  qed
qed

section \<open>The levels as a list\<close>

text \<open>
  \<open>lev s i\<close> is the \<open>i\<close>-th column of the parallel arrays: price, total quantity, order count,
  head and tail slot. Insertion and removal are surgery on the list of columns.
\<close>

type_synonym column = "price \<times> qty \<times> u32 \<times> nat \<times> nat"

definition lev :: "book_side \<Rightarrow> nat \<Rightarrow> column" where
  "lev s i = (sd_prices s i, sd_qtys s i, sd_order_counts s i, sd_head_idxs s i, sd_tail_idxs s i)"

definition levs :: "book_side \<Rightarrow> column list" where
  "levs s = arr_list (lev s) (sd_count s)"

lemma length_levs [simp]: "length (levs s) = sd_count s"
  by (simp add: levs_def)

lemma nth_levs [simp]: "i < sd_count s \<Longrightarrow> levs s ! i = lev s i"
  by (simp add: levs_def)

lemma levs_update:
  assumes "sd_count s' = sd_count s" "lev s' = (lev s)(i := c)"
  shows "levs s' = (levs s)[i := c]"
  using assms by (simp add: levs_def arr_list_upd)

definition better :: "bool \<Rightarrow> price \<Rightarrow> price \<Rightarrow> bool" where
  "better descending a b = (if descending then a > b else a < b)"

lemma insert_pos_spec:
  assumes "k \<le> count" "\<And>j. j < k \<Longrightarrow> better d (prices j) p"
  shows "k \<le> insert_pos prices count p d k \<and> insert_pos prices count p d k \<le> count \<and>
    (\<forall>j < insert_pos prices count p d k. better d (prices j) p) \<and>
    (insert_pos prices count p d k < count \<longrightarrow> \<not> better d (prices (insert_pos prices count p d k)) p)"
  using assms
proof (induction prices count p d k rule: insert_pos.induct)
  case (1 prices count p d pos)
  show ?case
  proof (cases "pos < count \<and> better d (prices pos) p")
    case True
    then have eq: "insert_pos prices count p d pos = insert_pos prices count p d (pos + 1)"
      by (subst insert_pos.simps) (simp add: better_def)
    have "\<And>j. j < pos + 1 \<Longrightarrow> better d (prices j) p"
      using "1.prems"(2) True by (metis Suc_eq_plus1 less_SucE)
    from 1(1) [OF _ _ this] True show ?thesis
      unfolding eq by (simp add: better_def Suc_leD)
  next
    case False
    then have "insert_pos prices count p d pos = pos"
      by (subst insert_pos.simps) (simp only: better_def if_False)
    with "1.prems" False show ?thesis by auto
  qed
qed

lemmas insert_pos_from_0 = insert_pos_spec [of 0, simplified]

lemma insert_level_levs:
  assumes "sd_count s < kMaxLevels"
  shows "\<exists>pos s'. insert_level s p d = (Some pos, s') \<and> pos = insert_pos (sd_prices s) (sd_count s) p d 0 \<and>
    pos \<le> sd_count s \<and> sd_count s' = Suc (sd_count s) \<and>
    levs s' = take pos (levs s) @ (p, 0, 0, NULL_IDX, NULL_IDX) # drop pos (levs s)"
proof -
  define pos where "pos = insert_pos (sd_prices s) (sd_count s) p d 0"
  obtain r s' where r: "insert_level s p d = (r, s')" by fastforce
  have pos: "pos \<le> sd_count s" using insert_pos_from_0 unfolding pos_def by blast
  have 1: "r = Some pos" "sd_count s' = Suc (sd_count s)"
    using r assms by (auto simp: insert_level_def Let_def pos_def split: if_splits)
  have "lev s' = (memmove (lev s) (Suc pos) pos (sd_count s - pos))(pos := (p, 0, 0, NULL_IDX, NULL_IDX))"
    using r assms pos
    by (auto simp: insert_level_def Let_def pos_def [symmetric] lev_def memmove_def fun_eq_iff
        split: if_splits)
  then have "levs s' = take pos (levs s) @ (p, 0, 0, NULL_IDX, NULL_IDX) # drop pos (levs s)"
    unfolding levs_def 1(2) by (simp only: memmove_insert [OF pos])
  with r 1 pos show ?thesis unfolding pos_def by blast
qed

lemma insert_level_full: "sd_count s \<ge> kMaxLevels \<Longrightarrow> insert_level s p d = (None, s)"
  by (simp add: insert_level_def)

lemma remove_level_levs:
  assumes "idx < sd_count s"
  shows "sd_count (remove_level s idx) = sd_count s - 1"
    and "levs (remove_level s idx) = take idx (levs s) @ drop (Suc idx) (levs s)"
proof -
  show c: "sd_count (remove_level s idx) = sd_count s - 1"
    by (simp add: remove_level_def Let_def)
  have "lev (remove_level s idx) = memmove (lev s) idx (Suc idx) (sd_count s - idx - 1)"
    by (auto simp: remove_level_def Let_def lev_def memmove_def fun_eq_iff)
  then show "levs (remove_level s idx) = take idx (levs s) @ drop (Suc idx) (levs s)"
    unfolding levs_def c by (simp only: memmove_delete [OF assms])
qed

section \<open>Sorted levels\<close>

text \<open>Bids descend and asks ascend strictly, so a price has at most one level.\<close>

definition ordered :: "bool \<Rightarrow> price list \<Rightarrow> bool" where
  "ordered d ps = sorted_wrt (better d) ps"

lemma better_irrefl [simp]: "\<not> better d p p"
  by (simp add: better_def)

lemma better_trans: "better d a b \<Longrightarrow> better d b c \<Longrightarrow> better d a c"
  by (auto simp: better_def split: if_splits)

lemma not_better: "\<not> better d a b \<longleftrightarrow> a = b \<or> better d b a"
  by (auto simp: better_def)

lemma ordered_distinct: "ordered d ps \<Longrightarrow> distinct ps"
  unfolding ordered_def by (induction ps) auto

lemma ordered_append:
  "ordered d (ps @ qs) \<longleftrightarrow> ordered d ps \<and> ordered d qs \<and> (\<forall>a\<in>set ps. \<forall>b\<in>set qs. better d a b)"
  by (simp add: ordered_def sorted_wrt_append)

lemma ordered_Cons: "ordered d (p # ps) \<longleftrightarrow> (\<forall>b\<in>set ps. better d p b) \<and> ordered d ps"
  by (simp add: ordered_def)

lemma ordered_Nil [simp]: "ordered d []"
  by (simp add: ordered_def)

text \<open>
  In an ordered list, the insertion position splits it at the elements better than the new
  price.
\<close>

lemma ordered_insert_split:
  assumes "ordered d ps" "pos \<le> length ps" "\<forall>j < pos. better d (ps ! j) p"
    and "pos < length ps \<longrightarrow> \<not> better d (ps ! pos) p"
  shows "take pos ps = filter (\<lambda>x. better d x p) ps" and "drop pos ps = filter (\<lambda>x. \<not> better d x p) ps"
proof -
  have t: "\<forall>x\<in>set (take pos ps). better d x p"
    using assms(2,3) by (auto simp: in_set_conv_nth)
  have dr: "\<not> better d x p" if "x \<in> set (drop pos ps)" for x
  proof -
    have ne: "pos < length ps" using that by (metis drop_all equals0D leI list.set(1))
    then have "drop pos ps = ps ! pos # drop (Suc pos) ps" by (simp add: Cons_nth_drop_Suc)
    moreover have "ordered d (drop pos ps)"
      using assms(1) ordered_append [of d "take pos ps" "drop pos ps"] by simp
    ultimately have "x = ps ! pos \<or> better d (ps ! pos) x" using that by (auto simp: ordered_Cons)
    moreover have "\<not> better d (ps ! pos) p" using assms(4) ne by blast
    ultimately show ?thesis using better_trans by blast
  qed
  have f: "filter P ps = filter P (take pos ps) @ filter P (drop pos ps)" for P
    by (metis append_take_drop_id filter_append)
  have 1: "filter (\<lambda>x. better d x p) (take pos ps) = take pos ps"
    and 2: "filter (\<lambda>x. \<not> better d x p) (drop pos ps) = drop pos ps"
    and 3: "filter (\<lambda>x. better d x p) (drop pos ps) = []"
    and 4: "filter (\<lambda>x. \<not> better d x p) (take pos ps) = []"
    using t dr by (simp_all add: filter_id_conv filter_empty_conv)
  show "take pos ps = filter (\<lambda>x. better d x p) ps" unfolding f 1 3 by simp
  show "drop pos ps = filter (\<lambda>x. \<not> better d x p) ps" unfolding f 2 4 by simp
qed

end
