(* ===== verification/Order_Book.thy ===== *)
theory Order_Book
  imports Price_Levels
begin

text \<open>
  \<^verbatim>\<open>engine::OrderBook\<close> (\<^verbatim>\<open>core/order_book.hpp\<close>, \<^verbatim>\<open>core/order_book.cpp\<close>): the
  limit order book of one symbol, operation by operation as the code has it. Loops over linked
  slots may run forever on a corrupted book, so they are partial functions in the option monad;
  \<open>Book_Refine\<close> shows that on a well-formed book every operation returns. The executions the
  code passes to the match callback are collected, in order, in a list of reports.
\<close>

section \<open>State\<close>

record order_book =
  ob_symbol :: symbol_id
  ob_bids :: book_side
  ob_asks :: book_side
  ob_slots :: slot_pool
  ob_index :: index_table
  ob_stat_orders :: u64
  ob_stat_matches :: u64
  ob_stat_cancelled :: u64
  ob_stat_rejected :: u64
  ob_stat_stp :: u64

definition book_init :: "symbol_id \<Rightarrow> order_book" where
  "book_init symb = \<lparr>ob_symbol = symb, ob_bids = side_init, ob_asks = side_init,
     ob_slots = pool_init, ob_index = index_init, ob_stat_orders = 0, ob_stat_matches = 0,
     ob_stat_cancelled = 0, ob_stat_rejected = 0, ob_stat_stp = 0\<rparr>"

text \<open>The reference \<^verbatim>\<open>Side& side = is_bid ? bids_ : asks_\<close>, read and written.\<close>

definition ob_side :: "order_book \<Rightarrow> bool \<Rightarrow> book_side" where
  "ob_side b is_bid = (if is_bid then ob_bids b else ob_asks b)"

definition set_side :: "order_book \<Rightarrow> bool \<Rightarrow> book_side \<Rightarrow> order_book" where
  "set_side b is_bid s = (if is_bid then b\<lparr>ob_bids := s\<rparr> else b\<lparr>ob_asks := s\<rparr>)"

text \<open>The side code stored in the index: 0 for bids, 1 for asks.\<close>

definition side_code :: "bool \<Rightarrow> nat" where
  "side_code is_bid = (if is_bid then 0 else 1)"

section \<open>Matching\<close>

definition crosses :: "order \<Rightarrow> price \<Rightarrow> bool" where
  "crosses o1 px \<longleftrightarrow> ord_type o1 = Market \<or>
    (if is_buy o1 then \<not> ord_price o1 < px else \<not> ord_price o1 > px)"

text \<open>One iteration of the inner loop of \<^verbatim>\<open>try_match\<close>: fill against the head slot.\<close>

definition fill_head :: "price \<Rightarrow> order \<Rightarrow> order_book \<Rightarrow> (order \<times> order_book \<times> exec_report) option" where
  "fill_head best o1 b =
    (let pd = \<not> is_buy o1;
         s = ob_side b pd;
         sp = ob_slots b;
         slot = sd_head_idxs s 0;
         fill = min (ord_qty_remaining o1) (sp_qtys sp slot);
         sp1 = sp\<lparr>sp_qtys := (sp_qtys sp)(slot := sp_qtys sp slot - fill)\<rparr>;
         s1 = s\<lparr>sd_qtys := (sd_qtys s)(0 := sd_qtys s 0 - fill)\<rparr>;
         o2 = o1\<lparr>ord_qty_remaining := ord_qty_remaining o1 - fill\<rparr>;
         rpt = \<lparr>er_order_id = ord_id o1, er_contra_order_id = sp_ids sp slot,
                er_exec_price = best, er_exec_qty = fill,
                er_leaves_qty = ord_qty_remaining o2, er_symbol = ob_symbol b,
                er_side = ord_side o1,
                er_exec_type = (if ord_qty_remaining o2 = 0 then ExecFill else ExecPartialFill)\<rparr>;
         b1 = (set_side b pd s1)\<lparr>ob_slots := sp1, ob_stat_matches := ob_stat_matches b + 1\<rparr>
     in if sp_qtys sp1 slot = 0 then do {
          let nx = sp_nexts sp1 slot;
          let s2 = s1\<lparr>sd_head_idxs := (sd_head_idxs s1)(0 := nx)\<rparr>;
          let s3 = (if nx = NULL_IDX then s2\<lparr>sd_tail_idxs := (sd_tail_idxs s2)(0 := NULL_IDX)\<rparr> else s2);
          let sp2 = (if nx = NULL_IDX then sp1 else sp1\<lparr>sp_prevs := (sp_prevs sp1)(nx := NULL_IDX)\<rparr>);
          let s4 = s3\<lparr>sd_order_counts := (sd_order_counts s3)(0 := sd_order_counts s3 0 - 1)\<rparr>;
          (_, t) \<leftarrow> index_remove (ob_index b1) (sp_ids sp2 slot);
          Some (o2, (set_side b1 pd s4)\<lparr>ob_slots := pool_free_slot sp2 slot, ob_index := t\<rparr>, rpt)
        }
        else Some (o2, b1, rpt))"

text \<open>
  The inner loop; its first result says that it returned at a self-trade wall. The last
  component accumulates the reports.
\<close>

partial_function (option) match_level ::
    "price \<Rightarrow> order \<Rightarrow> order_book \<Rightarrow> exec_report list \<Rightarrow>
      (bool \<times> order \<times> order_book \<times> exec_report list) option" where
  "match_level best o1 b rs =
    (let slot = sd_head_idxs (ob_side b (\<not> is_buy o1)) 0 in
     if slot \<noteq> NULL_IDX \<and> ord_qty_remaining o1 > 0 then
       if ord_account o1 \<noteq> 0 \<and> ord_account o1 = sp_accounts (ob_slots b) slot
       then Some (True, o1, b, rs)
       else Option.bind (fill_head best o1 b)
         (\<lambda>(o2, b2, rpt). match_level best o2 b2 (rs @ [rpt]))
     else Some (False, o1, b, rs))"

text \<open>The outer loop over the best passive level.\<close>

partial_function (option) match_loop ::
    "order \<Rightarrow> order_book \<Rightarrow> exec_report list \<Rightarrow>
      (bool \<times> order \<times> order_book \<times> exec_report list) option" where
  "match_loop o1 b rs =
    (let pd = \<not> is_buy o1; s = ob_side b pd in
     if ord_qty_remaining o1 > 0 \<and> sd_count s > 0 then
       (let best = sd_prices s 0 in
        if \<not> crosses o1 best then Some (False, o1, b, rs)
        else Option.bind (match_level best o1 b rs)
          (\<lambda>(walled, o2, b2, rs2).
            if walled then Some (True, o2, b2, rs2)
            else match_loop o2
              (if sd_order_counts (ob_side b2 pd) 0 = 0
               then set_side b2 pd (remove_level (ob_side b2 pd) 0) else b2) rs2))
     else Some (False, o1, b, rs))"

definition try_match :: "order \<Rightarrow> order_book \<Rightarrow> (bool \<times> order \<times> order_book \<times> exec_report list) option" where
  "try_match o1 b = match_loop o1 b []"

section \<open>Fill-or-kill pre-check\<close>

text \<open>The walk of one queue; the first result says that \<^verbatim>\<open>available_liquidity\<close> returned.\<close>

partial_function (option) liquidity_queue ::
    "slot_pool \<Rightarrow> order \<Rightarrow> nat \<Rightarrow> u64 \<Rightarrow> (bool \<times> u64) option" where
  "liquidity_queue sp o1 idx tot =
    (if idx \<noteq> NULL_IDX then
       if ord_account o1 \<noteq> 0 \<and> ord_account o1 = sp_accounts sp idx then Some (True, tot)
       else (let tot' = tot + ucast (sp_qtys sp idx) in
         if tot' \<ge> ucast (ord_qty_remaining o1) then Some (True, tot')
         else liquidity_queue sp o1 (sp_nexts sp idx) tot')
     else Some (False, tot))"

partial_function (option) liquidity_levels ::
    "book_side \<Rightarrow> slot_pool \<Rightarrow> order \<Rightarrow> nat \<Rightarrow> u64 \<Rightarrow> u64 option" where
  "liquidity_levels s sp o1 i tot =
    (if i < sd_count s then
       if \<not> crosses o1 (sd_prices s i) then Some tot
       else Option.bind (liquidity_queue sp o1 (sd_head_idxs s i) tot)
         (\<lambda>(stop, tot'). if stop then Some tot' else liquidity_levels s sp o1 (i + 1) tot')
     else Some tot)"

definition available_liquidity :: "order_book \<Rightarrow> order \<Rightarrow> qty option" where
  "available_liquidity b o1 = do {
     tot \<leftarrow> liquidity_levels (ob_side b (\<not> is_buy o1)) (ob_slots b) o1 0 0;
     Some (ucast (min tot 0xFFFFFFFF))
   }"

section \<open>Adding an order\<close>

text \<open>Writing the order into its slot and appending the slot to the level's queue.\<close>

definition link_tail :: "order_book \<Rightarrow> bool \<Rightarrow> nat \<Rightarrow> nat \<Rightarrow> order \<Rightarrow> order_book" where
  "link_tail b is_bid lvl slot o1 =
    (let s = ob_side b is_bid;
         sp = ob_slots b;
         sp1 = sp\<lparr>sp_ids := (sp_ids sp)(slot := ord_id o1),
                 sp_accounts := (sp_accounts sp)(slot := ord_account o1),
                 sp_qtys := (sp_qtys sp)(slot := ord_qty_remaining o1),
                 sp_nexts := (sp_nexts sp)(slot := NULL_IDX),
                 sp_prices := (sp_prices sp)(slot := ord_price o1)\<rparr>;
         old_tail = sd_tail_idxs s lvl;
         sp2 = (if sd_head_idxs s lvl = NULL_IDX
           then sp1\<lparr>sp_prevs := (sp_prevs sp1)(slot := NULL_IDX)\<rparr>
           else sp1\<lparr>sp_nexts := (sp_nexts sp1)(old_tail := slot),
                   sp_prevs := (sp_prevs sp1)(slot := old_tail)\<rparr>);
         s1 = (if sd_head_idxs s lvl = NULL_IDX
           then s\<lparr>sd_head_idxs := (sd_head_idxs s)(lvl := slot),
                  sd_tail_idxs := (sd_tail_idxs s)(lvl := slot)\<rparr>
           else s\<lparr>sd_tail_idxs := (sd_tail_idxs s)(lvl := slot)\<rparr>);
         s2 = s1\<lparr>sd_qtys := (sd_qtys s1)(lvl := sd_qtys s1 lvl + ord_qty_remaining o1),
                 sd_order_counts := (sd_order_counts s1)(lvl := sd_order_counts s1 lvl + 1)\<rparr>
     in (set_side b is_bid s2)\<lparr>ob_slots := sp2\<rparr>)"

text \<open>The part of \<^verbatim>\<open>add_order\<close> that rests the remainder.\<close>

definition rest_order :: "order_book \<Rightarrow> order \<Rightarrow> (bool \<times> order_book) option" where
  "rest_order b o1 =
    (let is_bid = is_buy o1;
         reject = (\<lambda>b'. (False, b'\<lparr>ob_stat_rejected := ob_stat_rejected b' + 1\<rparr>));
         found = find_level (ob_side b is_bid) (ord_price o1);
         (lvl, created, b1) = (case found of
             Some i \<Rightarrow> (Some i, False, b)
           | None \<Rightarrow> (let (r, s') = insert_level (ob_side b is_bid) (ord_price o1) is_bid
                     in (r, True, set_side b is_bid s')))
     in case lvl of
          None \<Rightarrow> Some (reject b1)
        | Some i \<Rightarrow>
          (let (slot, sp) = pool_alloc (ob_slots b1);
               b2 = b1\<lparr>ob_slots := sp\<rparr>
           in if slot = NULL_IDX then
                Some (reject (if created then set_side b2 is_bid (remove_level (ob_side b2 is_bid) i)
                              else b2))
              else do {
                let b3 = link_tail b2 is_bid i slot o1;
                (_, t) \<leftarrow> index_insert (ob_index b3) (ord_id o1) slot (side_code is_bid);
                Some (True, b3\<lparr>ob_index := t\<rparr>)
              }))"

definition add_order :: "order_book \<Rightarrow> order \<Rightarrow> (bool \<times> order_book \<times> exec_report list) option" where
  "add_order b0 ord =
    (let b = b0\<lparr>ob_stat_orders := ob_stat_orders b0 + 1\<rparr> in
     if ord_type ord = Market \<or> ord_type ord = IOC \<or> ord_type ord = FOK then do {
       enough \<leftarrow> (if ord_type ord = FOK
         then do { l \<leftarrow> available_liquidity b ord; Some (\<not> l < ord_qty_remaining ord) }
         else Some True);
       if \<not> enough then Some (False, b\<lparr>ob_stat_rejected := ob_stat_rejected b + 1\<rparr>, [])
       else do {
         (_, _, b1, rs) \<leftarrow> try_match ord b;
         Some (True, b1, rs)
       }
     }
     else do {
       (stp_walled, o1, b1, rs) \<leftarrow> try_match ord b;
       if is_filled o1 then Some (True, b1, rs)
       else if stp_walled then Some (True, b1\<lparr>ob_stat_stp := ob_stat_stp b1 + 1\<rparr>, rs)
       else do {
         (ok, b2) \<leftarrow> rest_order b1 o1;
         Some (ok, b2, rs)
       }
     })"

section \<open>Cancel and modify\<close>

text \<open>Unlinking a slot from its level's queue: head, tail and neighbours.\<close>

definition unlink_slot :: "book_side \<Rightarrow> slot_pool \<Rightarrow> nat \<Rightarrow> nat \<Rightarrow> book_side \<times> slot_pool" where
  "unlink_slot s sp lvl slot =
    (let prev = sp_prevs sp slot;
         next1 = sp_nexts sp slot;
         (s1, sp1) = (if prev \<noteq> NULL_IDX
           then (s, sp\<lparr>sp_nexts := (sp_nexts sp)(prev := next1)\<rparr>)
           else (s\<lparr>sd_head_idxs := (sd_head_idxs s)(lvl := next1)\<rparr>, sp))
     in if next1 \<noteq> NULL_IDX
        then (s1, sp1\<lparr>sp_prevs := (sp_prevs sp1)(next1 := prev)\<rparr>)
        else (s1\<lparr>sd_tail_idxs := (sd_tail_idxs s1)(lvl := prev)\<rparr>, sp1))"

definition remove_order_from_level :: "order_book \<Rightarrow> nat \<Rightarrow> nat \<Rightarrow> nat \<Rightarrow> order_book" where
  "remove_order_from_level b side_idx level_idx slot =
    (let d = (side_idx = 0);
         s = ob_side b d;
         sp = ob_slots b;
         s1 = s\<lparr>sd_qtys := (sd_qtys s)(level_idx := sd_qtys s level_idx - sp_qtys sp slot),
                sd_order_counts := (sd_order_counts s)(level_idx := sd_order_counts s level_idx - 1)\<rparr>;
         (s2, sp1) = unlink_slot s1 sp level_idx slot;
         sp2 = pool_free_slot sp1 slot;
         s3 = (if sd_order_counts s2 level_idx = 0 then remove_level s2 level_idx else s2)
     in (set_side b d s3)\<lparr>ob_slots := sp2\<rparr>)"

definition cancel_order :: "order_book \<Rightarrow> order_id \<Rightarrow> (bool \<times> order_book) option" where
  "cancel_order b oid = do {
     r \<leftarrow> index_lookup (ob_index b) oid;
     (case r of
        None \<Rightarrow> Some (False, b)
      | Some (slot, side_idx) \<Rightarrow>
        (let price1 = sp_prices (ob_slots b) slot in
         case find_level (ob_side b (side_idx = 0)) price1 of
           None \<Rightarrow> do { (_, t) \<leftarrow> index_remove (ob_index b) oid; Some (False, b\<lparr>ob_index := t\<rparr>) }
         | Some lvl \<Rightarrow> do {
             let b1 = remove_order_from_level b side_idx lvl slot;
             (_, t) \<leftarrow> index_remove (ob_index b1) oid;
             Some (True, b1\<lparr>ob_index := t, ob_stat_cancelled := ob_stat_cancelled b1 + 1\<rparr>)
           }))
   }"

text \<open>The re-append of \<^verbatim>\<open>modify_order\<close>: to the tail of the same level.\<close>

definition relink_tail :: "book_side \<Rightarrow> slot_pool \<Rightarrow> nat \<Rightarrow> nat \<Rightarrow> book_side \<times> slot_pool" where
  "relink_tail s sp lvl slot =
    (if sd_head_idxs s lvl = NULL_IDX then
       (s\<lparr>sd_head_idxs := (sd_head_idxs s)(lvl := slot), sd_tail_idxs := (sd_tail_idxs s)(lvl := slot)\<rparr>,
        sp\<lparr>sp_prevs := (sp_prevs sp)(slot := NULL_IDX), sp_nexts := (sp_nexts sp)(slot := NULL_IDX)\<rparr>)
     else (let old_tail = sd_tail_idxs s lvl in
       (s\<lparr>sd_tail_idxs := (sd_tail_idxs s)(lvl := slot)\<rparr>,
        sp\<lparr>sp_prevs := (sp_prevs sp)(slot := old_tail),
           sp_nexts := (sp_nexts sp)(old_tail := slot, slot := NULL_IDX)\<rparr>)))"

definition modify_order :: "order_book \<Rightarrow> order_id \<Rightarrow> qty \<Rightarrow> (bool \<times> order_book) option" where
  "modify_order b oid new_qty = do {
     r \<leftarrow> index_lookup (ob_index b) oid;
     (case r of
        None \<Rightarrow> Some (False, b)
      | Some (slot, side_idx) \<Rightarrow>
        (let d = (side_idx = 0); s = ob_side b d; sp = ob_slots b; old_qty = sp_qtys sp slot in
         case find_level s (sp_prices sp slot) of
           None \<Rightarrow> do { (_, t) \<leftarrow> index_remove (ob_index b) oid; Some (False, b\<lparr>ob_index := t\<rparr>) }
         | Some lvl \<Rightarrow>
           (if new_qty > old_qty then
              (let (s1, sp1) = unlink_slot s sp lvl slot;
                   (s2, sp2) = relink_tail s1 sp1 lvl slot;
                   s3 = s2\<lparr>sd_qtys := (sd_qtys s2)(lvl := sd_qtys s2 lvl + (new_qty - old_qty))\<rparr>;
                   sp3 = sp2\<lparr>sp_qtys := (sp_qtys sp2)(slot := new_qty)\<rparr>
               in Some (True, (set_side b d s3)\<lparr>ob_slots := sp3\<rparr>))
            else if new_qty < old_qty then
              (let s1 = s\<lparr>sd_qtys := (sd_qtys s)(lvl := sd_qtys s lvl - (old_qty - new_qty))\<rparr>;
                   sp1 = sp\<lparr>sp_qtys := (sp_qtys sp)(slot := new_qty)\<rparr>;
                   b1 = (set_side b d s1)\<lparr>ob_slots := sp1\<rparr>
               in if new_qty = 0 then do {
                    let b2 = remove_order_from_level b1 side_idx lvl slot;
                    (_, t) \<leftarrow> index_remove (ob_index b2) oid;
                    Some (True, b2\<lparr>ob_index := t\<rparr>)
                  }
                  else Some (True, b1))
            else Some (True, b))))
   }"

section \<open>Queries\<close>

definition best_quote :: "order_book \<Rightarrow> best_quote_rec" where
  "best_quote b = \<lparr>
     bq_bid_price = (if sd_count (ob_bids b) > 0 then sd_prices (ob_bids b) 0 else PRICE_INVALID),
     bq_ask_price = (if sd_count (ob_asks b) > 0 then sd_prices (ob_asks b) 0 else PRICE_INVALID),
     bq_bid_qty = (if sd_count (ob_bids b) > 0 then sd_qtys (ob_bids b) 0 else 0),
     bq_ask_qty = (if sd_count (ob_asks b) > 0 then sd_qtys (ob_asks b) 0 else 0),
     bq_symbol = ob_symbol b\<rparr>"

record price_level =
  pl_price :: price
  pl_total_qty :: qty
  pl_order_count :: u32
  pl_head_idx :: nat

text \<open>The depth written into a span of \<open>out_size\<close> elements; its length is the returned count.\<close>

definition side_depth :: "book_side \<Rightarrow> nat \<Rightarrow> price_level list" where
  "side_depth s out_size = map (\<lambda>i. \<lparr>pl_price = sd_prices s i, pl_total_qty = sd_qtys s i,
     pl_order_count = sd_order_counts s i, pl_head_idx = sd_head_idxs s i\<rparr>)
     [0..<min out_size (sd_count s)]"

definition bid_depth :: "order_book \<Rightarrow> nat \<Rightarrow> price_level list" where
  "bid_depth b out_size = side_depth (ob_bids b) out_size"

definition ask_depth :: "order_book \<Rightarrow> nat \<Rightarrow> price_level list" where
  "ask_depth b out_size = side_depth (ob_asks b) out_size"

section \<open>Reading and writing a side\<close>

lemma ob_side_set_side [simp]:
  "ob_side (set_side b d s) d' = (if d' = d then s else ob_side b d')"
  by (cases d; cases d') (simp_all add: ob_side_def set_side_def)

lemma set_side_sel [simp]:
  "ob_slots (set_side b d s) = ob_slots b" "ob_index (set_side b d s) = ob_index b"
  "ob_symbol (set_side b d s) = ob_symbol b" "ob_stat_matches (set_side b d s) = ob_stat_matches b"
  "ob_stat_orders (set_side b d s) = ob_stat_orders b"
  "ob_stat_cancelled (set_side b d s) = ob_stat_cancelled b"
  "ob_stat_rejected (set_side b d s) = ob_stat_rejected b"
  "ob_stat_stp (set_side b d s) = ob_stat_stp b"
  by (simp_all add: set_side_def)

lemma ob_side_upd [simp]:
  "ob_side (b\<lparr>ob_slots := sp\<rparr>) d = ob_side b d" "ob_side (b\<lparr>ob_index := t\<rparr>) d = ob_side b d"
  "ob_side (b\<lparr>ob_stat_matches := m\<rparr>) d = ob_side b d"
  "ob_side (b\<lparr>ob_stat_orders := m\<rparr>) d = ob_side b d"
  "ob_side (b\<lparr>ob_stat_cancelled := m\<rparr>) d = ob_side b d"
  "ob_side (b\<lparr>ob_stat_rejected := m\<rparr>) d = ob_side b d"
  "ob_side (b\<lparr>ob_stat_stp := m\<rparr>) d = ob_side b d"
  by (simp_all add: ob_side_def)

lemma side_code_eq [simp]: "side_code d = 0 \<longleftrightarrow> d" "side_code d = side_code d' \<longleftrightarrow> d = d'"
  by (simp_all add: side_code_def)

end
