(* ===== verification/Book_Abs.thy ===== *)
theory Book_Abs
  imports Order_Book
begin

text \<open>
  What the order book promises, without slots, links or index: each side is a list of price
  levels, best first, and a level is the queue of resting orders in arrival order. The matching,
  resting, cancelling and modifying of this abstract book are defined here and their properties
  (price-time order, quantity conservation, all-or-none, no crossed book) proved on it;
  \<open>Book_Refine\<close> shows that \<^verbatim>\<open>OrderBook\<close> implements it.
\<close>

section \<open>The abstract book\<close>

record resting =
  rs_id :: order_id
  rs_qty :: qty
  rs_acct :: u32

type_synonym alevel = "price \<times> resting list"

text \<open>The bids are \<open>A True\<close>, the asks \<open>A False\<close>.\<close>

type_synonym abook = "bool \<Rightarrow> alevel list"

abbreviation prices_of :: "('p \<times> 'q) list \<Rightarrow> 'p list" where
  "prices_of ls \<equiv> map fst ls"

definition orders_of :: "(price \<times> 'a list) list \<Rightarrow> 'a list" where
  "orders_of ls = concat (map snd ls)"

lemma orders_of_simps [simp]:
  "orders_of [] = []" "orders_of (l # ls) = snd l @ orders_of ls"
  "orders_of (ls @ ms) = orders_of ls @ orders_of ms"
  by (simp_all add: orders_of_def)

definition num_orders :: "abook \<Rightarrow> nat" where
  "num_orders A = length (orders_of (A True)) + length (orders_of (A False))"

definition all_ids :: "abook \<Rightarrow> order_id set" where
  "all_ids A = rs_id ` (set (orders_of (A True)) \<union> set (orders_of (A False)))"

text \<open>What every reachable book satisfies.\<close>

definition wf_side :: "bool \<Rightarrow> alevel list \<Rightarrow> bool" where
  "wf_side d ls \<longleftrightarrow> ordered d (prices_of ls) \<and> length ls \<le> kMaxLevels \<and>
    (\<forall>l\<in>set ls. snd l \<noteq> []) \<and> (\<forall>r\<in>set (orders_of ls). rs_qty r \<noteq> 0) \<and>
    distinct (map rs_id (orders_of ls))"

definition wf_abook :: "abook \<Rightarrow> bool" where
  "wf_abook A \<longleftrightarrow> wf_side True (A True) \<and> wf_side False (A False) \<and>
    rs_id ` set (orders_of (A True)) \<inter> rs_id ` set (orders_of (A False)) = {} \<and>
    num_orders A \<le> kMaxOrders"

text \<open>No bid reaches an ask.\<close>

definition uncrossed :: "abook \<Rightarrow> bool" where
  "uncrossed A \<longleftrightarrow> (\<forall>b\<in>set (prices_of (A True)). \<forall>a\<in>set (prices_of (A False)). b < a)"

definition abook_init :: abook where
  "abook_init = (\<lambda>_. [])"

section \<open>Matching\<close>

text \<open>
  Filling a queue front to back: the fills (resting id, quantity), what is left of the incoming
  quantity, the queue that remains, and whether a resting order of the same account stopped it.
\<close>

fun afill :: "u32 \<Rightarrow> qty \<Rightarrow> resting list \<Rightarrow> (order_id \<times> qty) list \<times> qty \<times> resting list \<times> bool" where
  "afill acct q [] = ([], q, [], False)"
| "afill acct q (r # R) =
    (if q = 0 then ([], 0, r # R, False)
     else if acct \<noteq> 0 \<and> acct = rs_acct r then ([], q, r # R, True)
     else if rs_qty r \<le> q then
       (let (fs, q', R', w) = afill acct (q - rs_qty r) R in ((rs_id r, rs_qty r) # fs, q', R', w))
     else ([(rs_id r, q)], 0, r\<lparr>rs_qty := rs_qty r - q\<rparr> # R, False))"

definition priced :: "price \<Rightarrow> (order_id \<times> qty) list \<Rightarrow> (order_id \<times> price \<times> qty) list" where
  "priced p fs = map (\<lambda>(c, f). (c, p, f)) fs"

fun amatch :: "(price \<Rightarrow> bool) \<Rightarrow> u32 \<Rightarrow> qty \<Rightarrow> alevel list \<Rightarrow>
    (order_id \<times> price \<times> qty) list \<times> qty \<times> alevel list \<times> bool" where
  "amatch cr acct q [] = ([], q, [], False)"
| "amatch cr acct q ((p, R) # L) =
    (if q = 0 \<or> \<not> cr p then ([], q, (p, R) # L, False)
     else (let (fs, q', R', w) = afill acct q R in
       if w then (priced p fs, q', (p, R') # L, True)
       else if R' = [] then
         (let (gs, q'', L', w') = amatch cr acct q' L in (priced p fs @ gs, q'', L', w'))
       else (priced p fs, q', (p, R') # L, False)))"

definition report :: "symbol_id \<Rightarrow> order \<Rightarrow> order_id \<Rightarrow> price \<Rightarrow> qty \<Rightarrow> exec_report" where
  "report symb o1 c p f = \<lparr>er_order_id = ord_id o1, er_contra_order_id = c, er_exec_price = p,
     er_exec_qty = f, er_leaves_qty = ord_qty_remaining o1 - f, er_symbol = symb,
     er_side = ord_side o1,
     er_exec_type = (if ord_qty_remaining o1 - f = 0 then ExecFill else ExecPartialFill)\<rparr>"

fun reports :: "symbol_id \<Rightarrow> order \<Rightarrow> (order_id \<times> price \<times> qty) list \<Rightarrow> exec_report list" where
  "reports symb o1 [] = []"
| "reports symb o1 ((c, p, f) # fs) =
    report symb o1 c p f # reports symb (o1\<lparr>ord_qty_remaining := ord_qty_remaining o1 - f\<rparr>) fs"

section \<open>Liquidity available to a fill-or-kill order\<close>

text \<open>The quantity that can trade before a same-account order or a price that does not cross.\<close>

fun aliq_queue :: "u32 \<Rightarrow> resting list \<Rightarrow> bool \<times> nat" where
  "aliq_queue acct [] = (False, 0)"
| "aliq_queue acct (r # R) =
    (if acct \<noteq> 0 \<and> acct = rs_acct r then (True, 0)
     else (let (w, n) = aliq_queue acct R in (w, unat (rs_qty r) + n)))"

fun aliq :: "(price \<Rightarrow> bool) \<Rightarrow> u32 \<Rightarrow> alevel list \<Rightarrow> nat" where
  "aliq cr acct [] = 0"
| "aliq cr acct ((p, R) # L) =
    (if \<not> cr p then 0
     else (let (w, n) = aliq_queue acct R in if w then n else n + aliq cr acct L))"

section \<open>Resting, cancelling, modifying\<close>

fun ainsert :: "bool \<Rightarrow> price \<Rightarrow> resting \<Rightarrow> alevel list \<Rightarrow> alevel list" where
  "ainsert d p r [] = [(p, [r])]"
| "ainsert d p r ((p', R) # L) =
    (if p' = p then (p', R @ [r]) # L
     else if better d p' p then (p', R) # ainsert d p r L
     else (p, [r]) # (p', R) # L)"

definition can_rest :: "abook \<Rightarrow> bool \<Rightarrow> price \<Rightarrow> bool" where
  "can_rest A d p \<longleftrightarrow>
    (p \<in> set (prices_of (A d)) \<or> length (A d) < kMaxLevels) \<and> num_orders A < kMaxOrders"

text \<open>\<open>aadd\<close>: what \<^verbatim>\<open>add_order\<close> returns, the book after it, and the fills.\<close>

definition aadd :: "abook \<Rightarrow> order \<Rightarrow> bool \<times> abook \<times> (order_id \<times> price \<times> qty) list" where
  "aadd A o1 =
    (let d = is_buy o1;
         (fs, q, L, w) = amatch (crosses o1) (ord_account o1) (ord_qty_remaining o1) (A (\<not> d));
         A1 = A(\<not> d := L)
     in if ord_type o1 = FOK \<and> aliq (crosses o1) (ord_account o1) (A (\<not> d)) < unat (ord_qty_remaining o1)
        then (False, A, [])
        else if ord_type o1 = Market \<or> ord_type o1 = IOC \<or> ord_type o1 = FOK \<or> q = 0 \<or> w
        then (True, A1, fs)
        else if can_rest A1 d (ord_price o1)
        then (True, A1(d := ainsert d (ord_price o1)
               \<lparr>rs_id = ord_id o1, rs_qty = q, rs_acct = ord_account o1\<rparr> (A d)), fs)
        else (False, A1, fs))"

definition acancel_side :: "order_id \<Rightarrow> alevel list \<Rightarrow> alevel list" where
  "acancel_side oid ls =
    filter (\<lambda>l. snd l \<noteq> []) (map (\<lambda>(p, R). (p, filter (\<lambda>r. rs_id r \<noteq> oid) R)) ls)"

definition acancel :: "abook \<Rightarrow> order_id \<Rightarrow> bool \<times> abook" where
  "acancel A oid =
    (if oid \<in> all_ids A then (True, \<lambda>d. acancel_side oid (A d)) else (False, A))"

text \<open>A quantity increase moves the order to the back of its queue, a decrease keeps its place.\<close>

definition amodify_queue :: "order_id \<Rightarrow> qty \<Rightarrow> resting list \<Rightarrow> resting list" where
  "amodify_queue oid q R =
    (case find (\<lambda>r. rs_id r = oid) R of
       None \<Rightarrow> R
     | Some r \<Rightarrow>
        if q > rs_qty r then filter (\<lambda>r. rs_id r \<noteq> oid) R @ [r\<lparr>rs_qty := q\<rparr>]
        else map (\<lambda>r. if rs_id r = oid then r\<lparr>rs_qty := q\<rparr> else r) R)"

definition amodify :: "abook \<Rightarrow> order_id \<Rightarrow> qty \<Rightarrow> bool \<times> abook" where
  "amodify A oid q =
    (if oid \<notin> all_ids A then (False, A)
     else if q = 0 then (True, \<lambda>d. acancel_side oid (A d))
     else (True, \<lambda>d. map (\<lambda>(p, R). (p, amodify_queue oid q R)) (A d)))"

section \<open>Best quote\<close>

definition level_qty :: "resting list \<Rightarrow> qty" where
  "level_qty R = sum_list (map rs_qty R)"

definition aquote :: "symbol_id \<Rightarrow> abook \<Rightarrow> best_quote_rec" where
  "aquote symb A = \<lparr>
     bq_bid_price = (case A True of [] \<Rightarrow> PRICE_INVALID | (p, R) # L \<Rightarrow> p),
     bq_ask_price = (case A False of [] \<Rightarrow> PRICE_INVALID | (p, R) # L \<Rightarrow> p),
     bq_bid_qty = (case A True of [] \<Rightarrow> 0 | (p, R) # L \<Rightarrow> level_qty R),
     bq_ask_qty = (case A False of [] \<Rightarrow> 0 | (p, R) # L \<Rightarrow> level_qty R),
     bq_symbol = symb\<rparr>"

end
