(* ===== verification/Book_Rep.thy ===== *)
theory Book_Rep
  imports Book_Abs "HOL-Library.Multiset"
begin

text \<open>
  The representation relation \<open>refines b A\<close> between the concrete order book (parallel arrays,
  linked slots, free list, open-addressing index) and the abstract book: which slots a level's
  queue owns, the partition of all slots, the agreement of the index with the live slots, and
  how each survives a change to one level.
\<close>

section \<open>The representation\<close>

type_synonym slot_levels = "(price \<times> nat list) list"

text \<open>One column of the arrays represents a price and the queue of its slots.\<close>

definition lvl_ok :: "slot_pool \<Rightarrow> column \<Rightarrow> price \<times> nat list \<Rightarrow> bool" where
  "lvl_ok sp c l = (case c of (price1, qty1, cnt, h, t) \<Rightarrow>
     price1 = fst l \<and> qty1 = sum_list (map (sp_qtys sp) (snd l)) \<and> cnt = of_nat (length (snd l)) \<and>
     dls (sp_nexts sp) (sp_prevs sp) NULL_IDX (snd l) NULL_IDX h t \<and>
     (\<forall>x\<in>set (snd l). sp_prices sp x = fst l))"

definition side_ok :: "slot_pool \<Rightarrow> book_side \<Rightarrow> slot_levels \<Rightarrow> bool" where
  "side_ok sp s ls = list_all2 (lvl_ok sp) (levs s) ls"

text \<open>Every slot is in exactly one queue or on the free list.\<close>

definition parts :: "(bool \<Rightarrow> slot_levels) \<Rightarrow> nat list \<Rightarrow> bool" where
  "parts lv F \<longleftrightarrow> mset (orders_of (lv True)) + mset (orders_of (lv False)) + mset F = mset [0..<kMaxOrders]"

definition index_ok :: "index_table \<Rightarrow> slot_pool \<Rightarrow> (bool \<Rightarrow> slot_levels) \<Rightarrow> bool" where
  "index_ok t sp lv \<longleftrightarrow> index_inv t \<and> (\<forall>oid x k. index_abs t oid = Some (x, k) \<longleftrightarrow>
     (\<exists>d. k = side_code d \<and> x \<in> set (orders_of (lv d)) \<and> sp_ids sp x = oid))"

definition core :: "order_book \<Rightarrow> (bool \<Rightarrow> slot_levels) \<Rightarrow> nat list \<Rightarrow> bool" where
  "core b lv F \<longleftrightarrow> (\<forall>d. side_ok (ob_slots b) (ob_side b d) (lv d)) \<and> pool_inv (ob_slots b) F \<and>
     parts lv F \<and> index_ok (ob_index b) (ob_slots b) lv"

lemma coreI:
  assumes "\<And>d. side_ok (ob_slots b) (ob_side b d) (lv d)" "pool_inv (ob_slots b) F" "parts lv F"
    "index_ok (ob_index b) (ob_slots b) lv"
  shows "core b lv F"
  using assms by (simp add: core_def)

lemma coreD:
  assumes "core b lv F"
  shows "side_ok (ob_slots b) (ob_side b d) (lv d)" "pool_inv (ob_slots b) F" "parts lv F"
    "index_ok (ob_index b) (ob_slots b) lv"
  using assms by (simp_all add: core_def)

definition resting_of :: "slot_pool \<Rightarrow> nat \<Rightarrow> resting" where
  "resting_of sp x = \<lparr>rs_id = sp_ids sp x, rs_qty = sp_qtys sp x, rs_acct = sp_accounts sp x\<rparr>"

definition abs_levels :: "slot_pool \<Rightarrow> slot_levels \<Rightarrow> alevel list" where
  "abs_levels sp ls = map (\<lambda>l. (fst l, map (resting_of sp) (snd l))) ls"

definition refines :: "order_book \<Rightarrow> abook \<Rightarrow> bool" where
  "refines b A \<longleftrightarrow> (\<exists>lv F. core b lv F \<and> A = (\<lambda>d. abs_levels (ob_slots b) (lv d)))"

lemma abs_levels_simps [simp]:
  "abs_levels sp [] = []" "abs_levels sp (l # ls) = (fst l, map (resting_of sp) (snd l)) # abs_levels sp ls"
  "abs_levels sp (ls @ ms) = abs_levels sp ls @ abs_levels sp ms"
  "length (abs_levels sp ls) = length ls" "prices_of (abs_levels sp ls) = prices_of ls"
  "abs_levels sp ls = [] \<longleftrightarrow> ls = []"
  by (simp_all add: abs_levels_def comp_def)

lemma orders_of_abs [simp]: "orders_of (abs_levels sp ls) = map (resting_of sp) (orders_of ls)"
  by (induction ls) auto

lemma abs_levels_split:
  assumes "abs_levels sp ls = X @ (p, R) # Y"
  shows "\<exists>xs q ys. ls = xs @ (p, q) # ys \<and> X = abs_levels sp xs \<and> R = map (resting_of sp) q \<and>
    Y = abs_levels sp ys"
proof -
  obtain xs l ys where ls: "ls = xs @ l # ys" "X = abs_levels sp xs" "Y = abs_levels sp ys"
    "(p, R) = (fst l, map (resting_of sp) (snd l))"
    using assms unfolding abs_levels_def map_eq_append_conv map_eq_Cons_conv by blast
  then have "ls = xs @ (p, snd l) # ys" "R = map (resting_of sp) (snd l)" by auto
  with ls show ?thesis by blast
qed

section \<open>Frames\<close>

definition same :: "slot_pool \<Rightarrow> slot_pool \<Rightarrow> nat \<Rightarrow> bool" where
  "same sp sp' x \<longleftrightarrow> sp_ids sp' x = sp_ids sp x \<and> sp_qtys sp' x = sp_qtys sp x \<and>
    sp_nexts sp' x = sp_nexts sp x \<and> sp_prevs sp' x = sp_prevs sp x \<and>
    sp_prices sp' x = sp_prices sp x \<and> sp_accounts sp' x = sp_accounts sp x"

lemma lvl_ok_frame:
  assumes "\<And>x. x \<in> set (snd l) \<Longrightarrow> same sp sp' x" "lvl_ok sp c l"
  shows "lvl_ok sp' c l"
proof -
  have "dls (sp_nexts sp') (sp_prevs sp') NULL_IDX (snd l) NULL_IDX h t =
      dls (sp_nexts sp) (sp_prevs sp) NULL_IDX (snd l) NULL_IDX h t" for h t
    using assms(1) by (intro dls_cong) (simp_all add: same_def)
  moreover have "sum_list (map (sp_qtys sp') (snd l)) = sum_list (map (sp_qtys sp) (snd l))"
    using assms(1) by (intro sum_list_map_cong) (simp add: same_def)
  ultimately show ?thesis using assms by (auto simp: lvl_ok_def same_def)
qed

lemma in_orders_of: "l \<in> set ls \<Longrightarrow> x \<in> set (snd l) \<Longrightarrow> x \<in> set (orders_of ls)"
  unfolding orders_of_def by force

lemma side_ok_frame:
  assumes "side_ok sp s ls" "\<And>x. x \<in> set (orders_of ls) \<Longrightarrow> same sp sp' x" "levs s' = levs s"
  shows "side_ok sp' s' ls"
  using assms(1) unfolding side_ok_def assms(3)
proof (rule list.rel_mono_strong)
  fix c l assume "l \<in> set ls" "lvl_ok sp c l"
  with assms(2) show "lvl_ok sp' c l"
    using lvl_ok_frame [of l sp sp' c] in_orders_of [of l ls] by blast
qed

lemma abs_levels_frame:
  assumes "\<And>x. x \<in> set (orders_of ls) \<Longrightarrow> same sp sp' x"
  shows "abs_levels sp' ls = abs_levels sp ls"
  using assms by (induction ls) (auto simp: same_def resting_of_def)

lemma same_fields:
  "same sp sp' x \<Longrightarrow> sp_ids sp' x = sp_ids sp x" by (simp add: same_def)

section \<open>Ownership of slots\<close>

lemma parts_distinct:
  assumes "parts lv F"
  shows "distinct (orders_of (lv d))" "x \<in> set (orders_of (lv d)) \<Longrightarrow> x \<notin> set F"
    "x \<in> set (orders_of (lv d)) \<Longrightarrow> x \<in> set (orders_of (lv d')) \<Longrightarrow> d = d'"
    "x \<in> set (orders_of (lv d)) \<Longrightarrow> x < kMaxOrders"
    "length (orders_of (lv True)) + length (orders_of (lv False)) + length F = kMaxOrders"
proof -
  have m: "mset (orders_of (lv True) @ orders_of (lv False) @ F) = mset [0..<kMaxOrders]"
    using assms by (simp add: parts_def add.assoc)
  have "distinct (orders_of (lv True) @ orders_of (lv False) @ F)"
    using mset_eq_imp_distinct_iff [OF m] by simp
  then have D: "distinct (orders_of (lv True))" "distinct (orders_of (lv False))"
    "set (orders_of (lv True)) \<inter> set F = {}" "set (orders_of (lv False)) \<inter> set F = {}"
    "set (orders_of (lv True)) \<inter> set (orders_of (lv False)) = {}"
    by auto
  show "distinct (orders_of (lv d))" using D by (cases d) auto
  show "x \<in> set (orders_of (lv d)) \<Longrightarrow> x \<notin> set F" using D by (cases d) auto
  show "x \<in> set (orders_of (lv d)) \<Longrightarrow> x \<in> set (orders_of (lv d')) \<Longrightarrow> d = d'"
    using D by (cases d; cases d') auto
  have "set (orders_of (lv True)) \<subseteq> {0..<kMaxOrders}" "set (orders_of (lv False)) \<subseteq> {0..<kMaxOrders}"
    using mset_eq_setD [OF m] by auto
  then show "x \<in> set (orders_of (lv d)) \<Longrightarrow> x < kMaxOrders" by (cases d) auto
  show "length (orders_of (lv True)) + length (orders_of (lv False)) + length F = kMaxOrders"
    using mset_eq_length [OF m] by simp
qed

lemma parts_alt:
  "parts lv F \<longleftrightarrow>
    mset (orders_of (lv d)) + mset (orders_of (lv (\<not> d))) + mset F = mset [0..<kMaxOrders]"
  unfolding parts_def by (cases d) (simp_all only: not_True_eq_False not_False_eq_True union_commute)

lemma parts_change:
  assumes "parts lv F" "mset (orders_of ls) + mset F' = mset (orders_of (lv d)) + mset F"
  shows "parts (lv(d := ls)) F'"
proof -
  define m where "m = mset (orders_of (lv (\<not> d)))"
  have "mset (orders_of ls) + m + mset F' = (mset (orders_of ls) + mset F') + m"
    by (simp only: ac_simps)
  also have "\<dots> = mset (orders_of (lv d)) + m + mset F"
    unfolding assms(2) by (simp only: ac_simps)
  also have "\<dots> = mset [0..<kMaxOrders]"
    using assms(1) unfolding parts_alt [of lv F d] m_def .
  finally show ?thesis unfolding parts_alt [of _ _ d] m_def by simp
qed

text \<open>A level of the array side, as the middle of a list.\<close>

lemma side_ok_nth:
  assumes "side_ok sp s (xs @ l # ys)"
  shows "length xs < sd_count s" "lvl_ok sp (lev s (length xs)) l" "sd_count s = length xs + Suc (length ys)"
proof -
  have len: "sd_count s = length (xs @ l # ys)"
    using list_all2_lengthD [OF assms [unfolded side_ok_def]] by simp
  then show lt: "length xs < sd_count s" "sd_count s = length xs + Suc (length ys)" by simp_all
  show "lvl_ok sp (lev s (length xs)) l"
    using list_all2_nthD [OF assms [unfolded side_ok_def], of "length xs"] lt by simp
qed

lemma side_ok_split:
  assumes "side_ok sp s (xs @ l # ys)"
  shows "list_all2 (lvl_ok sp) (take (length xs) (levs s)) xs"
    "list_all2 (lvl_ok sp) (drop (Suc (length xs)) (levs s)) ys"
proof -
  have "list_all2 (lvl_ok sp) (levs s) (xs @ l # ys)" using assms by (simp add: side_ok_def)
  then obtain us vs where 1: "levs s = us @ vs" "length us = length xs" "list_all2 (lvl_ok sp) us xs"
    "list_all2 (lvl_ok sp) vs (l # ys)"
    unfolding list_all2_append2 by metis
  then obtain v vs' where "vs = v # vs'" "list_all2 (lvl_ok sp) vs' ys"
    unfolding list_all2_Cons2 by metis
  with 1 show "list_all2 (lvl_ok sp) (take (length xs) (levs s)) xs"
    "list_all2 (lvl_ok sp) (drop (Suc (length xs)) (levs s)) ys"
    by simp_all
qed

lemma all2_frame:
  assumes "list_all2 (lvl_ok sp) cs ls" "\<And>x. x \<in> set (orders_of ls) \<Longrightarrow> same sp sp' x"
  shows "list_all2 (lvl_ok sp') cs ls"
  using assms(1)
proof (rule list.rel_mono_strong)
  fix c l assume "l \<in> set ls" "lvl_ok sp c l"
  with assms(2) show "lvl_ok sp' c l"
    using lvl_ok_frame [of l sp sp' c] in_orders_of [of l ls] by blast
qed

lemma side_ok_level:
  assumes "side_ok sp s (xs @ l # ys)" "levs s' = (levs s)[length xs := c]" "lvl_ok sp' c l'"
    and "\<And>x. x \<in> set (orders_of xs) \<union> set (orders_of ys) \<Longrightarrow> same sp sp' x"
  shows "side_ok sp' s' (xs @ l' # ys)"
proof -
  have "levs s' = take (length xs) (levs s) @ c # drop (Suc (length xs)) (levs s)"
    using side_ok_nth(1) [OF assms(1)] by (simp add: assms(2) upd_conv_take_nth_drop)
  then show ?thesis
    unfolding side_ok_def
    using assms(3) all2_frame [OF side_ok_split(1) [OF assms(1)]] all2_frame [OF side_ok_split(2) [OF assms(1)]]
      assms(4)
    by (auto intro!: list_all2_appendI)
qed

text \<open>
  The step all operations share: one level of one side changes its queue from \<open>q\<close> to \<open>q'\<close>, and
  no slot outside the two is touched.
\<close>

lemma core_level:
  assumes core: "core b lv F" and lv: "lv d = xs @ (p, q) # ys"
    and side: "levs (ob_side b' d) = (levs (ob_side b d))[length xs := c]"
      "ob_side b' (\<not> d) = ob_side b (\<not> d)"
    and lvl: "lvl_ok (ob_slots b') c (p, q')"
    and frame: "\<And>x. x \<notin> set q \<Longrightarrow> x \<notin> set q' \<Longrightarrow> same (ob_slots b) (ob_slots b') x"
    and pool: "pool_inv (ob_slots b') F'"
    and ms: "mset q' + mset F' = mset q + mset F"
    and idx: "parts (lv(d := xs @ (p, q') # ys)) F' \<Longrightarrow>
      index_ok (ob_index b') (ob_slots b') (lv(d := xs @ (p, q') # ys))"
  shows "core b' (lv(d := xs @ (p, q') # ys)) F'"
    and "(\<lambda>d'. abs_levels (ob_slots b') ((lv(d := xs @ (p, q') # ys)) d')) =
      (\<lambda>d'. abs_levels (ob_slots b) (lv d'))
        (d := abs_levels (ob_slots b) xs @ (p, map (resting_of (ob_slots b')) q') # abs_levels (ob_slots b) ys)"
proof -
  note P = parts_distinct [OF coreD(3) [OF core]]
  have other: "same (ob_slots b) (ob_slots b') x"
    if "x \<in> set (orders_of xs) \<union> set (orders_of ys) \<or> x \<in> set (orders_of (lv (\<not> d)))" for x
  proof (rule frame)
    have xq: "x \<notin> set q" using that P(1) [of d] P(3) [of x d "\<not> d"] lv by auto
    then show "x \<notin> set q" .
    have "x \<notin> set F" using that P(2) [of x d] P(2) [of x "\<not> d"] lv by auto
    with xq show "x \<notin> set q'"
      by (metis ms UnE in_multiset_in_set set_mset_union union_iff)
  qed
  have parts: "parts (lv(d := xs @ (p, q') # ys)) F'"
    using ms by (intro parts_change [OF coreD(3) [OF core]]) (simp add: lv ac_simps)
  show "core b' (lv(d := xs @ (p, q') # ys)) F'"
  proof (rule coreI)
    fix d'
    show "side_ok (ob_slots b') (ob_side b' d') ((lv(d := xs @ (p, q') # ys)) d')"
    proof (cases "d' = d")
      case True
      have "side_ok (ob_slots b) (ob_side b d) (xs @ (p, q) # ys)"
        using coreD(1) [OF core, of d] by (simp only: lv)
      from side_ok_level [OF this side(1) lvl] other have
        "side_ok (ob_slots b') (ob_side b' d) (xs @ (p, q') # ys)" by blast
      with True show ?thesis by simp
    next
      case False
      then have d': "d' = (\<not> d)" by auto
      with side_ok_frame [OF coreD(1) [OF core, of d'], of "ob_slots b'"] other side(2) show ?thesis
        by simp
    qed
  qed (rule pool parts idx [OF parts])+
  have "abs_levels (ob_slots b') xs = abs_levels (ob_slots b) xs"
    "abs_levels (ob_slots b') ys = abs_levels (ob_slots b) ys"
    "abs_levels (ob_slots b') (lv (\<not> d)) = abs_levels (ob_slots b) (lv (\<not> d))"
    using other by (auto intro!: abs_levels_frame)
  note frames = this
  show "(\<lambda>d'. abs_levels (ob_slots b') ((lv(d := xs @ (p, q') # ys)) d')) =
      (\<lambda>d'. abs_levels (ob_slots b) (lv d'))
        (d := abs_levels (ob_slots b) xs @ (p, map (resting_of (ob_slots b')) q') # abs_levels (ob_slots b) ys)"
  proof
    fix d'
    show "abs_levels (ob_slots b') ((lv(d := xs @ (p, q') # ys)) d') =
        ((\<lambda>d'. abs_levels (ob_slots b) (lv d'))
          (d := abs_levels (ob_slots b) xs @ (p, map (resting_of (ob_slots b')) q') # abs_levels (ob_slots b) ys)) d'"
    proof (cases "d' = d")
      case True
      then show ?thesis by (simp add: frames(1,2))
    next
      case False
      then have "d' = (\<not> d)" by auto
      with frames(3) False show ?thesis by simp
    qed
  qed
qed

section \<open>The index\<close>

lemma index_okD:
  assumes "index_ok t sp lv"
  shows "index_inv t"
    "index_abs t oid = Some (x, k) \<longleftrightarrow> (\<exists>d. k = side_code d \<and> x \<in> set (orders_of (lv d)) \<and> sp_ids sp x = oid)"
  using assms by (simp_all add: index_ok_def)

lemma index_okI:
  assumes "index_inv t"
    "\<And>oid x k. index_abs t oid = Some (x, k) \<longleftrightarrow> (\<exists>d. k = side_code d \<and> x \<in> set (orders_of (lv d)) \<and> sp_ids sp x = oid)"
  shows "index_ok t sp lv"
  using assms by (simp add: index_ok_def)

lemma index_ok_cong:
  assumes "index_ok t sp lv" "\<And>d. set (orders_of (lv' d)) = set (orders_of (lv d))"
    and "\<And>d x. x \<in> set (orders_of (lv d)) \<Longrightarrow> sp_ids sp' x = sp_ids sp x"
  shows "index_ok t sp' lv'"
proof (rule index_okI)
  show "index_inv t" using index_okD(1) [OF assms(1)] .
  fix oid x k
  show "index_abs t oid = Some (x, k) \<longleftrightarrow>
      (\<exists>d. k = side_code d \<and> x \<in> set (orders_of (lv' d)) \<and> sp_ids sp' x = oid)"
    unfolding index_okD(2) [OF assms(1)] assms(2) using assms(3) by metis
qed

lemma index_id_unique:
  assumes "index_ok t sp lv" "x \<in> set (orders_of (lv d))" "y \<in> set (orders_of (lv e))"
    "sp_ids sp x = sp_ids sp y"
  shows "x = y"
proof -
  have "index_abs t (sp_ids sp x) = Some (x, side_code d)" "index_abs t (sp_ids sp x) = Some (y, side_code e)"
    using index_okD(2) [OF assms(1)] assms(2-4) by metis+
  then show ?thesis by simp
qed

lemma index_ok_remove:
  assumes ok: "index_ok t sp lv" and x: "x \<in> set (orders_of (lv d))"
    and lv': "\<And>e. set (orders_of (lv' e)) = set (orders_of (lv e)) - {x}"
    and ids: "\<And>e y. y \<in> set (orders_of (lv e)) \<Longrightarrow> y \<noteq> x \<Longrightarrow> sp_ids sp' y = sp_ids sp y"
  shows "\<exists>t'. index_remove t (sp_ids sp x) = Some (True, t') \<and> index_ok t' sp' lv'"
proof -
  have "index_abs t (sp_ids sp x) = Some (x, side_code d)"
    using index_okD(2) [OF ok] x by metis
  then obtain t' where t': "index_remove t (sp_ids sp x) = Some (True, t')" "index_inv t'"
    "index_abs t' = (index_abs t)(sp_ids sp x := None)"
    using index_remove_correct [OF index_okD(1) [OF ok], of "sp_ids sp x"] by auto
  have "index_ok t' sp' lv'"
  proof (rule index_okI)
    fix oid y k
    show "index_abs t' oid = Some (y, k) \<longleftrightarrow>
        (\<exists>e. k = side_code e \<and> y \<in> set (orders_of (lv' e)) \<and> sp_ids sp' y = oid)"
    proof (cases "oid = sp_ids sp x")
      case True
      have "sp_ids sp' y \<noteq> oid" if "y \<in> set (orders_of (lv e)) - {x}" for e
      proof
        assume "sp_ids sp' y = oid"
        with ids that True have "sp_ids sp x = sp_ids sp y" by auto
        from index_id_unique [OF ok x _ this, of e] that show False by auto
      qed
      with True show ?thesis unfolding t'(3) lv' by auto
    next
      case False
      have "(\<exists>e. k = side_code e \<and> y \<in> set (orders_of (lv e)) \<and> sp_ids sp y = oid) \<longleftrightarrow>
        (\<exists>e. k = side_code e \<and> y \<in> set (orders_of (lv e)) - {x} \<and> sp_ids sp' y = oid)"
        using ids False by (metis Diff_iff singletonD singletonI)
      with False index_okD(2) [OF ok, of oid y k] show ?thesis unfolding t'(3) lv' by simp
    qed
  qed (rule t'(2))
  with t'(1) show ?thesis by blast
qed

lemma index_card:
  assumes "index_ok t sp lv" "parts lv F"
  shows "Suc (card (dom (index_abs t))) < kTableSize"
proof -
  let ?L = "orders_of (lv True) @ orders_of (lv False)"
  have "dom (index_abs t) \<subseteq> sp_ids sp ` set ?L"
  proof
    fix oid assume "oid \<in> dom (index_abs t)"
    then obtain x k where "index_abs t oid = Some (x, k)" by auto
    then obtain d where "x \<in> set (orders_of (lv d))" "sp_ids sp x = oid"
      using index_okD(2) [OF assms(1)] by blast
    then show "oid \<in> sp_ids sp ` set ?L" by (cases d) auto
  qed
  then have "card (dom (index_abs t)) \<le> card (sp_ids sp ` set ?L)" by (intro card_mono) auto
  also have "\<dots> \<le> card (set ?L)" by (intro card_image_le) simp
  also have "\<dots> \<le> length ?L" by (rule card_length)
  also have "\<dots> \<le> kMaxOrders" using parts_distinct(5) [OF assms(2)] by simp
  finally show ?thesis by (simp add: kTableSize_def kMaxOrders_def)
qed

lemma index_ok_insert:
  assumes ok: "index_ok t sp lv" and P: "parts lv F"
    and x: "\<And>e. x \<notin> set (orders_of (lv e))" "x < kMaxOrders"
    and fresh: "\<And>e y. y \<in> set (orders_of (lv e)) \<Longrightarrow> sp_ids sp y \<noteq> oid"
    and lv': "\<And>e. set (orders_of (lv' e)) = (if e = d then insert x (set (orders_of (lv e))) else set (orders_of (lv e)))"
    and ids: "\<And>e y. y \<in> set (orders_of (lv e)) \<Longrightarrow> sp_ids sp' y = sp_ids sp y" "sp_ids sp' x = oid"
  shows "\<exists>t'. index_insert t oid x (side_code d) = Some (True, t') \<and> index_ok t' sp' lv'"
proof -
  obtain t' where t': "index_insert t oid x (side_code d) = Some (True, t')" "index_inv t'"
    "index_abs t' = (index_abs t)(oid \<mapsto> (x, side_code d))"
    using index_insert_correct [OF index_okD(1) [OF ok] kMaxOrders_not_kEmpty [OF x(2)] index_card [OF ok P]]
    by blast
  have "index_ok t' sp' lv'"
  proof (rule index_okI)
    fix i y k
    have mem: "y \<in> set (orders_of (lv' e)) \<and> sp_ids sp' y = i \<longleftrightarrow>
        (y = x \<and> e = d \<and> i = oid) \<or> (y \<in> set (orders_of (lv e)) \<and> sp_ids sp y = i)" for e
    proof (cases "y = x")
      case True
      then show ?thesis using x(1) [of e] ids(2) unfolding lv' by auto
    next
      case False
      then have "y \<in> set (orders_of (lv' e)) \<longleftrightarrow> y \<in> set (orders_of (lv e))" unfolding lv' by auto
      with False ids(1) [of y e] show ?thesis by metis
    qed
    show "index_abs t' i = Some (y, k) \<longleftrightarrow>
        (\<exists>e. k = side_code e \<and> y \<in> set (orders_of (lv' e)) \<and> sp_ids sp' y = i)"
    proof (cases "i = oid")
      case True
      have "\<not> (y \<in> set (orders_of (lv e)) \<and> sp_ids sp y = i)" for e
        using fresh [of y e] True by metis
      then show ?thesis unfolding mem t'(3) using True by auto
    next
      case False
      then have "index_abs t' i = index_abs t i" unfolding t'(3) by simp
      with False show ?thesis unfolding mem index_okD(2) [OF ok, symmetric]
        using index_okD(2) [OF ok, of i y k] by simp
    qed
  qed (rule t'(2))
  with t'(1) show ?thesis by blast
qed

section \<open>The best level\<close>

lemma core_head:
  assumes "core b lv F" "lv d = (p, q) # ys"
  shows "sd_count (ob_side b d) > 0" "sd_prices (ob_side b d) 0 = p"
    "sd_head_idxs (ob_side b d) 0 = (if q = [] then NULL_IDX else hd q)"
    "sd_order_counts (ob_side b d) 0 = of_nat (length q)"
    "lvl_ok (ob_slots b) (lev (ob_side b d) 0) (p, q)"
proof -
  have ok: "side_ok (ob_slots b) (ob_side b d) ([] @ (p, q) # ys)"
    using coreD(1) [OF assms(1), of d] assms(2) by simp
  show "sd_count (ob_side b d) > 0" using side_ok_nth(1) [OF ok] by simp
  show l: "lvl_ok (ob_slots b) (lev (ob_side b d) 0) (p, q)" using side_ok_nth(2) [OF ok] by simp
  then show "sd_prices (ob_side b d) 0 = p" "sd_order_counts (ob_side b d) 0 = of_nat (length q)"
    "sd_head_idxs (ob_side b d) 0 = (if q = [] then NULL_IDX else hd q)"
    by (auto simp: lvl_ok_def lev_def dest: dls_head)
qed

lemma core_count:
  assumes "core b lv F"
  shows "sd_count (ob_side b d) = length (lv d)"
  using list_all2_lengthD [OF coreD(1) [OF assms, of d, unfolded side_ok_def]] by simp

lemma live_not_null:
  assumes "core b lv F" "x \<in> set (orders_of (lv d))"
  shows "x \<noteq> NULL_IDX" "x < kMaxOrders"
  using parts_distinct(4) [OF coreD(3) [OF assms(1)] assms(2)] NULL_IDX_ge by auto

end
