(* ===== verification/Book_Refine.thy ===== *)
theory Book_Refine
  imports Book_Rep
begin

text \<open>
  For every operation of \<^verbatim>\<open>OrderBook\<close>: on a book that represents an abstract book it
  returns, and its effect is that of the abstract operation of \<open>Book_Abs\<close>.
\<close>

section \<open>Filling the head of the best level\<close>

lemma refinesE:
  assumes "refines b A" "A d = X @ (p, R) # Y"
  obtains lv F xs q ys where "core b lv F" "A = (\<lambda>d. abs_levels (ob_slots b) (lv d))"
    "lv d = xs @ (p, q) # ys" "X = abs_levels (ob_slots b) xs" "R = map (resting_of (ob_slots b)) q"
    "Y = abs_levels (ob_slots b) ys"
proof -
  obtain lv F where 1: "core b lv F" "A = (\<lambda>d. abs_levels (ob_slots b) (lv d))"
    using assms(1) by (auto simp: refines_def)
  then have "abs_levels (ob_slots b) (lv d) = X @ (p, R) # Y" using assms(2) by simp
  from abs_levels_split [OF this] 1 that show ?thesis by blast
qed

lemma refines_headE:
  assumes "refines b A" "A d = (p, R) # Y"
  obtains lv F q ys where "core b lv F" "A = (\<lambda>d. abs_levels (ob_slots b) (lv d))"
    "lv d = [] @ (p, q) # ys" "R = map (resting_of (ob_slots b)) q" "Y = abs_levels (ob_slots b) ys"
proof -
  from assms(2) have "A d = [] @ (p, R) # Y" by simp
  then show ?thesis
  proof (rule refinesE [OF assms(1)], goal_cases)
    case (1 lv F xs q ys)
    then have "xs = []" using abs_levels_simps(6) by metis
    with 1 that show ?case by simp
  qed
qed

lemma refinesI: "core b lv F \<Longrightarrow> (\<lambda>d. abs_levels (ob_slots b) (lv d)) = A \<Longrightarrow> refines b A"
  by (auto simp: refines_def)

lemma map_resting_cong:
  "(\<And>y. y \<in> set q \<Longrightarrow> same sp sp' y) \<Longrightarrow> map (resting_of sp') q = map (resting_of sp) q"
  by (auto simp: same_def resting_of_def)

lemma fill_head_part:
  assumes R: "refines b A" and A: "A (\<not> is_buy o1) = (p, r # R) # L"
    and q: "ord_qty_remaining o1 < rs_qty r"
  shows "\<exists>b'. fill_head p o1 b = Some (o1\<lparr>ord_qty_remaining := 0\<rparr>, b',
      report (ob_symbol b) o1 (rs_id r) p (ord_qty_remaining o1)) \<and> ob_symbol b' = ob_symbol b \<and>
    refines b' (A(\<not> is_buy o1 := (p, r\<lparr>rs_qty := rs_qty r - ord_qty_remaining o1\<rparr> # R) # L))"
proof -
  let ?d = "\<not> is_buy o1" let ?sp = "ob_slots b" let ?s = "ob_side b ?d"
  obtain lv F ys xq where core: "core b lv F" and AA: "A = (\<lambda>d. abs_levels (ob_slots b) (lv d))"
    and lv1: "lv ?d = [] @ (p, xq) # ys" and ab: "r # R = map (resting_of ?sp) xq" "L = abs_levels ?sp ys"
    using refines_headE [OF R A] .
  obtain x q where xq: "xq = x # q" "r = resting_of ?sp x" "R = map (resting_of ?sp) q"
    using ab(1) by (cases xq) auto
  note lv0 = lv1 [unfolded xq(1)]
  define rem where "rem = ord_qty_remaining o1"
  define sp' where "sp' = ?sp\<lparr>sp_qtys := (sp_qtys ?sp)(x := sp_qtys ?sp x - rem)\<rparr>"
  define s' where "s' = ?s\<lparr>sd_qtys := (sd_qtys ?s)(0 := sd_qtys ?s 0 - rem)\<rparr>"
  define b' where "b' = (set_side b ?d s')\<lparr>ob_slots := sp', ob_stat_matches := ob_stat_matches b + 1\<rparr>"
  note H = core_head [where d = ?d, OF core lv0 [simplified]]
  have r: "rs_id r = sp_ids ?sp x" "rs_qty r = sp_qtys ?sp x" by (simp_all add: xq resting_of_def)
  have fill: "min rem (sp_qtys ?sp x) = rem" using q by (auto simp: rem_def min_def r)
  have ne: "sp_qtys ?sp x - rem \<noteq> 0" using q by (auto simp: rem_def r)
  have fh: "fill_head p o1 b = Some (o1\<lparr>ord_qty_remaining := 0\<rparr>, b', report (ob_symbol b) o1 (rs_id r) p rem)"
    using ne by (simp add: fill_head_def Let_def H(3) fill rem_def [symmetric] b'_def s'_def sp'_def report_def r)
  have D: "distinct (x # q)"
    using parts_distinct(1) [OF coreD(3) [OF core], of ?d] lv0 by simp
  have L: "levs (ob_side b' ?d) = (levs ?s)[length [] := (p, sd_qtys ?s 0 - rem, sd_order_counts ?s 0,
      sd_head_idxs ?s 0, sd_tail_idxs ?s 0)]"
    by (rule levs_update) (use H(2) in \<open>auto simp: b'_def s'_def lev_def fun_eq_iff\<close>)
  have sums: "sum_list (map (sp_qtys sp') q) = sum_list (map (sp_qtys ?sp) q)"
    using D by (intro sum_list_map_cong) (auto simp: sp'_def)
  have lvl: "lvl_ok (ob_slots b') (p, sd_qtys ?s 0 - rem, sd_order_counts ?s 0,
      sd_head_idxs ?s 0, sd_tail_idxs ?s 0) (p, x # q)"
    using H(5) by (simp add: lvl_ok_def lev_def b'_def sums) (simp add: sp'_def)
  have *: "ob_side b' (\<not> ?d) = ob_side b (\<not> ?d)" "ob_slots b' = sp'" "ob_index b' = ob_index b"
    by (auto simp: b'_def)
  have fr: "\<And>y. y \<notin> set (x # q) \<Longrightarrow> y \<notin> set (x # q) \<Longrightarrow> same ?sp (ob_slots b') y"
    by (auto simp: *(2) sp'_def same_def)
  have pool: "pool_inv (ob_slots b') F" using coreD(2) [OF core] by (simp add: *(2) sp'_def pool_inv_def)
  have idx: "index_ok (ob_index b') (ob_slots b') (lv(?d := [] @ (p, x # q) # ys))"
    unfolding *(2,3) by (rule index_ok_cong [OF coreD(4) [OF core]]) (auto simp: lv0 sp'_def)
  note C = core_level [where d = ?d, OF core lv0 L *(1) lvl fr pool refl idx]
  have "map (resting_of sp') q = R"
    unfolding xq(3) using D by (intro map_resting_cong) (auto simp: same_def sp'_def)
  then have "(p, map (resting_of sp') (x # q)) = (p, r\<lparr>rs_qty := rs_qty r - rem\<rparr> # R)"
    by (simp add: xq(2) resting_of_def sp'_def)
  then have "refines b' (A(?d := (p, r\<lparr>rs_qty := rs_qty r - rem\<rparr> # R) # L))"
    using refinesI [OF C] by (simp add: AA *(2) ab(2))
  then show ?thesis using fh unfolding rem_def b'_def by auto
qed

lemma fill_head_full:
  assumes R: "refines b A" and A: "A (\<not> is_buy o1) = (p, r # R) # L"
    and q: "rs_qty r \<le> ord_qty_remaining o1"
  shows "\<exists>b'. fill_head p o1 b = Some (o1\<lparr>ord_qty_remaining := ord_qty_remaining o1 - rs_qty r\<rparr>, b',
      report (ob_symbol b) o1 (rs_id r) p (rs_qty r)) \<and> ob_symbol b' = ob_symbol b \<and>
    refines b' (A(\<not> is_buy o1 := (p, R) # L))"
proof -
  let ?d = "\<not> is_buy o1" let ?sp = "ob_slots b" let ?s = "ob_side b ?d"
  obtain lv F ys xq where core: "core b lv F" and AA: "A = (\<lambda>d. abs_levels (ob_slots b) (lv d))"
    and lv1: "lv ?d = [] @ (p, xq) # ys" and ab: "r # R = map (resting_of ?sp) xq" "L = abs_levels ?sp ys"
    using refines_headE [OF R A] .
  obtain x q where xq: "xq = x # q" "r = resting_of ?sp x" "R = map (resting_of ?sp) q"
    using ab(1) by (cases xq) auto
  note lv0 = lv1 [unfolded xq(1)]
  note H = core_head [where d = ?d, OF core lv0 [simplified]]
  note P = parts_distinct [OF coreD(3) [OF core]]
  have r: "rs_id r = sp_ids ?sp x" "rs_qty r = sp_qtys ?sp x" by (simp_all add: xq resting_of_def)
  have fill: "min (ord_qty_remaining o1) (sp_qtys ?sp x) = sp_qtys ?sp x"
    using q by (simp add: r min_def)
  have xl: "x \<in> set (orders_of (lv ?d))" using lv0 by simp
  have xF: "x \<notin> set F" "x < kMaxOrders" using P(2) [OF xl] P(4) [OF xl] by auto
  have D: "distinct (x # q)" using P(1) [of ?d] lv0 by simp
  define nx where "nx = sp_nexts ?sp x"
  define sp1 where "sp1 = ?sp\<lparr>sp_qtys := (sp_qtys ?sp)(x := 0)\<rparr>"
  define sp2 where "sp2 = (if nx = NULL_IDX then sp1 else sp1\<lparr>sp_prevs := (sp_prevs sp1)(nx := NULL_IDX)\<rparr>)"
  define s1 where "s1 = ?s\<lparr>sd_qtys := (sd_qtys ?s)(0 := sd_qtys ?s 0 - sp_qtys ?sp x)\<rparr>"
  define s2 where "s2 = s1\<lparr>sd_head_idxs := (sd_head_idxs s1)(0 := nx)\<rparr>"
  define s3 where "s3 = (if nx = NULL_IDX then s2\<lparr>sd_tail_idxs := (sd_tail_idxs s2)(0 := NULL_IDX)\<rparr> else s2)"
  define s4 where "s4 = s3\<lparr>sd_order_counts := (sd_order_counts s3)(0 := sd_order_counts s3 0 - 1)\<rparr>"
  define b1 where "b1 = (set_side b ?d s1)\<lparr>ob_slots := sp1, ob_stat_matches := ob_stat_matches b + 1\<rparr>"
  define sp3 where "sp3 = pool_free_slot sp2 x"
  have fields: "sp_ids sp2 = sp_ids ?sp" "sp_nexts sp2 = sp_nexts ?sp" "sp_prices sp2 = sp_prices ?sp"
    "sp_accounts sp2 = sp_accounts ?sp" "sp_qtys sp2 = (sp_qtys ?sp)(x := 0)"
    "sp_free_nexts sp2 = sp_free_nexts ?sp" "sp_free_head sp2 = sp_free_head ?sp" "sp_used sp2 = sp_used ?sp"
    by (auto simp: sp2_def sp1_def)
  have fields3: "sp_ids sp3 = sp_ids ?sp" "sp_nexts sp3 = sp_nexts ?sp" "sp_prices sp3 = sp_prices ?sp"
    "sp_accounts sp3 = sp_accounts ?sp" "sp_qtys sp3 = (sp_qtys ?sp)(x := 0)" "sp_prevs sp3 = sp_prevs sp2"
    by (simp_all add: sp3_def pool_free_slot_def fields)
  have lvs: "set (orders_of ((lv(?d := [] @ (p, q) # ys)) e)) = set (orders_of (lv e)) - {x}" for e
  proof (cases "e = ?d")
    case True
    then show ?thesis using P(1) [of ?d] lv0 by auto
  next
    case False
    then show ?thesis using P(3) [OF xl, of e] by auto
  qed
  obtain c0 where c0: "index_remove (ob_index b) (sp_ids ?sp x) = Some (True, c0)"
    "index_ok c0 sp3 (lv(?d := [] @ (p, q) # ys))"
  proof -
    have "\<exists>t'. index_remove (ob_index b) (sp_ids ?sp x) = Some (True, t') \<and>
        index_ok t' sp3 (lv(?d := [] @ (p, q) # ys))"
      by (rule index_ok_remove [OF coreD(4) [OF core] xl lvs]) (simp only: fields3)
    then show thesis using that by blast
  qed
  define b' where "b' = (set_side b1 ?d s4)\<lparr>ob_slots := sp3, ob_index := c0\<rparr>"
  have "sd_head_idxs ?s 0 = x" using H(3) by simp
  then have fh: "fill_head p o1 b = Some (o1\<lparr>ord_qty_remaining := ord_qty_remaining o1 - sp_qtys ?sp x\<rparr>, b',
      report (ob_symbol b) o1 (rs_id r) p (sp_qtys ?sp x))"
    using c0(1) by (simp add: fill_head_def Let_def fill report_def r nx_def sp1_def sp2_def s1_def s2_def
        s3_def s4_def b1_def sp3_def b'_def)
  have sd: "ob_side b' ?d = s4" "ob_side b' (\<not> ?d) = ob_side b (\<not> ?d)" "ob_slots b' = sp3"
    "ob_index b' = c0" "ob_symbol b' = ob_symbol b"
    by (auto simp: b'_def b1_def)
  let ?c = "(p, sd_qtys ?s 0 - sp_qtys ?sp x, sd_order_counts ?s 0 - 1, nx,
    if nx = NULL_IDX then NULL_IDX else sd_tail_idxs ?s 0)"
  have lv_ok: "dls (sp_nexts ?sp) (sp_prevs ?sp) NULL_IDX (x # q) NULL_IDX (sd_head_idxs ?s 0) (sd_tail_idxs ?s 0)"
    "sd_qtys ?s 0 = sum_list (map (sp_qtys ?sp) (x # q))" "\<forall>y\<in>set (x # q). sp_prices ?sp y = p"
    "sd_order_counts ?s 0 = of_nat (length (x # q))"
    using H(5) by (simp_all add: lvl_ok_def lev_def)
  have qok: "dls (sp_nexts ?sp) (sp_prevs ?sp) x q NULL_IDX nx (sd_tail_idxs ?s 0)"
    using lv_ok(1) by (simp add: nx_def)
  have nxq: "nx = (if q = [] then NULL_IDX else hd q)" using dls_head [OF qok] .
  have nn: "nx \<noteq> NULL_IDX" if "q \<noteq> []"
  proof -
    have "hd q \<in> set (orders_of (lv ?d))" using that lv0 by simp
    then show ?thesis using live_not_null(1) [OF core] nxq that by simp
  qed
  have dls': "dls (sp_nexts sp3) (sp_prevs sp3) NULL_IDX q NULL_IDX nx (if nx = NULL_IDX then NULL_IDX else sd_tail_idxs ?s 0)"
  proof (cases "q = []")
    case True
    with nxq show ?thesis by simp
  next
    case False
    with dls_set_prev [OF qok False, of NULL_IDX] D nxq nn show ?thesis
      by (simp add: fields3 sp2_def sp1_def)
  qed
  have sums: "sum_list (map (sp_qtys sp3) q) = sum_list (map (sp_qtys ?sp) q)"
    using D by (intro sum_list_map_cong) (auto simp: fields3)
  have lvl: "lvl_ok (ob_slots b') ?c (p, q)"
    using dls' lv_ok(2-4) sums unfolding lvl_ok_def sd(3) by (simp add: fields3)
  have L: "levs (ob_side b' ?d) = (levs ?s)[length [] := ?c]"
    unfolding sd(1) by (rule levs_update) (use H(2) in \<open>auto simp: s4_def s3_def s2_def s1_def lev_def fun_eq_iff\<close>)
  have fr: "same ?sp (ob_slots b') y" if "y \<notin> set (x # q)" for y
  proof -
    have "q \<noteq> [] \<Longrightarrow> y \<noteq> nx" using that nxq by (metis hd_in_set set_subset_Cons subsetD)
    then have "nx \<noteq> NULL_IDX \<Longrightarrow> y \<noteq> nx" using nxq by metis
    then show ?thesis using that unfolding sd(3) same_def fields3 by (auto simp: sp2_def sp1_def)
  qed
  have "pool_inv sp2 F" using coreD(2) [OF core] by (simp add: pool_inv_def fields)
  then have pool: "pool_inv (ob_slots b') (x # F)"
    unfolding sd(3) sp3_def using xF by (intro pool_free_inv)
  have ms: "mset q + mset (x # F) = mset (x # q) + mset F" by simp
  note C = core_level [where d = ?d, OF core lv0 L sd(2) lvl fr pool ms c0(2) [folded sd(3,4)]]
  have "map (resting_of sp3) q = R"
    unfolding xq(3) using D by (auto simp: resting_of_def fields3)
  then have "refines b' (A(?d := (p, R) # L))"
    using refinesI [OF C] by (simp add: AA sd(3) ab(2))
  then show ?thesis using fh sd(5) unfolding r by blast
qed

section \<open>The best level, seen abstractly\<close>

lemma refines_head:
  assumes "refines b A" "A d = (p, R) # L"
  shows "sd_count (ob_side b d) > 0" "sd_prices (ob_side b d) 0 = p"
    "sd_head_idxs (ob_side b d) 0 = NULL_IDX \<longleftrightarrow> R = []"
    "R \<noteq> [] \<Longrightarrow> sp_accounts (ob_slots b) (sd_head_idxs (ob_side b d) 0) = rs_acct (hd R)"
    "sd_order_counts (ob_side b d) 0 = 0 \<longleftrightarrow> R = []"
    "sd_qtys (ob_side b d) 0 = level_qty R"
proof -
  obtain lv F q ys where core: "core b lv F" and lv: "lv d = [] @ (p, q) # ys"
    and R: "R = map (resting_of (ob_slots b)) q"
    using refines_headE [OF assms] .
  note H = core_head [OF core lv [simplified]]
  show "sd_count (ob_side b d) > 0" "sd_prices (ob_side b d) 0 = p" by (rule H(1,2))+
  have nn: "hd q \<noteq> NULL_IDX" if "q \<noteq> []"
    using live_not_null(1) [OF core, of "hd q" d] that lv by simp
  then show "sd_head_idxs (ob_side b d) 0 = NULL_IDX \<longleftrightarrow> R = []"
    using H(3) R by auto
  show "R \<noteq> [] \<Longrightarrow> sp_accounts (ob_slots b) (sd_head_idxs (ob_side b d) 0) = rs_acct (hd R)"
    using H(3) R by (cases q) (auto simp: resting_of_def)
  have "length q \<le> length (orders_of (lv d))" using lv by simp
  also have "\<dots> \<le> kMaxOrders" using parts_distinct(5) [OF coreD(3) [OF core]] by (cases d) simp_all
  finally have "length q < 2 ^ LENGTH(32)" by (simp add: kMaxOrders_def)
  from of_nat_eq_0_small [OF this] show "sd_order_counts (ob_side b d) 0 = 0 \<longleftrightarrow> R = []"
    using H(4) R by simp
  show "sd_qtys (ob_side b d) 0 = level_qty R"
    using H(5) R by (simp add: lvl_ok_def lev_def level_qty_def comp_def resting_of_def)
qed

lemma refines_count:
  assumes "refines b A"
  shows "sd_count (ob_side b d) = length (A d)"
  using assms core_count unfolding refines_def by fastforce

lemma refines_upd_same [simp]:
  assumes "refines b A"
  shows "refines (b\<lparr>ob_stat_orders := m\<rparr>) A" "refines (b\<lparr>ob_stat_cancelled := m\<rparr>) A"
    "refines (b\<lparr>ob_stat_rejected := m\<rparr>) A" "refines (b\<lparr>ob_stat_stp := m\<rparr>) A"
  using assms by (simp_all add: refines_def core_def)

text \<open>Removing an empty level, wherever it is.\<close>

lemma remove_level_refines:
  assumes "refines b A" "A d = X @ (p, []) # Y"
  shows "refines (set_side b d (remove_level (ob_side b d) (length X))) (A(d := X @ Y))"
proof -
  obtain lv F xs q ys where core: "core b lv F" and AA: "A = (\<lambda>d. abs_levels (ob_slots b) (lv d))"
    and lv: "lv d = xs @ (p, q) # ys" and ab: "X = abs_levels (ob_slots b) xs" "[] = map (resting_of (ob_slots b)) q"
      "Y = abs_levels (ob_slots b) ys"
    using refinesE [OF assms] .
  have len: "length X = length xs" by (simp add: ab)
  have ok: "side_ok (ob_slots b) (ob_side b d) (xs @ (p, []) # ys)"
    using coreD(1) [OF core, of d] lv ab(2) by simp
  have side: "side_ok (ob_slots b) (remove_level (ob_side b d) (length xs)) (xs @ ys)"
    unfolding side_ok_def remove_level_levs(2) [OF side_ok_nth(1) [OF ok]]
    using side_ok_split [OF ok] by (rule list_all2_appendI)
  let ?b' = "set_side b d (remove_level (ob_side b d) (length xs))"
  have mem: "orders_of (xs @ ys) = orders_of (lv d)" using lv ab(2) by simp
  have "core ?b' (lv(d := xs @ ys)) F"
  proof (rule coreI)
    show "side_ok (ob_slots ?b') (ob_side ?b' d') ((lv(d := xs @ ys)) d')" for d'
      by (cases "d' = d") (use side coreD(1) [OF core, of d'] in auto)
    show "pool_inv (ob_slots ?b') F" using coreD(2) [OF core] by simp
    show "parts (lv(d := xs @ ys)) F" by (rule parts_change [OF coreD(3) [OF core]]) (simp only: mem)
    have "index_ok (ob_index b) (ob_slots b) (lv(d := xs @ ys))"
      by (rule index_ok_cong [OF coreD(4) [OF core]]) (simp_all only: fun_upd_apply mem split: if_splits, simp)
    then show "index_ok (ob_index ?b') (ob_slots ?b') (lv(d := xs @ ys))" by simp
  qed
  then show ?thesis
    unfolding len by (rule refinesI) (simp add: AA ab fun_eq_iff)
qed

section \<open>The matching loops\<close>

lemma rem_same [simp]: "o1\<lparr>ord_qty_remaining := ord_qty_remaining o1\<rparr> = o1"
  by simp

lemma match_level_refines:
  assumes "refines b A" "A (\<not> is_buy o1) = (p, R) # L"
    and "afill (ord_account o1) (ord_qty_remaining o1) R = (fs, q', R', w)"
  shows "\<exists>b'. match_level p o1 b rs = Some (w, o1\<lparr>ord_qty_remaining := q'\<rparr>, b',
      rs @ reports (ob_symbol b) o1 (priced p fs)) \<and> ob_symbol b' = ob_symbol b \<and>
    refines b' (A(\<not> is_buy o1 := (p, R') # L))"
  using assms
proof (induction R arbitrary: o1 b A rs fs q' R' w)
  case Nil
  then have "sd_head_idxs (ob_side b (\<not> is_buy o1)) 0 = NULL_IDX"
    using refines_head(3) [OF Nil.prems(1,2)] by simp
  then have "match_level p o1 b rs = Some (False, o1, b, rs)"
    by (subst match_level.simps) simp
  with Nil show ?case by (auto simp: priced_def fun_upd_idem)
next
  case (Cons r R)
  let ?d = "\<not> is_buy o1"
  note H = refines_head [OF Cons.prems(1,2)]
  consider (zero) "ord_qty_remaining o1 = 0"
    | (wall) "ord_qty_remaining o1 \<noteq> 0" "ord_account o1 \<noteq> 0 \<and> ord_account o1 = rs_acct r"
    | (full) "ord_qty_remaining o1 \<noteq> 0" "\<not> (ord_account o1 \<noteq> 0 \<and> ord_account o1 = rs_acct r)"
        "rs_qty r \<le> ord_qty_remaining o1"
    | (part) "ord_qty_remaining o1 \<noteq> 0" "\<not> (ord_account o1 \<noteq> 0 \<and> ord_account o1 = rs_acct r)"
        "ord_qty_remaining o1 < rs_qty r"
    by fastforce
  then show ?case
  proof cases
    case zero
    then have "match_level p o1 b rs = Some (False, o1, b, rs)"
      by (subst match_level.simps) simp
    with Cons.prems zero show ?thesis by (auto simp: priced_def fun_upd_idem)
  next
    case wall
    then have "match_level p o1 b rs = Some (True, o1, b, rs)"
      using H(3,4) by (subst match_level.simps) (auto simp: word_gt_0)
    moreover have "fs = []" "q' = ord_qty_remaining o1" "R' = r # R" "w"
      using Cons.prems(3) wall by auto
    ultimately show ?thesis
      using Cons.prems(1) fun_upd_idem [of A, OF Cons.prems(2)] by (simp only: priced_def) simp
  next
    case full
    let ?o2 = "o1\<lparr>ord_qty_remaining := ord_qty_remaining o1 - rs_qty r\<rparr>"
    obtain b2 where fh: "fill_head p o1 b = Some (?o2, b2, report (ob_symbol b) o1 (rs_id r) p (rs_qty r))"
      and b2: "ob_symbol b2 = ob_symbol b" "refines b2 (A(?d := (p, R) # L))"
      using fill_head_full [OF Cons.prems(1,2) full(3)] by blast
    obtain gs where gs: "afill (ord_account ?o2) (ord_qty_remaining ?o2) R = (gs, q', R', w)"
      "fs = (rs_id r, rs_qty r) # gs"
      using Cons.prems(3) full by (auto split: prod.splits)
    have buy: "is_buy ?o2 = is_buy o1" by (simp add: is_buy_def)
    have A2: "(A(?d := (p, R) # L)) (\<not> is_buy ?o2) = (p, R) # L" by (simp add: buy)
    note ih = Cons.IH [OF b2(2) A2 gs(1), unfolded buy fun_upd_upd]
    obtain b' where "match_level p ?o2 b2 (rs @ [report (ob_symbol b) o1 (rs_id r) p (rs_qty r)]) =
        Some (w, ?o2\<lparr>ord_qty_remaining := q'\<rparr>, b',
          (rs @ [report (ob_symbol b) o1 (rs_id r) p (rs_qty r)]) @ reports (ob_symbol b2) ?o2 (priced p gs))"
      "ob_symbol b' = ob_symbol b2" "refines b' (A(?d := (p, R') # L))"
      using ih [of "rs @ [report (ob_symbol b) o1 (rs_id r) p (rs_qty r)]"] by blast
    moreover have "match_level p o1 b rs =
        match_level p ?o2 b2 (rs @ [report (ob_symbol b) o1 (rs_id r) p (rs_qty r)])"
      using full H(3,4) fh by (subst match_level.simps) (auto simp: word_gt_0)
    ultimately show ?thesis
      by (simp add: gs(2) priced_def b2(1) del: fun_upd_apply)
  next
    case part
    obtain b2 where fh: "fill_head p o1 b = Some (o1\<lparr>ord_qty_remaining := 0\<rparr>, b2,
        report (ob_symbol b) o1 (rs_id r) p (ord_qty_remaining o1))"
      and b2: "ob_symbol b2 = ob_symbol b"
        "refines b2 (A(?d := (p, r\<lparr>rs_qty := rs_qty r - ord_qty_remaining o1\<rparr> # R) # L))"
      using fill_head_part [OF Cons.prems(1,2) part(3)] by blast
    have "match_level p (o1\<lparr>ord_qty_remaining := 0\<rparr>) b2 rs' = Some (False, o1\<lparr>ord_qty_remaining := 0\<rparr>, b2, rs')"
      for rs' by (subst match_level.simps) simp
    then have "match_level p o1 b rs = Some (False, o1\<lparr>ord_qty_remaining := 0\<rparr>, b2,
        rs @ [report (ob_symbol b) o1 (rs_id r) p (ord_qty_remaining o1)])"
      using part H(3,4) fh by (subst match_level.simps) (auto simp: word_gt_0)
    moreover have nle: "\<not> rs_qty r \<le> ord_qty_remaining o1" using part(3) by simp
    have "fs = [(rs_id r, ord_qty_remaining o1)]" "q' = 0" "\<not> w"
      "R' = r\<lparr>rs_qty := rs_qty r - ord_qty_remaining o1\<rparr> # R"
      using Cons.prems(3) part(1,2) nle by (auto split: if_splits)
    ultimately show ?thesis using b2 by (simp add: priced_def del: fun_upd_apply)
  qed
qed

lemma afill_stops: "afill acct q R = (fs, q', R', w) \<Longrightarrow> R' \<noteq> [] \<Longrightarrow> \<not> w \<Longrightarrow> q' = 0"
  by (induction acct q R arbitrary: fs rule: afill.induct) (auto split: if_splits prod.splits)

lemma reports_append:
  "reports symb o1 (fs @ gs) = reports symb o1 fs @
    reports symb (o1\<lparr>ord_qty_remaining := ord_qty_remaining o1 - sum_list (map (\<lambda>(c, p, f). f) fs)\<rparr>) gs"
  by (induction fs arbitrary: o1) (auto simp: diff_diff_eq)

lemma afill_sum:
  "afill acct q R = (fs, q', R', w) \<Longrightarrow> q = q' + sum_list (map snd fs)"
  by (induction acct q R arbitrary: fs rule: afill.induct) (auto split: if_splits prod.splits simp: algebra_simps)

lemma priced_sum: "sum_list (map (\<lambda>(c, p, f). f) (priced p fs)) = sum_list (map snd fs)"
  by (induction fs) (auto simp: priced_def)

lemma match_loop_refines:
  assumes "refines b A"
    and "amatch (crosses o1) (ord_account o1) (ord_qty_remaining o1) (A (\<not> is_buy o1)) = (fs, q', L', w)"
  shows "\<exists>b'. match_loop o1 b rs = Some (w, o1\<lparr>ord_qty_remaining := q'\<rparr>, b',
      rs @ reports (ob_symbol b) o1 fs) \<and> ob_symbol b' = ob_symbol b \<and>
    refines b' (A(\<not> is_buy o1 := L'))"
  using assms
proof (induction "A (\<not> is_buy o1)" arbitrary: o1 b A rs fs q' L' w)
  case Nil
  let ?d = "\<not> is_buy o1"
  have "sd_count (ob_side b ?d) = 0" using refines_count [OF Nil.prems(1), of ?d] Nil.hyps by simp
  then have "match_loop o1 b rs = Some (False, o1, b, rs)" by (subst match_loop.simps) (simp add: Let_def)
  with Nil show ?case by (auto simp: fun_upd_idem)
next
  case (Cons l L)
  let ?d = "\<not> is_buy o1"
  obtain p R where l: "l = (p, R)" by force
  have A: "A ?d = (p, R) # L" using Cons.hyps(2) l by simp
  note H = refines_head [OF Cons.prems(1) A]
  show ?case
  proof (cases "ord_qty_remaining o1 = 0 \<or> \<not> crosses o1 p")
    case True
    then have "match_loop o1 b rs = Some (False, o1, b, rs)"
      using H(2) by (subst match_loop.simps) (auto simp: Let_def)
    with Cons.prems A True show ?thesis by (auto simp: fun_upd_idem)
  next
    case False
    obtain gs q1 R1 w1 where af: "afill (ord_account o1) (ord_qty_remaining o1) R = (gs, q1, R1, w1)"
      by (metis prod_cases4)
    obtain b1 where ml: "match_level p o1 b rs = Some (w1, o1\<lparr>ord_qty_remaining := q1\<rparr>, b1,
        rs @ reports (ob_symbol b) o1 (priced p gs))"
      and b1: "ob_symbol b1 = ob_symbol b" "refines b1 (A(?d := (p, R1) # L))"
      using match_level_refines [OF Cons.prems(1) A af] by blast
    let ?o1 = "o1\<lparr>ord_qty_remaining := q1\<rparr>" let ?rs = "rs @ reports (ob_symbol b) o1 (priced p gs)"
    have buy: "is_buy ?o1 = is_buy o1" "crosses ?o1 = crosses o1"
      by (simp_all add: is_buy_def crosses_def fun_eq_iff)
    have A1: "(A(?d := (p, R1) # L)) ?d = [] @ (p, R1) # L" by simp
    note H1 = refines_head [OF b1(2), of ?d p R1 L]
    have step: "match_loop o1 b rs = (if w1 then Some (True, ?o1, b1, ?rs)
        else match_loop ?o1 (if R1 = [] then set_side b1 ?d (remove_level (ob_side b1 ?d) 0) else b1) ?rs)"
      using False H(1,2) ml H1(5) by (subst match_loop.simps) (auto simp: Let_def word_gt_0)
    consider (wall) "w1" | (rest) "\<not> w1" "R1 \<noteq> []" | (next1) "\<not> w1" "R1 = []" by blast
    then show ?thesis
    proof cases
      case wall
      with Cons.prems(2) A False af have "fs = priced p gs" "q' = q1" "L' = (p, R1) # L" "w"
        by auto
      with wall step b1 show ?thesis by simp
    next
      case rest
      with Cons.prems(2) A False af have r: "fs = priced p gs" "q' = q1" "L' = (p, R1) # L" "\<not> w"
        by auto
      have "q1 = 0" using afill_stops [OF af rest(2,1)] .
      then have "match_loop ?o1 b1 ?rs = Some (False, ?o1, b1, ?rs)"
        by (subst match_loop.simps) (simp add: Let_def)
      with rest step r b1 show ?thesis by simp
    next
      case next1
      let ?b2 = "set_side b1 ?d (remove_level (ob_side b1 ?d) 0)"
      have b2: "refines ?b2 (A(?d := L))"
        using remove_level_refines [OF b1(2), of ?d "[]" p L] next1(2) by simp
      obtain hs q2 L2 w2 where am: "amatch (crosses o1) (ord_account o1) q1 L = (hs, q2, L2, w2)"
        by (metis prod_cases4)
      with Cons.prems(2) A False af next1 have r: "fs = priced p gs @ hs" "q' = q2" "L' = L2" "w = w2"
        by auto
      have "L = (A(?d := L)) (\<not> is_buy ?o1)" by (simp add: buy)
      from Cons.hyps(1) [OF this b2, of hs q2 L2 w2 ?rs] am
      obtain b' where "match_loop ?o1 ?b2 ?rs = Some (w2, ?o1\<lparr>ord_qty_remaining := q2\<rparr>, b',
          ?rs @ reports (ob_symbol ?b2) ?o1 hs)"
        "ob_symbol b' = ob_symbol ?b2" "refines b' (A(?d := L, ?d := L2))"
        by (auto simp: buy)
      moreover have "o1\<lparr>ord_qty_remaining := ord_qty_remaining o1 - sum_list (map (\<lambda>(c, p, f). f) (priced p gs))\<rparr> = ?o1"
        using afill_sum [OF af] by (simp add: priced_sum)
      ultimately show ?thesis
        using step next1 b1(1) by (simp add: r reports_append)
    qed
  qed
qed

end
