(* ===== verification/Book_Ops.thy ===== *)
theory Book_Ops
  imports Book_Refine
begin

text \<open>
  The refinement lemmas of the public operations of \<^verbatim>\<open>OrderBook\<close>, built from those of
  \<open>Book_Refine\<close>: the fill-or-kill pre-check, \<^verbatim>\<open>add_order\<close>, \<^verbatim>\<open>cancel_order\<close>,
  \<^verbatim>\<open>modify_order\<close> and \<^verbatim>\<open>best_quote\<close>.
\<close>

lemma resting_of_sel [simp]:
  "rs_id (resting_of sp x) = sp_ids sp x" "rs_qty (resting_of sp x) = sp_qtys sp x"
  "rs_acct (resting_of sp x) = sp_accounts sp x"
  by (simp_all add: resting_of_def)

lemma fst_abs_levels_nth [simp]: "j < length ls \<Longrightarrow> fst (abs_levels sp ls ! j) = fst (ls ! j)"
  by (simp add: abs_levels_def)

section \<open>The fill-or-kill pre-check\<close>

lemma liquidity_queue_spec:
  assumes "dls (sp_nexts sp) pv p q NULL_IDX h t" "NULL_IDX \<notin> set q"
    and "aliq_queue (ord_account o1) (map (resting_of sp) q) = (w, n)" "unat tot + n < 2 ^ 64"
  shows "\<exists>stop t'. liquidity_queue sp o1 h tot = Some (stop, t') \<and>
    (if stop then (unat t' < unat (ord_qty_remaining o1) \<longleftrightarrow> unat tot + n < unat (ord_qty_remaining o1)) \<and>
        (unat t' < unat (ord_qty_remaining o1) \<longrightarrow> w)
     else \<not> w \<and> unat t' = unat tot + n)"
  using assms
proof (induction q arbitrary: p h tot w n)
  case Nil
  then have "liquidity_queue sp o1 h tot = Some (False, tot)"
    by (subst liquidity_queue.simps) simp
  moreover have "\<not> w" "n = 0" using Nil.prems(3) by auto
  ultimately show ?case by auto
next
  case (Cons x q)
  have h: "h = x" "x \<noteq> NULL_IDX" using Cons.prems(1,2) by auto
  show ?case
  proof (cases "ord_account o1 \<noteq> 0 \<and> ord_account o1 = sp_accounts sp x")
    case True
    then have "liquidity_queue sp o1 h tot = Some (True, tot)"
      using h by (subst liquidity_queue.simps) auto
    moreover have "w" "n = 0" using Cons.prems(3) True by auto
    ultimately show ?thesis by auto
  next
    case False
    obtain w1 n1 where a: "aliq_queue (ord_account o1) (map (resting_of sp) q) = (w1, n1)" by force
    have wn: "w = w1" "n = unat (sp_qtys sp x) + n1"
      using Cons.prems(3) False a by auto
    let ?tot = "tot + ucast (sp_qtys sp x) :: u64"
    have u: "unat (ucast (sp_qtys sp x) :: u64) = unat (sp_qtys sp x)"
      by (rule unat_ucast_u32_u64)
    have ut: "unat ?tot = unat tot + unat (sp_qtys sp x)"
      using Cons.prems(4) by (subst unat_add_no_wrap) (simp_all add: u wn)
    have cmp: "?tot \<ge> ucast (ord_qty_remaining o1) \<longleftrightarrow> unat ?tot \<ge> unat (ord_qty_remaining o1)"
      by (simp add: word_le_nat_alt unat_ucast_u32_u64)
    show ?thesis
    proof (cases "unat ?tot \<ge> unat (ord_qty_remaining o1)")
      case True
      then have "?tot \<ge> ucast (ord_qty_remaining o1)" using cmp by blast
      then have "liquidity_queue sp o1 h tot = Some (True, ?tot)"
        using False by (subst liquidity_queue.simps) (simp only: h Let_def if_True if_False not_False_eq_True)
      moreover have "\<not> unat ?tot < unat (ord_qty_remaining o1)"
        "\<not> unat tot + n < unat (ord_qty_remaining o1)"
        using True ut wn(2) by linarith+
      ultimately show ?thesis by (intro exI [of _ True] exI [of _ ?tot]) simp
    next
      case ne: False
      have d: "dls (sp_nexts sp) pv x q NULL_IDX (sp_nexts sp x) t" "NULL_IDX \<notin> set q"
        using Cons.prems(1,2) h by auto
      have "\<not> ?tot \<ge> ucast (ord_qty_remaining o1)" using cmp ne by blast
      then have step: "liquidity_queue sp o1 h tot = liquidity_queue sp o1 (sp_nexts sp x) ?tot"
        using False by (subst liquidity_queue.simps) (simp only: h Let_def if_True if_False not_False_eq_True)
      have e: "unat ?tot + n1 = unat tot + n" using ut wn(2) by linarith
      then have "unat ?tot + n1 < 2 ^ 64" using Cons.prems(4) by linarith
      from Cons.IH [OF d a this] show ?thesis unfolding step e wn(1) .
    qed
  qed
qed

lemma aliq_queue_bound:
  "snd (aliq_queue acct R) \<le> length R * 2 ^ 32"
proof (induction R)
  case (Cons r R)
  have "unat (rs_qty r) \<le> 2 ^ 32" using unat_u32_less [of "rs_qty r"] by (simp add: less_imp_le)
  with Cons show ?case by (auto split: prod.splits)
qed simp

lemma aliq_bound: "aliq cr acct L \<le> length (orders_of L) * 2 ^ 32"
proof (induction L)
  case (Cons l L)
  obtain p R where l: "l = (p, R)" by force
  with Cons aliq_queue_bound [of acct R] show ?case
    by (auto simp: algebra_simps split: prod.splits)
qed simp

lemma liquidity_levels_spec:
  assumes core: "core b lv F" and lv: "lv d = xs @ ys"
    and bound: "unat tot + aliq (crosses o1) (ord_account o1) (abs_levels (ob_slots b) ys) < 2 ^ 64"
  shows "\<exists>t'. liquidity_levels (ob_side b d) (ob_slots b) o1 (length xs) tot = Some t' \<and>
    (unat t' < unat (ord_qty_remaining o1) \<longleftrightarrow>
      unat tot + aliq (crosses o1) (ord_account o1) (abs_levels (ob_slots b) ys) < unat (ord_qty_remaining o1))"
  using lv bound
proof (induction ys arbitrary: xs tot)
  case Nil
  then have "\<not> length xs < sd_count (ob_side b d)" using core_count [OF core, of d] by simp
  then have "liquidity_levels (ob_side b d) (ob_slots b) o1 (length xs) tot = Some tot"
    by (subst liquidity_levels.simps) simp
  then show ?case by simp
next
  case (Cons l ys)
  let ?sp = "ob_slots b" let ?s = "ob_side b d"
  obtain p q where l: "l = (p, q)" by force
  have ok: "side_ok ?sp ?s (xs @ (p, q) # ys)" using coreD(1) [OF core, of d] Cons.prems(1) l by simp
  note N = side_ok_nth [OF ok]
  have p: "sd_prices ?s (length xs) = p" and dl: "dls (sp_nexts ?sp) (sp_prevs ?sp) NULL_IDX q NULL_IDX
      (sd_head_idxs ?s (length xs)) (sd_tail_idxs ?s (length xs))"
    using N(2) by (simp_all add: lvl_ok_def lev_def)
  have nn: "NULL_IDX \<notin> set q"
    using live_not_null(1) [OF core, of NULL_IDX d] Cons.prems(1) l by auto
  show ?case
  proof (cases "crosses o1 p")
    case False
    then have "liquidity_levels ?s ?sp o1 (length xs) tot = Some tot"
      using N(1) p by (subst liquidity_levels.simps) simp
    with False show ?thesis by (simp add: l)
  next
    case True
    obtain w n where wn: "aliq_queue (ord_account o1) (map (resting_of ?sp) q) = (w, n)" by force
    have "unat tot + n < 2 ^ 64" using Cons.prems(2) True wn by (auto simp: l split: if_splits)
    from liquidity_queue_spec [OF dl nn wn this] obtain stop t1 where
      t1: "liquidity_queue ?sp o1 (sd_head_idxs ?s (length xs)) tot = Some (stop, t1)"
      "if stop then (unat t1 < unat (ord_qty_remaining o1) \<longleftrightarrow> unat tot + n < unat (ord_qty_remaining o1)) \<and>
        (unat t1 < unat (ord_qty_remaining o1) \<longrightarrow> w)
       else \<not> w \<and> unat t1 = unat tot + n" by blast
    have step: "liquidity_levels ?s ?sp o1 (length xs) tot =
        (if stop then Some t1 else liquidity_levels ?s ?sp o1 (length xs + 1) t1)"
      using N(1) p True t1(1) by (subst liquidity_levels.simps) simp
    show ?thesis
    proof (cases stop)
      case True
      with step t1(2) wn \<open>crosses o1 p\<close> show ?thesis by (auto simp: l)
    next
      case False
      with t1(2) have t: "\<not> w" "unat t1 = unat tot + n" by auto
      have xs: "lv d = (xs @ [l]) @ ys" using Cons.prems(1) by simp
      from Cons.IH [OF this, of t1] Cons.prems(2) step False t wn \<open>crosses o1 p\<close> show ?thesis
        by (simp add: l add.assoc)
    qed
  qed
qed

lemma available_liquidity_refines:
  assumes "refines b A"
  shows "\<exists>l. available_liquidity b o1 = Some l \<and> (l < ord_qty_remaining o1 \<longleftrightarrow>
    aliq (crosses o1) (ord_account o1) (A (\<not> is_buy o1)) < unat (ord_qty_remaining o1))"
proof -
  let ?d = "\<not> is_buy o1"
  obtain lv F where core: "core b lv F" and A: "A = (\<lambda>d. abs_levels (ob_slots b) (lv d))"
    using assms by (auto simp: refines_def)
  have "length (orders_of (lv ?d)) \<le> kMaxOrders"
    using parts_distinct(5) [OF coreD(3) [OF core]] by (cases ?d) (auto simp: algebra_simps)
  with aliq_bound [of "crosses o1" "ord_account o1" "A ?d"]
  have "aliq (crosses o1) (ord_account o1) (A ?d) \<le> kMaxOrders * 2 ^ 32"
    unfolding A orders_of_abs length_map by (meson le_trans mult_le_mono1)
  then have "unat (0 :: u64) + aliq (crosses o1) (ord_account o1) (abs_levels (ob_slots b) (lv ?d)) < 2 ^ 64"
    by (simp add: kMaxOrders_def A)
  from liquidity_levels_spec [where xs = "[]" and d = ?d, OF core _ this]
  obtain t where t: "liquidity_levels (ob_side b ?d) (ob_slots b) o1 0 0 = Some t"
    "unat t < unat (ord_qty_remaining o1) \<longleftrightarrow>
      aliq (crosses o1) (ord_account o1) (A ?d) < unat (ord_qty_remaining o1)"
    by (auto simp: A)
  have "(ucast (min t 0xFFFFFFFF) :: u32) < ord_qty_remaining o1 \<longleftrightarrow> unat t < unat (ord_qty_remaining o1)"
    unfolding word_less_nat_alt unat_clamp_u32 using unat_u32_less [of "ord_qty_remaining o1"] by auto
  with t show ?thesis by (simp add: available_liquidity_def)
qed

section \<open>Finding and inserting a level\<close>

lemma refines_price_at:
  assumes "refines b A" "i < length (A d)"
  shows "sd_prices (ob_side b d) i = fst (A d ! i)"
proof -
  obtain X p R Y where A: "A d = X @ (p, R) # Y" "length X = i"
    using assms(2) by (metis id_take_nth_drop length_take min.absorb4 surj_pair)
  obtain lv F xs q ys where core: "core b lv F" and lv: "lv d = xs @ (p, q) # ys"
    and X: "X = abs_levels (ob_slots b) xs"
    using refinesE [OF assms(1) A(1)] .
  have "side_ok (ob_slots b) (ob_side b d) (xs @ (p, q) # ys)" using coreD(1) [OF core, of d] lv by simp
  from side_ok_nth(2) [OF this] A X show ?thesis by (auto simp: lvl_ok_def lev_def nth_append)
qed

lemma find_level_Some:
  assumes "refines b A" "find_level (ob_side b d) p = Some i"
  shows "\<exists>X R Y. A d = X @ (p, R) # Y \<and> length X = i \<and> p \<notin> set (prices_of X)"
proof -
  have i: "i < length (A d)" "sd_prices (ob_side b d) i = p"
    "\<And>j. j < i \<Longrightarrow> sd_prices (ob_side b d) j \<noteq> p"
    using assms(2) refines_count [OF assms(1), of d] by (auto simp: find_level_def find_level_from_Some_iff)
  have p: "fst (A d ! i) = p" using i(1,2) refines_price_at [OF assms(1)] by metis
  have "p \<notin> set (prices_of (take i (A d)))"
  proof
    assume "p \<in> set (prices_of (take i (A d)))"
    then obtain l where "l \<in> set (take i (A d))" "fst l = p" by auto
    then obtain j where "j < i" "fst (A d ! j) = p" using i(1) by (auto simp: in_set_conv_nth)
    with i refines_price_at [OF assms(1), of j d] show False by auto
  qed
  moreover have "A d = take i (A d) @ (p, snd (A d ! i)) # drop (Suc i) (A d)"
    using id_take_nth_drop [OF i(1)] p by (metis prod.collapse)
  ultimately show ?thesis using i(1) by (metis length_take min.absorb4)
qed

lemma find_level_None:
  assumes "refines b A" "find_level (ob_side b d) p = None"
  shows "p \<notin> set (prices_of (A d))"
proof
  assume "p \<in> set (prices_of (A d))"
  then obtain l where "l \<in> set (A d)" "fst l = p" by auto
  then obtain i where "i < length (A d)" "fst (A d ! i) = p" by (auto simp: in_set_conv_nth)
  with assms refines_price_at [OF assms(1), of i d] refines_count [OF assms(1), of d] show False
    by (auto simp: find_level_def find_level_from_None_iff)
qed

lemma find_level_split:
  assumes "refines b A" "A d = X @ (p, R) # Y" "p \<notin> set (prices_of X)"
  shows "find_level (ob_side b d) p = Some (length X)"
proof -
  have pr: "sd_prices (ob_side b d) i = fst (A d ! i)" if "i \<le> length X" for i
    using refines_price_at [OF assms(1), of i d] that assms(2) by simp
  have "sd_prices (ob_side b d) j \<noteq> p" if "j < length X" for j
    using pr [of j] assms(2,3) that nth_mem [OF that] by (auto simp: nth_append image_iff)
  then show ?thesis
    using pr [of "length X"] assms(2) refines_count [OF assms(1), of d]
    by (simp add: find_level_def find_level_from_Some_iff)
qed

lemma ainsert_new:
  assumes "\<forall>x\<in>set (prices_of X). better d x p" "\<forall>x\<in>set (prices_of Y). \<not> better d x p \<and> x \<noteq> p"
  shows "ainsert d p r (X @ Y) = X @ (p, [r]) # Y"
  using assms(1)
proof (induction X)
  case Nil
  then show ?case using assms(2) by (cases Y) auto
next
  case (Cons l X)
  then show ?case by (cases l) auto
qed

lemma ainsert_old:
  assumes "\<forall>x\<in>set (prices_of X). better d x p"
  shows "ainsert d p r (X @ (p, R) # Y) = X @ (p, R @ [r]) # Y"
  using assms
proof (induction X)
  case (Cons l X)
  then show ?case by (cases l) auto
qed simp

lemma insert_level_refines:
  assumes R: "refines b A" and o: "ordered d (prices_of (A d))" and p: "p \<notin> set (prices_of (A d))"
    and len: "length (A d) < kMaxLevels"
  shows "\<exists>X Y s'. insert_level (ob_side b d) p d = (Some (length X), s') \<and> A d = X @ Y \<and>
    (\<forall>x\<in>set (prices_of X). better d x p) \<and> (\<forall>x\<in>set (prices_of Y). \<not> better d x p \<and> x \<noteq> p) \<and>
    refines (set_side b d s') (A(d := X @ (p, []) # Y))"
proof -
  obtain lv F where core: "core b lv F" and A: "A = (\<lambda>d. abs_levels (ob_slots b) (lv d))"
    using R by (auto simp: refines_def)
  let ?s = "ob_side b d"
  have cnt: "sd_count ?s = length (lv d)" using core_count [OF core] .
  then have "sd_count ?s < kMaxLevels" using len by (simp add: A)
  then obtain pos s' where il: "insert_level ?s p d = (Some pos, s')"
    and pos: "pos = insert_pos (sd_prices ?s) (sd_count ?s) p d 0" "pos \<le> sd_count ?s"
    and lv': "levs s' = take pos (levs ?s) @ (p, 0, 0, NULL_IDX, NULL_IDX) # drop pos (levs ?s)"
    using insert_level_levs [of ?s p d] by blast
  define xs where "xs = take pos (lv d)"
  define ys where "ys = drop pos (lv d)"
  have xy: "lv d = xs @ ys" "length xs = pos" using pos(2) cnt by (simp_all add: xs_def ys_def)
  have pr: "sd_prices ?s j = prices_of (A d) ! j" if "j < length (lv d)" for j
    using refines_price_at [OF R, of j d] that by (simp add: A)
  have ps: "prices_of (A d) = prices_of (lv d)" by (simp add: A)
  have "ordered d (prices_of (lv d))" "pos \<le> length (prices_of (lv d))" using o ps pos(2) cnt by simp_all
  moreover have "\<forall>j<pos. better d (prices_of (lv d) ! j) p"
    using insert_pos_from_0 [of "sd_prices ?s" "sd_count ?s" p d] pr pos(2) ps cnt unfolding pos(1) [symmetric]
    by (metis order.strict_trans2)
  moreover have "pos < length (prices_of (lv d)) \<longrightarrow> \<not> better d (prices_of (lv d) ! pos) p"
    using insert_pos_from_0 [of "sd_prices ?s" "sd_count ?s" p d] pr [of pos] ps cnt unfolding pos(1) [symmetric]
    by simp
  ultimately have sp: "take pos (prices_of (lv d)) = filter (\<lambda>x. better d x p) (prices_of (lv d))"
    "drop pos (prices_of (lv d)) = filter (\<lambda>x. \<not> better d x p) (prices_of (lv d))"
    by (rule ordered_insert_split)+
  have bx: "\<forall>x\<in>set (prices_of xs). better d x p" "\<forall>x\<in>set (prices_of ys). \<not> better d x p"
    using sp by (simp_all add: xs_def ys_def take_map drop_map)
  have "side_ok (ob_slots b) ?s (xs @ ys)" using coreD(1) [OF core, of d] xy(1) by simp
  then have "list_all2 (lvl_ok (ob_slots b)) (take pos (levs ?s)) xs"
    "list_all2 (lvl_ok (ob_slots b)) (drop pos (levs ?s)) ys"
    unfolding side_ok_def xs_def ys_def xy(1) [symmetric] by (auto intro: list_all2_takeI list_all2_dropI)
  then have side: "side_ok (ob_slots b) s' (xs @ (p, []) # ys)"
    unfolding side_ok_def lv' by (intro list_all2_appendI) (simp_all add: lvl_ok_def)
  let ?b' = "set_side b d s'"
  have mem: "orders_of (xs @ (p, []) # ys) = orders_of (lv d)" using xy(1) by simp
  have "core ?b' (lv(d := xs @ (p, []) # ys)) F"
  proof (rule coreI)
    show "side_ok (ob_slots ?b') (ob_side ?b' d') ((lv(d := xs @ (p, []) # ys)) d')" for d'
      by (cases "d' = d") (use side coreD(1) [OF core, of d'] in auto)
    show "pool_inv (ob_slots ?b') F" using coreD(2) [OF core] by simp
    show "parts (lv(d := xs @ (p, []) # ys)) F"
      by (rule parts_change [OF coreD(3) [OF core]]) (simp only: mem)
    have "index_ok (ob_index b) (ob_slots b) (lv(d := xs @ (p, []) # ys))"
      by (rule index_ok_cong [OF coreD(4) [OF core]]) (simp_all only: fun_upd_apply mem split: if_splits, simp)
    then show "index_ok (ob_index ?b') (ob_slots ?b') (lv(d := xs @ (p, []) # ys))" by simp
  qed
  then have "refines ?b' (A(d := abs_levels (ob_slots b) xs @ (p, []) # abs_levels (ob_slots b) ys))"
    by (rule refinesI) (auto simp: A fun_eq_iff)
  moreover have "A d = abs_levels (ob_slots b) xs @ abs_levels (ob_slots b) ys" by (simp add: A xy(1))
  moreover have "\<forall>x\<in>set (prices_of ys). x \<noteq> p" using p ps xy(1) by auto
  ultimately show ?thesis using il xy(2) bx
    by (intro exI [of _ "abs_levels (ob_slots b) xs"] exI [of _ "abs_levels (ob_slots b) ys"] exI [of _ s'])
      (simp del: fun_upd_apply)
qed

section \<open>Resting an order\<close>

lemma num_orders_core:
  assumes "core b lv F" "A = (\<lambda>d. abs_levels (ob_slots b) (lv d))"
  shows "num_orders A + length F = kMaxOrders"
  using parts_distinct(5) [OF coreD(3) [OF assms(1)]] by (simp add: num_orders_def assms(2))

lemma all_ids_abs:
  "oid \<in> all_ids (\<lambda>d. abs_levels sp (lv d)) \<longleftrightarrow> (\<exists>e. \<exists>y\<in>set (orders_of (lv e)). sp_ids sp y = oid)"
proof -
  have "all_ids (\<lambda>d. abs_levels sp (lv d)) = sp_ids sp ` (set (orders_of (lv True)) \<union> set (orders_of (lv False)))"
    by (simp add: all_ids_def image_image image_Un)
  then show ?thesis unfolding ex_bool_eq by auto
qed

lemma alloc_full_refines:
  assumes "refines b A" "num_orders A = kMaxOrders"
  shows "pool_alloc (ob_slots b) = (NULL_IDX, ob_slots b)"
proof -
  obtain lv F where core: "core b lv F" and A: "A = (\<lambda>d. abs_levels (ob_slots b) (lv d))"
    using assms(1) by (auto simp: refines_def)
  have "F = []" using num_orders_core [OF core A] assms(2) by simp
  with coreD(2) [OF core] show ?thesis using sa.alloc_full by simp
qed

lemma link_refines:
  assumes R: "refines b A" and A: "A d = X @ (p, Q) # Y" and room: "num_orders A < kMaxOrders"
    and fresh: "ord_id o1 \<notin> all_ids A" and p: "ord_price o1 = p"
  shows "\<exists>slot sp t. pool_alloc (ob_slots b) = (slot, sp) \<and> slot \<noteq> NULL_IDX \<and>
    index_insert (ob_index b) (ord_id o1) slot (side_code d) = Some (True, t) \<and>
    refines ((link_tail (b\<lparr>ob_slots := sp\<rparr>) d (length X) slot o1)\<lparr>ob_index := t\<rparr>)
      (A(d := X @ (p, Q @ [\<lparr>rs_id = ord_id o1, rs_qty = ord_qty_remaining o1, rs_acct = ord_account o1\<rparr>]) # Y))"
proof -
  let ?sp = "ob_slots b" let ?s = "ob_side b d"
  obtain lv F0 xs q ys where core: "core b lv F0" and AA: "A = (\<lambda>d. abs_levels ?sp (lv d))"
    and lv: "lv d = xs @ (p, q) # ys" and ab: "X = abs_levels ?sp xs" "Q = map (resting_of ?sp) q"
      "Y = abs_levels ?sp ys"
    using refinesE [OF R A] .
  have "F0 \<noteq> []" using num_orders_core [OF core AA] room by auto
  then obtain c F where F0: "F0 = c # F" by (cases F0) auto
  note core = core [unfolded F0]
  note P = parts_distinct [OF coreD(3) [OF core]]
  obtain spa where al: "pool_alloc ?sp = (c, spa)" "pool_inv spa F" "c \<noteq> NULL_IDX"
    using pool_alloc_Cons [OF coreD(2) [OF core]] by blast
  have spa: "spa = ?sp\<lparr>sp_free_head := sp_free_nexts ?sp (sp_free_head ?sp), sp_used := sp_used ?sp + 1\<rparr>"
    using al(1,3) by (auto simp: pool_alloc_def Let_def split: if_splits)
  have c: "\<And>e. c \<notin> set (orders_of (lv e))" using P(2) by auto
  have cK: "c < kMaxOrders" using pool_inv_owned [OF coreD(2) [OF core]] by simp
  have len: "length X = length xs" by (simp add: ab)
  have cq: "c \<notin> set q" "distinct q" using c [of d] P(1) [of d] lv by auto
  let ?i = "length xs"
  define b2 where "b2 = link_tail (b\<lparr>ob_slots := spa\<rparr>) d ?i c o1"
  have ok: "side_ok ?sp ?s (xs @ (p, q) # ys)" using coreD(1) [OF core, of d] lv by simp
  have L0: "sd_prices ?s ?i = p" "sd_qtys ?s ?i = sum_list (map (sp_qtys ?sp) q)"
    "sd_order_counts ?s ?i = of_nat (length q)"
    "dls (sp_nexts ?sp) (sp_prevs ?sp) NULL_IDX q NULL_IDX (sd_head_idxs ?s ?i) (sd_tail_idxs ?s ?i)"
    "\<forall>y\<in>set q. sp_prices ?sp y = p"
    using side_ok_nth(2) [OF ok] by (simp_all add: lvl_ok_def lev_def)
  have hd0: "sd_head_idxs ?s ?i = NULL_IDX \<longleftrightarrow> q = []"
    using dls_head [OF L0(4)] live_not_null(1) [OF core, of "hd q" d] lv by (cases q) auto
  have tl0: "q \<noteq> [] \<Longrightarrow> sd_tail_idxs ?s ?i = last q" using dls_tail [OF L0(4)] by simp
  have F: "sp_ids (ob_slots b2) = (sp_ids ?sp)(c := ord_id o1)"
    "sp_qtys (ob_slots b2) = (sp_qtys ?sp)(c := ord_qty_remaining o1)"
    "sp_accounts (ob_slots b2) = (sp_accounts ?sp)(c := ord_account o1)"
    "sp_prices (ob_slots b2) = (sp_prices ?sp)(c := p)"
    "sp_nexts (ob_slots b2) = (if q = [] then (sp_nexts ?sp)(c := NULL_IDX)
       else (sp_nexts ?sp)(c := NULL_IDX, sd_tail_idxs ?s ?i := c))"
    "sp_prevs (ob_slots b2) = (sp_prevs ?sp)(c := (if q = [] then NULL_IDX else sd_tail_idxs ?s ?i))"
    "ob_index b2 = ob_index b" "ob_side b2 (\<not> d) = ob_side b (\<not> d)"
    "sp_free_nexts (ob_slots b2) = sp_free_nexts spa" "sp_free_head (ob_slots b2) = sp_free_head spa"
    "sp_used (ob_slots b2) = sp_used spa"
    by (auto simp: b2_def link_tail_def Let_def hd0 spa p)
  let ?c = "(p, sd_qtys ?s ?i + ord_qty_remaining o1, sd_order_counts ?s ?i + 1,
    (if q = [] then c else sd_head_idxs ?s ?i), c)"
  have Lv: "levs (ob_side b2 d) = (levs ?s)[length xs := ?c]"
    by (rule levs_update) (auto simp: b2_def link_tail_def Let_def hd0 lev_def fun_eq_iff L0(1))
  have dls: "dls (sp_nexts (ob_slots b2)) (sp_prevs (ob_slots b2)) NULL_IDX (q @ [c]) NULL_IDX
      (if q = [] then c else sd_head_idxs ?s ?i) c"
  proof (cases "q = []")
    case True
    then show ?thesis by (simp add: F)
  next
    case False
    with dls_snoc [OF L0(4) cq(2,1) False] show ?thesis by (simp add: F)
  qed
  have "sum_list (map (sp_qtys (ob_slots b2)) q) = sum_list (map (sp_qtys ?sp) q)"
    using cq by (intro sum_list_map_cong) (auto simp: F)
  then have lvl: "lvl_ok (ob_slots b2) ?c (p, q @ [c])"
    using dls L0(2,3,5) by (simp add: lvl_ok_def) (simp add: F)
  have fr: "same ?sp (ob_slots b2) x" if "x \<notin> set q" "x \<notin> set (q @ [c])" for x
    using that tl0 by (auto simp: same_def F)
  have pool: "pool_inv (ob_slots b2) F" using al(2) by (simp add: pool_inv_def F)
  have lvs: "set (orders_of ((lv(d := xs @ (p, q @ [c]) # ys)) e)) =
      (if e = d then insert c (set (orders_of (lv e))) else set (orders_of (lv e)))" for e
    using lv by auto
  have ids: "ord_id o1 \<noteq> sp_ids ?sp y" if "y \<in> set (orders_of (lv e))" for e y
    using fresh that unfolding AA all_ids_abs by metis
  have "\<exists>t. index_insert (ob_index b) (ord_id o1) c (side_code d) = Some (True, t) \<and>
      index_ok t (ob_slots b2) (lv(d := xs @ (p, q @ [c]) # ys))"
  proof (rule index_ok_insert [OF coreD(4,3) [OF core] c cK _ lvs])
    show "sp_ids ?sp y \<noteq> ord_id o1" if "y \<in> set (orders_of (lv e))" for e y
      using ids [OF that] by simp
    show "sp_ids (ob_slots b2) y = sp_ids ?sp y" if "y \<in> set (orders_of (lv e))" for e y
      using that c [of e] by (auto simp: F)
    show "sp_ids (ob_slots b2) c = ord_id o1" by (simp add: F)
  qed
  then obtain t where t: "index_insert (ob_index b) (ord_id o1) c (side_code d) = Some (True, t)"
    "index_ok t (ob_slots b2) (lv(d := xs @ (p, q @ [c]) # ys))" by blast
  let ?b3 = "b2\<lparr>ob_index := t\<rparr>"
  have eqs: "ob_side ?b3 = ob_side b2" "ob_slots ?b3 = ob_slots b2" "ob_index ?b3 = t"
    by (simp_all add: fun_eq_iff)
  have ms: "mset (q @ [c]) + mset F = mset q + mset (c # F)" by simp
  note C = core_level [where d = d and b' = ?b3, unfolded eqs, OF core lv Lv F(8) lvl fr pool ms t(2)]
  have "map (resting_of (ob_slots b2)) (q @ [c]) =
      Q @ [\<lparr>rs_id = ord_id o1, rs_qty = ord_qty_remaining o1, rs_acct = ord_account o1\<rparr>]"
    using cq(1) by (auto simp: ab(2) resting_of_def F)
  then have "refines ?b3 (A(d := X @ (p, Q @ [\<lparr>rs_id = ord_id o1, rs_qty = ord_qty_remaining o1,
      rs_acct = ord_account o1\<rparr>]) # Y))"
    using refinesI [OF C(1)] C(2) by (simp add: AA ab(1,3) del: fun_upd_apply)
  then show ?thesis using al(1,3) t(1) unfolding len b2_def by blast
qed

lemma rest_order_refines:
  assumes R: "refines b A" and o: "ordered (is_buy o1) (prices_of (A (is_buy o1)))"
    and len: "length (A (is_buy o1)) \<le> kMaxLevels" and num: "num_orders A \<le> kMaxOrders"
    and fresh: "ord_id o1 \<notin> all_ids A"
  shows "\<exists>b'. rest_order b o1 = Some (can_rest A (is_buy o1) (ord_price o1), b') \<and>
    refines b' (if can_rest A (is_buy o1) (ord_price o1)
      then A(is_buy o1 := ainsert (is_buy o1) (ord_price o1)
        \<lparr>rs_id = ord_id o1, rs_qty = ord_qty_remaining o1, rs_acct = ord_account o1\<rparr> (A (is_buy o1)))
      else A) \<and> ob_symbol b' = ob_symbol b"
proof -
  let ?d = "is_buy o1" let ?p = "ord_price o1"
  let ?r = "\<lparr>rs_id = ord_id o1, rs_qty = ord_qty_remaining o1, rs_acct = ord_account o1\<rparr>"
  have room: "num_orders A < kMaxOrders \<or> num_orders A = kMaxOrders" using num by auto
  have sym_link: "ob_symbol (link_tail b1 d i c o1) = ob_symbol b1" "ob_index (link_tail b1 d i c o1) = ob_index b1"
    for b1 d i c by (simp_all add: link_tail_def Let_def)
  show ?thesis
  proof (cases "find_level (ob_side b ?d) ?p")
    case (Some i)
    from find_level_Some [OF R Some] obtain X Q Y where
      A: "A ?d = X @ (?p, Q) # Y" "length X = i" "?p \<notin> set (prices_of X)" by blast
    have mem: "?p \<in> set (prices_of (A ?d))" using A(1) by simp
    have bx: "\<forall>x\<in>set (prices_of X). better ?d x ?p" using o A(1) by (auto simp: ordered_append)
    from room show ?thesis
    proof
      assume r: "num_orders A < kMaxOrders"
      then have c: "can_rest A ?d ?p" using mem by (simp add: can_rest_def)
      from link_refines [OF R A(1) r fresh refl] obtain slot sp t where
        l: "pool_alloc (ob_slots b) = (slot, sp)" "slot \<noteq> NULL_IDX"
        "index_insert (ob_index b) (ord_id o1) slot (side_code ?d) = Some (True, t)"
        "refines ((link_tail (b\<lparr>ob_slots := sp\<rparr>) ?d i slot o1)\<lparr>ob_index := t\<rparr>) (A(?d := X @ (?p, Q @ [?r]) # Y))"
        using A(2) by blast
      have "ainsert ?d ?p ?r (A ?d) = X @ (?p, Q @ [?r]) # Y"
        unfolding A(1) by (rule ainsert_old [OF bx])
      then show ?thesis
        using l c Some by (simp add: rest_order_def Let_def sym_link del: fun_upd_apply)
    next
      assume r: "num_orders A = kMaxOrders"
      then have "\<not> can_rest A ?d ?p" by (simp add: can_rest_def)
      then show ?thesis
        using alloc_full_refines [OF R r] Some R by (simp add: rest_order_def Let_def)
    qed
  next
    case None
    have nm: "?p \<notin> set (prices_of (A ?d))" using find_level_None [OF R None] .
    show ?thesis
    proof (cases "length (A ?d) < kMaxLevels")
      case False
      then have "\<not> can_rest A ?d ?p" using nm by (simp add: can_rest_def)
      moreover have "insert_level (ob_side b ?d) ?p ?d = (None, ob_side b ?d)"
        using False refines_count [OF R, of ?d] by (intro insert_level_full) simp
      moreover have "set_side b ?d (ob_side b ?d) = b" by (simp add: set_side_def ob_side_def)
      ultimately show ?thesis
        using None R by (simp add: rest_order_def Let_def)
    next
      case True
      from insert_level_refines [OF R o nm True] obtain X Y s' where
        il: "insert_level (ob_side b ?d) ?p ?d = (Some (length X), s')" "A ?d = X @ Y"
        "\<forall>x\<in>set (prices_of X). better ?d x ?p" "\<forall>x\<in>set (prices_of Y). \<not> better ?d x ?p \<and> x \<noteq> ?p"
        "refines (set_side b ?d s') (A(?d := X @ (?p, []) # Y))" by blast
      let ?A1 = "A(?d := X @ (?p, []) # Y)"
      have A1: "?A1 ?d = X @ (?p, []) # Y" by simp
      have n1: "num_orders ?A1 = num_orders A"
        using il(2) unfolding num_orders_def by (cases ?d) simp_all
      have i1: "ord_id o1 \<notin> all_ids ?A1"
        using fresh il(2) unfolding all_ids_def by (cases ?d) simp_all
      from room show ?thesis
      proof
        assume r: "num_orders A < kMaxOrders"
        then have c: "can_rest A ?d ?p" using True by (simp add: can_rest_def)
        from link_refines [OF il(5) A1 _ i1 refl] r n1 obtain slot sp t where
          l: "pool_alloc (ob_slots b) = (slot, sp)" "slot \<noteq> NULL_IDX"
          "index_insert (ob_index b) (ord_id o1) slot (side_code ?d) = Some (True, t)"
          "refines ((link_tail ((set_side b ?d s')\<lparr>ob_slots := sp\<rparr>) ?d (length X) slot o1)\<lparr>ob_index := t\<rparr>)
            (?A1(?d := X @ (?p, [] @ [?r]) # Y))"
          by auto
        have ai: "ainsert ?d ?p ?r (A ?d) = X @ (?p, [?r]) # Y"
          unfolding il(2) by (rule ainsert_new [OF il(3,4)])
        have "refines ((link_tail ((set_side b ?d s')\<lparr>ob_slots := sp\<rparr>) ?d (length X) slot o1)\<lparr>ob_index := t\<rparr>)
            (A(?d := ainsert ?d ?p ?r (A ?d)))"
          using l(4) unfolding ai by (simp only: fun_upd_upd append_Nil)
        then show ?thesis
          using l(1-3) c None il(1) by (simp add: rest_order_def Let_def sym_link del: fun_upd_apply)
      next
        assume r: "num_orders A = kMaxOrders"
        then have nc: "\<not> can_rest A ?d ?p" by (simp add: can_rest_def)
        have al: "pool_alloc (ob_slots b) = (NULL_IDX, ob_slots b)" using alloc_full_refines [OF R r] .
        let ?b2 = "(set_side b ?d s')\<lparr>ob_slots := ob_slots b\<rparr>"
        have b2: "?b2 = set_side b ?d s'" by (simp add: set_side_def)
        have "refines (set_side ?b2 ?d (remove_level (ob_side ?b2 ?d) (length X))) (?A1(?d := X @ Y))"
          unfolding b2 by (rule remove_level_refines [OF il(5) A1])
        moreover have "?A1(?d := X @ Y) = A" using il(2) by (simp add: fun_upd_idem)
        ultimately show ?thesis
          using al nc None il(1) by (simp add: rest_order_def Let_def)
      qed
    qed
  qed
qed

section \<open>Adding an order\<close>

lemma afill_subset:
  "afill acct q R = (fs, q', R', w) \<Longrightarrow> length R' \<le> length R \<and> rs_id ` set R' \<subseteq> rs_id ` set R"
  by (induction acct q R arbitrary: fs rule: afill.induct) (auto split: if_splits prod.splits)

lemma amatch_subset:
  "amatch cr acct q L = (fs, q', L', w) \<Longrightarrow> length (orders_of L') \<le> length (orders_of L) \<and>
    rs_id ` set (orders_of L') \<subseteq> rs_id ` set (orders_of L)"
proof (induction cr acct q L arbitrary: fs q' L' w rule: amatch.induct)
  case (2 cr acct q p R L)
  obtain gs q1 R1 w1 where af: "afill acct q R = (gs, q1, R1, w1)" by (metis prod_cases4)
  note S = afill_subset [OF af]
  obtain hs q2 L2 w2 where am: "amatch cr acct q1 L = (hs, q2, L2, w2)" by (metis prod_cases4)
  consider "q = 0 \<or> \<not> cr p" | "\<not> (q = 0 \<or> \<not> cr p)" "w1 \<or> R1 \<noteq> []" | "\<not> (q = 0 \<or> \<not> cr p)" "\<not> w1" "R1 = []"
    by blast
  then show ?case
  proof cases
    case 1
    with "2.prems" show ?thesis by auto
  next
    case 2
    with "2.prems" af have "L' = (p, R1) # L" by (auto split: if_splits)
    with S show ?thesis by auto
  next
    case 3
    with "2.prems" af am have "L' = L2" by auto
    moreover have "length (orders_of L2) \<le> length (orders_of L) \<and> rs_id ` set (orders_of L2) \<subseteq> rs_id ` set (orders_of L)"
      using "2.IH" [OF 3(1) refl af [symmetric] refl refl 3(2,3) am] .
    ultimately show ?thesis by auto
  qed
qed simp

lemma num_orders_upd: "num_orders (A(d := L)) = length (orders_of L) + length (orders_of (A (\<not> d)))"
  by (cases d) (simp_all add: num_orders_def)

lemma num_orders_alt: "num_orders A = length (orders_of (A d)) + length (orders_of (A (\<not> d)))"
  by (cases d) (simp_all add: num_orders_def)

lemma all_ids_alt: "all_ids A = rs_id ` set (orders_of (A d)) \<union> rs_id ` set (orders_of (A (\<not> d)))"
  by (cases d) (auto simp: all_ids_def)

lemma wf_sideD:
  assumes "wf_abook A"
  shows "ordered d (prices_of (A d))" "length (A d) \<le> kMaxLevels" "\<And>l. l \<in> set (A d) \<Longrightarrow> snd l \<noteq> []"
    "\<And>r. r \<in> set (orders_of (A d)) \<Longrightarrow> rs_qty r \<noteq> 0" "distinct (map rs_id (orders_of (A d)))"
    "rs_id ` set (orders_of (A d)) \<inter> rs_id ` set (orders_of (A (\<not> d))) = {}"
    "num_orders A \<le> kMaxOrders"
  using assms unfolding wf_abook_def wf_side_def by (cases d; auto)+

lemma add_order_refines:
  assumes R: "refines b A" and wf: "wf_abook A" and fresh: "ord_id o1 \<notin> all_ids A"
    and add: "aadd A o1 = (ok, A', fs)"
  shows "\<exists>b'. add_order b o1 = Some (ok, b', reports (ob_symbol b) o1 fs) \<and> refines b' A' \<and>
    ob_symbol b' = ob_symbol b"
proof -
  let ?d = "is_buy o1" let ?b0 = "b\<lparr>ob_stat_orders := ob_stat_orders b + 1\<rparr>"
  have R0: "refines ?b0 A" using R by simp
  obtain gs q L w where am: "amatch (crosses o1) (ord_account o1) (ord_qty_remaining o1) (A (\<not> ?d)) = (gs, q, L, w)"
    by (metis prod_cases4)
  let ?A1 = "A(\<not> ?d := L)" let ?o1 = "o1\<lparr>ord_qty_remaining := q\<rparr>"
  obtain b1 where tm: "try_match o1 ?b0 = Some (w, ?o1, b1, reports (ob_symbol b) o1 gs)"
    and b1: "ob_symbol b1 = ob_symbol b" "refines b1 ?A1"
    using match_loop_refines [OF R0 am, of "[]"] unfolding try_match_def by auto
  obtain l where al: "available_liquidity ?b0 o1 = Some l"
    "l < ord_qty_remaining o1 \<longleftrightarrow> aliq (crosses o1) (ord_account o1) (A (\<not> ?d)) < unat (ord_qty_remaining o1)"
    using available_liquidity_refines [OF R0] by blast
  define short where "short = (aliq (crosses o1) (ord_account o1) (A (\<not> ?d)) < unat (ord_qty_remaining o1))"
  note add' = add [unfolded aadd_def Let_def am prod.case, folded short_def]
  consider (kill) "ord_type o1 = FOK" "short"
    | (take) "ord_type o1 = Market \<or> ord_type o1 = IOC \<or> ord_type o1 = FOK" "\<not> (ord_type o1 = FOK \<and> short)"
    | (done1) "\<not> (ord_type o1 = Market \<or> ord_type o1 = IOC \<or> ord_type o1 = FOK)" "q = 0 \<or> w"
    | (rest) "\<not> (ord_type o1 = Market \<or> ord_type o1 = IOC \<or> ord_type o1 = FOK)" "q \<noteq> 0" "\<not> w"
    by blast
  then show ?thesis
  proof cases
    case kill
    with add' have "ok = False" "A' = A" "fs = []" by simp_all
    with kill al R show ?thesis by (simp add: add_order_def Let_def short_def [symmetric])
  next
    case take
    with add' have "ok = True" "A' = ?A1" "fs = gs" by (simp_all split: if_splits)
    with take al tm b1 show ?thesis
      by (auto simp: add_order_def Let_def short_def [symmetric] split: if_splits)
  next
    case done1
    then have c: "\<not> (ord_type o1 = FOK \<and> short)"
      "ord_type o1 = Market \<or> ord_type o1 = IOC \<or> ord_type o1 = FOK \<or> q = 0 \<or> w" by auto
    from add' [unfolded if_not_P [OF c(1)] if_P [OF c(2)]] have "ok = True" "A' = ?A1" "fs = gs" by simp_all
    with done1 tm b1 show ?thesis by (auto simp: add_order_def Let_def is_filled_def)
  next
    case rest
    then have c: "\<not> (ord_type o1 = FOK \<and> short)"
      "\<not> (ord_type o1 = Market \<or> ord_type o1 = IOC \<or> ord_type o1 = FOK \<or> q = 0 \<or> w)" by auto
    note add2 = add' [unfolded if_not_P [OF c(1)] if_not_P [OF c(2)]]
    have same: "is_buy ?o1 = ?d" "ord_price ?o1 = ord_price o1" "ord_id ?o1 = ord_id o1"
      "ord_account ?o1 = ord_account o1" "ord_qty_remaining ?o1 = q" by (simp_all add: is_buy_def)
    have A1d: "?A1 ?d = A ?d" by simp
    have sub: "num_orders ?A1 \<le> num_orders A" "all_ids ?A1 \<subseteq> all_ids A"
      using amatch_subset [OF am] unfolding num_orders_alt [of _ "\<not> ?d"] all_ids_alt [of _ "\<not> ?d"] by auto
    have "\<exists>b'. rest_order b1 ?o1 = Some (can_rest ?A1 ?d (ord_price o1), b') \<and>
      refines b' (if can_rest ?A1 ?d (ord_price o1)
        then ?A1(?d := ainsert ?d (ord_price o1)
          \<lparr>rs_id = ord_id o1, rs_qty = q, rs_acct = ord_account o1\<rparr> (A ?d))
        else ?A1) \<and> ob_symbol b' = ob_symbol b1"
      using rest_order_refines [OF b1(2), of ?o1, unfolded same A1d] wf_sideD(1,2) [OF wf, of ?d]
        wf_sideD(7) [OF wf] sub fresh by fastforce
    then obtain b' where b': "rest_order b1 ?o1 = Some (can_rest ?A1 ?d (ord_price o1), b')"
      "refines b' (if can_rest ?A1 ?d (ord_price o1)
        then ?A1(?d := ainsert ?d (ord_price o1)
          \<lparr>rs_id = ord_id o1, rs_qty = q, rs_acct = ord_account o1\<rparr> (A ?d))
        else ?A1)" "ob_symbol b' = ob_symbol b1" by blast
    have "ok = can_rest ?A1 ?d (ord_price o1)" "fs = gs"
      "A' = (if can_rest ?A1 ?d (ord_price o1)
        then ?A1(?d := ainsert ?d (ord_price o1)
          \<lparr>rs_id = ord_id o1, rs_qty = q, rs_acct = ord_account o1\<rparr> (A ?d))
        else ?A1)"
      using add2 by (simp_all split: if_splits)
    with rest tm b' b1(1) show ?thesis by (simp add: add_order_def Let_def is_filled_def del: fun_upd_apply)
  qed
qed

end
