(* ===== verification/Book_Edit.thy ===== *)
theory Book_Edit
  imports Book_Ops
begin

text \<open>
  The refinement lemmas of \<^verbatim>\<open>cancel_order\<close> and \<^verbatim>\<open>modify_order\<close>: finding the order's
  slot through the index, unlinking it, moving it to the back of its queue, changing its
  quantity.
\<close>

section \<open>Finding an order\<close>

lemma index_find:
  assumes core: "core b lv F" and A: "A = (\<lambda>d. abs_levels (ob_slots b) (lv d))"
    and wf: "wf_abook A"
  shows "oid \<notin> all_ids A \<Longrightarrow> index_lookup (ob_index b) oid = Some None"
    and "oid \<in> all_ids A \<Longrightarrow> \<exists>x d xs p q1 q2 ys. index_lookup (ob_index b) oid = Some (Some (x, side_code d)) \<and>
      lv d = xs @ (p, q1 @ x # q2) # ys \<and> sp_ids (ob_slots b) x = oid \<and> sp_prices (ob_slots b) x = p \<and>
      find_level (ob_side b d) p = Some (length xs)"
proof -
  note ix = index_okD [OF coreD(4) [OF core]]
  have lk: "index_lookup (ob_index b) oid = Some (index_abs (ob_index b) oid)"
    by (rule index_lookup_returns [OF ix(1)])
  show "index_lookup (ob_index b) oid = Some None" if "oid \<notin> all_ids A"
  proof -
    have "index_abs (ob_index b) oid = None"
    proof (rule ccontr)
      assume "index_abs (ob_index b) oid \<noteq> None"
      then obtain x k where "index_abs (ob_index b) oid = Some (x, k)" by auto
      with ix(2) that show False unfolding A all_ids_abs by blast
    qed
    with lk show ?thesis by simp
  qed
  assume "oid \<in> all_ids A"
  then obtain d x where x: "x \<in> set (orders_of (lv d))" "sp_ids (ob_slots b) x = oid"
    unfolding A all_ids_abs by blast
  then have "index_abs (ob_index b) oid = Some (x, side_code d)" using ix(2) by blast
  with lk have lk': "index_lookup (ob_index b) oid = Some (Some (x, side_code d))" by simp
  obtain l where l: "l \<in> set (lv d)" "x \<in> set (snd l)" using x(1) unfolding orders_of_def by auto
  obtain xs ys where lv: "lv d = xs @ l # ys" using split_list [OF l(1)] by blast
  obtain q1 q2 where q: "snd l = q1 @ x # q2" using split_list [OF l(2)] by blast
  define p where "p = fst l"
  have lp: "l = (p, q1 @ x # q2)" using q by (metis p_def prod.collapse)
  have ok: "side_ok (ob_slots b) (ob_side b d) (xs @ (p, q1 @ x # q2) # ys)"
    using coreD(1) [OF core, of d] lv lp by simp
  have px: "sp_prices (ob_slots b) x = p" using side_ok_nth(2) [OF ok] by (simp add: lvl_ok_def lev_def)
  have R: "refines b A" using core A by (auto simp: refines_def)
  have Ad: "A d = abs_levels (ob_slots b) xs @ (p, map (resting_of (ob_slots b)) (q1 @ x # q2)) # abs_levels (ob_slots b) ys"
    by (simp add: A lv lp)
  have "distinct (prices_of (A d))" using ordered_distinct [OF wf_sideD(1) [OF wf]] .
  then have "p \<notin> set (prices_of (abs_levels (ob_slots b) xs))" unfolding Ad by auto
  from find_level_split [OF R Ad this] have "find_level (ob_side b d) p = Some (length xs)" by simp
  with lk' lv lp x(2) px show "\<exists>x d xs p q1 q2 ys. index_lookup (ob_index b) oid = Some (Some (x, side_code d)) \<and>
      lv d = xs @ (p, q1 @ x # q2) # ys \<and> sp_ids (ob_slots b) x = oid \<and> sp_prices (ob_slots b) x = p \<and>
      find_level (ob_side b d) p = Some (length xs)" by blast
qed

section \<open>Unlinking\<close>

lemma unlink_slot_eq:
  "unlink_slot s sp i x =
    (s\<lparr>sd_head_idxs := (sd_head_idxs s)(i := (if sp_prevs sp x \<noteq> NULL_IDX then sd_head_idxs s i else sp_nexts sp x)),
       sd_tail_idxs := (sd_tail_idxs s)(i := (if sp_nexts sp x \<noteq> NULL_IDX then sd_tail_idxs s i else sp_prevs sp x))\<rparr>,
     sp\<lparr>sp_nexts := unlink_nexts (sp_nexts sp) (sp_prevs sp x) (sp_nexts sp x),
        sp_prevs := unlink_prevs (sp_prevs sp) (sp_prevs sp x) (sp_nexts sp x)\<rparr>)"
  by (auto simp: unlink_slot_def Let_def unlink_nexts_def unlink_prevs_def fun_upd_idem)

lemma unlink_frame:
  assumes "dls nx pv NULL_IDX (a @ x # b) NULL_IDX h t" "y \<notin> set (a @ x # b)" "y \<noteq> NULL_IDX"
  shows "unlink_nexts nx (pv x) (nx x) y = nx y" "unlink_prevs pv (pv x) (nx x) y = pv y"
proof -
  note m = dls_mid [OF assms(1)]
  have "pv x \<noteq> y" using m(1) assms(2,3) by (auto split: if_splits dest: last_in_set)
  then show "unlink_nexts nx (pv x) (nx x) y = nx y" by (simp add: unlink_nexts_def)
  have "nx x \<noteq> y" using m(2) assms(2,3) by (auto split: if_splits dest: hd_in_set)
  then show "unlink_prevs pv (pv x) (nx x) y = pv y" by (simp add: unlink_prevs_def)
qed

text \<open>The facts about the level of a live slot that every edit uses.\<close>

lemma live_level:
  assumes core: "core b lv F" and lv: "lv d = xs @ (p, q1 @ x # q2) # ys"
  shows "distinct (q1 @ x # q2)" "NULL_IDX \<notin> set (q1 @ x # q2)" "x \<notin> set F" "x < kMaxOrders"
    "sd_prices (ob_side b d) (length xs) = p"
    "sd_qtys (ob_side b d) (length xs) = sum_list (map (sp_qtys (ob_slots b)) (q1 @ x # q2))"
    "sd_order_counts (ob_side b d) (length xs) = of_nat (length (q1 @ x # q2))"
    "dls (sp_nexts (ob_slots b)) (sp_prevs (ob_slots b)) NULL_IDX (q1 @ x # q2) NULL_IDX
      (sd_head_idxs (ob_side b d) (length xs)) (sd_tail_idxs (ob_side b d) (length xs))"
    "\<And>y. y \<in> set (q1 @ x # q2) \<Longrightarrow> sp_prices (ob_slots b) y = p"
    "length (q1 @ x # q2) \<le> kMaxOrders"
proof -
  note P = parts_distinct [OF coreD(3) [OF core]]
  show "distinct (q1 @ x # q2)" using P(1) [of d] lv by auto
  show "NULL_IDX \<notin> set (q1 @ x # q2)" using live_not_null(1) [OF core, of NULL_IDX d] lv by auto
  have xl: "x \<in> set (orders_of (lv d))" using lv by simp
  show "x \<notin> set F" "x < kMaxOrders" using P(2) [OF xl] P(4) [OF xl] .
  have ok: "side_ok (ob_slots b) (ob_side b d) (xs @ (p, q1 @ x # q2) # ys)"
    using coreD(1) [OF core, of d] lv by simp
  from side_ok_nth(2) [OF this] show "sd_prices (ob_side b d) (length xs) = p"
    "sd_qtys (ob_side b d) (length xs) = sum_list (map (sp_qtys (ob_slots b)) (q1 @ x # q2))"
    "sd_order_counts (ob_side b d) (length xs) = of_nat (length (q1 @ x # q2))"
    "dls (sp_nexts (ob_slots b)) (sp_prevs (ob_slots b)) NULL_IDX (q1 @ x # q2) NULL_IDX
      (sd_head_idxs (ob_side b d) (length xs)) (sd_tail_idxs (ob_side b d) (length xs))"
    by (simp_all add: lvl_ok_def lev_def)
  show "\<And>y. y \<in> set (q1 @ x # q2) \<Longrightarrow> sp_prices (ob_slots b) y = p"
    using side_ok_nth(2) [OF ok] by (auto simp: lvl_ok_def lev_def)
  have "length (q1 @ x # q2) \<le> length (orders_of (lv d))" using lv by simp
  also have "\<dots> \<le> kMaxOrders" using P(5) by (cases d) auto
  finally show "length (q1 @ x # q2) \<le> kMaxOrders" .
qed

lemma remove_order_core:
  assumes core: "core b lv F" and lv: "lv d = xs @ (p, q1 @ x # q2) # ys"
    and A: "A = (\<lambda>d. abs_levels (ob_slots b) (lv d))"
  shows "\<exists>t. index_remove (ob_index b) (sp_ids (ob_slots b) x) = Some (True, t) \<and>
    refines ((remove_order_from_level b (side_code d) (length xs) x)\<lparr>ob_index := t\<rparr>)
      (A(d := abs_levels (ob_slots b) xs @
        (if q1 @ q2 = [] then [] else [(p, map (resting_of (ob_slots b)) (q1 @ q2))]) @ abs_levels (ob_slots b) ys))"
proof -
  let ?sp = "ob_slots b" let ?s = "ob_side b d" let ?i = "length xs"
  note Lv = live_level [OF core lv]
  note P = parts_distinct [OF coreD(3) [OF core]]
  have xl: "x \<in> set (orders_of (lv d))" using lv by simp
  define sp1 where "sp1 = ?sp\<lparr>sp_nexts := unlink_nexts (sp_nexts ?sp) (sp_prevs ?sp x) (sp_nexts ?sp x),
        sp_prevs := unlink_prevs (sp_prevs ?sp) (sp_prevs ?sp x) (sp_nexts ?sp x)\<rparr>"
  define sp2 where "sp2 = pool_free_slot sp1 x"
  define s1 where "s1 = ?s\<lparr>sd_qtys := (sd_qtys ?s)(?i := sd_qtys ?s ?i - sp_qtys ?sp x),
                sd_order_counts := (sd_order_counts ?s)(?i := sd_order_counts ?s ?i - 1)\<rparr>"
  define s2 where "s2 = s1\<lparr>
       sd_head_idxs := (sd_head_idxs s1)(?i := (if sp_prevs ?sp x \<noteq> NULL_IDX then sd_head_idxs s1 ?i else sp_nexts ?sp x)),
       sd_tail_idxs := (sd_tail_idxs s1)(?i := (if sp_nexts ?sp x \<noteq> NULL_IDX then sd_tail_idxs s1 ?i else sp_prevs ?sp x))\<rparr>"
  have fields: "sp_ids sp2 = sp_ids ?sp" "sp_qtys sp2 = sp_qtys ?sp" "sp_prices sp2 = sp_prices ?sp"
    "sp_accounts sp2 = sp_accounts ?sp"
    "sp_nexts sp2 = unlink_nexts (sp_nexts ?sp) (sp_prevs ?sp x) (sp_nexts ?sp x)"
    "sp_prevs sp2 = unlink_prevs (sp_prevs ?sp) (sp_prevs ?sp x) (sp_nexts ?sp x)"
    by (simp_all add: sp2_def pool_free_slot_def sp1_def)
  let ?lv = "lv(d := xs @ (p, q1 @ q2) # ys)"
  have lvs: "set (orders_of (?lv e)) = set (orders_of (lv e)) - {x}" for e
  proof (cases "e = d")
    case True
    then show ?thesis using P(1) [of d] lv by auto
  next
    case False
    then show ?thesis using P(3) [OF xl, of e] by auto
  qed
  have "\<exists>t. index_remove (ob_index b) (sp_ids ?sp x) = Some (True, t) \<and> index_ok t sp2 ?lv"
    by (rule index_ok_remove [OF coreD(4) [OF core] xl lvs]) (simp only: fields)
  then obtain t where t: "index_remove (ob_index b) (sp_ids ?sp x) = Some (True, t)" "index_ok t sp2 ?lv"
    by blast
  define bm where "bm = (set_side b d s2)\<lparr>ob_slots := sp2, ob_index := t\<rparr>"
  have sd: "ob_side bm d = s2" "ob_side bm (\<not> d) = ob_side b (\<not> d)" "ob_slots bm = sp2" "ob_index bm = t"
    by (simp_all add: bm_def)
  let ?c = "(p, sd_qtys ?s ?i - sp_qtys ?sp x, sd_order_counts ?s ?i - 1,
    (if sp_prevs ?sp x \<noteq> NULL_IDX then sd_head_idxs ?s ?i else sp_nexts ?sp x),
    (if sp_nexts ?sp x \<noteq> NULL_IDX then sd_tail_idxs ?s ?i else sp_prevs ?sp x))"
  have Lc: "levs (ob_side bm d) = (levs ?s)[length xs := ?c]"
    unfolding sd(1) by (rule levs_update) (use Lv(5) in \<open>auto simp: s2_def s1_def lev_def fun_eq_iff\<close>)
  have lvl: "lvl_ok (ob_slots bm) ?c (p, q1 @ q2)"
    using dls_unlink [OF Lv(8,1,2)] Lv(6,7,9) unfolding lvl_ok_def sd(3)
    by (simp add: fields)
  have fr: "same ?sp (ob_slots bm) y" if y: "y \<notin> set (q1 @ x # q2)" "y \<notin> set (q1 @ q2)" for y
  proof (cases "y = NULL_IDX")
    case True
    show ?thesis unfolding sd(3) same_def fields True by (simp add: unlink_nexts_def unlink_prevs_def)
  next
    case False
    show ?thesis unfolding sd(3) same_def fields
      using unlink_frame [OF Lv(8) y(1) False] by simp
  qed
  have "pool_inv sp1 F" using coreD(2) [OF core] by (simp add: pool_inv_def sp1_def)
  then have pool: "pool_inv (ob_slots bm) (x # F)"
    unfolding sd(3) sp2_def using Lv(3,4) by (intro pool_free_inv)
  have ms: "mset (q1 @ q2) + mset (x # F) = mset (q1 @ x # q2) + mset F" by simp
  note C = core_level [where d = d and b' = bm, OF core lv Lc sd(2) lvl fr pool ms t(2) [folded sd(3,4)]]
  have eqm: "map (resting_of sp2) (q1 @ q2) = map (resting_of ?sp) (q1 @ q2)"
    by (simp add: resting_of_def fields)
  have Rm: "refines bm (A(d := abs_levels ?sp xs @ (p, map (resting_of ?sp) (q1 @ q2)) # abs_levels ?sp ys))"
    using refinesI [OF C(1)] C(2) unfolding sd(3) eqm by (simp add: A del: fun_upd_apply)
  have cnt0: "sd_order_counts s2 ?i = 0 \<longleftrightarrow> q1 @ q2 = []"
  proof -
    have "sd_order_counts s2 ?i = of_nat (length (q1 @ q2))" using Lv(7) by (simp add: s2_def s1_def)
    moreover have "length (q1 @ q2) < 2 ^ LENGTH(32)" using Lv(10) by (simp add: kMaxOrders_def)
    ultimately show ?thesis using of_nat_eq_0_small [of "length (q1 @ q2)", where 'a = 32] by simp
  qed
  have us: "unlink_slot s1 ?sp ?i x = (s2, sp1)" by (simp only: unlink_slot_eq s2_def sp1_def)
  have "remove_order_from_level b (side_code d) ?i x =
      (set_side b d (if sd_order_counts s2 ?i = 0 then remove_level s2 ?i else s2))\<lparr>ob_slots := sp2\<rparr>"
    by (simp add: remove_order_from_level_def Let_def s1_def [symmetric] us sp2_def [symmetric])
  moreover have "(set_side b d (remove_level s2 ?i))\<lparr>ob_slots := sp2, ob_index := t\<rparr> =
      set_side bm d (remove_level s2 ?i)"
    by (cases d) (simp_all add: bm_def set_side_def)
  ultimately have ro: "(remove_order_from_level b (side_code d) ?i x)\<lparr>ob_index := t\<rparr> =
      (if q1 @ q2 = [] then set_side bm d (remove_level (ob_side bm d) ?i) else bm)"
    using cnt0 unfolding sd(1) by (simp add: bm_def)
  have "refines ((remove_order_from_level b (side_code d) ?i x)\<lparr>ob_index := t\<rparr>)
      (A(d := abs_levels ?sp xs @ (if q1 @ q2 = [] then [] else [(p, map (resting_of ?sp) (q1 @ q2))]) @ abs_levels ?sp ys))"
  proof (cases "q1 @ q2 = []")
    case False
    with Rm show ?thesis unfolding ro if_not_P [OF False] by simp
  next
    case True
    with remove_level_refines [OF Rm, of d "abs_levels ?sp xs" p "abs_levels ?sp ys"] show ?thesis
      unfolding ro by simp
  qed
  with t(1) show ?thesis by blast
qed

section \<open>Cancelling\<close>

lemma acancel_side_append [simp]:
  "acancel_side oid (L @ M) = acancel_side oid L @ acancel_side oid M"
  by (simp add: acancel_side_def)

lemma filter_id_other: "oid \<notin> rs_id ` set R \<Longrightarrow> filter (\<lambda>r. rs_id r \<noteq> oid) R = R"
  by (auto simp: filter_id_conv)

lemma acancel_side_other:
  assumes "oid \<notin> rs_id ` set (orders_of L)" "\<And>l. l \<in> set L \<Longrightarrow> snd l \<noteq> []"
  shows "acancel_side oid L = L"
  using assms
proof (induction L)
  case (Cons l L)
  obtain p R where l: "l = (p, R)" by force
  have "filter (\<lambda>r. rs_id r \<noteq> oid) R = R" using Cons.prems(1) l by (auto simp: filter_id_conv)
  moreover have "R \<noteq> []" using Cons.prems(2) [of l] l by simp
  moreover have "acancel_side oid L = L" by (rule Cons.IH) (use Cons.prems in auto)
  ultimately show ?case by (simp add: acancel_side_def l)
qed (simp add: acancel_side_def)

lemma acancel_side_hit:
  assumes "distinct (map rs_id (orders_of (X @ (p, R1 @ r # R2) # Y)))"
    and "\<And>l. l \<in> set (X @ (p, R1 @ r # R2) # Y) \<Longrightarrow> snd l \<noteq> []"
  shows "acancel_side (rs_id r) (X @ (p, R1 @ r # R2) # Y) =
    X @ (if R1 @ R2 = [] then [] else [(p, R1 @ R2)]) @ Y"
proof -
  have "acancel_side (rs_id r) X = X" "acancel_side (rs_id r) Y = Y"
    using assms by (auto intro!: acancel_side_other)
  moreover have "filter (\<lambda>r'. rs_id r' \<noteq> rs_id r) (R1 @ r # R2) = R1 @ R2"
    using assms(1) by (simp add: filter_id_other)
  then have "acancel_side (rs_id r) [(p, R1 @ r # R2)] = (if R1 @ R2 = [] then [] else [(p, R1 @ R2)])"
    by (simp add: acancel_side_def)
  ultimately show ?thesis
    using acancel_side_append [of "rs_id r" X "[(p, R1 @ r # R2)] @ Y"]
      acancel_side_append [of "rs_id r" "[(p, R1 @ r # R2)]" Y] by simp
qed

text \<open>Removing a live order from a side is what \<open>acancel_side\<close> does to the whole book.\<close>

lemma acancel_book:
  assumes wf: "wf_abook A" and A: "A d = X @ (p, R1 @ r # R2) # Y"
  shows "(\<lambda>e. acancel_side (rs_id r) (A e)) = A(d := X @ (if R1 @ R2 = [] then [] else [(p, R1 @ R2)]) @ Y)"
proof
  fix e
  show "acancel_side (rs_id r) (A e) = (A(d := X @ (if R1 @ R2 = [] then [] else [(p, R1 @ R2)]) @ Y)) e"
  proof (cases "e = d")
    case True
    show ?thesis
      unfolding True A fun_upd_same
      by (rule acancel_side_hit) (use wf_sideD(5) [OF wf, of d] wf_sideD(3) [OF wf, of _ d] in \<open>simp_all only: A not_False_eq_True\<close>)
  next
    case False
    then have e: "e = (\<not> d)" by auto
    have "rs_id r \<in> rs_id ` set (orders_of (A d))" unfolding A by simp
    then have "rs_id r \<notin> rs_id ` set (orders_of (A e))" using wf_sideD(6) [OF wf, of d] e by auto
    from acancel_side_other [OF this wf_sideD(3) [OF wf]] False show ?thesis by simp
  qed
qed

lemma cancel_order_refines:
  assumes R: "refines b A" and wf: "wf_abook A" and c: "acancel A oid = (ok, A')"
  shows "\<exists>b'. cancel_order b oid = Some (ok, b') \<and> refines b' A' \<and> ob_symbol b' = ob_symbol b"
proof -
  obtain lv F where core: "core b lv F" and A: "A = (\<lambda>d. abs_levels (ob_slots b) (lv d))"
    using R by (auto simp: refines_def)
  show ?thesis
  proof (cases "oid \<in> all_ids A")
    case False
    from index_find(1) [OF core A wf this] c False R show ?thesis
      by (auto simp: cancel_order_def acancel_def)
  next
    case True
    from index_find(2) [OF core A wf this] obtain x d xs p q1 q2 ys where
      lk: "index_lookup (ob_index b) oid = Some (Some (x, side_code d))"
      and lv: "lv d = xs @ (p, q1 @ x # q2) # ys" and ids: "sp_ids (ob_slots b) x = oid"
      and px: "sp_prices (ob_slots b) x = p" and fl: "find_level (ob_side b d) p = Some (length xs)"
      by blast
    let ?sp = "ob_slots b"
    have Ad: "A d = abs_levels ?sp xs @ (p, map (resting_of ?sp) q1 @ resting_of ?sp x # map (resting_of ?sp) q2) # abs_levels ?sp ys"
      by (simp add: A lv)
    from remove_order_core [OF core lv A] ids obtain t where
      t: "index_remove (ob_index b) oid = Some (True, t)"
      "refines ((remove_order_from_level b (side_code d) (length xs) x)\<lparr>ob_index := t\<rparr>)
        (A(d := abs_levels ?sp xs @ (if q1 @ q2 = [] then [] else [(p, map (resting_of ?sp) (q1 @ q2))]) @ abs_levels ?sp ys))"
      by auto
    have "A' = A(d := abs_levels ?sp xs @ (if q1 @ q2 = [] then [] else [(p, map (resting_of ?sp) (q1 @ q2))]) @ abs_levels ?sp ys)"
      using c True acancel_book [OF wf Ad] by (simp add: acancel_def ids)
    moreover have "ok" using c True by (simp add: acancel_def)
    moreover have "ob_index (remove_order_from_level b (side_code d) (length xs) x) = ob_index b"
      "ob_symbol (remove_order_from_level b (side_code d) (length xs) x) = ob_symbol b"
      by (simp_all add: remove_order_from_level_def Let_def split: prod.splits)
    ultimately show ?thesis
      using lk px fl t by (simp add: cancel_order_def Let_def)
  qed
qed

section \<open>Modifying\<close>

lemma set_qty_core:
  assumes core: "core b lv F" and lv: "lv d = xs @ (p, q1 @ x # q2) # ys"
    and A: "A = (\<lambda>d. abs_levels (ob_slots b) (lv d))"
    and b1: "b1 = (set_side b d ((ob_side b d)\<lparr>sd_qtys := (sd_qtys (ob_side b d))(length xs :=
        sd_qtys (ob_side b d) (length xs) - (sp_qtys (ob_slots b) x - new_qty))\<rparr>))
      \<lparr>ob_slots := (ob_slots b)\<lparr>sp_qtys := (sp_qtys (ob_slots b))(x := new_qty)\<rparr>\<rparr>"
  shows "core b1 lv F"
    and "(\<lambda>d. abs_levels (ob_slots b1) (lv d)) = A(d := abs_levels (ob_slots b) xs @
      (p, map (resting_of (ob_slots b)) q1 @ (resting_of (ob_slots b) x)\<lparr>rs_qty := new_qty\<rparr> #
        map (resting_of (ob_slots b)) q2) # abs_levels (ob_slots b) ys)"
proof -
  let ?sp = "ob_slots b" let ?s = "ob_side b d" let ?i = "length xs"
  note Lv = live_level [OF core lv]
  have sd: "ob_side b1 (\<not> d) = ob_side b (\<not> d)" "ob_slots b1 = ?sp\<lparr>sp_qtys := (sp_qtys ?sp)(x := new_qty)\<rparr>"
    "ob_index b1 = ob_index b" by (simp_all add: b1)
  let ?c = "(p, sd_qtys ?s ?i - (sp_qtys ?sp x - new_qty), sd_order_counts ?s ?i, sd_head_idxs ?s ?i, sd_tail_idxs ?s ?i)"
  have Lc: "levs (ob_side b1 d) = (levs ?s)[length xs := ?c]"
    by (rule levs_update) (use Lv(5) in \<open>auto simp: b1 lev_def fun_eq_iff\<close>)
  have "sum_list (map ((sp_qtys ?sp)(x := new_qty)) q1) = sum_list (map (sp_qtys ?sp) q1)"
    "sum_list (map ((sp_qtys ?sp)(x := new_qty)) q2) = sum_list (map (sp_qtys ?sp) q2)"
    using Lv(1) by (auto intro!: sum_list_map_cong)
  then have lvl: "lvl_ok (ob_slots b1) ?c (p, q1 @ x # q2)"
    using Lv(6-9) unfolding sd(2) by (simp add: lvl_ok_def)
  have fr: "\<And>y. y \<notin> set (q1 @ x # q2) \<Longrightarrow> y \<notin> set (q1 @ x # q2) \<Longrightarrow> same ?sp (ob_slots b1) y"
    by (auto simp: same_def sd(2))
  have pool: "pool_inv (ob_slots b1) F" using coreD(2) [OF core] by (simp add: pool_inv_def sd(2))
  have idx: "index_ok (ob_index b1) (ob_slots b1) (lv(d := xs @ (p, q1 @ x # q2) # ys))"
    unfolding sd(3) by (rule index_ok_cong [OF coreD(4) [OF core]]) (simp_all add: lv sd(2))
  note C = core_level [where d = d, OF core lv Lc sd(1) lvl fr pool refl idx]
  have id: "lv(d := xs @ (p, q1 @ x # q2) # ys) = lv" using lv by (simp add: fun_upd_idem)
  from C(1) show "core b1 lv F" unfolding id .
  have "map (resting_of (ob_slots b1)) (q1 @ x # q2) =
      map (resting_of ?sp) q1 @ (resting_of ?sp x)\<lparr>rs_qty := new_qty\<rparr> # map (resting_of ?sp) q2"
    using Lv(1) by (auto simp: sd(2) resting_of_def)
  note E = this
  show "(\<lambda>d. abs_levels (ob_slots b1) (lv d)) = A(d := abs_levels ?sp xs @
      (p, map (resting_of ?sp) q1 @ (resting_of ?sp x)\<lparr>rs_qty := new_qty\<rparr> #
        map (resting_of ?sp) q2) # abs_levels ?sp ys)"
    unfolding A E [symmetric] using C(2) unfolding id .
qed

lemma move_back_core:
  assumes core: "core b lv F" and lv: "lv d = xs @ (p, q1 @ x # q2) # ys"
    and A: "A = (\<lambda>d. abs_levels (ob_slots b) (lv d))"
    and u: "unlink_slot (ob_side b d) (ob_slots b) (length xs) x = (s1, sp1)"
    and r: "relink_tail s1 sp1 (length xs) x = (s2, sp2)"
  shows "refines ((set_side b d (s2\<lparr>sd_qtys := (sd_qtys s2)(length xs :=
        sd_qtys s2 (length xs) + (new_qty - sp_qtys (ob_slots b) x))\<rparr>))
      \<lparr>ob_slots := sp2\<lparr>sp_qtys := (sp_qtys sp2)(x := new_qty)\<rparr>\<rparr>)
    (A(d := abs_levels (ob_slots b) xs @
      (p, map (resting_of (ob_slots b)) q1 @ map (resting_of (ob_slots b)) q2 @
        [(resting_of (ob_slots b) x)\<lparr>rs_qty := new_qty\<rparr>]) # abs_levels (ob_slots b) ys))"
proof -
  let ?sp = "ob_slots b" let ?s = "ob_side b d" let ?i = "length xs"
  note Lv = live_level [OF core lv]
  define q where "q = q1 @ q2"
  define nx where "nx = unlink_nexts (sp_nexts ?sp) (sp_prevs ?sp x) (sp_nexts ?sp x)"
  define pv where "pv = unlink_prevs (sp_prevs ?sp) (sp_prevs ?sp x) (sp_nexts ?sp x)"
  define h where "h = (if sp_prevs ?sp x \<noteq> NULL_IDX then sd_head_idxs ?s ?i else sp_nexts ?sp x)"
  define t where "t = (if sp_nexts ?sp x \<noteq> NULL_IDX then sd_tail_idxs ?s ?i else sp_prevs ?sp x)"
  have seg: "dls nx pv NULL_IDX q NULL_IDX h t"
    using dls_unlink [OF Lv(8,1,2)] by (simp add: nx_def pv_def h_def t_def q_def)
  have q: "distinct q" "x \<notin> set q" "NULL_IDX \<notin> set q" using Lv(1,2) by (auto simp: q_def)
  have h0: "h = NULL_IDX \<longleftrightarrow> q = []" using dls_head [OF seg] q(3) by (cases q) auto
  have tq: "q \<noteq> [] \<Longrightarrow> t \<in> set q" using dls_tail [OF seg] by simp
  have s1: "s1 = ?s\<lparr>sd_head_idxs := (sd_head_idxs ?s)(?i := h), sd_tail_idxs := (sd_tail_idxs ?s)(?i := t)\<rparr>"
    "sp1 = ?sp\<lparr>sp_nexts := nx, sp_prevs := pv\<rparr>"
    using u by (simp_all add: unlink_slot_eq nx_def pv_def h_def t_def)
  define h2 where "h2 = (if q = [] then x else h)"
  define nx2 where "nx2 = (if q = [] then nx(x := NULL_IDX) else (nx(x := NULL_IDX))(t := x))"
  define pv2 where "pv2 = (if q = [] then pv(x := NULL_IDX) else pv(x := t))"
  have "q \<noteq> [] \<Longrightarrow> x \<noteq> t" using tq q(2) by auto
  then have s2: "s2 = ?s\<lparr>sd_head_idxs := (sd_head_idxs ?s)(?i := h2), sd_tail_idxs := (sd_tail_idxs ?s)(?i := x)\<rparr>"
    "sp2 = ?sp\<lparr>sp_nexts := nx2, sp_prevs := pv2\<rparr>"
    using r h0 by (auto simp: relink_tail_def Let_def s1 h2_def nx2_def pv2_def fun_upd_twist split: if_splits)
  have seg2: "dls nx2 pv2 NULL_IDX (q @ [x]) NULL_IDX h2 x"
  proof (cases "q = []")
    case True
    then show ?thesis by (simp add: nx2_def pv2_def h2_def)
  next
    case False
    from dls_snoc [OF seg q(1,2) False] False show ?thesis by (simp add: nx2_def pv2_def h2_def)
  qed
  define b1 where "b1 = (set_side b d (s2\<lparr>sd_qtys := (sd_qtys s2)(?i :=
        sd_qtys s2 ?i + (new_qty - sp_qtys ?sp x))\<rparr>))\<lparr>ob_slots := sp2\<lparr>sp_qtys := (sp_qtys sp2)(x := new_qty)\<rparr>\<rparr>"
  have sd: "ob_side b1 (\<not> d) = ob_side b (\<not> d)" "ob_index b1 = ob_index b"
    "ob_slots b1 = ?sp\<lparr>sp_nexts := nx2, sp_prevs := pv2, sp_qtys := (sp_qtys ?sp)(x := new_qty)\<rparr>"
    by (simp_all add: b1_def s2)
  let ?c = "(p, sd_qtys ?s ?i + (new_qty - sp_qtys ?sp x), sd_order_counts ?s ?i, h2, x)"
  have Lc: "levs (ob_side b1 d) = (levs ?s)[length xs := ?c]"
    by (rule levs_update) (use Lv(5) in \<open>auto simp: b1_def s2 lev_def fun_eq_iff\<close>)
  have "sum_list (map ((sp_qtys ?sp)(x := new_qty)) q) = sum_list (map (sp_qtys ?sp) q)"
    using q by (auto intro!: sum_list_map_cong)
  then have lvl: "lvl_ok (ob_slots b1) ?c (p, q @ [x])"
    using Lv(6,7,9) seg2 unfolding sd(3) by (simp add: lvl_ok_def q_def)
  have fr: "same ?sp (ob_slots b1) y" if y: "y \<notin> set (q1 @ x # q2)" "y \<notin> set (q @ [x])" for y
  proof (cases "y = NULL_IDX")
    case True
    have "q \<noteq> [] \<Longrightarrow> t \<noteq> y" using tq q(3) True by auto
    then show ?thesis using Lv(2) unfolding sd(3) same_def True
      by (auto simp: nx2_def pv2_def nx_def pv_def unlink_nexts_def unlink_prevs_def)
  next
    case False
    have "q \<noteq> [] \<Longrightarrow> t \<noteq> y" using tq y by auto
    then show ?thesis using y unlink_frame [OF Lv(8) y(1) False] unfolding sd(3) same_def
      by (auto simp: nx2_def pv2_def nx_def pv_def)
  qed
  have pool: "pool_inv (ob_slots b1) F" using coreD(2) [OF core] by (simp add: pool_inv_def sd(3))
  have ms: "mset (q @ [x]) + mset F = mset (q1 @ x # q2) + mset F" by (simp add: q_def)
  have idx: "index_ok (ob_index b1) (ob_slots b1) (lv(d := xs @ (p, q @ [x]) # ys))"
    unfolding sd(2) by (rule index_ok_cong [OF coreD(4) [OF core]]) (auto simp: lv sd(3) q_def)
  note C = core_level [where d = d, OF core lv Lc sd(1) lvl fr pool ms idx]
  have "map (resting_of (ob_slots b1)) (q @ [x]) =
      map (resting_of ?sp) q1 @ map (resting_of ?sp) q2 @ [(resting_of ?sp x)\<lparr>rs_qty := new_qty\<rparr>]"
    using Lv(1) by (auto simp: sd(3) resting_of_def q_def)
  then show ?thesis
    using refinesI [OF C(1)] C(2) unfolding b1_def [symmetric] A by (simp del: fun_upd_apply)
qed

lemma amodify_queue_other: "oid \<notin> rs_id ` set R \<Longrightarrow> amodify_queue oid q R = R"
proof -
  assume "oid \<notin> rs_id ` set R"
  then have "find (\<lambda>r. rs_id r = oid) R = None" unfolding find_None_iff by auto
  then show ?thesis by (simp add: amodify_queue_def)
qed

lemma amodify_queue_hit:
  assumes "distinct (map rs_id (R1 @ r # R2))"
  shows "amodify_queue (rs_id r) q (R1 @ r # R2) =
    (if q > rs_qty r then R1 @ R2 @ [r\<lparr>rs_qty := q\<rparr>] else R1 @ r\<lparr>rs_qty := q\<rparr> # R2)"
proof -
  have n: "rs_id r \<notin> rs_id ` set R1" "rs_id r \<notin> rs_id ` set R2" using assms by auto
  have "find (\<lambda>r'. rs_id r' = rs_id r) (R1 @ r # R2) = Some r"
    using n(1) by (induction R1) auto
  moreover have m: "map (\<lambda>r'. if rs_id r' = rs_id r then r'\<lparr>rs_qty := q\<rparr> else r') R = R"
    if "rs_id r \<notin> rs_id ` set R" for R
    using that by (induction R) auto
  ultimately show ?thesis
    using n by (simp add: amodify_queue_def filter_id_other m [OF n(1)] m [OF n(2)])
qed

lemma amodify_map_other:
  "oid \<notin> rs_id ` set (orders_of L) \<Longrightarrow> map (\<lambda>(p, R). (p, amodify_queue oid q R)) L = L"
proof (induction L)
  case (Cons l L)
  obtain p R where l: "l = (p, R)" by force
  have "oid \<notin> rs_id ` set R" using Cons.prems l by auto
  from amodify_queue_other [OF this] Cons l show ?case by auto
qed simp

lemma amodify_book:
  assumes wf: "wf_abook A" and A: "A d = X @ (p, R1 @ r # R2) # Y"
  shows "(\<lambda>e. map (\<lambda>(p, R). (p, amodify_queue (rs_id r) q R)) (A e)) =
    A(d := X @ (p, if q > rs_qty r then R1 @ R2 @ [r\<lparr>rs_qty := q\<rparr>] else R1 @ r\<lparr>rs_qty := q\<rparr> # R2) # Y)"
proof
  fix e
  show "map (\<lambda>(p, R). (p, amodify_queue (rs_id r) q R)) (A e) =
    (A(d := X @ (p, if q > rs_qty r then R1 @ R2 @ [r\<lparr>rs_qty := q\<rparr>] else R1 @ r\<lparr>rs_qty := q\<rparr> # R2) # Y)) e"
  proof (cases "e = d")
    case True
    have D: "distinct (map rs_id (orders_of X @ (R1 @ r # R2) @ orders_of Y))"
      using wf_sideD(5) [OF wf, of d] by (simp add: A)
    then have d: "distinct (map rs_id (R1 @ r # R2))" "rs_id r \<notin> rs_id ` set (orders_of X)"
      "rs_id r \<notin> rs_id ` set (orders_of Y)" by auto
    show ?thesis unfolding True A fun_upd_same
      by (simp only: map_append list.map(2) prod.case amodify_queue_hit [OF d(1)]
          amodify_map_other [OF d(2)] amodify_map_other [OF d(3)])
  next
    case False
    then have e: "e = (\<not> d)" by auto
    have "rs_id r \<in> rs_id ` set (orders_of (A d))" unfolding A by simp
    then have "rs_id r \<notin> rs_id ` set (orders_of (A e))" using wf_sideD(6) [OF wf, of d] e by auto
    from amodify_map_other [OF this] False show ?thesis by simp
  qed
qed

lemma modify_order_refines:
  assumes R: "refines b A" and wf: "wf_abook A" and c: "amodify A oid new_qty = (ok, A')"
  shows "\<exists>b'. modify_order b oid new_qty = Some (ok, b') \<and> refines b' A' \<and> ob_symbol b' = ob_symbol b"
proof -
  obtain lv F where core: "core b lv F" and A: "A = (\<lambda>d. abs_levels (ob_slots b) (lv d))"
    using R by (auto simp: refines_def)
  show ?thesis
  proof (cases "oid \<in> all_ids A")
    case False
    from index_find(1) [OF core A wf this] c False R show ?thesis
      by (auto simp: modify_order_def amodify_def)
  next
    case True
    from index_find(2) [OF core A wf this] obtain x d xs p q1 q2 ys where
      lk: "index_lookup (ob_index b) oid = Some (Some (x, side_code d))"
      and lv: "lv d = xs @ (p, q1 @ x # q2) # ys" and ids: "sp_ids (ob_slots b) x = oid"
      and px: "sp_prices (ob_slots b) x = p" and fl: "find_level (ob_side b d) p = Some (length xs)"
      by blast
    let ?sp = "ob_slots b" let ?old = "sp_qtys ?sp x"
    have Ad: "A d = abs_levels ?sp xs @ (p, map (resting_of ?sp) q1 @ resting_of ?sp x # map (resting_of ?sp) q2) # abs_levels ?sp ys"
      by (simp add: A lv)
    have old: "?old \<noteq> 0" using wf_sideD(4) [OF wf, of "resting_of ?sp x" d] by (simp add: Ad)
    have ok: "ok" using c True by (simp add: amodify_def split: if_splits)
    note book = amodify_book [OF wf Ad, of new_qty, unfolded resting_of_sel ids]
    consider (more) "?old < new_qty" | (less) "new_qty < ?old" "new_qty \<noteq> 0" | (zero) "new_qty = 0" | (eq) "new_qty = ?old"
      by fastforce
    then show ?thesis
    proof cases
      case more
      obtain s1 sp1 where u: "unlink_slot (ob_side b d) ?sp (length xs) x = (s1, sp1)" by force
      obtain s2 sp2 where r: "relink_tail s1 sp1 (length xs) x = (s2, sp2)" by force
      have "new_qty \<noteq> 0" using more by auto
      then have "A' = (\<lambda>e. map (\<lambda>(p, R). (p, amodify_queue oid new_qty R)) (A e))"
        using c True by (simp add: amodify_def)
      with more have A': "A' = A(d := abs_levels ?sp xs @ (p, map (resting_of ?sp) q1 @ map (resting_of ?sp) q2 @
          [(resting_of ?sp x)\<lparr>rs_qty := new_qty\<rparr>]) # abs_levels ?sp ys)"
        unfolding book by simp
      show ?thesis
        using move_back_core [OF core lv A u r, of new_qty, folded A'] ok lk px fl more u r
        by (simp add: modify_order_def Let_def)
    next
      case less
      define b1 where b1: "b1 = (set_side b d ((ob_side b d)\<lparr>sd_qtys := (sd_qtys (ob_side b d))(length xs :=
          sd_qtys (ob_side b d) (length xs) - (?old - new_qty))\<rparr>))\<lparr>ob_slots := ?sp\<lparr>sp_qtys := (sp_qtys ?sp)(x := new_qty)\<rparr>\<rparr>"
      note S = set_qty_core [OF core lv A b1]
      have "A' = (\<lambda>e. map (\<lambda>(p, R). (p, amodify_queue oid new_qty R)) (A e))"
        using c True less by (simp add: amodify_def)
      moreover have "\<not> ?old < new_qty" using less(1) by simp
      ultimately have "refines b1 A'" using refinesI [OF S] unfolding book by simp
      moreover have "modify_order b oid new_qty = Some (True, b1)"
        using lk px fl less \<open>\<not> ?old < new_qty\<close> by (simp add: modify_order_def Let_def b1)
      ultimately show ?thesis using ok by (simp add: b1)
    next
      case zero
      then have nn: "\<not> ?old < new_qty" "new_qty < ?old" using old by (simp_all add: word_gt_0)
      define b1 where b1: "b1 = (set_side b d ((ob_side b d)\<lparr>sd_qtys := (sd_qtys (ob_side b d))(length xs :=
          sd_qtys (ob_side b d) (length xs) - (?old - new_qty))\<rparr>))\<lparr>ob_slots := ?sp\<lparr>sp_qtys := (sp_qtys ?sp)(x := new_qty)\<rparr>\<rparr>"
      note S = set_qty_core [OF core lv A b1]
      let ?A1 = "\<lambda>d. abs_levels (ob_slots b1) (lv d)"
      have D: "distinct (q1 @ x # q2)" using live_level(1) [OF core lv] .
      have fr: "abs_levels (ob_slots b1) xs = abs_levels ?sp xs" "abs_levels (ob_slots b1) ys = abs_levels ?sp ys"
        "map (resting_of (ob_slots b1)) (q1 @ q2) = map (resting_of ?sp) (q1 @ q2)"
      proof -
        have "distinct (orders_of (lv d))" using parts_distinct(1) [OF coreD(3) [OF core]] .
        then show "abs_levels (ob_slots b1) xs = abs_levels ?sp xs" "abs_levels (ob_slots b1) ys = abs_levels ?sp ys"
          by (auto intro!: abs_levels_frame simp: lv same_def b1)
        show "map (resting_of (ob_slots b1)) (q1 @ q2) = map (resting_of ?sp) (q1 @ q2)"
          using D by (auto simp: b1 resting_of_def)
      qed
      have A1: "?A1(d := L) = A(d := L)" for L by (simp add: S(2) [unfolded A [symmetric]])
      have ids1: "sp_ids (ob_slots b1) x = oid" using ids by (simp add: b1)
      from remove_order_core [OF S(1) lv refl, unfolded fr A1 ids1] obtain t where
        t: "index_remove (ob_index b1) oid = Some (True, t)"
        "refines ((remove_order_from_level b1 (side_code d) (length xs) x)\<lparr>ob_index := t\<rparr>)
          (A(d := abs_levels ?sp xs @ (if q1 @ q2 = [] then [] else [(p, map (resting_of ?sp) (q1 @ q2))]) @ abs_levels ?sp ys))"
        by blast
      have "A' = A(d := abs_levels ?sp xs @ (if q1 @ q2 = [] then [] else [(p, map (resting_of ?sp) (q1 @ q2))]) @ abs_levels ?sp ys)"
        using c True zero acancel_book [OF wf Ad] by (simp add: amodify_def ids)
      moreover have "ob_index (remove_order_from_level b1 (side_code d) (length xs) x) = ob_index b1"
        "ob_symbol (remove_order_from_level b1 (side_code d) (length xs) x) = ob_symbol b"
        by (simp_all add: remove_order_from_level_def Let_def b1 split: prod.splits)
      moreover have "modify_order b oid new_qty =
          Some (True, (remove_order_from_level b1 (side_code d) (length xs) x)\<lparr>ob_index := t\<rparr>)"
        using lk px fl nn t(1) calculation(2) zero by (simp add: modify_order_def Let_def b1 [unfolded zero])
      ultimately show ?thesis using ok t(2) by simp
    next
      case eq
      have "A' = (\<lambda>e. map (\<lambda>(p, R). (p, amodify_queue oid new_qty R)) (A e))"
        using c True eq old by (simp add: amodify_def)
      also have "\<dots> = A"
        unfolding book using eq Ad by (simp add: resting_of_def fun_upd_idem)
      finally show ?thesis using ok lk px fl eq R by (simp add: modify_order_def Let_def)
    qed
  qed
qed

section \<open>Quotes and the initial book\<close>

lemma best_quote_refines:
  assumes R: "refines b A"
  shows "best_quote b = aquote (ob_symbol b) A"
proof -
  have "(if sd_count (ob_side b d) > 0 then sd_prices (ob_side b d) 0 else PRICE_INVALID) =
      (case A d of [] \<Rightarrow> PRICE_INVALID | (p, R) # L \<Rightarrow> p)"
    "(if sd_count (ob_side b d) > 0 then sd_qtys (ob_side b d) 0 else 0) =
      (case A d of [] \<Rightarrow> 0 | (p, R) # L \<Rightarrow> level_qty R)" for d
    using refines_count [OF R, of d] refines_head(2,6) [OF R, of d] by (cases "A d"; force)+
  from this [of True] this [of False] show ?thesis
    unfolding best_quote_def aquote_def by (simp only: ob_side_def if_True if_False)
qed

lemma book_init_refines: "refines (book_init symb) abook_init"
proof -
  have "core (book_init symb) (\<lambda>_. []) [0..<kMaxOrders]"
  proof (rule coreI)
    show "side_ok (ob_slots (book_init symb)) (ob_side (book_init symb) d) []" for d
      by (simp add: side_ok_def levs_def ob_side_def book_init_def side_init_def arr_list_def)
    show "pool_inv (ob_slots (book_init symb)) [0..<kMaxOrders]"
      using pool_inv_init by (simp add: book_init_def)
    show "parts (\<lambda>_. []) [0..<kMaxOrders]" by (simp add: parts_def)
    have "index_abs index_init oid = None" for oid
      by (simp add: index_abs_init)
    then show "index_ok (ob_index (book_init symb)) (ob_slots (book_init symb)) (\<lambda>_. [])"
      using index_inv_init by (simp add: index_ok_def book_init_def)
  qed
  then show ?thesis by (rule refinesI) (simp add: abook_init_def)
qed

end
