(* ===== verification/Book_Props.thy ===== *)
theory Book_Props
  imports Book_Edit
begin

text \<open>
  The market properties of the abstract book, carried over to \<^verbatim>\<open>OrderBook\<close> by the refinement:
  well-formedness, quantity conservation, price-time priority, the all-or-none guarantee,
  self-trade prevention and the absence of a crossed book.
\<close>

section \<open>Filling\<close>

abbreviation fill_total :: "(order_id \<times> price \<times> qty) list \<Rightarrow> nat" where
  "fill_total fs \<equiv> sum_list (map (\<lambda>(c, p, f). unat f) fs)"

definition open_qty :: "resting list \<Rightarrow> nat" where
  "open_qty R = sum_list (map (\<lambda>r. unat (rs_qty r)) R)"

lemma open_qty_simps [simp]:
  "open_qty [] = 0" "open_qty (r # R) = unat (rs_qty r) + open_qty R"
  "open_qty (R @ S) = open_qty R + open_qty S"
  by (simp_all add: open_qty_def)

lemma afill_conserve:
  "afill acct q R = (fs, q', R', w) \<Longrightarrow>
    unat q = unat q' + sum_list (map (\<lambda>(c, f). unat f) fs) \<and>
    open_qty R = open_qty R' + sum_list (map (\<lambda>(c, f). unat f) fs)"
proof (induction acct q R arbitrary: fs q' R' w rule: afill.induct)
  case (2 acct q r R)
  consider "q = 0" | "q \<noteq> 0" "acct \<noteq> 0 \<and> acct = rs_acct r"
    | "q \<noteq> 0" "\<not> (acct \<noteq> 0 \<and> acct = rs_acct r)" "rs_qty r \<le> q"
    | "q \<noteq> 0" "\<not> (acct \<noteq> 0 \<and> acct = rs_acct r)" "\<not> rs_qty r \<le> q" by blast
  then show ?case
  proof cases
    case 1
    with "2.prems" show ?thesis by auto
  next
    case 2
    with "2.prems" show ?thesis by auto
  next
    case 3
    obtain gs q1 R1 w1 where af: "afill acct (q - rs_qty r) R = (gs, q1, R1, w1)" by (metis prod_cases4)
    with "2.prems" 3 have eqs: "fs = (rs_id r, rs_qty r) # gs" "q' = q1" "R' = R1" by auto
    have "unat (q - rs_qty r) = unat q - unat (rs_qty r)" "unat (rs_qty r) \<le> unat q"
      using 3(3) by (simp_all add: unat_sub_le word_le_nat_alt)
    with "2.IH" [OF 3 af] eqs show ?thesis by auto
  next
    case 4
    with "2.prems" have eqs: "fs = [(rs_id r, q)]" "q' = 0" "R' = r\<lparr>rs_qty := rs_qty r - q\<rparr> # R"
      by (auto split: if_splits)
    have "unat (rs_qty r - q) = unat (rs_qty r) - unat q" "unat q \<le> unat (rs_qty r)"
      using 4(3) by (simp_all add: unat_sub_le word_le_nat_alt)
    with eqs show ?thesis by simp
  qed
qed auto

text \<open>
  The orders filled are a prefix of the queue, each filled whole except possibly the last, and
  none of them belongs to the incoming account.
\<close>

lemma afill_priority:
  "afill acct q R = (fs, q', R', w) \<Longrightarrow>
    map fst fs = map rs_id (take (length fs) R) \<and> length fs \<le> length R \<and>
    (\<forall>i < length fs. snd (fs ! i) \<le> rs_qty (R ! i) \<and> (acct = 0 \<or> rs_acct (R ! i) \<noteq> acct)) \<and>
    (\<forall>i. Suc i < length fs \<longrightarrow> snd (fs ! i) = rs_qty (R ! i)) \<and>
    map rs_id R' = map rs_id (drop (length R - length R') R)"
proof (induction acct q R arbitrary: fs q' R' w rule: afill.induct)
  case (2 acct q r R)
  consider "q = 0 \<or> acct \<noteq> 0 \<and> acct = rs_acct r"
    | "q \<noteq> 0" "\<not> (acct \<noteq> 0 \<and> acct = rs_acct r)" "rs_qty r \<le> q"
    | "q \<noteq> 0" "\<not> (acct \<noteq> 0 \<and> acct = rs_acct r)" "\<not> rs_qty r \<le> q" by blast
  then show ?case
  proof cases
    case 1
    with "2.prems" have "fs = []" "R' = r # R" by (auto split: if_splits)
    then show ?thesis by simp
  next
    case 2
    obtain gs q1 R1 w1 where af: "afill acct (q - rs_qty r) R = (gs, q1, R1, w1)" by (metis prod_cases4)
    with "2.prems" 2 have eqs: "fs = (rs_id r, rs_qty r) # gs" "R' = R1" by auto
    have le: "length R1 \<le> length R" using afill_subset [OF af] by simp
    note ih = "2.IH" [OF 2 af]
    have "map rs_id R1 = map rs_id (drop (length (r # R) - length R1) (r # R))"
      using ih le by (simp add: Suc_diff_le)
    moreover have "\<forall>i<length fs. snd (fs ! i) \<le> rs_qty ((r # R) ! i) \<and> (acct = 0 \<or> rs_acct ((r # R) ! i) \<noteq> acct)"
      using ih 2 by (auto simp: eqs nth_Cons split: nat.splits)
    moreover have "\<forall>i. Suc i < length fs \<longrightarrow> snd (fs ! i) = rs_qty ((r # R) ! i)"
      using ih by (auto simp: eqs(1) nth_Cons split: nat.splits)
    moreover have "map fst fs = map rs_id (take (length fs) (r # R))" "length fs \<le> length (r # R)"
      using ih by (simp_all add: eqs(1))
    ultimately show ?thesis unfolding eqs(2) by blast
  next
    case 3
    with "2.prems" have "fs = [(rs_id r, q)]" "R' = r\<lparr>rs_qty := rs_qty r - q\<rparr> # R"
      by (auto split: if_splits)
    with 3 show ?thesis by auto
  qed
qed auto

section \<open>Matching\<close>

lemma fill_total_priced [simp]: "fill_total (priced p fs) = sum_list (map (\<lambda>(c, f). unat f) fs)"
  by (induction fs) (auto simp: priced_def)

text \<open>One unfolding of \<open>amatch\<close> on a non-empty side, as cases.\<close>

lemma amatch_cases:
  assumes "amatch cr acct q ((p, R) # L) = (fs, q', L', w)"
  obtains (none) "q = 0 \<or> \<not> cr p" "fs = []" "q' = q" "L' = (p, R) # L" "\<not> w"
  | (stop) gs R' where "q \<noteq> 0" "cr p" "afill acct q R = (gs, q', R', w)" "fs = priced p gs"
      "L' = (p, R') # L" "w \<or> R' \<noteq> [] \<and> q' = 0"
  | (next1) gs q1 hs where "q \<noteq> 0" "cr p" "afill acct q R = (gs, q1, [], False)"
      "amatch cr acct q1 L = (hs, q', L', w)" "fs = priced p gs @ hs"
proof -
  obtain gs q1 R1 w1 where af: "afill acct q R = (gs, q1, R1, w1)" by (metis prod_cases4)
  obtain hs q2 L2 w2 where am: "amatch cr acct q1 L = (hs, q2, L2, w2)" by (metis prod_cases4)
  consider "q = 0 \<or> \<not> cr p" | "q \<noteq> 0" "cr p" "w1" | "q \<noteq> 0" "cr p" "\<not> w1" "R1 \<noteq> []" | "q \<noteq> 0" "cr p" "\<not> w1" "R1 = []"
    by blast
  then show ?thesis
  proof cases
    case 1
    then have "fs = []" "q' = q" "L' = (p, R) # L" "\<not> w" using assms by auto
    with 1 show ?thesis by (rule none)
  next
    case 2
    then have eqs: "fs = priced p gs" "q' = q1" "L' = (p, R1) # L" "w" using assms af by auto
    have "afill acct q R = (gs, q', R1, w)" using af 2(3) eqs by simp
    from stop [OF 2(1,2) this eqs(1,3)] eqs(4) show ?thesis by blast
  next
    case 3
    then have eqs: "fs = priced p gs" "q' = q1" "L' = (p, R1) # L" "\<not> w" using assms af by auto
    have "afill acct q R = (gs, q', R1, w)" using af 3(3) eqs by simp
    from stop [OF 3(1,2) this eqs(1,3)] 3(4) afill_stops [OF af 3(4,3)] eqs(2) show ?thesis by blast
  next
    case 4
    then have eqs: "fs = priced p gs @ hs" "q' = q2" "L' = L2" "w = w2" using assms af am by auto
    have "afill acct q R = (gs, q1, [], False)" using af 4(3,4) by simp
    from next1 [OF 4(1,2) this] am eqs show ?thesis by blast
  qed
qed

lemma amatch_conserve:
  "amatch cr acct q L = (fs, q', L', w) \<Longrightarrow>
    unat q = unat q' + fill_total fs \<and> open_qty (orders_of L) = open_qty (orders_of L') + fill_total fs"
proof (induction L arbitrary: q fs q' L' w)
  case (Cons l L)
  obtain p R where l: "l = (p, R)" by force
  from Cons.prems [unfolded l] show ?case
  proof (cases rule: amatch_cases)
    case none
    then show ?thesis by (simp add: l)
  next
    case (stop gs R')
    then show ?thesis using afill_conserve [OF stop(3)] by (simp add: l)
  next
    case (next1 gs q1 hs)
    then show ?thesis using afill_conserve [OF next1(3)] Cons.IH [OF next1(4)] by (simp add: l)
  qed
qed simp

lemma amatch_crosses:
  "amatch cr acct q L = (fs, q', L', w) \<Longrightarrow> \<forall>(c, p, f)\<in>set fs. cr p"
proof (induction L arbitrary: q fs q' L' w)
  case (Cons l L)
  obtain p R where l: "l = (p, R)" by force
  from Cons.prems [unfolded l] show ?case
    by (cases rule: amatch_cases) (use Cons.IH in \<open>fastforce simp: priced_def\<close>)+
qed simp

text \<open>Fills follow the queue order of the whole side: best price first, then arrival order.\<close>

definition side_seq :: "alevel list \<Rightarrow> (order_id \<times> price \<times> qty) list" where
  "side_seq L = concat (map (\<lambda>(p, R). map (\<lambda>r. (rs_id r, p, rs_qty r)) R) L)"

lemma side_seq_simps [simp]:
  "side_seq [] = []" "side_seq ((p, R) # L) = map (\<lambda>r. (rs_id r, p, rs_qty r)) R @ side_seq L"
  by (simp_all add: side_seq_def)

text \<open>\<open>prefix_filled fs xs\<close>: \<open>fs\<close> fills a prefix of \<open>xs\<close>, all but the last fill whole.\<close>

fun prefix_filled :: "(order_id \<times> price \<times> qty) list \<Rightarrow> (order_id \<times> price \<times> qty) list \<Rightarrow> bool" where
  "prefix_filled [] xs \<longleftrightarrow> True"
| "prefix_filled (f # fs) [] \<longleftrightarrow> False"
| "prefix_filled ((c, p, f) # fs) ((c', p', n) # xs) \<longleftrightarrow>
    c = c' \<and> p = p' \<and> (if fs = [] then f \<le> n else f = n \<and> prefix_filled fs xs)"

lemma prefix_filled_whole:
  "prefix_filled gs xs \<Longrightarrow> prefix_filled (ys @ gs) (ys @ xs)"
proof (induction ys)
  case (Cons y ys)
  obtain c p n where y: "y = (c, p, n)" by (metis prod_cases3)
  with Cons show ?case by (cases "ys @ gs") auto
qed simp

lemma afill_whole: "afill acct q R = (fs, q', [], w) \<Longrightarrow> fs = map (\<lambda>r. (rs_id r, rs_qty r)) R"
  by (induction acct q R arbitrary: fs rule: afill.induct) (auto split: if_splits prod.splits)

lemma afill_prefix_filled:
  "afill acct q R = (fs, q', R', w) \<Longrightarrow> prefix_filled (priced p fs) (map (\<lambda>r. (rs_id r, p, rs_qty r)) R @ xs)"
proof (induction acct q R arbitrary: fs q' R' w rule: afill.induct)
  case (2 acct q r R)
  consider "q = 0 \<or> acct \<noteq> 0 \<and> acct = rs_acct r"
    | "q \<noteq> 0" "\<not> (acct \<noteq> 0 \<and> acct = rs_acct r)" "rs_qty r \<le> q"
    | "q \<noteq> 0" "\<not> (acct \<noteq> 0 \<and> acct = rs_acct r)" "\<not> rs_qty r \<le> q" by blast
  then show ?case
  proof cases
    case 1
    with "2.prems" have "fs = []" by (auto split: if_splits)
    then show ?thesis by (simp add: priced_def)
  next
    case 2
    obtain gs q1 R1 w1 where af: "afill acct (q - rs_qty r) R = (gs, q1, R1, w1)" by (metis prod_cases4)
    with "2.prems" 2 have eqs: "fs = (rs_id r, rs_qty r) # gs" by auto
    from "2.IH" [OF 2 af] show ?thesis by (simp add: eqs priced_def)
  next
    case 3
    with "2.prems" have "fs = [(rs_id r, q)]" by (auto split: if_splits)
    with 3 show ?thesis by (simp add: priced_def)
  qed
qed (simp add: priced_def)

lemma amatch_priority:
  "amatch cr acct q L = (fs, q', L', w) \<Longrightarrow> prefix_filled fs (side_seq L)"
proof (induction L arbitrary: q fs q' L' w)
  case (Cons l L)
  obtain p R where l: "l = (p, R)" by force
  from Cons.prems [unfolded l] show ?case
  proof (cases rule: amatch_cases)
    case none
    then show ?thesis by simp
  next
    case (stop gs R')
    then show ?thesis using afill_prefix_filled [OF stop(3)] by (simp add: l)
  next
    case (next1 gs q1 hs)
    have "priced p gs = map (\<lambda>r. (rs_id r, p, rs_qty r)) R"
      using afill_whole [OF next1(3)] by (simp add: priced_def)
    then show ?thesis using prefix_filled_whole [OF Cons.IH [OF next1(4)]] next1(5) by (simp add: l)
  qed
qed simp

text \<open>No fill against an order of the incoming account.\<close>

lemma afill_no_self:
  assumes "afill acct q R = (fs, q', R', w)" "acct \<noteq> 0" "distinct (map rs_id R)" "c \<in> fst ` set fs"
  shows "\<exists>r\<in>set R. rs_id r = c \<and> rs_acct r \<noteq> acct"
proof -
  from assms(4) obtain i where i: "i < length fs" "fst (fs ! i) = c" by (auto simp: in_set_conv_nth)
  note pr = afill_priority [OF assms(1)]
  have "fst (fs ! i) = map rs_id (take (length fs) R) ! i" using pr i(1) by (metis nth_map)
  also have "\<dots> = rs_id (R ! i)" using pr i(1) by simp
  finally have "rs_id (R ! i) = c" using i(2) by simp
  moreover have "i < length R" "rs_acct (R ! i) \<noteq> acct" using pr i(1) assms(2) by auto
  ultimately show ?thesis by (metis nth_mem)
qed

lemma amatch_no_self:
  "amatch cr acct q L = (fs, q', L', w) \<Longrightarrow> acct \<noteq> 0 \<Longrightarrow> distinct (map rs_id (orders_of L)) \<Longrightarrow>
    c \<in> fst ` set fs \<Longrightarrow> \<exists>r\<in>set (orders_of L). rs_id r = c \<and> rs_acct r \<noteq> acct"
proof (induction L arbitrary: q fs q' L' w)
  case (Cons l L)
  obtain p R where l: "l = (p, R)" by force
  have fp: "fst ` set (priced p gs) = fst ` set gs" for gs by (force simp: priced_def)
  have d: "distinct (map rs_id R)" "distinct (map rs_id (orders_of L))" using Cons.prems(3) by (auto simp: l)
  from Cons.prems(1) [unfolded l] show ?case
  proof (cases rule: amatch_cases)
    case none
    with Cons.prems(4) show ?thesis by simp
  next
    case (stop gs R')
    with afill_no_self [OF stop(3) Cons.prems(2) d(1), of c] Cons.prems(4) show ?thesis by (auto simp: l fp)
  next
    case (next1 gs q1 hs)
    with Cons.prems(4) have "c \<in> fst ` set gs \<or> c \<in> fst ` set hs" by (auto simp: fp image_Un)
    then show ?thesis
      using afill_no_self [OF next1(3) Cons.prems(2) d(1), of c] Cons.IH [OF next1(4) Cons.prems(2) d(2)]
      by (auto simp: l)
  qed
qed simp

section \<open>All or none\<close>

lemma afill_liquidity:
  assumes "afill acct q R = (fs, q', R', w)" "aliq_queue acct R = (wl, n)"
  shows "if unat q \<le> n then q' = 0 else unat q' = unat q - n \<and> w = wl \<and> (\<not> w \<longrightarrow> R' = [])"
  using assms
proof (induction acct q R arbitrary: fs q' R' w wl n rule: afill.induct)
  case (2 acct q r R)
  consider "q = 0" | "q \<noteq> 0" "acct \<noteq> 0 \<and> acct = rs_acct r"
    | "q \<noteq> 0" "\<not> (acct \<noteq> 0 \<and> acct = rs_acct r)" "rs_qty r \<le> q"
    | "q \<noteq> 0" "\<not> (acct \<noteq> 0 \<and> acct = rs_acct r)" "\<not> rs_qty r \<le> q" by blast
  then show ?case
  proof cases
    case 1
    with "2.prems" show ?thesis by auto
  next
    case 2
    with "2.prems" have "n = 0" "wl" "q' = q" "w" by auto
    with 2 show ?thesis by (simp add: unat_eq_zero)
  next
    case 3
    obtain gs q1 R1 w1 where af: "afill acct (q - rs_qty r) R = (gs, q1, R1, w1)" by (metis prod_cases4)
    obtain wm m where al: "aliq_queue acct R = (wm, m)" by force
    from "2.prems"(1) 3 af have eqs: "q' = q1" "R' = R1" "w = w1" by auto
    have ln: "wl = wm" "n = unat (rs_qty r) + m" using "2.prems"(2) 3(2) al by auto
    have u: "unat (q - rs_qty r) = unat q - unat (rs_qty r)" "unat (rs_qty r) \<le> unat q"
      using 3(3) by (simp_all add: unat_sub_le word_le_nat_alt)
    have "unat (q - rs_qty r) \<le> m \<longleftrightarrow> unat q \<le> n" using u ln by linarith
    moreover have "unat (q - rs_qty r) - m = unat q - n" using u ln by linarith
    ultimately show ?thesis using "2.IH" [OF 3 af al] by (simp add: eqs ln(1))
  next
    case 4
    with "2.prems"(1) have "q' = 0" by (auto split: if_splits)
    moreover obtain wm m where al: "aliq_queue acct R = (wm, m)" by force
    have "n = unat (rs_qty r) + m" using "2.prems"(2) 4(2) al by auto
    moreover have "unat q < unat (rs_qty r)" using 4(3) by (simp add: word_le_nat_alt)
    ultimately show ?thesis by simp
  qed
qed (auto simp: unat_eq_zero)

lemma amatch_liquidity:
  "amatch cr acct q L = (fs, q', L', w) \<Longrightarrow> unat q \<le> aliq cr acct L \<Longrightarrow> q' = 0"
proof (induction L arbitrary: q fs q' L' w)
  case Nil
  then show ?case by (simp add: unat_eq_zero)
next
  case (Cons l L)
  obtain p R where l: "l = (p, R)" by force
  obtain wl n where al: "aliq_queue acct R = (wl, n)" by force
  from Cons.prems(1) [unfolded l] show ?case
  proof (cases rule: amatch_cases)
    case none
    then show ?thesis using Cons.prems(2) by (auto simp: l unat_eq_zero)
  next
    case (stop gs R')
    note f = afill_liquidity [OF stop(3) al]
    show ?thesis
    proof (cases "unat q \<le> n")
      case True
      with f show ?thesis by simp
    next
      case False
      with f stop(6) have "w" "wl" by auto
      with Cons.prems(2) stop(2) al False show ?thesis by (simp add: l)
    qed
  next
    case (next1 gs q1 hs)
    note f = afill_liquidity [OF next1(3) al]
    have "unat q1 \<le> aliq cr acct L"
      using f Cons.prems(2) al next1(2) by (auto simp: l split: if_splits)
    from Cons.IH [OF next1(4) this] show ?thesis .
  qed
qed

section \<open>Well-formedness is kept\<close>

lemma afill_wall: "afill acct q R = (fs, q', R', True) \<Longrightarrow> R' \<noteq> []"
  by (induction acct q R arbitrary: fs rule: afill.induct) (auto split: if_splits prod.splits)

lemma afill_qty_nonzero:
  "afill acct q R = (fs, q', R', w) \<Longrightarrow> \<forall>r\<in>set R. rs_qty r \<noteq> 0 \<Longrightarrow> \<forall>r\<in>set R'. rs_qty r \<noteq> 0"
  by (induction acct q R arbitrary: fs rule: afill.induct) (auto split: if_splits prod.splits)

lemma amatch_suffix:
  "amatch cr acct q L = (fs, q', L', w) \<Longrightarrow>
    (\<exists>X. map rs_id (orders_of L) = X @ map rs_id (orders_of L')) \<and>
    (\<exists>Y. prices_of L = Y @ prices_of L') \<and>
    ((\<forall>l\<in>set L. snd l \<noteq> []) \<longrightarrow> (\<forall>l\<in>set L'. snd l \<noteq> [])) \<and>
    ((\<forall>r\<in>set (orders_of L). rs_qty r \<noteq> 0) \<longrightarrow> (\<forall>r\<in>set (orders_of L'). rs_qty r \<noteq> 0))"
proof (induction L arbitrary: q fs q' L' w)
  case (Cons l L)
  obtain p R where l: "l = (p, R)" by force
  from Cons.prems [unfolded l] show ?case
  proof (cases rule: amatch_cases)
    case none
    then show ?thesis by (auto simp: l)
  next
    case (stop gs R')
    have "R' \<noteq> []" using stop(6) afill_wall [of acct q R gs q' R'] stop(3) by (cases w) auto
    moreover have "map rs_id (orders_of (l # L)) =
        map rs_id (take (length R - length R') R) @ map rs_id (orders_of L')"
    proof -
      have "map rs_id R' = map rs_id (drop (length R - length R') R)" using afill_priority [OF stop(3)] by blast
      then have "map rs_id R = map rs_id (take (length R - length R') R) @ map rs_id R'"
        by (metis append_take_drop_id map_append)
      then show ?thesis by (simp add: l stop(5))
    qed
    moreover have "prices_of (l # L) = [] @ prices_of L'" by (simp add: l stop(5))
    ultimately show ?thesis using afill_qty_nonzero [OF stop(3)] unfolding stop(5) l
      by (intro conjI exI impI) auto
  next
    case (next1 gs q1 hs)
    obtain X Y where "map rs_id (orders_of L) = X @ map rs_id (orders_of L')" "prices_of L = Y @ prices_of L'"
      using Cons.IH [OF next1(4)] by blast
    then have "map rs_id (orders_of (l # L)) = (map rs_id R @ X) @ map rs_id (orders_of L')"
      "prices_of (l # L) = (p # Y) @ prices_of L'" by (simp_all add: l)
    then show ?thesis using Cons.IH [OF next1(4)] unfolding l by (intro conjI exI impI) auto
  qed
qed simp

lemma wf_sideI:
  assumes "ordered d (prices_of ls)" "length ls \<le> kMaxLevels" "\<forall>l\<in>set ls. snd l \<noteq> []"
    "\<forall>r\<in>set (orders_of ls). rs_qty r \<noteq> 0" "distinct (map rs_id (orders_of ls))"
  shows "wf_side d ls"
  using assms by (simp add: wf_side_def)

lemma wf_abook_side: "wf_abook A \<Longrightarrow> wf_side d (A d)"
  by (cases d) (simp_all add: wf_abook_def)

lemma wf_abookI:
  assumes "wf_side d (A d)" "wf_side (\<not> d) (A (\<not> d))"
    "rs_id ` set (orders_of (A d)) \<inter> rs_id ` set (orders_of (A (\<not> d))) = {}" "num_orders A \<le> kMaxOrders"
  shows "wf_abook A"
  using assms by (cases d) (auto simp: wf_abook_def)

lemma amatch_wf:
  assumes m: "amatch cr acct q (A e) = (fs, q', L', w)" and wf: "wf_abook A"
  shows "wf_abook (A(e := L'))"
proof (rule wf_abookI [of e])
  have s: "wf_side e (A e)" using wf by (rule wf_abook_side)
  obtain X Y where XY: "map rs_id (orders_of (A e)) = X @ map rs_id (orders_of L')" "prices_of (A e) = Y @ prices_of L'"
    using amatch_suffix [OF m] by blast
  have "length (A e) = length Y + length L'" using arg_cong [OF XY(2), of length] by simp
  then show "wf_side e ((A(e := L')) e)"
    using s amatch_suffix [OF m] XY by (auto simp: wf_side_def ordered_append)
  show "wf_side (\<not> e) ((A(e := L')) (\<not> e))" using wf_abook_side [OF wf, of "\<not> e"] by simp
  show "rs_id ` set (orders_of ((A(e := L')) e)) \<inter> rs_id ` set (orders_of ((A(e := L')) (\<not> e))) = {}"
  proof -
    have "rs_id ` set (orders_of L') \<subseteq> rs_id ` set (orders_of (A e))" using amatch_subset [OF m] by blast
    then show ?thesis using wf_sideD(6) [OF wf, of e] by (simp only: fun_upd_same fun_upd_other) auto
  qed
  show "num_orders (A(e := L')) \<le> kMaxOrders"
    using amatch_subset [OF m] wf_sideD(7) [OF wf] unfolding num_orders_alt [of _ e] by simp
qed

lemma ainsert_mset: "mset (orders_of (ainsert d p r L)) = add_mset r (mset (orders_of L))"
  by (induction d p r L rule: ainsert.induct) auto

lemma ainsert_prices: "set (prices_of (ainsert d p r L)) = insert p (set (prices_of L))"
  by (induction d p r L rule: ainsert.induct) auto

lemma ainsert_ordered: "ordered d (prices_of L) \<Longrightarrow> ordered d (prices_of (ainsert d p r L))"
proof (induction d p r L rule: ainsert.induct)
  case (2 d p r p' R L)
  have o: "ordered d (prices_of L)" "\<forall>x\<in>set (prices_of L). better d p' x"
    using "2.prems" by (simp_all add: ordered_Cons)
  consider "p' = p" | "p' \<noteq> p" "better d p' p" | "p' \<noteq> p" "\<not> better d p' p" by blast
  then show ?case
  proof cases
    case 1
    with "2.prems" show ?thesis by (simp add: ordered_Cons)
  next
    case 2
    with "2.IH" o ainsert_prices [of d p r L] show ?thesis by (simp add: ordered_Cons)
  next
    case 3
    then have "better d p p'" using not_better by blast
    moreover have "\<forall>x\<in>set (prices_of L). better d p x" using o(2) calculation better_trans by blast
    ultimately show ?thesis using 3 "2.prems" by (simp add: ordered_Cons)
  qed
qed (simp add: ordered_Cons)

lemma ainsert_length:
  assumes "ordered d (prices_of L)"
  shows "length (ainsert d p r L) = (if p \<in> set (prices_of L) then length L else Suc (length L))"
proof -
  have "length (ainsert d p r L) = card (set (prices_of (ainsert d p r L)))"
    using distinct_card [OF ordered_distinct [OF ainsert_ordered [OF assms]], of p r] by simp
  also have "\<dots> = card (insert p (set (prices_of L)))" by (simp only: ainsert_prices)
  also have "card (set (prices_of L)) = length L"
    using distinct_card [OF ordered_distinct [OF assms]] by simp
  then have "card (insert p (set (prices_of L))) = (if p \<in> set (prices_of L) then length L else Suc (length L))"
    by (simp add: card_insert_if)
  finally show ?thesis .
qed

lemma ainsert_nonempty:
  "\<forall>l\<in>set L. snd l \<noteq> [] \<Longrightarrow> \<forall>l\<in>set (ainsert d p r L). snd l \<noteq> []"
  by (induction d p r L rule: ainsert.induct) auto

lemma ainsert_wf:
  assumes wf: "wf_abook A" and c: "can_rest A d p" and fresh: "rs_id r \<notin> all_ids A" and q: "rs_qty r \<noteq> 0"
  shows "wf_abook (A(d := ainsert d p r (A d)))"
proof (rule wf_abookI [of d])
  let ?L = "ainsert d p r (A d)"
  have ms: "set (orders_of ?L) = insert r (set (orders_of (A d)))"
    using arg_cong [OF ainsert_mset [of d p r "A d"], of set_mset] by simp
  have f: "rs_id r \<notin> rs_id ` set (orders_of (A d))" "rs_id r \<notin> rs_id ` set (orders_of (A (\<not> d)))"
    using fresh unfolding all_ids_alt [of _ d] by auto
  have "mset (map rs_id (orders_of ?L)) = mset (map rs_id (r # orders_of (A d)))"
    using ainsert_mset [of d p r "A d"] by (simp only: mset_map) simp
  then have "distinct (map rs_id (orders_of ?L)) = distinct (map rs_id (r # orders_of (A d)))"
    by (rule mset_eq_imp_distinct_iff)
  then have di: "distinct (map rs_id (orders_of ?L))" using f(1) wf_sideD(5) [OF wf, of d] by simp
  have "length ?L \<le> kMaxLevels"
    using ainsert_length [OF wf_sideD(1) [OF wf, of d], where p = p and r = r] c wf_sideD(2) [OF wf, of d] by (auto simp: can_rest_def split: if_splits)
  moreover have "\<forall>l\<in>set ?L. snd l \<noteq> []" using ainsert_nonempty wf_sideD(3) [OF wf, of _ d] by blast
  moreover have "\<forall>x\<in>set (orders_of ?L). rs_qty x \<noteq> 0" using ms q wf_sideD(4) [OF wf, of _ d] by auto
  ultimately show "wf_side d ((A(d := ?L)) d)"
    using ainsert_ordered [OF wf_sideD(1) [OF wf]] di by (simp add: wf_side_def)
  show "wf_side (\<not> d) ((A(d := ?L)) (\<not> d))" using wf_abook_side [OF wf, of "\<not> d"] by simp
  show "rs_id ` set (orders_of ((A(d := ?L)) d)) \<inter> rs_id ` set (orders_of ((A(d := ?L)) (\<not> d))) = {}"
    using ms f(2) wf_sideD(6) [OF wf, of d] by auto
  have "length (orders_of ?L) = Suc (length (orders_of (A d)))"
    using arg_cong [OF ainsert_mset [of d p r "A d"], of size] by simp
  then show "num_orders (A(d := ?L)) \<le> kMaxOrders"
    using c unfolding can_rest_def num_orders_alt [of _ d] by simp
qed

lemma aadd_wf:
  assumes wf: "wf_abook A" and fresh: "ord_id o1 \<notin> all_ids A" and add: "aadd A o1 = (ok, A', fs)"
  shows "wf_abook A'"
proof -
  let ?d = "is_buy o1"
  obtain gs q L w where am: "amatch (crosses o1) (ord_account o1) (ord_qty_remaining o1) (A (\<not> ?d)) = (gs, q, L, w)"
    by (metis prod_cases4)
  let ?A1 = "A(\<not> ?d := L)"
  have wf1: "wf_abook ?A1" using amatch_wf [OF am wf] .
  have "all_ids ?A1 \<subseteq> all_ids A"
    using amatch_subset [OF am] unfolding all_ids_alt [of _ "\<not> ?d"] by auto
  then have f1: "ord_id o1 \<notin> all_ids ?A1" using fresh by blast
  have "A' = A \<or> A' = ?A1 \<or> q \<noteq> 0 \<and> can_rest ?A1 ?d (ord_price o1) \<and>
      A' = ?A1(?d := ainsert ?d (ord_price o1) \<lparr>rs_id = ord_id o1, rs_qty = q, rs_acct = ord_account o1\<rparr> (A ?d))"
    using add unfolding aadd_def Let_def am prod.case by (simp split: if_splits del: fun_upd_apply)
  then consider "A' = A" | "A' = ?A1" | "q \<noteq> 0" "can_rest ?A1 ?d (ord_price o1)"
    "A' = ?A1(?d := ainsert ?d (ord_price o1) \<lparr>rs_id = ord_id o1, rs_qty = q, rs_acct = ord_account o1\<rparr> (A ?d))"
    by blast
  then show ?thesis
  proof cases
    case 3
    have "wf_abook (?A1(?d := ainsert ?d (ord_price o1)
        \<lparr>rs_id = ord_id o1, rs_qty = q, rs_acct = ord_account o1\<rparr> (?A1 ?d)))"
      by (rule ainsert_wf [OF wf1 3(2)]) (use f1 3(1) in simp_all)
    with 3(3) show ?thesis by simp
  qed (use wf wf1 in simp_all)
qed

lemma orders_acancel: "orders_of (acancel_side oid L) = filter (\<lambda>r. rs_id r \<noteq> oid) (orders_of L)"
  by (induction L) (auto simp: acancel_side_def)

lemma sublist_ordered:
  "ordered d (prices_of L) \<Longrightarrow> ordered d (prices_of (acancel_side oid L)) \<and>
    set (prices_of (acancel_side oid L)) \<subseteq> set (prices_of L)"
proof (induction L)
  case (Cons l L)
  have c: "acancel_side oid (l # L) = acancel_side oid [l] @ acancel_side oid L"
    using acancel_side_append [of oid "[l]" L] by simp
  have "set (prices_of (acancel_side oid [l])) \<subseteq> {fst l}" "length (acancel_side oid [l]) \<le> 1"
    by (auto simp: acancel_side_def split: prod.splits)
  then have "acancel_side oid [l] = [] \<or> (\<exists>R. acancel_side oid [l] = [(fst l, R)])"
    by (cases "acancel_side oid [l]") auto
  moreover have "ordered d (prices_of L)" "\<forall>x\<in>set (prices_of L). better d (fst l) x"
    using Cons.prems by (simp_all add: ordered_Cons)
  moreover have "ordered d (prices_of (acancel_side oid L))" "set (prices_of (acancel_side oid L)) \<subseteq> set (prices_of L)"
    using Cons.IH calculation(2) by blast+
  moreover have "\<forall>x\<in>set (prices_of (acancel_side oid L)). better d (fst l) x"
    using calculation(3,5) by blast
  ultimately show ?case unfolding c by (auto simp: ordered_Cons simp del: set_map)
qed (simp add: acancel_side_def)

lemma acancel_length: "length (acancel_side oid L) \<le> length L"
  unfolding acancel_side_def by (metis length_filter_le length_map)

lemma acancel_side_wf: "wf_side d L \<Longrightarrow> wf_side d (acancel_side oid L)"
  using acancel_length [of oid L] sublist_ordered [of d L oid]
  by (auto simp: wf_side_def orders_acancel distinct_map_filter) (auto simp: acancel_side_def)

lemma acancel_wf:
  assumes "wf_abook A"
  shows "wf_abook (\<lambda>d. acancel_side oid (A d))"
proof (rule wf_abookI [of True])
  show "wf_side True (acancel_side oid (A True))" "wf_side (\<not> True) (acancel_side oid (A (\<not> True)))"
    using wf_abook_side [OF assms] acancel_side_wf by blast+
  show "rs_id ` set (orders_of (acancel_side oid (A True))) \<inter> rs_id ` set (orders_of (acancel_side oid (A (\<not> True)))) = {}"
    using wf_sideD(6) [OF assms, of True] by (auto simp: orders_acancel)
  have "length (filter P xs) \<le> length xs" for P and xs :: "resting list" by simp
  then show "num_orders (\<lambda>d. acancel_side oid (A d)) \<le> kMaxOrders"
    using wf_sideD(7) [OF assms] unfolding num_orders_def orders_acancel by (meson add_le_mono le_trans)
qed

lemma amodify_queue_ids:
  "distinct (map rs_id R) \<Longrightarrow> mset (map rs_id (amodify_queue oid q R)) = mset (map rs_id R)"
proof (cases "oid \<in> rs_id ` set R")
  case True
  assume d: "distinct (map rs_id R)"
  from True obtain r where r: "r \<in> set R" "oid = rs_id r" by auto
  then obtain R1 R2 where R: "R = R1 @ r # R2" by (meson split_list)
  show ?thesis using amodify_queue_hit [of R1 r R2 q] d unfolding r(2) R by simp
qed (simp add: amodify_queue_other)

lemma amodify_queue_qty:
  "q \<noteq> 0 \<Longrightarrow> \<forall>r\<in>set R. rs_qty r \<noteq> 0 \<Longrightarrow> r \<in> set (amodify_queue oid q R) \<Longrightarrow> rs_qty r \<noteq> 0"
  by (auto simp: amodify_queue_def split: option.splits if_splits)

abbreviation amodify_side :: "order_id \<Rightarrow> qty \<Rightarrow> alevel list \<Rightarrow> alevel list" where
  "amodify_side oid q L \<equiv> map (\<lambda>(p, R). (p, amodify_queue oid q R)) L"

lemma amodify_side_ids:
  "distinct (map rs_id (orders_of L)) \<Longrightarrow>
    mset (map rs_id (orders_of (amodify_side oid q L))) = mset (map rs_id (orders_of L))"
  by (induction L) (auto simp: amodify_queue_ids simp del: mset_map)

lemma amodify_side_prices [simp]: "prices_of (amodify_side oid q L) = prices_of L"
  by (induction L) auto

lemma amodify_side_wf:
  assumes wf: "wf_side d L" and q: "q \<noteq> 0"
  shows "wf_side d (amodify_side oid q L)"
proof (rule wf_sideI)
  have d: "distinct (map rs_id (orders_of L))" and n: "\<forall>l\<in>set L. snd l \<noteq> []"
    and qs: "\<forall>r\<in>set (orders_of L). rs_qty r \<noteq> 0" using wf by (simp_all add: wf_side_def)
  have dl: "distinct (map rs_id R)" if "(p, R) \<in> set L" for p R
    using d that unfolding orders_of_def by (induction L) auto
  have "amodify_queue oid q R \<noteq> []" if "(p, R) \<in> set L" for p R
  proof -
    have "size (mset (map rs_id (amodify_queue oid q R))) = size (mset (map rs_id R))"
      using amodify_queue_ids [OF dl [OF that]] by simp
    then have "length (amodify_queue oid q R) = length R" by simp
    with n that show ?thesis by auto
  qed
  then show "\<forall>l\<in>set (amodify_side oid q L). snd l \<noteq> []" by auto
  show "\<forall>r\<in>set (orders_of (amodify_side oid q L)). rs_qty r \<noteq> 0"
  proof -
    have "rs_qty r \<noteq> 0" if "(p, R) \<in> set L" "r \<in> set (amodify_queue oid q R)" for p R r
      using that qs in_orders_of [OF that(1)] by (intro amodify_queue_qty [OF q _ that(2)]) auto
    then show ?thesis unfolding orders_of_def by auto
  qed
  show "distinct (map rs_id (orders_of (amodify_side oid q L)))"
    using mset_eq_imp_distinct_iff [OF amodify_side_ids [OF d]] d by simp
qed (use wf in \<open>simp_all only: wf_side_def amodify_side_prices length_map\<close>)

lemma amodify_wf:
  assumes wf: "wf_abook A" and q: "q \<noteq> 0"
  shows "wf_abook (\<lambda>d. amodify_side oid q (A d))"
proof (rule wf_abookI [of True])
  have ms: "mset (map rs_id (orders_of (amodify_side oid q (A d)))) = mset (map rs_id (orders_of (A d)))" for d
    by (rule amodify_side_ids [OF wf_sideD(5) [OF wf]])
  have len: "length (orders_of (amodify_side oid q (A d))) = length (orders_of (A d))" for d
    using arg_cong [OF ms [of d], of size] by simp
  have ids: "rs_id ` set (orders_of (amodify_side oid q (A d))) = rs_id ` set (orders_of (A d))" for d
    using arg_cong [OF ms [of d], of set_mset] by simp
  show "wf_side True (amodify_side oid q (A True))" "wf_side (\<not> True) (amodify_side oid q (A (\<not> True)))"
    using wf_abook_side [OF wf] amodify_side_wf [OF _ q] by blast+
  show "rs_id ` set (orders_of (amodify_side oid q (A True))) \<inter> rs_id ` set (orders_of (amodify_side oid q (A (\<not> True)))) = {}"
    unfolding ids using wf_sideD(6) [OF wf, of True] .
  show "num_orders (\<lambda>d. amodify_side oid q (A d)) \<le> kMaxOrders"
    using wf_sideD(7) [OF wf] unfolding num_orders_def len .
qed

section \<open>The book never crosses\<close>

lemma amatch_rest:
  "amatch cr acct q L = (fs, q', L', False) \<Longrightarrow> q' \<noteq> 0 \<Longrightarrow> L' = [] \<or> \<not> cr (fst (hd L'))"
proof (induction L arbitrary: q fs q' L')
  case (Cons l L)
  obtain p R where l: "l = (p, R)" by force
  from Cons.prems(1) [unfolded l] show ?case
    by (cases rule: amatch_cases) (use Cons.IH Cons.prems(2) in auto)
qed simp

lemma crosses_mono:
  assumes "better (\<not> is_buy o1) p p'" "\<not> crosses o1 p"
  shows "\<not> crosses o1 p'"
  using assms by (auto simp: better_def crosses_def split: if_splits)

lemma amatch_rest_all:
  assumes "amatch (crosses o1) acct q L = (fs, q', L', False)" "q' \<noteq> 0" "ordered (\<not> is_buy o1) (prices_of L')"
  shows "\<forall>p\<in>set (prices_of L'). \<not> crosses o1 p"
proof (cases L')
  case (Cons l M)
  then have "\<not> crosses o1 (fst l)" using amatch_rest [OF assms(1,2)] by simp
  with Cons assms(3) crosses_mono show ?thesis by (auto simp: ordered_Cons)
qed simp

lemma uncrossed_alt:
  "uncrossed A \<longleftrightarrow> (\<forall>p\<in>set (prices_of (A d)). \<forall>p'\<in>set (prices_of (A (\<not> d))). better (\<not> d) p p')"
  by (cases d) (auto simp: uncrossed_def better_def)

lemma uncrossed_subset:
  assumes "uncrossed A" "set (prices_of (B True)) \<subseteq> set (prices_of (A True))"
    "set (prices_of (B False)) \<subseteq> set (prices_of (A False))"
  shows "uncrossed B"
  using assms unfolding uncrossed_def by blast

lemma aadd_uncrossed:
  assumes wf: "wf_abook A" and un: "uncrossed A" and add: "aadd A o1 = (ok, A', fs)"
  shows "uncrossed A'"
proof -
  let ?d = "is_buy o1"
  obtain gs q L w where am: "amatch (crosses o1) (ord_account o1) (ord_qty_remaining o1) (A (\<not> ?d)) = (gs, q, L, w)"
    by (metis prod_cases4)
  let ?A1 = "A(\<not> ?d := L)"
  let ?A2 = "?A1(?d := ainsert ?d (ord_price o1) \<lparr>rs_id = ord_id o1, rs_qty = q, rs_acct = ord_account o1\<rparr> (A ?d))"
  obtain Y where Y: "prices_of (A (\<not> ?d)) = Y @ prices_of L" using amatch_suffix [OF am] by blast
  then have sub: "set (prices_of L) \<subseteq> set (prices_of (A (\<not> ?d)))" by (metis Un_upper2 set_append)
  have un1: "uncrossed ?A1"
    using un sub unfolding uncrossed_alt [of _ ?d] by (simp del: set_map) blast
  have "A' = A \<or> A' = ?A1 \<or> q \<noteq> 0 \<and> \<not> w \<and> ord_type o1 \<noteq> Market \<and> A' = ?A2"
    using add unfolding aadd_def Let_def am prod.case by (simp split: if_splits del: fun_upd_apply)
  then consider "A' = A" | "A' = ?A1" | "q \<noteq> 0" "\<not> w" "ord_type o1 \<noteq> Market" "A' = ?A2" by blast
  then show ?thesis
  proof cases
    case 3
    have "amatch (crosses o1) (ord_account o1) (ord_qty_remaining o1) (A (\<not> ?d)) = (gs, q, L, False)"
      using am 3(2) by simp
    moreover have "ordered (\<not> ?d) (prices_of L)"
      using wf_sideD(1) [OF wf, of "\<not> ?d"] Y by (simp add: ordered_append)
    ultimately have nc: "\<forall>p\<in>set (prices_of L). \<not> crosses o1 p" using amatch_rest_all 3(1) by blast
    have "better (\<not> ?d) (ord_price o1) p" if "p \<in> set (prices_of L)" for p
      using nc that 3(3) by (auto simp: crosses_def better_def simp del: set_map split: if_splits)
    moreover have "\<forall>p\<in>set (prices_of (A ?d)). \<forall>p'\<in>set (prices_of L). better (\<not> ?d) p p'"
      using un sub unfolding uncrossed_alt [of _ ?d] by (simp del: set_map) blast
    ultimately show ?thesis
      unfolding 3(4) uncrossed_alt [of _ ?d] by (simp add: ainsert_prices del: set_map)
  qed (use un un1 in simp_all)
qed

lemma acancel_uncrossed:
  assumes "wf_abook A" "uncrossed A"
  shows "uncrossed (\<lambda>d. acancel_side oid (A d))"
  using sublist_ordered [OF wf_sideD(1) [OF assms(1)]] by (intro uncrossed_subset [OF assms(2)]) blast+

lemma amodify_uncrossed: "uncrossed A \<Longrightarrow> uncrossed (\<lambda>d. amodify_side oid q (A d))"
  by (rule uncrossed_subset) (simp_all only: amodify_side_prices, simp_all)

section \<open>Sequences of commands\<close>

datatype book_cmd = AddCmd order | CancelCmd order_id | ModifyCmd order_id qty

text \<open>One command on the code's book: its result and the reports it emits.\<close>

fun book_step :: "order_book \<Rightarrow> book_cmd \<Rightarrow> (order_book \<times> bool \<times> exec_report list) option" where
  "book_step b (AddCmd o1) = Option.bind (add_order b o1) (\<lambda>(ok, b', rs). Some (b', ok, rs))"
| "book_step b (CancelCmd oid) = Option.bind (cancel_order b oid) (\<lambda>(ok, b'). Some (b', ok, []))"
| "book_step b (ModifyCmd oid q) = Option.bind (modify_order b oid q) (\<lambda>(ok, b'). Some (b', ok, []))"

fun book_run :: "order_book \<Rightarrow> book_cmd list \<Rightarrow> (order_book \<times> (bool \<times> exec_report list) list) option" where
  "book_run b [] = Some (b, [])"
| "book_run b (c # cs) = Option.bind (book_step b c) (\<lambda>(b', ok, rs).
     Option.bind (book_run b' cs) (\<lambda>(b'', outs). Some (b'', (ok, rs) # outs)))"

fun abook_step :: "symbol_id \<Rightarrow> abook \<Rightarrow> book_cmd \<Rightarrow> abook \<times> bool \<times> exec_report list" where
  "abook_step symb A (AddCmd o1) = (let (ok, A', fs) = aadd A o1 in (A', ok, reports symb o1 fs))"
| "abook_step symb A (CancelCmd oid) = (let (ok, A') = acancel A oid in (A', ok, []))"
| "abook_step symb A (ModifyCmd oid q) = (let (ok, A') = amodify A oid q in (A', ok, []))"

fun abook_run :: "symbol_id \<Rightarrow> abook \<Rightarrow> book_cmd list \<Rightarrow> abook \<times> (bool \<times> exec_report list) list" where
  "abook_run symb A [] = (A, [])"
| "abook_run symb A (c # cs) = (let (A', ok, rs) = abook_step symb A c;
     (A'', outs) = abook_run symb A' cs in (A'', (ok, rs) # outs))"

text \<open>An added order does not reuse the id of an order that is still resting.\<close>

definition cmd_fresh :: "abook \<Rightarrow> book_cmd \<Rightarrow> bool" where
  "cmd_fresh A c = (case c of AddCmd o1 \<Rightarrow> ord_id o1 \<notin> all_ids A | _ \<Rightarrow> True)"

fun run_fresh :: "symbol_id \<Rightarrow> abook \<Rightarrow> book_cmd list \<Rightarrow> bool" where
  "run_fresh symb A [] \<longleftrightarrow> True"
| "run_fresh symb A (c # cs) \<longleftrightarrow> cmd_fresh A c \<and> run_fresh symb (fst (abook_step symb A c)) cs"

definition good_book :: "order_book \<Rightarrow> abook \<Rightarrow> bool" where
  "good_book b A \<longleftrightarrow> refines b A \<and> wf_abook A \<and> uncrossed A"

lemma acancel_good:
  assumes "wf_abook A" "uncrossed A" "acancel A oid = (ok, A')"
  shows "wf_abook A' \<and> uncrossed A'"
proof -
  have "A' = A \<or> A' = (\<lambda>d. acancel_side oid (A d))" using assms(3) by (auto simp: acancel_def split: if_splits)
  then show ?thesis
    using assms(1,2) acancel_wf [OF assms(1), of oid] acancel_uncrossed [OF assms(1,2), of oid] by blast
qed

lemma amodify_good:
  assumes "wf_abook A" "uncrossed A" "amodify A oid q = (ok, A')"
  shows "wf_abook A' \<and> uncrossed A'"
proof -
  have "A' = A \<or> A' = (\<lambda>d. acancel_side oid (A d)) \<or> q \<noteq> 0 \<and> A' = (\<lambda>d. amodify_side oid q (A d))"
    using assms(3) by (auto simp: amodify_def split: if_splits)
  then show ?thesis
    using assms(1,2) acancel_wf [OF assms(1), of oid] acancel_uncrossed [OF assms(1,2), of oid]
      amodify_wf [OF assms(1), of q oid] amodify_uncrossed [OF assms(2), of oid q] by blast
qed

lemma book_step_good:
  assumes g: "good_book b A" and f: "cmd_fresh A c" and s: "abook_step (ob_symbol b) A c = (A', ok, rs)"
  shows "\<exists>b'. book_step b c = Some (b', ok, rs) \<and> good_book b' A' \<and> ob_symbol b' = ob_symbol b"
proof -
  have R: "refines b A" "wf_abook A" "uncrossed A" using g by (simp_all add: good_book_def)
  show ?thesis
  proof (cases c)
    case (AddCmd o1)
    obtain ok1 A1 fs where add: "aadd A o1 = (ok1, A1, fs)" by (metis prod_cases3)
    have fr: "ord_id o1 \<notin> all_ids A" using f AddCmd by (simp add: cmd_fresh_def)
    from s AddCmd add have eqs: "ok = ok1" "A' = A1" "rs = reports (ob_symbol b) o1 fs" by auto
    from add_order_refines [OF R(1,2) fr add] aadd_wf [OF R(2) fr add] aadd_uncrossed [OF R(2,3) add]
    show ?thesis by (auto simp: AddCmd good_book_def eqs)
  next
    case (CancelCmd oid)
    obtain ok1 A1 where c1: "acancel A oid = (ok1, A1)" by force
    from s CancelCmd c1 have eqs: "ok = ok1" "A' = A1" "rs = []" by auto
    from cancel_order_refines [OF R(1,2) c1] acancel_good [OF R(2,3) c1]
    show ?thesis by (auto simp: CancelCmd good_book_def eqs)
  next
    case (ModifyCmd oid q)
    obtain ok1 A1 where c1: "amodify A oid q = (ok1, A1)" by force
    from s ModifyCmd c1 have eqs: "ok = ok1" "A' = A1" "rs = []" by auto
    from modify_order_refines [OF R(1,2) c1] amodify_good [OF R(2,3) c1]
    show ?thesis by (auto simp: ModifyCmd good_book_def eqs)
  qed
qed

lemma book_run_good:
  assumes "good_book b A" "run_fresh (ob_symbol b) A cs" "abook_run (ob_symbol b) A cs = (A', outs)"
  shows "\<exists>b'. book_run b cs = Some (b', outs) \<and> good_book b' A' \<and> ob_symbol b' = ob_symbol b"
  using assms
proof (induction cs arbitrary: b A outs)
  case (Cons c cs)
  obtain A1 ok rs where st: "abook_step (ob_symbol b) A c = (A1, ok, rs)" by (metis prod_cases3)
  from book_step_good [OF Cons.prems(1) _ st] Cons.prems(2) obtain b1 where
    b1: "book_step b c = Some (b1, ok, rs)" "good_book b1 A1" "ob_symbol b1 = ob_symbol b" by auto
  obtain outs1 where r: "abook_run (ob_symbol b1) A1 cs = (A', outs1)" "outs = (ok, rs) # outs1"
    using Cons.prems(3) st b1(3) by (auto split: prod.splits)
  have "run_fresh (ob_symbol b1) A1 cs" using Cons.prems(2) st b1(3) by simp
  from Cons.IH [OF b1(2) this r(1)] b1 r(2) show ?case by auto
qed simp

lemma good_book_init: "good_book (book_init symb) abook_init"
  unfolding good_book_def
  by (intro conjI book_init_refines)
    (simp_all add: wf_abook_def wf_side_def uncrossed_def abook_init_def num_orders_def)

lemma ob_symbol_init [simp]: "ob_symbol (book_init symb) = symb"
  by (simp add: book_init_def)

section \<open>Reports\<close>

lemma reports_fills:
  "map (\<lambda>r. (er_contra_order_id r, er_exec_price r, er_exec_qty r)) (reports symb o1 fs) = fs"
  by (induction fs arbitrary: o1) (auto simp: report_def)

lemma reports_mem:
  assumes "r \<in> set (reports symb o1 fs)"
  shows "(er_contra_order_id r, er_exec_price r, er_exec_qty r) \<in> set fs"
proof -
  have "(er_contra_order_id r, er_exec_price r, er_exec_qty r)
      \<in> set (map (\<lambda>r. (er_contra_order_id r, er_exec_price r, er_exec_qty r)) (reports symb o1 fs))"
    unfolding set_map using assms by (rule imageI)
  then show ?thesis unfolding reports_fills .
qed

lemma reports_total:
  "sum_list (map (\<lambda>r. unat (er_exec_qty r)) (reports symb o1 fs)) = fill_total fs"
  by (induction fs arbitrary: o1) (auto simp: report_def)

end
