(* ===== verification/Book_Spec.thy ===== *)
theory Book_Spec
  imports Book_Props
begin

text \<open>
  What \<^verbatim>\<open>OrderBook\<close> guarantees, stated over the code's own operations: runs of commands,
  conservation of quantity, price-time priority, fill-or-kill, self-trade prevention, cancel,
  modify and quotes.
\<close>

section \<open>A book to evaluate on\<close>

text \<open>Three asks of two accounts on two levels, as \<^verbatim>\<open>add_order\<close> leaves them.\<close>

definition demo_order :: "order_id \<Rightarrow> side \<Rightarrow> order_type \<Rightarrow> price \<Rightarrow> qty \<Rightarrow> u32 \<Rightarrow> order" where
  "demo_order oid sd ty p q acct = \<lparr>ord_id = oid, ord_price = p, ord_qty = q, ord_qty_remaining = q,
     ord_symbol = 7, ord_side = sd, ord_type = ty, ord_status = StatusNew, ord_account = acct\<rparr>"

definition demo_cmds :: "book_cmd list" where
  "demo_cmds = [AddCmd (demo_order 1 Sell Limit 101 30 1), AddCmd (demo_order 2 Sell Limit 100 10 1),
     AddCmd (demo_order 3 Sell Limit 100 20 2)]"

definition demo_abook :: abook where
  "demo_abook = (\<lambda>_. [])(True := [], False :=
     [(100, [\<lparr>rs_id = 2, rs_qty = 10, rs_acct = 1\<rparr>, \<lparr>rs_id = 3, rs_qty = 20, rs_acct = 2\<rparr>]),
      (101, [\<lparr>rs_id = 1, rs_qty = 30, rs_acct = 1\<rparr>])])"

lemmas demo_simps = demo_order_def demo_cmds_def demo_abook_def abook_init_def aadd_def Let_def is_buy_def
  can_rest_def num_orders_def kMaxLevels_def kMaxOrders_def cmd_fresh_def all_ids_def better_def crosses_def

lemma demo_run: "run_fresh 7 abook_init demo_cmds"
    "abook_run 7 abook_init demo_cmds = (demo_abook, [(True, []), (True, []), (True, [])])"
  by (simp_all add: demo_simps)

lemma demo_good: "\<exists>b. good_book b demo_abook \<and> ob_symbol b = 7"
  using book_run_good [OF good_book_init [of 7], unfolded ob_symbol_init, OF demo_run] by auto

section \<open>Runs of commands\<close>

text \<open>
  C1. Refinement of the whole order book. Whatever commands are sent to a freshly constructed
  book, as long as no added order reuses the id of one still resting, every operation returns,
  the results and execution reports are those of the abstract book (queues of orders, no slots,
  links or hash index), and the final book represents the final abstract book, is well-formed
  and uncrossed.
\<close>

theorem book_run_correct:
  assumes "run_fresh symb abook_init cs" "abook_run symb abook_init cs = (A, outs)"
  shows "\<exists>b. book_run (book_init symb) cs = Some (b, outs) \<and> refines b A \<and> wf_abook A \<and> uncrossed A"
  using book_run_good [OF good_book_init [of symb], unfolded ob_symbol_init, OF assms]
  unfolding good_book_def by blast

theorem book_run_correct_witness:
  "\<exists>b. book_run (book_init 7) demo_cmds = Some (b, [(True, []), (True, []), (True, [])]) \<and>
     refines b demo_abook \<and> wf_abook demo_abook \<and> uncrossed demo_abook"
  by (rule book_run_correct [OF demo_run])

text \<open>
  C2. No crossed book: after any run of commands with fresh ids from an empty book, if both
  sides of the top of the book are present, the quoted bid is below the quoted ask.
\<close>

theorem quote_never_crossed:
  assumes "run_fresh symb abook_init cs"
  shows "\<exists>b outs. book_run (book_init symb) cs = Some (b, outs) \<and>
    (0 < sd_count (ob_bids b) \<and> 0 < sd_count (ob_asks b) \<longrightarrow>
      bq_bid_price (best_quote b) < bq_ask_price (best_quote b))"
proof -
  obtain A outs where ar: "abook_run symb abook_init cs = (A, outs)" by force
  from book_run_good [OF good_book_init [of symb], unfolded ob_symbol_init, OF assms ar] obtain b where
    b: "book_run (book_init symb) cs = Some (b, outs)" "refines b A" "uncrossed A" "ob_symbol b = symb"
    by (auto simp: good_book_def)
  have "bq_bid_price (best_quote b) < bq_ask_price (best_quote b)"
    if "0 < sd_count (ob_bids b)" "0 < sd_count (ob_asks b)"
  proof -
    have "A True \<noteq> []" "A False \<noteq> []"
      using that refines_count [OF b(2), of True] refines_count [OF b(2), of False] by (auto simp: ob_side_def)
    then obtain p R L q S M where A: "A True = (p, R) # L" "A False = (q, S) # M"
      by (metis list.exhaust surj_pair)
    then have "p < q" using b(3) by (simp add: uncrossed_def)
    then show ?thesis using best_quote_refines [OF b(2)] A by (simp add: aquote_def)
  qed
  with b(1) show ?thesis by auto
qed

text \<open>A buy order that trades, and rests with what is left, below the asks.\<close>

lemma demo_two_sides:
  "run_fresh 7 abook_init (demo_cmds @ [AddCmd (demo_order 4 Buy Limit 100 40 3)])"
  "abook_run 7 abook_init (demo_cmds @ [AddCmd (demo_order 4 Buy Limit 100 40 3)]) =
    ((\<lambda>_. [])(True := [(100, [\<lparr>rs_id = 4, rs_qty = 10, rs_acct = 3\<rparr>])], False := [(101, [\<lparr>rs_id = 1, rs_qty = 30, rs_acct = 1\<rparr>])]),
     [(True, []), (True, []), (True, []), (True, reports 7 (demo_order 4 Buy Limit 100 40 3) [(2, 100, 10), (3, 100, 20)])])"
  by (simp_all add: demo_simps priced_def fun_upd_twist)

theorem quote_never_crossed_witness:
  "\<exists>b outs. book_run (book_init 7) (demo_cmds @ [AddCmd (demo_order 4 Buy Limit 100 40 3)]) = Some (b, outs) \<and>
    0 < sd_count (ob_bids b) \<and> 0 < sd_count (ob_asks b) \<and> bq_bid_price (best_quote b) < bq_ask_price (best_quote b)"
proof -
  from book_run_good [OF good_book_init [of 7], unfolded ob_symbol_init, OF demo_two_sides] obtain b where
    b: "book_run (book_init 7) (demo_cmds @ [AddCmd (demo_order 4 Buy Limit 100 40 3)]) = Some (b,
        [(True, []), (True, []), (True, []), (True, reports 7 (demo_order 4 Buy Limit 100 40 3) [(2, 100, 10), (3, 100, 20)])])"
      "refines b ((\<lambda>_. [])(True := [(100, [\<lparr>rs_id = 4, rs_qty = 10, rs_acct = 3\<rparr>])], False := [(101, [\<lparr>rs_id = 1, rs_qty = 30, rs_acct = 1\<rparr>])]))"
    by (auto simp: good_book_def)
  have "0 < sd_count (ob_bids b)" "0 < sd_count (ob_asks b)"
    using refines_count [OF b(2), of True] refines_count [OF b(2), of False] by (simp_all add: ob_side_def)
  with quote_never_crossed [OF demo_two_sides(1)] b(1) show ?thesis by auto
qed

section \<open>Adding\<close>

lemma add_step:
  assumes g: "good_book b A" and f: "ord_id o1 \<notin> all_ids A"
  obtains ok A' fs b' where "aadd A o1 = (ok, A', fs)"
    "add_order b o1 = Some (ok, b', reports (ob_symbol b) o1 fs)" "good_book b' A'"
proof -
  have R: "refines b A" "wf_abook A" "uncrossed A" using g by (simp_all add: good_book_def)
  obtain ok A' fs where add: "aadd A o1 = (ok, A', fs)" by (metis prod_cases3)
  from add_order_refines [OF R(1,2) f add] aadd_wf [OF R(2) f add] aadd_uncrossed [OF R(2,3) add] that add
  show ?thesis by (auto simp: good_book_def)
qed

lemma aadd_cases:
  assumes "aadd A o1 = (ok, A', fs)"
  obtains (killed) "ord_type o1 = FOK" "\<not> ok" "A' = A" "fs = []"
      "aliq (crosses o1) (ord_account o1) (A (\<not> is_buy o1)) < unat (ord_qty_remaining o1)"
  | (matched) q L w where "amatch (crosses o1) (ord_account o1) (ord_qty_remaining o1) (A (\<not> is_buy o1)) = (fs, q, L, w)"
      "A' = A(\<not> is_buy o1 := L)" "ord_type o1 = FOK \<Longrightarrow> ok" "ord_type o1 = FOK \<Longrightarrow>
        unat (ord_qty_remaining o1) \<le> aliq (crosses o1) (ord_account o1) (A (\<not> is_buy o1))"
  | (rested) q L w where "amatch (crosses o1) (ord_account o1) (ord_qty_remaining o1) (A (\<not> is_buy o1)) = (fs, q, L, w)"
      "ord_type o1 \<noteq> FOK"
      "A' = (A(\<not> is_buy o1 := L))(is_buy o1 := ainsert (is_buy o1) (ord_price o1)
        \<lparr>rs_id = ord_id o1, rs_qty = q, rs_acct = ord_account o1\<rparr> (A (is_buy o1)))"
proof -
  let ?d = "is_buy o1"
  obtain gs q L w where am: "amatch (crosses o1) (ord_account o1) (ord_qty_remaining o1) (A (\<not> ?d)) = (gs, q, L, w)"
    by (metis prod_cases4)
  define kill where "kill = (ord_type o1 = FOK \<and>
    aliq (crosses o1) (ord_account o1) (A (\<not> ?d)) < unat (ord_qty_remaining o1))"
  have "kill \<and> \<not> ok \<and> A' = A \<and> fs = [] \<or>
      \<not> kill \<and> fs = gs \<and> (A' = A(\<not> ?d := L) \<and> (ord_type o1 = FOK \<longrightarrow> ok) \<or>
        ord_type o1 \<noteq> FOK \<and> A' = (A(\<not> ?d := L))(?d := ainsert ?d (ord_price o1)
        \<lparr>rs_id = ord_id o1, rs_qty = q, rs_acct = ord_account o1\<rparr> (A ?d)))"
    using assms unfolding aadd_def Let_def am prod.case kill_def [symmetric]
    by (simp split: if_splits del: fun_upd_apply)
  then show ?thesis
  proof (elim disjE conjE)
    assume "kill" "\<not> ok" "A' = A" "fs = []"
    then show ?thesis using killed unfolding kill_def by blast
  next
    assume "\<not> kill" "fs = gs" "A' = A(\<not> ?d := L)" "ord_type o1 = FOK \<longrightarrow> ok"
    then show ?thesis using matched [of q L w] am unfolding kill_def by (meson not_less)
  next
    assume "fs = gs" "ord_type o1 \<noteq> FOK" "A' = (A(\<not> ?d := L))(?d := ainsert ?d (ord_price o1)
        \<lparr>rs_id = ord_id o1, rs_qty = q, rs_acct = ord_account o1\<rparr> (A ?d))"
    then show ?thesis using rested [of q L w] am by blast
  qed
qed

text \<open>
  C3. Quantity conservation. On a good book an add with a fresh id returns; the reported
  executions never exceed the incoming quantity, are exactly what the passive side loses, and
  the aggressor's own side gains either nothing or exactly the unexecuted remainder.
\<close>

theorem add_order_conserves:
  assumes "good_book b A" "ord_id o1 \<notin> all_ids A"
  shows "\<exists>ok b' rs A'. add_order b o1 = Some (ok, b', rs) \<and> good_book b' A' \<and>
    (let filled = sum_list (map (\<lambda>r. unat (er_exec_qty r)) rs);
         own = open_qty (orders_of (A (is_buy o1))); own' = open_qty (orders_of (A' (is_buy o1)))
     in filled \<le> unat (ord_qty_remaining o1) \<and>
        open_qty (orders_of (A (\<not> is_buy o1))) = open_qty (orders_of (A' (\<not> is_buy o1))) + filled \<and>
        (own' = own \<or> own' + filled = own + unat (ord_qty_remaining o1)))"
proof -
  from add_step [OF assms] obtain ok A' fs b' where ad: "aadd A o1 = (ok, A', fs)"
    "add_order b o1 = Some (ok, b', reports (ob_symbol b) o1 fs)" "good_book b' A'" .
  have "fill_total fs \<le> unat (ord_qty_remaining o1) \<and>
      open_qty (orders_of (A (\<not> is_buy o1))) = open_qty (orders_of (A' (\<not> is_buy o1))) + fill_total fs \<and>
      (open_qty (orders_of (A' (is_buy o1))) = open_qty (orders_of (A (is_buy o1))) \<or>
       open_qty (orders_of (A' (is_buy o1))) + fill_total fs =
         open_qty (orders_of (A (is_buy o1))) + unat (ord_qty_remaining o1))"
    using ad(1)
  proof (cases rule: aadd_cases)
    case killed
    then show ?thesis by simp
  next
    case (matched q L w)
    then show ?thesis using amatch_conserve [OF matched(1)] by auto
  next
    case (rested q L w)
    have "open_qty (orders_of (ainsert d p r M)) = open_qty (orders_of M) + unat (rs_qty r)" for d p r M
      using arg_cong [OF ainsert_mset [of d p r M], of "\<lambda>m. sum_mset (image_mset (\<lambda>r. unat (rs_qty r)) m)"]
      by (simp add: open_qty_def sum_mset_sum_list flip: mset_map)
    then show ?thesis using amatch_conserve [OF rested(1)] rested(3) by auto
  qed
  then show ?thesis using ad(2,3) by (auto simp: Let_def reports_total)
qed

theorem add_order_conserves_witness:
  "\<exists>b ok b' rs A'. good_book b demo_abook \<and> add_order b (demo_order 9 Buy Limit 100 50 3) = Some (ok, b', rs) \<and>
    good_book b' A' \<and> sum_list (map (\<lambda>r. unat (er_exec_qty r)) rs) \<le> 50"
proof -
  obtain b where b: "good_book b demo_abook" using demo_good by blast
  have "ord_id (demo_order 9 Buy Limit 100 50 3) \<notin> all_ids demo_abook" by (simp add: demo_simps)
  from add_order_conserves [OF b this] b show ?thesis
    by (fastforce simp: Let_def demo_order_def)
qed

text \<open>
  C4. Price-time priority. The executions of an add run through the opposite side best price
  first and in arrival order within a price, filling each resting order whole before the next
  one, and only at prices the incoming order accepts.
\<close>

theorem add_order_price_time:
  assumes "good_book b A" "ord_id o1 \<notin> all_ids A"
  shows "\<exists>ok b' rs. add_order b o1 = Some (ok, b', rs) \<and>
    prefix_filled (map (\<lambda>r. (er_contra_order_id r, er_exec_price r, er_exec_qty r)) rs)
      (side_seq (A (\<not> is_buy o1))) \<and>
    (\<forall>r\<in>set rs. crosses o1 (er_exec_price r))"
proof -
  from add_step [OF assms] obtain ok A' fs b' where ad: "aadd A o1 = (ok, A', fs)"
    "add_order b o1 = Some (ok, b', reports (ob_symbol b) o1 fs)" "good_book b' A'" .
  have "prefix_filled fs (side_seq (A (\<not> is_buy o1))) \<and> (\<forall>(c, p, f)\<in>set fs. crosses o1 p)"
    using ad(1)
  proof (cases rule: aadd_cases)
    case (matched q L w)
    then show ?thesis using amatch_priority [OF matched(1)] amatch_crosses [OF matched(1)] by blast
  next
    case (rested q L w)
    then show ?thesis using amatch_priority [OF rested(1)] amatch_crosses [OF rested(1)] by blast
  qed simp
  then have "prefix_filled fs (side_seq (A (\<not> is_buy o1)))"
    "\<forall>r\<in>set (reports (ob_symbol b) o1 fs). crosses o1 (er_exec_price r)"
    by (auto dest: reports_mem)
  with ad(2) show ?thesis by (simp add: reports_fills)
qed

theorem add_order_price_time_witness:
  "\<exists>b ok b' rs. good_book b demo_abook \<and> add_order b (demo_order 9 Buy Limit 100 50 3) = Some (ok, b', rs) \<and>
    prefix_filled (map (\<lambda>r. (er_contra_order_id r, er_exec_price r, er_exec_qty r)) rs)
      [(2, 100, 10), (3, 100, 20), (1, 101, 30)]"
proof -
  obtain b where b: "good_book b demo_abook" using demo_good by blast
  have "ord_id (demo_order 9 Buy Limit 100 50 3) \<notin> all_ids demo_abook" by (simp add: demo_simps)
  from add_order_price_time [OF b this] b show ?thesis
    by (auto simp: demo_abook_def demo_order_def is_buy_def)
qed

text \<open>
  C5. Fill-or-kill is all or none. A rejected FOK executes nothing and leaves the book as it
  was; an accepted FOK executes exactly its quantity, self-trade prevention included.
\<close>

theorem fok_all_or_none:
  assumes "good_book b A" "ord_id o1 \<notin> all_ids A" "ord_type o1 = FOK"
  shows "\<exists>ok b' rs. add_order b o1 = Some (ok, b', rs) \<and>
    (if ok then sum_list (map (\<lambda>r. unat (er_exec_qty r)) rs) = unat (ord_qty_remaining o1)
     else rs = [] \<and> refines b' A)"
proof -
  from add_step [OF assms(1,2)] obtain ok A' fs b' where ad: "aadd A o1 = (ok, A', fs)"
    "add_order b o1 = Some (ok, b', reports (ob_symbol b) o1 fs)" "good_book b' A'" .
  have "if ok then fill_total fs = unat (ord_qty_remaining o1) else fs = [] \<and> A' = A"
    using ad(1)
  proof (cases rule: aadd_cases)
    case killed
    then show ?thesis by simp
  next
    case (matched q L w)
    have "q = 0" using amatch_liquidity [OF matched(1) matched(4) [OF assms(3)]] .
    with amatch_conserve [OF matched(1)] matched(3) [OF assms(3)] show ?thesis by simp
  next
    case (rested q L w)
    with assms(3) show ?thesis by simp
  qed
  then show ?thesis using ad(2,3) by (cases ok) (auto simp: reports_total good_book_def)
qed

theorem fok_all_or_none_witness:
  "\<exists>b ok b' rs. good_book b demo_abook \<and> add_order b (demo_order 9 Buy FOK 101 45 3) = Some (ok, b', rs) \<and>
    (if ok then sum_list (map (\<lambda>r. unat (er_exec_qty r)) rs) = 45 else rs = [])"
proof -
  obtain b where b: "good_book b demo_abook" using demo_good by blast
  have "ord_id (demo_order 9 Buy FOK 101 45 3) \<notin> all_ids demo_abook"
    "ord_type (demo_order 9 Buy FOK 101 45 3) = FOK" by (simp_all add: demo_simps)
  from fok_all_or_none [OF b this] b show ?thesis
    by (fastforce simp: demo_order_def split: if_splits)
qed

text \<open>
  C6. Self-trade prevention. No execution of an order that carries an account is against a
  resting order of the same account.
\<close>

theorem no_self_trade:
  assumes "good_book b A" "ord_id o1 \<notin> all_ids A" "ord_account o1 \<noteq> 0"
  shows "\<exists>ok b' rs. add_order b o1 = Some (ok, b', rs) \<and>
    (\<forall>r\<in>set rs. \<exists>x\<in>set (orders_of (A (\<not> is_buy o1))).
      rs_id x = er_contra_order_id r \<and> rs_acct x \<noteq> ord_account o1)"
proof -
  from add_step [OF assms(1,2)] obtain ok A' fs b' where ad: "aadd A o1 = (ok, A', fs)"
    "add_order b o1 = Some (ok, b', reports (ob_symbol b) o1 fs)" "good_book b' A'" .
  have d: "distinct (map rs_id (orders_of (A (\<not> is_buy o1))))"
    using assms(1) wf_sideD(5) by (simp add: good_book_def)
  have "\<exists>x\<in>set (orders_of (A (\<not> is_buy o1))). rs_id x = c \<and> rs_acct x \<noteq> ord_account o1"
    if "c \<in> fst ` set fs" for c
    using ad(1)
  proof (cases rule: aadd_cases)
    case killed
    with that show ?thesis by simp
  next
    case (matched q L w)
    from amatch_no_self [OF matched(1) assms(3) d that] show ?thesis .
  next
    case (rested q L w)
    from amatch_no_self [OF rested(1) assms(3) d that] show ?thesis .
  qed
  moreover have "er_contra_order_id r \<in> fst ` set fs" if "r \<in> set (reports (ob_symbol b) o1 fs)" for r
    using reports_mem [OF that] by force
  ultimately have "\<forall>r\<in>set (reports (ob_symbol b) o1 fs). \<exists>x\<in>set (orders_of (A (\<not> is_buy o1))).
      rs_id x = er_contra_order_id r \<and> rs_acct x \<noteq> ord_account o1" by simp
  with ad(2) show ?thesis by simp
qed

theorem no_self_trade_witness:
  "\<exists>b ok b' rs. good_book b demo_abook \<and> add_order b (demo_order 9 Buy Limit 101 45 2) = Some (ok, b', rs) \<and>
    (\<forall>r\<in>set rs. er_contra_order_id r \<noteq> 3)"
proof -
  obtain b where b: "good_book b demo_abook" using demo_good by blast
  have "ord_id (demo_order 9 Buy Limit 101 45 2) \<notin> all_ids demo_abook"
    "ord_account (demo_order 9 Buy Limit 101 45 2) \<noteq> 0" by (simp_all add: demo_simps)
  from no_self_trade [OF b this] obtain ok b' rs where r:
    "add_order b (demo_order 9 Buy Limit 101 45 2) = Some (ok, b', rs)"
    "\<forall>r\<in>set rs. \<exists>x\<in>set (orders_of (demo_abook False)). rs_id x = er_contra_order_id r \<and> rs_acct x \<noteq> 2"
    by (auto simp: demo_order_def is_buy_def)
  have "\<forall>x\<in>set (orders_of (demo_abook False)). rs_acct x \<noteq> 2 \<longrightarrow> rs_id x \<noteq> 3"
    by (simp add: demo_abook_def)
  with r b show ?thesis by metis
qed

section \<open>Cancelling and modifying\<close>

text \<open>
  C7. Cancel. Cancelling returns whether the order was resting; afterwards the book is the old
  one without that order and without a level it leaves empty, every other order keeps its place,
  and cancelling the same id again returns false and changes nothing.
\<close>

theorem cancel_order_correct:
  assumes "good_book b A"
  shows "\<exists>b'. cancel_order b oid = Some (oid \<in> all_ids A, b') \<and>
    good_book b' (\<lambda>d. acancel_side oid (A d)) \<and> cancel_order b' oid = Some (False, b')"
proof -
  have R: "refines b A" "wf_abook A" "uncrossed A" using assms by (simp_all add: good_book_def)
  let ?B = "\<lambda>d. acancel_side oid (A d)"
  have B: "acancel A oid = (oid \<in> all_ids A, ?B)"
  proof (cases "oid \<in> all_ids A")
    case False
    have "acancel_side oid (A d) = A d" for d
    proof (rule acancel_side_other)
      show "oid \<notin> rs_id ` set (orders_of (A d))" using False unfolding all_ids_alt [of A d] by blast
    qed (rule wf_sideD(3) [OF R(2)])
    then have "?B = A" by blast
    with False show ?thesis by (simp add: acancel_def)
  qed (simp add: acancel_def)
  from cancel_order_refines [OF R(1,2) B] obtain b' where
    b': "cancel_order b oid = Some (oid \<in> all_ids A, b')" "refines b' ?B" by blast
  have g: "wf_abook ?B" "uncrossed ?B" using acancel_wf [OF R(2)] acancel_uncrossed [OF R(2,3)] .
  have gone: "oid \<notin> all_ids ?B" by (auto simp: all_ids_def orders_acancel)
  obtain lv F where core: "core b' lv F" "?B = (\<lambda>d. abs_levels (ob_slots b') (lv d))"
    using b'(2) by (auto simp: refines_def)
  from index_find(1) [OF core g(1) gone] have "cancel_order b' oid = Some (False, b')"
    by (simp add: cancel_order_def)
  with b' g show ?thesis by (auto simp: good_book_def)
qed

theorem cancel_order_correct_witness:
  "\<exists>b b'. good_book b demo_abook \<and> cancel_order b 2 = Some (True, b') \<and> cancel_order b' 2 = Some (False, b')"
proof -
  obtain b where b: "good_book b demo_abook" using demo_good by blast
  have "2 \<in> all_ids demo_abook" by (simp add: demo_simps)
  with cancel_order_correct [OF b, of 2] b show ?thesis by auto
qed

text \<open>
  C8. Modify. A resting order given more quantity moves behind every other order of its price
  level; given less (but not zero) it keeps its place; nothing else in the book changes.
\<close>

theorem modify_order_priority:
  assumes "good_book b A" "A d = X @ (p, R1 @ r # R2) # Y" "new_qty \<noteq> 0"
  shows "\<exists>b'. modify_order b (rs_id r) new_qty = Some (True, b') \<and>
    good_book b' (A(d := X @ (p, if new_qty > rs_qty r then R1 @ R2 @ [r\<lparr>rs_qty := new_qty\<rparr>]
      else R1 @ r\<lparr>rs_qty := new_qty\<rparr> # R2) # Y))"
proof -
  have R: "refines b A" "wf_abook A" "uncrossed A" using assms(1) by (simp_all add: good_book_def)
  have "rs_id r \<in> all_ids A" unfolding all_ids_alt [of A d] using assms(2) by simp
  then have m: "amodify A (rs_id r) new_qty = (True, \<lambda>e. amodify_side (rs_id r) new_qty (A e))"
    using assms(3) by (simp add: amodify_def)
  from modify_order_refines [OF R(1,2) m] amodify_good [OF R(2,3) m] obtain b' where
    "modify_order b (rs_id r) new_qty = Some (True, b')"
    "good_book b' (\<lambda>e. amodify_side (rs_id r) new_qty (A e))" by (auto simp: good_book_def)
  then show ?thesis unfolding amodify_book [OF R(2) assms(2)] by blast
qed

theorem modify_order_priority_witness:
  "\<exists>b b' B. good_book b demo_abook \<and> modify_order b 2 15 = Some (True, b') \<and> good_book b' B \<and>
    B False = [(100, [\<lparr>rs_id = 3, rs_qty = 20, rs_acct = 2\<rparr>, \<lparr>rs_id = 2, rs_qty = 15, rs_acct = 1\<rparr>]),
      (101, [\<lparr>rs_id = 1, rs_qty = 30, rs_acct = 1\<rparr>])]"
proof -
  obtain b where b: "good_book b demo_abook" using demo_good by blast
  have "demo_abook False = [] @ (100, [] @ \<lparr>rs_id = 2, rs_qty = 10, rs_acct = 1\<rparr> #
      [\<lparr>rs_id = 3, rs_qty = 20, rs_acct = 2\<rparr>]) # [(101, [\<lparr>rs_id = 1, rs_qty = 30, rs_acct = 1\<rparr>])]"
    by (simp add: demo_abook_def)
  from modify_order_priority [OF b this, of 15] b show ?thesis by fastforce
qed

section \<open>Market data the book publishes\<close>

lemma refines_column:
  assumes "refines b A" "i < length (A d)"
  shows "sd_prices (ob_side b d) i = fst (A d ! i)" "sd_qtys (ob_side b d) i = level_qty (snd (A d ! i))"
    "sd_order_counts (ob_side b d) i = of_nat (length (snd (A d ! i)))"
proof -
  obtain lv F where core: "core b lv F" and A: "A = (\<lambda>d. abs_levels (ob_slots b) (lv d))"
    using assms(1) by (auto simp: refines_def)
  have i: "i < length (lv d)" "i < sd_count (ob_side b d)"
    using assms(2) core_count [OF core, of d] by (simp_all add: A)
  have "lvl_ok (ob_slots b) (lev (ob_side b d) i) (lv d ! i)"
    using list_all2_nthD [OF coreD(1) [OF core, unfolded side_ok_def], of i d] i by simp
  then show "sd_prices (ob_side b d) i = fst (A d ! i)" "sd_qtys (ob_side b d) i = level_qty (snd (A d ! i))"
    "sd_order_counts (ob_side b d) i = of_nat (length (snd (A d ! i)))"
    using i(1) by (simp_all add: lvl_ok_def lev_def A abs_levels_def level_qty_def comp_def)
qed

lemma side_depth_refines:
  assumes "refines b A"
  shows "map (\<lambda>l. (pl_price l, pl_total_qty l, pl_order_count l)) (side_depth (ob_side b d) n) =
    map (\<lambda>(p, R). (p, level_qty R, of_nat (length R))) (take n (A d))"
  using refines_column [OF assms] refines_count [OF assms, of d]
  by (intro nth_equalityI) (auto simp: side_depth_def split: prod.splits)

text \<open>
  C9. Quotes and depth. On a good book the best quote is the first level of each side (or the
  invalid price and zero when the side is empty), and the published depth lists, best first,
  price, total quantity (modulo \<open>2 ^ 32\<close>, as the code keeps it) and order count of the levels.
\<close>

theorem quote_and_depth_correct:
  assumes "good_book b A"
  shows "best_quote b = aquote (ob_symbol b) A \<and>
    map (\<lambda>l. (pl_price l, pl_total_qty l, pl_order_count l)) (bid_depth b n) =
      map (\<lambda>(p, R). (p, level_qty R, of_nat (length R))) (take n (A True)) \<and>
    map (\<lambda>l. (pl_price l, pl_total_qty l, pl_order_count l)) (ask_depth b n) =
      map (\<lambda>(p, R). (p, level_qty R, of_nat (length R))) (take n (A False))"
proof -
  have R: "refines b A" using assms by (simp add: good_book_def)
  show ?thesis
    using side_depth_refines [OF R, of True n] side_depth_refines [OF R, of False n] best_quote_refines [OF R]
    by (simp add: bid_depth_def ask_depth_def ob_side_def)
qed

theorem quote_and_depth_correct_witness:
  "\<exists>b. good_book b demo_abook \<and> bq_ask_price (best_quote b) = 100 \<and> bq_ask_qty (best_quote b) = 30 \<and>
    bq_bid_price (best_quote b) = PRICE_INVALID \<and>
    map (\<lambda>l. (pl_price l, pl_total_qty l, pl_order_count l)) (ask_depth b 5) = [(100, 30, 2), (101, 30, 1)]"
proof -
  obtain b where b: "good_book b demo_abook" using demo_good by blast
  from quote_and_depth_correct [OF b, of 5] b show ?thesis
    by (auto simp: demo_abook_def aquote_def level_qty_def)
qed

section \<open>Level search and order index\<close>

text \<open>
  C10. The AVX2 level search (four lanes per step, byte mask, trailing-zero count, scalar tail)
  returns exactly what the scalar search returns, for every array, length and price.
\<close>

theorem find_level_avx2_correct:
  "find_level_avx2 (sd_prices s) (sd_count s) p = find_level s p"
  by (simp add: find_level_avx2_def find_level_def avx2_from_eq)

text \<open>
  C11. The order index is a finite map. On a table satisfying the probing invariant, insertion
  below capacity and backward-shift removal return, keep the invariant, and act as map update
  and deletion on what every later lookup returns.
\<close>

theorem order_index_is_map:
  assumes "index_inv t" "Suc (card (dom (index_abs t))) < kTableSize" "x \<noteq> kEmpty"
  shows "\<exists>t1 t2. index_insert t oid x sd = Some (True, t1) \<and> index_inv t1 \<and>
    (\<forall>k. index_lookup t1 k = Some (if k = oid then Some (x, sd) else index_abs t k)) \<and>
    index_remove t1 oid = Some (True, t2) \<and> index_inv t2 \<and>
    (\<forall>k. index_lookup t2 k = Some (if k = oid then None else index_abs t k))"
proof -
  obtain t1 where t1: "index_insert t oid x sd = Some (True, t1)" "index_inv t1"
    "index_abs t1 = (index_abs t)(oid \<mapsto> (x, sd))"
    using index_insert_correct [OF assms(1,3,2)] by blast
  obtain t2 where t2: "index_remove t1 oid = Some (True, t2)" "index_inv t2"
    "index_abs t2 = (index_abs t1)(oid := None)"
    using index_remove_correct [OF t1(2), of oid] by (auto simp: t1(3))
  have "index_lookup t1 k = Some (if k = oid then Some (x, sd) else index_abs t k)"
    "index_lookup t2 k = Some (if k = oid then None else index_abs t k)" for k
    using index_lookup_returns [OF t1(2), of k] index_lookup_returns [OF t2(2), of k]
    by (simp_all add: t1(3) t2(3))
  with t1 t2 show ?thesis by blast
qed

theorem order_index_is_map_witness:
  "\<exists>t1 t2. index_insert index_init 42 3 1 = Some (True, t1) \<and> index_remove t1 42 = Some (True, t2) \<and>
    index_lookup t1 42 = Some (Some (3, 1)) \<and> index_lookup t2 42 = Some None"
proof -
  have "dom (index_abs index_init) = {}" by auto
  then have "Suc (card (dom (index_abs index_init))) < kTableSize"
    by (simp add: kTableSize_def kMaxOrders_def)
  from order_index_is_map [OF index_inv_init this, of 3 42 1] show ?thesis
    by (fastforce simp: kEmpty_def)
qed

end
