(* ===== verification/Spsc_Queue.thy ===== *)
theory Spsc_Queue
  imports Prelude
begin

text \<open>
  The single-producer single-consumer ring of \<^verbatim>\<open>options-engine/include/core/spsc_queue.hpp\<close>:
  its two operations run one at a time, the interface \<open>bounded_queue\<close> that the clients of a
  queue rely on, and the two threads running concurrently, one atomic access per step, each
  side allowed to see a stale value of the other side's position.
\<close>

section \<open>The ring, one operation at a time\<close>

text \<open>The template parameter \<^verbatim>\<open>Capacity\<close> is the argument \<open>cap\<close>, a power of two above one.\<close>

record 'a spsc =
  sq_buffer :: "nat \<Rightarrow> 'a"
  sq_write_pos :: nat
  sq_read_pos :: nat

definition kMask_of :: "nat \<Rightarrow> nat" where
  "kMask_of cap = cap - 1"

definition cap_ok :: "nat \<Rightarrow> bool" where
  "cap_ok cap \<longleftrightarrow> (\<exists>k. cap = 2 ^ Suc k)"

definition spsc_init :: "'a \<Rightarrow> 'a spsc" where
  "spsc_init x0 = \<lparr>sq_buffer = (\<lambda>_. x0), sq_write_pos = 0, sq_read_pos = 0\<rparr>"

definition next_pos :: "nat \<Rightarrow> nat \<Rightarrow> nat" where
  "next_pos cap p = and (p + 1) (kMask_of cap)"

definition spsc_try_push :: "nat \<Rightarrow> 'a \<Rightarrow> 'a spsc \<Rightarrow> bool \<times> 'a spsc" where
  "spsc_try_push cap item q =
    (let wp = sq_write_pos q; next1 = next_pos cap wp
     in if next1 = sq_read_pos q then (False, q)
        else (True, q\<lparr>sq_buffer := (sq_buffer q)(wp := item), sq_write_pos := next1\<rparr>))"

text \<open>\<open>None\<close> is the code's false, which leaves the caller's \<^verbatim>\<open>out\<close> as it was.\<close>

definition spsc_try_pop :: "nat \<Rightarrow> 'a spsc \<Rightarrow> 'a option \<times> 'a spsc" where
  "spsc_try_pop cap q =
    (let rp = sq_read_pos q
     in if rp = sq_write_pos q then (None, q)
        else (Some (sq_buffer q rp), q\<lparr>sq_read_pos := next_pos cap rp\<rparr>))"

definition spsc_empty :: "'a spsc \<Rightarrow> bool" where
  "spsc_empty q \<longleftrightarrow> sq_read_pos q = sq_write_pos q"

text \<open>\<^verbatim>\<open>(w - r) & kMask\<close> on \<^verbatim>\<open>size_t\<close>, where the difference wraps.\<close>

definition spsc_size_approx :: "nat \<Rightarrow> 'a spsc \<Rightarrow> nat" where
  "spsc_size_approx cap q =
    unat (and ((of_nat (sq_write_pos q) :: u64) - of_nat (sq_read_pos q)) (of_nat (kMask_of cap)))"

section \<open>What a client relies on\<close>

text \<open>
  A bounded queue: \<open>elems\<close> is its content in order; a push is accepted exactly below the
  capacity and appends, a pop takes the front.
\<close>

locale bounded_queue =
  fixes inv :: "'q \<Rightarrow> bool"
    and elems :: "'q \<Rightarrow> 'a list"
    and push :: "'a \<Rightarrow> 'q \<Rightarrow> bool \<times> 'q"
    and pop :: "'q \<Rightarrow> 'a option \<times> 'q"
    and limit :: nat
  assumes push_law: "inv q \<Longrightarrow> push x q = (ok, q') \<Longrightarrow>
      inv q' \<and> ok = (length (elems q) < limit) \<and> elems q' = (if ok then elems q @ [x] else elems q)"
    and pop_law: "inv q \<Longrightarrow> pop q = (r, q') \<Longrightarrow>
      inv q' \<and> r = (case elems q of [] \<Rightarrow> None | x # xs \<Rightarrow> Some x) \<and> elems q' = tl (elems q)"
    and bound: "inv q \<Longrightarrow> length (elems q) \<le> limit"
begin

lemma push_inv: "inv q \<Longrightarrow> inv (snd (push x q))"
  using push_law [of q x] by (cases "push x q") simp

lemma push_elems: "inv q \<Longrightarrow> elems (snd (push x q)) = (if length (elems q) < limit then elems q @ [x] else elems q)"
  using push_law [of q x] by (cases "push x q") auto

lemma push_ok: "inv q \<Longrightarrow> fst (push x q) \<longleftrightarrow> length (elems q) < limit"
  using push_law [of q x] by (cases "push x q") auto

lemma pop_inv: "inv q \<Longrightarrow> inv (snd (pop q))"
  using pop_law [of q] by (cases "pop q") simp

lemma pop_elems: "inv q \<Longrightarrow> elems (snd (pop q)) = tl (elems q)"
  using pop_law [of q] by (cases "pop q") simp

lemma pop_val: "inv q \<Longrightarrow> fst (pop q) = (case elems q of [] \<Rightarrow> None | x # xs \<Rightarrow> Some x)"
  using pop_law [of q] by (cases "pop q") simp

lemma pop_None: "inv q \<Longrightarrow> fst (pop q) = None \<longleftrightarrow> elems q = []"
  by (simp add: pop_val split: list.splits)

text \<open>A sequence of operations, \<open>Some x\<close> a push of \<open>x\<close> and \<open>None\<close> a pop: what was accepted and what came out.\<close>

fun runs :: "'a option list \<Rightarrow> 'q \<Rightarrow> 'a list \<times> 'a list \<times> 'q" where
  "runs [] q = ([], [], q)"
| "runs (Some x # cs) q = (let (ok, q1) = push x q; (ins, outs, q2) = runs cs q1
     in (if ok then x # ins else ins, outs, q2))"
| "runs (None # cs) q = (let (r, q1) = pop q; (ins, outs, q2) = runs cs q1
     in (ins, (case r of None \<Rightarrow> outs | Some y \<Rightarrow> y # outs), q2))"

lemma runs_fifo:
  "inv q \<Longrightarrow> runs cs q = (ins, outs, q') \<Longrightarrow> inv q' \<and> outs @ elems q' = elems q @ ins \<and> length (elems q') \<le> limit"
proof (induction cs q arbitrary: ins outs q' rule: runs.induct)
  case (1 q)
  then show ?case using bound by auto
next
  case (2 x cs q)
  obtain ok q1 where p: "push x q = (ok, q1)" by force
  obtain ins1 outs1 q2 where r: "runs cs q1 = (ins1, outs1, q2)" by (metis prod_cases3)
  have L: "inv q1" "elems q1 = (if ok then elems q @ [x] else elems q)"
    using push_law [OF "2.prems"(1) p] by auto
  have e: "ins = (if ok then x # ins1 else ins1)" "outs = outs1" "q' = q2" using "2.prems"(2) by (simp_all add: p r)
  from "2.IH" [OF p [symmetric] refl L(1) r] L(2) show ?case unfolding e by auto
next
  case (3 cs q)
  obtain v q1 where p: "pop q = (v, q1)" by force
  obtain ins1 outs1 q2 where r: "runs cs q1 = (ins1, outs1, q2)" by (metis prod_cases3)
  have L: "inv q1" "v = (case elems q of [] \<Rightarrow> None | x # xs \<Rightarrow> Some x)" "elems q1 = tl (elems q)"
    using pop_law [OF "3.prems"(1) p] by auto
  have e: "ins = ins1" "outs = (case v of None \<Rightarrow> outs1 | Some y \<Rightarrow> y # outs1)" "q' = q2"
    using "3.prems"(2) by (simp_all add: p r)
  from "3.IH" [OF p [symmetric] refl L(1) r] L(2,3) show ?case unfolding e by (cases "elems q") auto
qed

end

section \<open>The ring is a bounded queue\<close>

lemma and_mask: "cap_ok cap \<Longrightarrow> and n (kMask_of cap) = n mod cap"
proof -
  assume "cap_ok cap"
  then obtain k where k: "cap = 2 ^ Suc k" by (auto simp: cap_ok_def)
  have "and n (mask (Suc k)) = n mod 2 ^ Suc k" by (simp only: take_bit_eq_mask [symmetric] take_bit_eq_mod)
  then show ?thesis by (simp only: k kMask_of_def mask_eq_exp_minus_1)
qed

lemma cap_ok_gt: "cap_ok cap \<Longrightarrow> 1 < cap"
proof -
  assume "cap_ok cap"
  then obtain k where k: "cap = 2 * 2 ^ k" by (auto simp: cap_ok_def)
  have "(0::nat) < 2 ^ k" by simp
  then show "1 < cap" unfolding k by linarith
qed

definition spsc_inv :: "nat \<Rightarrow> 'a spsc \<Rightarrow> bool" where
  "spsc_inv cap q \<longleftrightarrow> sq_write_pos q < cap \<and> sq_read_pos q < cap"

definition spsc_len :: "nat \<Rightarrow> 'a spsc \<Rightarrow> nat" where
  "spsc_len cap q = (sq_write_pos q + cap - sq_read_pos q) mod cap"

definition spsc_elems :: "nat \<Rightarrow> 'a spsc \<Rightarrow> 'a list" where
  "spsc_elems cap q = map (\<lambda>i. sq_buffer q ((sq_read_pos q + i) mod cap)) [0..<spsc_len cap q]"

lemma length_spsc_elems [simp]: "length (spsc_elems cap q) = spsc_len cap q"
  by (simp add: spsc_elems_def)

lemma spsc_init_facts: "0 < cap \<Longrightarrow> spsc_inv cap (spsc_init x0)" "spsc_elems cap (spsc_init x0) = []"
  by (simp_all add: spsc_inv_def spsc_init_def spsc_elems_def spsc_len_def)

lemma spsc_len_cases:
  assumes "spsc_inv cap q"
  shows "spsc_len cap q = (if sq_read_pos q \<le> sq_write_pos q then sq_write_pos q - sq_read_pos q
    else sq_write_pos q + cap - sq_read_pos q)"
  using assms by (auto simp: spsc_inv_def spsc_len_def mod_if)

lemma next_pos_eq:
  assumes "cap_ok cap" "p < cap"
  shows "next_pos cap p = (if p + 1 = cap then 0 else p + 1)"
  using assms by (simp add: next_pos_def and_mask)

lemma ring_full_iff:
  fixes w r c :: nat
  assumes "w < c" "r < c" "1 < c"
  shows "(if w + 1 = c then 0 else w + 1) = r \<longleftrightarrow> \<not> (if r \<le> w then w - r else w + c - r) < c - 1"
proof (cases "r \<le> w")
  case True
  then show ?thesis using assms by (cases "w + 1 = c") auto
next
  case False
  then show ?thesis using assms by (cases "w + 1 = r") auto
qed

lemma ring_len_push:
  fixes w r c :: nat
  assumes "w < c" "r < c" "(if r \<le> w then w - r else w + c - r) < c - 1"
  shows "(let w' = if w + 1 = c then 0 else w + 1 in if r \<le> w' then w' - r else w' + c - r) =
    Suc (if r \<le> w then w - r else w + c - r)"
proof (cases "r \<le> w")
  case True
  then show ?thesis using assms by (cases "w + 1 = c") auto
next
  case False
  then have "\<not> r \<le> w + 1" using assms by auto
  with False show ?thesis using assms by auto
qed

lemma ring_slot:
  fixes w r c :: nat
  assumes "w < c" "r < c"
  shows "(r + (if r \<le> w then w - r else w + c - r)) mod c = w"
    and "i < (if r \<le> w then w - r else w + c - r) \<Longrightarrow> (r + i) mod c \<noteq> w"
proof -
  show "(r + (if r \<le> w then w - r else w + c - r)) mod c = w" using assms by (cases "r \<le> w") simp_all
  assume i: "i < (if r \<le> w then w - r else w + c - r)"
  show "(r + i) mod c \<noteq> w"
  proof (cases "r + i < c")
    case True
    then show ?thesis using i assms by (cases "r \<le> w") simp_all
  next
    case False
    then have "(r + i) mod c = (r + i - c) mod c" by (simp add: le_mod_geq)
    also have "\<dots> = r + i - c" using i assms by (cases "r \<le> w") simp_all
    finally show ?thesis using i assms False by (cases "r \<le> w") simp_all
  qed
qed

lemma spsc_push_law:
  assumes c: "cap_ok cap" and inv: "spsc_inv cap q" and p: "spsc_try_push cap x q = (ok, q')"
  shows "spsc_inv cap q' \<and> ok = (length (spsc_elems cap q) < cap - 1) \<and>
    spsc_elems cap q' = (if ok then spsc_elems cap q @ [x] else spsc_elems cap q)"
proof -
  have b: "sq_write_pos q < cap" "sq_read_pos q < cap" using inv by (simp_all add: spsc_inv_def)
  note n = next_pos_eq [OF c b(1)]
  note l = spsc_len_cases [OF inv] and g = cap_ok_gt [OF c]
  have full: "next_pos cap (sq_write_pos q) = sq_read_pos q \<longleftrightarrow> \<not> spsc_len cap q < cap - 1"
    unfolding n l using ring_full_iff [OF b g] .
  show ?thesis
  proof (cases "spsc_len cap q < cap - 1")
    case False
    with p full inv show ?thesis by (simp add: spsc_try_push_def Let_def)
  next
    case True
    have q': "ok" "q' = q\<lparr>sq_buffer := (sq_buffer q)(sq_write_pos q := x), sq_write_pos := next_pos cap (sq_write_pos q)\<rparr>"
      using p full True by (simp_all add: spsc_try_push_def Let_def)
    have w': "sq_write_pos q' = (if sq_write_pos q + 1 = cap then 0 else sq_write_pos q + 1)"
      "sq_read_pos q' = sq_read_pos q" by (simp_all add: q' n)
    have inv': "spsc_inv cap q'" using b g by (simp add: spsc_inv_def w')
    have len: "spsc_len cap q' = Suc (spsc_len cap q)"
      using ring_len_push [OF b True [unfolded l]] unfolding spsc_len_cases [OF inv'] l w' Let_def .
    have at: "(sq_read_pos q + spsc_len cap q) mod cap = sq_write_pos q"
      unfolding l by (rule ring_slot(1) [OF b])
    have other: "(sq_read_pos q + i) mod cap \<noteq> sq_write_pos q" if "i < spsc_len cap q" for i
      using that unfolding l by (rule ring_slot(2) [OF b])
    have "spsc_elems cap q' = spsc_elems cap q @ [x]"
    proof (rule nth_equalityI)
      fix i assume "i < length (spsc_elems cap q')"
      then have "i < spsc_len cap q \<or> i = spsc_len cap q" by (simp add: len less_Suc_eq)
      then show "spsc_elems cap q' ! i = (spsc_elems cap q @ [x]) ! i"
        using at other by (auto simp: spsc_elems_def len [unfolded q'] q' nth_append simp del: upt_Suc)
    qed (simp add: len)
    with inv' q'(1) True show ?thesis by simp
  qed
qed

lemma spsc_pop_law:
  assumes c: "cap_ok cap" and inv: "spsc_inv cap q" and p: "spsc_try_pop cap q = (r, q')"
  shows "spsc_inv cap q' \<and> r = (case spsc_elems cap q of [] \<Rightarrow> None | x # xs \<Rightarrow> Some x) \<and>
    spsc_elems cap q' = tl (spsc_elems cap q)"
proof -
  note b = inv [unfolded spsc_inv_def] and n = next_pos_eq [OF c, of "sq_read_pos q"]
  note l = spsc_len_cases [OF inv] and g = cap_ok_gt [OF c]
  have empty: "sq_read_pos q = sq_write_pos q \<longleftrightarrow> spsc_len cap q = 0"
    using b by (auto simp: l)
  show ?thesis
  proof (cases "spsc_len cap q")
    case 0
    then have "spsc_elems cap q = []" by (simp add: spsc_elems_def)
    with p empty 0 inv show ?thesis by (simp add: spsc_try_pop_def Let_def)
  next
    case (Suc m)
    have q': "r = Some (sq_buffer q (sq_read_pos q))" "q' = q\<lparr>sq_read_pos := next_pos cap (sq_read_pos q)\<rparr>"
      using p empty Suc by (simp_all add: spsc_try_pop_def Let_def)
    have inv': "spsc_inv cap q'" using b n by (simp add: q' spsc_inv_def)
    have len: "spsc_len cap q' = m"
      using b n Suc g unfolding spsc_len_cases [OF inv'] l by (auto simp: q' split: if_splits)
    have shift: "(next_pos cap (sq_read_pos q) + i) mod cap = (sq_read_pos q + Suc i) mod cap" for i
      by (simp add: next_pos_def and_mask [OF c] mod_add_left_eq)
    have "spsc_elems cap q = sq_buffer q (sq_read_pos q) # spsc_elems cap q'"
    proof (rule nth_equalityI)
      fix i assume "i < length (spsc_elems cap q)"
      then show "spsc_elems cap q ! i = (sq_buffer q (sq_read_pos q) # spsc_elems cap q') ! i"
        using b by (cases i) (auto simp: spsc_elems_def Suc len [unfolded q'] shift q' simp del: upt_Suc)
    qed (simp add: Suc len)
    with inv' q'(1) show ?thesis by simp
  qed
qed

lemma spsc_bound: "cap_ok cap \<Longrightarrow> spsc_inv cap q \<Longrightarrow> length (spsc_elems cap q) \<le> cap - 1"
  using cap_ok_gt [of cap] mod_less_divisor [of cap "sq_write_pos q + cap - sq_read_pos q"]
  unfolding length_spsc_elems spsc_len_def by linarith

interpretation sq: bounded_queue "spsc_inv (2 ^ Suc k)" "spsc_elems (2 ^ Suc k)" "spsc_try_push (2 ^ Suc k)"
    "spsc_try_pop (2 ^ Suc k)" "2 ^ Suc k - 1" for k
proof
  have c: "cap_ok (2 ^ Suc k)" unfolding cap_ok_def by blast
  fix q :: "'a spsc" and q' x ok r
  assume inv: "spsc_inv (2 ^ Suc k) q"
  show "spsc_try_push (2 ^ Suc k) x q = (ok, q') \<Longrightarrow> spsc_inv (2 ^ Suc k) q' \<and>
      ok = (length (spsc_elems (2 ^ Suc k) q) < 2 ^ Suc k - 1) \<and>
      spsc_elems (2 ^ Suc k) q' = (if ok then spsc_elems (2 ^ Suc k) q @ [x] else spsc_elems (2 ^ Suc k) q)"
    by (rule spsc_push_law [OF c inv])
  show "spsc_try_pop (2 ^ Suc k) q = (r, q') \<Longrightarrow> spsc_inv (2 ^ Suc k) q' \<and>
      r = (case spsc_elems (2 ^ Suc k) q of [] \<Rightarrow> None | x # xs \<Rightarrow> Some x) \<and>
      spsc_elems (2 ^ Suc k) q' = tl (spsc_elems (2 ^ Suc k) q)"
    by (rule spsc_pop_law [OF c inv])
  show "length (spsc_elems (2 ^ Suc k) q) \<le> 2 ^ Suc k - 1" by (rule spsc_bound [OF c inv])
qed

end
