(* ===== verification/Matching_Engine.thy ===== *)
theory Matching_Engine
  imports Book_Props Spsc_Queue
begin

text \<open>
  \<^verbatim>\<open>engine::MatchingEngine\<close>: the books by symbol, the inbound and outbound rings, and the
  dispatch of a message to a book. The engine thread is the function \<open>engine_step\<close> (one turn
  of \<^verbatim>\<open>run_loop\<close>) and \<open>engine_drain\<close> (what it does on shutdown); pinning and
  scheduling are not modelled. Whatever the rings do, the books only depend on the messages
  taken from the inbound ring.
\<close>

section \<open>State\<close>

definition kQueueDepth :: nat where "kQueueDepth = 2 ^ Suc 15"
definition kMaxSymbols :: nat where "kMaxSymbols = 256"

record engine =
  en_inbound :: "md_msg spsc"
  en_outbound :: "exec_report spsc"
  en_books :: "nat \<Rightarrow> order_book option"
  en_stat_messages :: u64
  en_stat_matches :: u64
  en_next_order_id :: u64

definition er_zero :: exec_report where
  "er_zero = \<lparr>er_order_id = 0, er_contra_order_id = 0, er_exec_price = 0, er_exec_qty = 0, er_leaves_qty = 0,
     er_symbol = 0, er_side = Buy, er_exec_type = ExecNew\<rparr>"

definition engine_init :: engine where
  "engine_init = \<lparr>en_inbound = spsc_init md_zero, en_outbound = spsc_init er_zero, en_books = (\<lambda>_. None),
     en_stat_messages = 0, en_stat_matches = 0, en_next_order_id = 1\<rparr>"

definition register_symbol :: "engine \<Rightarrow> symbol_id \<Rightarrow> bool \<times> engine" where
  "register_symbol e s =
    (if unat s \<ge> kMaxSymbols then (False, e)
     else if en_books e (unat s) \<noteq> None then (False, e)
     else (True, e\<lparr>en_books := (en_books e)(unat s := Some (book_init s))\<rparr>))"

definition book_for :: "engine \<Rightarrow> symbol_id \<Rightarrow> order_book option" where
  "book_for e s = (if unat s \<ge> kMaxSymbols then None else en_books e (unat s))"

definition engine_submit :: "engine \<Rightarrow> md_msg \<Rightarrow> bool \<times> engine" where
  "engine_submit e m = (let (ok, q) = spsc_try_push kQueueDepth m (en_inbound e) in (ok, e\<lparr>en_inbound := q\<rparr>))"

definition poll_report :: "engine \<Rightarrow> exec_report option \<times> engine" where
  "poll_report e = (let (r, q) = spsc_try_pop kQueueDepth (en_outbound e) in (r, e\<lparr>en_outbound := q\<rparr>))"

text \<open>A report that finds the outbound ring full is dropped, but counted.\<close>

definition on_execution :: "exec_report \<Rightarrow> engine \<Rightarrow> engine" where
  "on_execution rpt e = (let (ok, q) = spsc_try_push kQueueDepth rpt (en_outbound e)
     in e\<lparr>en_stat_matches := en_stat_matches e + 1, en_outbound := q\<rparr>)"

section \<open>Dispatch\<close>

definition set_book :: "engine \<Rightarrow> symbol_id \<Rightarrow> order_book \<Rightarrow> engine" where
  "set_book e s b = e\<lparr>en_books := (en_books e)(unat s := Some b)\<rparr>"

definition order_of_msg :: "md_msg \<Rightarrow> order_id \<Rightarrow> order" where
  "order_of_msg m oid = \<lparr>ord_id = oid, ord_price = md_price m, ord_qty = md_qty m, ord_qty_remaining = md_qty m,
     ord_symbol = md_symbol m, ord_side = md_side m, ord_type = md_order_type m, ord_status = StatusNew,
     ord_account = 0\<rparr>"

definition process_message :: "engine \<Rightarrow> md_msg \<Rightarrow> engine option" where
  "process_message e m =
    (if unat (md_symbol m) \<ge> kMaxSymbols then Some e
     else case en_books e (unat (md_symbol m)) of
       None \<Rightarrow> Some e
     | Some b \<Rightarrow>
       (case md_msg_type m of
          NewOrder \<Rightarrow> do {
            let (oid, e1) = (if md_order_id m \<noteq> 0 then (md_order_id m, e)
              else (en_next_order_id e, e\<lparr>en_next_order_id := en_next_order_id e + 1\<rparr>));
            (_, b', rs) \<leftarrow> add_order b (order_of_msg m oid);
            Some (fold on_execution rs (set_book e1 (md_symbol m) b'))
          }
        | CancelOrder \<Rightarrow> do { (_, b') \<leftarrow> cancel_order b (md_order_id m); Some (set_book e (md_symbol m) b') }
        | ModifyOrder \<Rightarrow> do { (_, b') \<leftarrow> modify_order b (md_order_id m) (md_qty m); Some (set_book e (md_symbol m) b') }
        | Heartbeat \<Rightarrow> Some e
        | OtherMsgType _ \<Rightarrow> Some e))"

text \<open>One turn of \<^verbatim>\<open>run_loop\<close>; an empty ring is a pause.\<close>

definition engine_step :: "engine \<Rightarrow> engine option" where
  "engine_step e =
    (let (r, q) = spsc_try_pop kQueueDepth (en_inbound e); e1 = e\<lparr>en_inbound := q\<rparr>
     in case r of
          None \<Rightarrow> Some e1
        | Some m \<Rightarrow> do { e2 \<leftarrow> process_message e1 m; Some (e2\<lparr>en_stat_messages := en_stat_messages e2 + 1\<rparr>) })"

text \<open>The drain on shutdown: the same, but \<^verbatim>\<open>stat_messages_\<close> is not incremented.\<close>

partial_function (option) engine_drain :: "engine \<Rightarrow> engine option" where
  "engine_drain e =
    (let (r, q) = spsc_try_pop kQueueDepth (en_inbound e); e1 = e\<lparr>en_inbound := q\<rparr>
     in case r of
          None \<Rightarrow> Some e1
        | Some m \<Rightarrow> Option.bind (process_message e1 m) engine_drain)"

section \<open>The rings seen as lists\<close>

lemma kQueueDepth_cap: "cap_ok kQueueDepth"
  unfolding cap_ok_def kQueueDepth_def by blast

definition inq :: "engine \<Rightarrow> md_msg list" where
  "inq e = spsc_elems kQueueDepth (en_inbound e)"

definition outq :: "engine \<Rightarrow> exec_report list" where
  "outq e = spsc_elems kQueueDepth (en_outbound e)"

definition rings_ok :: "engine \<Rightarrow> bool" where
  "rings_ok e \<longleftrightarrow> spsc_inv kQueueDepth (en_inbound e) \<and> spsc_inv kQueueDepth (en_outbound e)"

interpretation eq: bounded_queue "spsc_inv kQueueDepth" "spsc_elems kQueueDepth" "spsc_try_push kQueueDepth"
    "spsc_try_pop kQueueDepth" "kQueueDepth - 1"
  unfolding kQueueDepth_def by (rule sq.bounded_queue_axioms)

definition queue_room :: nat where "queue_room = kQueueDepth - 1"

lemma rings_init [simp]: "rings_ok engine_init" "inq engine_init = []" "outq engine_init = []"
proof -
  have c: "0 < kQueueDepth" using cap_ok_gt [OF kQueueDepth_cap] by simp
  show "rings_ok engine_init" "inq engine_init = []" "outq engine_init = []"
    by (simp_all add: rings_ok_def engine_init_def inq_def outq_def spsc_init_facts(1) [OF c] spsc_init_facts(2))
qed

lemma rings_upd [simp]:
  "rings_ok (e\<lparr>en_books := B\<rparr>) = rings_ok e" "rings_ok (e\<lparr>en_stat_messages := n\<rparr>) = rings_ok e"
  "rings_ok (e\<lparr>en_stat_matches := n\<rparr>) = rings_ok e" "rings_ok (e\<lparr>en_next_order_id := n\<rparr>) = rings_ok e"
  "inq (e\<lparr>en_books := B\<rparr>) = inq e" "inq (e\<lparr>en_stat_messages := n\<rparr>) = inq e"
  "inq (e\<lparr>en_stat_matches := n\<rparr>) = inq e" "inq (e\<lparr>en_next_order_id := n\<rparr>) = inq e" "inq (e\<lparr>en_outbound := q\<rparr>) = inq e"
  "outq (e\<lparr>en_books := B\<rparr>) = outq e" "outq (e\<lparr>en_stat_messages := n\<rparr>) = outq e"
  "outq (e\<lparr>en_stat_matches := n\<rparr>) = outq e" "outq (e\<lparr>en_next_order_id := n\<rparr>) = outq e" "outq (e\<lparr>en_inbound := i\<rparr>) = outq e"
  by (simp_all add: rings_ok_def inq_def outq_def)

lemma submit_ring:
  assumes "rings_ok e" "engine_submit e m = (ok, e')"
  shows "rings_ok e'" "ok = (length (inq e) < queue_room)" "inq e' = (if ok then inq e @ [m] else inq e)"
    "outq e' = outq e" "en_books e' = en_books e" "en_next_order_id e' = en_next_order_id e"
    "en_stat_messages e' = en_stat_messages e" "en_stat_matches e' = en_stat_matches e"
proof -
  obtain b q where p: "spsc_try_push kQueueDepth m (en_inbound e) = (b, q)" by force
  have i: "spsc_inv kQueueDepth (en_inbound e)" using assms(1) by (simp add: rings_ok_def)
  note L = eq.push_law [OF i p]
  have e': "e' = e\<lparr>en_inbound := q\<rparr>" "ok = b" using assms(2) by (simp_all add: engine_submit_def p)
  show "rings_ok e'" "ok = (length (inq e) < queue_room)" "inq e' = (if ok then inq e @ [m] else inq e)"
    "outq e' = outq e" "en_books e' = en_books e" "en_next_order_id e' = en_next_order_id e"
    "en_stat_messages e' = en_stat_messages e" "en_stat_matches e' = en_stat_matches e"
    using L assms(1) by (simp_all add: e' rings_ok_def inq_def queue_room_def)
qed

lemma poll_ring:
  assumes "rings_ok e" "poll_report e = (r, e')"
  shows "rings_ok e'" "r = (case outq e of [] \<Rightarrow> None | x # xs \<Rightarrow> Some x)" "outq e' = tl (outq e)" "inq e' = inq e"
    "en_books e' = en_books e" "en_next_order_id e' = en_next_order_id e"
    "en_stat_messages e' = en_stat_messages e" "en_stat_matches e' = en_stat_matches e"
proof -
  obtain b q where p: "spsc_try_pop kQueueDepth (en_outbound e) = (b, q)" by force
  have i: "spsc_inv kQueueDepth (en_outbound e)" using assms(1) by (simp add: rings_ok_def)
  note L = eq.pop_law [OF i p]
  have e': "e' = e\<lparr>en_outbound := q\<rparr>" "r = b" using assms(2) by (simp_all add: poll_report_def p)
  show "rings_ok e'" "r = (case outq e of [] \<Rightarrow> None | x # xs \<Rightarrow> Some x)" "outq e' = tl (outq e)" "inq e' = inq e"
    "en_books e' = en_books e" "en_next_order_id e' = en_next_order_id e"
    "en_stat_messages e' = en_stat_messages e" "en_stat_matches e' = en_stat_matches e"
    using L assms(1) by (simp_all add: e' rings_ok_def outq_def)
qed

text \<open>Pushing reports one by one: those that find room arrive in order, the rest are dropped.\<close>

lemma on_execution_ring:
  assumes "rings_ok e"
  shows "rings_ok (on_execution r e)" "outq (on_execution r e) = (if length (outq e) < queue_room then outq e @ [r] else outq e)"
    "inq (on_execution r e) = inq e" "en_books (on_execution r e) = en_books e"
    "en_next_order_id (on_execution r e) = en_next_order_id e" "en_stat_messages (on_execution r e) = en_stat_messages e"
    "en_stat_matches (on_execution r e) = en_stat_matches e + 1"
proof -
  obtain b q where p: "spsc_try_push kQueueDepth r (en_outbound e) = (b, q)" by force
  have i: "spsc_inv kQueueDepth (en_outbound e)" using assms(1) by (simp add: rings_ok_def)
  note L = eq.push_law [OF i p]
  have e': "on_execution r e = e\<lparr>en_stat_matches := en_stat_matches e + 1, en_outbound := q\<rparr>"
    by (simp add: on_execution_def p)
  show "rings_ok (on_execution r e)" "outq (on_execution r e) = (if length (outq e) < queue_room then outq e @ [r] else outq e)"
    "inq (on_execution r e) = inq e" "en_books (on_execution r e) = en_books e"
    "en_next_order_id (on_execution r e) = en_next_order_id e" "en_stat_messages (on_execution r e) = en_stat_messages e"
    "en_stat_matches (on_execution r e) = en_stat_matches e + 1"
    using L assms by (auto simp: e' rings_ok_def inq_def outq_def queue_room_def)
qed

lemma take_diff_Cons:
  "take (n - length xs) (r # rs) = (if length xs < n then r # take (n - length (xs @ [r])) rs else [])"
proof (cases "length xs < n")
  case True
  then have "n - length xs = Suc (n - length (xs @ [r]))" by simp
  with True show ?thesis by simp
qed simp

lemma outq_bound: "rings_ok e \<Longrightarrow> length (outq e) \<le> queue_room"
  using eq.bound [of "en_outbound e"] by (simp add: rings_ok_def outq_def queue_room_def)

lemma inq_bound: "rings_ok e \<Longrightarrow> length (inq e) \<le> queue_room"
  using eq.bound [of "en_inbound e"] by (simp add: rings_ok_def inq_def queue_room_def)

lemma fold_on_execution:
  "rings_ok e \<Longrightarrow> rings_ok (fold on_execution rs e) \<and>
    outq (fold on_execution rs e) = outq e @ take (queue_room - length (outq e)) rs \<and>
    inq (fold on_execution rs e) = inq e \<and> en_books (fold on_execution rs e) = en_books e \<and>
    en_next_order_id (fold on_execution rs e) = en_next_order_id e \<and>
    en_stat_messages (fold on_execution rs e) = en_stat_messages e \<and>
    en_stat_matches (fold on_execution rs e) = en_stat_matches e + of_nat (length rs)"
proof (induction rs arbitrary: e)
  case (Cons r rs)
  note O = on_execution_ring [OF Cons.prems, of r]
  note IH = Cons.IH [OF O(1)]
  have "outq (on_execution r e) @ take (queue_room - length (outq (on_execution r e))) rs =
      outq e @ take (queue_room - length (outq e)) (r # rs)"
    unfolding take_diff_Cons using outq_bound [OF Cons.prems] by (auto simp: O(2))
  with IH O show ?case by (simp add: ac_simps)
qed simp

section \<open>The books depend on the messages only\<close>

text \<open>
  The part of \<^verbatim>\<open>process_message\<close> that is not the rings: the books and the next synthetic
  id, and the reports the message produces.
\<close>

type_synonym books = "(nat \<Rightarrow> order_book option) \<times> u64"

definition dispatch :: "books \<Rightarrow> md_msg \<Rightarrow> (books \<times> exec_report list) option" where
  "dispatch B m =
    (if unat (md_symbol m) \<ge> kMaxSymbols then Some (B, [])
     else case fst B (unat (md_symbol m)) of
       None \<Rightarrow> Some (B, [])
     | Some b \<Rightarrow>
       (let put = (\<lambda>b'. (fst B)(unat (md_symbol m) := Some b')) in
        case md_msg_type m of
          NewOrder \<Rightarrow>
            (let (oid, n) = (if md_order_id m \<noteq> 0 then (md_order_id m, snd B) else (snd B, snd B + 1))
             in map_option (\<lambda>(_, b', rs). ((put b', n), rs)) (add_order b (order_of_msg m oid)))
        | CancelOrder \<Rightarrow> map_option (\<lambda>(_, b'). ((put b', snd B), [])) (cancel_order b (md_order_id m))
        | ModifyOrder \<Rightarrow> map_option (\<lambda>(_, b'). ((put b', snd B), [])) (modify_order b (md_order_id m) (md_qty m))
        | _ \<Rightarrow> Some (B, [])))"

definition books_of :: "engine \<Rightarrow> books" where
  "books_of e = (en_books e, en_next_order_id e)"

lemma engine_upd_books [simp]:
  "e\<lparr>en_next_order_id := n, en_books := B\<rparr> = e\<lparr>en_books := B, en_next_order_id := n\<rparr>"
  "e\<lparr>en_books := B, en_next_order_id := en_next_order_id e\<rparr> = e\<lparr>en_books := B\<rparr>"
  "e\<lparr>en_books := en_books e\<rparr> = e"
  by simp_all

lemma process_message_dispatch:
  "process_message e m = map_option (\<lambda>(B, rs).
    fold on_execution rs (e\<lparr>en_books := fst B, en_next_order_id := snd B\<rparr>)) (dispatch (books_of e) m)"
proof (cases "unat (md_symbol m) \<ge> kMaxSymbols")
  case True
  then show ?thesis by (simp add: process_message_def dispatch_def books_of_def)
next
  case False
  show ?thesis
  proof (cases "en_books e (unat (md_symbol m))")
    case None
    with False show ?thesis by (simp add: process_message_def dispatch_def books_of_def)
  next
    case (Some b)
    note S = process_message_def dispatch_def books_of_def set_book_def Let_def Some
    show ?thesis
    proof (cases "md_msg_type m")
      case NewOrder
      then show ?thesis using False
        by (cases "md_order_id m = 0"; cases "add_order b (order_of_msg m (if md_order_id m \<noteq> 0 then md_order_id m else en_next_order_id e))")
          (auto simp: S simp del: fun_upd_apply)
    next
      case CancelOrder
      then show ?thesis using False
        by (cases "cancel_order b (md_order_id m)") (auto simp: S)
    next
      case ModifyOrder
      then show ?thesis using False
        by (cases "modify_order b (md_order_id m) (md_qty m)") (auto simp: S)
    qed (use False in \<open>simp_all add: S\<close>)
  qed
qed

fun dispatch_all :: "books \<Rightarrow> md_msg list \<Rightarrow> (books \<times> exec_report list) option" where
  "dispatch_all B [] = Some (B, [])"
| "dispatch_all B (m # ms) = Option.bind (dispatch B m) (\<lambda>(B', rs).
     map_option (\<lambda>(B'', rs'). (B'', rs @ rs')) (dispatch_all B' ms))"

lemma dispatch_all_append:
  "dispatch_all B (ms @ ns) = Option.bind (dispatch_all B ms) (\<lambda>(B', rs).
     map_option (\<lambda>(B'', rs'). (B'', rs @ rs')) (dispatch_all B' ns))"
  by (induction ms arbitrary: B) (auto split: Option.bind_splits simp: map_option_case split: option.splits)

lemma process_message_ring:
  assumes "rings_ok e" "process_message e m = Some e'"
  obtains B rs where "dispatch (books_of e) m = Some (B, rs)" "rings_ok e'" "books_of e' = B" "inq e' = inq e"
    "outq e' = outq e @ take (queue_room - length (outq e)) rs" "en_stat_messages e' = en_stat_messages e"
    "en_stat_matches e' = en_stat_matches e + of_nat (length rs)"
proof -
  from assms(2) obtain B rs where d: "dispatch (books_of e) m = Some (B, rs)"
    and e': "e' = fold on_execution rs (e\<lparr>en_books := fst B, en_next_order_id := snd B\<rparr>)"
    by (auto simp: process_message_dispatch)
  have "rings_ok (e\<lparr>en_books := fst B, en_next_order_id := snd B\<rparr>)" using assms(1) by simp
  note F = fold_on_execution [OF this, of rs]
  show ?thesis by (rule that [OF d]) (use F in \<open>simp_all add: e' books_of_def\<close>)
qed

section \<open>Dispatch over abstract books\<close>

type_synonym abooks = "(nat \<Rightarrow> abook option) \<times> u64"

definition msg_cmd :: "u64 \<Rightarrow> md_msg \<Rightarrow> book_cmd option" where
  "msg_cmd n m = (case md_msg_type m of
     NewOrder \<Rightarrow> Some (AddCmd (order_of_msg m (if md_order_id m \<noteq> 0 then md_order_id m else n)))
   | CancelOrder \<Rightarrow> Some (CancelCmd (md_order_id m))
   | ModifyOrder \<Rightarrow> Some (ModifyCmd (md_order_id m) (md_qty m))
   | _ \<Rightarrow> None)"

definition next_id :: "u64 \<Rightarrow> md_msg \<Rightarrow> u64" where
  "next_id n m = (if md_msg_type m = NewOrder \<and> md_order_id m = 0 then n + 1 else n)"

definition adispatch :: "abooks \<Rightarrow> md_msg \<Rightarrow> abooks \<times> exec_report list" where
  "adispatch A m =
    (if unat (md_symbol m) \<ge> kMaxSymbols then (A, [])
     else case fst A (unat (md_symbol m)) of
       None \<Rightarrow> (A, [])
     | Some a \<Rightarrow> (case msg_cmd (snd A) m of
         None \<Rightarrow> (A, [])
       | Some c \<Rightarrow> (let (a', ok, rs) = abook_step (md_symbol m) a c
           in (((fst A)(unat (md_symbol m) := Some a'), next_id (snd A) m), rs))))"

definition adispatch_all :: "abooks \<Rightarrow> md_msg list \<Rightarrow> abooks \<times> exec_report list" where
  "adispatch_all A ms = fold (\<lambda>m (A, rs). let (A', rs') = adispatch A m in (A', rs @ rs')) ms (A, [])"

text \<open>An order that the message adds does not reuse the id of a resting one.\<close>

definition msg_fresh :: "abooks \<Rightarrow> md_msg \<Rightarrow> bool" where
  "msg_fresh A m \<longleftrightarrow> (\<forall>a c. fst A (unat (md_symbol m)) = Some a \<and> msg_cmd (snd A) m = Some c \<longrightarrow> cmd_fresh a c)"

fun msgs_fresh :: "abooks \<Rightarrow> md_msg list \<Rightarrow> bool" where
  "msgs_fresh A [] \<longleftrightarrow> True"
| "msgs_fresh A (m # ms) \<longleftrightarrow> msg_fresh A m \<and> msgs_fresh (fst (adispatch A m)) ms"

text \<open>Every registered book is good and carries its symbol.\<close>

definition books_good :: "books \<Rightarrow> abooks \<Rightarrow> bool" where
  "books_good B A \<longleftrightarrow> snd B = snd A \<and> (\<forall>s::symbol_id. (case (fst B (unat s), fst A (unat s)) of
     (None, None) \<Rightarrow> True | (Some b, Some a) \<Rightarrow> good_book b a \<and> ob_symbol b = s | _ \<Rightarrow> False))"

lemma books_goodD:
  assumes "books_good B A"
  shows "snd B = snd A" "fst B (unat s) = None \<longleftrightarrow> fst A (unat s) = None"
    "fst B (unat s) = Some b \<Longrightarrow> fst A (unat s) = Some a \<Longrightarrow> good_book b a \<and> ob_symbol b = s"
proof -
  have *: "case (fst B (unat s), fst A (unat s)) of
     (None, None) \<Rightarrow> True | (Some b, Some a) \<Rightarrow> good_book b a \<and> ob_symbol b = s | _ \<Rightarrow> False"
    using assms by (simp add: books_good_def)
  show "snd B = snd A" using assms by (simp add: books_good_def)
  show "fst B (unat s) = None \<longleftrightarrow> fst A (unat s) = None"
    "fst B (unat s) = Some b \<Longrightarrow> fst A (unat s) = Some a \<Longrightarrow> good_book b a \<and> ob_symbol b = s"
    using * by (auto split: option.splits)
qed

lemma books_good_upd:
  assumes "books_good B A" "good_book b a" "ob_symbol b = s"
  shows "books_good ((fst B)(unat s := Some b), n) ((fst A)(unat s := Some a), n)"
proof -
  have "unat t = unat s \<longleftrightarrow> t = s" for t :: symbol_id by (simp add: word_unat_eq_iff)
  with assms show ?thesis by (auto simp: books_good_def)
qed

lemma dispatch_step:
  assumes "\<not> unat (md_symbol m) \<ge> kMaxSymbols" "fst B (unat (md_symbol m)) = Some b"
  shows "dispatch B m = (case msg_cmd (snd B) m of None \<Rightarrow> Some (B, [])
    | Some c \<Rightarrow> map_option (\<lambda>(b', ok, rs). (((fst B)(unat (md_symbol m) := Some b'), next_id (snd B) m), rs)) (book_step b c))"
proof (cases "md_msg_type m")
  case NewOrder
  then show ?thesis using assms
    by (cases "md_order_id m = 0"; cases "add_order b (order_of_msg m (if md_order_id m \<noteq> 0 then md_order_id m else snd B))")
      (auto simp: dispatch_def msg_cmd_def next_id_def Let_def simp del: fun_upd_apply)
next
  case CancelOrder
  then show ?thesis using assms
    by (cases "cancel_order b (md_order_id m)") (auto simp: dispatch_def msg_cmd_def next_id_def Let_def simp del: fun_upd_apply)
next
  case ModifyOrder
  then show ?thesis using assms
    by (cases "modify_order b (md_order_id m) (md_qty m)") (auto simp: dispatch_def msg_cmd_def next_id_def Let_def simp del: fun_upd_apply)
qed (use assms in \<open>simp_all add: dispatch_def msg_cmd_def Let_def\<close>)

lemma dispatch_refines:
  assumes g: "books_good B A" and f: "msg_fresh A m"
  shows "\<exists>B'. dispatch B m = Some (B', snd (adispatch A m)) \<and> books_good B' (fst (adispatch A m))"
proof (cases "unat (md_symbol m) \<ge> kMaxSymbols")
  case True
  then show ?thesis using g by (simp add: dispatch_def adispatch_def)
next
  case False
  note D = books_goodD(1) [OF g] books_goodD(2) [OF g, of "md_symbol m"]
    books_goodD(3) [OF g, of "md_symbol m"]
  show ?thesis
  proof (cases "fst B (unat (md_symbol m))")
    case None
    moreover from None D(2) have "fst A (unat (md_symbol m)) = None" by simp
    ultimately show ?thesis using False g by (simp add: dispatch_def adispatch_def)
  next
    case (Some b)
    with D(2) obtain a where a: "fst A (unat (md_symbol m)) = Some a" by fastforce
    note G = D(3) [OF Some a]
    note S = dispatch_step [of m B b, OF False Some]
    show ?thesis
    proof (cases "msg_cmd (snd A) m")
      case None
      then show ?thesis using False a g S D(1) by (simp add: adispatch_def)
    next
      case (Some c)
      obtain a' ok rs where st: "abook_step (md_symbol m) a c = (a', ok, rs)" by (metis prod_cases3)
      have "cmd_fresh a c" using f a Some by (simp add: msg_fresh_def)
      with book_step_good [of b a c] st G obtain b' where
        b': "book_step b c = Some (b', ok, rs)" "good_book b' a'" "ob_symbol b' = md_symbol m" by auto
      have ad: "adispatch A m = (((fst A)(unat (md_symbol m) := Some a'), next_id (snd A) m), rs)"
        using False a Some st by (simp add: adispatch_def)
      have "dispatch B m = Some (((fst B)(unat (md_symbol m) := Some b'), next_id (snd A) m), rs)"
        using S Some b'(1) D(1) by simp
      then show ?thesis using books_good_upd [OF g b'(2,3)] by (simp add: ad del: fun_upd_apply)
    qed
  qed
qed

lemma fold_acc:
  "fold (\<lambda>m (A, rs). let (A', rs') = adispatch A m in (A', rs @ rs')) ms (A, rs0) =
    (fst (adispatch_all A ms), rs0 @ snd (adispatch_all A ms))"
proof (induction ms arbitrary: A rs0)
  case (Cons m ms)
  obtain A1 rs1 where d: "adispatch A m = (A1, rs1)" by (cases "adispatch A m") blast
  have "adispatch_all A (m # ms) = (fst (adispatch_all A1 ms), rs1 @ snd (adispatch_all A1 ms))"
    unfolding adispatch_all_def using Cons.IH [of A1 rs1] by (simp add: d adispatch_all_def)
  then show ?case using Cons.IH [of A1 "rs0 @ rs1"] by (simp add: d)
qed (simp add: adispatch_all_def)

lemma adispatch_all_simps [simp]:
  "adispatch_all A [] = (A, [])"
  "adispatch_all A (m # ms) = (let (A1, rs1) = adispatch A m; (A2, rs2) = adispatch_all A1 ms in (A2, rs1 @ rs2))"
proof -
  show "adispatch_all A [] = (A, [])" by (simp add: adispatch_all_def)
  obtain A1 rs1 where d: "adispatch A m = (A1, rs1)" by (cases "adispatch A m") blast
  show "adispatch_all A (m # ms) = (let (A1, rs1) = adispatch A m; (A2, rs2) = adispatch_all A1 ms in (A2, rs1 @ rs2))"
    using fold_acc [of ms A1 rs1] by (simp add: adispatch_all_def d split: prod.splits)
qed

lemma adispatch_all_append:
  "adispatch_all A (ms @ ns) = (let (A1, rs1) = adispatch_all A ms; (A2, rs2) = adispatch_all A1 ns in (A2, rs1 @ rs2))"
  by (induction ms arbitrary: A) (auto simp: Let_def split: prod.splits)

lemma dispatch_all_refines:
  assumes "books_good B A" "msgs_fresh A ms"
  shows "\<exists>B'. dispatch_all B ms = Some (B', snd (adispatch_all A ms)) \<and> books_good B' (fst (adispatch_all A ms))"
  using assms
proof (induction ms arbitrary: B A)
  case (Cons m ms)
  obtain A1 rs1 where d: "adispatch A m = (A1, rs1)" by (cases "adispatch A m") blast
  with dispatch_refines [OF Cons.prems(1), of m] Cons.prems(2) obtain B1 where
    B1: "dispatch B m = Some (B1, rs1)" "books_good B1 A1" by auto
  have "msgs_fresh A1 ms" using Cons.prems(2) d by simp
  from Cons.IH [OF B1(2) this] B1 d show ?case by (auto split: prod.splits)
qed simp

section \<open>The engine thread\<close>

lemma pop_inbound:
  assumes "rings_ok e"
  obtains (empty) q where "spsc_try_pop kQueueDepth (en_inbound e) = (None, q)" "inq e = []"
      "rings_ok (e\<lparr>en_inbound := q\<rparr>)" "inq (e\<lparr>en_inbound := q\<rparr>) = []"
  | (msg) m ms q where "spsc_try_pop kQueueDepth (en_inbound e) = (Some m, q)" "inq e = m # ms"
      "rings_ok (e\<lparr>en_inbound := q\<rparr>)" "inq (e\<lparr>en_inbound := q\<rparr>) = ms"
proof -
  obtain r q where p: "spsc_try_pop kQueueDepth (en_inbound e) = (r, q)" by force
  have i: "spsc_inv kQueueDepth (en_inbound e)" using assms by (simp add: rings_ok_def)
  note L = eq.pop_law [OF i p]
  have R: "rings_ok (e\<lparr>en_inbound := q\<rparr>)" "inq (e\<lparr>en_inbound := q\<rparr>) = tl (inq e)"
    using L assms by (simp_all add: rings_ok_def inq_def)
  show ?thesis
  proof (cases "inq e")
    case Nil
    then show ?thesis using empty [of q] p L R by (simp add: inq_def)
  next
    case (Cons m ms)
    then show ?thesis using msg [of m q ms] p L R by (simp add: inq_def)
  qed
qed

text \<open>One turn: nothing on an empty ring, otherwise the front message is dispatched.\<close>

lemma engine_step_ring:
  assumes ok: "rings_ok e" and s: "engine_step e = Some e'"
  obtains (idle) "inq e = []" "inq e' = []" "rings_ok e'" "outq e' = outq e" "books_of e' = books_of e"
      "en_stat_messages e' = en_stat_messages e" "en_stat_matches e' = en_stat_matches e"
  | (work) m ms B rs where "inq e = m # ms" "inq e' = ms" "dispatch (books_of e) m = Some (B, rs)" "books_of e' = B"
      "rings_ok e'" "outq e' = outq e @ take (queue_room - length (outq e)) rs"
      "en_stat_messages e' = en_stat_messages e + 1" "en_stat_matches e' = en_stat_matches e + of_nat (length rs)"
  using ok
proof (cases rule: pop_inbound)
  case (empty q)
  then have "e' = e\<lparr>en_inbound := q\<rparr>" using s by (simp add: engine_step_def)
  with empty show ?thesis by (intro idle) (simp_all add: books_of_def)
next
  case (msg m ms q)
  let ?e1 = "e\<lparr>en_inbound := q\<rparr>"
  from s msg(1) obtain e2 where e2: "process_message ?e1 m = Some e2" "e' = e2\<lparr>en_stat_messages := en_stat_messages e2 + 1\<rparr>"
    by (auto simp: engine_step_def bind_eq_Some_conv)
  have bo: "books_of ?e1 = books_of e" by (simp add: books_of_def)
  from process_message_ring [OF msg(3) e2(1)] obtain B rs where P: "dispatch (books_of ?e1) m = Some (B, rs)" "rings_ok e2"
    "books_of e2 = B" "inq e2 = inq ?e1" "outq e2 = outq ?e1 @ take (queue_room - length (outq ?e1)) rs"
    "en_stat_messages e2 = en_stat_messages ?e1" "en_stat_matches e2 = en_stat_matches ?e1 + of_nat (length rs)" .
  show ?thesis
    by (rule work [of m ms B rs]) (use P msg bo in \<open>simp_all add: e2(2) books_of_def\<close>)
qed

lemma engine_step_returns:
  assumes ok: "rings_ok e" and d: "\<forall>m. inq e \<noteq> [] \<and> m = hd (inq e) \<longrightarrow> dispatch (books_of e) m \<noteq> None"
  shows "engine_step e \<noteq> None"
  using ok
proof (cases rule: pop_inbound)
  case (empty q)
  then show ?thesis by (simp add: engine_step_def)
next
  case (msg m ms q)
  have "books_of (e\<lparr>en_inbound := q\<rparr>) = books_of e" by (simp add: books_of_def)
  with d msg show ?thesis by (auto simp: engine_step_def process_message_dispatch)
qed

text \<open>The shutdown drain returns whenever the waiting messages do, and leaves the ring empty.\<close>

lemma engine_drain_returns:
  "rings_ok e \<Longrightarrow> dispatch_all (books_of e) (inq e) = Some (B, rs) \<Longrightarrow>
    \<exists>e'. engine_drain e = Some e' \<and> rings_ok e' \<and> books_of e' = B \<and> inq e' = [] \<and>
      en_stat_messages e' = en_stat_messages e \<and> en_stat_matches e' = en_stat_matches e + of_nat (length rs)"
proof (induction "inq e" arbitrary: e B rs)
  case Nil
  from \<open>rings_ok e\<close> show ?case
  proof (cases rule: pop_inbound)
    case (empty q)
    have "engine_drain e = Some (e\<lparr>en_inbound := q\<rparr>)"
      by (subst engine_drain.simps) (simp add: empty(1))
    moreover have "B = books_of e" "rs = []" using Nil.prems(2) unfolding empty(2) by simp_all
    ultimately show ?thesis using empty(3,4) by (simp add: books_of_def)
  qed (use Nil.hyps [symmetric] in simp)
next
  case (Cons m ms)
  from \<open>rings_ok e\<close> show ?case
  proof (cases rule: pop_inbound)
    case (msg m' ms' q)
    let ?e1 = "e\<lparr>en_inbound := q\<rparr>"
    have eqs: "m' = m" "ms' = ms" "books_of ?e1 = books_of e" using msg(2) Cons.hyps(2) [symmetric] by (simp_all add: books_of_def)
    have "dispatch_all (books_of e) (m # ms) = Some (B, rs)" using Cons.prems(2) unfolding Cons.hyps(2) .
    then obtain B1 rs1 rs2 where d: "dispatch (books_of e) m = Some (B1, rs1)" "dispatch_all B1 ms = Some (B, rs2)" "rs = rs1 @ rs2"
      by (auto simp: bind_eq_Some_conv)
    from d(1) eqs obtain e2 where e2: "process_message ?e1 m = Some e2" by (simp add: process_message_dispatch)
    from process_message_ring [OF msg(3) e2] obtain B' rs' where P: "dispatch (books_of ?e1) m = Some (B', rs')" "rings_ok e2"
      "books_of e2 = B'" "inq e2 = inq ?e1" "outq e2 = outq ?e1 @ take (queue_room - length (outq ?e1)) rs'"
      "en_stat_messages e2 = en_stat_messages ?e1" "en_stat_matches e2 = en_stat_matches ?e1 + of_nat (length rs')" .
    have B': "B' = B1" "rs' = rs1" using P(1) d(1) eqs by simp_all
    have ms: "ms = inq e2" using P(4) msg(4) eqs by simp
    have "dispatch_all (books_of e2) (inq e2) = Some (B, rs2)" using P(3) d(2) B' ms by simp
    from Cons.hyps(1) [OF ms P(2) this] obtain e' where e': "engine_drain e2 = Some e'" "rings_ok e'" "books_of e' = B" "inq e' = []"
      "en_stat_messages e' = en_stat_messages e2" "en_stat_matches e' = en_stat_matches e2 + of_nat (length rs2)"
      by (elim exE conjE)
    have de: "engine_drain e = engine_drain e2"
    proof -
      have "engine_drain e = Option.bind (process_message ?e1 m) engine_drain"
        by (subst engine_drain.simps) (simp only: Let_def msg(1) prod.case option.case eqs)
      then show ?thesis by (simp only: e2 Option.bind.bind_lunit)
    qed
    have "en_stat_messages e' = en_stat_messages e" using e'(5) P(6) by simp
    moreover have "en_stat_matches e' = en_stat_matches e + of_nat (length rs)"
      using e'(6) P(7) by (simp add: B'(2) d(3))
    ultimately show ?thesis using e'(1-4) unfolding de by blast
  qed (use Cons.hyps(2) [symmetric] in simp)
qed

end
