(* ===== verification/Bytes.thy ===== *)
theory Bytes
  imports Prelude
begin

unbundle bit_operations_syntax

text \<open>
  Big-endian reads and writes on byte lists. A \<^verbatim>\<open>const uint8_t*\<close> with a length is a list
  of bytes; an offset read past the end of the list is never reached by the parsers, which check
  the length first. The same helpers exist twice in the code (\<^verbatim>\<open>feed::be16\<close> \<dots> through
  \<^verbatim>\<open>__builtin_bswap\<close>, \<^verbatim>\<open>hft::itch50::be16\<close> \<dots> by shifts); both read the bytes most
  significant first.
\<close>

section \<open>Reading\<close>

definition be16 :: "u8 list \<Rightarrow> nat \<Rightarrow> u16" where
  "be16 b i = push_bit 8 (ucast (b ! i)) OR ucast (b ! (i + 1))"

definition be32 :: "u8 list \<Rightarrow> nat \<Rightarrow> u32" where
  "be32 b i = push_bit 16 (ucast (be16 b i)) OR ucast (be16 b (i + 2))"

definition be48 :: "u8 list \<Rightarrow> nat \<Rightarrow> u64" where
  "be48 b i = push_bit 32 (ucast (be16 b i)) OR ucast (be32 b (i + 2))"

definition be64 :: "u8 list \<Rightarrow> nat \<Rightarrow> u64" where
  "be64 b i = push_bit 32 (ucast (be32 b i)) OR ucast (be32 b (i + 4))"

text \<open>The six-shift form of \<^verbatim>\<open>feed::be48\<close>.\<close>

definition feed_be48 :: "u8 list \<Rightarrow> nat \<Rightarrow> u64" where
  "feed_be48 b i = push_bit 40 (ucast (b ! i)) OR push_bit 32 (ucast (b ! (i + 1))) OR
    push_bit 24 (ucast (b ! (i + 2))) OR push_bit 16 (ucast (b ! (i + 3))) OR
    push_bit 8 (ucast (b ! (i + 4))) OR ucast (b ! (i + 5))"

section \<open>Writing\<close>

definition put_be16 :: "u16 \<Rightarrow> u8 list" where
  "put_be16 v = [ucast (drop_bit 8 v), ucast v]"

definition put_be32 :: "u32 \<Rightarrow> u8 list" where
  "put_be32 v = [ucast (drop_bit 24 v), ucast (drop_bit 16 v), ucast (drop_bit 8 v), ucast v]"

definition put_be48 :: "u64 \<Rightarrow> u8 list" where
  "put_be48 v = map (\<lambda>i. ucast (drop_bit (40 - 8 * i) v)) [0..<6]"

definition put_be64 :: "u64 \<Rightarrow> u8 list" where
  "put_be64 v = [ucast (drop_bit 56 v), ucast (drop_bit 48 v), ucast (drop_bit 40 v), ucast (drop_bit 32 v),
     ucast (drop_bit 24 v), ucast (drop_bit 16 v), ucast (drop_bit 8 v), ucast v]"

text \<open>\<^verbatim>\<open>std::memcpy(buf + off, src, n)\<close> into a buffer.\<close>

definition put_at :: "nat \<Rightarrow> 'a list \<Rightarrow> 'a list \<Rightarrow> 'a list" where
  "put_at off src buf = take off buf @ src @ drop (off + length src) buf"

lemma length_put [simp]:
  "length (put_be16 v) = 2" "length (put_be32 w) = 4" "length (put_be48 x) = 6" "length (put_be64 x) = 8"
  by (simp_all add: put_be16_def put_be32_def put_be48_def put_be64_def)

lemma length_put_at [simp]: "off + length src \<le> length buf \<Longrightarrow> length (put_at off src buf) = length buf"
  by (simp add: put_at_def)

lemma nth_put_at:
  "off + length src \<le> length buf \<Longrightarrow> i < length buf \<Longrightarrow>
    put_at off src buf ! i = (if off \<le> i \<and> i < off + length src then src ! (i - off) else buf ! i)"
  by (auto simp: put_at_def nth_append)

section \<open>Round trips\<close>

lemma join8: "push_bit 8 (ucast (ucast (drop_bit 8 v) :: u8)) OR ucast (ucast v :: u8) = (v :: u16)"
  by (intro bit_word_eqI) (auto simp: bit_simps)

lemma join16: "push_bit 16 (ucast (ucast (drop_bit 16 v) :: u16)) OR ucast (ucast v :: u16) = (v :: u32)"
  by (intro bit_word_eqI) (auto simp: bit_simps)

lemma join32: "push_bit 32 (ucast (ucast (drop_bit 32 v) :: u32)) OR ucast (ucast v :: u32) = (v :: u64)"
  by (intro bit_word_eqI) (auto simp: bit_simps)

lemma be16_append: "be16 (pre @ put_be16 v @ post) (length pre) = v"
  by (simp add: be16_def put_be16_def nth_append join8)

lemma put_be32_split: "put_be32 v = put_be16 (ucast (drop_bit 16 v)) @ put_be16 (ucast v)"
  unfolding put_be32_def put_be16_def by (auto intro!: bit_word_eqI simp: bit_simps)

lemma put_be64_split: "put_be64 v = put_be32 (ucast (drop_bit 32 v)) @ put_be32 (ucast v)"
  unfolding put_be64_def put_be32_def by (auto intro!: bit_word_eqI simp: bit_simps)

lemma be32_append: "be32 (pre @ put_be32 v @ post) (length pre) = v"
proof -
  have "be16 (pre @ put_be32 v @ post) (length pre) = ucast (drop_bit 16 v)"
    using be16_append [of pre "ucast (drop_bit 16 v)" "put_be16 (ucast v) @ post"] by (simp add: put_be32_split)
  moreover have "be16 (pre @ put_be32 v @ post) (length pre + 2) = ucast v"
    using be16_append [of "pre @ put_be16 (ucast (drop_bit 16 v))" "ucast v" post] by (simp add: put_be32_split)
  ultimately show ?thesis by (simp add: be32_def join16)
qed

lemma be64_append: "be64 (pre @ put_be64 v @ post) (length pre) = v"
proof -
  have "be32 (pre @ put_be64 v @ post) (length pre) = ucast (drop_bit 32 v)"
    using be32_append [of pre "ucast (drop_bit 32 v)" "put_be32 (ucast v) @ post"] by (simp add: put_be64_split)
  moreover have "be32 (pre @ put_be64 v @ post) (length pre + 4) = ucast v"
    using be32_append [of "pre @ put_be32 (ucast (drop_bit 32 v))" "ucast v" post] by (simp add: put_be64_split)
  ultimately show ?thesis by (simp add: be64_def join32)
qed

lemma be16_at: "length pre = i \<Longrightarrow> be16 (pre @ put_be16 v @ post) i = v"
  using be16_append by blast

lemma be32_at: "length pre = i \<Longrightarrow> be32 (pre @ put_be32 v @ post) i = v"
  using be32_append by blast

lemma be64_at: "length pre = i \<Longrightarrow> be64 (pre @ put_be64 v @ post) i = v"
  using be64_append by blast

text \<open>The other direction: writing what was read restores the bytes.\<close>

lemma split8: "(ucast (drop_bit 8 (push_bit 8 (ucast a) OR ucast b :: u16)) :: u8) = a"
  "(ucast (push_bit 8 (ucast a) OR ucast b :: u16) :: u8) = b"
  by (auto intro!: bit_word_eqI simp: bit_simps impossible_bit)

lemma put_be16_read: "i + 2 \<le> length b \<Longrightarrow> put_be16 (be16 b i) = take 2 (drop i b)"
  unfolding put_be16_def be16_def split8
  by (intro nth_equalityI) (auto simp: less_Suc_eq numeral_2_eq_2)

lemma split16: "(ucast (drop_bit 16 (push_bit 16 (ucast a) OR ucast b :: u32)) :: u16) = a"
  "(ucast (push_bit 16 (ucast a) OR ucast b :: u32) :: u16) = b"
  by (auto intro!: bit_word_eqI simp: bit_simps impossible_bit)

lemma split32: "(ucast (drop_bit 32 (push_bit 32 (ucast a) OR ucast b :: u64)) :: u32) = a"
  "(ucast (push_bit 32 (ucast a) OR ucast b :: u64) :: u32) = b"
  by (auto intro!: bit_word_eqI simp: bit_simps impossible_bit)

lemma take_drop_join: "i + m + n \<le> length b \<Longrightarrow> take m (drop i b) @ take n (drop (i + m) b) = take (m + n) (drop i b)"
  by (simp add: take_add add.commute)

lemma put_be32_read: "i + 4 \<le> length b \<Longrightarrow> put_be32 (be32 b i) = take 4 (drop i b)"
  using take_drop_join [of i 2 2 b] put_be16_read [of i b] put_be16_read [of "i + 2" b]
  unfolding put_be32_split be32_def split16 by simp

lemma put_be64_read: "i + 8 \<le> length b \<Longrightarrow> put_be64 (be64 b i) = take 8 (drop i b)"
  using take_drop_join [of i 4 4 b] put_be32_read [of i b] put_be32_read [of "i + 4" b]
  unfolding put_be64_split be64_def split32 by simp

lemma ucast_widen:
  fixes a :: "'a::len word"
  assumes "LENGTH('a) \<le> LENGTH('b::len)"
  shows "(ucast (ucast a :: 'b word) :: 'c::len word) = ucast a"
  using assms by (auto intro!: bit_word_eqI less_le_trans [OF bit_imp_le_length] simp: bit_simps)

lemma take_bit_ucast:
  fixes a :: "'a::len word"
  assumes "LENGTH('a) \<le> n"
  shows "take_bit n (ucast a :: 'b::len word) = ucast a"
  using assms by (auto intro!: bit_word_eqI less_le_trans [OF bit_imp_le_length] simp: bit_simps)

lemma feed_be48_eq: "feed_be48 b i = be48 b i"
proof -
  have idx: "i + 3 = Suc (Suc (Suc i))" "i + 4 = Suc (Suc (Suc (Suc i)))" "i + 5 = Suc (Suc (Suc (Suc (Suc i))))"
    by simp_all
  show ?thesis
    unfolding feed_be48_def idx be48_def be32_def be16_def
    by (simp add: unsigned_or_eq push_bit_or unsigned_push_bit_eq take_bit_push_bit or.assoc
        push_bit_push_bit ucast_widen take_bit_ucast)
qed

end
