(* ===== verification/Itch50.thy ===== *)
theory Itch50
  imports Bytes
begin

text \<open>
  The NASDAQ TotalView-ITCH 5.0 decoders of \<^verbatim>\<open>include/hft/itch50.hpp\<close>. A parser gets the
  message bytes (whose length is the code's \<^verbatim>\<open>len\<close>) and returns the decoded record, or
  \<open>None\<close> where the code returns false. Characters are their byte values.
\<close>

section \<open>Message lengths and types\<close>

definition kLenStockDirectory :: nat where "kLenStockDirectory = 39"
definition kLenAdd :: nat where "kLenAdd = 36"
definition kLenAddMpid :: nat where "kLenAddMpid = 40"
definition kLenExec :: nat where "kLenExec = 31"
definition kLenExecPrice :: nat where "kLenExecPrice = 36"
definition kLenCancel :: nat where "kLenCancel = 23"
definition kLenDelete :: nat where "kLenDelete = 19"
definition kLenReplace :: nat where "kLenReplace = 35"

lemmas itch_lengths = kLenStockDirectory_def kLenAdd_def kLenAddMpid_def kLenExec_def
  kLenExecPrice_def kLenCancel_def kLenDelete_def kLenReplace_def

text \<open>The character constants \<^verbatim>\<open>'A'\<close>, \<^verbatim>\<open>'F'\<close>, \<dots>\<close>

abbreviation ch_A :: u8 where "ch_A \<equiv> 65"
abbreviation ch_B :: u8 where "ch_B \<equiv> 66"
abbreviation ch_C :: u8 where "ch_C \<equiv> 67"
abbreviation ch_D :: u8 where "ch_D \<equiv> 68"
abbreviation ch_E :: u8 where "ch_E \<equiv> 69"
abbreviation ch_F :: u8 where "ch_F \<equiv> 70"
abbreviation ch_R :: u8 where "ch_R \<equiv> 82"
abbreviation ch_S :: u8 where "ch_S \<equiv> 83"
abbreviation ch_U :: u8 where "ch_U \<equiv> 85"
abbreviation ch_X :: u8 where "ch_X \<equiv> 88"
abbreviation ch_space :: u8 where "ch_space \<equiv> 32"

section \<open>Decoders\<close>

record itch_header =
  ih_type :: u8
  ih_locate :: u16
  ih_tracking :: u16
  ih_timestamp_ns :: u64

definition parse_header :: "u8 list \<Rightarrow> itch_header option" where
  "parse_header b =
    (if length b < 11 then None
     else Some \<lparr>ih_type = b ! 0, ih_locate = be16 b 1, ih_tracking = be16 b 3, ih_timestamp_ns = be48 b 5\<rparr>)"

text \<open>\<^verbatim>\<open>trim_symbol\<close>: the eight characters without trailing blanks or zeros.\<close>

fun trim_from :: "u8 list \<Rightarrow> nat \<Rightarrow> nat" where
  "trim_from s8 0 = 0"
| "trim_from s8 (Suc n) = (if s8 ! n = ch_space \<or> s8 ! n = 0 then trim_from s8 n else Suc n)"

definition trim_symbol :: "u8 list \<Rightarrow> u8 list" where
  "trim_symbol s8 = take (trim_from s8 8) s8"

text \<open>The nine-byte \<^verbatim>\<open>stock\<close> field: eight bytes copied and a terminator.\<close>

definition copy_stock :: "u8 list \<Rightarrow> nat \<Rightarrow> u8 list" where
  "copy_stock b off = take 8 (drop off b) @ [0]"

record stock_directory =
  sdir_h :: itch_header
  sdir_stock :: "u8 list"

definition parse_stock_directory :: "u8 list \<Rightarrow> stock_directory option" where
  "parse_stock_directory b =
    (if length b < kLenStockDirectory \<or> b ! 0 \<noteq> ch_R then None
     else map_option (\<lambda>h. \<lparr>sdir_h = h, sdir_stock = copy_stock b 11\<rparr>) (parse_header b))"

record add_order_msg =
  ao_h :: itch_header
  ao_order_ref :: u64
  ao_side :: u8
  ao_shares :: u32
  ao_stock :: "u8 list"
  ao_price :: u32
  ao_has_mpid :: bool

definition parse_add_order :: "u8 list \<Rightarrow> add_order_msg option" where
  "parse_add_order b =
    (if length b < 1 \<or> b ! 0 \<noteq> ch_A \<and> b ! 0 \<noteq> ch_F then None
     else if length b < (if b ! 0 = ch_A then kLenAdd else kLenAddMpid) then None
     else map_option (\<lambda>h. \<lparr>ao_h = h, ao_order_ref = be64 b 11, ao_side = b ! 19, ao_shares = be32 b 20,
       ao_stock = copy_stock b 24, ao_price = be32 b 32, ao_has_mpid = (b ! 0 = ch_F)\<rparr>) (parse_header b))"

record order_executed_msg =
  oe_h :: itch_header
  oe_order_ref :: u64
  oe_shares :: u32
  oe_match :: u64
  oe_has_price :: bool
  oe_printable :: u8
  oe_price :: u32

definition parse_order_executed :: "u8 list \<Rightarrow> order_executed_msg option" where
  "parse_order_executed b =
    (if length b < 1 \<or> b ! 0 \<noteq> ch_E \<and> b ! 0 \<noteq> ch_C then None
     else if length b < (if b ! 0 = ch_E then kLenExec else kLenExecPrice) then None
     else map_option (\<lambda>h. \<lparr>oe_h = h, oe_order_ref = be64 b 11, oe_shares = be32 b 19, oe_match = be64 b 23,
       oe_has_price = (b ! 0 = ch_C), oe_printable = (if b ! 0 = ch_C then b ! 31 else 0),
       oe_price = (if b ! 0 = ch_C then be32 b 32 else 0)\<rparr>) (parse_header b))"

record order_cancel_msg =
  oc_h :: itch_header
  oc_order_ref :: u64
  oc_canceled_shares :: u32

definition parse_order_cancel :: "u8 list \<Rightarrow> order_cancel_msg option" where
  "parse_order_cancel b =
    (if length b < kLenCancel \<or> b ! 0 \<noteq> ch_X then None
     else map_option (\<lambda>h. \<lparr>oc_h = h, oc_order_ref = be64 b 11, oc_canceled_shares = be32 b 19\<rparr>) (parse_header b))"

record order_delete_msg =
  od_h :: itch_header
  od_order_ref :: u64

definition parse_order_delete :: "u8 list \<Rightarrow> order_delete_msg option" where
  "parse_order_delete b =
    (if length b < kLenDelete \<or> b ! 0 \<noteq> ch_D then None
     else map_option (\<lambda>h. \<lparr>od_h = h, od_order_ref = be64 b 11\<rparr>) (parse_header b))"

record order_replace_msg =
  orp_h :: itch_header
  orp_orig_ref :: u64
  orp_new_ref :: u64
  orp_shares :: u32
  orp_price :: u32

definition parse_order_replace :: "u8 list \<Rightarrow> order_replace_msg option" where
  "parse_order_replace b =
    (if length b < kLenReplace \<or> b ! 0 \<noteq> ch_U then None
     else map_option (\<lambda>h. \<lparr>orp_h = h, orp_orig_ref = be64 b 11, orp_new_ref = be64 b 19,
       orp_shares = be32 b 27, orp_price = be32 b 31\<rparr>) (parse_header b))"

text \<open>Every length check of the parsers covers the eleven bytes of the header.\<close>

lemma parse_header_Some: "11 \<le> length b \<Longrightarrow> \<exists>h. parse_header b = Some h \<and> ih_type h = b ! 0"
  by (simp add: parse_header_def)

section \<open>Trimming\<close>

lemma trim_from_le: "trim_from s8 n \<le> n"
  by (induction n) (auto simp: le_SucI)

lemma trim_from_last:
  "trim_from s8 n = Suc k \<Longrightarrow> s8 ! k \<noteq> ch_space \<and> s8 ! k \<noteq> 0"
  by (induction n) (auto split: if_splits)

lemma trim_from_dropped:
  "trim_from s8 n \<le> i \<Longrightarrow> i < n \<Longrightarrow> s8 ! i = ch_space \<or> s8 ! i = 0"
  by (induction n) (auto simp: less_Suc_eq split: if_splits)

text \<open>The symbol is the shortest prefix after which only blanks and zeros follow.\<close>

lemma trim_symbol_spec:
  assumes "8 \<le> length s8"
  shows "\<exists>pad. take 8 s8 = trim_symbol s8 @ pad \<and> set pad \<subseteq> {ch_space, 0} \<and>
    (trim_symbol s8 \<noteq> [] \<longrightarrow> last (trim_symbol s8) \<notin> {ch_space, 0})"
proof (intro exI conjI)
  let ?n = "trim_from s8 8"
  have n: "?n \<le> 8" by (rule trim_from_le)
  then have "take ?n s8 = take ?n (take 8 s8)" by (simp add: min_def)
  then show "take 8 s8 = trim_symbol s8 @ drop ?n (take 8 s8)"
    unfolding trim_symbol_def by (simp only: append_take_drop_id)
  show "set (drop ?n (take 8 s8)) \<subseteq> {ch_space, 0}"
  proof
    fix x assume "x \<in> set (drop ?n (take 8 s8))"
    then obtain j where "j < length (drop ?n (take 8 s8))" "x = drop ?n (take 8 s8) ! j"
      by (metis in_set_conv_nth)
    then have j: "?n + j < 8" "x = s8 ! (?n + j)" using assms by auto
    from trim_from_dropped [of s8 8 "?n + j"] j show "x \<in> {ch_space, 0}" by simp
  qed
  show "trim_symbol s8 \<noteq> [] \<longrightarrow> last (trim_symbol s8) \<notin> {ch_space, 0}"
  proof
    assume ne: "trim_symbol s8 \<noteq> []"
    then have "?n \<noteq> 0" by (simp only: trim_symbol_def) (metis take0)
    then obtain k where k: "?n = Suc k" using not0_implies_Suc by blast
    then have "k < length s8" using n assms by linarith
    then have "last (trim_symbol s8) = s8 ! k"
      unfolding trim_symbol_def k by (simp add: take_Suc_conv_app_nth)
    with trim_from_last [OF k] show "last (trim_symbol s8) \<notin> {ch_space, 0}" by simp
  qed
qed

end
