(* ===== verification/Containers.thy ===== *)
theory Containers
  imports Prelude
begin

text \<open>
  The standard containers the code uses, as sorted association lists: \<^verbatim>\<open>std::map\<close> (whose
  iteration order is the key order) and \<^verbatim>\<open>std::unordered_map\<close> (whose iteration order no
  modelled code depends on). Lookup is \<open>map_of\<close>.
\<close>

section \<open>Ordered maps\<close>

type_synonym ('k, 'v) omap = "('k \<times> 'v) list"

definition omap_ok :: "('k::linorder, 'v) omap \<Rightarrow> bool" where
  "omap_ok m = sorted_wrt (<) (map fst m)"

fun omap_put :: "'k::linorder \<Rightarrow> 'v \<Rightarrow> ('k, 'v) omap \<Rightarrow> ('k, 'v) omap" where
  "omap_put k v [] = [(k, v)]"
| "omap_put k v ((k', v') # m) =
    (if k < k' then (k, v) # (k', v') # m
     else if k = k' then (k, v) # m
     else (k', v') # omap_put k v m)"

definition omap_del :: "'k::linorder \<Rightarrow> ('k, 'v) omap \<Rightarrow> ('k, 'v) omap" where
  "omap_del k m = filter (\<lambda>e. fst e \<noteq> k) m"

lemma map_of_omap_put [simp]: "map_of (omap_put k v m) = (map_of m)(k \<mapsto> v)"
  by (induction k v m rule: omap_put.induct) auto

lemma map_of_omap_del [simp]: "map_of (omap_del k m) = (map_of m)(k := None)"
  unfolding omap_del_def by (induction m) (auto simp: fun_eq_iff)

lemma omap_ok_simps [simp]:
  "omap_ok []" "omap_ok ((k, v) # m) \<longleftrightarrow> (\<forall>x\<in>fst ` set m. k < x) \<and> omap_ok m"
  by (simp_all add: omap_ok_def)

lemma fst_omap_put [simp]: "fst ` set (omap_put k v m) = insert k (fst ` set m)"
  by (induction k v m rule: omap_put.induct) auto

lemma omap_ok_put [simp]: "omap_ok m \<Longrightarrow> omap_ok (omap_put k v m)"
  by (induction k v m rule: omap_put.induct) auto

lemma omap_ok_del [simp]: "omap_ok m \<Longrightarrow> omap_ok (omap_del k m)"
  unfolding omap_del_def by (induction m) auto

lemma omap_ok_distinct: "omap_ok m \<Longrightarrow> distinct (map fst m)"
  unfolding omap_ok_def by (rule strict_sorted_iff [THEN iffD1, THEN conjunct2])

lemma omap_mem:
  assumes "omap_ok m"
  shows "(k, v) \<in> set m \<longleftrightarrow> map_of m k = Some v"
  using omap_ok_distinct [OF assms] by (simp add: map_of_eq_Some_iff)

text \<open>A map is determined by its lookups.\<close>

lemma omap_ext:
  assumes "omap_ok m" "omap_ok n" "map_of m = map_of n"
  shows "m = n"
proof -
  have s: "set m = set n" using omap_mem [OF assms(1)] omap_mem [OF assms(2)] assms(3) by auto
  then have "set (map fst m) = set (map fst n)" by simp
  then have "map fst m = map fst n"
    using assms(1,2) unfolding omap_ok_def by (metis strict_sorted_equal)
  moreover have "l = map (\<lambda>k. (k, the (map_of l k))) (map fst l)" if "omap_ok l" for l :: "('a, 'b) omap"
  proof -
    have "map (\<lambda>e. (fst e, the (map_of l (fst e)))) l = l"
      by (rule map_idI) (use omap_mem [OF that] in auto)
    then show ?thesis by (simp add: comp_def)
  qed
  ultimately show ?thesis using assms by metis
qed

section \<open>Weighted sums over a map\<close>

definition wsum :: "('v \<Rightarrow> nat) \<Rightarrow> ('k, 'v) omap \<Rightarrow> nat" where
  "wsum f m = sum_list (map (\<lambda>e. f (snd e)) m)"

lemma wsum_simps [simp]: "wsum f [] = 0" "wsum f (e # m) = f (snd e) + wsum f m"
  by (simp_all add: wsum_def)

text \<open>What an update does to a sum: the old entry leaves, the new one enters.\<close>

definition weight :: "('v \<Rightarrow> nat) \<Rightarrow> 'v option \<Rightarrow> nat" where
  "weight f e = (case e of None \<Rightarrow> 0 | Some v \<Rightarrow> f v)"

lemma weight_simps [simp]: "weight f None = 0" "weight f (Some v) = f v"
  by (simp_all add: weight_def)

lemma omap_notin: "omap_ok ((k', v') # m) \<Longrightarrow> k \<le> k' \<Longrightarrow> map_of m k = None"
  by (fastforce simp: map_of_eq_None_iff)

lemma wsum_put: "omap_ok m \<Longrightarrow> wsum f (omap_put k v m) + weight f (map_of m k) = wsum f m + f v"
proof (induction k v m rule: omap_put.induct)
  case (2 k v k' v' m)
  consider "k < k'" | "k = k'" | "k' < k" by (rule linorder_cases)
  then show ?case
  proof cases
    case 1
    with omap_notin [OF "2.prems", of k] have "map_of ((k', v') # m) k = None" by auto
    with 1 show ?thesis by simp
  next
    case 2
    then show ?thesis by simp
  next
    case 3
    with "2.IH" "2.prems" show ?thesis by auto
  qed
qed simp

lemma omap_del_Cons: "omap_del k (e # m) = (if fst e = k then omap_del k m else e # omap_del k m)"
  by (simp add: omap_del_def)

lemma omap_del_notin: "map_of m k = None \<Longrightarrow> omap_del k m = m"
  unfolding omap_del_def by (rule filter_True) (force simp: map_of_eq_None_iff)

lemma wsum_del: "omap_ok m \<Longrightarrow> wsum f (omap_del k m) + weight f (map_of m k) = wsum f m"
proof (induction m)
  case (Cons e m)
  obtain k' v' where e: "e = (k', v')" by force
  show ?case
  proof (cases "k' = k")
    case True
    have "map_of m k = None" using omap_notin [of k' v' m k] Cons.prems True by (simp add: e)
    with True show ?thesis by (simp add: e omap_del_Cons omap_del_notin)
  next
    case False
    with Cons show ?thesis by (simp add: e omap_del_Cons)
  qed
qed (simp add: omap_del_def)

lemma length_omap_put: "omap_ok m \<Longrightarrow> length (omap_put k v m) = (if map_of m k = None then Suc (length m) else length m)"
  using wsum_put [of m "\<lambda>_. 1" k v] by (cases "map_of m k") (simp_all add: wsum_def sum_list_triv)

lemma length_omap_del: "omap_ok m \<Longrightarrow> length (omap_del k m) = (if map_of m k = None then length m else length m - 1)"
  using wsum_del [of m "\<lambda>_. 1" k] by (cases "map_of m k") (simp_all add: wsum_def sum_list_triv)

lemma weight_le: "omap_ok m \<Longrightarrow> map_of m k = Some v \<Longrightarrow> f v \<le> wsum f m"
  using wsum_del [of m f k] by simp

end
