(* ===== verification/Ref_Book.thy ===== *)
theory Ref_Book
  imports Itch50 Containers
begin

text \<open>
  \<^verbatim>\<open>hft::itch50::RefBook\<close>, the reference book the replay compares the engine with: a table
  of orders and, per side, a map from price to total quantity and order count. The theory shows
  that the maps stay the exact totals of the table.
\<close>

section \<open>State and operations\<close>

record ref_order =
  ro_side :: u8
  ro_price :: u32
  ro_qty :: u32

record ref_level =
  rl_qty :: u64
  rl_orders :: u32

record ref_book =
  rb_orders :: "(u64, ref_order) omap"
  rb_bids :: "(u32, ref_level) omap"
  rb_asks :: "(u32, ref_level) omap"
  rb_unknown_ref :: u64
  rb_over_reduce :: u64
  rb_duplicate_ref :: u64

definition ref_book_init :: ref_book where
  "ref_book_init = \<lparr>rb_orders = [], rb_bids = [], rb_asks = [], rb_unknown_ref = 0, rb_over_reduce = 0,
     rb_duplicate_ref = 0\<rparr>"

text \<open>\<^verbatim>\<open>level(s)\<close>: the map of a side, read and written.\<close>

definition rb_level :: "ref_book \<Rightarrow> u8 \<Rightarrow> (u32, ref_level) omap" where
  "rb_level rb s = (if s = ch_B then rb_bids rb else rb_asks rb)"

definition set_rb_level :: "ref_book \<Rightarrow> u8 \<Rightarrow> (u32, ref_level) omap \<Rightarrow> ref_book" where
  "set_rb_level rb s m = (if s = ch_B then rb\<lparr>rb_bids := m\<rparr> else rb\<lparr>rb_asks := m\<rparr>)"

definition rb_add :: "ref_book \<Rightarrow> u64 \<Rightarrow> u8 \<Rightarrow> u32 \<Rightarrow> u32 \<Rightarrow> ref_book" where
  "rb_add rb ref sd px q =
    (if map_of (rb_orders rb) ref \<noteq> None then rb\<lparr>rb_duplicate_ref := rb_duplicate_ref rb + 1\<rparr>
     else (let rb1 = rb\<lparr>rb_orders := omap_put ref \<lparr>ro_side = sd, ro_price = px, ro_qty = q\<rparr> (rb_orders rb)\<rparr>;
               l = (case map_of (rb_level rb1 sd) px of Some l \<Rightarrow> l | None \<Rightarrow> \<lparr>rl_qty = 0, rl_orders = 0\<rparr>)
           in set_rb_level rb1 sd (omap_put px \<lparr>rl_qty = rl_qty l + ucast q, rl_orders = rl_orders l + 1\<rparr> (rb_level rb1 sd))))"

definition sub_level :: "ref_book \<Rightarrow> u8 \<Rightarrow> u32 \<Rightarrow> u32 \<Rightarrow> bool \<Rightarrow> ref_book" where
  "sub_level rb s px q order_gone =
    (case map_of (rb_level rb s) px of
       None \<Rightarrow> rb
     | Some l \<Rightarrow>
        (let q1 = rl_qty l - min (rl_qty l) (ucast q);
             n1 = (if order_gone \<and> rl_orders l > 0 then rl_orders l - 1 else rl_orders l)
         in if q1 = 0 then set_rb_level rb s (omap_del px (rb_level rb s))
            else set_rb_level rb s (omap_put px \<lparr>rl_qty = q1, rl_orders = n1\<rparr> (rb_level rb s))))"

definition rb_reduce :: "ref_book \<Rightarrow> u64 \<Rightarrow> u32 \<Rightarrow> ref_book" where
  "rb_reduce rb ref by1 =
    (case map_of (rb_orders rb) ref of
       None \<Rightarrow> rb\<lparr>rb_unknown_ref := rb_unknown_ref rb + 1\<rparr>
     | Some ro \<Rightarrow>
        (let over = by1 > ro_qty ro;
             d = (if over then ro_qty ro else by1);
             rb1 = (if over then rb\<lparr>rb_over_reduce := rb_over_reduce rb + 1\<rparr> else rb);
             ro1 = ro\<lparr>ro_qty := ro_qty ro - d\<rparr>;
             rb2 = rb1\<lparr>rb_orders := omap_put ref ro1 (rb_orders rb1)\<rparr>;
             rb3 = sub_level rb2 (ro_side ro1) (ro_price ro1) d (ro_qty ro1 = 0)
         in if ro_qty ro1 = 0 then rb3\<lparr>rb_orders := omap_del ref (rb_orders rb3)\<rparr> else rb3))"

definition rb_remove :: "ref_book \<Rightarrow> u64 \<Rightarrow> ref_book" where
  "rb_remove rb ref =
    (case map_of (rb_orders rb) ref of
       None \<Rightarrow> rb\<lparr>rb_unknown_ref := rb_unknown_ref rb + 1\<rparr>
     | Some ro \<Rightarrow>
        (let rb1 = sub_level rb (ro_side ro) (ro_price ro) (ro_qty ro) True
         in rb1\<lparr>rb_orders := omap_del ref (rb_orders rb1)\<rparr>))"

definition rb_replace :: "ref_book \<Rightarrow> u64 \<Rightarrow> u64 \<Rightarrow> u32 \<Rightarrow> u32 \<Rightarrow> ref_book" where
  "rb_replace rb orig nref shares px =
    (case map_of (rb_orders rb) orig of
       None \<Rightarrow> rb\<lparr>rb_unknown_ref := rb_unknown_ref rb + 1\<rparr>
     | Some ro \<Rightarrow> rb_add (rb_remove rb orig) nref (ro_side ro) px shares)"

record bbo =
  bb_bid_px :: u32
  bb_ask_px :: u32
  bb_bid_qty :: u64
  bb_ask_qty :: u64
  bb_bid_levels :: nat
  bb_ask_levels :: nat
  bb_orders :: nat

definition rb_bbo :: "ref_book \<Rightarrow> bbo" where
  "rb_bbo rb = \<lparr>
     bb_bid_px = (if rb_bids rb \<noteq> [] then fst (last (rb_bids rb)) else 0),
     bb_ask_px = (if rb_asks rb \<noteq> [] then fst (hd (rb_asks rb)) else 0),
     bb_bid_qty = (if rb_bids rb \<noteq> [] then rl_qty (snd (last (rb_bids rb))) else 0),
     bb_ask_qty = (if rb_asks rb \<noteq> [] then rl_qty (snd (hd (rb_asks rb))) else 0),
     bb_bid_levels = length (rb_bids rb), bb_ask_levels = length (rb_asks rb),
     bb_orders = length (rb_orders rb)\<rparr>"

text \<open>\<^verbatim>\<open>depth\<close>: price, quantity and order count of every level, best first.\<close>

definition rb_depth :: "ref_book \<Rightarrow> u8 \<Rightarrow> (u32 \<times> u64 \<times> u32) list" where
  "rb_depth rb s = map (\<lambda>(px, l). (px, rl_qty l, rl_orders l))
     (if s = ch_B then rev (rb_bids rb) else rb_asks rb)"

definition rb_crossed :: "ref_book \<Rightarrow> bool" where
  "rb_crossed rb \<longleftrightarrow> rb_bids rb \<noteq> [] \<and> rb_asks rb \<noteq> [] \<and> fst (last (rb_bids rb)) \<ge> fst (hd (rb_asks rb))"

section \<open>Levels are the totals of the orders\<close>

text \<open>Quantity and number of the orders of one side at one price.\<close>

definition at_level :: "bool \<Rightarrow> u32 \<Rightarrow> ref_order \<Rightarrow> bool" where
  "at_level d px ro \<longleftrightarrow> (ro_side ro = ch_B) = d \<and> ro_price ro = px"

definition q_at :: "bool \<Rightarrow> u32 \<Rightarrow> ref_order \<Rightarrow> nat" where
  "q_at d px ro = (if at_level d px ro then unat (ro_qty ro) else 0)"

definition n_at :: "bool \<Rightarrow> u32 \<Rightarrow> ref_order \<Rightarrow> nat" where
  "n_at d px ro = (if at_level d px ro then 1 else 0)"

text \<open>The level a side's map must hold for a price, given the orders.\<close>

definition level_of :: "(u64, ref_order) omap \<Rightarrow> bool \<Rightarrow> u32 \<Rightarrow> ref_level option" where
  "level_of os d px = (if wsum (n_at d px) os = 0 then None
     else Some \<lparr>rl_qty = of_nat (wsum (q_at d px) os), rl_orders = of_nat (wsum (n_at d px) os)\<rparr>)"

definition rb_map :: "ref_book \<Rightarrow> bool \<Rightarrow> (u32, ref_level) omap" where
  "rb_map rb d = (if d then rb_bids rb else rb_asks rb)"

text \<open>\<open>levels_match rb os\<close>: both maps hold exactly the levels of the orders \<open>os\<close>.\<close>

definition levels_match :: "ref_book \<Rightarrow> (u64, ref_order) omap \<Rightarrow> bool" where
  "levels_match rb os \<longleftrightarrow> (\<forall>d. omap_ok (rb_map rb d) \<and> (\<forall>px. map_of (rb_map rb d) px = level_of os d px))"

definition orders_ok :: "(u64, ref_order) omap \<Rightarrow> bool" where
  "orders_ok os \<longleftrightarrow> omap_ok os \<and> (\<forall>(k, ro)\<in>set os. ro_qty ro \<noteq> 0) \<and> length os < 2 ^ 32"

definition rb_inv :: "ref_book \<Rightarrow> bool" where
  "rb_inv rb \<longleftrightarrow> orders_ok (rb_orders rb) \<and> levels_match rb (rb_orders rb)"

lemma rb_inv_init: "rb_inv ref_book_init"
  by (simp add: rb_inv_def orders_ok_def levels_match_def ref_book_init_def rb_map_def level_of_def)

lemma rb_level_map: "rb_level rb s = rb_map rb (s = ch_B)"
  by (simp add: rb_level_def rb_map_def)

lemma rb_map_set [simp]:
  "rb_map (set_rb_level rb s m) d = (if d = (s = ch_B) then m else rb_map rb d)"
  by (auto simp: rb_map_def set_rb_level_def)

lemma rb_orders_set [simp]: "rb_orders (set_rb_level rb s m) = rb_orders rb"
  by (simp add: set_rb_level_def)

lemma rb_map_upd [simp]:
  "rb_map (rb\<lparr>rb_orders := os\<rparr>) d = rb_map rb d" "rb_map (rb\<lparr>rb_unknown_ref := n\<rparr>) d = rb_map rb d"
  "rb_map (rb\<lparr>rb_over_reduce := n\<rparr>) d = rb_map rb d" "rb_map (rb\<lparr>rb_duplicate_ref := n\<rparr>) d = rb_map rb d"
  by (simp_all add: rb_map_def)

lemma rb_orders_sub_level [simp]: "rb_orders (sub_level rb s px q g) = rb_orders rb"
  by (simp add: sub_level_def Let_def split: option.splits)

lemma at_zero_iff:
  assumes "\<forall>(k, ro)\<in>set os. ro_qty ro \<noteq> 0"
  shows "wsum (q_at d px) os = 0 \<longleftrightarrow> wsum (n_at d px) os = 0"
  using assms by (induction os) (auto simp: q_at_def n_at_def unat_eq_zero)

lemma q_at_bound: "wsum (q_at d px) os \<le> length os * (2 ^ 32 - 1)"
proof (induction os)
  case (Cons e os)
  have "q_at d px (snd e) \<le> 2 ^ 32 - 1"
    using unat_u32_less [of "ro_qty (snd e)"] by (simp add: q_at_def)
  with Cons show ?case by simp
qed simp

lemma n_at_bound: "wsum (n_at d px) os \<le> length os"
  by (induction os) (auto simp: n_at_def)

lemma level_totals_small:
  assumes "length os < 2 ^ 32"
  shows "wsum (q_at d px) os < 2 ^ 64" "wsum (n_at d px) os < 2 ^ 32"
proof -
  have "length os \<le> 2 ^ 32 - 1" using assms by simp
  then have "length os * (2 ^ 32 - 1) \<le> (2 ^ 32 - 1) * (2 ^ 32 - 1)" by (rule mult_le_mono1)
  with q_at_bound [of d px os] have "wsum (q_at d px) os \<le> (2 ^ 32 - 1) * (2 ^ 32 - 1)" by (rule le_trans)
  then show "wsum (q_at d px) os < 2 ^ 64" by simp
  show "wsum (n_at d px) os < 2 ^ 32" using n_at_bound [of d px os] assms by simp
qed

lemma sub_level_match:
  assumes m: "levels_match rb os" and small: "length os < 2 ^ 32"
    and nz: "\<forall>(k, ro)\<in>set os'. ro_qty ro \<noteq> 0"
    and d: "d = (s = ch_B)"
    and qd: "wsum (q_at d px) os' + unat q = wsum (q_at d px) os"
    and nd: "wsum (n_at d px) os' + (if gone then 1 else 0) = wsum (n_at d px) os"
    and pos: "wsum (n_at d px) os \<noteq> 0"
    and other: "\<And>e py. e \<noteq> d \<or> py \<noteq> px \<Longrightarrow> wsum (q_at e py) os' = wsum (q_at e py) os \<and>
      wsum (n_at e py) os' = wsum (n_at e py) os"
  shows "levels_match (sub_level rb s px q gone) os'"
proof -
  let ?Q = "wsum (q_at d px) os" and ?Q' = "wsum (q_at d px) os'"
  let ?N = "wsum (n_at d px) os" and ?N' = "wsum (n_at d px) os'"
  note b = level_totals_small [OF small, of d px]
  have l: "map_of (rb_level rb s) px = Some \<lparr>rl_qty = of_nat ?Q, rl_orders = of_nat ?N\<rparr>"
    using m pos unfolding levels_match_def rb_level_map d [symmetric] by (simp add: level_of_def)
  have uQ: "unat (of_nat ?Q :: u64) = ?Q" using b(1) by (simp add: unsigned_of_nat take_bit_nat_eq_self)
  have "(ucast q :: u64) \<le> of_nat ?Q"
    unfolding word_le_nat_alt uQ unat_ucast_u32_u64 using qd by simp
  then have mn: "min (of_nat ?Q) (ucast q :: u64) = ucast q" by (simp add: min_def)
  have "unat (of_nat ?Q - (ucast q :: u64)) = ?Q'"
    using \<open>ucast q \<le> of_nat ?Q\<close> qd by (simp add: unat_sub_le uQ unat_ucast_u32_u64)
  then have q1: "of_nat ?Q - (ucast q :: u64) = of_nat ?Q'" by (metis of_nat_unat ucast_id)
  have "?Q' < 2 ^ 64" using b(1) qd by linarith
  then have z: "(of_nat ?Q' :: u64) = 0 \<longleftrightarrow> ?N' = 0"
    using of_nat_eq_0_small [of ?Q', where 'a = 64] at_zero_iff [OF nz, of d px] by simp
  have n1: "(if gone \<and> (of_nat ?N :: u32) > 0 then (of_nat ?N :: u32) - 1 else of_nat ?N) = of_nat ?N'"
  proof (cases gone)
    case True
    have "(of_nat ?N :: u32) \<noteq> 0" using of_nat_eq_0_small [of ?N, where 'a = 32] b(2) pos by simp
    moreover have "(of_nat ?N :: u32) = of_nat ?N' + 1" using nd True by (metis of_nat_Suc Suc_eq_plus1 add.commute)
    ultimately show ?thesis using True by (simp add: word_gt_0)
  qed (use nd in simp)
  have s: "sub_level rb s px q gone = set_rb_level rb s (if ?N' = 0 then omap_del px (rb_level rb s)
      else omap_put px \<lparr>rl_qty = of_nat ?Q', rl_orders = of_nat ?N'\<rparr> (rb_level rb s))"
    unfolding sub_level_def Let_def l option.case ref_level.simps mn q1 z n1 by simp
  show ?thesis
    unfolding levels_match_def s
  proof (intro allI conjI)
    fix e py
    show "omap_ok (rb_map (set_rb_level rb s (if ?N' = 0 then omap_del px (rb_level rb s)
      else omap_put px \<lparr>rl_qty = of_nat ?Q', rl_orders = of_nat ?N'\<rparr> (rb_level rb s))) e)"
      using m unfolding levels_match_def rb_level_map by auto
    show "map_of (rb_map (set_rb_level rb s (if ?N' = 0 then omap_del px (rb_level rb s)
      else omap_put px \<lparr>rl_qty = of_nat ?Q', rl_orders = of_nat ?N'\<rparr> (rb_level rb s))) e) py = level_of os' e py"
    proof (cases "e = d \<and> py = px")
      case True
      then show ?thesis by (auto simp: d rb_level_map level_of_def)
    next
      case False
      then have "level_of os' e py = level_of os e py" using other by (auto simp: level_of_def)
      also have "\<dots> = map_of (rb_map rb e) py" using m by (simp add: levels_match_def)
      finally show ?thesis using False by (auto simp: d rb_level_map)
    qed
  qed
qed

section \<open>Every operation keeps the totals\<close>

lemma orders_okD:
  assumes "orders_ok os"
  shows "omap_ok os" "\<forall>(k, ro)\<in>set os. ro_qty ro \<noteq> 0" "length os < 2 ^ 32"
    "map_of os k = Some ro \<Longrightarrow> ro_qty ro \<noteq> 0"
proof -
  show *: "omap_ok os" "\<forall>(k, ro)\<in>set os. ro_qty ro \<noteq> 0" "length os < 2 ^ 32"
    using assms by (simp_all add: orders_ok_def)
  show "map_of os k = Some ro \<Longrightarrow> ro_qty ro \<noteq> 0"
    using *(2) omap_mem [OF *(1), of k ro] by auto
qed

lemma orders_ok_put:
  assumes "orders_ok os" "ro_qty ro \<noteq> 0" "length os + 1 < 2 ^ 32"
  shows "orders_ok (omap_put k ro os)"
proof -
  note D = orders_okD [OF assms(1)]
  have "\<forall>(j, r)\<in>set (omap_put k ro os). ro_qty r \<noteq> 0"
  proof clarify
    fix j r assume "(j, r) \<in> set (omap_put k ro os)" "ro_qty r = 0"
    then show False
      using omap_mem [of "omap_put k ro os" j r] D(1) D(4) [of j r] assms(2) by (auto split: if_splits)
  qed
  with D(1) assms(3) show ?thesis by (simp add: orders_ok_def length_omap_put)
qed

lemma orders_ok_upd:
  assumes "orders_ok os" "ro_qty ro \<noteq> 0" "map_of os k = Some r0"
  shows "orders_ok (omap_put k ro os)"
proof -
  note D = orders_okD [OF assms(1)]
  have "\<forall>(j, r)\<in>set (omap_put k ro os). ro_qty r \<noteq> 0"
  proof clarify
    fix j r assume "(j, r) \<in> set (omap_put k ro os)" "ro_qty r = 0"
    then show False
      using omap_mem [of "omap_put k ro os" j r] D(1) D(4) [of j r] assms(2) by (auto split: if_splits)
  qed
  with D(1,3) assms(3) show ?thesis by (simp add: orders_ok_def length_omap_put)
qed

lemma orders_ok_del:
  assumes "orders_ok os"
  shows "orders_ok (omap_del k os)"
proof -
  note D = orders_okD [OF assms]
  have "set (omap_del k os) \<subseteq> set os" by (auto simp: omap_del_def)
  moreover have "length (omap_del k os) \<le> length os" by (simp add: omap_del_def)
  ultimately show ?thesis using D(1-3) unfolding orders_ok_def by (auto intro: omap_ok_del)
qed

text \<open>
  The effect of each operation on the table of orders, and that the level maps follow.
\<close>

lemma rb_add_inv:
  assumes inv: "rb_inv rb" and fresh: "map_of (rb_orders rb) ref = None" and q: "q \<noteq> 0"
    and room: "length (rb_orders rb) + 1 < 2 ^ 32"
  shows "rb_inv (rb_add rb ref sd px q)"
    and "rb_orders (rb_add rb ref sd px q) = omap_put ref \<lparr>ro_side = sd, ro_price = px, ro_qty = q\<rparr> (rb_orders rb)"
proof -
  let ?os = "rb_orders rb" let ?ro = "\<lparr>ro_side = sd, ro_price = px, ro_qty = q\<rparr>"
  let ?os' = "omap_put ref ?ro ?os"
  have ok: "orders_ok ?os" and m: "levels_match rb ?os" using inv by (simp_all add: rb_inv_def)
  note D = orders_okD [OF ok]
  have ok': "orders_ok ?os'" using orders_ok_put [OF ok _ room] q by simp
  let ?rb1 = "rb\<lparr>rb_orders := ?os'\<rparr>"
  define l where "l = (case map_of (rb_level ?rb1 sd) px of Some l \<Rightarrow> l | None \<Rightarrow> \<lparr>rl_qty = 0, rl_orders = 0\<rparr>)"
  have add: "rb_add rb ref sd px q = set_rb_level ?rb1 sd
      (omap_put px \<lparr>rl_qty = rl_qty l + ucast q, rl_orders = rl_orders l + 1\<rparr> (rb_level ?rb1 sd))"
    using fresh by (simp add: rb_add_def Let_def l_def)
  then show os: "rb_orders (rb_add rb ref sd px q) = ?os'" by simp
  have sums: "wsum (q_at e py) ?os' = wsum (q_at e py) ?os + q_at e py ?ro"
    "wsum (n_at e py) ?os' = wsum (n_at e py) ?os + n_at e py ?ro" for e py
    using wsum_put [OF D(1), of "q_at e py" ref ?ro] wsum_put [OF D(1), of "n_at e py" ref ?ro] fresh by simp_all
  have lv: "rl_qty l = of_nat (wsum (q_at (sd = ch_B) px) ?os)" "rl_orders l = of_nat (wsum (n_at (sd = ch_B) px) ?os)"
  proof -
    have "map_of (rb_level ?rb1 sd) px = level_of ?os (sd = ch_B) px"
      using m by (simp add: levels_match_def rb_level_map)
    moreover have "wsum (n_at (sd = ch_B) px) ?os = 0 \<Longrightarrow> wsum (q_at (sd = ch_B) px) ?os = 0"
      using at_zero_iff [OF D(2)] by blast
    ultimately show "rl_qty l = of_nat (wsum (q_at (sd = ch_B) px) ?os)"
      "rl_orders l = of_nat (wsum (n_at (sd = ch_B) px) ?os)"
      by (auto simp: l_def level_of_def)
  qed
  have new: "level_of ?os' (sd = ch_B) px = Some \<lparr>rl_qty = rl_qty l + ucast q, rl_orders = rl_orders l + 1\<rparr>"
    by (simp add: level_of_def sums q_at_def n_at_def at_level_def lv)
  have same: "level_of ?os' e py = level_of ?os e py" if "e \<noteq> (sd = ch_B) \<or> py \<noteq> px" for e py
    using that by (auto simp: level_of_def sums q_at_def n_at_def at_level_def)
  have "levels_match (rb_add rb ref sd px q) ?os'"
    unfolding levels_match_def add
  proof (intro allI conjI)
    fix e py
    let ?rb2 = "set_rb_level ?rb1 sd (omap_put px \<lparr>rl_qty = rl_qty l + ucast q, rl_orders = rl_orders l + 1\<rparr> (rb_level ?rb1 sd))"
    show "omap_ok (rb_map ?rb2 e)" using m by (auto simp: levels_match_def rb_level_map)
    show "map_of (rb_map ?rb2 e) py = level_of ?os' e py"
    proof (cases "e = (sd = ch_B) \<and> py = px")
      case True
      then show ?thesis by (simp add: rb_level_map new)
    next
      case False
      then show ?thesis using m same [of e py] by (auto simp: rb_level_map levels_match_def)
    qed
  qed
  then show "rb_inv (rb_add rb ref sd px q)" using ok' by (simp add: rb_inv_def os)
qed

lemma rb_remove_inv:
  assumes inv: "rb_inv rb" and ref: "map_of (rb_orders rb) ref = Some ro"
  shows "rb_inv (rb_remove rb ref)" and "rb_orders (rb_remove rb ref) = omap_del ref (rb_orders rb)"
proof -
  let ?os = "rb_orders rb" let ?os' = "omap_del ref ?os"
  have ok: "orders_ok ?os" and m: "levels_match rb ?os" using inv by (simp_all add: rb_inv_def)
  note D = orders_okD [OF ok]
  have rem: "rb_remove rb ref = (sub_level rb (ro_side ro) (ro_price ro) (ro_qty ro) True)\<lparr>rb_orders := ?os'\<rparr>"
    by (simp add: rb_remove_def ref)
  then show os: "rb_orders (rb_remove rb ref) = ?os'" by simp
  have sums: "wsum (q_at e py) ?os' + q_at e py ro = wsum (q_at e py) ?os"
    "wsum (n_at e py) ?os' + n_at e py ro = wsum (n_at e py) ?os" for e py
    using wsum_del [OF D(1), of "q_at e py" ref] wsum_del [OF D(1), of "n_at e py" ref] ref by simp_all
  let ?d = "ro_side ro = ch_B"
  have "levels_match (sub_level rb (ro_side ro) (ro_price ro) (ro_qty ro) True) ?os'"
  proof (rule sub_level_match [OF m D(3) _ refl])
    show "\<forall>(k, ro)\<in>set ?os'. ro_qty ro \<noteq> 0" using orders_okD(2) [OF orders_ok_del [OF ok]] .
    show "wsum (q_at ?d (ro_price ro)) ?os' + unat (ro_qty ro) = wsum (q_at ?d (ro_price ro)) ?os"
      using sums(1) [of ?d "ro_price ro"] by (simp add: q_at_def at_level_def)
    show "wsum (n_at ?d (ro_price ro)) ?os' + (if True then 1 else 0) = wsum (n_at ?d (ro_price ro)) ?os"
      "wsum (n_at ?d (ro_price ro)) ?os \<noteq> 0"
      using sums(2) [of ?d "ro_price ro"] by (simp_all add: n_at_def at_level_def)
    show "wsum (q_at e py) ?os' = wsum (q_at e py) ?os \<and> wsum (n_at e py) ?os' = wsum (n_at e py) ?os"
      if "e \<noteq> ?d \<or> py \<noteq> ro_price ro" for e py
      using sums [of e py] that by (auto simp: q_at_def n_at_def at_level_def)
  qed
  then show "rb_inv (rb_remove rb ref)"
    using orders_ok_del [OF ok] by (simp add: rb_inv_def rem levels_match_def)
qed

lemma rb_reduce_inv:
  assumes inv: "rb_inv rb" and ref: "map_of (rb_orders rb) ref = Some ro"
  shows "rb_inv (rb_reduce rb ref by1)"
    and "rb_orders (rb_reduce rb ref by1) = (if by1 \<ge> ro_qty ro then omap_del ref (rb_orders rb)
      else omap_put ref (ro\<lparr>ro_qty := ro_qty ro - by1\<rparr>) (rb_orders rb))"
proof -
  let ?os = "rb_orders rb"
  have ok: "orders_ok ?os" and m: "levels_match rb ?os" using inv by (simp_all add: rb_inv_def)
  note D = orders_okD [OF ok]
  define d where "d = (if by1 > ro_qty ro then ro_qty ro else by1)"
  define rb1 where "rb1 = (if by1 > ro_qty ro then rb\<lparr>rb_over_reduce := rb_over_reduce rb + 1\<rparr> else rb)"
  define ro1 where "ro1 = ro\<lparr>ro_qty := ro_qty ro - d\<rparr>"
  define rb2 where "rb2 = rb1\<lparr>rb_orders := omap_put ref ro1 (rb_orders rb1)\<rparr>"
  have dle: "d \<le> ro_qty ro" by (auto simp: d_def)
  have z: "ro_qty ro1 = 0 \<longleftrightarrow> by1 \<ge> ro_qty ro" by (auto simp: ro1_def d_def)
  have rb1: "rb_orders rb1 = ?os" "\<And>d. rb_map rb1 d = rb_map rb d" by (auto simp: rb1_def)
  have m2: "levels_match rb2 ?os" using m by (simp add: levels_match_def rb2_def rb1)
  define os' where "os' = (if ro_qty ro1 = 0 then omap_del ref ?os else omap_put ref ro1 ?os)"
  have del_put: "omap_del ref (omap_put ref ro1 ?os) = omap_del ref ?os"
    using D(1) by (intro omap_ext) auto
  have red: "rb_reduce rb ref by1 = (sub_level rb2 (ro_side ro1) (ro_price ro1) d (ro_qty ro1 = 0))\<lparr>rb_orders := os'\<rparr>"
  proof -
    let ?s = "sub_level rb2 (ro_side ro1) (ro_price ro1) d (ro_qty ro1 = 0)"
    have so: "rb_orders ?s = omap_put ref ro1 ?os" by (simp add: rb2_def rb1)
    have "rb_reduce rb ref by1 = (if ro_qty ro1 = 0 then ?s\<lparr>rb_orders := omap_del ref (rb_orders ?s)\<rparr> else ?s)"
      unfolding rb_reduce_def ref option.case Let_def d_def [symmetric] rb1_def [symmetric]
        ro1_def [symmetric] rb2_def [symmetric] by (rule refl)
    also have "\<dots> = ?s\<lparr>rb_orders := os'\<rparr>"
      unfolding so del_put os'_def using so by (cases "ro_qty ro1 = 0") simp_all
    finally show ?thesis .
  qed
  show os: "rb_orders (rb_reduce rb ref by1) = (if by1 \<ge> ro_qty ro then omap_del ref ?os
      else omap_put ref (ro\<lparr>ro_qty := ro_qty ro - by1\<rparr>) ?os)"
    unfolding red os'_def z by (auto simp: ro1_def d_def not_le)
  have ok': "orders_ok os'"
    using orders_ok_del [OF ok] orders_ok_upd [OF ok _ ref, of ro1] by (simp add: os'_def)
  have same: "at_level e py ro1 = at_level e py ro" for e py by (simp add: at_level_def ro1_def)
  have u: "unat (ro_qty ro1) + unat d = unat (ro_qty ro)"
    using dle by (simp add: ro1_def unat_sub_le word_le_nat_alt)
  have u0: "ro_qty ro1 = 0 \<Longrightarrow> unat d = unat (ro_qty ro)" using u by simp
  have sums: "wsum (q_at e py) os' + (if at_level e py ro then unat d else 0) = wsum (q_at e py) ?os"
    "wsum (n_at e py) os' + (if at_level e py ro \<and> ro_qty ro1 = 0 then 1 else 0) = wsum (n_at e py) ?os" for e py
    using wsum_del [OF D(1), of "q_at e py" ref] wsum_del [OF D(1), of "n_at e py" ref]
      wsum_put [OF D(1), of "q_at e py" ref ro1] wsum_put [OF D(1), of "n_at e py" ref ro1] ref u u0
    by (auto simp: os'_def q_at_def n_at_def same)
  have side1: "ro_side ro1 = ro_side ro" "ro_price ro1 = ro_price ro" by (simp_all add: ro1_def)
  let ?d = "ro_side ro = ch_B"
  have "n_at ?d (ro_price ro) ro \<le> wsum (n_at ?d (ro_price ro)) ?os" by (rule weight_le [OF D(1) ref])
  then have pos: "wsum (n_at ?d (ro_price ro)) ?os \<noteq> 0" by (simp add: n_at_def at_level_def)
  have "levels_match (sub_level rb2 (ro_side ro) (ro_price ro) d (ro_qty ro1 = 0)) os'"
  proof (rule sub_level_match [OF m2 D(3) orders_okD(2) [OF ok'] refl])
    show "wsum (q_at ?d (ro_price ro)) os' + unat d = wsum (q_at ?d (ro_price ro)) ?os"
      "wsum (n_at ?d (ro_price ro)) os' + (if ro_qty ro1 = 0 then 1 else 0) = wsum (n_at ?d (ro_price ro)) ?os"
      using sums [of ?d "ro_price ro"] by (simp_all add: at_level_def)
    show "wsum (q_at e py) os' = wsum (q_at e py) ?os \<and> wsum (n_at e py) os' = wsum (n_at e py) ?os"
      if "e \<noteq> ?d \<or> py \<noteq> ro_price ro" for e py
      using sums [of e py] that by (auto simp: at_level_def)
  qed (rule pos)
  then show "rb_inv (rb_reduce rb ref by1)"
    using ok' by (simp add: rb_inv_def red levels_match_def side1)
qed

lemma rb_replace_inv:
  assumes inv: "rb_inv rb" and ref: "map_of (rb_orders rb) orig = Some ro"
    and fresh: "map_of (omap_del orig (rb_orders rb)) nref = None" and q: "shares \<noteq> 0"
  shows "rb_inv (rb_replace rb orig nref shares px)"
    and "rb_orders (rb_replace rb orig nref shares px) =
      omap_put nref \<lparr>ro_side = ro_side ro, ro_price = px, ro_qty = shares\<rparr> (omap_del orig (rb_orders rb))"
proof -
  note R = rb_remove_inv [OF inv ref]
  have ok: "orders_ok (rb_orders rb)" using inv by (simp add: rb_inv_def)
  have "length (omap_del orig (rb_orders rb)) + 1 < 2 ^ 32"
  proof -
    have "0 < length (rb_orders rb)" using ref by (cases "rb_orders rb") auto
    then show ?thesis
      using length_omap_del [OF orders_okD(1) [OF ok], of orig] ref orders_okD(3) [OF ok] by simp
  qed
  with rb_add_inv [OF R(1), unfolded R(2), OF fresh q, of "ro_side ro" px] ref
  show "rb_inv (rb_replace rb orig nref shares px)"
    "rb_orders (rb_replace rb orig nref shares px) =
      omap_put nref \<lparr>ro_side = ro_side ro, ro_price = px, ro_qty = shares\<rparr> (omap_del orig (rb_orders rb))"
    by (simp_all add: rb_replace_def)
qed

end
