(* ===== verification/Translator.thy ===== *)
theory Translator
  imports Ref_Book Engine_Types
begin

text \<open>
  \<^verbatim>\<open>hft::itch50::Translator\<close>: from ITCH book events to engine messages, with the table of
  resting orders it needs (an ITCH reduction carries a reference and a share delta, an engine
  modify the remaining quantity). A result \<^verbatim>\<open>Out\<close> is the list of its \<^verbatim>\<open>n\<close> messages.
\<close>

section \<open>State and operations\<close>

record tr_counters =
  tc_adds :: u64
  tc_execs :: u64
  tc_partial_cancels :: u64
  tc_deletes :: u64
  tc_replaces :: u64
  tc_unknown_ref :: u64

record translator =
  tr_sym :: symbol_id
  tr_seq :: u64
  tr_orders :: "(u64, ref_order) omap"
  tr_c :: tr_counters

definition translator_init :: "symbol_id \<Rightarrow> translator" where
  "translator_init s = \<lparr>tr_sym = s, tr_seq = 0, tr_orders = [], tr_c = \<lparr>tc_adds = 0, tc_execs = 0,
     tc_partial_cancels = 0, tc_deletes = 0, tc_replaces = 0, tc_unknown_ref = 0\<rparr>\<rparr>"

text \<open>\<^verbatim>\<open>static_cast<engine::Price>(px) * 100\<close>: at most \<open>2 ^ 32 * 100\<close>, so the \<^verbatim>\<open>int64_t\<close> product is exact.\<close>

definition engine_price :: "u32 \<Rightarrow> price" where
  "engine_price px = int (unat px) * 100"

definition tr_make :: "translator \<Rightarrow> msg_type \<Rightarrow> u64 \<Rightarrow> u32 \<Rightarrow> u32 \<Rightarrow> u8 \<Rightarrow> md_msg \<times> translator" where
  "tr_make tr ty oid px q sd =
    (let tr1 = tr\<lparr>tr_seq := tr_seq tr + 1\<rparr>
     in (md_zero\<lparr>md_seq := tr_seq tr1, md_order_id := oid, md_price := engine_price px, md_qty := q,
           md_symbol := tr_sym tr, md_side := (if sd = ch_B then Buy else Sell), md_msg_type := ty,
           md_order_type := Limit\<rparr>, tr1))"

definition count_unknown :: "translator \<Rightarrow> translator" where
  "count_unknown tr = tr\<lparr>tr_c := (tr_c tr)\<lparr>tc_unknown_ref := tc_unknown_ref (tr_c tr) + 1\<rparr>\<rparr>"

definition on_add :: "translator \<Rightarrow> u64 \<Rightarrow> u8 \<Rightarrow> u32 \<Rightarrow> u32 \<Rightarrow> md_msg list \<times> translator" where
  "on_add tr ref sd px shares =
    (let tr1 = tr\<lparr>tr_orders := omap_put ref \<lparr>ro_side = sd, ro_price = px, ro_qty = shares\<rparr> (tr_orders tr),
           tr_c := (tr_c tr)\<lparr>tc_adds := tc_adds (tr_c tr) + 1\<rparr>\<rparr>;
         (m, tr2) = tr_make tr1 NewOrder ref px shares sd
     in ([m], tr2))"

definition on_reduce :: "translator \<Rightarrow> u64 \<Rightarrow> u32 \<Rightarrow> bool \<Rightarrow> md_msg list \<times> translator" where
  "on_reduce tr ref by1 is_exec =
    (case map_of (tr_orders tr) ref of
       None \<Rightarrow> ([], count_unknown tr)
     | Some ro \<Rightarrow>
        (let d = min by1 (ro_qty ro);
             ro1 = ro\<lparr>ro_qty := ro_qty ro - d\<rparr>;
             c = tr_c tr;
             tr1 = tr\<lparr>tr_orders := omap_put ref ro1 (tr_orders tr),
               tr_c := (if is_exec then c\<lparr>tc_execs := tc_execs c + 1\<rparr>
                 else c\<lparr>tc_partial_cancels := tc_partial_cancels c + 1\<rparr>)\<rparr>
         in if ro_qty ro1 = 0
            then (let (m, tr2) = tr_make tr1 CancelOrder ref (ro_price ro1) 0 (ro_side ro1)
                  in ([m], tr2\<lparr>tr_orders := omap_del ref (tr_orders tr2)\<rparr>))
            else (let (m, tr2) = tr_make tr1 ModifyOrder ref (ro_price ro1) (ro_qty ro1) (ro_side ro1)
                  in ([m], tr2))))"

definition on_delete :: "translator \<Rightarrow> u64 \<Rightarrow> md_msg list \<times> translator" where
  "on_delete tr ref =
    (case map_of (tr_orders tr) ref of
       None \<Rightarrow> ([], count_unknown tr)
     | Some ro \<Rightarrow>
        (let tr1 = tr\<lparr>tr_c := (tr_c tr)\<lparr>tc_deletes := tc_deletes (tr_c tr) + 1\<rparr>\<rparr>;
             (m, tr2) = tr_make tr1 CancelOrder ref (ro_price ro) 0 (ro_side ro)
         in ([m], tr2\<lparr>tr_orders := omap_del ref (tr_orders tr2)\<rparr>)))"

definition on_replace :: "translator \<Rightarrow> u64 \<Rightarrow> u64 \<Rightarrow> u32 \<Rightarrow> u32 \<Rightarrow> md_msg list \<times> translator" where
  "on_replace tr orig nref shares px =
    (case map_of (tr_orders tr) orig of
       None \<Rightarrow> ([], count_unknown tr)
     | Some ro \<Rightarrow>
        (let tr1 = tr\<lparr>tr_c := (tr_c tr)\<lparr>tc_replaces := tc_replaces (tr_c tr) + 1\<rparr>\<rparr>;
             sd = ro_side ro;
             (m1, tr2) = tr_make tr1 CancelOrder orig (ro_price ro) 0 sd;
             tr3 = tr2\<lparr>tr_orders := omap_put nref \<lparr>ro_side = sd, ro_price = px, ro_qty = shares\<rparr>
               (omap_del orig (tr_orders tr2))\<rparr>;
             (m2, tr4) = tr_make tr3 NewOrder nref px shares sd
         in ([m1, m2], tr4)))"

text \<open>The table is kept sorted by reference, which is the order \<^verbatim>\<open>std::sort\<close> gives the snapshot.\<close>

fun snapshot_from :: "translator \<Rightarrow> (u64, ref_order) omap \<Rightarrow> md_msg list \<times> translator" where
  "snapshot_from tr [] = ([], tr)"
| "snapshot_from tr ((r, ro) # os) =
    (let (m, tr1) = tr_make tr NewOrder r (ro_price ro) (ro_qty ro) (ro_side ro);
         (ms, tr2) = snapshot_from tr1 os
     in (m # ms, tr2))"

definition snapshot :: "translator \<Rightarrow> md_msg list \<times> translator" where
  "snapshot tr = snapshot_from tr (tr_orders tr)"

definition resting_count :: "translator \<Rightarrow> nat" where
  "resting_count tr = length (tr_orders tr)"

section \<open>One event on both sides\<close>

text \<open>The book events, as the replay applies them to the reference book and to the translator.\<close>

datatype itch_event =
    EvAdd u64 u8 u32 u32
  | EvReduce u64 u32 bool
  | EvDelete u64
  | EvReplace u64 u64 u32 u32

fun ref_apply :: "ref_book \<Rightarrow> itch_event \<Rightarrow> ref_book" where
  "ref_apply rb (EvAdd ref sd px q) = rb_add rb ref sd px q"
| "ref_apply rb (EvReduce ref by1 ex) = rb_reduce rb ref by1"
| "ref_apply rb (EvDelete ref) = rb_remove rb ref"
| "ref_apply rb (EvReplace orig nref q px) = rb_replace rb orig nref q px"

fun tr_apply :: "translator \<Rightarrow> itch_event \<Rightarrow> md_msg list \<times> translator" where
  "tr_apply tr (EvAdd ref sd px q) = on_add tr ref sd px q"
| "tr_apply tr (EvReduce ref by1 ex) = on_reduce tr ref by1 ex"
| "tr_apply tr (EvDelete ref) = on_delete tr ref"
| "tr_apply tr (EvReplace orig nref q px) = on_replace tr orig nref q px"

text \<open>What an event does to a table of orders, when its new references are unused.\<close>

definition reduced :: "u64 \<Rightarrow> u32 \<Rightarrow> (u64, ref_order) omap \<Rightarrow> (u64, ref_order) omap" where
  "reduced ref by1 os = (case map_of os ref of None \<Rightarrow> os
     | Some ro \<Rightarrow> if by1 \<ge> ro_qty ro then omap_del ref os else omap_put ref (ro\<lparr>ro_qty := ro_qty ro - by1\<rparr>) os)"

fun ev_orders :: "(u64, ref_order) omap \<Rightarrow> itch_event \<Rightarrow> (u64, ref_order) omap" where
  "ev_orders os (EvAdd ref sd px q) = omap_put ref \<lparr>ro_side = sd, ro_price = px, ro_qty = q\<rparr> os"
| "ev_orders os (EvReduce ref by1 ex) = reduced ref by1 os"
| "ev_orders os (EvDelete ref) = omap_del ref os"
| "ev_orders os (EvReplace orig nref q px) = (case map_of os orig of None \<Rightarrow> os
     | Some ro \<Rightarrow> omap_put nref \<lparr>ro_side = ro_side ro, ro_price = px, ro_qty = q\<rparr> (omap_del orig os))"

text \<open>
  An ordinary event: a new reference is not zero and not in use, a new order has shares, and the
  table does not outgrow its counters.
\<close>

fun ev_ok :: "(u64, ref_order) omap \<Rightarrow> itch_event \<Rightarrow> bool" where
  "ev_ok os (EvAdd ref sd px q) \<longleftrightarrow> ref \<noteq> 0 \<and> map_of os ref = None \<and> q \<noteq> 0 \<and> length os + 1 < 2 ^ 32"
| "ev_ok os (EvReduce ref by1 ex) \<longleftrightarrow> True"
| "ev_ok os (EvDelete ref) \<longleftrightarrow> True"
| "ev_ok os (EvReplace orig nref q px) \<longleftrightarrow>
    (map_of os orig \<noteq> None \<longrightarrow> nref \<noteq> 0 \<and> q \<noteq> 0 \<and> (nref = orig \<or> map_of os nref = None))"

lemma ref_apply_orders:
  assumes inv: "rb_inv rb" and ok: "ev_ok (rb_orders rb) ev"
  shows "rb_inv (ref_apply rb ev) \<and> rb_orders (ref_apply rb ev) = ev_orders (rb_orders rb) ev"
proof (cases ev)
  case (EvAdd ref sd px q)
  with ok rb_add_inv [OF inv, of ref q sd px] show ?thesis by simp
next
  case (EvReduce ref by1 ex)
  show ?thesis
  proof (cases "map_of (rb_orders rb) ref")
    case None
    with inv EvReduce show ?thesis
      by (simp add: rb_reduce_def reduced_def rb_inv_def levels_match_def)
  next
    case (Some ro)
    with rb_reduce_inv [OF inv Some, of by1] EvReduce show ?thesis by (simp add: reduced_def)
  qed
next
  case (EvDelete ref)
  show ?thesis
  proof (cases "map_of (rb_orders rb) ref")
    case None
    with inv EvDelete show ?thesis
      by (simp add: rb_remove_def rb_inv_def levels_match_def omap_del_notin)
  next
    case (Some ro)
    with rb_remove_inv [OF inv Some] EvDelete show ?thesis by simp
  qed
next
  case (EvReplace orig nref q px)
  show ?thesis
  proof (cases "map_of (rb_orders rb) orig")
    case None
    with inv EvReplace show ?thesis by (simp add: rb_replace_def rb_inv_def levels_match_def)
  next
    case (Some ro)
    then have "map_of (omap_del orig (rb_orders rb)) nref = None" "q \<noteq> 0" using ok EvReplace by auto
    with rb_replace_inv [OF inv Some, of nref q px] Some EvReplace show ?thesis by simp
  qed
qed

lemma tr_make_simps [simp]:
  "tr_orders (snd (tr_make tr ty oid px q sd)) = tr_orders tr"
  "tr_sym (snd (tr_make tr ty oid px q sd)) = tr_sym tr"
  by (simp_all add: tr_make_def Let_def)

lemma reduce_min:
  fixes a b :: "'a::len word"
  shows "b - min a b = 0 \<longleftrightarrow> a \<ge> b" and "\<not> a \<ge> b \<Longrightarrow> b - min a b = b - a"
  by (auto simp: min_def)

lemma tr_apply_orders:
  assumes ok: "omap_ok (tr_orders tr)"
  shows "tr_orders (snd (tr_apply tr ev)) = ev_orders (tr_orders tr) ev"
    and "tr_sym (snd (tr_apply tr ev)) = tr_sym tr"
proof -
  have dp: "omap_del k (omap_put k v os) = omap_del k os" if "omap_ok os" for k and v :: ref_order and os :: "(u64, ref_order) omap"
    using that by (intro omap_ext) auto
  show "tr_orders (snd (tr_apply tr ev)) = ev_orders (tr_orders tr) ev"
    using ok by (cases ev)
      (auto simp: on_add_def on_reduce_def on_delete_def on_replace_def tr_make_def Let_def count_unknown_def
        reduced_def omap_del_notin dp reduce_min split: option.splits)
  show "tr_sym (snd (tr_apply tr ev)) = tr_sym tr"
    by (cases ev) (auto simp: on_add_def on_reduce_def on_delete_def on_replace_def tr_make_def Let_def count_unknown_def
        split: option.splits)
qed

end
