(* ===== verification/Book_Mirror.thy ===== *)
theory Book_Mirror
  imports Translator Book_Props "HOL-Library.Multiset"
begin

text \<open>
  The abstract engine book against the reference book: they mirror each other when the resting
  orders of every side are, with prices scaled by 100, the orders of the reference table. The
  theory shows that the mirrored books have the same levels (price, quantity, order count, best
  first), and that adding, cancelling and reducing keep them mirrored.
\<close>

section \<open>The relation\<close>

definition os_seq :: "(u64, ref_order) omap \<Rightarrow> bool \<Rightarrow> (order_id \<times> price \<times> qty) set" where
  "os_seq os d = {(k, engine_price (ro_price ro), ro_qty ro) | k ro. map_of os k = Some ro \<and> (ro_side ro = ch_B) = d}"

lemma os_seq_mem:
  "(k, p, q) \<in> os_seq os d \<longleftrightarrow>
    (\<exists>ro. map_of os k = Some ro \<and> (ro_side ro = ch_B) = d \<and> p = engine_price (ro_price ro) \<and> q = ro_qty ro)"
  by (auto simp: os_seq_def)

lemma os_seq_put:
  assumes "map_of os ref = None"
  shows "os_seq (omap_put ref ro os) d = (if (ro_side ro = ch_B) = d
    then insert (ref, engine_price (ro_price ro), ro_qty ro) (os_seq os d) else os_seq os d)"
proof (rule set_eqI)
  fix x :: "order_id \<times> price \<times> qty"
  obtain k p q where x: "x = (k, p, q)" by (metis prod_cases3)
  show "x \<in> os_seq (omap_put ref ro os) d \<longleftrightarrow> x \<in> (if (ro_side ro = ch_B) = d
    then insert (ref, engine_price (ro_price ro), ro_qty ro) (os_seq os d) else os_seq os d)"
    using assms by (cases "k = ref") (auto simp: x os_seq_mem)
qed

definition mirrors :: "abook \<Rightarrow> (u64, ref_order) omap \<Rightarrow> bool" where
  "mirrors A os \<longleftrightarrow> wf_abook A \<and> (\<forall>d. set (side_seq (A d)) = os_seq os d)"

lemma engine_price_eq [simp]: "engine_price a = engine_price b \<longleftrightarrow> a = b"
  by (simp add: engine_price_def word_uint_eq_iff)

lemma engine_price_less [simp]: "engine_price a < engine_price b \<longleftrightarrow> a < b" "engine_price a \<le> engine_price b \<longleftrightarrow> a \<le> b"
  by (simp_all add: engine_price_def word_less_def word_le_def)

lemma distinct_of_map: "distinct (map f xs) \<Longrightarrow> distinct xs"
  by (simp add: distinct_map)

lemma map_of_rev_distinct:
  assumes "distinct (map fst xs)"
  shows "map_of (rev xs) = map_of xs"
proof
  fix k
  have "distinct (map fst (rev xs))" using assms by (simp add: rev_map [symmetric])
  then have "map_of (rev xs) k = Some v \<longleftrightarrow> map_of xs k = Some v" for v using assms by simp
  then show "map_of (rev xs) k = map_of xs k" by (metis not_None_eq)
qed

lemma side_seq_mem: "(k, p, q) \<in> set (side_seq L) \<longleftrightarrow> (\<exists>R r. (p, R) \<in> set L \<and> r \<in> set R \<and> rs_id r = k \<and> rs_qty r = q)"
  by (induction L) (auto, blast+)

lemma length_side_seq: "length (side_seq L) = length (orders_of L)"
  by (induction L) auto

lemma fst_side_seq: "map fst (side_seq L) = map rs_id (orders_of L)"
  by (induction L) auto

lemma wf_empty_side: "mirrors A os \<Longrightarrow> set (side_seq (A d)) = os_seq os d" "mirrors A os \<Longrightarrow> wf_abook A"
  by (simp_all add: mirrors_def)

lemma mirrors_init: "mirrors abook_init []"
  by (auto simp: mirrors_def abook_init_def os_seq_def wf_abook_def wf_side_def num_orders_def)

lemma mirrors_ids:
  assumes "mirrors A os"
  shows "all_ids A = dom (map_of os)"
proof -
  have "fst ` set (side_seq (A d)) = rs_id ` set (orders_of (A d))" for d
    using arg_cong [OF fst_side_seq [of "A d"], of set] by simp
  then have "all_ids A = (\<Union>d. fst ` os_seq os d)"
    using wf_empty_side(1) [OF assms] by (auto simp: all_ids_def UNIV_bool image_Un)
  also have "\<dots> = dom (map_of os)" by (force simp: os_seq_def image_iff)
  finally show ?thesis .
qed

section \<open>The same number of orders\<close>

definition os_list :: "(u64, ref_order) omap \<Rightarrow> bool \<Rightarrow> (order_id \<times> price \<times> qty) list" where
  "os_list os d = map (\<lambda>(k, ro). (k, engine_price (ro_price ro), ro_qty ro)) (filter (\<lambda>(k, ro). (ro_side ro = ch_B) = d) os)"

lemma os_list_props:
  assumes ok: "omap_ok os"
  shows "distinct (map fst (os_list os d))" "set (os_list os d) = os_seq os d"
proof -
  have "map fst (os_list os d) = map fst (filter (\<lambda>(k, ro). (ro_side ro = ch_B) = d) os)"
    by (simp add: os_list_def case_prod_unfold comp_def)
  then show "distinct (map fst (os_list os d))"
    using omap_ok_distinct [OF ok] by (simp add: distinct_map_filter)
  show "set (os_list os d) = os_seq os d"
    using omap_mem [OF ok] by (force simp: os_list_def os_seq_def)
qed

lemma mirrors_mset:
  assumes m: "mirrors A os" and ok: "omap_ok os"
  shows "mset (side_seq (A d)) = mset (os_list os d)"
proof -
  have "distinct (map fst (side_seq (A d)))"
    unfolding fst_side_seq using wf_sideD(5) [OF wf_empty_side(2) [OF m]] by blast
  then have "distinct (side_seq (A d))" by (rule distinct_of_map)
  moreover have "distinct (os_list os d)" using os_list_props(1) [OF ok] by (rule distinct_of_map)
  ultimately show ?thesis
    using wf_empty_side(1) [OF m, of d] os_list_props(2) [OF ok, of d] set_eq_iff_mset_eq_distinct by blast
qed

lemma os_list_length: "length (os_list os True) + length (os_list os False) = length os"
  by (induction os) (auto simp: os_list_def)

lemma mirrors_num_orders:
  assumes "mirrors A os" "omap_ok os"
  shows "num_orders A = length os"
proof -
  have "length (orders_of (A d)) = length (os_list os d)" for d
    using arg_cong [OF mirrors_mset [OF assms, of d], of size] by (simp add: length_side_seq)
  then show ?thesis by (simp add: num_orders_def os_list_length)
qed

section \<open>The same levels\<close>

lemma wsum_filter: "wsum (\<lambda>v. if P v then f v else 0) m = sum_list (map (\<lambda>e. f (snd e)) (filter (\<lambda>e. P (snd e)) m))"
  by (induction m) auto

lemma side_seq_at:
  assumes "distinct (prices_of L)" "(p, R) \<in> set L"
  shows "filter (\<lambda>x. fst (snd x) = p) (side_seq L) = map (\<lambda>r. (rs_id r, p, rs_qty r)) R"
  using assms
proof (induction L)
  case (Cons l L)
  obtain p' R' where l: "l = (p', R')" by force
  have none: "filter (\<lambda>x. fst (snd x) = p) (side_seq M) = []" if "p \<notin> set (prices_of M)" for M
    using that by (induction M) (auto simp: filter_empty_conv)
  show ?case
  proof (cases "p' = p")
    case True
    with Cons.prems l have "R' = R" "p \<notin> set (prices_of L)" by (force simp: rev_image_eqI)+
    then show ?thesis using none True by (simp add: l)
  next
    case False
    with Cons l show ?thesis by (auto simp: filter_empty_conv)
  qed
qed simp

lemma level_totals:
  assumes m: "mirrors A os" and ok: "omap_ok os" and mem: "(engine_price px, R) \<in> set (A d)"
  shows "sum_list (map (\<lambda>r. unat (rs_qty r)) R) = wsum (q_at d px) os" "length R = wsum (n_at d px) os"
proof -
  let ?P = "\<lambda>x. fst (snd x) = engine_price px"
  have dist: "distinct (prices_of (A d))"
    using ordered_distinct wf_sideD(1) [OF wf_empty_side(2) [OF m], of d] by blast
  have "filter_mset ?P (mset (side_seq (A d))) = filter_mset ?P (mset (os_list os d))"
    by (simp only: mirrors_mset [OF m ok])
  then have ms: "mset (map (\<lambda>r. (rs_id r, engine_price px, rs_qty r)) R) = mset (filter ?P (os_list os d))"
    using side_seq_at [OF dist mem] by (metis mset_filter)
  have fl: "filter ?P (os_list os d) = map (\<lambda>(k, ro). (k, engine_price (ro_price ro), ro_qty ro))
      (filter (\<lambda>e. at_level d px (snd e)) os)"
    unfolding os_list_def by (induction os) (auto simp: at_level_def)
  let ?g = "\<lambda>(k, p, q). unat q"
  have "sum_list (map (\<lambda>r. unat (rs_qty r)) R) = sum_mset (image_mset ?g (mset (map (\<lambda>r. (rs_id r, engine_price px, rs_qty r)) R)))"
    by (simp add: sum_mset_sum_list comp_def flip: mset_map)
  also have "\<dots> = sum_list (map ?g (filter ?P (os_list os d)))"
    unfolding ms by (simp only: mset_map [symmetric] sum_mset_sum_list)
  also have "\<dots> = wsum (q_at d px) os"
    unfolding fl q_at_def wsum_filter by (simp add: comp_def case_prod_unfold)
  finally show "sum_list (map (\<lambda>r. unat (rs_qty r)) R) = wsum (q_at d px) os" .
  have "length R = size (mset (map (\<lambda>r. (rs_id r, engine_price px, rs_qty r)) R))" by simp
  also have "\<dots> = length (filter ?P (os_list os d))" unfolding ms by (rule size_mset)
  finally have "length R = length (filter ?P (os_list os d))" .
  then show "length R = wsum (n_at d px) os"
    unfolding fl n_at_def wsum_filter by (simp add: sum_list_triv)
qed

lemma mirrors_prices:
  assumes m: "mirrors A os" and ok: "omap_ok os"
  shows "p \<in> set (prices_of (A d)) \<longleftrightarrow> (\<exists>px. p = engine_price px \<and> wsum (n_at d px) os \<noteq> 0)"
proof
  have pos: "wsum (n_at d px) os \<noteq> 0 \<longleftrightarrow> (\<exists>k ro. map_of os k = Some ro \<and> at_level d px ro)" for px
  proof -
    have "wsum (n_at d px) os \<noteq> 0 \<longleftrightarrow> (\<exists>(k, ro)\<in>set os. at_level d px ro)"
      by (induction os) (auto simp: n_at_def)
    also have "\<dots> \<longleftrightarrow> (\<exists>k ro. map_of os k = Some ro \<and> at_level d px ro)" using omap_mem [OF ok] by auto
    finally show ?thesis .
  qed
  {
    assume "p \<in> set (prices_of (A d))"
    then obtain R where R: "(p, R) \<in> set (A d)" by auto
    then obtain r where "r \<in> set R" using wf_sideD(3) [OF wf_empty_side(2) [OF m], of "(p, R)" d]
      by (cases R) auto
    with R have "(rs_id r, p, rs_qty r) \<in> os_seq os d"
      using side_seq_mem wf_empty_side(1) [OF m, of d] by fastforce
    then show "\<exists>px. p = engine_price px \<and> wsum (n_at d px) os \<noteq> 0"
      unfolding pos by (auto simp: os_seq_def at_level_def)
  next
    assume "\<exists>px. p = engine_price px \<and> wsum (n_at d px) os \<noteq> 0"
    then obtain px k ro where "p = engine_price px" "map_of os k = Some ro" "at_level d px ro" unfolding pos by blast
    then have "(k, p, ro_qty ro) \<in> set (side_seq (A d))"
      unfolding wf_empty_side(1) [OF m] os_seq_def by (auto simp: at_level_def)
    then show "p \<in> set (prices_of (A d))" unfolding side_seq_mem by force
  }
qed

text \<open>Reading the levels of the reference book best first.\<close>

definition best_first :: "ref_book \<Rightarrow> bool \<Rightarrow> (u32 \<times> ref_level) list" where
  "best_first rb d = (if d then rev (rb_bids rb) else rb_asks rb)"

lemma rb_depth_best_first: "rb_depth rb s = map (\<lambda>(px, l). (px, rl_qty l, rl_orders l)) (best_first rb (s = ch_B))"
  by (simp add: rb_depth_def best_first_def)

lemma best_first_map: "rb_inv rb \<Longrightarrow> map_of (best_first rb d) px = level_of (rb_orders rb) d px"
proof -
  assume inv: "rb_inv rb"
  then have m: "omap_ok (rb_map rb d)" "map_of (rb_map rb d) px = level_of (rb_orders rb) d px"
    by (simp_all add: rb_inv_def levels_match_def)
  have "map_of (rev (rb_bids rb)) = map_of (rb_bids rb)" if "d"
    using omap_ok_distinct [of "rb_bids rb"] m that by (intro map_of_rev_distinct) (simp add: rb_map_def)
  then show ?thesis using m(2) by (cases d) (simp_all add: best_first_def rb_map_def)
qed

lemma best_first_ordered:
  assumes "rb_inv rb"
  shows "sorted_wrt (\<lambda>a b. better d (engine_price a) (engine_price b)) (map fst (best_first rb d))"
proof -
  have "sorted_wrt (<) (map fst (rb_map rb d))"
    using assms by (simp add: rb_inv_def levels_match_def omap_ok_def)
  then show ?thesis
    by (cases d) (simp_all add: best_first_def rb_map_def better_def rev_map [symmetric] sorted_wrt_rev)
qed

lemma ordered_unique:
  assumes "ordered d xs" "ordered d ys" "set xs = set ys"
  shows "xs = ys"
proof -
  have asc: "xs = ys" if "sorted_wrt (<) xs" "sorted_wrt (<) ys" "set xs = set ys" for xs ys :: "price list"
    using that by (metis strict_sorted_equal)
  show ?thesis
  proof (cases d)
    case True
    then have "rev xs = rev ys" using assms by (intro asc) (simp_all add: ordered_def better_def [abs_def] sorted_wrt_rev)
    then show ?thesis by simp
  next
    case False
    then show ?thesis using assms by (intro asc) (simp_all add: ordered_def better_def [abs_def])
  qed
qed

lemma alist_by_keys:
  assumes "distinct (map fst xs)"
  shows "xs = map (\<lambda>k. (k, the (map_of xs k))) (map fst xs)"
proof -
  have "map (\<lambda>e. (fst e, the (map_of xs (fst e)))) xs = xs"
    by (rule map_idI) (use assms in auto)
  then show ?thesis by (simp add: comp_def)
qed

lemma level_qty_unat: "level_qty R = of_nat (sum_list (map (\<lambda>r. unat (rs_qty r)) R))"
proof (induction R)
  case (Cons r R)
  have "of_nat (unat (rs_qty r)) = rs_qty r" by (metis of_nat_unat ucast_id)
  with Cons show ?case by (simp add: level_qty_def)
qed (simp add: level_qty_def)

lemma ucast_of_nat_u32: "(ucast (of_nat n :: u64) :: u32) = of_nat n"
  by (rule bit_word_eqI) (simp add: bit_simps)

lemma mirrors_levels:
  assumes m: "mirrors A (rb_orders rb)" and inv: "rb_inv rb"
  shows "map (\<lambda>(p, R). (p, level_qty R, of_nat (length R) :: u32)) (A d) =
    map (\<lambda>(px, l). (engine_price px, ucast (rl_qty l), rl_orders l)) (best_first rb d)"
proof -
  let ?os = "rb_orders rb" let ?M = "best_first rb d"
  have ok: "omap_ok ?os" using inv by (simp add: rb_inv_def orders_ok_def)
  have ordL: "ordered d (prices_of (A d))" using wf_sideD(1) [OF wf_empty_side(2) [OF m]] .
  have ordM: "ordered d (map engine_price (map fst ?M))"
    using best_first_ordered [OF inv, of d] by (simp add: ordered_def sorted_wrt_map)
  have dM: "distinct (map fst ?M)" using ordered_distinct [OF ordM] by (rule distinct_of_map)
  have key: "px \<in> set (map fst ?M) \<longleftrightarrow> wsum (n_at d px) ?os \<noteq> 0" for px
  proof -
    have "px \<in> set (map fst ?M) \<longleftrightarrow> map_of ?M px \<noteq> None" by (simp add: map_of_eq_None_iff)
    then show ?thesis unfolding best_first_map [OF inv] level_of_def by simp
  qed
  have "set (prices_of (A d)) = set (map engine_price (map fst ?M))"
    unfolding set_map [of engine_price] by (rule set_eqI) (simp only: mirrors_prices [OF m ok] key [symmetric], blast)
  then have prices: "prices_of (A d) = map engine_price (map fst ?M)" by (rule ordered_unique [OF ordL ordM])
  have val: "(\<lambda>R. (level_qty R, of_nat (length R) :: u32)) R = (\<lambda>l. (ucast (rl_qty l), rl_orders l)) l"
    if "(engine_price px, R) \<in> set (A d)" "(px, l) \<in> set ?M" for px R l
  proof -
    have "map_of ?M px = Some l" using that(2) dM by simp
    then have "l = \<lparr>rl_qty = of_nat (wsum (q_at d px) ?os), rl_orders = of_nat (wsum (n_at d px) ?os)\<rparr>"
      unfolding best_first_map [OF inv] level_of_def by (simp split: if_splits)
    then show ?thesis using level_totals [OF m ok that(1)] by (simp add: level_qty_unat ucast_of_nat_u32)
  qed
  have len: "length (A d) = length ?M" using arg_cong [OF prices, of length] by simp
  show ?thesis
  proof (rule nth_equalityI)
    fix i assume "i < length (map (\<lambda>(p, R). (p, level_qty R, of_nat (length R) :: u32)) (A d))"
    then have i: "i < length (A d)" "i < length ?M" using len by simp_all
    obtain p R where a: "A d ! i = (p, R)" by force
    obtain px l where b: "?M ! i = (px, l)" by force
    have "p = engine_price px" using arg_cong [OF prices, of "\<lambda>xs. xs ! i"] i a b by simp
    moreover have "(p, R) \<in> set (A d)" "(px, l) \<in> set ?M" using i a b by (metis nth_mem)+
    ultimately show "map (\<lambda>(p, R). (p, level_qty R, of_nat (length R) :: u32)) (A d) ! i =
        map (\<lambda>(px, l). (engine_price px, ucast (rl_qty l), rl_orders l)) ?M ! i"
      using val [of px R l] i a b by simp
  qed (simp add: len)
qed

section \<open>Operations on the resting orders of a side\<close>

lemma ainsert_seq: "set (side_seq (ainsert d p r L)) = insert (rs_id r, p, rs_qty r) (set (side_seq L))"
  by (induction d p r L rule: ainsert.induct) auto

lemma acancel_mem:
  "(p, R') \<in> set (acancel_side oid L) \<longleftrightarrow>
    (\<exists>R. (p, R) \<in> set L \<and> R' = filter (\<lambda>r. rs_id r \<noteq> oid) R \<and> R' \<noteq> [])"
  unfolding acancel_side_def by (auto simp: image_iff intro!: bexI [of _ "(p, R)" for R])

lemma acancel_seq: "set (side_seq (acancel_side oid L)) = {x \<in> set (side_seq L). fst x \<noteq> oid}"
proof (rule set_eqI)
  fix x :: "order_id \<times> price \<times> qty"
  obtain k p q where x: "x = (k, p, q)" by (metis prod_cases3)
  have "(\<exists>R' r. (p, R') \<in> set (acancel_side oid L) \<and> r \<in> set R' \<and> rs_id r = k \<and> rs_qty r = q) \<longleftrightarrow>
      (\<exists>R r. (p, R) \<in> set L \<and> r \<in> set R \<and> rs_id r = k \<and> rs_qty r = q) \<and> k \<noteq> oid"
  proof (intro iffI; elim conjE exE)
    fix R' r assume a: "(p, R') \<in> set (acancel_side oid L)" "r \<in> set R'" "rs_id r = k" "rs_qty r = q"
    from a(1) obtain R where "(p, R) \<in> set L" "R' = filter (\<lambda>r. rs_id r \<noteq> oid) R" unfolding acancel_mem by blast
    with a show "(\<exists>R r. (p, R) \<in> set L \<and> r \<in> set R \<and> rs_id r = k \<and> rs_qty r = q) \<and> k \<noteq> oid" by auto
  next
    fix R r assume a: "(p, R) \<in> set L" "r \<in> set R" "rs_id r = k" "rs_qty r = q" "k \<noteq> oid"
    then have "r \<in> set (filter (\<lambda>r. rs_id r \<noteq> oid) R)" by simp
    then have "(p, filter (\<lambda>r. rs_id r \<noteq> oid) R) \<in> set (acancel_side oid L)"
      unfolding acancel_mem using a(1) by (metis empty_iff list.set(1))
    with \<open>r \<in> set (filter (\<lambda>r. rs_id r \<noteq> oid) R)\<close> a(3,4)
    show "\<exists>R' r. (p, R') \<in> set (acancel_side oid L) \<and> r \<in> set R' \<and> rs_id r = k \<and> rs_qty r = q" by blast
  qed
  then show "x \<in> set (side_seq (acancel_side oid L)) \<longleftrightarrow> x \<in> {x \<in> set (side_seq L). fst x \<noteq> oid}"
    by (simp add: x side_seq_mem)
qed

lemma amodify_queue_seq:
  assumes "distinct (map rs_id R)"
  shows "(\<lambda>r. (rs_id r, p, rs_qty r)) ` set (amodify_queue oid q R) =
    (\<lambda>(k, p, n). (k, p, if k = oid then q else n)) ` (\<lambda>r. (rs_id r, p, rs_qty r)) ` set R"
proof -
  have other: "(\<lambda>r. (rs_id r, p, if rs_id r = oid then q else rs_qty r)) ` set S = (\<lambda>r. (rs_id r, p, rs_qty r)) ` set S"
    if "oid \<notin> rs_id ` set S" for S using that by (intro image_cong) auto
  show ?thesis
  proof (cases "oid \<in> rs_id ` set R")
    case False
    then show ?thesis by (simp add: amodify_queue_other image_image other)
  next
    case True
    then obtain x where x: "x \<in> set R" "oid = rs_id x" by auto
    then obtain R1 R2 where R: "R = R1 @ x # R2" by (meson split_list)
    then have n: "oid \<notin> rs_id ` set R1" "oid \<notin> rs_id ` set R2" using assms x(2) by auto
    have "(\<lambda>r. (rs_id r, p, rs_qty r)) ` set (amodify_queue oid q R) =
        insert (oid, p, q) ((\<lambda>r. (rs_id r, p, rs_qty r)) ` set R1 \<union> (\<lambda>r. (rs_id r, p, rs_qty r)) ` set R2)"
      using amodify_queue_hit [of R1 x R2 q] assms unfolding R x(2) by (auto simp: image_Un)
    then show ?thesis using other [OF n(1)] other [OF n(2)] x(2) by (simp add: R image_image image_Un)
  qed
qed

lemma amodify_seq:
  assumes "distinct (map rs_id (orders_of L))"
  shows "set (side_seq (amodify_side oid q L)) = (\<lambda>(k, p, n). (k, p, if k = oid then q else n)) ` set (side_seq L)"
  using assms
proof (induction L)
  case (Cons l L)
  obtain p R where l: "l = (p, R)" by force
  have d: "distinct (map rs_id R)" "distinct (map rs_id (orders_of L))" using Cons.prems by (simp_all add: l)
  show ?case using Cons.IH [OF d(2)] amodify_queue_seq [OF d(1), of p oid q] by (simp add: l image_Un)
qed simp

section \<open>Cancelling and reducing keep the books mirrored\<close>

lemma mirrors_cancel:
  assumes m: "mirrors A os"
  shows "mirrors (snd (acancel A oid)) (omap_del oid os)"
proof (cases "oid \<in> all_ids A")
  case True
  have "set (side_seq (acancel_side oid (A d))) = os_seq (omap_del oid os) d" for d
    unfolding acancel_seq wf_empty_side(1) [OF m] by (auto simp: os_seq_def)
  then show ?thesis
    using acancel_wf [OF wf_empty_side(2) [OF m], of oid] True by (simp add: mirrors_def acancel_def)
next
  case False
  then have "map_of os oid = None" using mirrors_ids [OF m] by auto
  with False m show ?thesis by (simp add: acancel_def omap_del_notin)
qed

lemma mirrors_modify:
  assumes m: "mirrors A os" and ref: "map_of os oid = Some ro" and q: "q \<noteq> 0"
  shows "mirrors (snd (amodify A oid q)) (omap_put oid (ro\<lparr>ro_qty := q\<rparr>) os)"
proof -
  have "oid \<in> all_ids A" using mirrors_ids [OF m] ref by auto
  moreover have "set (side_seq (amodify_side oid q (A d))) = os_seq (omap_put oid (ro\<lparr>ro_qty := q\<rparr>) os) d" for d
  proof -
    have "distinct (map rs_id (orders_of (A d)))" using wf_sideD(5) [OF wf_empty_side(2) [OF m]] by blast
    from amodify_seq [OF this, of oid q]
    have "set (side_seq (amodify_side oid q (A d))) = (\<lambda>(k, p, n). (k, p, if k = oid then q else n)) ` os_seq os d"
      by (simp only: wf_empty_side(1) [OF m])
    also have "\<dots> = os_seq (omap_put oid (ro\<lparr>ro_qty := q\<rparr>) os) d"
    proof (intro set_eqI iffI)
      fix x assume "x \<in> (\<lambda>(k, p, n). (k, p, if k = oid then q else n)) ` os_seq os d"
      then obtain k r where "map_of os k = Some r" "(ro_side r = ch_B) = d"
        "x = (k, engine_price (ro_price r), if k = oid then q else ro_qty r)" by (auto simp: os_seq_def)
      then show "x \<in> os_seq (omap_put oid (ro\<lparr>ro_qty := q\<rparr>) os) d"
        using ref by (cases "k = oid") (auto simp: os_seq_def)
    next
      fix x assume "x \<in> os_seq (omap_put oid (ro\<lparr>ro_qty := q\<rparr>) os) d"
      then obtain k r where r: "(if k = oid then Some (ro\<lparr>ro_qty := q\<rparr>) else map_of os k) = Some r" "(ro_side r = ch_B) = d"
        "x = (k, engine_price (ro_price r), ro_qty r)" by (auto simp: os_seq_def)
      show "x \<in> (\<lambda>(k, p, n). (k, p, if k = oid then q else n)) ` os_seq os d"
      proof (cases "k = oid")
        case True
        then have "(oid, engine_price (ro_price ro), ro_qty ro) \<in> os_seq os d" using r ref by (auto simp: os_seq_def)
        then show ?thesis using r True by (force simp: image_iff)
      next
        case False
        then have "(k, engine_price (ro_price r), ro_qty r) \<in> os_seq os d" using r by (auto simp: os_seq_def)
        then show ?thesis using r False by (force simp: image_iff)
      qed
    qed
    finally show ?thesis .
  qed
  ultimately show ?thesis
    using amodify_wf [OF wf_empty_side(2) [OF m] q, of oid] q by (simp add: mirrors_def amodify_def)
qed

section \<open>Adding keeps the books mirrored\<close>

text \<open>
  \<open>book_fits\<close>: the reference book is not crossed and within the engine's fixed capacities of
  resting orders and of levels per side.
\<close>

definition book_fits :: "ref_book \<Rightarrow> bool" where
  "book_fits rb \<longleftrightarrow> \<not> rb_crossed rb \<and> length (rb_orders rb) \<le> kMaxOrders \<and>
    length (rb_bids rb) \<le> kMaxLevels \<and> length (rb_asks rb) \<le> kMaxLevels"

lemma book_fits_levels: "book_fits rb \<Longrightarrow> length (rb_map rb d) \<le> kMaxLevels"
  by (cases d) (simp_all add: book_fits_def rb_map_def)

lemma rb_keys:
  assumes "rb_inv rb"
  shows "px \<in> fst ` set (rb_map rb d) \<longleftrightarrow> wsum (n_at d px) (rb_orders rb) \<noteq> 0"
proof -
  have "px \<in> fst ` set (rb_map rb d) \<longleftrightarrow> map_of (rb_map rb d) px \<noteq> None" by (simp add: map_of_eq_None_iff)
  also have "\<dots> \<longleftrightarrow> level_of (rb_orders rb) d px \<noteq> None" using assms by (simp add: rb_inv_def levels_match_def)
  finally show ?thesis by (simp add: level_of_def)
qed

lemma rb_map_count:
  assumes "rb_inv rb"
  shows "length (rb_map rb d) = card {px. wsum (n_at d px) (rb_orders rb) \<noteq> 0}"
proof -
  have "distinct (map fst (rb_map rb d))"
    using assms by (intro omap_ok_distinct) (simp add: rb_inv_def levels_match_def)
  from distinct_card [OF this] have "length (rb_map rb d) = card (fst ` set (rb_map rb d))" by simp
  also have "fst ` set (rb_map rb d) = {px. wsum (n_at d px) (rb_orders rb) \<noteq> 0}" using rb_keys [OF assms] by blast
  finally show ?thesis .
qed

lemma not_crossed_all:
  assumes inv: "rb_inv rb" and nc: "\<not> rb_crossed rb"
    and b: "b \<in> fst ` set (rb_map rb True)" and a: "a \<in> fst ` set (rb_map rb False)"
  shows "b < a"
proof -
  have so: "sorted_wrt (<) (map fst (rb_bids rb))" "sorted_wrt (<) (map fst (rb_asks rb))"
    using inv unfolding rb_inv_def levels_match_def omap_ok_def rb_map_def by (metis (full_types))+
  have ne: "rb_bids rb \<noteq> []" "rb_asks rb \<noteq> []" using a b by (auto simp: rb_map_def)
  then have h: "fst (last (rb_bids rb)) < fst (hd (rb_asks rb))" using nc by (auto simp: rb_crossed_def)
  obtain M m where M: "rb_bids rb = M @ [m]" using ne(1) by (metis append_butlast_last_id)
  have "b \<le> fst (last (rb_bids rb))" using b so(1) by (auto simp: M rb_map_def sorted_wrt_append less_imp_le)
  moreover obtain x X where X: "rb_asks rb = x # X" using ne(2) by (cases "rb_asks rb") auto
  have "fst (hd (rb_asks rb)) \<le> a" using a so(2) by (auto simp: X rb_map_def less_imp_le)
  ultimately show ?thesis using h by order
qed

lemma mirrors_length:
  assumes m: "mirrors A (rb_orders rb)" and inv: "rb_inv rb"
  shows "length (A d) = length (rb_map rb d)"
proof -
  have "length (A d) = length (best_first rb d)"
    using arg_cong [OF mirrors_levels [OF m inv, of d], of length] by simp
  then show ?thesis by (simp add: best_first_def rb_map_def)
qed

lemma amatch_no_cross:
  assumes "\<forall>p\<in>set (prices_of L). \<not> cr p"
  shows "amatch cr acct q L = ([], q, L, False)"
  using assms by (cases L) auto

lemma n_at_put:
  assumes "omap_ok os" "map_of os ref = None"
  shows "wsum (n_at e py) (omap_put ref ro os) = wsum (n_at e py) os + n_at e py ro"
  using wsum_put [OF assms(1), of "n_at e py" ref ro] assms(2) by simp

lemma mirrors_add:
  assumes m: "mirrors A (rb_orders rb)" and inv: "rb_inv rb"
    and ref: "map_of (rb_orders rb) ref = None" and q: "q \<noteq> 0" and room: "length (rb_orders rb) + 1 < 2 ^ 32"
    and fits: "book_fits (rb_add rb ref sd px q)"
    and o1: "is_buy o1 = (sd = ch_B)" "ord_id o1 = ref" "ord_price o1 = engine_price px"
      "ord_qty_remaining o1 = q" "ord_type o1 = Limit"
  shows "\<exists>A'. aadd A o1 = (True, A', []) \<and> mirrors A' (rb_orders (rb_add rb ref sd px q))"
proof -
  let ?os = "rb_orders rb" let ?rb' = "rb_add rb ref sd px q" let ?d = "sd = ch_B"
  let ?ro = "\<lparr>ro_side = sd, ro_price = px, ro_qty = q\<rparr>"
  note R = rb_add_inv [OF inv ref q room, of sd px]
  have ok: "omap_ok ?os" using inv by (simp add: rb_inv_def orders_ok_def)
  note wf = wf_empty_side(2) [OF m]
  have cnt: "wsum (n_at e py) (rb_orders ?rb') = wsum (n_at e py) ?os + n_at e py ?ro" for e py
    unfolding R(2) by (rule n_at_put [OF ok ref])
  have new: "px \<in> fst ` set (rb_map ?rb' ?d)"
    unfolding rb_keys [OF R(1)] cnt by (simp add: n_at_def at_level_def)
  have nocross: "\<forall>p\<in>set (prices_of (A (\<not> ?d))). \<not> crosses o1 p"
  proof
    fix p assume "p \<in> set (prices_of (A (\<not> ?d)))"
    then obtain py where py: "p = engine_price py" "wsum (n_at (\<not> ?d) py) ?os \<noteq> 0"
      unfolding mirrors_prices [OF m ok] by blast
    then have opp: "py \<in> fst ` set (rb_map ?rb' (\<not> ?d))" unfolding rb_keys [OF R(1)] cnt by simp
    have nc: "\<not> rb_crossed ?rb'" using fits by (simp add: book_fits_def)
    show "\<not> crosses o1 p"
    proof (cases ?d)
      case True
      then have "px < py" using not_crossed_all [OF R(1) nc, of px py] new opp by simp
      with True o1 py show ?thesis by (simp add: crosses_def)
    next
      case False
      then have "py < px" using not_crossed_all [OF R(1) nc, of py px] new opp by simp
      with False o1 py show ?thesis by (simp add: crosses_def)
    qed
  qed
  have am: "amatch (crosses o1) (ord_account o1) (ord_qty_remaining o1) (A (\<not> ?d)) = ([], q, A (\<not> ?d), False)"
    using amatch_no_cross [OF nocross] o1(4) by simp
  have "num_orders A < kMaxOrders"
  proof -
    have "length (rb_orders ?rb') = Suc (length ?os)" unfolding R(2) using length_omap_put [OF ok] ref by simp
    then show ?thesis using fits mirrors_num_orders [OF m ok] by (simp add: book_fits_def)
  qed
  moreover have "engine_price px \<in> set (prices_of (A ?d)) \<or> length (A ?d) < kMaxLevels"
  proof (cases "wsum (n_at ?d px) ?os = 0")
    case True
    have "{py. wsum (n_at ?d py) (rb_orders ?rb') \<noteq> 0} = insert px {py. wsum (n_at ?d py) ?os \<noteq> 0}"
      unfolding cnt by (auto simp: n_at_def at_level_def)
    moreover have "finite {py. wsum (n_at ?d py) ?os \<noteq> 0}" by simp
    ultimately have "length (rb_map ?rb' ?d) = Suc (length (rb_map rb ?d))"
      using True by (simp add: rb_map_count [OF R(1)] rb_map_count [OF inv])
    moreover have "length (rb_map ?rb' ?d) \<le> kMaxLevels" using fits by (rule book_fits_levels)
    ultimately show ?thesis using mirrors_length [OF m inv, of ?d] by simp
  next
    case False
    then show ?thesis unfolding mirrors_prices [OF m ok] by blast
  qed
  ultimately have cr: "can_rest A ?d (engine_price px)" by (simp add: can_rest_def)
  let ?r = "\<lparr>rs_id = ref, rs_qty = q, rs_acct = ord_account o1\<rparr>"
  let ?A' = "A(?d := ainsert ?d (engine_price px) ?r (A ?d))"
  have "aadd A o1 = (True, ?A', [])"
    using am cr q by (simp add: aadd_def Let_def o1)
  moreover have "wf_abook ?A'"
    by (rule ainsert_wf [OF wf cr]) (use mirrors_ids [OF m] ref q in auto)
  moreover have "set (side_seq (?A' e)) = os_seq (omap_put ref ?ro ?os) e" for e
    using wf_empty_side(1) [OF m, of e] by (cases "e = ?d") (auto simp: ainsert_seq os_seq_put [OF ref])
  ultimately show ?thesis unfolding R(2) mirrors_def by blast
qed

end
