(* ===== verification/Translator_Correct.thy ===== *)
theory Translator_Correct
  imports Matching_Engine Book_Mirror
begin

text \<open>
  The translator is correct: the messages it emits for a book event take an engine book that
  mirrors the reference table to one that mirrors the table after the event, without a trade.
  So over any stream of ordinary events the engine's book and the reference book show the same
  depth and the same top of book.
\<close>

section \<open>One message\<close>

text \<open>The abstract state of the engine when only symbol \<open>s\<close> matters: its book is \<open>A\<close>.\<close>

definition on_book :: "abooks \<Rightarrow> symbol_id \<Rightarrow> abook \<Rightarrow> bool" where
  "on_book AB s A \<longleftrightarrow> unat s < kMaxSymbols \<and> fst AB (unat s) = Some A"

definition put_book :: "abooks \<Rightarrow> symbol_id \<Rightarrow> abook \<Rightarrow> abooks" where
  "put_book AB s A = ((fst AB)(unat s := Some A), snd AB)"

lemma on_put_book: "on_book AB s A \<Longrightarrow> on_book (put_book AB s A') s A'"
  by (simp add: on_book_def put_book_def)

lemma put_put_book [simp]: "put_book (put_book AB s A) s A' = put_book AB s A'"
  by (simp add: put_book_def)

lemma put_same_book: "on_book AB s A \<Longrightarrow> put_book AB s A = AB"
  by (cases AB) (auto simp: on_book_def put_book_def)

lemma adispatch_cmd:
  assumes "on_book AB (md_symbol m) A" "msg_cmd (snd AB) m = Some c" "md_order_id m \<noteq> 0"
    "abook_step (md_symbol m) A c = (A', ok, [])"
  shows "adispatch AB m = (put_book AB (md_symbol m) A', [])"
  using assms by (simp add: adispatch_def on_book_def put_book_def next_id_def)

definition tr_msg :: "translator \<Rightarrow> msg_type \<Rightarrow> u64 \<Rightarrow> u32 \<Rightarrow> u32 \<Rightarrow> u8 \<Rightarrow> md_msg" where
  "tr_msg tr ty oid px q sd = fst (tr_make tr ty oid px q sd)"

lemma tr_msg_sel [simp]:
  "md_symbol (tr_msg tr ty oid px q sd) = tr_sym tr" "md_order_id (tr_msg tr ty oid px q sd) = oid"
  "md_msg_type (tr_msg tr ty oid px q sd) = ty" "md_qty (tr_msg tr ty oid px q sd) = q"
  "md_price (tr_msg tr ty oid px q sd) = engine_price px" "md_order_type (tr_msg tr ty oid px q sd) = Limit"
  "md_side (tr_msg tr ty oid px q sd) = (if sd = ch_B then Buy else Sell)"
  by (simp_all add: tr_msg_def tr_make_def Let_def)

lemma cancel_msg:
  assumes on: "on_book AB (tr_sym tr) A" and m: "mirrors A os" and id0: "oid \<noteq> 0"
  shows "\<exists>A'. adispatch AB (tr_msg tr CancelOrder oid px q sd) = (put_book AB (tr_sym tr) A', []) \<and>
    mirrors A' (omap_del oid os) \<and> msg_fresh AB (tr_msg tr CancelOrder oid px q sd)"
proof (intro exI conjI)
  let ?A' = "snd (acancel A oid)" let ?m = "tr_msg tr CancelOrder oid px q sd"
  show "adispatch AB ?m = (put_book AB (tr_sym tr) ?A', [])"
    using adispatch_cmd [of AB ?m A "CancelCmd oid" ?A' "fst (acancel A oid)"] on id0
    by (simp add: msg_cmd_def case_prod_unfold Let_def)
  show "mirrors ?A' (omap_del oid os)" by (rule mirrors_cancel [OF m])
  show "msg_fresh AB ?m" by (simp add: msg_fresh_def msg_cmd_def cmd_fresh_def)
qed

lemma modify_msg:
  assumes on: "on_book AB (tr_sym tr) A" and m: "mirrors A os" and id0: "oid \<noteq> 0"
    and ref: "map_of os oid = Some ro" and q: "q \<noteq> 0"
  shows "\<exists>A'. adispatch AB (tr_msg tr ModifyOrder oid px q sd) = (put_book AB (tr_sym tr) A', []) \<and>
    mirrors A' (omap_put oid (ro\<lparr>ro_qty := q\<rparr>) os) \<and> msg_fresh AB (tr_msg tr ModifyOrder oid px q sd)"
proof (intro exI conjI)
  let ?A' = "snd (amodify A oid q)" let ?m = "tr_msg tr ModifyOrder oid px q sd"
  show "adispatch AB ?m = (put_book AB (tr_sym tr) ?A', [])"
    using adispatch_cmd [of AB ?m A "ModifyCmd oid q" ?A' "fst (amodify A oid q)"] on id0
    by (simp add: msg_cmd_def case_prod_unfold Let_def)
  show "mirrors ?A' (omap_put oid (ro\<lparr>ro_qty := q\<rparr>) os)" by (rule mirrors_modify [OF m ref q])
  show "msg_fresh AB ?m" by (simp add: msg_fresh_def msg_cmd_def cmd_fresh_def)
qed

lemma new_msg:
  assumes on: "on_book AB (tr_sym tr) A" and m: "mirrors A (rb_orders rb)" and inv: "rb_inv rb"
    and ref: "map_of (rb_orders rb) oid = None" "oid \<noteq> 0" and q: "q \<noteq> 0" and room: "length (rb_orders rb) + 1 < 2 ^ 32"
    and fits: "book_fits (rb_add rb oid sd px q)"
  shows "\<exists>A'. adispatch AB (tr_msg tr NewOrder oid px q sd) = (put_book AB (tr_sym tr) A', []) \<and>
    mirrors A' (rb_orders (rb_add rb oid sd px q)) \<and> msg_fresh AB (tr_msg tr NewOrder oid px q sd)"
proof -
  let ?m = "tr_msg tr NewOrder oid px q sd" let ?o = "order_of_msg ?m oid"
  have "is_buy ?o = (sd = ch_B)" "ord_id ?o = oid" "ord_price ?o = engine_price px" "ord_qty_remaining ?o = q" "ord_type ?o = Limit"
    by (simp_all add: order_of_msg_def is_buy_def)
  from mirrors_add [OF m inv ref(1) q room fits this] obtain A' where
    A': "aadd A ?o = (True, A', [])" "mirrors A' (rb_orders (rb_add rb oid sd px q))" by blast
  have cmd: "msg_cmd (snd AB) ?m = Some (AddCmd ?o)" using ref(2) by (simp add: msg_cmd_def)
  have "adispatch AB ?m = (put_book AB (tr_sym tr) A', [])"
    using adispatch_cmd [of AB ?m A "AddCmd ?o" A' True] on ref(2) cmd A'(1) by simp
  moreover have "msg_fresh AB ?m"
    using on mirrors_ids [OF m] ref(1) cmd by (auto simp: msg_fresh_def cmd_fresh_def on_book_def order_of_msg_def)
  ultimately show ?thesis using A'(2) by blast
qed

section \<open>One event\<close>

text \<open>The messages of an event, on the table and the counters the translator has at each.\<close>

lemma tr_apply_msgs:
  assumes "tr_apply tr ev = (ms, tr')"
  shows "case ev of
      EvAdd ref sd px q \<Rightarrow> \<exists>t. tr_sym t = tr_sym tr \<and> ms = [tr_msg t NewOrder ref px q sd]
    | EvReduce ref by1 ex \<Rightarrow> (case map_of (tr_orders tr) ref of None \<Rightarrow> ms = []
        | Some ro \<Rightarrow> \<exists>t. tr_sym t = tr_sym tr \<and> ms = (if by1 \<ge> ro_qty ro
            then [tr_msg t CancelOrder ref (ro_price ro) 0 (ro_side ro)]
            else [tr_msg t ModifyOrder ref (ro_price ro) (ro_qty ro - by1) (ro_side ro)]))
    | EvDelete ref \<Rightarrow> (case map_of (tr_orders tr) ref of None \<Rightarrow> ms = []
        | Some ro \<Rightarrow> \<exists>t. tr_sym t = tr_sym tr \<and> ms = [tr_msg t CancelOrder ref (ro_price ro) 0 (ro_side ro)])
    | EvReplace orig nref q px \<Rightarrow> (case map_of (tr_orders tr) orig of None \<Rightarrow> ms = []
        | Some ro \<Rightarrow> \<exists>t u. tr_sym t = tr_sym tr \<and> tr_sym u = tr_sym tr \<and>
            ms = [tr_msg t CancelOrder orig (ro_price ro) 0 (ro_side ro), tr_msg u NewOrder nref px q (ro_side ro)])"
proof (cases ev)
  case (EvAdd ref sd px q)
  have "\<exists>t. tr_sym t = tr_sym tr \<and> ms = [tr_msg t NewOrder ref px q sd]"
    using assms EvAdd by (intro exI [of _ "tr\<lparr>tr_orders := omap_put ref \<lparr>ro_side = sd, ro_price = px, ro_qty = q\<rparr> (tr_orders tr),
           tr_c := (tr_c tr)\<lparr>tc_adds := tc_adds (tr_c tr) + 1\<rparr>\<rparr>"]) (auto simp: on_add_def tr_msg_def Let_def split: prod.splits)
  with EvAdd show ?thesis by simp
next
  case (EvReduce ref by1 ex)
  show ?thesis
  proof (cases "map_of (tr_orders tr) ref")
    case None
    with assms EvReduce show ?thesis by (simp add: on_reduce_def)
  next
    case (Some ro)
    let ?ro1 = "ro\<lparr>ro_qty := ro_qty ro - min by1 (ro_qty ro)\<rparr>"
    let ?t = "tr\<lparr>tr_orders := omap_put ref ?ro1 (tr_orders tr), tr_c := (if ex then (tr_c tr)\<lparr>tc_execs := tc_execs (tr_c tr) + 1\<rparr>
        else (tr_c tr)\<lparr>tc_partial_cancels := tc_partial_cancels (tr_c tr) + 1\<rparr>)\<rparr>"
    have "ms = (if by1 \<ge> ro_qty ro then [tr_msg ?t CancelOrder ref (ro_price ro) 0 (ro_side ro)]
        else [tr_msg ?t ModifyOrder ref (ro_price ro) (ro_qty ro - by1) (ro_side ro)])"
      using assms EvReduce Some reduce_min [of "ro_qty ro" by1]
      by (auto simp: on_reduce_def Let_def tr_msg_def split: prod.splits if_splits)
    moreover have "tr_sym ?t = tr_sym tr" by simp
    ultimately show ?thesis using EvReduce Some by (simp only: itch_event.case option.case) blast
  qed
next
  case (EvDelete ref)
  show ?thesis
  proof (cases "map_of (tr_orders tr) ref")
    case None
    with assms EvDelete show ?thesis by (simp add: on_delete_def)
  next
    case (Some ro)
    have "ms = [tr_msg (tr\<lparr>tr_c := (tr_c tr)\<lparr>tc_deletes := tc_deletes (tr_c tr) + 1\<rparr>\<rparr>) CancelOrder ref (ro_price ro) 0 (ro_side ro)]"
      using assms EvDelete Some by (auto simp: on_delete_def Let_def tr_msg_def split: prod.splits)
    then show ?thesis using EvDelete Some
      by (auto intro!: exI [of _ "tr\<lparr>tr_c := (tr_c tr)\<lparr>tc_deletes := tc_deletes (tr_c tr) + 1\<rparr>\<rparr>"])
  qed
next
  case (EvReplace orig nref q px)
  show ?thesis
  proof (cases "map_of (tr_orders tr) orig")
    case None
    with assms EvReplace show ?thesis by (simp add: on_replace_def)
  next
    case (Some ro)
    let ?t = "tr\<lparr>tr_c := (tr_c tr)\<lparr>tc_replaces := tc_replaces (tr_c tr) + 1\<rparr>\<rparr>"
    obtain m1 u2 where tm: "tr_make ?t CancelOrder orig (ro_price ro) 0 (ro_side ro) = (m1, u2)" by force
    let ?u = "u2\<lparr>tr_orders := omap_put nref \<lparr>ro_side = ro_side ro, ro_price = px, ro_qty = q\<rparr>
        (omap_del orig (tr_orders u2))\<rparr>"
    have "ms = [tr_msg ?t CancelOrder orig (ro_price ro) 0 (ro_side ro), tr_msg ?u NewOrder nref px q (ro_side ro)]"
      using assms EvReplace Some by (auto simp: on_replace_def Let_def tr_msg_def tm split: prod.splits)
    moreover have "tr_sym u2 = tr_sym tr"
      using tr_make_simps(2) [of ?t CancelOrder orig "ro_price ro" 0 "ro_side ro"] unfolding tm by simp
    then have "tr_sym ?u = tr_sym tr" by simp
    moreover have "tr_sym ?t = tr_sym tr" by simp
    ultimately show ?thesis using EvReplace Some by (simp only: itch_event.case option.case) blast
  qed
qed

text \<open>The three views of one symbol agree: reference book, translator table, engine book.\<close>

definition in_sync :: "ref_book \<Rightarrow> translator \<Rightarrow> abooks \<Rightarrow> bool" where
  "in_sync rb tr AB \<longleftrightarrow> rb_inv rb \<and> tr_orders tr = rb_orders rb \<and> map_of (rb_orders rb) 0 = None \<and>
    (\<exists>A. on_book AB (tr_sym tr) A \<and> mirrors A (rb_orders rb))"

lemma ev_zero:
  assumes "map_of os 0 = None" "ev_ok os ev"
  shows "map_of (ev_orders os ev) 0 = None"
  using assms by (cases ev) (auto simp: reduced_def split: option.splits)

lemma event_in_sync:
  assumes sync: "in_sync rb tr AB" and ok: "ev_ok (rb_orders rb) ev" and fits: "book_fits (ref_apply rb ev)"
    and ap: "tr_apply tr ev = (ms, tr')"
  shows "\<exists>AB'. adispatch_all AB ms = (AB', []) \<and> msgs_fresh AB ms \<and> in_sync (ref_apply rb ev) tr' AB' \<and> tr_sym tr' = tr_sym tr"
proof -
  let ?os = "rb_orders rb"
  from sync obtain A where inv: "rb_inv rb" and to: "tr_orders tr = ?os" and zero: "map_of ?os 0 = None"
    and on: "on_book AB (tr_sym tr) A" and m: "mirrors A ?os" by (auto simp: in_sync_def)
  have ook: "omap_ok ?os" using inv by (simp add: rb_inv_def orders_ok_def)
  note R = ref_apply_orders [OF inv ok]
  have T: "tr_orders tr' = ev_orders ?os ev" "tr_sym tr' = tr_sym tr"
    using tr_apply_orders [of tr ev] ook by (simp_all add: to ap)
  have z: "map_of (ev_orders ?os ev) 0 = None" by (rule ev_zero [OF zero ok])
  have nz: "k \<noteq> 0" if "map_of ?os k = Some r" for k r using that zero by auto
  note M = tr_apply_msgs [OF ap]
  have "\<exists>A'. adispatch_all AB ms = (put_book AB (tr_sym tr) A', []) \<and> msgs_fresh AB ms \<and> mirrors A' (ev_orders ?os ev)"
  proof (cases ev)
    case (EvAdd ref sd px q)
    with M obtain t where t: "tr_sym t = tr_sym tr" "ms = [tr_msg t NewOrder ref px q sd]" by auto
    from new_msg [of AB t A rb ref q sd px] on m inv ok fits t(1) EvAdd R
    show ?thesis by (auto simp: t(2))
  next
    case (EvReduce ref by1 ex)
    show ?thesis
    proof (cases "map_of ?os ref")
      case None
      with M EvReduce to have "ms = []" by simp
      with None EvReduce m put_same_book [OF on] show ?thesis by (intro exI [of _ A]) (simp add: reduced_def)
    next
      case (Some ro)
      with M EvReduce to obtain t where t: "tr_sym t = tr_sym tr" "ms = (if by1 \<ge> ro_qty ro
            then [tr_msg t CancelOrder ref (ro_price ro) 0 (ro_side ro)]
            else [tr_msg t ModifyOrder ref (ro_price ro) (ro_qty ro - by1) (ro_side ro)])" by auto
      show ?thesis
      proof (cases "by1 \<ge> ro_qty ro")
        case True
        from cancel_msg [of AB t A ?os ref "ro_price ro" 0 "ro_side ro"] on m nz [OF Some] t(1) show ?thesis
          by (auto simp: t(2) True EvReduce reduced_def Some)
      next
        case False
        then have "ro_qty ro - by1 \<noteq> 0" by auto
        from modify_msg [of AB t A ?os ref ro "ro_qty ro - by1" "ro_price ro" "ro_side ro"] on m nz [OF Some] Some this t(1)
        show ?thesis using False by (auto simp: t(2) EvReduce reduced_def)
      qed
    qed
  next
    case (EvDelete ref)
    show ?thesis
    proof (cases "map_of ?os ref")
      case None
      with M EvDelete to have "ms = []" by simp
      with None EvDelete m put_same_book [OF on] show ?thesis by (intro exI [of _ A]) (simp add: omap_del_notin)
    next
      case (Some ro)
      with M EvDelete to obtain t where t: "tr_sym t = tr_sym tr" "ms = [tr_msg t CancelOrder ref (ro_price ro) 0 (ro_side ro)]" by auto
      from cancel_msg [of AB t A ?os ref "ro_price ro" 0 "ro_side ro"] on m nz [OF Some] t(1) show ?thesis
        by (auto simp: t(2) EvDelete)
    qed
  next
    case (EvReplace orig nref q px)
    show ?thesis
    proof (cases "map_of ?os orig")
      case None
      with M EvReplace to have "ms = []" by simp
      with None EvReplace m put_same_book [OF on] show ?thesis by (intro exI [of _ A]) simp
    next
      case (Some ro)
      with M EvReplace to obtain t u where t: "tr_sym t = tr_sym tr" "tr_sym u = tr_sym tr"
        "ms = [tr_msg t CancelOrder orig (ro_price ro) 0 (ro_side ro), tr_msg u NewOrder nref px q (ro_side ro)]" by auto
      note RR = rb_remove_inv [OF inv Some]
      let ?rb1 = "rb_remove rb orig"
      from cancel_msg [of AB t A ?os orig "ro_price ro" 0 "ro_side ro"] on m nz [OF Some] t(1) obtain A1 where
        A1: "adispatch AB (tr_msg t CancelOrder orig (ro_price ro) 0 (ro_side ro)) = (put_book AB (tr_sym tr) A1, [])"
        "mirrors A1 (rb_orders ?rb1)" "msg_fresh AB (tr_msg t CancelOrder orig (ro_price ro) 0 (ro_side ro))"
        unfolding RR(2) by auto
      have len: "length (rb_orders ?rb1) + 1 < 2 ^ 32"
      proof -
        have "0 < length ?os" using Some by (cases ?os) auto
        moreover have "length ?os < 2 ^ 32" using inv by (simp add: rb_inv_def orders_ok_def)
        ultimately show ?thesis unfolding RR(2) using length_omap_del [OF ook, of orig] Some by simp
      qed
      have rep: "ref_apply rb ev = rb_add ?rb1 nref (ro_side ro) px q" using EvReplace Some by (simp add: rb_replace_def)
      have fr: "map_of (rb_orders ?rb1) nref = None" "nref \<noteq> 0" "q \<noteq> 0" using ok EvReplace Some by (auto simp: RR(2))
      have on1: "on_book (put_book AB (tr_sym tr) A1) (tr_sym u) A1" using on_put_book [OF on] t(2) by simp
      from new_msg [OF on1 A1(2) RR(1) fr len] fits obtain A2 where
        A2: "adispatch (put_book AB (tr_sym tr) A1) (tr_msg u NewOrder nref px q (ro_side ro)) = (put_book AB (tr_sym tr) A2, [])"
        "mirrors A2 (rb_orders (rb_add ?rb1 nref (ro_side ro) px q))"
        "msg_fresh (put_book AB (tr_sym tr) A1) (tr_msg u NewOrder nref px q (ro_side ro))"
        unfolding rep by (auto simp: t(2))
      then show ?thesis using A1(1,3) R rep by (auto simp: t(3))
    qed
  qed
  then obtain A' where "adispatch_all AB ms = (put_book AB (tr_sym tr) A', [])" "msgs_fresh AB ms" "mirrors A' (ev_orders ?os ev)"
    by blast
  moreover from this have "in_sync (ref_apply rb ev) tr' (put_book AB (tr_sym tr) A')"
    using R T z on_put_book [OF on] by (auto simp: in_sync_def)
  ultimately show ?thesis using T(2) by blast
qed

end
