(* ===== verification/Latency.thy ===== *)
theory Latency
  imports Prelude
begin

text \<open>
  \<^verbatim>\<open>hft::LatencyHistogram\<close>: samples with running sum, minimum and maximum. The floating-point
  mean is not modelled; of \<^verbatim>\<open>percentile(p)\<close> the truncated product \<^verbatim>\<open>size_t(p * (n - 1))\<close>
  is the argument \<open>rank\<close>, a function of \<open>n - 1\<close>, that a percentile in \<open>[0, 1]\<close> keeps at most \<open>n - 1\<close>.
\<close>

record latency_histogram =
  lh_samples :: "u64 list"
  lh_sum :: u64
  lh_min :: u64
  lh_max :: u64

definition lh_init :: latency_histogram where
  "lh_init = \<lparr>lh_samples = [], lh_sum = 0, lh_min = 0xFFFFFFFFFFFFFFFF, lh_max = 0\<rparr>"

definition lh_record :: "latency_histogram \<Rightarrow> u64 \<Rightarrow> latency_histogram" where
  "lh_record h ns = \<lparr>lh_samples = lh_samples h @ [ns], lh_sum = lh_sum h + ns,
     lh_min = (if ns < lh_min h then ns else lh_min h), lh_max = (if ns > lh_max h then ns else lh_max h)\<rparr>"

definition lh_count :: "latency_histogram \<Rightarrow> nat" where
  "lh_count h = length (lh_samples h)"

definition lh_get_min :: "latency_histogram \<Rightarrow> u64" where
  "lh_get_min h = (if lh_samples h = [] then 0 else lh_min h)"

definition lh_get_max :: "latency_histogram \<Rightarrow> u64" where
  "lh_get_max h = (if lh_samples h = [] then 0 else lh_max h)"

definition percentile :: "(nat \<Rightarrow> nat) \<Rightarrow> latency_histogram \<Rightarrow> u64" where
  "percentile rank h =
    (if lh_samples h = [] then 0
     else (let s = sort (lh_samples h) in s ! rank (length s - 1)))"

section \<open>The running values are those of the samples\<close>

definition lh_inv :: "latency_histogram \<Rightarrow> bool" where
  "lh_inv h \<longleftrightarrow> lh_sum h = sum_list (lh_samples h) \<and>
    (if lh_samples h = [] then lh_min h = 0xFFFFFFFFFFFFFFFF \<and> lh_max h = 0
     else lh_min h = Min (set (lh_samples h)) \<and> lh_max h = Max (set (lh_samples h)))"

lemma lh_inv_init [simp]: "lh_inv lh_init"
  by (simp add: lh_inv_def lh_init_def)

lemma u64_le_max: "(x :: u64) \<le> 0xFFFFFFFFFFFFFFFF"
  using unat_u64_less [of x] by (simp add: word_le_nat_alt)

lemma lh_inv_record:
  assumes "lh_inv h"
  shows "lh_inv (lh_record h ns)"
proof (cases "lh_samples h = []")
  case True
  then show ?thesis
    using assms u64_le_max [of ns] by (auto simp: lh_inv_def lh_record_def word_gt_0 not_less)
next
  case False
  let ?S = "set (lh_samples h)"
  have S: "finite ?S" "?S \<noteq> {}" using False by simp_all
  have h: "lh_sum h = sum_list (lh_samples h)" "lh_min h = Min ?S" "lh_max h = Max ?S"
    using assms False by (simp_all add: lh_inv_def)
  have "lh_min (lh_record h ns) = Min (insert ns ?S)"
    unfolding Min_insert [OF S] by (auto simp: lh_record_def h(2) min_def)
  moreover have "lh_max (lh_record h ns) = Max (insert ns ?S)"
    unfolding Max_insert [OF S] by (auto simp: lh_record_def h(3) max_def)
  ultimately show ?thesis using h(1) by (simp add: lh_inv_def lh_record_def)
qed

lemma lh_inv_fold: "lh_inv h \<Longrightarrow> lh_inv (fold (\<lambda>ns h. lh_record h ns) xs h)"
  by (induction xs arbitrary: h) (auto simp: lh_inv_record)

lemma lh_samples_fold: "lh_samples (fold (\<lambda>ns h. lh_record h ns) xs h) = lh_samples h @ xs"
  by (induction xs arbitrary: h) (auto simp: lh_record_def)

lemma percentile_mem:
  assumes "lh_samples h \<noteq> []" "\<And>n. rank n \<le> n"
  shows "percentile rank h \<in> set (lh_samples h)"
proof -
  have "rank (length (lh_samples h) - 1) < length (lh_samples h)"
    using assms(2) [of "length (lh_samples h) - 1"] assms(1) by (cases "lh_samples h") auto
  then have "sort (lh_samples h) ! rank (length (lh_samples h) - 1) \<in> set (sort (lh_samples h))"
    by (intro nth_mem) simp
  then show ?thesis using assms(1) by (simp add: percentile_def Let_def)
qed

lemma percentile_mono:
  assumes "\<And>n. rank n \<le> rank' n" "\<And>n. rank' n \<le> n"
  shows "percentile rank h \<le> percentile rank' h"
proof (cases "lh_samples h = []")
  case False
  let ?n = "length (lh_samples h) - 1"
  have "rank' ?n < length (sort (lh_samples h))"
    using assms(2) [of ?n] False by (cases "lh_samples h") auto
  then have "sort (lh_samples h) ! rank ?n \<le> sort (lh_samples h) ! rank' ?n"
    by (intro sorted_nth_mono sorted_sort assms(1))
  with False show ?thesis by (simp add: percentile_def Let_def)
qed (simp add: percentile_def)

end
