(* ===== verification/Log_Sink.thy ===== *)
theory Log_Sink
  imports Bytes Engine_Types
begin

text \<open>
  \<^verbatim>\<open>hft::FileLogSink\<close> and the 40-byte record it writes. The system calls are not modelled:
  what \<^verbatim>\<open>::open\<close> and \<^verbatim>\<open>::write\<close> return is an argument of the operation that calls them, and
  the file is the list of bytes written so far. An entry is written as its memory image, in the
  field order of the struct and little-endian.
\<close>

section \<open>The record\<close>

record log_entry =
  le_timestamp_ns :: u64
  le_order_id :: u64
  le_price :: u64
  le_qty :: u32
  le_side :: u8
  le_event_type :: u8
  le_symbol :: "u8 list"

definition log_entry_zero :: log_entry where
  "log_entry_zero = \<lparr>le_timestamp_ns = 0, le_order_id = 0, le_price = 0, le_qty = 0, le_side = 32,
     le_event_type = 32, le_symbol = replicate 6 0\<rparr>"

text \<open>\<open>le_bytes n w\<close>: the low \<open>n\<close> bytes of a value, least significant first.\<close>

fun le_bytes :: "nat \<Rightarrow> nat \<Rightarrow> u8 list" where
  "le_bytes 0 v = []"
| "le_bytes (Suc n) v = of_nat (v mod 256) # le_bytes n (v div 256)"

fun le_value :: "u8 list \<Rightarrow> nat" where
  "le_value [] = 0"
| "le_value (b # bs) = unat b + 256 * le_value bs"

definition log_entry_bytes :: "log_entry \<Rightarrow> u8 list" where
  "log_entry_bytes e = le_bytes 8 (unat (le_timestamp_ns e)) @ le_bytes 8 (unat (le_order_id e)) @
     le_bytes 8 (unat (le_price e)) @ le_bytes 4 (unat (le_qty e)) @ [le_side e, le_event_type e] @
     le_symbol e @ replicate 4 0"

definition read_log_entry :: "u8 list \<Rightarrow> log_entry" where
  "read_log_entry b = \<lparr>le_timestamp_ns = of_nat (le_value (take 8 b)), le_order_id = of_nat (le_value (take 8 (drop 8 b))),
     le_price = of_nat (le_value (take 8 (drop 16 b))), le_qty = of_nat (le_value (take 4 (drop 24 b))),
     le_side = b ! 28, le_event_type = b ! 29, le_symbol = take 6 (drop 30 b)\<rparr>"

definition log_entry_size :: nat where "log_entry_size = 40"

lemma length_le_bytes [simp]: "length (le_bytes n v) = n"
  by (induction n arbitrary: v) auto

lemma le_value_bytes [simp]: "v < 256 ^ n \<Longrightarrow> le_value (le_bytes n v) = v"
proof (induction n arbitrary: v)
  case (Suc n)
  have "v div 256 < 256 ^ n" using Suc.prems by (simp add: less_mult_imp_div_less mult.commute)
  with Suc.IH have "le_value (le_bytes n (v div 256)) = v div 256" by blast
  moreover have "unat (of_nat (v mod 256) :: u8) = v mod 256"
    by (simp add: unsigned_of_nat take_bit_nat_eq_self)
  ultimately show ?case by simp
qed simp

lemma length_log_entry_bytes: "length (le_symbol e) = 6 \<Longrightarrow> length (log_entry_bytes e) = log_entry_size"
  by (simp add: log_entry_bytes_def log_entry_size_def)

lemma read_written_entry:
  assumes "length (le_symbol e) = 6"
  shows "read_log_entry (log_entry_bytes e) = e"
proof -
  have w: "of_nat (unat (w :: u64)) = w" "of_nat (unat (v :: u32)) = v" for w v
    by (metis of_nat_unat ucast_id)+
  have b: "le_value (le_bytes 8 (unat (w :: u64))) = unat w" "le_value (le_bytes 4 (unat (v :: u32))) = unat v" for w v
    using unat_u64_less [of w] unat_u32_less [of v] by (simp_all del: le_bytes.simps)
  have nth: "log_entry_bytes e ! 28 = le_side e" "log_entry_bytes e ! 29 = le_event_type e"
    by (simp_all add: log_entry_bytes_def nth_append)
  have tk: "take 8 (log_entry_bytes e) = le_bytes 8 (unat (le_timestamp_ns e))"
    "take 8 (drop 8 (log_entry_bytes e)) = le_bytes 8 (unat (le_order_id e))"
    "take 8 (drop 16 (log_entry_bytes e)) = le_bytes 8 (unat (le_price e))"
    "take 4 (drop 24 (log_entry_bytes e)) = le_bytes 4 (unat (le_qty e))"
    "take 6 (drop 30 (log_entry_bytes e)) = le_symbol e"
    using assms by (simp_all add: log_entry_bytes_def drop_Cons')
  show ?thesis unfolding read_log_entry_def tk nth b w by simp
qed

section \<open>The sink\<close>

record file_log_sink =
  fs_fd :: int
  fs_file :: "u8 list"

definition sink_init :: file_log_sink where
  "sink_init = \<lparr>fs_fd = - 1, fs_file = []\<rparr>"

text \<open>\<open>fd\<close> is what \<^verbatim>\<open>::open\<close> returns; with \<^verbatim>\<open>O_TRUNC\<close> a successful open empties the file.\<close>

definition sink_open :: "file_log_sink \<Rightarrow> int \<Rightarrow> bool \<times> file_log_sink" where
  "sink_open s fd = (fd \<ge> 0, if fd \<ge> 0 then s\<lparr>fs_fd := fd, fs_file := []\<rparr> else s\<lparr>fs_fd := fd\<rparr>)"

text \<open>\<open>n\<close> is what \<^verbatim>\<open>::write\<close> returns: that many bytes of the image reach the file.\<close>

definition sink_log :: "file_log_sink \<Rightarrow> log_entry \<Rightarrow> int \<Rightarrow> bool \<times> file_log_sink" where
  "sink_log s e n =
    (if fs_fd s < 0 then (False, s)
     else (n = int log_entry_size, s\<lparr>fs_file := fs_file s @ take (nat n) (log_entry_bytes e)\<rparr>))"

definition sink_close :: "file_log_sink \<Rightarrow> file_log_sink" where
  "sink_close s = (if fs_fd s \<ge> 0 then s\<lparr>fs_fd := - 1\<rparr> else s)"

text \<open>The entries in a file of whole records.\<close>

definition file_entries :: "u8 list \<Rightarrow> log_entry list" where
  "file_entries b = map (\<lambda>i. read_log_entry (take log_entry_size (drop (i * log_entry_size) b))) [0..<length b div log_entry_size]"

lemma file_entries_append:
  assumes "length b = k * log_entry_size" "length (le_symbol e) = 6"
  shows "file_entries (b @ log_entry_bytes e) = file_entries b @ [e]"
proof -
  have l: "length (log_entry_bytes e) = log_entry_size" by (rule length_log_entry_bytes [OF assms(2)])
  have z: "log_entry_size \<noteq> 0" by (simp add: log_entry_size_def)
  have n: "length (b @ log_entry_bytes e) div log_entry_size = Suc k" "length b div log_entry_size = k"
    using z by (simp_all add: l assms(1))
  have old: "take log_entry_size (drop (i * log_entry_size) (b @ log_entry_bytes e)) = take log_entry_size (drop (i * log_entry_size) b)"
    if "i < k" for i
  proof -
    have "Suc i * log_entry_size \<le> k * log_entry_size" using that by (intro mult_le_mono1) simp
    then have "i * log_entry_size + log_entry_size \<le> length b" using assms(1) by simp
    then show ?thesis by (simp add: drop_append take_append)
  qed
  have new: "take log_entry_size (drop (k * log_entry_size) (b @ log_entry_bytes e)) = log_entry_bytes e"
    using l by (simp add: assms(1) [symmetric])
  show ?thesis
  proof -
    let ?f = "\<lambda>c i. read_log_entry (take log_entry_size (drop (i * log_entry_size) c))"
    have "map (?f (b @ log_entry_bytes e)) [0..<k] = map (?f b) [0..<k]"
      by (rule map_cong [OF refl]) (simp only: old set_upt atLeastLessThan_iff)
    then show ?thesis
      unfolding file_entries_def n by (simp only: upt_Suc le0 if_True map_append list.map new read_written_entry [OF assms(2)])
  qed
qed

end
