(* ===== verification/Pipeline.thy ===== *)
theory Pipeline
  imports Matching_Engine Latency Log_Sink Containers "HOL-Library.Sublist"
begin

text \<open>
  \<^verbatim>\<open>hft::Pipeline\<close>: three threads around the engine. The control thread submits and stops,
  the engine thread runs \<^verbatim>\<open>run_loop\<close>, the drain thread polls reports, measures and logs. One
  action is one turn of one thread (each touches one end of one ring), and a run is any list of
  actions, so every interleaving of turns is a run. The clock reading and the result of
  \<^verbatim>\<open>::write\<close> are arguments of the drain thread's turn.
\<close>

section \<open>State\<close>

record pipeline_result =
  pr_events_submitted :: u64
  pr_events_accepted :: u64
  pr_fills :: u64
  pr_queue_full_rejects :: u64
  pr_engine_messages :: u64
  pr_engine_matches :: u64
  pr_fill_qty_total :: u64
  pr_tick_to_trade :: latency_histogram

definition pr_zero :: pipeline_result where
  "pr_zero = \<lparr>pr_events_submitted = 0, pr_events_accepted = 0, pr_fills = 0, pr_queue_full_rejects = 0,
     pr_engine_messages = 0, pr_engine_matches = 0, pr_fill_qty_total = 0, pr_tick_to_trade = lh_init\<rparr>"

text \<open>
  The threads: \<open>pp_running\<close> and \<open>pp_engine_running\<close> are the two atomic flags, the last two
  fields say whether the engine and the drain thread are between start and the end of their loop.
\<close>

record pipeline =
  pp_symbol :: symbol_id
  pp_engine :: engine
  pp_sink :: file_log_sink
  pp_running :: bool
  pp_result :: pipeline_result
  pp_recv :: "(order_id, u64) omap"
  pp_engine_running :: bool
  pp_engine_alive :: bool
  pp_drain_alive :: bool

definition pipeline_init :: "symbol_id \<Rightarrow> pipeline" where
  "pipeline_init s = \<lparr>pp_symbol = s, pp_engine = engine_init, pp_sink = sink_init, pp_running = False,
     pp_result = pr_zero, pp_recv = [], pp_engine_running = False, pp_engine_alive = False, pp_drain_alive = False\<rparr>"

section \<open>Operations\<close>

text \<open>\<open>fd\<close> is what opening the log file returns.\<close>

definition pipeline_start :: "pipeline \<Rightarrow> int \<Rightarrow> bool \<times> pipeline" where
  "pipeline_start p fd =
    (if pp_running p then (True, p)
     else (let p1 = p\<lparr>pp_engine := snd (register_symbol (pp_engine p) (pp_symbol p))\<rparr>;
               (opened, s) = sink_open (pp_sink p1) fd;
               p2 = p1\<lparr>pp_sink := s\<rparr>
           in if \<not> opened then (False, p2)
              else (True, p2\<lparr>pp_engine_running := True, pp_engine_alive := True, pp_running := True,
                pp_drain_alive := True\<rparr>)))"

definition submit_with_ts :: "pipeline \<Rightarrow> md_msg \<Rightarrow> u64 \<Rightarrow> bool \<times> pipeline" where
  "submit_with_ts p m recv_ns =
    (let r = pp_result p;
         p1 = p\<lparr>pp_result := r\<lparr>pr_events_submitted := pr_events_submitted r + 1\<rparr>\<rparr>;
         p2 = (if recv_ns \<noteq> 0 \<and> md_msg_type m = NewOrder
           then p1\<lparr>pp_recv := omap_put (md_order_id m) recv_ns (pp_recv p1)\<rparr> else p1);
         (ok, e) = engine_submit (pp_engine p2) m;
         p3 = p2\<lparr>pp_engine := e\<rparr>; r3 = pp_result p3
     in if ok then (True, p3\<lparr>pp_result := r3\<lparr>pr_events_accepted := pr_events_accepted r3 + 1\<rparr>\<rparr>)
        else (False, p3\<lparr>pp_result := r3\<lparr>pr_queue_full_rejects := pr_queue_full_rejects r3 + 1\<rparr>\<rparr>))"

definition pipeline_submit :: "pipeline \<Rightarrow> md_msg \<Rightarrow> bool \<times> pipeline" where
  "pipeline_submit p m = submit_with_ts p m 0"

text \<open>The log entry of a fill; the price's bit pattern is what reaches the file.\<close>

definition fill_entry :: "exec_report \<Rightarrow> u64 \<Rightarrow> log_entry" where
  "fill_entry rpt t = log_entry_zero\<lparr>le_timestamp_ns := t, le_order_id := er_order_id rpt,
     le_price := of_int (er_exec_price rpt), le_qty := er_exec_qty rpt,
     le_side := (if er_side rpt = Buy then 66 else 83), le_event_type := 70,
     le_symbol := 88 # tl (le_symbol log_entry_zero)\<rparr>"

text \<open>\<open>t\<close> is \<^verbatim>\<open>now_ns()\<close> and \<open>wn\<close> what \<^verbatim>\<open>::write\<close> returns.\<close>

definition take_recv :: "pipeline \<Rightarrow> exec_report \<Rightarrow> u64 \<Rightarrow> pipeline" where
  "take_recv p rpt t =
    (let key = (if map_of (pp_recv p) (er_order_id rpt) \<noteq> None then er_order_id rpt else er_contra_order_id rpt)
     in case map_of (pp_recv p) key of
          None \<Rightarrow> p
        | Some v \<Rightarrow>
            (let r = pp_result p;
                 p1 = (if t \<ge> v then p\<lparr>pp_result := r\<lparr>pr_tick_to_trade := lh_record (pr_tick_to_trade r) (t - v)\<rparr>\<rparr> else p)
             in p1\<lparr>pp_recv := omap_del key (pp_recv p1)\<rparr>))"

definition pipeline_on_fill :: "pipeline \<Rightarrow> exec_report \<Rightarrow> u64 \<Rightarrow> int \<Rightarrow> pipeline" where
  "pipeline_on_fill p rpt t wn =
    (let r = pp_result p;
         p1 = p\<lparr>pp_result := r\<lparr>pr_fills := pr_fills r + 1,
           pr_fill_qty_total := pr_fill_qty_total r + ucast (er_exec_qty rpt)\<rparr>\<rparr>;
         p2 = take_recv p1 rpt t
     in p2\<lparr>pp_sink := snd (sink_log (pp_sink p2) (fill_entry rpt t) wn)\<rparr>)"

section \<open>Turns of the threads\<close>

datatype pipe_act =
    ActSubmit md_msg u64
  | ActEngine
  | ActDrain u64 int
  | ActStop
  | ActStopEngine
  | ActJoin

text \<open>
  The drain thread: while running, one poll; after that, polls until one finds nothing, and ends.
  The engine thread: while its flag is set, one turn of \<^verbatim>\<open>run_loop\<close>; after that, the shutdown
  drain message by message. \<^verbatim>\<open>stop\<close> is three actions of the control thread: the pipeline's flag,
  the engine's flag, and, once both threads have ended, the rest.
\<close>

definition drain_turn :: "pipeline \<Rightarrow> u64 \<Rightarrow> int \<Rightarrow> pipeline" where
  "drain_turn p t wn =
    (if \<not> pp_drain_alive p then p
     else (let (r, e) = poll_report (pp_engine p); p1 = p\<lparr>pp_engine := e\<rparr>
           in case r of
                Some rpt \<Rightarrow> pipeline_on_fill p1 rpt t wn
              | None \<Rightarrow> if pp_running p then p1 else p1\<lparr>pp_drain_alive := False\<rparr>))"

definition engine_turn :: "pipeline \<Rightarrow> pipeline option" where
  "engine_turn p =
    (if \<not> pp_engine_alive p then Some p
     else if pp_engine_running p then map_option (\<lambda>e. p\<lparr>pp_engine := e\<rparr>) (engine_step (pp_engine p))
     else (let (r, q) = spsc_try_pop kQueueDepth (en_inbound (pp_engine p)); e1 = (pp_engine p)\<lparr>en_inbound := q\<rparr>
           in case r of
                None \<Rightarrow> Some (p\<lparr>pp_engine := e1, pp_engine_alive := False\<rparr>)
              | Some m \<Rightarrow> map_option (\<lambda>e. p\<lparr>pp_engine := e\<rparr>) (process_message e1 m)))"

definition finish_stop :: "pipeline \<Rightarrow> pipeline" where
  "finish_stop p =
    (let r = pp_result p in
     p\<lparr>pp_sink := sink_close (pp_sink p), pp_result := r\<lparr>pr_engine_messages := en_stat_messages (pp_engine p),
       pr_engine_matches := en_stat_matches (pp_engine p)\<rparr>\<rparr>)"

fun pipe_turn :: "pipeline \<Rightarrow> pipe_act \<Rightarrow> pipeline option" where
  "pipe_turn p (ActSubmit m ts) = Some (snd (submit_with_ts p m ts))"
| "pipe_turn p ActEngine = engine_turn p"
| "pipe_turn p (ActDrain t wn) = Some (drain_turn p t wn)"
| "pipe_turn p ActStop = Some (if pp_running p then p\<lparr>pp_running := False\<rparr> else p)"
| "pipe_turn p ActStopEngine = Some (if pp_running p then p else p\<lparr>pp_engine_running := False\<rparr>)"
| "pipe_turn p ActJoin = Some (if pp_running p \<or> pp_engine_alive p \<or> pp_drain_alive p then p else finish_stop p)"

fun pipe_run :: "pipeline \<Rightarrow> pipe_act list \<Rightarrow> pipeline option" where
  "pipe_run p [] = Some p"
| "pipe_run p (a # as) = Option.bind (pipe_turn p a) (\<lambda>p'. pipe_run p' as)"

text \<open>
  What a run accepted and what it handed to \<^verbatim>\<open>on_fill\<close>, read off the state before each action.
\<close>

definition act_accepts :: "pipeline \<Rightarrow> pipe_act \<Rightarrow> md_msg list" where
  "act_accepts p a = (case a of ActSubmit m ts \<Rightarrow> if fst (submit_with_ts p m ts) then [m] else [] | _ \<Rightarrow> [])"

definition act_fills :: "pipeline \<Rightarrow> pipe_act \<Rightarrow> (exec_report \<times> u64 \<times> int) list" where
  "act_fills p a = (case a of ActDrain t wn \<Rightarrow>
     if pp_drain_alive p then (case fst (poll_report (pp_engine p)) of Some r \<Rightarrow> [(r, t, wn)] | None \<Rightarrow> []) else []
   | _ \<Rightarrow> [])"

fun run_accepts :: "pipeline \<Rightarrow> pipe_act list \<Rightarrow> md_msg list" where
  "run_accepts p [] = []"
| "run_accepts p (a # as) = act_accepts p a @ (case pipe_turn p a of None \<Rightarrow> [] | Some p' \<Rightarrow> run_accepts p' as)"

fun run_fills :: "pipeline \<Rightarrow> pipe_act list \<Rightarrow> (exec_report \<times> u64 \<times> int) list" where
  "run_fills p [] = []"
| "run_fills p (a # as) = act_fills p a @ (case pipe_turn p a of None \<Rightarrow> [] | Some p' \<Rightarrow> run_fills p' as)"

section \<open>The invariant of every run\<close>

definition fill_bytes :: "exec_report \<times> u64 \<times> int \<Rightarrow> u8 list" where
  "fill_bytes f = (case f of (r, t, wn) \<Rightarrow> take (nat wn) (log_entry_bytes (fill_entry r t)))"

text \<open>
  \<open>acc\<close> the messages accepted, \<open>dn\<close> those of them the engine took, \<open>rs\<close> the reports they
  produced, \<open>fl\<close> the reports handed to \<^verbatim>\<open>on_fill\<close>, \<open>n\<close> the messages taken before the engine's
  flag fell.
\<close>

definition rings_inv :: "books \<Rightarrow> engine \<Rightarrow> md_msg list \<Rightarrow> md_msg list \<Rightarrow> exec_report list \<Rightarrow> exec_report list \<Rightarrow> bool" where
  "rings_inv B0 e acc dn rs fl \<longleftrightarrow> rings_ok e \<and> acc = dn @ inq e \<and> dispatch_all B0 dn = Some (books_of e, rs) \<and>
    subseq (fl @ outq e) rs \<and> (length rs \<le> queue_room \<longrightarrow> fl @ outq e = rs) \<and>
    en_stat_matches e = of_nat (length rs)"

definition counts_inv :: "pipeline \<Rightarrow> nat \<Rightarrow> (exec_report \<times> u64 \<times> int) list \<Rightarrow> bool" where
  "counts_inv p a fl \<longleftrightarrow>
    pr_events_submitted (pp_result p) = pr_events_accepted (pp_result p) + pr_queue_full_rejects (pp_result p) \<and>
    pr_events_accepted (pp_result p) = of_nat a \<and> pr_fills (pp_result p) = of_nat (length fl) \<and>
    pr_fill_qty_total (pp_result p) = sum_list (map (\<lambda>(r, t, wn). ucast (er_exec_qty r)) fl) \<and>
    fs_file (pp_sink p) = concat (map fill_bytes fl) \<and> (pp_drain_alive p \<longrightarrow> fs_fd (pp_sink p) \<ge> 0)"

definition msgs_inv :: "pipeline \<Rightarrow> nat \<Rightarrow> bool" where
  "msgs_inv p k \<longleftrightarrow> (\<exists>n \<le> k. en_stat_messages (pp_engine p) = of_nat n \<and> (pp_engine_running p \<longrightarrow> n = k))"

definition pipe_inv :: "books \<Rightarrow> pipeline \<Rightarrow> md_msg list \<Rightarrow> (exec_report \<times> u64 \<times> int) list \<Rightarrow> bool" where
  "pipe_inv B0 p acc fl \<longleftrightarrow> (\<exists>dn rs. rings_inv B0 (pp_engine p) acc dn rs (map fst fl) \<and> msgs_inv p (length dn)) \<and>
    counts_inv p (length acc) fl"

lemma subseq_take: "subseq xs ys \<Longrightarrow> subseq (xs @ take k zs) (ys @ zs)"
  by (intro list_emb_append_mono) (auto intro: sublist_imp_subseq)

text \<open>The engine takes the front message.\<close>

lemma rings_inv_work:
  assumes inv: "rings_inv B0 e acc dn rs fl" and q: "inq e = m # ms" "inq e' = ms"
    and d: "dispatch (books_of e) m = Some (B, rs')" and e': "books_of e' = B" "rings_ok e'"
    "outq e' = outq e @ take (queue_room - length (outq e)) rs'" "en_stat_matches e' = en_stat_matches e + of_nat (length rs')"
  shows "rings_inv B0 e' acc (dn @ [m]) (rs @ rs') fl"
proof -
  from inv have I: "rings_ok e" "acc = dn @ inq e" "dispatch_all B0 dn = Some (books_of e, rs)" "subseq (fl @ outq e) rs"
    "length rs \<le> queue_room \<longrightarrow> fl @ outq e = rs" "en_stat_matches e = of_nat (length rs)" by (simp_all add: rings_inv_def)
  have all: "dispatch_all B0 (dn @ [m]) = Some (B, rs @ rs')"
    using I(3) d by (simp add: dispatch_all_append)
  have sub: "subseq (fl @ outq e') (rs @ rs')"
    using subseq_take [OF I(4), of "queue_room - length (outq e)" rs'] by (simp add: e'(3))
  have eq: "fl @ outq e' = rs @ rs'" if "length (rs @ rs') \<le> queue_room"
  proof -
    have same: "fl @ outq e = rs" using I(5) that by simp
    then have "length (outq e) \<le> length rs" by (metis le_add2 length_append)
    then have "take (queue_room - length (outq e)) rs' = rs'" using that by simp
    then show ?thesis using same by (simp add: e'(3))
  qed
  show ?thesis
    using I(2,6) all sub eq q e'(1,2,4) by (simp add: rings_inv_def)
qed

lemma rings_inv_quiet:
  assumes "rings_inv B0 e acc dn rs fl" "rings_ok e'" "inq e' = inq e" "outq e' = outq e" "books_of e' = books_of e"
    "en_stat_matches e' = en_stat_matches e"
  shows "rings_inv B0 e' acc dn rs fl"
  using assms by (simp add: rings_inv_def)

lemma submit_pipe_inv:
  assumes inv: "pipe_inv B0 p acc fl"
  shows "pipe_inv B0 (snd (submit_with_ts p m ts)) (acc @ (if fst (submit_with_ts p m ts) then [m] else [])) fl"
proof -
  obtain ok e where s: "engine_submit (pp_engine p) m = (ok, e)" by force
  from inv obtain dn rs where R: "rings_inv B0 (pp_engine p) acc dn rs (map fst fl)" and M: "msgs_inv p (length dn)"
    and C: "counts_inv p (length acc) fl" by (auto simp: pipe_inv_def)
  have ok: "rings_ok (pp_engine p)" using R by (simp add: rings_inv_def)
  note S = submit_ring [OF ok s]
  let ?p' = "snd (submit_with_ts p m ts)"
  have f: "fst (submit_with_ts p m ts) = ok" "pp_engine ?p' = e" "pp_engine_running ?p' = pp_engine_running p"
    by (simp_all add: submit_with_ts_def Let_def s)
  have "rings_inv B0 e (acc @ (if ok then [m] else [])) dn rs (map fst fl)"
    using R S by (auto simp: rings_inv_def books_of_def)
  moreover have "msgs_inv ?p' (length dn)" using M S(7) by (simp add: msgs_inv_def f)
  moreover have "counts_inv ?p' (length (acc @ (if ok then [m] else []))) fl"
    using C by (auto simp: counts_inv_def submit_with_ts_def Let_def s)
  ultimately show ?thesis unfolding pipe_inv_def f by blast
qed

lemma counts_inv_engine:
  "counts_inv (p\<lparr>pp_engine := e\<rparr>) a fl = counts_inv p a fl" "counts_inv (p\<lparr>pp_engine := e, pp_engine_alive := b\<rparr>) a fl = counts_inv p a fl"
  by (simp_all add: counts_inv_def)

lemma engine_pipe_inv:
  assumes inv: "pipe_inv B0 p acc fl" and t: "engine_turn p = Some p'"
  shows "pipe_inv B0 p' acc fl"
proof -
  from inv obtain dn rs where R: "rings_inv B0 (pp_engine p) acc dn rs (map fst fl)" and M: "msgs_inv p (length dn)"
    and C: "counts_inv p (length acc) fl" by (auto simp: pipe_inv_def)
  let ?e = "pp_engine p"
  have ok: "rings_ok ?e" using R by (simp add: rings_inv_def)
  show ?thesis
  proof (cases "pp_engine_alive p")
    case False
    with t inv show ?thesis by (simp add: engine_turn_def)
  next
    case alive: True
    show ?thesis
    proof (cases "pp_engine_running p")
      case True
      with t alive obtain e where e: "engine_step ?e = Some e" "p' = p\<lparr>pp_engine := e\<rparr>"
        by (auto simp: engine_turn_def)
      from ok e(1) show ?thesis
      proof (cases rule: engine_step_ring)
        case idle
        then have "rings_inv B0 e acc dn rs (map fst fl)" by (intro rings_inv_quiet [OF R]) simp_all
        moreover have "msgs_inv p' (length dn)" using M idle by (simp add: msgs_inv_def e(2))
        ultimately show ?thesis using C unfolding pipe_inv_def e(2) counts_inv_engine by auto
      next
        case (work m ms B rs')
        have "rings_inv B0 e acc (dn @ [m]) (rs @ rs') (map fst fl)"
          by (rule rings_inv_work [OF R work(1,2,3,4,5,6,8)])
        moreover have "msgs_inv p' (length (dn @ [m]))"
          using M work(7) True by (auto simp: msgs_inv_def e(2) ac_simps)
        ultimately show ?thesis using C unfolding pipe_inv_def e(2) counts_inv_engine by auto
      qed
    next
      case False
      from ok show ?thesis
      proof (cases rule: pop_inbound)
        case (empty q)
        then have p': "p' = p\<lparr>pp_engine := ?e\<lparr>en_inbound := q\<rparr>, pp_engine_alive := False\<rparr>"
          using t alive False by (simp add: engine_turn_def)
        have "rings_inv B0 (?e\<lparr>en_inbound := q\<rparr>) acc dn rs (map fst fl)"
          using empty by (intro rings_inv_quiet [OF R]) (simp_all add: books_of_def)
        moreover have "msgs_inv p' (length dn)" using M by (simp add: msgs_inv_def p')
        ultimately show ?thesis using C unfolding pipe_inv_def p' counts_inv_engine by auto
      next
        case (msg m ms q)
        let ?e1 = "?e\<lparr>en_inbound := q\<rparr>"
        from t alive False msg(1) obtain e where e: "process_message ?e1 m = Some e" "p' = p\<lparr>pp_engine := e\<rparr>"
          by (auto simp: engine_turn_def)
        have bo: "books_of ?e1 = books_of ?e" "outq ?e1 = outq ?e" by (simp_all add: books_of_def)
        from process_message_ring [OF msg(3) e(1)] obtain B rs' where P: "dispatch (books_of ?e1) m = Some (B, rs')" "rings_ok e"
          "books_of e = B" "inq e = inq ?e1" "outq e = outq ?e1 @ take (queue_room - length (outq ?e1)) rs'"
          "en_stat_messages e = en_stat_messages ?e1" "en_stat_matches e = en_stat_matches ?e1 + of_nat (length rs')" .
        have "rings_inv B0 e acc (dn @ [m]) (rs @ rs') (map fst fl)"
          by (rule rings_inv_work [OF R msg(2)]) (use P msg(4) bo in simp_all)
        moreover have "msgs_inv p' (length (dn @ [m]))"
          using M P(6) False by (auto simp: msgs_inv_def e(2) intro: le_SucI)
        ultimately show ?thesis using C unfolding pipe_inv_def e(2) counts_inv_engine by auto
      qed
    qed
  qed
qed

lemma take_recv_sel [simp]:
  "pp_sink (take_recv p rpt t) = pp_sink p" "pp_engine (take_recv p rpt t) = pp_engine p"
  "pp_drain_alive (take_recv p rpt t) = pp_drain_alive p" "pp_engine_running (take_recv p rpt t) = pp_engine_running p"
  "pr_events_submitted (pp_result (take_recv p rpt t)) = pr_events_submitted (pp_result p)"
  "pr_events_accepted (pp_result (take_recv p rpt t)) = pr_events_accepted (pp_result p)"
  "pr_queue_full_rejects (pp_result (take_recv p rpt t)) = pr_queue_full_rejects (pp_result p)"
  "pr_fills (pp_result (take_recv p rpt t)) = pr_fills (pp_result p)"
  "pr_fill_qty_total (pp_result (take_recv p rpt t)) = pr_fill_qty_total (pp_result p)"
  by (simp_all add: take_recv_def Let_def split: option.splits)

lemma drain_pipe_inv:
  assumes inv: "pipe_inv B0 p acc fl"
  shows "pipe_inv B0 (drain_turn p t wn) acc (fl @ act_fills p (ActDrain t wn))"
proof (cases "pp_drain_alive p")
  case False
  with inv show ?thesis by (simp add: drain_turn_def act_fills_def)
next
  case alive: True
  from inv obtain dn rs where R: "rings_inv B0 (pp_engine p) acc dn rs (map fst fl)" and M: "msgs_inv p (length dn)"
    and C: "counts_inv p (length acc) fl" by (auto simp: pipe_inv_def)
  obtain r e where po: "poll_report (pp_engine p) = (r, e)" by force
  have ok: "rings_ok (pp_engine p)" using R by (simp add: rings_inv_def)
  note P = poll_ring [OF ok po]
  show ?thesis
  proof (cases r)
    case None
    then have out: "outq (pp_engine p) = []" using P(2) by (auto split: list.splits)
    let ?p' = "drain_turn p t wn"
    have p': "pp_engine ?p' = e" "pp_engine_running ?p' = pp_engine_running p" "pp_result ?p' = pp_result p"
      "pp_sink ?p' = pp_sink p" "pp_drain_alive ?p' \<longrightarrow> pp_drain_alive p"
      using None alive by (simp_all add: drain_turn_def po Let_def)
    have "rings_inv B0 e acc dn rs (map fst fl)"
      using P out by (intro rings_inv_quiet [OF R]) (simp_all add: books_of_def)
    moreover have "msgs_inv ?p' (length dn)" using M P(7) by (simp add: msgs_inv_def p')
    moreover have "counts_inv ?p' (length acc) fl" using C p'(5) by (auto simp: counts_inv_def p')
    ultimately show ?thesis using None po alive unfolding pipe_inv_def p' by (simp add: act_fills_def) blast
  next
    case (Some rpt)
    let ?p' = "drain_turn p t wn"
    have dt: "?p' = pipeline_on_fill (p\<lparr>pp_engine := e\<rparr>) rpt t wn" using alive Some by (simp add: drain_turn_def po)
    have fi: "act_fills p (ActDrain t wn) = [(rpt, t, wn)]" using alive Some by (simp add: act_fills_def po)
    have p': "pp_engine ?p' = e" "pp_engine_running ?p' = pp_engine_running p"
      by (simp_all add: dt pipeline_on_fill_def Let_def)
    obtain xs where out: "outq (pp_engine p) = rpt # xs" using P(2) Some by (auto split: list.splits)
    have "rings_inv B0 e acc dn rs (map fst (fl @ [(rpt, t, wn)]))"
      using R P out by (simp add: rings_inv_def books_of_def)
    moreover have "msgs_inv ?p' (length dn)" using M P(7) by (simp add: msgs_inv_def p')
    moreover have "counts_inv ?p' (length acc) (fl @ [(rpt, t, wn)])"
    proof -
      have "fs_fd (pp_sink p) \<ge> 0" using C alive by (simp add: counts_inv_def)
      then have "fs_file (pp_sink ?p') = fs_file (pp_sink p) @ fill_bytes (rpt, t, wn)" "fs_fd (pp_sink ?p') = fs_fd (pp_sink p)"
        by (simp_all add: dt pipeline_on_fill_def Let_def sink_log_def fill_bytes_def)
      then show ?thesis using C alive by (simp add: counts_inv_def) (simp add: dt pipeline_on_fill_def Let_def)
    qed
    ultimately show ?thesis unfolding pipe_inv_def p' fi by blast
  qed
qed

lemma pipe_inv_flags:
  assumes inv: "pipe_inv B0 p acc fl" and e: "pp_engine p' = pp_engine p" "pp_engine_running p' \<longrightarrow> pp_engine_running p"
    and c: "counts_inv p (length acc) fl \<Longrightarrow> counts_inv p' (length acc) fl"
  shows "pipe_inv B0 p' acc fl"
proof -
  have "msgs_inv p' k" if "msgs_inv p k" for k using that e by (auto simp: msgs_inv_def)
  with inv c e(1) show ?thesis unfolding pipe_inv_def by auto
qed

lemma submit_flags:
  "pp_running (snd (submit_with_ts p m ts)) = pp_running p"
  "pp_engine_running (snd (submit_with_ts p m ts)) = pp_engine_running p"
  "pp_engine_alive (snd (submit_with_ts p m ts)) = pp_engine_alive p"
proof -
  obtain ok e where s: "engine_submit (pp_engine p) m = (ok, e)" by force
  show "pp_running (snd (submit_with_ts p m ts)) = pp_running p"
    "pp_engine_running (snd (submit_with_ts p m ts)) = pp_engine_running p"
    "pp_engine_alive (snd (submit_with_ts p m ts)) = pp_engine_alive p"
    by (simp_all add: submit_with_ts_def Let_def s)
qed

lemma turn_pipe_inv:
  assumes inv: "pipe_inv B0 p acc fl" and t: "pipe_turn p a = Some p'"
  shows "pipe_inv B0 p' (acc @ act_accepts p a) (fl @ act_fills p a)"
proof (cases a)
  case (ActSubmit m ts)
  with t submit_pipe_inv [OF inv, of m ts] show ?thesis by (simp add: act_accepts_def act_fills_def)
next
  case ActEngine
  with t engine_pipe_inv [OF inv, of p'] show ?thesis by (simp add: act_accepts_def act_fills_def)
next
  case (ActDrain ts wn)
  with t drain_pipe_inv [OF inv, of ts wn] show ?thesis by (simp add: act_accepts_def)
next
  case ActStop
  then have "pipe_inv B0 p' acc fl"
    using t by (intro pipe_inv_flags [OF inv]) (auto simp: counts_inv_def split: if_splits)
  with ActStop show ?thesis by (simp add: act_accepts_def act_fills_def)
next
  case ActStopEngine
  then have "pipe_inv B0 p' acc fl"
    using t by (intro pipe_inv_flags [OF inv]) (auto simp: counts_inv_def split: if_splits)
  with ActStopEngine show ?thesis by (simp add: act_accepts_def act_fills_def)
next
  case ActJoin
  then have "pipe_inv B0 p' acc fl"
    using t by (intro pipe_inv_flags [OF inv])
      (auto simp: counts_inv_def finish_stop_def sink_close_def Let_def split: if_splits)
  with ActJoin show ?thesis by (simp add: act_accepts_def act_fills_def)
qed

lemma run_pipe_inv:
  assumes "pipe_inv B0 p acc fl" "pipe_run p as = Some p'"
  shows "pipe_inv B0 p' (acc @ run_accepts p as) (fl @ run_fills p as)"
  using assms
proof (induction as arbitrary: p acc fl)
  case (Cons a as)
  then obtain p1 where p1: "pipe_turn p a = Some p1" "pipe_run p1 as = Some p'" by (auto simp: bind_eq_Some_conv)
  from Cons.IH [OF turn_pipe_inv [OF Cons.prems(1) p1(1)] p1(2)] p1(1) show ?case by simp
qed simp

section \<open>Starting\<close>

definition started :: "symbol_id \<Rightarrow> int \<Rightarrow> pipeline" where
  "started s fd = snd (pipeline_start (pipeline_init s) fd)"

definition start_books :: "symbol_id \<Rightarrow> books" where
  "start_books s = ((\<lambda>_. None)(unat s := Some (book_init s)), 1)"

definition start_abooks :: "symbol_id \<Rightarrow> abooks" where
  "start_abooks s = ((\<lambda>_. None)(unat s := Some abook_init), 1)"

lemma start_books_good: "books_good (start_books s) (start_abooks s)"
proof -
  have "books_good ((\<lambda>_. None), 1) ((\<lambda>_. None), 1)" by (simp add: books_good_def)
  from books_good_upd [OF this good_book_init [of s] ob_symbol_init] show ?thesis
    by (simp add: start_books_def start_abooks_def)
qed

lemma started_inv:
  assumes "fd \<ge> 0" "unat s < kMaxSymbols"
  shows "pipe_inv (start_books s) (started s fd) [] []" "pp_engine_running (started s fd)" "pp_engine_alive (started s fd)"
    "pp_drain_alive (started s fd)" "pp_running (started s fd)"
proof -
  have e: "pp_engine (started s fd) = snd (register_symbol engine_init s)"
    using assms by (simp add: started_def pipeline_start_def pipeline_init_def sink_open_def Let_def)
  have r: "snd (register_symbol engine_init s) = engine_init\<lparr>en_books := (\<lambda>_. None)(unat s := Some (book_init s))\<rparr>"
    using assms by (simp add: register_symbol_def engine_init_def)
  have "rings_inv (start_books s) (pp_engine (started s fd)) [] [] [] []"
    unfolding e r by (simp add: rings_inv_def books_of_def start_books_def) (simp add: engine_init_def)
  moreover have "msgs_inv (started s fd) 0"
    unfolding msgs_inv_def e r by (simp add: engine_init_def)
  moreover have "counts_inv (started s fd) 0 []"
    using assms by (simp add: counts_inv_def started_def pipeline_start_def pipeline_init_def sink_open_def sink_init_def
        pr_zero_def Let_def)
  ultimately show "pipe_inv (start_books s) (started s fd) [] []" unfolding pipe_inv_def by auto
  show "pp_engine_running (started s fd)" "pp_engine_alive (started s fd)" "pp_drain_alive (started s fd)" "pp_running (started s fd)"
    using assms by (simp_all add: started_def pipeline_start_def pipeline_init_def sink_open_def Let_def)
qed

section \<open>After the engine thread has ended\<close>

text \<open>
  Once the engine thread ends its ring is empty, and stays so as long as nothing is submitted.
\<close>

definition engine_ended :: "pipeline \<Rightarrow> bool" where
  "engine_ended p \<longleftrightarrow> \<not> pp_engine_alive p \<and> \<not> pp_running p \<and> \<not> pp_engine_running p \<and> inq (pp_engine p) = []"

text \<open>A run in which the control thread stops only after its last submit.\<close>

fun submits_before_stop :: "bool \<Rightarrow> pipe_act list \<Rightarrow> bool" where
  "submits_before_stop stopped [] \<longleftrightarrow> True"
| "submits_before_stop stopped (ActSubmit m ts # as) \<longleftrightarrow> \<not> stopped \<and> submits_before_stop stopped as"
| "submits_before_stop stopped (ActStop # as) \<longleftrightarrow> submits_before_stop True as"
| "submits_before_stop stopped (_ # as) \<longleftrightarrow> submits_before_stop stopped as"

definition stop_inv :: "pipeline \<Rightarrow> bool \<Rightarrow> bool" where
  "stop_inv p stopped \<longleftrightarrow> rings_ok (pp_engine p) \<and> pp_running p = (\<not> stopped) \<and>
    (pp_engine_running p \<longrightarrow> pp_engine_alive p) \<and> (pp_running p \<longrightarrow> pp_engine_running p) \<and>
    (\<not> pp_engine_alive p \<longrightarrow> inq (pp_engine p) = [])"

lemma drain_turn_engine:
  "pp_engine (drain_turn p t wn) = (if pp_drain_alive p then snd (poll_report (pp_engine p)) else pp_engine p)"
  "pp_running (drain_turn p t wn) = pp_running p" "pp_engine_running (drain_turn p t wn) = pp_engine_running p"
  "pp_engine_alive (drain_turn p t wn) = pp_engine_alive p"
  by (auto simp: drain_turn_def pipeline_on_fill_def take_recv_def Let_def split: prod.splits option.splits)

lemma stop_inv_turn:
  assumes inv: "stop_inv p stopped" and ok: "submits_before_stop stopped (a # as)" and t: "pipe_turn p a = Some p'"
    and ring: "rings_ok (pp_engine p')"
  shows "stop_inv p' (stopped \<or> a = ActStop)"
proof (cases a)
  case (ActSubmit m ts)
  then have "\<not> stopped" using ok by simp
  then have "pp_engine_alive p" using inv by (simp add: stop_inv_def)
  moreover have "pp_running p' = pp_running p" "pp_engine_running p' = pp_engine_running p" "pp_engine_alive p' = pp_engine_alive p"
    using t ActSubmit by (auto simp: submit_flags)
  ultimately show ?thesis using inv ring ActSubmit by (simp add: stop_inv_def)
next
  case ActEngine
  show ?thesis
  proof (cases "pp_engine_alive p")
    case False
    then show ?thesis using t ActEngine inv by (simp add: engine_turn_def)
  next
    case alive: True
    have r: "rings_ok (pp_engine p)" using inv by (simp add: stop_inv_def)
    show ?thesis
    proof (cases "pp_engine_running p")
      case True
      then obtain e where "p' = p\<lparr>pp_engine := e\<rparr>" using t ActEngine alive by (auto simp: engine_turn_def)
      then show ?thesis using inv alive ring ActEngine by (simp add: stop_inv_def)
    next
      case False
      from r show ?thesis
      proof (cases rule: pop_inbound)
        case (empty q)
        then have "p' = p\<lparr>pp_engine := (pp_engine p)\<lparr>en_inbound := q\<rparr>, pp_engine_alive := False\<rparr>"
          using t ActEngine alive False by (simp add: engine_turn_def)
        then show ?thesis using inv empty(3,4) False ActEngine by (auto simp: stop_inv_def)
      next
        case (msg m ms q)
        then obtain e where "p' = p\<lparr>pp_engine := e\<rparr>" using t ActEngine alive False by (auto simp: engine_turn_def)
        then show ?thesis using inv alive ring ActEngine by (simp add: stop_inv_def)
      qed
    qed
  qed
next
  case (ActDrain ts wn)
  have r: "rings_ok (pp_engine p)" using inv by (simp add: stop_inv_def)
  obtain v e where po: "poll_report (pp_engine p) = (v, e)" by force
  have p': "p' = drain_turn p ts wn" using t ActDrain by simp
  have "inq (pp_engine p') = inq (pp_engine p)" using poll_ring(4) [OF r po] by (simp add: p' drain_turn_engine po)
  then show ?thesis using inv ring ActDrain by (simp add: stop_inv_def p' drain_turn_engine)
next
  case ActStop
  then show ?thesis using inv t ring by (auto simp: stop_inv_def split: if_splits)
next
  case ActStopEngine
  then show ?thesis using inv t ring by (auto simp: stop_inv_def split: if_splits)
next
  case ActJoin
  then show ?thesis using inv t ring by (auto simp: stop_inv_def finish_stop_def Let_def split: if_splits)
qed

lemma submits_before_stop_Cons: "submits_before_stop st (a # as) \<Longrightarrow> submits_before_stop (st \<or> a = ActStop) as"
  by (cases a) auto

lemma run_stop_inv:
  "stop_inv p stopped \<Longrightarrow> pipe_inv B0 p acc fl \<Longrightarrow> submits_before_stop stopped as \<Longrightarrow> pipe_run p as = Some p' \<Longrightarrow>
    \<exists>st. stop_inv p' st"
proof (induction as arbitrary: p stopped acc fl)
  case (Cons a as)
  then obtain p1 where p1: "pipe_turn p a = Some p1" "pipe_run p1 as = Some p'" by (auto simp: bind_eq_Some_conv)
  have P1: "pipe_inv B0 p1 (acc @ act_accepts p a) (fl @ act_fills p a)" by (rule turn_pipe_inv [OF Cons.prems(2) p1(1)])
  then have ring: "rings_ok (pp_engine p1)" by (auto simp: pipe_inv_def rings_inv_def)
  from Cons.IH [OF stop_inv_turn [OF Cons.prems(1,3) p1(1) ring] P1 submits_before_stop_Cons [OF Cons.prems(3)] p1(2)]
  show ?case .
qed auto

section \<open>Every run returns\<close>

lemma msgs_fresh_append:
  "msgs_fresh A (ms @ ns) \<longleftrightarrow> msgs_fresh A ms \<and> msgs_fresh (fst (adispatch_all A ms)) ns"
proof (induction ms arbitrary: A)
  case (Cons m ms)
  have "fst (adispatch_all A (m # ms)) = fst (adispatch_all (fst (adispatch A m)) ms)"
    by (auto simp: Let_def split: prod.splits)
  with Cons show ?case by simp
qed simp

lemma front_dispatches:
  assumes g: "books_good B0 A0" and R: "rings_inv B0 e acc dn rs fl" and f: "msgs_fresh A0 acc" and q: "inq e = m # ms"
  shows "dispatch (books_of e) m \<noteq> None"
proof -
  from R q have I: "acc = dn @ m # ms" "dispatch_all B0 dn = Some (books_of e, rs)" by (simp_all add: rings_inv_def)
  have F: "msgs_fresh A0 dn" "msg_fresh (fst (adispatch_all A0 dn)) m" using f unfolding I(1) msgs_fresh_append by simp_all
  from dispatch_all_refines [OF g F(1)] I(2) have "books_good (books_of e) (fst (adispatch_all A0 dn))" by auto
  from dispatch_refines [OF this F(2)] show ?thesis by auto
qed

lemma turn_returns:
  assumes g: "books_good B0 A0" and inv: "pipe_inv B0 p acc fl" and f: "msgs_fresh A0 acc"
  shows "pipe_turn p a \<noteq> None"
proof (cases a)
  case ActEngine
  from inv obtain dn rs where R: "rings_inv B0 (pp_engine p) acc dn rs (map fst fl)" by (auto simp: pipe_inv_def)
  then have ok: "rings_ok (pp_engine p)" by (simp add: rings_inv_def)
  have d: "dispatch (books_of (pp_engine p)) m \<noteq> None" if "inq (pp_engine p) = m # ms" for m ms
    by (rule front_dispatches [OF g R f that])
  have step: "engine_step (pp_engine p) \<noteq> None"
    by (rule engine_step_returns [OF ok]) (use d in \<open>auto simp: neq_Nil_conv\<close>)
  have "engine_turn p \<noteq> None"
    using ok
  proof (cases rule: pop_inbound)
    case (empty q)
    then show ?thesis using step by (auto simp: engine_turn_def)
  next
    case (msg m ms q)
    have "books_of ((pp_engine p)\<lparr>en_inbound := q\<rparr>) = books_of (pp_engine p)" by (simp add: books_of_def)
    then show ?thesis using step d [OF msg(2)] msg(1) by (auto simp: engine_turn_def process_message_dispatch)
  qed
  with ActEngine show ?thesis by simp
qed simp_all

lemma run_returns:
  assumes "books_good B0 A0"
  shows "pipe_inv B0 p acc fl \<Longrightarrow> msgs_fresh A0 (acc @ run_accepts p as) \<Longrightarrow> \<exists>p'. pipe_run p as = Some p'"
proof (induction as arbitrary: p acc fl)
  case (Cons a as)
  have "msgs_fresh A0 acc" using Cons.prems(2) by (simp add: msgs_fresh_append)
  from turn_returns [OF assms Cons.prems(1) this, of a] obtain p1 where p1: "pipe_turn p a = Some p1" by auto
  have "msgs_fresh A0 ((acc @ act_accepts p a) @ run_accepts p1 as)" using Cons.prems(2) p1 by simp
  from Cons.IH [OF turn_pipe_inv [OF Cons.prems(1) p1] this] p1 show ?case by simp
qed simp

section \<open>The log\<close>

lemma fill_entry_symbol [simp]: "length (le_symbol (fill_entry r t)) = 6"
  by (simp add: fill_entry_def log_entry_zero_def)

lemma log_file_entries:
  assumes "\<forall>(r, t, wn)\<in>set fl. wn = int log_entry_size"
  shows "file_entries (concat (map fill_bytes fl)) = map (\<lambda>(r, t, wn). fill_entry r t) fl \<and>
    length (concat (map fill_bytes fl)) = length fl * log_entry_size"
  using assms
proof (induction fl rule: rev_induct)
  case (snoc f fl)
  obtain r t wn where f: "f = (r, t, wn)" by (metis prod_cases3)
  have b: "fill_bytes f = log_entry_bytes (fill_entry r t)"
    using snoc.prems length_log_entry_bytes [OF fill_entry_symbol, of r t] by (simp add: f fill_bytes_def)
  from snoc have IH: "file_entries (concat (map fill_bytes fl)) = map (\<lambda>(r, t, wn). fill_entry r t) fl"
    "length (concat (map fill_bytes fl)) = length fl * log_entry_size" by auto
  from file_entries_append [OF IH(2) fill_entry_symbol, of r t] IH b show ?case
    by (simp add: f length_log_entry_bytes)
qed (simp add: file_entries_def)

end
