(* ===== verification/Wire_Format.thy ===== *)
theory Wire_Format
  imports Bytes
begin

text \<open>
  The MoldUDP64 framing of \<^verbatim>\<open>udp-multicast-receiver/include/feed/wire_format.hpp\<close>: the
  twenty-byte header, the request packet of the same layout, a message of a datagram, and the
  framing of a message by its length. A \<^verbatim>\<open>parse\<close> that returns false is \<open>None\<close>.
\<close>

definition kMoldHeaderSize :: nat where "kMoldHeaderSize = 20"
definition kMoldHeartbeatCount :: u16 where "kMoldHeartbeatCount = 0"
definition kMoldEndOfSessionCount :: u16 where "kMoldEndOfSessionCount = 0xFFFF"

record mold_header =
  mh_session :: "u8 list"
  mh_seq_num :: u64
  mh_msg_count :: u16

definition mold_header_parse :: "u8 list \<Rightarrow> mold_header option" where
  "mold_header_parse buf =
    (if length buf < kMoldHeaderSize then None
     else Some \<lparr>mh_session = take 10 buf, mh_seq_num = be64 buf 10, mh_msg_count = be16 buf 18\<rparr>)"

definition mold_header_serialise :: "mold_header \<Rightarrow> u8 list" where
  "mold_header_serialise h = mh_session h @ put_be64 (mh_seq_num h) @ put_be16 (mh_msg_count h)"

definition is_heartbeat :: "mold_header \<Rightarrow> bool" where
  "is_heartbeat h \<longleftrightarrow> mh_msg_count h = kMoldHeartbeatCount"

definition is_end_of_session :: "mold_header \<Rightarrow> bool" where
  "is_end_of_session h \<longleftrightarrow> mh_msg_count h = kMoldEndOfSessionCount"

definition data_count :: "mold_header \<Rightarrow> u16" where
  "data_count h = (if is_end_of_session h then 0 else mh_msg_count h)"

text \<open>A message of a datagram; the code's pointer into the packet is the body itself.\<close>

record mold_message =
  mm_length :: nat
  mm_body :: "u8 list"
  mm_seq_num :: u64
  mm_recv_ns :: u64

record retransmit_request =
  rq_session :: "u8 list"
  rq_first_seq :: u64
  rq_count :: u16

definition kRequestSize :: nat where "kRequestSize = 20"

definition request_serialise :: "retransmit_request \<Rightarrow> u8 list" where
  "request_serialise r = rq_session r @ put_be64 (rq_first_seq r) @ put_be16 (rq_count r)"

definition request_parse :: "u8 list \<Rightarrow> retransmit_request option" where
  "request_parse buf =
    (if length buf < kRequestSize then None
     else Some \<lparr>rq_session = take 10 buf, rq_first_seq = be64 buf 10, rq_count = be16 buf 18\<rparr>)"

section \<open>Round trips\<close>

lemma header_read:
  assumes "length s = 10"
  shows "take 10 (s @ put_be64 q @ put_be16 c @ rest) = s" "be64 (s @ put_be64 q @ put_be16 c @ rest) 10 = q"
    "be16 (s @ put_be64 q @ put_be16 c @ rest) 18 = c"
proof -
  show "take 10 (s @ put_be64 q @ put_be16 c @ rest) = s" using assms by simp
  show "be64 (s @ put_be64 q @ put_be16 c @ rest) 10 = q" by (rule be64_at [OF assms])
  have "length (s @ put_be64 q) = 18" using assms by simp
  from be16_at [OF this, of c rest] show "be16 (s @ put_be64 q @ put_be16 c @ rest) 18 = c" by simp
qed

lemma header_parse_serialise:
  assumes "length (mh_session h) = 10"
  shows "mold_header_parse (mold_header_serialise h @ rest) = Some h"
  using header_read [OF assms, of "mh_seq_num h" "mh_msg_count h" rest] assms
  by (simp add: mold_header_parse_def mold_header_serialise_def kMoldHeaderSize_def)

lemma header_serialise_parse:
  assumes "mold_header_parse buf = Some h"
  shows "mold_header_serialise h = take kMoldHeaderSize buf" "length (mh_session h) = 10"
proof -
  have l: "20 \<le> length buf" and h: "h = \<lparr>mh_session = take 10 buf, mh_seq_num = be64 buf 10, mh_msg_count = be16 buf 18\<rparr>"
    using assms by (auto simp: mold_header_parse_def kMoldHeaderSize_def split: if_splits)
  have "put_be64 (be64 buf 10) = take 8 (drop 10 buf)" "put_be16 (be16 buf 18) = take 2 (drop 18 buf)"
    using l by (simp_all add: put_be64_read put_be16_read)
  moreover have "take 10 buf @ take 8 (drop 10 buf) @ take 2 (drop 18 buf) = take 20 buf"
    using take_drop_join [of 10 8 2 buf] take_drop_join [of 0 10 10 buf] l by simp
  ultimately show "mold_header_serialise h = take kMoldHeaderSize buf"
    by (simp add: h mold_header_serialise_def kMoldHeaderSize_def)
  show "length (mh_session h) = 10" using l by (simp add: h)
qed

lemma request_parse_serialise:
  assumes "length (rq_session r) = 10"
  shows "request_parse (request_serialise r @ rest) = Some r"
  using header_read [OF assms, of "rq_first_seq r" "rq_count r" rest] assms
  by (simp add: request_parse_def request_serialise_def kRequestSize_def)

end
