(* ===== verification/Itch_Adapter.thy ===== *)
theory Itch_Adapter
  imports Translator Wire_Format
begin

text \<open>
  \<^verbatim>\<open>hft::ItchAdapter\<close>, from a MoldUDP64 message to engine messages, and the packet builders of
  the tools and benches. The handler \<^verbatim>\<open>on_md\<close> is the list of the calls an operation makes to it,
  each with its receive time.
\<close>

section \<open>The adapter\<close>

record itch_adapter =
  ia_tr :: translator
  ia_parse_errors :: u64

definition adapter_init :: "symbol_id \<Rightarrow> itch_adapter" where
  "adapter_init s = \<lparr>ia_tr = translator_init s, ia_parse_errors = 0\<rparr>"

definition itch_price_to_engine :: "u32 \<Rightarrow> price" where
  "itch_price_to_engine px = int (unat px) * 100"

text \<open>The event a message body decodes to: not a book message, malformed, or an event.\<close>

datatype decoded = NotBook | Malformed | Decoded itch_event

definition decode_event :: "u8 list \<Rightarrow> decoded" where
  "decode_event b =
    (if b ! 0 = ch_A \<or> b ! 0 = ch_F then (case parse_add_order b of None \<Rightarrow> Malformed
       | Some m \<Rightarrow> Decoded (EvAdd (ao_order_ref m) (ao_side m) (ao_price m) (ao_shares m)))
     else if b ! 0 = ch_E \<or> b ! 0 = ch_C then (case parse_order_executed b of None \<Rightarrow> Malformed
       | Some m \<Rightarrow> Decoded (EvReduce (oe_order_ref m) (oe_shares m) True))
     else if b ! 0 = ch_X then (case parse_order_cancel b of None \<Rightarrow> Malformed
       | Some m \<Rightarrow> Decoded (EvReduce (oc_order_ref m) (oc_canceled_shares m) False))
     else if b ! 0 = ch_D then (case parse_order_delete b of None \<Rightarrow> Malformed
       | Some m \<Rightarrow> Decoded (EvDelete (od_order_ref m)))
     else if b ! 0 = ch_U then (case parse_order_replace b of None \<Rightarrow> Malformed
       | Some m \<Rightarrow> Decoded (EvReplace (orp_orig_ref m) (orp_new_ref m) (orp_shares m) (orp_price m)))
     else NotBook)"

definition on_mold_message :: "itch_adapter \<Rightarrow> mold_message \<Rightarrow> (md_msg \<times> u64) list \<times> itch_adapter" where
  "on_mold_message ia msg =
    (if mm_length msg = 0 then ([], ia)
     else case decode_event (take (mm_length msg) (mm_body msg)) of
       NotBook \<Rightarrow> ([], ia)
     | Malformed \<Rightarrow> ([], ia\<lparr>ia_parse_errors := ia_parse_errors ia + 1\<rparr>)
     | Decoded ev \<Rightarrow> (let (ms, tr) = tr_apply (ia_tr ia) ev
         in (map (\<lambda>m. (m\<lparr>md_seq := mm_seq_num msg\<rparr>, mm_recv_ns msg)) ms, ia\<lparr>ia_tr := tr\<rparr>)))"

fun on_mold_messages :: "itch_adapter \<Rightarrow> mold_message list \<Rightarrow> (md_msg \<times> u64) list \<times> itch_adapter" where
  "on_mold_messages ia [] = ([], ia)"
| "on_mold_messages ia (msg # msgs) =
    (let (out, ia1) = on_mold_message ia msg; (outs, ia2) = on_mold_messages ia1 msgs in (out @ outs, ia2))"

section \<open>Building packets\<close>

definition str_bytes :: "string \<Rightarrow> u8 list" where
  "str_bytes s = map (\<lambda>c. of_nat (of_char c)) s"

definition make_mold_add_packet :: "u64 \<Rightarrow> u64 \<Rightarrow> u8 \<Rightarrow> u32 \<Rightarrow> u32 \<Rightarrow> u8 list" where
  "make_mold_add_packet seq order_ref sd shares itch_price =
    (let itch_len = 36;
         itch0 = replicate itch_len 0;
         itch1 = itch0[0 := ch_A];
         itch2 = put_at 11 (put_be64 order_ref) itch1;
         itch3 = itch2[19 := sd];
         itch4 = put_at 20 (put_be32 shares) itch3;
         itch5 = put_at 24 (take 8 (str_bytes ''TEST     '')) itch4;
         itch = put_at 32 (put_be32 itch_price) itch5;
         pkt0 = replicate (20 + 2 + itch_len) 0;
         pkt1 = put_at 0 (replicate 10 ch_space) pkt0;
         pkt2 = put_at 10 (put_be64 seq) pkt1;
         pkt3 = put_at 18 (put_be16 1) pkt2;
         pkt4 = put_at 20 (put_be16 (of_nat itch_len)) pkt3
     in put_at 22 itch pkt4)"

text \<open>The builders of the NUMA bench.\<close>

definition bench_mold_packet :: "u64 \<Rightarrow> u8 list \<Rightarrow> u8 list" where
  "bench_mold_packet seq body =
    mold_header_serialise \<lparr>mh_session = str_bytes ''GBNUMA    '', mh_seq_num = seq, mh_msg_count = 1\<rparr> @
    put_be16 (of_nat (length body)) @ body"

definition bench_make_add :: "u64 \<Rightarrow> u32 \<Rightarrow> u8 list" where
  "bench_make_add ref px =
    (let b0 = replicate 36 0; b1 = b0[0 := ch_A]; b2 = put_at 11 (put_be64 ref) b1; b3 = b2[19 := ch_B];
         b4 = put_at 20 (put_be32 10) b3; b5 = put_at 24 (str_bytes ''GBNM0001'') b4
     in put_at 32 (put_be32 px) b5)"

section \<open>What the builders build\<close>

lemma put_at_split:
  assumes "length a = off" "length src = n" "length mid = n"
  shows "put_at off src (a @ mid @ rest) = a @ src @ rest"
  using assms by (simp add: put_at_def)

lemma add_body:
  assumes "length stock = 8"
  shows "put_at 32 (put_be32 px) (put_at 24 stock (put_at 20 (put_be32 shares)
      ((put_at 11 (put_be64 ref) ((replicate 36 0)[0 := ch_A]))[19 := sd]))) =
    ch_A # replicate 10 0 @ put_be64 ref @ [sd] @ put_be32 shares @ stock @ put_be32 px"
proof -
  have z: "(replicate 36 (0::u8))[0 := ch_A] = (ch_A # replicate 10 0) @ replicate 8 0 @ replicate 17 0"
    by (simp add: eval_nat_numeral)
  have s1: "put_at 11 (put_be64 ref) ((ch_A # replicate 10 0) @ replicate 8 0 @ replicate 17 0) =
      (ch_A # replicate 10 0) @ put_be64 ref @ replicate 17 0" by (rule put_at_split) simp_all
  have s2: "((ch_A # replicate 10 0) @ put_be64 ref @ replicate 17 0)[19 := sd] =
      ((ch_A # replicate 10 0) @ put_be64 ref @ [sd]) @ replicate 4 0 @ replicate 12 0"
    by (simp add: list_update_append eval_nat_numeral)
  have s3: "put_at 20 (put_be32 shares) (((ch_A # replicate 10 0) @ put_be64 ref @ [sd]) @ replicate 4 0 @ replicate 12 0) =
      ((ch_A # replicate 10 0) @ put_be64 ref @ [sd]) @ put_be32 shares @ replicate 12 0" by (rule put_at_split) simp_all
  have s4: "((ch_A # replicate 10 0) @ put_be64 ref @ [sd]) @ put_be32 shares @ replicate 12 0 =
      ((ch_A # replicate 10 0) @ put_be64 ref @ [sd] @ put_be32 shares) @ replicate 8 0 @ replicate 4 (0::u8)"
    by (simp add: eval_nat_numeral)
  have s5: "put_at 24 stock (((ch_A # replicate 10 0) @ put_be64 ref @ [sd] @ put_be32 shares) @ replicate 8 0 @ replicate 4 0) =
      ((ch_A # replicate 10 0) @ put_be64 ref @ [sd] @ put_be32 shares) @ stock @ replicate 4 0"
    by (rule put_at_split) (simp_all add: assms)
  have s6: "put_at 32 (put_be32 px) (((ch_A # replicate 10 0) @ put_be64 ref @ [sd] @ put_be32 shares @ stock) @ replicate 4 0 @ []) =
      ((ch_A # replicate 10 0) @ put_be64 ref @ [sd] @ put_be32 shares @ stock) @ put_be32 px @ []"
    by (rule put_at_split) (simp_all add: assms)
  show ?thesis unfolding z s1 s2 s3 s4 s5 using s6 by simp
qed

lemma length_test_stock: "length (take 8 (str_bytes ''TEST     '')) = 8" "length (str_bytes ''GBNM0001'') = 8"
  by (simp_all add: str_bytes_def)

definition add_body_bytes :: "u64 \<Rightarrow> u8 \<Rightarrow> u32 \<Rightarrow> u8 list \<Rightarrow> u32 \<Rightarrow> u8 list" where
  "add_body_bytes ref sd shares stock px =
    ch_A # replicate 10 0 @ put_be64 ref @ [sd] @ put_be32 shares @ stock @ put_be32 px"

lemma length_add_body [simp]: "length stock = 8 \<Longrightarrow> length (add_body_bytes ref sd shares stock px) = 36"
  by (simp add: add_body_bytes_def)

lemma make_mold_add_packet_eq:
  "make_mold_add_packet seq ref sd shares px =
    mold_header_serialise \<lparr>mh_session = replicate 10 ch_space, mh_seq_num = seq, mh_msg_count = 1\<rparr> @
    put_be16 36 @ add_body_bytes ref sd shares (take 8 (str_bytes ''TEST     '')) px"
proof -
  let ?b = "add_body_bytes ref sd shares (take 8 (str_bytes ''TEST     '')) px"
  have itch: "put_at 32 (put_be32 px) (put_at 24 (take 8 (str_bytes ''TEST     '')) (put_at 20 (put_be32 shares)
      ((put_at 11 (put_be64 ref) ((replicate 36 0)[0 := ch_A]))[19 := sd]))) = ?b"
    unfolding add_body_bytes_def by (rule add_body [OF length_test_stock(1)])
  have z: "replicate (20 + 2 + 36) (0::u8) = [] @ replicate 10 0 @ replicate 48 0" by (simp add: eval_nat_numeral)
  have p1: "put_at 0 (replicate 10 ch_space) ([] @ replicate 10 0 @ replicate 48 0) = [] @ replicate 10 ch_space @ replicate 48 0"
    by (rule put_at_split) simp_all
  have e1: "[] @ replicate 10 ch_space @ replicate 48 (0::u8) = replicate 10 ch_space @ replicate 8 0 @ replicate 40 0"
    by (simp add: eval_nat_numeral)
  have p2: "put_at 10 (put_be64 seq) (replicate 10 ch_space @ replicate 8 0 @ replicate 40 0) =
      replicate 10 ch_space @ put_be64 seq @ replicate 40 0" by (rule put_at_split) simp_all
  have e2: "replicate 10 ch_space @ put_be64 seq @ replicate 40 (0::u8) =
      (replicate 10 ch_space @ put_be64 seq) @ replicate 2 0 @ replicate 38 0" by (simp add: eval_nat_numeral)
  have p3: "put_at 18 (put_be16 1) ((replicate 10 ch_space @ put_be64 seq) @ replicate 2 0 @ replicate 38 0) =
      (replicate 10 ch_space @ put_be64 seq) @ put_be16 1 @ replicate 38 0" by (rule put_at_split) simp_all
  have e3: "(replicate 10 ch_space @ put_be64 seq) @ put_be16 1 @ replicate 38 (0::u8) =
      (replicate 10 ch_space @ put_be64 seq @ put_be16 1) @ replicate 2 0 @ replicate 36 0" by (simp add: eval_nat_numeral)
  have p4: "put_at 20 (put_be16 36) ((replicate 10 ch_space @ put_be64 seq @ put_be16 1) @ replicate 2 0 @ replicate 36 0) =
      (replicate 10 ch_space @ put_be64 seq @ put_be16 1) @ put_be16 36 @ replicate 36 0" by (rule put_at_split) simp_all
  have p5: "put_at 22 ?b ((replicate 10 ch_space @ put_be64 seq @ put_be16 1 @ put_be16 36) @ replicate 36 0 @ []) =
      (replicate 10 ch_space @ put_be64 seq @ put_be16 1 @ put_be16 36) @ ?b @ []"
    by (rule put_at_split) (simp_all only: length_add_body [OF length_test_stock(1)] length_append length_put length_replicate)
  have n: "(of_nat 36 :: u16) = 36" by simp
  show ?thesis
    unfolding make_mold_add_packet_def Let_def itch n z p1 e1 p2 e2 p3 e3 p4
    using p5 by (simp add: mold_header_serialise_def)
qed

lemma parse_add_body:
  assumes "length stock = 8"
  shows "parse_add_order (add_body_bytes ref sd shares stock px) = Some \<lparr>ao_h = \<lparr>ih_type = ch_A, ih_locate = 0,
      ih_tracking = 0, ih_timestamp_ns = 0\<rparr>, ao_order_ref = ref, ao_side = sd, ao_shares = shares,
      ao_stock = stock @ [0], ao_price = px, ao_has_mpid = False\<rparr>"
proof -
  let ?b = "add_body_bytes ref sd shares stock px"
  have f: "?b ! 0 = ch_A" by (simp add: add_body_bytes_def)
  have z: "?b ! i = 0" if "1 \<le> i" "i < 11" for i
    using that by (cases i) (auto simp: add_body_bytes_def nth_append)
  have h: "parse_header ?b = Some \<lparr>ih_type = ch_A, ih_locate = 0, ih_tracking = 0, ih_timestamp_ns = 0\<rparr>"
    using z by (simp add: parse_header_def assms f be48_def be32_def be16_def)
  have r: "be64 ?b 11 = ref"
    using be64_at [of "ch_A # replicate 10 0" 11 ref "[sd] @ put_be32 shares @ stock @ put_be32 px"]
    by (simp add: add_body_bytes_def)
  have s: "?b ! 19 = sd" by (simp add: add_body_bytes_def nth_append)
  have q: "be32 ?b 20 = shares"
    using be32_at [of "ch_A # replicate 10 0 @ put_be64 ref @ [sd]" 20 shares "stock @ put_be32 px"]
    by (simp add: add_body_bytes_def)
  have p: "be32 ?b 32 = px"
    using be32_at [of "ch_A # replicate 10 0 @ put_be64 ref @ [sd] @ put_be32 shares @ stock" 32 px "[]"] assms
    by (simp add: add_body_bytes_def)
  have st: "copy_stock ?b 24 = stock @ [0]"
    using assms by (simp add: copy_stock_def add_body_bytes_def)
  show ?thesis
    by (simp add: parse_add_order_def assms f h r s q p st kLenAdd_def)
qed

end
