(* ===== verification/Replay_Itch50.thy ===== *)
theory Replay_Itch50
  imports Translator_Correct Pipeline Itch_Adapter Book_Spec "HOL-Library.Signed_Division"
begin

text \<open>
  \<^verbatim>\<open>tools/replay_itch50.cpp\<close>: the arguments, the loop over the framed file, the comparison of
  the engine's book with the reference, and the exit code. The file is the list of its bytes.
  \<^verbatim>\<open>send\<close> retries until the pipeline accepts, so the messages sent are a list in the state;
  printing and the wait for the pipeline are not modelled.
\<close>

section \<open>Arguments\<close>

record replay_args =
  ra_path :: string
  ra_symbol :: string
  ra_log :: string
  ra_max_msgs :: u64
  ra_engine_start_ns :: u64
  ra_assume_capacity :: u64
  ra_no_engine :: bool
  ra_json :: bool

definition replay_args_init :: replay_args where
  "replay_args_init = \<lparr>ra_path = '''', ra_symbol = '''', ra_log = ''itch50_fills.log'', ra_max_msgs = 0,
     ra_engine_start_ns = 0, ra_assume_capacity = 0, ra_no_engine = False, ra_json = False\<rparr>"

text \<open>
  \<open>strtoull\<close> stands for \<^verbatim>\<open>std::strtoull(v, nullptr, 10)\<close>. A missing value or an unknown option
  is \<open>None\<close>.
\<close>

fun parse_args_from :: "(string \<Rightarrow> u64) \<Rightarrow> replay_args \<Rightarrow> string list \<Rightarrow> replay_args option" where
  "parse_args_from strtoull a [] = Some a"
| "parse_args_from strtoull a (s # rest) =
    (if s = ''--symbol'' then
       (case rest of [] \<Rightarrow> None | v # r \<Rightarrow> parse_args_from strtoull (a\<lparr>ra_symbol := v\<rparr>) r)
     else if s = ''--max-msgs'' then
       (case rest of [] \<Rightarrow> None | v # r \<Rightarrow> parse_args_from strtoull (a\<lparr>ra_max_msgs := strtoull v\<rparr>) r)
     else if s = ''--engine-start-ns'' then
       (case rest of [] \<Rightarrow> None | v # r \<Rightarrow> parse_args_from strtoull (a\<lparr>ra_engine_start_ns := strtoull v\<rparr>) r)
     else if s = ''--assume-engine-capacity'' then
       (case rest of [] \<Rightarrow> None | v # r \<Rightarrow> parse_args_from strtoull (a\<lparr>ra_assume_capacity := strtoull v\<rparr>) r)
     else if s = ''--log'' then
       (case rest of [] \<Rightarrow> None | v # r \<Rightarrow> parse_args_from strtoull (a\<lparr>ra_log := v\<rparr>) r)
     else if s = ''--no-engine'' then parse_args_from strtoull (a\<lparr>ra_no_engine := True\<rparr>) rest
     else if s = ''--json'' then parse_args_from strtoull (a\<lparr>ra_json := True\<rparr>) rest
     else if s \<noteq> '''' \<and> hd s = CHR ''-'' \<and> s \<noteq> ''-'' then None
     else parse_args_from strtoull (a\<lparr>ra_path := s\<rparr>) rest)"

text \<open>\<^verbatim>\<open>argv\<close> without the program name.\<close>

definition parse_args :: "(string \<Rightarrow> u64) \<Rightarrow> string list \<Rightarrow> replay_args option" where
  "parse_args strtoull argv =
    (case parse_args_from strtoull replay_args_init argv of
       None \<Rightarrow> None
     | Some a \<Rightarrow> if ra_path a \<noteq> '''' \<and> ra_symbol a \<noteq> '''' then Some a else None)"

section \<open>The loop\<close>

record replay_state =
  rs_ref :: ref_book
  rs_tr :: translator
  rs_target :: "u16 option"
  rs_counts :: "u8 \<Rightarrow> u64"
  rs_sym_counts :: "u8 \<Rightarrow> u64"
  rs_messages_read :: u64
  rs_malformed :: u64
  rs_truncated :: u64
  rs_sent :: "md_msg list"
  rs_crossed_events :: u64
  rs_engine_started :: bool
  rs_peak_resting :: nat
  rs_first_exceeded_at :: u64

definition kReplaySymbol :: symbol_id where "kReplaySymbol = 1"

definition replay_init :: "replay_args \<Rightarrow> replay_state" where
  "replay_init a = \<lparr>rs_ref = ref_book_init, rs_tr = translator_init kReplaySymbol, rs_target = None,
     rs_counts = (\<lambda>_. 0), rs_sym_counts = (\<lambda>_. 0), rs_messages_read = 0, rs_malformed = 0, rs_truncated = 0,
     rs_sent = [], rs_crossed_events = 0, rs_engine_started = (ra_engine_start_ns a = 0), rs_peak_resting = 0,
     rs_first_exceeded_at = 0\<rparr>"

definition replay_capacity :: "replay_args \<Rightarrow> nat" where
  "replay_capacity a = (if ra_assume_capacity a \<noteq> 0 then unat (ra_assume_capacity a) else kMaxOrders)"

definition send_all :: "replay_args \<Rightarrow> md_msg list \<Rightarrow> replay_state \<Rightarrow> replay_state" where
  "send_all a ms st = (if ra_no_engine a then st else st\<lparr>rs_sent := rs_sent st @ ms\<rparr>)"

definition send_snapshot :: "replay_args \<Rightarrow> replay_state \<Rightarrow> replay_state" where
  "send_snapshot a st = (let (ms, tr) = snapshot (rs_tr st)
     in (send_all a ms (st\<lparr>rs_tr := tr\<rparr>))\<lparr>rs_engine_started := True\<rparr>)"

text \<open>A decoded event of the followed symbol.\<close>

definition replay_event :: "replay_args \<Rightarrow> u8 \<Rightarrow> itch_event \<Rightarrow> replay_state \<Rightarrow> replay_state" where
  "replay_event a ty ev st =
    (let (out, tr) = tr_apply (rs_tr st) ev;
         rb = ref_apply (rs_ref st) ev;
         st1 = st\<lparr>rs_ref := rb, rs_tr := tr, rs_sym_counts := (rs_sym_counts st)(ty := rs_sym_counts st ty + 1)\<rparr>;
         st2 = (if rb_crossed rb then st1\<lparr>rs_crossed_events := rs_crossed_events st1 + 1\<rparr> else st1);
         st3 = (if rs_engine_started st2 \<and> \<not> ra_no_engine a then
             st2\<lparr>rs_peak_resting := max (rs_peak_resting st2) (resting_count tr),
                 rs_first_exceeded_at := (if rs_first_exceeded_at st2 = 0 \<and> resting_count tr > replay_capacity a
                   then rs_messages_read st2 else rs_first_exceeded_at st2)\<rparr>
           else st2)
     in if rs_engine_started st3 then send_all a out st3 else st3)"

text \<open>The followed symbol's book message \<open>b\<close>, after the engine was started if its time has come.\<close>

definition replay_book_msg :: "replay_args \<Rightarrow> itch_header \<Rightarrow> u8 list \<Rightarrow> replay_state \<Rightarrow> replay_state" where
  "replay_book_msg a h b st =
    (let st1 = (if \<not> rs_engine_started st \<and> ih_timestamp_ns h \<ge> ra_engine_start_ns a then send_snapshot a st else st)
     in case decode_event b of
          Decoded ev \<Rightarrow> replay_event a (ih_type h) ev st1
        | _ \<Rightarrow> st1\<lparr>rs_malformed := rs_malformed st1 + 1\<rparr>)"

definition is_book_type :: "u8 \<Rightarrow> bool" where
  "is_book_type t \<longleftrightarrow> t = ch_A \<or> t = ch_F \<or> t = ch_E \<or> t = ch_C \<or> t = ch_X \<or> t = ch_D \<or> t = ch_U"

definition replay_msg :: "replay_args \<Rightarrow> u8 list \<Rightarrow> replay_state \<Rightarrow> replay_state" where
  "replay_msg a b st0 =
    (let st = st0\<lparr>rs_messages_read := rs_messages_read st0 + 1,
           rs_counts := (rs_counts st0)(b ! 0 := rs_counts st0 (b ! 0) + 1)\<rparr>
     in case parse_header b of
          None \<Rightarrow> st\<lparr>rs_malformed := rs_malformed st + 1\<rparr>
        | Some h \<Rightarrow>
           (if ih_type h = ch_R then
              (case parse_stock_directory b of
                 None \<Rightarrow> st
               | Some d \<Rightarrow> if trim_symbol (sdir_stock d) = str_bytes (ra_symbol a) then st\<lparr>rs_target := Some (ih_locate h)\<rparr> else st)
            else if rs_target st \<noteq> Some (ih_locate h) then st
            else if \<not> is_book_type (ih_type h) then st
            else replay_book_msg a h b st))"

function replay_loop :: "replay_args \<Rightarrow> replay_state \<Rightarrow> u8 list \<Rightarrow> replay_state" where
  "replay_loop a st inp =
    (if ra_max_msgs a \<noteq> 0 \<and> rs_messages_read st \<ge> ra_max_msgs a then st
     else if inp = [] then st
     else if length inp < 2 then st\<lparr>rs_truncated := rs_truncated st + 1\<rparr>
     else (let len = unat (be16 inp 0); rest = drop 2 inp
           in if len = 0 then replay_loop a (st\<lparr>rs_malformed := rs_malformed st + 1\<rparr>) rest
              else if length rest < len then st\<lparr>rs_truncated := rs_truncated st + 1\<rparr>
              else replay_loop a (replay_msg a (take len rest) st) (drop len rest)))"
  by pat_completeness auto
termination
  by (relation "measure (\<lambda>(a, st, inp). length inp)") auto

declare replay_loop.simps [simp del]

definition replay_finish :: "replay_args \<Rightarrow> replay_state \<Rightarrow> replay_state" where
  "replay_finish a st = (if rs_target st \<noteq> None \<and> \<not> rs_engine_started st then send_snapshot a st else st)"

definition replay_file :: "replay_args \<Rightarrow> u8 list \<Rightarrow> replay_state" where
  "replay_file a inp = replay_finish a (replay_loop a (replay_init a) inp)"

section \<open>The comparison\<close>

text \<open>\<^verbatim>\<open>px\<close>: an engine price in ITCH units, 0 for none (C++ division truncates; quoted prices are not negative).\<close>

definition itch_px :: "price \<Rightarrow> u64" where
  "itch_px p = (if p = PRICE_INVALID then 0 else of_int (p sdiv 100))"

definition level_differs :: "price_level \<Rightarrow> u32 \<times> u64 \<times> u32 \<Rightarrow> bool" where
  "level_differs e r \<longleftrightarrow> pl_price e sdiv 100 \<noteq> int (unat (fst r)) \<or> ucast (pl_total_qty e) \<noteq> fst (snd r) \<or>
    pl_order_count e \<noteq> snd (snd r)"

definition depth_mismatches :: "price_level list \<Rightarrow> (u32 \<times> u64 \<times> u32) list \<Rightarrow> nat" where
  "depth_mismatches e r = length (filter (\<lambda>i. length e \<le> i \<or> length r \<le> i \<or> level_differs (e ! i) (r ! i))
     [0..<max (length e) (length r)])"

definition quotes_agree :: "best_quote_rec \<Rightarrow> bbo \<Rightarrow> bool" where
  "quotes_agree q rb \<longleftrightarrow> itch_px (bq_bid_price q) = ucast (bb_bid_px rb) \<and> ucast (bq_bid_qty q) = bb_bid_qty rb \<and>
    itch_px (bq_ask_price q) = ucast (bb_ask_px rb) \<and> ucast (bq_ask_qty q) = bb_ask_qty rb"

text \<open>\<open>bk\<close> is \<^verbatim>\<open>book_for\<close> after the engine was joined, \<open>processed\<close> is \<^verbatim>\<open>res.engine_messages\<close>.\<close>

definition replay_agree :: "replay_args \<Rightarrow> replay_state \<Rightarrow> order_book option \<Rightarrow> u64 \<Rightarrow> bool" where
  "replay_agree a st bk processed =
    (let cap_exceeded = (rs_first_exceeded_at st \<noteq> 0); rb = rs_ref st in
     if ra_no_engine a then True
     else case bk of
       None \<Rightarrow> True
     | Some b \<Rightarrow> \<not> cap_exceeded \<and>
         depth_mismatches (bid_depth b kMaxLevels) (rb_depth rb ch_B) +
         depth_mismatches (ask_depth b kMaxLevels) (rb_depth rb ch_S) = 0 \<and>
         quotes_agree (best_quote b) (rb_bbo rb) \<and> processed = of_nat (length (rs_sent st)))"

definition replay_exit :: "replay_args \<Rightarrow> replay_state \<Rightarrow> order_book option \<Rightarrow> u64 \<Rightarrow> int" where
  "replay_exit a st bk processed =
    (if rs_target st = None then 3
     else if rs_first_exceeded_at st \<noteq> 0 then 4
     else if replay_agree a st bk processed then 0 else 1)"

section \<open>The events a replay applies\<close>

definition msg_event :: "replay_state \<Rightarrow> u8 list \<Rightarrow> itch_event option" where
  "msg_event st b = (case parse_header b of
     None \<Rightarrow> None
   | Some h \<Rightarrow> if ih_type h = ch_R \<or> rs_target st \<noteq> Some (ih_locate h) \<or> \<not> is_book_type (ih_type h) then None
       else (case decode_event b of Decoded ev \<Rightarrow> Some ev | _ \<Rightarrow> None))"

text \<open>The events of the whole loop, in order: the loop again, collecting.\<close>

function replay_events :: "replay_args \<Rightarrow> replay_state \<Rightarrow> u8 list \<Rightarrow> itch_event list" where
  "replay_events a st inp =
    (if ra_max_msgs a \<noteq> 0 \<and> rs_messages_read st \<ge> ra_max_msgs a then []
     else if inp = [] then []
     else if length inp < 2 then []
     else (let len = unat (be16 inp 0); rest = drop 2 inp
           in if len = 0 then replay_events a (st\<lparr>rs_malformed := rs_malformed st + 1\<rparr>) rest
              else if length rest < len then []
              else (case msg_event st (take len rest) of None \<Rightarrow> [] | Some ev \<Rightarrow> [ev]) @
                replay_events a (replay_msg a (take len rest) st) (drop len rest)))"
  by pat_completeness auto
termination
  by (relation "measure (\<lambda>(a, st, inp). length inp)") auto

declare replay_events.simps [simp del]

fun evs_ok :: "ref_book \<Rightarrow> itch_event list \<Rightarrow> bool" where
  "evs_ok rb [] \<longleftrightarrow> True"
| "evs_ok rb (ev # evs) \<longleftrightarrow> ev_ok (rb_orders rb) ev \<and> book_fits (ref_apply rb ev) \<and> evs_ok (ref_apply rb ev) evs"

lemma evs_ok_append: "evs_ok rb (xs @ ys) \<longleftrightarrow> evs_ok rb xs \<and> evs_ok (fold (\<lambda>ev rb. ref_apply rb ev) xs rb) ys"
  by (induction xs arbitrary: rb) auto

text \<open>What a state must satisfy while the engine runs along.\<close>

definition replay_sync :: "replay_state \<Rightarrow> bool" where
  "replay_sync st \<longleftrightarrow> rs_engine_started st \<and> rs_first_exceeded_at st = 0 \<and> tr_sym (rs_tr st) = kReplaySymbol \<and>
    book_fits (rs_ref st) \<and> (\<exists>AB. adispatch_all (start_abooks kReplaySymbol) (rs_sent st) = (AB, []) \<and>
      msgs_fresh (start_abooks kReplaySymbol) (rs_sent st) \<and> in_sync (rs_ref st) (rs_tr st) AB)"

lemma replay_sync_cong:
  assumes "replay_sync st" "rs_engine_started st' = rs_engine_started st" "rs_first_exceeded_at st' = rs_first_exceeded_at st"
    "rs_tr st' = rs_tr st" "rs_ref st' = rs_ref st" "rs_sent st' = rs_sent st"
  shows "replay_sync st'"
  using assms by (simp add: replay_sync_def)

lemma book_fits_empty: "book_fits ref_book_init"
  by (simp add: book_fits_def rb_crossed_def ref_book_init_def)

lemma replay_sync_init:
  assumes "ra_engine_start_ns a = 0"
  shows "replay_sync (replay_init a)"
proof -
  have "in_sync ref_book_init (translator_init kReplaySymbol) (start_abooks kReplaySymbol)"
  proof -
    have "mirrors abook_init (rb_orders ref_book_init)" using mirrors_init by (simp add: ref_book_init_def)
    moreover have "on_book (start_abooks kReplaySymbol) kReplaySymbol abook_init"
      by (simp add: on_book_def start_abooks_def kReplaySymbol_def kMaxSymbols_def)
    moreover have "tr_orders (translator_init kReplaySymbol) = rb_orders ref_book_init"
      "map_of (rb_orders ref_book_init) 0 = None" "tr_sym (translator_init kReplaySymbol) = kReplaySymbol"
      by (simp_all add: translator_init_def ref_book_init_def)
    ultimately show ?thesis unfolding in_sync_def using rb_inv_init by auto
  qed
  then show ?thesis
    using assms book_fits_empty by (simp add: replay_sync_def replay_init_def) (simp add: translator_init_def)
qed

lemma replay_event_sync:
  assumes sync: "replay_sync st" and ok: "ev_ok (rb_orders (rs_ref st)) ev" and fits: "book_fits (ref_apply (rs_ref st) ev)"
    and a: "\<not> ra_no_engine a" "ra_assume_capacity a = 0"
  shows "replay_sync (replay_event a ty ev st)" "rs_ref (replay_event a ty ev st) = ref_apply (rs_ref st) ev"
    "rs_target (replay_event a ty ev st) = rs_target st" "rs_messages_read (replay_event a ty ev st) = rs_messages_read st"
proof -
  obtain out tr where ap: "tr_apply (rs_tr st) ev = (out, tr)" by force
  let ?st = "replay_event a ty ev st"
  from sync obtain AB where S: "rs_engine_started st" "rs_first_exceeded_at st = 0" "tr_sym (rs_tr st) = kReplaySymbol"
    "adispatch_all (start_abooks kReplaySymbol) (rs_sent st) = (AB, [])"
    "msgs_fresh (start_abooks kReplaySymbol) (rs_sent st)" "in_sync (rs_ref st) (rs_tr st) AB" by (auto simp: replay_sync_def)
  from event_in_sync [OF S(6) ok fits ap] obtain AB' where E: "adispatch_all AB out = (AB', [])" "msgs_fresh AB out"
    "in_sync (ref_apply (rs_ref st) ev) tr AB'" "tr_sym tr = tr_sym (rs_tr st)" by blast
  have "length (tr_orders tr) = length (rb_orders (ref_apply (rs_ref st) ev))" using E(3) by (simp add: in_sync_def)
  then have cap: "\<not> resting_count tr > replay_capacity a"
    using fits a(2) by (simp add: resting_count_def replay_capacity_def book_fits_def)
  have f: "rs_ref ?st = ref_apply (rs_ref st) ev" "rs_tr ?st = tr" "rs_sent ?st = rs_sent st @ out" "rs_engine_started ?st"
    "rs_first_exceeded_at ?st = 0" "rs_target ?st = rs_target st" "rs_messages_read ?st = rs_messages_read st"
    using S(1,2) a(1) cap by (simp_all add: replay_event_def ap Let_def send_all_def)
  have "adispatch_all (start_abooks kReplaySymbol) (rs_sent st @ out) = (AB', [])"
    by (simp add: adispatch_all_append S(4) E(1))
  moreover have "msgs_fresh (start_abooks kReplaySymbol) (rs_sent st @ out)" by (simp add: msgs_fresh_append S(4,5) E(2))
  ultimately show "replay_sync ?st" unfolding replay_sync_def f using E(3,4) S(3) fits f(4) by auto
  show "rs_ref ?st = ref_apply (rs_ref st) ev" "rs_target ?st = rs_target st" "rs_messages_read ?st = rs_messages_read st"
    by (rule f)+
qed

text \<open>A message changes the books by its event, or not at all.\<close>

lemma replay_msg_sync:
  assumes sync: "replay_sync st" and a: "\<not> ra_no_engine a" "ra_assume_capacity a = 0"
    and ok: "\<forall>ev. msg_event st b = Some ev \<longrightarrow> ev_ok (rb_orders (rs_ref st)) ev \<and> book_fits (ref_apply (rs_ref st) ev)"
  shows "replay_sync (replay_msg a b st) \<and>
    rs_ref (replay_msg a b st) = (case msg_event st b of None \<Rightarrow> rs_ref st | Some ev \<Rightarrow> ref_apply (rs_ref st) ev)"
proof -
  let ?st = "st\<lparr>rs_messages_read := rs_messages_read st + 1, rs_counts := (rs_counts st)(b ! 0 := rs_counts st (b ! 0) + 1)\<rparr>"
  have s: "replay_sync ?st" by (rule replay_sync_cong [OF sync]) simp_all
  have started: "rs_engine_started st" using sync by (simp add: replay_sync_def)
  have eq: "replay_msg a b st = (case parse_header b of None \<Rightarrow> ?st\<lparr>rs_malformed := rs_malformed ?st + 1\<rparr>
    | Some h \<Rightarrow> (if ih_type h = ch_R then (case parse_stock_directory b of None \<Rightarrow> ?st
               | Some d \<Rightarrow> if trim_symbol (sdir_stock d) = str_bytes (ra_symbol a) then ?st\<lparr>rs_target := Some (ih_locate h)\<rparr> else ?st)
            else if rs_target ?st \<noteq> Some (ih_locate h) then ?st
            else if \<not> is_book_type (ih_type h) then ?st
            else replay_book_msg a h b ?st))"
    unfolding replay_msg_def Let_def by (rule refl)
  have malformed: "replay_sync (?st\<lparr>rs_malformed := n\<rparr>)" for n by (rule replay_sync_cong [OF s]) simp_all
  show ?thesis
  proof (cases "parse_header b")
    case None
    then show ?thesis using malformed by (simp add: eq msg_event_def)
  next
    case (Some h)
    show ?thesis
    proof (cases "ih_type h = ch_R \<or> rs_target st \<noteq> Some (ih_locate h) \<or> \<not> is_book_type (ih_type h)")
      case True
      have "replay_sync (?st\<lparr>rs_target := t\<rparr>)" for t by (rule replay_sync_cong [OF s]) simp_all
      then show ?thesis using True s Some by (auto simp: eq msg_event_def split: option.splits)
    next
      case False
      then have m: "replay_msg a b st = replay_book_msg a h b ?st" by (simp add: eq Some)
      have bm: "replay_book_msg a h b ?st = (case decode_event b of Decoded ev \<Rightarrow> replay_event a (ih_type h) ev ?st
          | _ \<Rightarrow> ?st\<lparr>rs_malformed := rs_malformed ?st + 1\<rparr>)"
        using started by (simp add: replay_book_msg_def Let_def)
      show ?thesis
      proof (cases "decode_event b")
        case (Decoded ev)
        then have ev: "msg_event st b = Some ev" using False Some by (simp add: msg_event_def)
        with ok have o: "ev_ok (rb_orders (rs_ref ?st)) ev" "book_fits (ref_apply (rs_ref ?st) ev)" by simp_all
        show ?thesis using replay_event_sync(1,2) [OF s o a, of "ih_type h"] by (simp add: m bm Decoded ev)
      qed (use False Some malformed in \<open>simp_all add: m bm msg_event_def\<close>)
    qed
  qed
qed

lemma replay_loop_sync:
  assumes a: "\<not> ra_no_engine a" "ra_assume_capacity a = 0"
  shows "replay_sync st \<Longrightarrow> evs_ok (rs_ref st) (replay_events a st inp) \<Longrightarrow>
    replay_sync (replay_loop a st inp) \<and>
    rs_ref (replay_loop a st inp) = fold (\<lambda>ev rb. ref_apply rb ev) (replay_events a st inp) (rs_ref st)"
  using a
proof (induction a st inp rule: replay_loop.induct)
  case (1 a st inp)
  let ?len = "unat (be16 inp 0)" let ?rest = "drop 2 inp"
  consider (stop) "ra_max_msgs a \<noteq> 0 \<and> rs_messages_read st \<ge> ra_max_msgs a \<or> inp = [] "
    | (short) "\<not> (ra_max_msgs a \<noteq> 0 \<and> rs_messages_read st \<ge> ra_max_msgs a)" "inp \<noteq> []"
        "length inp < 2 \<or> \<not> length inp < 2 \<and> ?len \<noteq> 0 \<and> length ?rest < ?len"
    | (zero) "\<not> (ra_max_msgs a \<noteq> 0 \<and> rs_messages_read st \<ge> ra_max_msgs a)" "inp \<noteq> []" "\<not> length inp < 2" "?len = 0"
    | (msg) "\<not> (ra_max_msgs a \<noteq> 0 \<and> rs_messages_read st \<ge> ra_max_msgs a)" "inp \<noteq> []" "\<not> length inp < 2" "?len \<noteq> 0" "\<not> length ?rest < ?len"
    by blast
  then show ?case
  proof cases
    case stop
    have "replay_loop a st inp = st" by (subst replay_loop.simps) (use stop in auto)
    moreover have "replay_events a st inp = []" by (subst replay_events.simps) (use stop in auto)
    ultimately show ?thesis using "1.prems" by simp
  next
    case short
    let ?st = "st\<lparr>rs_truncated := rs_truncated st + 1\<rparr>"
    have "replay_loop a st inp = ?st" by (subst replay_loop.simps) (use short in \<open>auto simp: Let_def\<close>)
    moreover have "replay_events a st inp = []" by (subst replay_events.simps) (use short in \<open>auto simp: Let_def\<close>)
    moreover have "replay_sync ?st" by (rule replay_sync_cong [OF "1.prems"(1)]) simp_all
    ultimately show ?thesis by simp
  next
    case zero
    let ?st = "st\<lparr>rs_malformed := rs_malformed st + 1\<rparr>"
    have l1: "replay_loop a st inp = replay_loop a ?st ?rest" by (subst replay_loop.simps) (use zero in auto)
    have l2: "replay_events a st inp = replay_events a ?st ?rest" by (subst replay_events.simps) (use zero in auto)
    have "replay_sync ?st" by (rule replay_sync_cong [OF "1.prems"(1)]) simp_all
    from "1.IH"(1) [OF zero(1,2,3) refl refl zero(4) this] "1.prems"(2-4) show ?thesis unfolding l1 l2 by simp
  next
    case msg
    let ?b = "take ?len ?rest"
    let ?evs = "replay_events a (replay_msg a ?b st) (drop ?len ?rest)"
    have l1: "replay_loop a st inp = replay_loop a (replay_msg a ?b st) (drop ?len ?rest)"
      by (subst replay_loop.simps) (use msg in \<open>auto simp: Let_def\<close>)
    have l2: "replay_events a st inp = (case msg_event st ?b of None \<Rightarrow> [] | Some ev \<Rightarrow> [ev]) @ ?evs"
      by (subst replay_events.simps) (use msg in \<open>auto simp: Let_def\<close>)
    have ok: "\<forall>ev. msg_event st ?b = Some ev \<longrightarrow> ev_ok (rb_orders (rs_ref st)) ev \<and> book_fits (ref_apply (rs_ref st) ev)"
      using "1.prems"(2) unfolding l2 by auto
    note M = replay_msg_sync [OF "1.prems"(1,3,4) ok]
    have "evs_ok (rs_ref (replay_msg a ?b st)) ?evs"
      using "1.prems"(2) M unfolding l2 by (cases "msg_event st ?b") auto
    from "1.IH"(2) [OF msg(1,2,3) refl refl msg(4,5) _ this "1.prems"(3,4)] M show ?thesis
      unfolding l1 l2 by (cases "msg_event st ?b") auto
  qed
qed

lemma replay_file_sync:
  assumes "\<not> ra_no_engine a" "ra_assume_capacity a = 0" "ra_engine_start_ns a = 0"
    "evs_ok ref_book_init (replay_events a (replay_init a) inp)"
  shows "replay_sync (replay_file a inp)"
    "rs_ref (replay_file a inp) = fold (\<lambda>ev rb. ref_apply rb ev) (replay_events a (replay_init a) inp) ref_book_init"
proof -
  have r: "rs_ref (replay_init a) = ref_book_init" by (simp add: replay_init_def)
  have L: "replay_sync (replay_loop a (replay_init a) inp)"
    "rs_ref (replay_loop a (replay_init a) inp) = fold (\<lambda>ev rb. ref_apply rb ev) (replay_events a (replay_init a) inp) ref_book_init"
    using replay_loop_sync [OF assms(1,2) replay_sync_init [OF assms(3)], of inp] assms(4) by (simp_all add: r)
  have "replay_file a inp = replay_loop a (replay_init a) inp"
    using L(1) by (simp add: replay_file_def replay_finish_def replay_sync_def)
  with L show "replay_sync (replay_file a inp)"
    "rs_ref (replay_file a inp) = fold (\<lambda>ev rb. ref_apply rb ev) (replay_events a (replay_init a) inp) ref_book_init" by simp_all
qed

section \<open>The engine's book agrees with the reference\<close>

text \<open>Every level's total fits the engine's 32-bit quantity.\<close>

definition levels_fit :: "ref_book \<Rightarrow> bool" where
  "levels_fit rb \<longleftrightarrow> (\<forall>(px, l)\<in>set (rb_bids rb @ rb_asks rb). unat (rl_qty l) < 2 ^ 32)"

lemma engine_price_sdiv: "engine_price px sdiv 100 = int (unat px)"
  by (cases "px = 0") (simp_all add: engine_price_def signed_divide_int_def sgn_mult)

lemma itch_px_engine_price: "itch_px (engine_price px) = ucast px"
proof -
  have "engine_price px \<ge> 0" by (simp add: engine_price_def)
  then have "engine_price px \<noteq> PRICE_INVALID" by (auto simp: PRICE_INVALID_def)
  then show ?thesis by (simp add: itch_px_def engine_price_sdiv)
qed

lemma ucast_small: "unat (w :: u64) < 2 ^ 32 \<Longrightarrow> ucast (ucast w :: u32) = w"
  by (rule word_unat_eq_iff [THEN iffD2]) (simp add: unsigned_ucast_eq take_bit_nat_eq_self unsigned_take_bit_eq)

lemma best_first_fits:
  assumes "levels_fit rb" "(px, l) \<in> set (best_first rb d)"
  shows "unat (rl_qty l) < 2 ^ 32"
  using assms by (cases d) (auto simp: levels_fit_def best_first_def)

lemma book_level_list:
  assumes R: "refines b A" and m: "mirrors A (rb_orders rb)" and inv: "rb_inv rb" and fits: "book_fits rb"
  shows "map (\<lambda>l. (pl_price l, pl_total_qty l, pl_order_count l)) (side_depth (ob_side b d) kMaxLevels) =
    map (\<lambda>(px, l). (engine_price px, ucast (rl_qty l), rl_orders l)) (best_first rb d)"
proof -
  note L = mirrors_levels [OF m inv, of d]
  have "length (A d) = length (best_first rb d)" using arg_cong [OF L, of length] by simp
  also have "\<dots> \<le> kMaxLevels" using book_fits_levels [OF fits, of d] by (cases d) (simp_all add: best_first_def rb_map_def)
  finally have "take kMaxLevels (A d) = A d" by simp
  with side_depth_refines [OF R, of d kMaxLevels] L show ?thesis by simp
qed

lemma depth_agrees:
  assumes R: "refines b A" and m: "mirrors A (rb_orders rb)" and inv: "rb_inv rb" and fits: "book_fits rb" and lf: "levels_fit rb"
    and s: "(s = ch_B) = d"
  shows "depth_mismatches (side_depth (ob_side b d) kMaxLevels) (rb_depth rb s) = 0"
proof -
  let ?E = "side_depth (ob_side b d) kMaxLevels" let ?M = "best_first rb d"
  note L = book_level_list [OF R m inv fits, of d]
  have len: "length ?E = length ?M" using arg_cong [OF L, of length] by simp
  have "\<not> level_differs (?E ! i) (rb_depth rb s ! i)" if i: "i < length ?M" for i
  proof -
    obtain px l where e: "?M ! i = (px, l)" by force
    have "(pl_price (?E ! i), pl_total_qty (?E ! i), pl_order_count (?E ! i)) = (engine_price px, ucast (rl_qty l), rl_orders l)"
      using arg_cong [OF L, of "\<lambda>xs. xs ! i"] i len e by simp
    moreover have "unat (rl_qty l) < 2 ^ 32" using best_first_fits [OF lf] e i by (metis nth_mem)
    ultimately show ?thesis using i e s
      by (simp add: level_differs_def rb_depth_best_first engine_price_sdiv ucast_small)
  qed
  then show ?thesis using len s by (auto simp: depth_mismatches_def rb_depth_best_first filter_empty_conv)
qed

lemma quotes_agreeI:
  assumes R: "refines b A" and m: "mirrors A (rb_orders rb)" and inv: "rb_inv rb" and lf: "levels_fit rb"
  shows "quotes_agree (best_quote b) (rb_bbo rb)"
proof -
  have side: "itch_px (case A d of [] \<Rightarrow> PRICE_INVALID | (p, R) # L \<Rightarrow> p) = ucast (case best_first rb d of [] \<Rightarrow> 0 | (px, l) # M \<Rightarrow> px) \<and>
    ucast (case A d of [] \<Rightarrow> 0 | (p, R) # L \<Rightarrow> level_qty R) = (case best_first rb d of [] \<Rightarrow> 0 | (px, l) # M \<Rightarrow> rl_qty l)" for d
  proof (cases "best_first rb d")
    case Nil
    then have "A d = []" using mirrors_levels [OF m inv, of d] by simp
    then show ?thesis using Nil by (simp add: itch_px_def)
  next
    case (Cons e M)
    obtain px l where e: "e = (px, l)" by force
    obtain p Q L where a: "A d = (p, Q) # L" "p = engine_price px" "level_qty Q = ucast (rl_qty l)"
      using mirrors_levels [OF m inv, of d] Cons e by (cases "A d") auto
    have "unat (rl_qty l) < 2 ^ 32" using best_first_fits [OF lf, of px l d] Cons e by simp
    then show ?thesis by (simp add: Cons e a itch_px_engine_price ucast_small)
  qed
  have bid: "(case best_first rb True of [] \<Rightarrow> 0 | (px, l) # M \<Rightarrow> px) = bb_bid_px (rb_bbo rb)"
    "(case best_first rb True of [] \<Rightarrow> 0 | (px, l) # M \<Rightarrow> rl_qty l) = bb_bid_qty (rb_bbo rb)"
    by (cases "rb_bids rb" rule: rev_cases; auto simp: best_first_def rb_bbo_def split: prod.splits)+
  have ask: "(case best_first rb False of [] \<Rightarrow> 0 | (px, l) # M \<Rightarrow> px) = bb_ask_px (rb_bbo rb)"
    "(case best_first rb False of [] \<Rightarrow> 0 | (px, l) # M \<Rightarrow> rl_qty l) = bb_ask_qty (rb_bbo rb)"
    by (cases "rb_asks rb"; auto simp: best_first_def rb_bbo_def split: prod.splits)+
  show ?thesis unfolding quotes_agree_def best_quote_refines [OF R] aquote_def
    using side [of True, unfolded bid] side [of False, unfolded ask] by simp
qed

text \<open>The book that the engine reaches on the messages a synchronised replay sent.\<close>

lemma replay_sync_book:
  assumes sync: "replay_sync st" and lf: "levels_fit (rs_ref st)"
    and d: "dispatch_all (start_books kReplaySymbol) (rs_sent st) = Some (B, rs)"
  shows "rs = []" "\<exists>b. fst B (unat kReplaySymbol) = Some b \<and>
    depth_mismatches (bid_depth b kMaxLevels) (rb_depth (rs_ref st) ch_B) = 0 \<and>
    depth_mismatches (ask_depth b kMaxLevels) (rb_depth (rs_ref st) ch_S) = 0 \<and>
    quotes_agree (best_quote b) (rb_bbo (rs_ref st))"
proof -
  let ?rb = "rs_ref st"
  from sync obtain AB where S: "tr_sym (rs_tr st) = kReplaySymbol" "book_fits ?rb"
    "adispatch_all (start_abooks kReplaySymbol) (rs_sent st) = (AB, [])"
    "msgs_fresh (start_abooks kReplaySymbol) (rs_sent st)" "in_sync ?rb (rs_tr st) AB" by (auto simp: replay_sync_def)
  from dispatch_all_refines [OF start_books_good S(4)] d S(3) have g: "rs = []" "books_good B AB" by auto
  then show "rs = []" by simp
  from S(1,5) obtain A where inv: "rb_inv ?rb" and A: "fst AB (unat kReplaySymbol) = Some A" "mirrors A (rb_orders ?rb)"
    by (auto simp: in_sync_def on_book_def)
  obtain b where b: "fst B (unat kReplaySymbol) = Some b"
    using books_goodD(2) [OF g(2), of kReplaySymbol] A(1) by auto
  then have R: "refines b A" using books_goodD(3) [OF g(2) b A(1)] by (simp add: good_book_def)
  note D = depth_agrees [OF R A(2) inv S(2) lf]
  have "depth_mismatches (bid_depth b kMaxLevels) (rb_depth ?rb ch_B) = 0" using D [of ch_B True] by (simp add: bid_depth_def ob_side_def)
  moreover have "depth_mismatches (ask_depth b kMaxLevels) (rb_depth ?rb ch_S) = 0"
    using D [of ch_S False] by (simp add: ask_depth_def ob_side_def)
  ultimately show "\<exists>b. fst B (unat kReplaySymbol) = Some b \<and>
    depth_mismatches (bid_depth b kMaxLevels) (rb_depth ?rb ch_B) = 0 \<and>
    depth_mismatches (ask_depth b kMaxLevels) (rb_depth ?rb ch_S) = 0 \<and> quotes_agree (best_quote b) (rb_bbo ?rb)"
    using b quotes_agreeI [OF R A(2) inv lf] by blast
qed

text \<open>
  A pipeline run that accepted exactly the messages sent and counted all of them: the replay waits
  for that count before it stops the pipeline.
\<close>

lemma replay_run_agrees:
  assumes sync: "replay_sync st" and lf: "levels_fit (rs_ref st)" and fd: "fd \<ge> 0"
    and run: "pipe_run (started kReplaySymbol fd) as = Some p" and acc: "run_accepts (started kReplaySymbol fd) as = rs_sent st"
    and stat: "en_stat_messages (pp_engine p) = of_nat (length (rs_sent st))" and few: "length (rs_sent st) < 2 ^ 64"
  shows "replay_agree a st (book_for (pp_engine p) kReplaySymbol) (en_stat_messages (pp_engine p)) \<and>
    run_fills (started kReplaySymbol fd) as = []"
proof -
  have k: "unat kReplaySymbol < kMaxSymbols" by (simp add: kReplaySymbol_def kMaxSymbols_def)
  from run_pipe_inv [OF started_inv(1) [OF fd k] run] obtain dn rs n where
    I: "rings_inv (start_books kReplaySymbol) (pp_engine p) (rs_sent st) dn rs (map fst (run_fills (started kReplaySymbol fd) as))"
      "n \<le> length dn" "en_stat_messages (pp_engine p) = of_nat n" by (auto simp: pipe_inv_def acc msgs_inv_def)
  have split: "rs_sent st = dn @ inq (pp_engine p)" using I(1) by (simp add: rings_inv_def)
  then have len: "length (rs_sent st) = length dn + length (inq (pp_engine p))" by simp
  have "n = length (rs_sent st)"
  proof -
    have "n < 2 ^ LENGTH(64)" "length (rs_sent st) < 2 ^ LENGTH(64)" using I(2) len few by simp_all
    moreover have "(of_nat n :: u64) = of_nat (length (rs_sent st))" using I(3) stat by simp
    ultimately show ?thesis by (metis of_nat_inverse)
  qed
  then have "length dn = length (rs_sent st)" using I(2) len by linarith
  then have dn: "dn = rs_sent st" using split by (metis append_eq_conv_conj take_all_iff le_refl)
  then have d: "dispatch_all (start_books kReplaySymbol) (rs_sent st) = Some (books_of (pp_engine p), rs)"
    using I(1) by (simp add: rings_inv_def)
  note B = replay_sync_book [OF sync lf d]
  have "run_fills (started kReplaySymbol fd) as = []" using I(1) B(1) by (simp add: rings_inv_def)
  moreover have "book_for (pp_engine p) kReplaySymbol = fst (books_of (pp_engine p)) (unat kReplaySymbol)"
    using k by (simp add: book_for_def books_of_def)
  moreover have "rs_first_exceeded_at st = 0" using sync by (simp add: replay_sync_def)
  ultimately show ?thesis using B(2) stat by (auto simp: replay_agree_def Let_def)
qed

section \<open>Framed messages\<close>

text \<open>The file format: every message preceded by its length in two bytes.\<close>

definition frame :: "u8 list \<Rightarrow> u8 list" where
  "frame b = put_be16 (of_nat (length b)) @ b"

definition frames_ok :: "u8 list list \<Rightarrow> bool" where
  "frames_ok bs \<longleftrightarrow> (\<forall>b\<in>set bs. 0 < length b \<and> length b < 2 ^ 16)"

lemma frame_read:
  assumes "0 < length b" "length b < 2 ^ 16"
  shows "unat (be16 (frame b @ rest) 0) = length b" "frame b @ rest \<noteq> []" "\<not> length (frame b @ rest) < 2"
    "drop 2 (frame b @ rest) = b @ rest" "\<not> length (b @ rest) < length b" "drop (length b) (b @ rest) = rest"
    "take (length b) (b @ rest) = b"
proof -
  have "be16 (frame b @ rest) 0 = of_nat (length b)"
    using be16_at [of "[]" 0 "of_nat (length b)" "b @ rest"] by (simp add: frame_def)
  then show "unat (be16 (frame b @ rest) 0) = length b"
    using assms(2) by (simp add: unsigned_of_nat take_bit_nat_eq_self)
qed (use assms in \<open>simp_all add: frame_def\<close>)

lemma replay_loop_frame:
  assumes "ra_max_msgs a = 0" "0 < length b" "length b < 2 ^ 16"
  shows "replay_loop a st (frame b @ rest) = replay_loop a (replay_msg a b st) rest"
  by (subst replay_loop.simps)
    (use frame_read [OF assms(2,3), of rest] assms in \<open>simp add: Let_def del: length_append append_is_Nil_conv drop_append take_append\<close>)

lemma replay_loop_frames:
  "ra_max_msgs a = 0 \<Longrightarrow> frames_ok bs \<Longrightarrow> replay_loop a st (concat (map frame bs)) = fold (replay_msg a) bs st"
proof (induction bs arbitrary: st)
  case Nil
  then show ?case by (simp add: replay_loop.simps)
next
  case (Cons b bs)
  then show ?case using replay_loop_frame [of a b st "concat (map frame bs)"] by (simp add: frames_ok_def)
qed

text \<open>A file cut inside its last message.\<close>

lemma replay_loop_short:
  "ra_max_msgs a = 0 \<Longrightarrow> inp \<noteq> [] \<Longrightarrow> length inp < 2 \<Longrightarrow> replay_loop a st inp = st\<lparr>rs_truncated := rs_truncated st + 1\<rparr>"
  by (subst replay_loop.simps) simp

lemma replay_loop_cut:
  assumes m: "ra_max_msgs a = 0" and bs: "frames_ok bs" and b: "frames_ok [b]" and n: "0 < n" "n < length (frame b)"
  shows "replay_loop a st (concat (map frame bs) @ take n (frame b)) =
    (fold (replay_msg a) bs st)\<lparr>rs_truncated := rs_truncated (fold (replay_msg a) bs st) + 1\<rparr>"
  using bs
proof (induction bs arbitrary: st)
  case Nil
  have l: "length (take n (frame b)) = n" using n by simp
  show ?case
  proof (cases "n < 2")
    case True
    then have "take n (frame b) \<noteq> []" "length (take n (frame b)) < 2" using l n(1) by auto
    from replay_loop_short [OF m this] show ?thesis by simp
  next
    case False
    have t: "take n (frame b) = put_be16 (of_nat (length b)) @ take (n - 2) b" using False by (simp add: frame_def)
    have lb: "0 < length b" "length b < 2 ^ 16" "n - 2 < length b" using b n False by (auto simp: frames_ok_def frame_def)
    have "be16 (put_be16 (of_nat (length b)) @ take (n - 2) b) 0 = of_nat (length b)"
      using be16_at [of "[]" 0 "of_nat (length b)" "take (n - 2) b"] by simp
    then have r: "unat (be16 (put_be16 (of_nat (length b)) @ take (n - 2) b) 0) = length b"
      using lb(2) by (simp add: unsigned_of_nat take_bit_nat_eq_self)
    have ne: "put_be16 (of_nat (length b)) @ take (n - 2) b \<noteq> []" by (simp add: put_be16_def)
    have "replay_loop a st (put_be16 (of_nat (length b)) @ take (n - 2) b) = st\<lparr>rs_truncated := rs_truncated st + 1\<rparr>"
      by (subst replay_loop.simps) (use m lb r ne in \<open>simp add: Let_def\<close>)
    then show ?thesis by (simp only: t concat.simps list.map append_Nil fold_simps(1))
  qed
next
  case (Cons b' bs)
  then have "0 < length b'" "length b' < 2 ^ 16" "frames_ok bs" by (simp_all add: frames_ok_def)
  with Cons.IH [of "replay_msg a b' st"] replay_loop_frame [OF m, of b' st "concat (map frame bs) @ take n (frame b)"]
  show ?case by simp
qed

fun msgs_events :: "replay_args \<Rightarrow> replay_state \<Rightarrow> u8 list list \<Rightarrow> itch_event list" where
  "msgs_events a st [] = []"
| "msgs_events a st (b # bs) = (case msg_event st b of None \<Rightarrow> [] | Some ev \<Rightarrow> [ev]) @ msgs_events a (replay_msg a b st) bs"

lemma replay_events_frames:
  "ra_max_msgs a = 0 \<Longrightarrow> frames_ok bs \<Longrightarrow> replay_events a st (concat (map frame bs)) = msgs_events a st bs"
proof (induction bs arbitrary: st)
  case Nil
  then show ?case by (simp add: replay_events.simps)
next
  case (Cons b bs)
  let ?rest = "concat (map frame bs)"
  have b: "0 < length b" "length b < 2 ^ 16" and bs: "frames_ok bs" using Cons.prems(2) by (simp_all add: frames_ok_def)
  note F = frame_read [OF b, of ?rest]
  have "replay_events a st (frame b @ ?rest) =
      (case msg_event st b of None \<Rightarrow> [] | Some ev \<Rightarrow> [ev]) @ replay_events a (replay_msg a b st) ?rest"
    by (subst replay_events.simps) (use F b(1) Cons.prems(1) in \<open>simp add: Let_def del: length_append append_is_Nil_conv drop_append take_append\<close>)
  then show ?case using Cons.IH [OF Cons.prems(1) bs] by simp
qed

end
