(* ===== verification/Feed.thy ===== *)
theory Feed
  imports Pipeline Itch_Adapter Book_Spec
begin

text \<open>
  The event sources: \<^verbatim>\<open>make_synthetic_stream\<close> and \<^verbatim>\<open>replay_stream\<close> of \<^verbatim>\<open>include/hft/feed.hpp\<close>,
  and the message and packet sequences of the tools and the bench. Their order ids never repeat,
  so every message of theirs is processed by the engine.
\<close>

section \<open>Streams\<close>

record synthetic_feed_config =
  sf_symbol :: symbol_id
  sf_mid :: price
  sf_n_events :: u64
  sf_seed :: u32

definition synthetic_msg :: "synthetic_feed_config \<Rightarrow> nat \<Rightarrow> md_msg" where
  "synthetic_msg cfg k =
    (let i = of_nat k :: u64;
         offset = uint ((i * 17 + ucast (sf_seed cfg)) mod 21) - 10
     in md_zero\<lparr>md_seq := i + 1, md_order_id := 1 + i, md_symbol := sf_symbol cfg,
          md_side := (if i mod 2 = 0 then Buy else Sell), md_msg_type := NewOrder, md_order_type := Limit,
          md_price := sf_mid cfg + offset * 1000,
          md_qty := 10 + ucast ((i + ucast (sf_seed cfg)) mod 40)\<rparr>)"

definition make_synthetic_stream :: "synthetic_feed_config \<Rightarrow> md_msg list" where
  "make_synthetic_stream cfg = map (synthetic_msg cfg) [0..<unat (sf_n_events cfg)]"

text \<open>The sink is a function of its own state.\<close>

fun replay_stream :: "('s \<Rightarrow> md_msg \<Rightarrow> bool \<times> 's) \<Rightarrow> md_msg list \<Rightarrow> 's \<Rightarrow> u64 \<times> 's" where
  "replay_stream sink [] s = (0, s)"
| "replay_stream sink (m # ms) s = (let (ok, s1) = sink s m; (n, s2) = replay_stream sink ms s1
     in (if ok then 1 + n else n, s2))"

text \<open>The orders of \<^verbatim>\<open>bench_tick_to_trade\<close>; \<open>mid\<close> is \<^verbatim>\<open>to_price(100.0)\<close>.\<close>

definition bench_ttt_msg :: "price \<Rightarrow> nat \<Rightarrow> md_msg" where
  "bench_ttt_msg mid k =
    (let i = of_nat k :: u64
     in md_zero\<lparr>md_seq := i + 1, md_order_id := i + 1, md_symbol := 1, md_side := (if i mod 2 = 0 then Buy else Sell),
          md_msg_type := NewOrder, md_order_type := Limit, md_price := mid + (uint (i mod 21) - 10) * 1000,
          md_qty := 10 + ucast (i mod 40)\<rparr>)"

text \<open>The packets of \<^verbatim>\<open>send_live_itch\<close> (\<open>seq\<close> from 1) and of \<^verbatim>\<open>run_feed_pipeline\<close> (\<open>i\<close> from 0).\<close>

definition live_packet :: "nat \<Rightarrow> u8 list" where
  "live_packet k =
    (let seq = of_nat k :: u64;
         sd = (if seq mod 2 = 0 then ch_B else ch_S);
         offset = uint ((seq * 17) mod 21) - 10;
         px = 1000000 + of_int (offset * 100)
     in make_mold_add_packet seq seq sd (ucast (10 + seq mod 40)) px)"

definition send_ctl :: "u64 \<Rightarrow> u16 \<Rightarrow> u8 list" where
  "send_ctl n_msgs count1 = mold_header_serialise
    \<lparr>mh_session = replicate 10 ch_space, mh_seq_num = n_msgs + 1, mh_msg_count = count1\<rparr>"

definition feed_packet :: "nat \<Rightarrow> u8 list" where
  "feed_packet k =
    (let i = of_nat k :: u64;
         sd = (if i mod 2 = 0 then ch_B else ch_S);
         px = 1000000 + ucast ((i mod 21 - 10) * 100)
     in make_mold_add_packet (i + 1) (i + 1) sd (ucast (10 + i mod 20)) px)"

section \<open>Bounds of the synthetic orders\<close>

lemma unat_mod_small: "unat ((w :: u64) mod of_nat n) < n" if "0 < n" "n < 2 ^ 64"
proof -
  have "unat (of_nat n :: u64) = n" using that by (simp add: unsigned_of_nat take_bit_nat_eq_self)
  then have "unat (w mod of_nat n) = unat w mod n" by (simp add: unat_mod_distrib)
  then show ?thesis using that by simp
qed

lemma synthetic_bounds:
  shows "\<bar>md_price (synthetic_msg cfg k) - sf_mid cfg\<bar> \<le> 10000"
    and "10 \<le> unat (md_qty (synthetic_msg cfg k))" "unat (md_qty (synthetic_msg cfg k)) < 50"
proof -
  let ?i = "of_nat k :: u64"
  have "unat ((?i * 17 + ucast (sf_seed cfg)) mod 21) < 21"
    using unat_mod_small [of 21 "?i * 17 + ucast (sf_seed cfg)"] by simp
  moreover have "uint ((?i * 17 + ucast (sf_seed cfg)) mod 21) = int (unat ((?i * 17 + ucast (sf_seed cfg)) mod 21))"
    by (rule uint_nat)
  ultimately have "uint ((?i * 17 + ucast (sf_seed cfg)) mod 21) \<le> 20" "0 \<le> uint ((?i * 17 + ucast (sf_seed cfg)) mod 21)"
    by linarith+
  moreover have "md_price (synthetic_msg cfg k) - sf_mid cfg = (uint ((?i * 17 + ucast (sf_seed cfg)) mod 21) - 10) * 1000"
    by (simp add: synthetic_msg_def Let_def)
  ultimately show "\<bar>md_price (synthetic_msg cfg k) - sf_mid cfg\<bar> \<le> 10000" by (simp add: abs_le_iff)
  let ?r = "(?i + ucast (sf_seed cfg)) mod 40"
  have r: "unat ?r < 40" using unat_mod_small [of 40 "?i + ucast (sf_seed cfg)"] by simp
  have q: "md_qty (synthetic_msg cfg k) = 10 + ucast ?r" by (simp add: synthetic_msg_def Let_def)
  have "unat (ucast ?r :: u32) = unat ?r" using r by (simp add: unsigned_ucast_eq take_bit_nat_eq_self)
  then have "unat (10 + ucast ?r :: u32) = 10 + unat ?r"
    using r unat_add_no_wrap [of 10 "ucast ?r :: u32"] by simp
  then show "10 \<le> unat (md_qty (synthetic_msg cfg k))" "unat (md_qty (synthetic_msg cfg k)) < 50"
    unfolding q using r by simp_all
qed

section \<open>Fresh ids\<close>

lemma aadd_ids:
  assumes "aadd A o1 = (ok, A', fs)"
  shows "all_ids A' \<subseteq> insert (ord_id o1) (all_ids A)"
  using assms
proof (cases rule: aadd_cases)
  case (matched q L w)
  have "set (map rs_id (orders_of L)) \<subseteq> set (map rs_id (orders_of (A (\<not> is_buy o1))))"
    using amatch_suffix [OF matched(1)] by (metis Un_upper2 set_append)
  then show ?thesis unfolding matched(2) all_ids_alt [of _ "is_buy o1"] by auto
next
  case (rested q L w)
  have s: "set (map rs_id (orders_of L)) \<subseteq> set (map rs_id (orders_of (A (\<not> is_buy o1))))"
    using amatch_suffix [OF rested(1)] by (metis Un_upper2 set_append)
  have "set (orders_of (ainsert d p r M)) = insert r (set (orders_of M))" for d p r M
    using arg_cong [OF ainsert_mset [of d p r M], of set_mset] by simp
  then show ?thesis using s unfolding rested(3) all_ids_alt [of _ "is_buy o1"] by auto
qed auto

lemma fresh_step: "X \<subseteq> insert k Y \<Longrightarrow> Y \<inter> set (map f (m # ms)) = {} \<Longrightarrow> k \<notin> set (map f ms) \<Longrightarrow> X \<inter> set (map f ms) = {}"
  by auto

text \<open>New orders with distinct ids, none of them resting, are fresh one after the other.\<close>

lemma new_orders_fresh:
  assumes "\<forall>m\<in>set ms. md_msg_type m = NewOrder \<and> md_order_id m \<noteq> 0" "distinct (map md_order_id ms)"
    "\<forall>s a. fst AB s = Some a \<longrightarrow> all_ids a \<inter> set (map md_order_id ms) = {}"
  shows "msgs_fresh AB ms"
  using assms
proof (induction ms arbitrary: AB)
  case (Cons m ms)
  have c: "msg_cmd (snd AB) m = Some (AddCmd (order_of_msg m (md_order_id m)))"
    using Cons.prems(1) by (simp add: msg_cmd_def)
  have f: "msg_fresh AB m"
    using Cons.prems(3) c by (auto simp: msg_fresh_def cmd_fresh_def order_of_msg_def)
  have "\<forall>s a. fst (fst (adispatch AB m)) s = Some a \<longrightarrow> all_ids a \<inter> set (map md_order_id ms) = {}"
  proof (intro allI impI)
    fix s a' assume a': "fst (fst (adispatch AB m)) s = Some a'"
    show "all_ids a' \<inter> set (map md_order_id ms) = {}"
    proof (cases "unat (md_symbol m) \<ge> kMaxSymbols \<or> fst AB (unat (md_symbol m)) = None \<or> s \<noteq> unat (md_symbol m)")
      case True
      then have "fst AB s = Some a'"
        using a' by (auto simp: adispatch_def c Let_def split: option.splits prod.splits if_splits)
      with Cons.prems(3) show ?thesis by fastforce
    next
      case False
      then obtain a where a: "fst AB s = Some a" by auto
      obtain ok A1 fs where add: "aadd a (order_of_msg m (md_order_id m)) = (ok, A1, fs)" by (metis prod_cases3)
      have "a' = A1" using a' a add False by (auto simp: adispatch_def c Let_def split: option.splits if_splits)
      then have "all_ids a' \<subseteq> insert (md_order_id m) (all_ids a)"
        using aadd_ids [OF add] by (simp add: order_of_msg_def)
      moreover have "all_ids a \<inter> set (map md_order_id (m # ms)) = {}" using Cons.prems(3) a by blast
      moreover have "md_order_id m \<notin> set (map md_order_id ms)" using Cons.prems(2) by simp
      ultimately show ?thesis by (rule fresh_step)
    qed
  qed
  with Cons.IH [of "fst (adispatch AB m)"] Cons.prems(1,2) f show ?case by simp
qed simp

lemma distinct_ids_stream: "distinct (map md_order_id (make_synthetic_stream cfg))"
    "\<forall>m\<in>set (make_synthetic_stream cfg). md_msg_type m = NewOrder \<and> md_order_id m \<noteq> 0 \<and> md_symbol m = sf_symbol cfg"
proof -
  have n: "unat (sf_n_events cfg) < 2 ^ 64" by (rule unat_u64_less)
  have u: "unat (1 + of_nat k :: u64) = 1 + k" if "k < unat (sf_n_events cfg)" for k
    using that n unat_add_no_wrap [of "1 :: u64" "of_nat k"] by (simp add: unsigned_of_nat take_bit_nat_eq_self)
  have "inj_on (\<lambda>k. 1 + of_nat k :: u64) {0..<unat (sf_n_events cfg)}"
  proof (rule inj_onI)
    fix j k assume "j \<in> {0..<unat (sf_n_events cfg)}" "k \<in> {0..<unat (sf_n_events cfg)}" "1 + of_nat j = (1 + of_nat k :: u64)"
    then have "1 + j = 1 + k" using u [of j] u [of k] by (metis atLeastLessThan_iff)
    then show "j = k" by (simp only: add_left_cancel)
  qed
  then show "distinct (map md_order_id (make_synthetic_stream cfg))"
    by (simp add: make_synthetic_stream_def synthetic_msg_def Let_def distinct_map comp_def inj_on_def)
  show "\<forall>m\<in>set (make_synthetic_stream cfg). md_msg_type m = NewOrder \<and> md_order_id m \<noteq> 0 \<and> md_symbol m = sf_symbol cfg"
  proof
    fix m assume "m \<in> set (make_synthetic_stream cfg)"
    then obtain k where k: "k < unat (sf_n_events cfg)" "m = synthetic_msg cfg k" by (auto simp: make_synthetic_stream_def)
    have "1 + of_nat k \<noteq> (0 :: u64)" using u [OF k(1)] by (metis Suc_eq_plus1_left nat.distinct(1) unsigned_0)
    with k(2) show "md_msg_type m = NewOrder \<and> md_order_id m \<noteq> 0 \<and> md_symbol m = sf_symbol cfg"
      by (simp add: synthetic_msg_def Let_def)
  qed
qed

lemma synthetic_fresh: "msgs_fresh (start_abooks s) (make_synthetic_stream cfg)"
  by (rule new_orders_fresh)
    (use distinct_ids_stream [of cfg] in \<open>auto simp: start_abooks_def abook_init_def all_ids_def split: if_splits\<close>)

text \<open>New orders numbered from 1, as the tools number theirs.\<close>

lemma numbered_orders_fresh:
  assumes n: "n < 2 ^ 64" and f: "\<And>k. md_msg_type (f k) = NewOrder" "\<And>k. md_order_id (f k) = of_nat (k + 1)"
  shows "msgs_fresh (start_abooks s) (map f [0..<n])"
proof (rule new_orders_fresh)
  have u: "unat (of_nat (k + 1) :: u64) = k + 1" if "k < n" for k
    using that n by (simp only: unsigned_of_nat) (simp add: take_bit_nat_eq_self)
  have "md_order_id (f k) \<noteq> 0" if "k < n" for k
    using u [OF that] unfolding f(2) by (metis add_is_0 one_neq_zero unsigned_0)
  then show "\<forall>m\<in>set (map f [0..<n]). md_msg_type m = NewOrder \<and> md_order_id m \<noteq> 0" by (auto simp: f(1))
  have "inj_on (\<lambda>k. md_order_id (f k)) {0..<n}"
  proof (rule inj_onI)
    fix j k assume "j \<in> {0..<n}" "k \<in> {0..<n}" and e: "md_order_id (f j) = md_order_id (f k)"
    from e have "unat (of_nat (j + 1) :: u64) = unat (of_nat (k + 1) :: u64)" unfolding f(2) by (rule arg_cong)
    moreover have "j < n" "k < n" using \<open>j \<in> {0..<n}\<close> \<open>k \<in> {0..<n}\<close> by simp_all
    ultimately have "j + 1 = k + 1" by (simp only: u)
    then show "j = k" by (simp only: add_right_cancel)
  qed
  then show "distinct (map md_order_id (map f [0..<n]))" by (simp add: distinct_map comp_def)
  show "\<forall>i a. fst (start_abooks s) i = Some a \<longrightarrow> all_ids a \<inter> set (map md_order_id (map f [0..<n])) = {}"
    by (auto simp: start_abooks_def abook_init_def all_ids_def split: if_splits)
qed

end
