(* ===== verification/Pipeline_Stream.thy ===== *)
theory Pipeline_Stream
  imports Pipeline Feed
begin

text \<open>
  The control thread's loops of \<^verbatim>\<open>hft::Pipeline\<close>: \<^verbatim>\<open>submit_stream\<close>, \<^verbatim>\<open>wait_until_drained\<close>,
  \<^verbatim>\<open>stop\<close>, \<^verbatim>\<open>run_stream\<close> and \<^verbatim>\<open>run_synthetic\<close>. They retry, poll and join while the other two
  threads take turns, so each is a relation between the state before, the turns taken by all
  threads meanwhile and the state after.
\<close>

section \<open>The loops\<close>

text \<open>A turn of the engine thread or of the drain thread.\<close>

definition other_turn :: "pipe_act \<Rightarrow> bool" where
  "other_turn a \<longleftrightarrow> (case a of ActEngine \<Rightarrow> True | ActDrain t wn \<Rightarrow> True | _ \<Rightarrow> False)"

text \<open>
  Submitting messages one after the other, each with its receive time and retried until the ring
  takes it; \<^verbatim>\<open>submit\<close> passes the time 0.
\<close>

inductive submit_timed :: "pipeline \<Rightarrow> (md_msg \<times> u64) list \<Rightarrow> pipe_act list \<Rightarrow> pipeline \<Rightarrow> bool" where
  timed_end: "submit_timed p [] [] p"
| timed_other: "other_turn a \<Longrightarrow> pipe_turn p a = Some p1 \<Longrightarrow> submit_timed p1 ms as p' \<Longrightarrow> submit_timed p ms (a # as) p'"
| timed_retry: "submit_with_ts p m ts = (False, p1) \<Longrightarrow> submit_timed p1 ((m, ts) # ms) as p' \<Longrightarrow>
    submit_timed p ((m, ts) # ms) (ActSubmit m ts # as) p'"
| timed_sent: "submit_with_ts p m ts = (True, p1) \<Longrightarrow> submit_timed p1 ms as p' \<Longrightarrow>
    submit_timed p ((m, ts) # ms) (ActSubmit m ts # as) p'"

definition submit_stream :: "pipeline \<Rightarrow> md_msg list \<Rightarrow> pipe_act list \<Rightarrow> pipeline \<Rightarrow> bool" where
  "submit_stream p ms as p' \<longleftrightarrow> submit_timed p (map (\<lambda>m. (m, 0)) ms) as p'"

text \<open>
  \<^verbatim>\<open>wait_until_drained\<close> ends when the engine's message count reaches \<open>expected\<close> (and settles a
  little longer), which \<open>c\<close> records, or at its deadline.
\<close>

inductive wait_until_drained :: "u64 \<Rightarrow> pipeline \<Rightarrow> pipe_act list \<Rightarrow> bool \<Rightarrow> pipeline \<Rightarrow> bool" for expected where
  wait_other: "other_turn a \<Longrightarrow> pipe_turn p a = Some p1 \<Longrightarrow> wait_until_drained expected p1 as c p' \<Longrightarrow>
    wait_until_drained expected p (a # as) c p'"
| wait_caught_up: "en_stat_messages (pp_engine p) \<ge> expected \<Longrightarrow> \<forall>a\<in>set as. other_turn a \<Longrightarrow> pipe_run p as = Some p' \<Longrightarrow>
    wait_until_drained expected p as True p'"
| wait_timeout: "wait_until_drained expected p [] False p"

text \<open>
  \<^verbatim>\<open>stop\<close>: the pipeline's flag, the engine's flag, the joins. The join of the engine thread ends
  when that thread has, the join of the drain thread likewise.
\<close>

inductive pipeline_stop :: "pipeline \<Rightarrow> pipe_act list \<Rightarrow> pipeline \<Rightarrow> bool" where
  stop_idle: "\<not> pp_running p \<Longrightarrow> pipeline_stop p [] p"
| stop_running: "pp_running p \<Longrightarrow> \<forall>a\<in>set (as @ bs). other_turn a \<Longrightarrow> pipe_run p (ActStop # as @ ActStopEngine # bs) = Some p1 \<Longrightarrow>
    \<not> pp_engine_alive p1 \<Longrightarrow> \<not> pp_drain_alive p1 \<Longrightarrow>
    pipeline_stop p (ActStop # as @ ActStopEngine # bs @ [ActJoin]) (finish_stop p1)"

inductive run_stream :: "pipeline \<Rightarrow> int \<Rightarrow> md_msg list \<Rightarrow> pipe_act list \<Rightarrow> pipeline \<Rightarrow> bool" where
  run_not_started: "pipeline_start p fd = (False, p') \<Longrightarrow> run_stream p fd ms [] p'"
| run_started: "pipeline_start p fd = (True, p1) \<Longrightarrow> submit_stream p1 ms as1 p2 \<Longrightarrow>
    wait_until_drained (of_nat (length ms)) p2 as2 c p3 \<Longrightarrow> pipeline_stop p3 as3 p' \<Longrightarrow>
    run_stream p fd ms (as1 @ as2 @ as3) p'"

text \<open>\<open>mid\<close> is the configuration's default \<^verbatim>\<open>to_price(100.0)\<close>, the seed its default 1.\<close>

definition run_synthetic :: "price \<Rightarrow> pipeline \<Rightarrow> int \<Rightarrow> u64 \<Rightarrow> pipe_act list \<Rightarrow> pipeline \<Rightarrow> bool" where
  "run_synthetic mid p fd n as p' \<longleftrightarrow> run_stream p fd
     (make_synthetic_stream \<lparr>sf_symbol = pp_symbol p, sf_mid = mid, sf_n_events = n, sf_seed = 1\<rparr>) as p'"

inductive_cases run_streamE: "run_stream p fd ms as p'"
inductive_cases pipeline_stopE: "pipeline_stop p as p'"
inductive_simps submit_timed_Nil: "submit_timed p ms [] p'"
inductive_simps wait_until_drained_Nil: "wait_until_drained n p [] c p'"

section \<open>The loops are runs\<close>

lemma pipe_run_append: "pipe_run p (as @ bs) = Option.bind (pipe_run p as) (\<lambda>q. pipe_run q bs)"
  by (induction as arbitrary: p) (auto split: bind_splits)

lemma run_accepts_append: "pipe_run p as = Some q \<Longrightarrow> run_accepts p (as @ bs) = run_accepts p as @ run_accepts q bs"
  by (induction as arbitrary: p) (auto simp: bind_eq_Some_conv)

lemma run_fills_append: "pipe_run p as = Some q \<Longrightarrow> run_fills p (as @ bs) = run_fills p as @ run_fills q bs"
  by (induction as arbitrary: p) (auto simp: bind_eq_Some_conv)

definition no_submit :: "pipe_act list \<Rightarrow> bool" where
  "no_submit as \<longleftrightarrow> (\<forall>a\<in>set as. case a of ActSubmit m ts \<Rightarrow> False | _ \<Rightarrow> True)"

lemma no_submit_simps [simp]: "no_submit []" "no_submit (a # as) \<longleftrightarrow> (case a of ActSubmit m ts \<Rightarrow> False | _ \<Rightarrow> True) \<and> no_submit as"
  "no_submit (as @ bs) \<longleftrightarrow> no_submit as \<and> no_submit bs"
  by (auto simp: no_submit_def)

lemma no_submit_accepts: "no_submit as \<Longrightarrow> run_accepts p as = []"
  by (induction as arbitrary: p) (auto simp: act_accepts_def split: pipe_act.splits option.splits)

lemma others_no_submit: "\<forall>a\<in>set as. other_turn a \<Longrightarrow> no_submit as"
  by (auto simp: no_submit_def other_turn_def split: pipe_act.splits)

lemma submit_timed_run:
  "submit_timed p ms as p' \<Longrightarrow> pipe_run p as = Some p' \<and> run_accepts p as = map fst ms \<and> ActStop \<notin> set as"
proof (induction rule: submit_timed.induct)
  case (timed_other a p p1 ms as p')
  then show ?case by (auto simp: act_accepts_def other_turn_def split: pipe_act.splits)
qed (auto simp: act_accepts_def)

lemma map_fst_timed [simp]: "map fst (map (\<lambda>m. (m, 0)) ms) = ms"
  by (simp add: comp_def)

lemma submit_stream_run:
  "submit_stream p ms as p' \<Longrightarrow> pipe_run p as = Some p' \<and> run_accepts p as = ms \<and> ActStop \<notin> set as"
  using submit_timed_run [of p "map (\<lambda>m. (m, 0)) ms" as p'] by (simp add: submit_stream_def comp_def)

lemma stream_end: "submit_stream p [] [] p"
  by (simp add: submit_stream_def timed_end)

lemma stream_sent:
  assumes "pipeline_submit p m = (True, p1)" "submit_stream p1 ms as p'"
  shows "submit_stream p (m # ms) (ActSubmit m 0 # as) p'"
  using assms timed_sent by (simp add: submit_stream_def pipeline_submit_def)

lemma wait_run: "wait_until_drained n p as c p' \<Longrightarrow> pipe_run p as = Some p' \<and> (\<forall>a\<in>set as. other_turn a)"
  by (induction rule: wait_until_drained.induct) auto

lemma other_turn_running: "other_turn a \<Longrightarrow> pipe_turn p a = Some p' \<Longrightarrow> pp_running p' = pp_running p"
  by (auto simp: other_turn_def drain_turn_engine engine_turn_def Let_def split: pipe_act.splits if_splits prod.splits option.splits)

lemma others_running: "\<forall>a\<in>set as. other_turn a \<Longrightarrow> pipe_run p as = Some p' \<Longrightarrow> pp_running p' = pp_running p"
proof (induction as arbitrary: p)
  case (Cons a as)
  then obtain p1 where p1: "pipe_turn p a = Some p1" "pipe_run p1 as = Some p'" by (auto simp: bind_eq_Some_conv)
  with Cons.prems(1) Cons.IH [of p1] other_turn_running [of a p p1] show ?case by simp
qed simp

lemma stop_run:
  assumes "pipeline_stop p as p'"
  shows "pipe_run p as = Some p'" "no_submit as"
proof -
  show "pipe_run p as = Some p'"
    using assms
  proof cases
    case (stop_running cs bs p1)
    from stop_running(5) obtain q where q: "pipe_run (p\<lparr>pp_running := False\<rparr>) cs = Some q"
      "pipe_run (if pp_running q then q else q\<lparr>pp_engine_running := False\<rparr>) bs = Some p1"
      using stop_running(3) by (auto simp: pipe_run_append bind_eq_Some_conv)
    have "\<not> pp_running q" using others_running [OF _ q(1)] stop_running(4) by auto
    then have "\<not> pp_running p1" using others_running [OF _ q(2)] stop_running(4) by auto
    then have "pipe_run p1 [ActJoin] = Some (finish_stop p1)" using stop_running(6,7) by simp
    moreover have as: "as = (ActStop # cs @ ActStopEngine # bs) @ [ActJoin]" using stop_running(1) by simp
    ultimately show ?thesis unfolding as pipe_run_append [of p "ActStop # cs @ ActStopEngine # bs"] stop_running(5)
      using stop_running(2) by (simp only: bind.bind_lunit)
  qed simp
  show "no_submit as" using assms by cases (auto intro!: others_no_submit)
qed

section \<open>What a streamed run leaves behind\<close>

lemma submits_before_stop_append:
  "ActStop \<notin> set as \<Longrightarrow> no_submit bs \<Longrightarrow> submits_before_stop False (as @ bs)"
proof (induction as)
  case Nil
  have "no_submit bs \<Longrightarrow> submits_before_stop st bs" for st
    by (induction bs arbitrary: st) (auto split: pipe_act.splits)
  with Nil show ?case by simp
next
  case (Cons a as)
  then show ?case by (cases a) auto
qed

lemma started_start: "fd \<ge> 0 \<Longrightarrow> pipeline_start (pipeline_init s) fd = (True, started s fd)"
  by (simp add: started_def pipeline_start_def sink_open_def pipeline_init_def Let_def)

lemma started_stop_inv:
  assumes "fd \<ge> 0" "unat s < kMaxSymbols"
  shows "stop_inv (started s fd) False"
  using started_inv [OF assms] by (auto simp: stop_inv_def pipe_inv_def rings_inv_def)

lemma stopped_engine_ended: "pipeline_stop p as p' \<Longrightarrow> pp_running p \<Longrightarrow> \<not> pp_engine_alive p' \<and> \<not> pp_drain_alive p'"
  by (erule pipeline_stopE) (auto simp: finish_stop_def Let_def)

lemma submit_ts_running: "submit_with_ts p m ts = (ok, p1) \<Longrightarrow> pp_running p1 = pp_running p"
  using submit_flags(1) [of p m ts] by simp

lemma submit_timed_running: "submit_timed p ms as p' \<Longrightarrow> pp_running p' = pp_running p"
  by (induction rule: submit_timed.induct) (simp_all add: other_turn_running submit_ts_running)

lemma submit_stream_running: "submit_stream p ms as p' \<Longrightarrow> pp_running p' = pp_running p"
  unfolding submit_stream_def by (rule submit_timed_running)

lemma wait_running: "wait_until_drained n p as c p' \<Longrightarrow> pp_running p' = pp_running p"
  using wait_run [of n p as c p'] others_running by blast

text \<open>Submitting, waiting and stopping, one after the other, on a started pipeline.\<close>

lemma session_run:
  assumes "submit_timed p ms as1 p2" "wait_until_drained n p2 as2 c p3" "pipeline_stop p3 as3 p'"
  shows "pipe_run p (as1 @ as2 @ as3) = Some p'" "run_accepts p (as1 @ as2 @ as3) = map fst ms"
    "submits_before_stop False (as1 @ as2 @ as3)"
proof -
  note S = submit_timed_run [OF assms(1)] and W = wait_run [OF assms(2)] and T = stop_run [OF assms(3)]
  show "pipe_run p (as1 @ as2 @ as3) = Some p'" using S W T(1) by (simp add: pipe_run_append)
  have "no_submit (as2 @ as3)" using others_no_submit W T(2) by simp
  then show "run_accepts p (as1 @ as2 @ as3) = map fst ms" "submits_before_stop False (as1 @ as2 @ as3)"
    using S run_accepts_append [of p as1 p2 "as2 @ as3"] submits_before_stop_append [of as1 "as2 @ as3"]
    by (simp_all add: no_submit_accepts)
qed

lemma session_delivers:
  assumes sub: "submit_timed (started s fd) ms as1 p2" and w: "wait_until_drained n p2 as2 c p3" and st: "pipeline_stop p3 as3 p'"
    and fd: "fd \<ge> 0" and s: "unat s < kMaxSymbols"
  defines "as \<equiv> as1 @ as2 @ as3"
  shows "\<exists>rs. dispatch_all (start_books s) (map fst ms) = Some (books_of (pp_engine p'), rs) \<and> inq (pp_engine p') = [] \<and>
    pipe_inv (start_books s) p' (map fst ms) (run_fills (started s fd) as) \<and>
    subseq (map fst (run_fills (started s fd) as) @ outq (pp_engine p')) rs \<and>
    (length rs \<le> queue_room \<longrightarrow> map fst (run_fills (started s fd) as) @ outq (pp_engine p') = rs)"
proof -
  note R = session_run [OF sub w st, folded as_def]
  note I0 = started_inv(1) [OF fd s]
  have inv: "pipe_inv (start_books s) p' (map fst ms) (run_fills (started s fd) as)"
    using run_pipe_inv [OF I0 R(1)] by (simp add: R(2))
  from run_stop_inv [OF started_stop_inv [OF fd s] I0 R(3,1)] obtain sb where sb: "stop_inv p' sb" by blast
  have "pp_running p3" using submit_timed_running [OF sub] wait_running [OF w] started_inv(5) [OF fd s] by simp
  then have "\<not> pp_engine_alive p'" using stopped_engine_ended [OF st] by simp
  then have q: "inq (pp_engine p') = []" using sb by (simp add: stop_inv_def)
  from inv q show ?thesis by (auto simp: pipe_inv_def rings_inv_def)
qed

lemma run_stream_started:
  assumes run: "run_stream (pipeline_init s) fd ms as p'" and fd: "fd \<ge> 0"
  obtains as1 p2 as2 c p3 as3 where "as = as1 @ as2 @ as3" "submit_stream (started s fd) ms as1 p2"
    "wait_until_drained (of_nat (length ms)) p2 as2 c p3" "pipeline_stop p3 as3 p'"
  using run
proof cases
  case run_not_started
  then show ?thesis using started_start [OF fd] by simp
next
  case (run_started p1 as1 p2 as2 c p3 as3)
  then show ?thesis using that started_start [OF fd, of s] by simp
qed

lemma run_stream_delivers:
  assumes run: "run_stream (pipeline_init s) fd ms as p'" and fd: "fd \<ge> 0" and s: "unat s < kMaxSymbols"
  shows "\<exists>rs. dispatch_all (start_books s) ms = Some (books_of (pp_engine p'), rs) \<and> inq (pp_engine p') = [] \<and>
    pipe_inv (start_books s) p' ms (run_fills (started s fd) as) \<and>
    subseq (map fst (run_fills (started s fd) as) @ outq (pp_engine p')) rs \<and>
    (length rs \<le> queue_room \<longrightarrow> map fst (run_fills (started s fd) as) @ outq (pp_engine p') = rs)"
proof -
  obtain as1 p2 as2 c p3 as3 where as: "as = as1 @ as2 @ as3" and R: "submit_stream (started s fd) ms as1 p2"
    "wait_until_drained (of_nat (length ms)) p2 as2 c p3" "pipeline_stop p3 as3 p'"
    by (rule run_stream_started [OF run fd])
  from session_delivers [OF R(1)[unfolded submit_stream_def] R(2,3) fd s] show ?thesis by (simp add: as comp_def)
qed

section \<open>A streamed run always exists\<close>

lemma submit_one:
  assumes g: "books_good B0 A0" and inv: "pipe_inv B0 p acc fl" and fresh: "msgs_fresh A0 (acc @ [m])"
    and st: "pp_running p" "pp_engine_alive p" "pp_engine_running p" "inq (pp_engine p) = []"
  shows "\<exists>p1 p2. submit_with_ts p m ts = (True, p1) \<and> pipe_turn p1 ActEngine = Some p2 \<and> pipe_inv B0 p2 (acc @ [m]) fl \<and>
    pp_running p2 \<and> pp_engine_alive p2 \<and> pp_engine_running p2 \<and> inq (pp_engine p2) = [] \<and> pp_drain_alive p2 = pp_drain_alive p"
proof -
  have ok: "rings_ok (pp_engine p)" using inv by (auto simp: pipe_inv_def rings_inv_def)
  have room: "0 < queue_room" by (simp add: queue_room_def kQueueDepth_def)
  obtain k e where e: "engine_submit (pp_engine p) m = (k, e)" by force
  have k: "k" using submit_ring(2) [OF ok e] st(4) room by simp
  obtain p1 where p1: "submit_with_ts p m ts = (True, p1)" "pp_engine p1 = e" "pp_drain_alive p1 = pp_drain_alive p"
  proof
    show "submit_with_ts p m ts = (True, snd (submit_with_ts p m ts))" "pp_engine (snd (submit_with_ts p m ts)) = e"
      "pp_drain_alive (snd (submit_with_ts p m ts)) = pp_drain_alive p"
      using e k by (simp_all add: submit_with_ts_def Let_def)
  qed
  have e1: "rings_ok e" "inq e = [m]" using submit_ring(1,3) [OF ok e] k st(4) by simp_all
  have i1: "pipe_inv B0 p1 (acc @ [m]) fl" using submit_pipe_inv [OF inv, of m ts] by (simp add: p1(1))
  have f1: "pp_running p1" "pp_engine_alive p1" "pp_engine_running p1" using submit_flags [of p m ts] st(1-3) by (simp_all add: p1(1))
  from turn_returns [OF g i1 fresh, of ActEngine] obtain p2 where p2: "pipe_turn p1 ActEngine = Some p2" by auto
  then obtain e2 where e2: "engine_step (pp_engine p1) = Some e2" "p2 = p1\<lparr>pp_engine := e2\<rparr>"
    using f1 by (auto simp: engine_turn_def)
  have "inq e2 = []"
    by (rule engine_step_ring [OF e1(1) e2(1)[unfolded p1(2)]]) (use e1(2) in auto)
  moreover have "pipe_inv B0 p2 (acc @ [m]) fl" using engine_pipe_inv [OF i1] p2 by simp
  ultimately show ?thesis using p1(1,3) p2 e2(2) f1 by auto
qed

lemma submit_timed_exists:
  assumes g: "books_good B0 A0"
  shows "pipe_inv B0 p acc fl \<Longrightarrow> msgs_fresh A0 (acc @ map fst ms) \<Longrightarrow> pp_running p \<Longrightarrow> pp_engine_alive p \<Longrightarrow> pp_engine_running p \<Longrightarrow>
    inq (pp_engine p) = [] \<Longrightarrow>
    \<exists>as p'. submit_timed p ms as p' \<and> pipe_inv B0 p' (acc @ map fst ms) fl \<and> pp_running p' \<and> pp_engine_alive p' \<and>
      pp_engine_running p' \<and> inq (pp_engine p') = []"
proof (induction ms arbitrary: p acc)
  case Nil
  then show ?case using timed_end [of p] by auto
next
  case (Cons mt ms)
  obtain m ts where mt: "mt = (m, ts)" by force
  have f: "msgs_fresh A0 (acc @ [m])" using Cons.prems(2) msgs_fresh_append [of A0 "acc @ [m]" "map fst ms"] by (simp add: mt)
  from submit_one [OF g Cons.prems(1) f Cons.prems(3-6), of ts] obtain p1 p2 where
    p: "submit_with_ts p m ts = (True, p1)" "pipe_turn p1 ActEngine = Some p2" "pipe_inv B0 p2 (acc @ [m]) fl"
      "pp_running p2" "pp_engine_alive p2" "pp_engine_running p2" "inq (pp_engine p2) = []" by blast
  have "msgs_fresh A0 ((acc @ [m]) @ map fst ms)" using Cons.prems(2) by (simp add: mt)
  from Cons.IH [OF p(3) this p(4-7)] obtain as p' where
    r: "submit_timed p2 ms as p'" "pipe_inv B0 p' (acc @ m # map fst ms) fl" "pp_running p'" "pp_engine_alive p'" "pp_engine_running p'"
      "inq (pp_engine p') = []" by auto
  have "submit_timed p1 ms (ActEngine # as) p'"
    by (rule timed_other [OF _ p(2) r(1)]) (simp add: other_turn_def)
  from timed_sent [OF p(1) this] r(2-) show ?case by (auto simp: mt)
qed

lemma submit_stream_exists:
  assumes "books_good B0 A0" "pipe_inv B0 p acc fl" "msgs_fresh A0 (acc @ ms)" "pp_running p" "pp_engine_alive p" "pp_engine_running p"
    "inq (pp_engine p) = []"
  shows "\<exists>as p'. submit_stream p ms as p' \<and> pipe_inv B0 p' (acc @ ms) fl \<and> pp_running p' \<and> pp_engine_alive p' \<and>
      pp_engine_running p' \<and> inq (pp_engine p') = []"
  using submit_timed_exists [OF assms(1,2), of "map (\<lambda>m. (m, 0)) ms"] assms(3-7) by (simp add: submit_stream_def comp_def)

section \<open>Stopping always ends\<close>

lemma drain_turn_alive:
  assumes "rings_ok (pp_engine p)"
  shows "pp_drain_alive (drain_turn p t wn) \<longleftrightarrow> pp_drain_alive p \<and> (outq (pp_engine p) \<noteq> [] \<or> pp_running p)"
proof -
  obtain r e where po: "poll_report (pp_engine p) = (r, e)" by force
  have "pp_drain_alive (pipeline_on_fill q rpt t wn) = pp_drain_alive q" for q rpt
    by (simp add: pipeline_on_fill_def Let_def)
  then show ?thesis using poll_ring(2) [OF assms po] by (auto simp: drain_turn_def po Let_def split: list.splits)
qed

lemma drain_all:
  "rings_ok (pp_engine p) \<Longrightarrow> \<not> pp_running p \<Longrightarrow> \<exists>q. pipe_run p (replicate (Suc (length (outq (pp_engine p)))) (ActDrain t wn)) = Some q \<and>
    \<not> pp_drain_alive q \<and> pp_engine_alive q = pp_engine_alive p \<and> (pp_drain_alive p \<longrightarrow> outq (pp_engine q) = [])"
proof (induction "outq (pp_engine p)" arbitrary: p)
  case Nil
  obtain r e where po: "poll_report (pp_engine p) = (r, e)" by force
  let ?p = "drain_turn p t wn"
  have "\<not> pp_drain_alive ?p" using drain_turn_alive [OF Nil(2), of t wn] Nil by simp
  moreover have "outq e = []" using poll_ring(3) [OF Nil(2) po] Nil(1) by simp
  ultimately show ?case using Nil(1) by (simp add: drain_turn_engine po flip: Nil(1))
next
  case (Cons x xs)
  obtain r e where po: "poll_report (pp_engine p) = (r, e)" by force
  let ?p = "drain_turn p t wn"
  show ?case
  proof (cases "pp_drain_alive p")
    case False
    have id: "drain_turn p t wn = p" for t wn using False by (simp add: drain_turn_def)
    have "pipe_run p (replicate n (ActDrain t wn)) = Some p" for n by (induction n) (simp_all add: id)
    then show ?thesis using False by (intro exI [of _ p]) (simp del: replicate.simps)
  next
    case True
    have e: "pp_engine ?p = e" "\<not> pp_running ?p" "pp_engine_alive ?p = pp_engine_alive p"
      using Cons.prems(2) True by (simp_all add: drain_turn_engine po)
    have o: "outq (pp_engine ?p) = xs" using poll_ring(3) [OF Cons.prems(1) po] Cons.hyps(2) [symmetric] by (simp add: e)
    have ok: "rings_ok (pp_engine ?p)" using poll_ring(1) [OF Cons.prems(1) po] by (simp add: e)
    have alive: "pp_drain_alive ?p" using drain_turn_alive [OF Cons.prems(1), of t wn] True Cons.hyps(2) [symmetric] by simp
    from Cons.hyps(1) [OF o [symmetric] ok e(2)] obtain q where
      "pipe_run ?p (replicate (Suc (length xs)) (ActDrain t wn)) = Some q" "\<not> pp_drain_alive q"
      "pp_engine_alive q = pp_engine_alive p" "outq (pp_engine q) = []" unfolding o using e(3) alive by auto
    then show ?thesis by (simp flip: Cons.hyps(2))
  qed
qed

lemma stop_exists:
  assumes ok: "rings_ok (pp_engine p)" and st: "pp_running p" "pp_engine_alive p" "inq (pp_engine p) = []"
  shows "\<exists>as p'. pipeline_stop p as p'"
proof -
  let ?p1 = "p\<lparr>pp_running := False, pp_engine_running := False\<rparr>"
  obtain q1 where q1: "pipe_run ?p1 [ActEngine] = Some q1" "\<not> pp_running q1" "\<not> pp_engine_alive q1" "rings_ok (pp_engine q1)"
    using ok
  proof (cases rule: pop_inbound)
    case (empty q)
    then show thesis using st by (intro that [of "?p1\<lparr>pp_engine := (pp_engine p)\<lparr>en_inbound := q\<rparr>, pp_engine_alive := False\<rparr>"])
      (simp_all add: engine_turn_def)
  qed (use st in auto)
  from drain_all [OF q1(4,2)] obtain q2 where q2: "pipe_run q1 (replicate (Suc (length (outq (pp_engine q1)))) (ActDrain 0 0)) = Some q2"
    "\<not> pp_drain_alive q2" "\<not> pp_engine_alive q2" using q1(3) by blast
  let ?bs = "[ActEngine] @ replicate (Suc (length (outq (pp_engine q1)))) (ActDrain 0 0)"
  have "pipe_run ?p1 ?bs = Some q2" using q1(1) q2(1) by (simp only: pipe_run_append bind.bind_lunit)
  then have "pipe_run p (ActStop # [] @ ActStopEngine # ?bs) = Some q2" using st(1) by simp
  moreover have "\<forall>a\<in>set ([] @ ?bs). other_turn a" by (auto simp: other_turn_def)
  ultimately show ?thesis using stop_running [OF st(1) _ _ q2(3,2), of "[]" ?bs] by blast
qed

lemma session_returns:
  assumes fd: "fd \<ge> 0" and s: "unat s < kMaxSymbols" and fresh: "msgs_fresh (start_abooks s) (map fst ms)"
  shows "\<exists>as1 p2 as3 p'. submit_timed (started s fd) ms as1 p2 \<and> pipeline_stop p2 as3 p'"
proof -
  note I = started_inv [OF fd s]
  have i0: "inq (pp_engine (started s fd)) = []" using I(1) by (auto simp: pipe_inv_def rings_inv_def)
  have "msgs_fresh (start_abooks s) ([] @ map fst ms)" using fresh by simp
  from submit_timed_exists [OF start_books_good I(1) this I(5,3,2) i0] obtain as1 p2 where
    s2: "submit_timed (started s fd) ms as1 p2" "pipe_inv (start_books s) p2 ([] @ map fst ms) []" "pp_running p2" "pp_engine_alive p2"
      "inq (pp_engine p2) = []" by blast
  have ok: "rings_ok (pp_engine p2)" using s2(2) by (auto simp: pipe_inv_def rings_inv_def)
  from stop_exists [OF ok s2(3-5)] s2(1) show ?thesis by blast
qed

lemma run_stream_exists:
  assumes fd: "fd \<ge> 0" and s: "unat s < kMaxSymbols" and fresh: "msgs_fresh (start_abooks s) ms"
  shows "\<exists>as p'. run_stream (pipeline_init s) fd ms as p'"
proof -
  have "msgs_fresh (start_abooks s) (map fst (map (\<lambda>m. (m, 0)) ms))" using fresh by (simp only: map_fst_timed)
  from session_returns [OF fd s this] obtain as1 p2 as3 p' where
    "submit_stream (started s fd) ms as1 p2" "pipeline_stop p2 as3 p'" unfolding submit_stream_def by blast
  from run_started [OF started_start [OF fd] this(1) wait_timeout this(2)] show ?thesis by blast
qed

section \<open>When the reports are complete\<close>

text \<open>Nothing left for the engine, and the drain thread ends only on an empty ring.\<close>

definition quiet_inv :: "pipeline \<Rightarrow> bool" where
  "quiet_inv p \<longleftrightarrow> rings_ok (pp_engine p) \<and> inq (pp_engine p) = [] \<and> (\<not> pp_drain_alive p \<longrightarrow> outq (pp_engine p) = [])"

lemma quiet_turn:
  assumes q: "quiet_inv p" and t: "pipe_turn p a = Some p'" and n: "no_submit [a]"
  shows "quiet_inv p'"
proof (cases a)
  case (ActSubmit m ts)
  with n show ?thesis by simp
next
  case ActEngine
  have ok: "rings_ok (pp_engine p)" using q by (simp add: quiet_inv_def)
  from ok obtain q0 where e: "spsc_try_pop kQueueDepth (en_inbound (pp_engine p)) = (None, q0)"
    "rings_ok ((pp_engine p)\<lparr>en_inbound := q0\<rparr>)" "inq ((pp_engine p)\<lparr>en_inbound := q0\<rparr>) = []"
    by (cases rule: pop_inbound) (use q in \<open>auto simp: quiet_inv_def\<close>)
  then show ?thesis using q t ActEngine
    by (auto simp: engine_turn_def engine_step_def quiet_inv_def split: if_splits)
next
  case (ActDrain ts wn)
  have ok: "rings_ok (pp_engine p)" using q by (simp add: quiet_inv_def)
  obtain r e where po: "poll_report (pp_engine p) = (r, e)" by force
  have p': "p' = drain_turn p ts wn" using t ActDrain by simp
  have "outq e = []" if "outq (pp_engine p) = []" using poll_ring(3) [OF ok po] that by simp
  then show ?thesis using q drain_turn_alive [OF ok, of ts wn] poll_ring(1,3,4) [OF ok po]
    by (auto simp: quiet_inv_def p' drain_turn_engine po)
qed (use q t in \<open>auto simp: quiet_inv_def finish_stop_def Let_def split: if_splits\<close>)

lemma quiet_run: "quiet_inv p \<Longrightarrow> pipe_run p as = Some p' \<Longrightarrow> no_submit as \<Longrightarrow> quiet_inv p'"
proof (induction as arbitrary: p)
  case (Cons a as)
  then obtain p1 where p1: "pipe_turn p a = Some p1" "pipe_run p1 as = Some p'" by (auto simp: bind_eq_Some_conv)
  have "no_submit [a]" "no_submit as" using Cons.prems(3) by auto
  with Cons.IH [OF quiet_turn [OF Cons.prems(1) p1(1)] p1(2)] show ?case by blast
qed simp

text \<open>While the pipeline runs its drain thread does.\<close>

lemma turn_drain_alive:
  assumes "pipe_turn p a = Some p'" "rings_ok (pp_engine p)" "pp_running p" "pp_drain_alive p" "a \<noteq> ActStop"
  shows "pp_drain_alive p'"
proof (cases a)
  case (ActSubmit m ts)
  have "pp_drain_alive (snd (submit_with_ts p m ts)) = pp_drain_alive p"
    by (auto simp: submit_with_ts_def Let_def split: prod.splits)
  with assms ActSubmit show ?thesis by auto
qed (use assms drain_turn_alive [OF assms(2)] in
  \<open>auto simp: engine_turn_def finish_stop_def Let_def split: if_splits prod.splits option.splits\<close>)

lemma run_drain_alive:
  "pipe_run p as = Some p' \<Longrightarrow> pipe_inv B0 p acc fl \<Longrightarrow> pp_running p \<Longrightarrow> pp_drain_alive p \<Longrightarrow> ActStop \<notin> set as \<Longrightarrow>
    pp_drain_alive p' \<and> pp_running p'"
proof (induction as arbitrary: p acc fl)
  case (Cons a as)
  then obtain p1 where p1: "pipe_turn p a = Some p1" "pipe_run p1 as = Some p'" by (auto simp: bind_eq_Some_conv)
  have ok: "rings_ok (pp_engine p)" using Cons.prems(2) by (auto simp: pipe_inv_def rings_inv_def)
  have a: "a \<noteq> ActStop" "ActStop \<notin> set as" using Cons.prems(5) by auto
  have "pp_running p1"
    using p1(1) Cons.prems(3) a(1) other_turn_running [of a p p1] submit_flags(1)
    by (cases a) (auto simp: other_turn_def split: if_splits)
  with Cons.IH [OF p1(2) turn_pipe_inv [OF Cons.prems(2) p1(1)]] turn_drain_alive [OF p1(1) ok Cons.prems(3,4) a(1)] a(2)
  show ?case by blast
qed simp

lemma caught_up_quiet:
  assumes inv: "pipe_inv B0 p ms fl" and c: "en_stat_messages (pp_engine p) \<ge> of_nat (length ms)" and few: "length ms < 2 ^ 64"
    and alive: "pp_drain_alive p"
  shows "quiet_inv p"
proof -
  from inv obtain dn rs n where I: "rings_inv B0 (pp_engine p) ms dn rs (map fst fl)" "n \<le> length dn"
    "en_stat_messages (pp_engine p) = of_nat n" by (auto simp: pipe_inv_def msgs_inv_def)
  have ms: "ms = dn @ inq (pp_engine p)" "rings_ok (pp_engine p)" using I(1) by (simp_all add: rings_inv_def)
  then have len: "length ms = length dn + length (inq (pp_engine p))" by simp
  have "length ms \<le> n"
  proof -
    have "n < 2 ^ LENGTH(64)" "length ms < 2 ^ LENGTH(64)" using I(2) len few by simp_all
    then have "unat (of_nat n :: u64) = n" "unat (of_nat (length ms) :: u64) = length ms" using of_nat_inverse by blast+
    then show ?thesis using c I(3) by (simp add: word_le_nat_alt)
  qed
  then have "length (inq (pp_engine p)) = 0" using I(2) len by linarith
  then show ?thesis using ms(2) alive by (simp add: quiet_inv_def)
qed

lemma wait_caught:
  "wait_until_drained n p as c p' \<Longrightarrow> c \<Longrightarrow>
    \<exists>bs q cs. as = bs @ cs \<and> pipe_run p bs = Some q \<and> n \<le> en_stat_messages (pp_engine q) \<and> pipe_run q cs = Some p' \<and>
      (\<forall>a\<in>set as. other_turn a)"
proof (induction rule: wait_until_drained.induct)
  case (wait_other a p p1 as c p')
  then obtain bs q cs where "as = bs @ cs" "pipe_run p1 bs = Some q" "n \<le> en_stat_messages (pp_engine q)" "pipe_run q cs = Some p'"
    "\<forall>a\<in>set as. other_turn a" by blast
  with wait_other(1,2) show ?case by (intro exI [of _ "a # bs"] exI [of _ q] exI [of _ cs]) simp
next
  case (wait_caught_up p as p')
  then show ?case by (intro exI [of _ "[]"] exI [of _ p] exI [of _ as]) simp
qed simp

lemma caught_up_complete:
  assumes fd: "fd \<ge> 0" and s: "unat s < kMaxSymbols" and few: "length ms < 2 ^ 64"
    and sub: "submit_stream (started s fd) ms as1 p2" and w: "wait_until_drained (of_nat (length ms)) p2 as2 True p3"
    and st: "pipeline_stop p3 as3 p'"
  shows "outq (pp_engine p') = []"
proof -
  note S = submit_stream_run [OF sub] and I = started_inv [OF fd s]
  from wait_caught [OF w] obtain bs q cs where W: "as2 = bs @ cs" "pipe_run p2 bs = Some q"
    "of_nat (length ms) \<le> en_stat_messages (pp_engine q)" "pipe_run q cs = Some p3" "\<forall>a\<in>set as2. other_turn a" by blast
  have "\<not> other_turn ActStop" by (simp add: other_turn_def)
  then have ns: "no_submit bs" "no_submit cs" "ActStop \<notin> set (as1 @ bs)"
    using others_no_submit [OF W(5)] W(1,5) S by auto
  have run: "pipe_run (started s fd) (as1 @ bs) = Some q" using S W(2) by (simp add: pipe_run_append)
  have acc: "run_accepts (started s fd) (as1 @ bs) = ms"
    using S run_accepts_append [of "started s fd" as1 p2 bs] by (simp add: no_submit_accepts [OF ns(1)])
  have inv: "pipe_inv (start_books s) q ms (run_fills (started s fd) (as1 @ bs))"
    using run_pipe_inv [OF I(1) run] by (simp add: acc)
  have "pp_drain_alive q" using run_drain_alive [OF run I(1,5,4) ns(3)] by blast
  from quiet_run [OF quiet_run [OF caught_up_quiet [OF inv W(3) few this] W(4) ns(2)] stop_run [OF st]]
  have "quiet_inv p'" .
  moreover have "pp_running p3" using submit_stream_running [OF sub] wait_running [OF w] I(5) by simp
  then have "\<not> pp_drain_alive p'" using stopped_engine_ended [OF st] by simp
  ultimately show ?thesis by (simp add: quiet_inv_def)
qed

section \<open>When they are not\<close>

text \<open>
  If the engine has not caught up when \<^verbatim>\<open>stop\<close> begins, the drain thread can find its flag down
  and its ring empty, and end, before the engine thread has processed the rest.
\<close>

lemma submit_all_first:
  "pipe_inv B0 p acc fl \<Longrightarrow> length (inq (pp_engine p)) + length ms \<le> queue_room \<Longrightarrow>
    \<exists>as p'. submit_stream p ms as p' \<and> pipe_inv B0 p' (acc @ ms) fl \<and> inq (pp_engine p') = inq (pp_engine p) @ ms \<and>
      outq (pp_engine p') = outq (pp_engine p) \<and> pp_running p' = pp_running p \<and> pp_engine_running p' = pp_engine_running p \<and>
      pp_engine_alive p' = pp_engine_alive p \<and> pp_drain_alive p' = pp_drain_alive p \<and> run_fills p as = []"
proof (induction ms arbitrary: p acc)
  case Nil
  then show ?case using stream_end [of p] by (intro exI [of _ "[]"] exI [of _ p]) simp
next
  case (Cons m ms)
  have ok: "rings_ok (pp_engine p)" using Cons.prems(1) by (auto simp: pipe_inv_def rings_inv_def)
  obtain k e where e: "engine_submit (pp_engine p) m = (k, e)" by force
  have k: "k" using submit_ring(2) [OF ok e] Cons.prems(2) by simp
  obtain p1 where p1: "pipeline_submit p m = (True, p1)" "pp_engine p1 = e" "pp_drain_alive p1 = pp_drain_alive p"
    using e k by (auto simp: pipeline_submit_def submit_with_ts_def Let_def)
  have sw: "submit_with_ts p m 0 = (True, p1)" using p1(1) by (simp add: pipeline_submit_def)
  have i1: "pipe_inv B0 p1 (acc @ [m]) fl" using submit_pipe_inv [OF Cons.prems(1), of m 0] by (simp add: sw)
  have f1: "pp_running p1 = pp_running p" "pp_engine_alive p1 = pp_engine_alive p" "pp_engine_running p1 = pp_engine_running p"
    using submit_flags [of p m 0] by (simp_all add: sw)
  have q1: "inq e = inq (pp_engine p) @ [m]" "outq e = outq (pp_engine p)" using submit_ring(3,4) [OF ok e] k by simp_all
  have "length (inq (pp_engine p1)) + length ms \<le> queue_room" using Cons.prems(2) by (simp add: p1(2) q1)
  from Cons.IH [OF i1 this] obtain as p' where
    r: "submit_stream p1 ms as p'" "pipe_inv B0 p' (acc @ m # ms) fl" "inq (pp_engine p') = inq (pp_engine p) @ m # ms"
      "outq (pp_engine p') = outq (pp_engine p)" "pp_running p' = pp_running p" "pp_engine_running p' = pp_engine_running p"
      "pp_engine_alive p' = pp_engine_alive p" "pp_drain_alive p' = pp_drain_alive p" "run_fills p1 as = []"
    by (auto simp: p1(2,3) q1 f1)
  have "run_fills p (ActSubmit m 0 # as) = []" using r(9) by (simp add: sw act_fills_def)
  with stream_sent [OF p1(1) r(1)] r(2-8) show ?case by blast
qed

lemma engine_finishes:
  assumes g: "books_good B0 A0" and f: "msgs_fresh A0 acc"
  shows "pipe_inv B0 p acc fl \<Longrightarrow> pp_engine_alive p \<Longrightarrow> \<not> pp_engine_running p \<Longrightarrow> \<exists>p'. pipe_run p (replicate (Suc (length (inq (pp_engine p)))) ActEngine) = Some p' \<and>
    \<not> pp_engine_alive p' \<and> pp_running p' = pp_running p \<and> pp_drain_alive p' = pp_drain_alive p \<and>
    run_fills p (replicate (Suc (length (inq (pp_engine p)))) ActEngine) = []"
proof (induction "inq (pp_engine p)" arbitrary: p)
  case Nil
  have "rings_ok (pp_engine p)" using Nil(2) by (auto simp: pipe_inv_def rings_inv_def)
  then show ?case
    by (cases rule: pop_inbound) (use Nil in \<open>auto simp: engine_turn_def act_fills_def\<close>)
next
  case (Cons m ms)
  have ok: "rings_ok (pp_engine p)" using Cons.prems(1) by (auto simp: pipe_inv_def rings_inv_def)
  from turn_returns [OF g Cons.prems(1) f, of ActEngine] obtain p1 where p1: "engine_turn p = Some p1" by auto
  from ok obtain q e where e: "p1 = p\<lparr>pp_engine := e\<rparr>" "inq e = ms"
  proof (cases rule: pop_inbound)
    case (msg m' ms' q)
    then obtain e where e: "process_message ((pp_engine p)\<lparr>en_inbound := q\<rparr>) m' = Some e" "p1 = p\<lparr>pp_engine := e\<rparr>"
      using p1 Cons.prems(2,3) by (auto simp: engine_turn_def)
    have "inq e = ms'" using process_message_ring [OF msg(3) e(1)] msg(4) by metis
    with e(2) msg(2) Cons.hyps(2) [symmetric] that show thesis by simp
  qed (use Cons.hyps(2) in simp)
  from Cons.hyps(1) [of p1] engine_pipe_inv [OF Cons.prems(1) p1] Cons.prems(2,3) obtain p' where
    "pipe_run p1 (replicate (Suc (length ms)) ActEngine) = Some p'" "\<not> pp_engine_alive p'" "pp_running p' = pp_running p"
      "pp_drain_alive p' = pp_drain_alive p" "run_fills p1 (replicate (Suc (length ms)) ActEngine) = []"
    by (auto simp: e)
  then show ?case using p1 by (simp add: act_fills_def flip: Cons.hyps(2))
qed

lemma stop_at_once:
  assumes inv: "pipe_inv (start_books s) p acc []" and fresh: "msgs_fresh (start_abooks s) acc" and o: "outq (pp_engine p) = []"
    and st: "pp_running p" "pp_engine_alive p" "pp_drain_alive p"
  shows "\<exists>as p'. pipeline_stop p as p' \<and> run_fills p as = []"
proof -
  let ?p3 = "p\<lparr>pp_running := False\<rparr>"
  let ?p4 = "drain_turn ?p3 0 0"
  have ok: "rings_ok (pp_engine p)" using inv by (auto simp: pipe_inv_def rings_inv_def)
  obtain r e where po: "poll_report (pp_engine p) = (r, e)" by force
  have r: "r = None" using poll_ring(2) [OF ok po] o by simp
  have p4: "?p4 = ?p3\<lparr>pp_engine := e, pp_drain_alive := False\<rparr>" using st(3) by (simp add: drain_turn_def po r Let_def)
  let ?p5 = "?p4\<lparr>pp_engine_running := False\<rparr>"
  have fl: "act_fills p ActStop = []" "act_fills ?p3 (ActDrain 0 0) = []" "act_fills ?p4 ActStopEngine = []"
    using st(3) by (simp_all add: act_fills_def po r)
  have i4: "pipe_inv (start_books s) ?p4 acc []"
    using drain_pipe_inv [of "start_books s" ?p3 acc "[]" 0 0] pipe_inv_flags [OF inv, of ?p3] fl(2) by (simp add: counts_inv_def)
  have i5: "pipe_inv (start_books s) ?p5 acc []" by (rule pipe_inv_flags [OF i4]) (simp_all add: counts_inv_def)
  have a5: "pp_engine_alive ?p5" "\<not> pp_engine_running ?p5" "\<not> pp_drain_alive ?p5" using st(2) by (simp_all add: p4)
  from engine_finishes [OF start_books_good fresh i5 a5(1,2)] a5(3) obtain p6 n where
    p6: "pipe_run ?p5 (replicate n ActEngine) = Some p6" "\<not> pp_engine_alive p6" "\<not> pp_drain_alive p6"
      "run_fills ?p5 (replicate n ActEngine) = []" by blast
  have run: "pipe_run p (ActStop # [ActDrain 0 0] @ ActStopEngine # replicate n ActEngine) = Some p6"
    using p6(1) st(1) by (simp add: p4)
  have "pipeline_stop p (ActStop # [ActDrain 0 0] @ ActStopEngine # replicate n ActEngine @ [ActJoin]) (finish_stop p6)"
    by (rule stop_running [OF st(1) _ run p6(2,3)]) (auto simp: other_turn_def)
  moreover have "run_fills p (ActStop # [ActDrain 0 0] @ ActStopEngine # replicate n ActEngine @ [ActJoin]) = []"
  proof -
    have "run_fills ?p5 (replicate n ActEngine @ [ActJoin]) = []"
      using run_fills_append [OF p6(1), of "[ActJoin]"] p6(4) by (simp add: act_fills_def)
    then show ?thesis using st(1) fl by (simp add: p4)
  qed
  ultimately show ?thesis by blast
qed

lemma lossy_stop:
  assumes fd: "fd \<ge> 0" and s: "unat s < kMaxSymbols" and fresh: "msgs_fresh (start_abooks s) ms" and few: "length ms \<le> queue_room"
  shows "\<exists>as p'. run_stream (pipeline_init s) fd ms as p' \<and> run_fills (started s fd) as = []"
proof -
  note I = started_inv [OF fd s]
  have q0: "inq (pp_engine (started s fd)) = []" "outq (pp_engine (started s fd)) = []"
    using I(1) by (auto simp: pipe_inv_def rings_inv_def)
  have "length (inq (pp_engine (started s fd))) + length ms \<le> queue_room" using few q0 by simp
  from submit_all_first [OF I(1) this] obtain as1 p2 where
    P: "submit_stream (started s fd) ms as1 p2" "pipe_inv (start_books s) p2 ms []" "outq (pp_engine p2) = []"
      "pp_running p2" "pp_engine_alive p2" "pp_drain_alive p2" "run_fills (started s fd) as1 = []"
    using I(2-5) q0 by auto
  from stop_at_once [OF P(2) fresh P(3-6)] obtain as3 p' where st: "pipeline_stop p2 as3 p'" "run_fills p2 as3 = []" by blast
  from run_started [OF started_start [OF fd] P(1) wait_timeout st(1)]
  have "run_stream (pipeline_init s) fd ms (as1 @ [] @ as3) p'" .
  moreover have "run_fills (started s fd) (as1 @ [] @ as3) = []"
    using submit_stream_run [OF P(1)] P(7) st(2) by (simp add: run_fills_append [of "started s fd" as1 p2])
  ultimately show ?thesis by blast
qed

section \<open>Streams that catch up\<close>

lemma quiet_turn_stat:
  assumes q: "quiet_inv p" and t: "pipe_turn p a = Some p'" and n: "no_submit [a]"
  shows "en_stat_messages (pp_engine p') = en_stat_messages (pp_engine p)"
proof (cases a)
  case (ActSubmit m ts)
  with n show ?thesis by simp
next
  case ActEngine
  have ok: "rings_ok (pp_engine p)" using q by (simp add: quiet_inv_def)
  from ok obtain q0 where e: "spsc_try_pop kQueueDepth (en_inbound (pp_engine p)) = (None, q0)"
    by (cases rule: pop_inbound) (use q in \<open>auto simp: quiet_inv_def\<close>)
  then show ?thesis using t ActEngine by (auto simp: engine_turn_def engine_step_def split: if_splits)
next
  case (ActDrain ts wn)
  have ok: "rings_ok (pp_engine p)" using q by (simp add: quiet_inv_def)
  obtain r e where po: "poll_report (pp_engine p) = (r, e)" by force
  have p': "p' = drain_turn p ts wn" using t ActDrain by simp
  show ?thesis using poll_ring(7) [OF ok po] by (simp add: p' drain_turn_engine po)
qed (use t in \<open>auto simp: finish_stop_def Let_def split: if_splits\<close>)

lemma quiet_run_stat:
  "quiet_inv p \<Longrightarrow> pipe_run p as = Some p' \<Longrightarrow> no_submit as \<Longrightarrow> en_stat_messages (pp_engine p') = en_stat_messages (pp_engine p)"
proof (induction as arbitrary: p)
  case (Cons a as)
  then obtain p1 where p1: "pipe_turn p a = Some p1" "pipe_run p1 as = Some p'" by (auto simp: bind_eq_Some_conv)
  have n: "no_submit [a]" "no_submit as" using Cons.prems(3) by auto
  show ?case
    using Cons.IH [OF quiet_turn [OF Cons.prems(1) p1(1) n(1)] p1(2) n(2)] quiet_turn_stat [OF Cons.prems(1) p1(1) n(1)] by simp
qed simp

text \<open>
  A session: everything submitted, the count reached, the pipeline stopped. Both counts of the result
  are then those of the engine.
\<close>

lemma session_counts:
  assumes fd: "fd \<ge> 0" and s: "unat s < kMaxSymbols" and few: "length ms < 2 ^ 64"
    and sub: "submit_stream (started s fd) ms as1 p2" and w: "wait_until_drained (of_nat (length ms)) p2 as2 True p3"
    and st: "pipeline_stop p3 as3 p'"
  shows "pr_engine_messages (pp_result p') = of_nat (length ms)" "en_stat_messages (pp_engine p') = of_nat (length ms)"
    "pipe_run (started s fd) (as1 @ as2 @ as3) = Some p'" "run_accepts (started s fd) (as1 @ as2 @ as3) = ms"
proof -
  note S = submit_stream_run [OF sub] and I = started_inv [OF fd s] and W0 = wait_run [OF w] and T = stop_run [OF st]
  from wait_caught [OF w] obtain bs q cs where W: "as2 = bs @ cs" "pipe_run p2 bs = Some q"
    "of_nat (length ms) \<le> en_stat_messages (pp_engine q)" "pipe_run q cs = Some p3" "\<forall>a\<in>set as2. other_turn a" by blast
  have "\<not> other_turn ActStop" by (simp add: other_turn_def)
  then have ns: "no_submit bs" "no_submit cs" "ActStop \<notin> set (as1 @ bs)" using others_no_submit [OF W(5)] W(1,5) S by auto
  have run: "pipe_run (started s fd) (as1 @ bs) = Some q" using S W(2) by (simp add: pipe_run_append)
  have acc: "run_accepts (started s fd) (as1 @ bs) = ms"
    using S run_accepts_append [of "started s fd" as1 p2 bs] by (simp add: no_submit_accepts [OF ns(1)])
  have inv: "pipe_inv (start_books s) q ms (run_fills (started s fd) (as1 @ bs))"
    using run_pipe_inv [OF I(1) run] by (simp add: acc)
  have "pp_drain_alive q" using run_drain_alive [OF run I(1,5,4) ns(3)] by blast
  note Q = caught_up_quiet [OF inv W(3) few this]
  from inv obtain dn rs n where D: "rings_inv (start_books s) (pp_engine q) ms dn rs (map fst (run_fills (started s fd) (as1 @ bs)))"
    "n \<le> length dn" "en_stat_messages (pp_engine q) = of_nat n" by (auto simp: pipe_inv_def msgs_inv_def)
  have "ms = dn" using D(1) Q by (simp add: rings_inv_def quiet_inv_def)
  moreover have "unat (of_nat n :: u64) = n" "unat (of_nat (length ms) :: u64) = length ms"
    using D(2) \<open>ms = dn\<close> few by (simp_all add: unsigned_of_nat take_bit_nat_eq_self)
  ultimately have "en_stat_messages (pp_engine q) = of_nat (length ms)" using D(2,3) W(3) by (simp add: word_le_nat_alt)
  then show stat: "en_stat_messages (pp_engine p') = of_nat (length ms)"
    using quiet_run_stat [OF quiet_run [OF Q W(4) ns(2)] T] quiet_run_stat [OF Q W(4) ns(2)] by simp
  have "pp_running p3" using submit_stream_running [OF sub] wait_running [OF w] I(5) by simp
  then show "pr_engine_messages (pp_result p') = of_nat (length ms)"
    using stat by (cases rule: pipeline_stopE [OF st]) (auto simp: finish_stop_def Let_def)
  show "pipe_run (started s fd) (as1 @ as2 @ as3) = Some p'" using S W0 T(1) by (simp add: pipe_run_append)
  show "run_accepts (started s fd) (as1 @ as2 @ as3) = ms"
    using S run_accepts_append [of "started s fd" as1 p2 "as2 @ as3"] others_no_submit [OF W(5)] T(2)
    by (simp add: no_submit_accepts)
qed

lemma session_exists:
  assumes fd: "fd \<ge> 0" and s: "unat s < kMaxSymbols" and fresh: "msgs_fresh (start_abooks s) ms"
  shows "\<exists>as1 p2 as2 p3 as3 p'. submit_stream (started s fd) ms as1 p2 \<and> wait_until_drained (of_nat (length ms)) p2 as2 True p3 \<and>
    pipeline_stop p3 as3 p'"
proof -
  note I = started_inv [OF fd s]
  have i0: "inq (pp_engine (started s fd)) = []" using I(1) by (auto simp: pipe_inv_def rings_inv_def)
  have "msgs_fresh (start_abooks s) ([] @ ms)" using fresh by simp
  from submit_stream_exists [OF start_books_good I(1) this I(5,3,2) i0] obtain as1 p2 where
    s2: "submit_stream (started s fd) ms as1 p2" "pipe_inv (start_books s) p2 ms []" "pp_running p2" "pp_engine_alive p2"
      "inq (pp_engine p2) = []" "pp_engine_running p2" by auto
  have ok: "rings_ok (pp_engine p2)" using s2(2) by (auto simp: pipe_inv_def rings_inv_def)
  have "en_stat_messages (pp_engine p2) = of_nat (length ms)"
    using s2(2,5,6) by (auto simp: pipe_inv_def rings_inv_def msgs_inv_def)
  then have "wait_until_drained (of_nat (length ms)) p2 [] True p2" by (intro wait_caught_up) simp_all
  with stop_exists [OF ok s2(3-5)] s2(1) show ?thesis by blast
qed

end
