(* ===== verification/Market_Maker.thy ===== *)
theory Market_Maker
  imports Engine_Types Containers "HOL-Library.Signed_Division"
begin

text \<open>
  \<^verbatim>\<open>hft::MarketMaker\<close>: inventory, average cost and realized profit from execution reports, and
  the quote around a reference price. Money and positions are the code's \<^verbatim>\<open>int64_t\<close> values as
  integers. A signed result outside of 64 bits, which C++ leaves undefined, sets the flag
  \<open>ms_overflow\<close> of the model: once it is set, the exact numbers beside it say nothing about the code. (The
  flag watches \<^verbatim>\<open>apply_fill\<close>; the sums of a quote are plain integers.) C++ division truncates towards
  zero and is undefined for a zero divisor, which is \<open>None\<close>. The one floating-point value, the price shift
  \<^verbatim>\<open>to_price(double(position) * inventory_skew)\<close>, is the argument \<open>skew\<close>.
\<close>

section \<open>State and operations\<close>

record mm_config =
  mc_half_spread :: price
  mc_position_limit :: int
  mc_quote_qty :: qty

record mm_stats =
  ms_position :: int
  ms_avg_cost_fp :: int
  ms_realized_pnl_fp :: int
  ms_fills :: u64
  ms_suppressed :: u64
  ms_overflow :: bool

record quote =
  q_bid :: price
  q_ask :: price

record market_maker =
  mm_symbol :: symbol_id
  mm_cfg :: mm_config
  mm_account_id :: u32
  mm_stats_of :: mm_stats
  mm_open_orders :: "(order_id, side) omap"

definition mm_stats_zero :: mm_stats where
  "mm_stats_zero = \<lparr>ms_position = 0, ms_avg_cost_fp = 0, ms_realized_pnl_fp = 0, ms_fills = 0, ms_suppressed = 0,
     ms_overflow = False\<rparr>"

definition mm_init :: "symbol_id \<Rightarrow> mm_config \<Rightarrow> u32 \<Rightarrow> market_maker" where
  "mm_init s cfg acct = \<lparr>mm_symbol = s, mm_cfg = cfg, mm_account_id = acct, mm_stats_of = mm_stats_zero,
     mm_open_orders = []\<rparr>"

definition compute_quote :: "(int \<Rightarrow> price) \<Rightarrow> market_maker \<Rightarrow> price \<Rightarrow> quote \<times> market_maker" where
  "compute_quote skew mm mid =
    (let st = mm_stats_of mm; cfg = mm_cfg mm;
         reservation = mid - skew (ms_position st);
         q0 = \<lparr>q_bid = PRICE_INVALID, q_ask = PRICE_INVALID\<rparr>;
         q = uint (mc_quote_qty cfg);
         (q1, st1) = (if ms_position st + q \<le> mc_position_limit cfg
           then (q0\<lparr>q_bid := reservation - mc_half_spread cfg\<rparr>, st)
           else (q0, st\<lparr>ms_suppressed := ms_suppressed st + 1\<rparr>));
         (q2, st2) = (if ms_position st1 - q \<ge> - mc_position_limit cfg
           then (q1\<lparr>q_ask := reservation + mc_half_spread cfg\<rparr>, st1)
           else (q1, st1\<lparr>ms_suppressed := ms_suppressed st1 + 1\<rparr>))
     in (q2, mm\<lparr>mm_stats_of := st2\<rparr>))"

definition register_order :: "market_maker \<Rightarrow> order_id \<Rightarrow> side \<Rightarrow> market_maker" where
  "register_order mm oid sd = mm\<lparr>mm_open_orders := omap_put oid sd (mm_open_orders mm)\<rparr>"

definition signed_qty :: "side \<Rightarrow> qty \<Rightarrow> int" where
  "signed_qty sd q = (if sd = Buy then uint q else - uint q)"

definition in_int64 :: "int \<Rightarrow> bool" where
  "in_int64 x \<longleftrightarrow> - (2 ^ 63) \<le> x \<and> x < 2 ^ 63"

text \<open>The signed results the two branches of \<^verbatim>\<open>apply_fill\<close> compute on their way.\<close>

definition extend_results :: "mm_stats \<Rightarrow> price \<Rightarrow> int \<Rightarrow> int list" where
  "extend_results st p sq =
    (let old = ms_position st; avg = ms_avg_cost_fp st
     in [old + sq, avg * old, p * sq, avg * old + p * sq, (avg * old + p * sq) sdiv (old + sq)])"

definition reduce_results :: "mm_stats \<Rightarrow> price \<Rightarrow> int \<Rightarrow> int list" where
  "reduce_results st p sq =
    (let old = ms_position st; closing = min \<bar>sq\<bar> \<bar>old\<bar>; direction = (if old > 0 then 1 else - 1);
         gain = direction * closing * (p - ms_avg_cost_fp st)
     in [\<bar>sq\<bar>, \<bar>old\<bar>, direction * closing, p - ms_avg_cost_fp st, gain, ms_realized_pnl_fp st + gain, old + sq])"

definition apply_fill :: "mm_stats \<Rightarrow> side \<Rightarrow> price \<Rightarrow> qty \<Rightarrow> mm_stats option" where
  "apply_fill st sd p q =
    (let sq = signed_qty sd q; old = ms_position st
     in if old = 0 \<or> (old > 0) = (sq > 0) then
          (let new = old + sq
           in if new = 0 then None
              else Some (st\<lparr>ms_avg_cost_fp := (ms_avg_cost_fp st * old + p * sq) sdiv new, ms_position := new,
                ms_overflow := (ms_overflow st \<or> \<not> list_all in_int64 (extend_results st p sq))\<rparr>))
        else
          (let closing = min \<bar>sq\<bar> \<bar>old\<bar>; direction = (if old > 0 then 1 else - 1);
               st1 = st\<lparr>ms_realized_pnl_fp := ms_realized_pnl_fp st + direction * closing * (p - ms_avg_cost_fp st),
                 ms_position := old + sq,
                 ms_overflow := (ms_overflow st \<or> \<not> list_all in_int64 (reduce_results st p sq))\<rparr>
           in if ms_position st1 = 0 then Some (st1\<lparr>ms_avg_cost_fp := 0\<rparr>)
              else if (ms_position st1 > 0) \<noteq> (direction > 0) then Some (st1\<lparr>ms_avg_cost_fp := p\<rparr>)
              else Some st1))"

definition mm_on_fill :: "market_maker \<Rightarrow> exec_report \<Rightarrow> (bool \<times> market_maker) option" where
  "mm_on_fill mm rpt =
    (let oo = mm_open_orders mm;
         (found, matched) = (case map_of oo (er_order_id rpt) of
             Some sd \<Rightarrow> (Some sd, er_order_id rpt)
           | None \<Rightarrow> (map_of oo (er_contra_order_id rpt), er_contra_order_id rpt))
     in case found of
          None \<Rightarrow> Some (False, mm)
        | Some sd \<Rightarrow>
            map_option (\<lambda>st. (True, mm\<lparr>mm_stats_of := st\<lparr>ms_fills := ms_fills st + 1\<rparr>,
              mm_open_orders := (if er_leaves_qty rpt = 0 then omap_del matched oo else oo)\<rparr>))
              (apply_fill (mm_stats_of mm) sd (er_exec_price rpt) (er_exec_qty rpt)))"

definition unrealized_pnl :: "mm_stats \<Rightarrow> price \<Rightarrow> int" where
  "unrealized_pnl st mark =
    (if ms_position st = 0 then 0 else ms_position st * (mark - ms_avg_cost_fp st))"

section \<open>Truncating division\<close>

lemma sdiv_rem_bound:
  assumes "(b::int) \<noteq> 0"
  shows "\<bar>a - b * (a sdiv b)\<bar> < \<bar>b\<bar>"
proof -
  have "a - b * (a sdiv b) = a smod b" by (rule minus_mult_sdiv_eq_smod)
  then have "\<bar>a - b * (a sdiv b)\<bar> = \<bar>sgn a\<bar> * (\<bar>a\<bar> mod \<bar>b\<bar>)"
    using assms by (simp add: signed_modulo_int_def abs_mult)
  also have "\<dots> \<le> \<bar>a\<bar> mod \<bar>b\<bar>" using assms by (simp add: abs_sgn_eq)
  also have "\<dots> < \<bar>b\<bar>" using assms by simp
  finally show ?thesis .
qed

lemma sdiv_exact: "(b::int) \<noteq> 0 \<Longrightarrow> (a * b) sdiv b = a"
proof -
  assume b: "b \<noteq> 0"
  have "(a * b) smod b = 0" by (simp add: signed_modulo_int_def abs_mult)
  with sdiv_mult_smod_eq [of "a * b" b] b show ?thesis by simp
qed

section \<open>Accounting\<close>

text \<open>The cash of a fill: what a purchase pays (negative) or a sale receives.\<close>

definition fill_cash :: "side \<Rightarrow> price \<Rightarrow> qty \<Rightarrow> int" where
  "fill_cash sd p q = - (signed_qty sd q * p)"

text \<open>
  \<open>cost_gap st cash\<close>: realized profit against cash plus the position at its average cost. It is zero
  when no division has lost a remainder.
\<close>

definition cost_gap :: "mm_stats \<Rightarrow> int \<Rightarrow> int" where
  "cost_gap st cash = ms_realized_pnl_fp st - (cash + ms_position st * ms_avg_cost_fp st)"

lemma apply_fill_cases:
  assumes "apply_fill st sd p q = Some st'"
  obtains (extend) "ms_position st = 0 \<or> (ms_position st > 0) = (signed_qty sd q > 0)"
      "ms_position st + signed_qty sd q \<noteq> 0" "ms_position st' = ms_position st + signed_qty sd q"
      "ms_avg_cost_fp st' = (ms_avg_cost_fp st * ms_position st + p * signed_qty sd q) sdiv ms_position st'"
      "ms_realized_pnl_fp st' = ms_realized_pnl_fp st"
  | (reduce) "ms_position st \<noteq> 0" "(ms_position st > 0) \<noteq> (signed_qty sd q > 0)" "ms_position st' = ms_position st + signed_qty sd q"
      "\<bar>signed_qty sd q\<bar> \<le> \<bar>ms_position st\<bar>"
      "ms_realized_pnl_fp st' = ms_realized_pnl_fp st - signed_qty sd q * (p - ms_avg_cost_fp st)"
      "ms_avg_cost_fp st' = (if ms_position st' = 0 then 0 else ms_avg_cost_fp st)"
  | (flip) "ms_position st \<noteq> 0" "(ms_position st > 0) \<noteq> (signed_qty sd q > 0)" "ms_position st' = ms_position st + signed_qty sd q"
      "\<bar>ms_position st\<bar> < \<bar>signed_qty sd q\<bar>"
      "ms_realized_pnl_fp st' = ms_realized_pnl_fp st + ms_position st * (p - ms_avg_cost_fp st)" "ms_avg_cost_fp st' = p"
proof (cases "ms_position st = 0 \<or> (ms_position st > 0) = (signed_qty sd q > 0)")
  case True
  then show ?thesis using assms extend by (auto simp: apply_fill_def Let_def split: if_splits)
next
  case False
  let ?sq = "signed_qty sd q" let ?old = "ms_position st"
  let ?dir = "if ?old > 0 then 1 else - 1 :: int"
  have dir: "?dir * min \<bar>?sq\<bar> \<bar>?old\<bar> = (if \<bar>?sq\<bar> \<le> \<bar>?old\<bar> then - ?sq else ?old)"
    using False by (auto simp: min_def abs_if split: if_splits)
  have st': "ms_position st' = ?old + ?sq" "ms_realized_pnl_fp st' = ms_realized_pnl_fp st + ?dir * min \<bar>?sq\<bar> \<bar>?old\<bar> * (p - ms_avg_cost_fp st)"
    "ms_avg_cost_fp st' = (if ?old + ?sq = 0 then 0 else if (?old + ?sq > 0) \<noteq> (?dir > 0) then p else ms_avg_cost_fp st)"
    using assms False by (auto simp: apply_fill_def Let_def split: if_splits)
  show ?thesis
  proof (cases "\<bar>?sq\<bar> \<le> \<bar>?old\<bar>")
    case True
    have "(?old + ?sq > 0) = (?dir > 0)" if "?old + ?sq \<noteq> 0"
      using True False that by (auto simp: abs_if split: if_splits)
    then have "ms_avg_cost_fp st' = (if ms_position st' = 0 then 0 else ms_avg_cost_fp st)"
      unfolding st'(3) st'(1) by auto
    with reduce False True st'(1,2) show ?thesis unfolding dir by auto
  next
    case not: False
    have "?old + ?sq \<noteq> 0" "(?old + ?sq > 0) \<noteq> (?dir > 0)"
      using not False by (auto simp: abs_if split: if_splits)
    then have "ms_avg_cost_fp st' = p" unfolding st'(3) by auto
    with flip False not st'(1,2) show ?thesis unfolding dir by auto
  qed
qed

lemma apply_fill_gap:
  assumes "apply_fill st sd p q = Some st'"
  shows "\<bar>cost_gap st' (cash + fill_cash sd p q) - cost_gap st cash\<bar> < max 1 \<bar>ms_position st'\<bar>"
  using assms
proof (cases rule: apply_fill_cases)
  case extend
  let ?num = "ms_avg_cost_fp st * ms_position st + p * signed_qty sd q"
  have "cost_gap st' (cash + fill_cash sd p q) - cost_gap st cash = ?num - ms_position st' * (?num sdiv ms_position st')"
    by (simp add: cost_gap_def fill_cash_def extend(4,5) algebra_simps)
  moreover have "ms_position st' \<noteq> 0" using extend(2,3) by simp
  from sdiv_rem_bound [OF this, of ?num] have "\<bar>?num - ms_position st' * (?num sdiv ms_position st')\<bar> < \<bar>ms_position st'\<bar>" .
  ultimately show ?thesis by linarith
next
  case reduce
  have "ms_position st' * ms_avg_cost_fp st' = ms_position st' * ms_avg_cost_fp st" using reduce(6) by simp
  then have "cost_gap st' (cash + fill_cash sd p q) - cost_gap st cash = 0"
    unfolding cost_gap_def reduce(5) fill_cash_def by (simp add: reduce(3) algebra_simps)
  then show ?thesis by simp
next
  case flip
  then have "cost_gap st' (cash + fill_cash sd p q) - cost_gap st cash = 0"
    by (simp add: cost_gap_def fill_cash_def algebra_simps)
  then show ?thesis by simp
qed

section \<open>Runs of fills\<close>

fun apply_fills :: "mm_stats \<Rightarrow> (side \<times> price \<times> qty) list \<Rightarrow> mm_stats option" where
  "apply_fills st [] = Some st"
| "apply_fills st ((sd, p, q) # fs) = Option.bind (apply_fill st sd p q) (\<lambda>st'. apply_fills st' fs)"

definition fills_cash :: "(side \<times> price \<times> qty) list \<Rightarrow> int" where
  "fills_cash fs = sum_list (map (\<lambda>(sd, p, q). fill_cash sd p q) fs)"

definition fills_position :: "(side \<times> price \<times> qty) list \<Rightarrow> int" where
  "fills_position fs = sum_list (map (\<lambda>(sd, p, q). signed_qty sd q) fs)"

lemma apply_fill_position: "apply_fill st sd p q = Some st' \<Longrightarrow> ms_position st' = ms_position st + signed_qty sd q"
  by (erule apply_fill_cases)

lemma apply_fill_returns: "q \<noteq> 0 \<Longrightarrow> \<exists>st'. apply_fill st sd p q = Some st'"
proof -
  assume "q \<noteq> 0"
  then have "signed_qty sd q \<noteq> 0" by (simp add: signed_qty_def uint_0_iff)
  then show ?thesis by (auto simp: apply_fill_def Let_def)
qed

lemma apply_fills_returns: "\<forall>(sd, p, q)\<in>set fs. q \<noteq> 0 \<Longrightarrow> \<exists>st'. apply_fills st fs = Some st'"
proof (induction fs arbitrary: st)
  case (Cons f fs)
  obtain sd p q where f: "f = (sd, p, q)" by (metis prod_cases3)
  with Cons.prems apply_fill_returns [of q st sd p] obtain st1 where "apply_fill st sd p q = Some st1" by auto
  with Cons f show ?case by auto
qed simp

lemma apply_fills_position: "apply_fills st fs = Some st' \<Longrightarrow> ms_position st' = ms_position st + fills_position fs"
  by (induction fs arbitrary: st) (auto simp: fills_position_def bind_eq_Some_conv dest!: apply_fill_position)

lemma apply_fills_gap:
  "apply_fills st fs = Some st' \<Longrightarrow> \<forall>(sd, p, q)\<in>set fs. unat q \<le> n \<Longrightarrow> \<bar>ms_position st\<bar> \<le> int m \<Longrightarrow>
    \<bar>cost_gap st' (cash + fills_cash fs) - cost_gap st cash\<bar> \<le> int (length fs * (m + length fs * n))"
proof (induction fs arbitrary: st cash m)
  case (Cons f fs)
  obtain sd p q where f: "f = (sd, p, q)" by (metis prod_cases3)
  from Cons.prems(1) f obtain st1 where st1: "apply_fill st sd p q = Some st1" "apply_fills st1 fs = Some st'"
    by (auto simp: bind_eq_Some_conv)
  have q: "unat q \<le> n" using Cons.prems(2) f by auto
  have p1: "\<bar>ms_position st1\<bar> \<le> int (m + n)"
  proof -
    have "uint q = int (unat q)" by (rule uint_nat)
    then have "0 \<le> uint q" "uint q \<le> int n" using q by linarith+
    then have "\<bar>signed_qty sd q\<bar> \<le> int n" by (simp add: signed_qty_def)
    then show ?thesis using apply_fill_position [OF st1(1)] Cons.prems(3) by linarith
  qed
  have g1: "\<bar>cost_gap st1 (cash + fill_cash sd p q) - cost_gap st cash\<bar> \<le> int (m + n)"
    using apply_fill_gap [OF st1(1), of cash] p1 by linarith
  have g2: "\<bar>cost_gap st' (cash + fill_cash sd p q + fills_cash fs) - cost_gap st1 (cash + fill_cash sd p q)\<bar>
      \<le> int (length fs * (m + n + length fs * n))"
    using Cons.IH [OF st1(2) _ p1] Cons.prems(2) by auto
  have eq: "cash + fills_cash (f # fs) = cash + fill_cash sd p q + fills_cash fs" by (simp add: fills_cash_def f)
  have "\<bar>cost_gap st' (cash + fills_cash (f # fs)) - cost_gap st cash\<bar> \<le> int (m + n) + int (length fs * (m + n + length fs * n))"
    unfolding eq using g1 g2 by linarith
  also have "\<dots> \<le> int (length (f # fs) * (m + length (f # fs) * n))" by (simp add: algebra_simps)
  finally show ?case .
qed (simp add: cost_gap_def fills_cash_def)

text \<open>Purchases at one price keep that price as the average, so their sale realizes the exact difference.\<close>

lemma same_price_exact:
  assumes "apply_fill st sd p q = Some st'" "ms_position st = 0 \<or> (ms_position st > 0) = (signed_qty sd q > 0) \<and> ms_avg_cost_fp st = p"
  shows "ms_avg_cost_fp st' = p \<and> ms_realized_pnl_fp st' = ms_realized_pnl_fp st"
  using assms(1)
proof (cases rule: apply_fill_cases)
  case extend
  have "ms_avg_cost_fp st * ms_position st + p * signed_qty sd q = p * ms_position st'"
    using assms(2) extend(3) by (auto simp: algebra_simps)
  moreover have "ms_position st' \<noteq> 0" using extend(2,3) by simp
  ultimately show ?thesis using extend(4,5) sdiv_exact [of "ms_position st'" p] by simp
qed (use assms(2) in auto)

section \<open>Staying inside 64 bits\<close>

lemma in_int64I: "\<bar>x\<bar> \<le> b \<Longrightarrow> b < 2 ^ 63 \<Longrightarrow> in_int64 x"
  unfolding in_int64_def by linarith

lemma apply_fill_overflow:
  assumes "apply_fill st sd p q = Some st'"
  shows "ms_overflow st' \<longleftrightarrow> ms_overflow st \<or> \<not> list_all in_int64
    (if ms_position st = 0 \<or> (ms_position st > 0) = (signed_qty sd q > 0) then extend_results st p (signed_qty sd q)
     else reduce_results st p (signed_qty sd q))"
  using assms by (auto simp: apply_fill_def Let_def split: if_splits)

lemma abs_signed_qty: "\<bar>signed_qty sd q\<bar> = uint q"
  by (simp add: signed_qty_def)

lemma sdiv_abs_le: "(b::int) \<noteq> 0 \<Longrightarrow> \<bar>a\<bar> \<le> c * \<bar>b\<bar> \<Longrightarrow> \<bar>a sdiv b\<bar> \<le> c"
proof -
  assume b: "b \<noteq> 0" "\<bar>a\<bar> \<le> c * \<bar>b\<bar>"
  have "\<bar>a sdiv b\<bar> \<le> \<bar>a\<bar> div \<bar>b\<bar>" using b(1) by (simp add: signed_divide_int_def abs_mult abs_sgn_eq pos_imp_zdiv_nonneg_iff)
  also have "\<dots> \<le> (c * \<bar>b\<bar>) div \<bar>b\<bar>" using b by (intro zdiv_mono1) simp_all
  finally show ?thesis using b(1) by simp
qed

text \<open>Fills of at most \<open>n\<close> at prices of at most \<open>P\<close>, after \<open>k\<close> of them.\<close>

definition money_ok :: "int \<Rightarrow> int \<Rightarrow> int \<Rightarrow> mm_stats \<Rightarrow> bool" where
  "money_ok P n k st \<longleftrightarrow> \<not> ms_overflow st \<and> \<bar>ms_position st\<bar> \<le> k * n \<and> \<bar>ms_avg_cost_fp st\<bar> \<le> P \<and> \<bar>ms_realized_pnl_fp st\<bar> \<le> k * (2 * P * n)"

lemma money_ok_step:
  assumes ok: "money_ok P n k st" and f: "apply_fill st sd p q = Some st'" and q: "uint q \<le> n" and p: "\<bar>p\<bar> \<le> P"
    and b: "0 \<le> k" "1 \<le> n" "(2 * P + 1) * ((k + 1) * n) < 2 ^ 63"
  shows "money_ok P n (k + 1) st'"
proof -
  let ?sq = "signed_qty sd q" and ?old = "ms_position st" and ?avg = "ms_avg_cost_fp st"
  have O: "\<not> ms_overflow st" "\<bar>?old\<bar> \<le> k * n" "\<bar>?avg\<bar> \<le> P" "\<bar>ms_realized_pnl_fp st\<bar> \<le> k * (2 * P * n)" using ok by (simp_all add: money_ok_def)
  have P: "0 \<le> P" using p by simp
  have sq: "\<bar>?sq\<bar> \<le> n" using q by (simp add: abs_signed_qty)
  have K: "(k + 1) * n = k * n + n" by (simp add: algebra_simps)
  have new: "\<bar>?old + ?sq\<bar> \<le> (k + 1) * n" using O(2) sq unfolding K by linarith
  have kn: "0 \<le> k * n" "1 \<le> (k + 1) * n" using b unfolding K by (simp_all add: add_increasing)
  have lim: "(k + 1) * n < 2 ^ 63" "P * ((k + 1) * n) < 2 ^ 63" "2 * P < 2 ^ 63" "(k + 1) * (2 * P * n) < 2 ^ 63"
  proof -
    have e: "(2 * P + 1) * ((k + 1) * n) = 2 * (P * ((k + 1) * n)) + (k + 1) * n" by (simp add: algebra_simps)
    have nn: "0 \<le> P * ((k + 1) * n)" using P kn by simp
    show "(k + 1) * n < 2 ^ 63" "P * ((k + 1) * n) < 2 ^ 63" using b(3) nn kn unfolding e by linarith+
    have "(k + 1) * (2 * P * n) = 2 * (P * ((k + 1) * n))" by (simp add: algebra_simps)
    then show "(k + 1) * (2 * P * n) < 2 ^ 63" using b(3) kn unfolding e by linarith
    have "2 * P * 1 \<le> 2 * P * ((k + 1) * n)" using P kn(2) by (intro mult_left_mono) simp_all
    then show "2 * P < 2 ^ 63" using b(3) kn unfolding e by linarith
  qed
  have pos: "ms_position st' = ?old + ?sq" by (rule apply_fill_position [OF f])
  show ?thesis
  proof (cases "?old = 0 \<or> (?old > 0) = (?sq > 0)")
    case True
    let ?num = "?avg * ?old + p * ?sq"
    from f True have e: "ms_avg_cost_fp st' = ?num sdiv (?old + ?sq)" "ms_realized_pnl_fp st' = ms_realized_pnl_fp st" "?old + ?sq \<noteq> 0"
      by (auto simp: apply_fill_def Let_def split: if_splits)
    have sum: "\<bar>?old\<bar> + \<bar>?sq\<bar> = \<bar>?old + ?sq\<bar>" using True e(3) by (auto simp: abs_if split: if_splits)
    have A: "\<bar>?avg * ?old\<bar> \<le> P * \<bar>?old\<bar>" "\<bar>p * ?sq\<bar> \<le> P * \<bar>?sq\<bar>" using O(3) p by (simp_all add: abs_mult mult_right_mono)
    have num: "\<bar>?num\<bar> \<le> P * \<bar>?old + ?sq\<bar>"
      unfolding sum [symmetric] distrib_left using abs_triangle_ineq [of "?avg * ?old" "p * ?sq"] A by linarith
    have n0: "0 \<le> k * n" "n \<le> (k + 1) * n" "k * n \<le> (k + 1) * n" using kn b unfolding K by linarith+
    have part: "P * \<bar>?old\<bar> \<le> P * ((k + 1) * n)" "P * \<bar>?sq\<bar> \<le> P * ((k + 1) * n)" "P * \<bar>?old + ?sq\<bar> \<le> P * ((k + 1) * n)"
      using O(2) sq new P n0 by (intro mult_left_mono; linarith)+
    have quot: "\<bar>?num sdiv (?old + ?sq)\<bar> \<le> P" by (rule sdiv_abs_le [OF e(3) num])
    have "list_all in_int64 (extend_results st p ?sq)"
      unfolding extend_results_def Let_def list.pred_inject
      using in_int64I [OF new lim(1)] in_int64I [OF order.trans [OF A(1) part(1)] lim(2)] in_int64I [OF order.trans [OF A(2) part(2)] lim(2)]
        in_int64I [OF order.trans [OF num part(3)] lim(2)] in_int64I [OF quot] lim(3) P by simp
    then have "\<not> ms_overflow st'" using apply_fill_overflow [OF f] True O(1) by simp
    moreover have "k * (2 * P * n) \<le> (k + 1) * (2 * P * n)" using P b by (intro mult_right_mono) simp_all
    ultimately show ?thesis using e(1,2) quot new pos O(4) by (simp add: money_ok_def)
  next
    case False
    let ?closing = "min \<bar>?sq\<bar> \<bar>?old\<bar>" and ?dir = "if ?old > 0 then 1 else - 1 :: int"
    let ?gain = "?dir * ?closing * (p - ?avg)"
    from f False have e: "ms_realized_pnl_fp st' = ms_realized_pnl_fp st + ?gain" "\<bar>ms_avg_cost_fp st'\<bar> \<le> P"
      using p O(3) P by (auto simp: apply_fill_def Let_def split: if_splits)
    have c: "\<bar>?dir * ?closing\<bar> \<le> n" "\<bar>p - ?avg\<bar> \<le> 2 * P" using sq p O(3) by auto
    have "\<bar>?gain\<bar> = \<bar>?dir * ?closing\<bar> * \<bar>p - ?avg\<bar>" by (rule abs_mult)
    also have "\<dots> \<le> n * (2 * P)" using c b(2) by (intro mult_mono) simp_all
    also have "\<dots> = 2 * P * n" by simp
    finally have g: "\<bar>?gain\<bar> \<le> 2 * P * n" .
    have K2: "(k + 1) * (2 * P * n) = k * (2 * P * n) + 2 * P * n" by (simp add: algebra_simps)
    have kp: "0 \<le> k * (2 * P * n)" using P b by simp
    have r: "\<bar>ms_realized_pnl_fp st + ?gain\<bar> \<le> (k + 1) * (2 * P * n)" using g O(4) unfolding K2 by linarith
    have n1: "n \<le> (k + 1) * n" "k * n \<le> (k + 1) * n" using kn b unfolding K by linarith+
    have i1: "in_int64 \<bar>?sq\<bar>" by (rule in_int64I [OF _ lim(1)]) (use sq n1 in simp)
    have i2: "in_int64 \<bar>?old\<bar>" by (rule in_int64I [OF _ lim(1)]) (use O(2) n1 in simp)
    have i3: "in_int64 (?dir * ?closing)" by (rule in_int64I [OF order.trans [OF c(1) n1(1)] lim(1)])
    have i5: "in_int64 ?gain" by (rule in_int64I [OF _ lim(4)]) (use g kp in \<open>unfold K2, linarith\<close>)
    have "list_all in_int64 (reduce_results st p ?sq)"
      unfolding reduce_results_def Let_def list.pred_inject
      using i1 i2 i3 in_int64I [OF c(2) lim(3)] i5 in_int64I [OF r lim(4)] in_int64I [OF new lim(1)] by (simp only: list.pred_inject simp_thms)
    then have "\<not> ms_overflow st'" using apply_fill_overflow [OF f] False O(1) by simp
    then show ?thesis using e r new pos by (simp add: money_ok_def)
  qed
qed

lemma money_ok_fills:
  "apply_fills st fs = Some st' \<Longrightarrow> money_ok P n k st \<Longrightarrow> \<forall>(sd, p, q)\<in>set fs. uint q \<le> n \<and> \<bar>p\<bar> \<le> P \<Longrightarrow>
    0 \<le> k \<Longrightarrow> 1 \<le> n \<Longrightarrow> 0 \<le> P \<Longrightarrow> (2 * P + 1) * ((k + int (length fs)) * n) < 2 ^ 63 \<Longrightarrow> \<not> ms_overflow st'"
proof (induction fs arbitrary: st k)
  case Nil
  then show ?case by (simp add: money_ok_def)
next
  case (Cons f fs)
  obtain sd p q where f: "f = (sd, p, q)" by (metis prod_cases3)
  from Cons.prems(1) f obtain st1 where st1: "apply_fill st sd p q = Some st1" "apply_fills st1 fs = Some st'"
    by (auto simp: bind_eq_Some_conv)
  have "(2 * P + 1) * ((k + 1) * n) \<le> (2 * P + 1) * ((k + int (length (f # fs))) * n)"
    using Cons.prems(5,6) by (intro mult_left_mono mult_right_mono) simp_all
  then have b: "(2 * P + 1) * ((k + 1) * n) < 2 ^ 63" using Cons.prems(7) by linarith
  have q: "uint q \<le> n" "\<bar>p\<bar> \<le> P" using Cons.prems(3) f by auto
  have "money_ok P n (k + 1) st1" by (rule money_ok_step [OF Cons.prems(2) st1(1) q Cons.prems(4,5) b])
  then show ?case by (rule Cons.IH [OF st1(2)]) (use Cons.prems(3-7) in \<open>simp_all add: add.assoc\<close>)
qed

text \<open>One fill of the largest quantity at $2200 is already too much.\<close>

lemma largest_fill_overflows:
  "\<exists>st. apply_fill mm_stats_zero Buy 2200000000 4294967295 = Some st \<and> ms_overflow st"
  by (simp add: apply_fill_def mm_stats_zero_def signed_qty_def extend_results_def in_int64_def Let_def)

end
