(* ===== verification/Hft_Spec.thy ===== *)
theory Hft_Spec
  imports Replay_Itch50 Pipeline_Stream Market_Maker
begin

text \<open>
  The properties of the integration layer \<^verbatim>\<open>include/hft\<close> and of its tools: the replay, the
  translation, the pipeline, the market maker and the formats. The numbering continues that of
  \<^verbatim>\<open>Book_Spec\<close>.
\<close>

section \<open>Replaying a file\<close>

text \<open>A two-message file: the directory message of the symbol A at locate 1, and a buy order of 10 at 1.0000.\<close>

definition demo_stock :: "u8 list" where "demo_stock = ch_A # replicate 7 ch_space"

definition demo_directory :: "u8 list" where
  "demo_directory = [ch_R, 0, 1] @ replicate 8 0 @ demo_stock @ replicate 20 0"

definition demo_add :: "u8 list" where
  "demo_add = [ch_A, 0, 1] @ replicate 8 0 @ put_be64 5 @ [ch_B] @ put_be32 10 @ demo_stock @ put_be32 10000"

definition demo_file :: "u8 list" where
  "demo_file = concat (map frame [demo_directory, demo_add])"

definition demo_args :: replay_args where
  "demo_args = replay_args_init\<lparr>ra_path := ''-'', ra_symbol := ''A''\<rparr>"

lemma demo_frames: "frames_ok [demo_directory, demo_add]" "ra_max_msgs demo_args = 0"
  by (simp_all add: frames_ok_def demo_directory_def demo_add_def demo_stock_def demo_args_def replay_args_init_def)

lemma demo_decoded:
  "parse_header demo_directory = Some \<lparr>ih_type = ch_R, ih_locate = 1, ih_tracking = 0, ih_timestamp_ns = 0\<rparr>"
  "parse_header demo_add = Some \<lparr>ih_type = ch_A, ih_locate = 1, ih_tracking = 0, ih_timestamp_ns = 0\<rparr>"
  "decode_event demo_add = Decoded (EvAdd 5 ch_B 10000 10)"
  by code_simp+

lemma demo_listed: "map_option (\<lambda>d. trim_symbol (sdir_stock d)) (parse_stock_directory demo_directory) = Some (str_bytes ''A'')"
  by code_simp

lemma demo_first:
  "replay_msg demo_args demo_directory st = st\<lparr>rs_messages_read := rs_messages_read st + 1,
     rs_counts := (rs_counts st)(demo_directory ! 0 := rs_counts st (demo_directory ! 0) + 1), rs_target := Some 1\<rparr>"
proof -
  obtain d where "parse_stock_directory demo_directory = Some d" "trim_symbol (sdir_stock d) = str_bytes ''A''"
    using demo_listed by auto
  then show ?thesis by (simp add: replay_msg_def demo_decoded Let_def demo_args_def)
qed

lemma demo_second:
  assumes "rs_target st = Some 1" "rs_engine_started st" "rs_tr st = translator_init 1" "rs_ref st = ref_book_init"
    "rs_sent st = []"
  shows "rs_sent (replay_msg demo_args demo_add st) = [md_zero\<lparr>md_seq := 1, md_order_id := 5, md_price := 1000000,
      md_qty := 10, md_symbol := 1, md_side := Buy, md_msg_type := NewOrder, md_order_type := Limit\<rparr>]"
    and "rs_ref (replay_msg demo_args demo_add st) = rb_add ref_book_init 5 ch_B 10000 10"
    and "rs_target (replay_msg demo_args demo_add st) = Some 1" "rs_engine_started (replay_msg demo_args demo_add st)"
  using assms by (simp_all add: replay_msg_def demo_decoded Let_def is_book_type_def replay_book_msg_def replay_event_def
      demo_args_def replay_args_init_def send_all_def on_add_def tr_make_def translator_init_def engine_price_def)

lemma demo_replay: "replay_file demo_args demo_file =
    replay_finish demo_args (fold (replay_msg demo_args) [demo_directory, demo_add] (replay_init demo_args))"
  unfolding demo_file_def replay_file_def replay_loop_frames [OF demo_frames(2,1)] ..

lemma demo_events: "replay_events demo_args (replay_init demo_args) demo_file = [EvAdd 5 ch_B 10000 10]"
  unfolding demo_file_def replay_events_frames [OF demo_frames(2,1)]
  by (simp add: msg_event_def demo_decoded demo_first is_book_type_def)

lemma demo_result:
  "rs_target (replay_file demo_args demo_file) = Some 1"
  "rs_sent (replay_file demo_args demo_file) = [md_zero\<lparr>md_seq := 1, md_order_id := 5, md_price := 1000000,
     md_qty := 10, md_symbol := 1, md_side := Buy, md_msg_type := NewOrder, md_order_type := Limit\<rparr>]"
  "rs_ref (replay_file demo_args demo_file) = rb_add ref_book_init 5 ch_B 10000 10"
proof -
  let ?st = "replay_msg demo_args demo_directory (replay_init demo_args)"
  have "rs_target ?st = Some 1" "rs_engine_started ?st" "rs_tr ?st = translator_init 1" "rs_ref ?st = ref_book_init" "rs_sent ?st = []"
    unfolding demo_first by (simp_all add: replay_init_def demo_args_def replay_args_init_def kReplaySymbol_def)
  note D = demo_second [OF this]
  show "rs_target (replay_file demo_args demo_file) = Some 1"
    "rs_sent (replay_file demo_args demo_file) = [md_zero\<lparr>md_seq := 1, md_order_id := 5, md_price := 1000000,
       md_qty := 10, md_symbol := 1, md_side := Buy, md_msg_type := NewOrder, md_order_type := Limit\<rparr>]"
    "rs_ref (replay_file demo_args demo_file) = rb_add ref_book_init 5 ch_B 10000 10"
    using D by (simp_all add: demo_replay replay_finish_def)
qed

lemma demo_evs_ok: "evs_ok ref_book_init (replay_events demo_args (replay_init demo_args) demo_file)"
  unfolding demo_events
  by (simp add: book_fits_def rb_crossed_def ref_book_init_def rb_add_def rb_level_def set_rb_level_def kMaxOrders_def kMaxLevels_def)

lemma demo_mode: "\<not> ra_no_engine demo_args" "ra_assume_capacity demo_args = 0" "ra_engine_start_ns demo_args = 0"
  by (simp_all add: demo_args_def replay_args_init_def)

lemma demo_levels_fit: "levels_fit (rs_ref (replay_file demo_args demo_file))"
  unfolding demo_result by (simp add: levels_fit_def ref_book_init_def rb_add_def rb_level_def set_rb_level_def)

lemma replay_symbol_registered: "unat kReplaySymbol < kMaxSymbols"
  by (simp add: kReplaySymbol_def kMaxSymbols_def)

text \<open>
  C12. A replay from the start of the day, with its log open and its symbol in the file, whose events
  are legal (references new when added and known when reduced, no quantity zero), keep the displayed
  book uncrossed and inside the engine's capacity, and whose final level totals fit 32 bits, sends messages that
  the pipeline processes without a single trade. If the wait for the engine ended because the engine
  had caught up, and not at its deadline, then after \<^verbatim>\<open>stop\<close> the engine's book agrees with the reference on
  every level, its quantity and order count, and on the quote, and the tool exits 0. After a wait that
  timed out the count of processed messages can be short, and nothing is claimed.
\<close>

theorem replay_exits_zero:
  assumes "\<not> ra_no_engine a" "ra_assume_capacity a = 0" "ra_engine_start_ns a = 0" "fd \<ge> 0"
    and "st = replay_file a inp" "rs_target st \<noteq> None" "length (rs_sent st) < 2 ^ 64"
    and "evs_ok ref_book_init (replay_events a (replay_init a) inp)" "levels_fit (rs_ref st)"
    and "submit_stream (started kReplaySymbol fd) (rs_sent st) as1 p1"
    and "wait_until_drained (of_nat (length (rs_sent st))) p1 as2 True p2" "pipeline_stop p2 as3 p3"
  shows "replay_exit a st (book_for (pp_engine p3) kReplaySymbol) (pr_engine_messages (pp_result p3)) = 0 \<and>
    run_fills (started kReplaySymbol fd) (as1 @ as2 @ as3) = []"
proof -
  note S = session_counts [OF assms(4) replay_symbol_registered assms(7,10,11,12)]
  have sync: "replay_sync st" using replay_file_sync(1) [OF assms(1-3,8)] assms(5) by simp
  then have "rs_first_exceeded_at st = 0" by (simp add: replay_sync_def)
  with replay_run_agrees [OF sync assms(9,4) S(3,4,2) assms(7), of a] S(1,2) assms(6) show ?thesis
    by (simp add: replay_exit_def)
qed

theorem replay_exits_zero_witness:
  "\<exists>p :: pipeline. replay_exit demo_args (replay_file demo_args demo_file) (book_for (pp_engine p) kReplaySymbol) (pr_engine_messages (pp_result p)) = 0"
proof -
  let ?st = "replay_file demo_args demo_file"
  have "replay_sync ?st"
    by (rule replay_file_sync(1) [OF demo_mode demo_evs_ok])
  then have "msgs_fresh (start_abooks kReplaySymbol) (rs_sent ?st)" by (auto simp: replay_sync_def)
  from session_exists [of 3, OF _ replay_symbol_registered this] obtain as1 p1 as2 p2 as3 p3 where
    R: "submit_stream (started kReplaySymbol 3) (rs_sent ?st) as1 p1"
      "wait_until_drained (of_nat (length (rs_sent ?st))) p1 as2 True p2" "pipeline_stop p2 as3 p3" by auto
  have "replay_exit demo_args ?st (book_for (pp_engine p3) kReplaySymbol) (pr_engine_messages (pp_result p3)) = 0 \<and>
      run_fills (started kReplaySymbol 3) (as1 @ as2 @ as3) = []"
    by (rule replay_exits_zero [OF demo_mode _ refl _ _ demo_evs_ok demo_levels_fit R]) (simp_all add: demo_result)
  then show ?thesis by blast
qed

section \<open>Translation\<close>

text \<open>
  C13. The translator's messages for a legal event, dispatched to the engine's books, produce no
  trade and bring the engine's book back in step with the reference book after the same event.
\<close>

theorem translation_keeps_books_in_step:
  assumes "books_good B AB" "in_sync rb tr AB" "ev_ok (rb_orders rb) ev" "book_fits (ref_apply rb ev)"
    and "tr_apply tr ev = (ms, tr')"
  shows "\<exists>B' AB'. dispatch_all B ms = Some (B', []) \<and> books_good B' AB' \<and> in_sync (ref_apply rb ev) tr' AB'"
proof -
  from event_in_sync [OF assms(2-5)] obtain AB' where
    E: "adispatch_all AB ms = (AB', [])" "msgs_fresh AB ms" "in_sync (ref_apply rb ev) tr' AB'" by blast
  from dispatch_all_refines [OF assms(1) E(2)] E(1) obtain B' where "dispatch_all B ms = Some (B', [])" "books_good B' AB'"
    by auto
  with E(3) show ?thesis by blast
qed

lemma start_in_sync: "in_sync ref_book_init (translator_init kReplaySymbol) (start_abooks kReplaySymbol)"
  using replay_sync_init [of replay_args_init]
  by (auto simp: replay_sync_def replay_init_def replay_args_init_def)

theorem translation_keeps_books_in_step_witness:
  "\<exists>B' AB'. dispatch_all (start_books kReplaySymbol) (fst (tr_apply (translator_init kReplaySymbol) (EvAdd 5 ch_B 10000 10))) = Some (B', []) \<and>
    books_good B' AB' \<and> in_sync (rb_add ref_book_init 5 ch_B 10000 10) (snd (tr_apply (translator_init kReplaySymbol) (EvAdd 5 ch_B 10000 10))) AB'"
proof -
  have ok: "ev_ok (rb_orders ref_book_init) (EvAdd 5 ch_B 10000 10)" "book_fits (ref_apply ref_book_init (EvAdd 5 ch_B 10000 10))"
    using demo_evs_ok unfolding demo_events by simp_all
  from translation_keeps_books_in_step [OF start_books_good start_in_sync ok surjective_pairing] show ?thesis by simp
qed

text \<open>A sequence of events each legal where it is applied.\<close>

fun evs_legal :: "ref_book \<Rightarrow> itch_event list \<Rightarrow> bool" where
  "evs_legal rb [] \<longleftrightarrow> True"
| "evs_legal rb (ev # evs) \<longleftrightarrow> ev_ok (rb_orders rb) ev \<and> evs_legal (ref_apply rb ev) evs"

lemma rb_inv_events: "rb_inv rb \<Longrightarrow> evs_legal rb evs \<Longrightarrow> rb_inv (fold (\<lambda>ev rb. ref_apply rb ev) evs rb)"
  by (induction evs arbitrary: rb) (auto dest: ref_apply_orders)

text \<open>
  C14. After any legal sequence of events the reference book's levels are the totals of its resting
  orders: a price is a level exactly if an order rests there, with the sum of the quantities (64 bits
  suffice) and the number of orders, and the levels are kept in price order.
\<close>

theorem reference_levels_are_totals:
  assumes "evs_legal ref_book_init evs" "rb = fold (\<lambda>ev rb. ref_apply rb ev) evs ref_book_init"
  shows "sorted_wrt (<) (map fst (rb_bids rb)) \<and> sorted_wrt (<) (map fst (rb_asks rb)) \<and>
    map_of (rb_bids rb) px = level_of (rb_orders rb) True px \<and> map_of (rb_asks rb) px = level_of (rb_orders rb) False px"
proof -
  have inv: "rb_inv rb" using rb_inv_events [OF rb_inv_init assms(1)] assms(2) by simp
  have "sorted_wrt (<) (map fst (rb_map rb d)) \<and> map_of (rb_map rb d) px = level_of (rb_orders rb) d px" for d
    using inv by (simp add: rb_inv_def levels_match_def omap_ok_def)
  from this [of True] this [of False] show ?thesis by (simp add: rb_map_def)
qed

theorem reference_levels_are_totals_witness:
  "map_of (rb_bids (rb_reduce (rb_add ref_book_init 5 ch_B 10000 10) 5 4)) 10000 =
    level_of (rb_orders (rb_reduce (rb_add ref_book_init 5 ch_B 10000 10) 5 4)) True 10000"
  using reference_levels_are_totals [OF _ refl, of "[EvAdd 5 ch_B 10000 10, EvReduce 5 4 True]" 10000]
  by (simp add: ref_book_init_def rb_add_def set_rb_level_def)

section \<open>The pipeline\<close>

text \<open>
  C15. Every interleaving. Whatever turns the control, engine and drain threads take after the start,
  in any order: the engine has processed a prefix of the accepted messages, in order and once each,
  and the rest waits in its ring; the reports handed to the drain thread and those waiting are a
  subsequence of those produced, and all of them if no more were produced than the ring holds; every
  submit was accepted or counted as rejected; the fill counters and the log file are those of the
  reports handed over.
\<close>

theorem every_interleaving_keeps_order:
  assumes "fd \<ge> 0" "unat s < kMaxSymbols" "pipe_run (started s fd) as = Some p"
    and "acc = run_accepts (started s fd) as" "fl = run_fills (started s fd) as"
  shows "\<exists>dn rs. acc = dn @ inq (pp_engine p) \<and> dispatch_all (start_books s) dn = Some (books_of (pp_engine p), rs) \<and>
    subseq (map fst fl @ outq (pp_engine p)) rs \<and> (length rs \<le> queue_room \<longrightarrow> map fst fl @ outq (pp_engine p) = rs) \<and>
    pr_events_submitted (pp_result p) = pr_events_accepted (pp_result p) + pr_queue_full_rejects (pp_result p) \<and>
    pr_events_accepted (pp_result p) = of_nat (length acc) \<and> pr_fills (pp_result p) = of_nat (length fl) \<and>
    fs_file (pp_sink p) = concat (map fill_bytes fl)"
  using run_pipe_inv [OF started_inv(1) [OF assms(1,2)] assms(3)] unfolding assms(4,5)
  by (auto simp: pipe_inv_def rings_inv_def counts_inv_def)

definition demo_msg :: md_msg where
  "demo_msg = md_zero\<lparr>md_seq := 1, md_order_id := 5, md_price := 1000000, md_qty := 10, md_symbol := 1, md_side := Buy,
     md_msg_type := NewOrder, md_order_type := Limit\<rparr>"

lemma demo_msg_fresh: "msgs_fresh (start_abooks 1) [demo_msg]"
  by (rule new_orders_fresh) (auto simp: demo_msg_def start_abooks_def abook_init_def all_ids_def split: if_splits)

lemma symbol_1: "unat (1 :: symbol_id) < kMaxSymbols"
  by (simp add: kMaxSymbols_def)

lemma demo_turn_exists:
  "\<exists>p. pipe_run (started 1 3) [ActSubmit demo_msg 0, ActEngine, ActDrain 7 40] = Some p"
proof -
  have "run_accepts (started 1 3) [ActSubmit demo_msg 0, ActEngine, ActDrain 7 40] \<in> {[], [demo_msg]}"
    by (auto simp: act_accepts_def split: option.splits)
  then have "msgs_fresh (start_abooks 1) ([] @ run_accepts (started 1 3) [ActSubmit demo_msg 0, ActEngine, ActDrain 7 40])"
    using demo_msg_fresh by auto
  from run_returns [OF start_books_good started_inv(1) this] symbol_1 show ?thesis by simp
qed

theorem every_interleaving_keeps_order_witness:
  "\<exists>p. pipe_run (started 1 3) [ActSubmit demo_msg 0, ActEngine, ActDrain 7 40] = Some p \<and>
    pr_events_submitted (pp_result p) = pr_events_accepted (pp_result p) + pr_queue_full_rejects (pp_result p)"
proof -
  obtain p where p: "pipe_run (started 1 3) [ActSubmit demo_msg 0, ActEngine, ActDrain 7 40] = Some p"
    using demo_turn_exists by blast
  from every_interleaving_keeps_order [OF _ symbol_1 p refl refl] p show ?thesis by auto
qed

lemma submit_accepted:
  assumes "rings_ok (pp_engine p)" "length (inq (pp_engine p)) < queue_room"
  shows "\<exists>p'. pipe_turn p (ActSubmit m ts) = Some p' \<and> act_accepts p (ActSubmit m ts) = [m] \<and> rings_ok (pp_engine p') \<and>
    inq (pp_engine p') = inq (pp_engine p) @ [m]"
proof -
  obtain k e where e: "engine_submit (pp_engine p) m = (k, e)" by force
  note S = submit_ring [OF assms(1) e]
  show ?thesis using S(1-3) assms(2) e by (simp add: act_accepts_def submit_with_ts_def Let_def)
qed

definition demo_turns :: "pipe_act list" where
  "demo_turns = [ActStop, ActEngine, ActDrain 7 40, ActEngine, ActStopEngine, ActEngine, ActDrain 8 40, ActJoin]"

text \<open>
  C16. The engine never gets stuck. If the messages that a schedule gets accepted reuse no live
  order id, every turn of every thread returns, whatever the schedule.
\<close>

theorem every_schedule_returns:
  assumes "fd \<ge> 0" "unat s < kMaxSymbols" "msgs_fresh (start_abooks s) (run_accepts (started s fd) as)"
  shows "\<exists>p. pipe_run (started s fd) as = Some p"
  using run_returns [OF start_books_good started_inv(1) [OF assms(1,2)], of as] assms(3) by simp

text \<open>Both messages are accepted while the engine has not moved; then the threads go on past the stop.\<close>

theorem every_schedule_returns_witness:
  "\<exists>p. pipe_run (started 1 3) ([ActSubmit demo_msg 0, ActSubmit (demo_msg\<lparr>md_order_id := 6, md_side := Sell\<rparr>) 1] @ demo_turns) = Some p \<and>
    run_accepts (started 1 3) ([ActSubmit demo_msg 0, ActSubmit (demo_msg\<lparr>md_order_id := 6, md_side := Sell\<rparr>) 1] @ demo_turns) =
      [demo_msg, demo_msg\<lparr>md_order_id := 6, md_side := Sell\<rparr>]"
proof -
  let ?m = "demo_msg\<lparr>md_order_id := 6, md_side := Sell\<rparr>" and ?p = "started 1 3"
  let ?as = "[ActSubmit demo_msg 0, ActSubmit (demo_msg\<lparr>md_order_id := 6, md_side := Sell\<rparr>) 1] @ demo_turns"
  have p: "rings_ok (pp_engine ?p)" "inq (pp_engine ?p) = []"
    using started_inv(1) [of 3, OF _ symbol_1] by (auto simp: pipe_inv_def rings_inv_def)
  have room: "1 < queue_room" by (simp add: queue_room_def kQueueDepth_def)
  from submit_accepted [OF p(1), of demo_msg 0] p(2) room obtain p1 where
    p1: "pipe_turn ?p (ActSubmit demo_msg 0) = Some p1" "act_accepts ?p (ActSubmit demo_msg 0) = [demo_msg]" "rings_ok (pp_engine p1)"
      "length (inq (pp_engine p1)) < queue_room" by auto
  from submit_accepted [OF p1(3,4), of ?m 1] obtain p2 where
    p2: "pipe_turn p1 (ActSubmit ?m 1) = Some p2" "act_accepts p1 (ActSubmit ?m 1) = [?m]" by blast
  have "run_accepts p2 demo_turns = []" by (rule no_submit_accepts) (simp add: no_submit_def demo_turns_def)
  then have acc: "run_accepts ?p ?as = [demo_msg, ?m]" using p1(1,2) p2 by simp
  have "msgs_fresh (start_abooks 1) [demo_msg, ?m]"
    by (rule new_orders_fresh) (auto simp: demo_msg_def start_abooks_def abook_init_def all_ids_def split: if_splits)
  then have "msgs_fresh (start_abooks 1) (run_accepts ?p ?as)" unfolding acc .
  from every_schedule_returns [OF _ symbol_1 this] acc show ?thesis by simp
qed

text \<open>
  C17. A synthetic run ends. For every configuration and whatever the number of events, there is a
  schedule on which \<^verbatim>\<open>run_synthetic\<close> starts, submits the whole stream, waits, stops and joins.
\<close>

theorem synthetic_run_ends:
  assumes "fd \<ge> 0" "unat s < kMaxSymbols"
  shows "\<exists>as p. run_synthetic mid (pipeline_init s) fd n as p"
  using run_stream_exists [OF assms synthetic_fresh] by (simp add: run_synthetic_def pipeline_init_def)

theorem synthetic_run_ends_witness: "\<exists>as p. run_synthetic 100000000 (pipeline_init 1) 3 20000 as p"
  by (rule synthetic_run_ends [OF _ symbol_1]) simp

text \<open>
  C18. A streamed run processes its stream: when \<^verbatim>\<open>run_stream\<close> returns after a successful start, the
  engine has processed exactly the messages of the stream, once each and in order, however the threads
  took turns and whether or not the wait timed out; the books are those of the stream processed
  sequentially, and the number of matches counted is that of the reports.
\<close>

theorem streamed_run_processes_all:
  assumes "run_stream (pipeline_init s) fd ms as p" "fd \<ge> 0" "unat s < kMaxSymbols"
  shows "\<exists>rs. dispatch_all (start_books s) ms = Some (books_of (pp_engine p), rs) \<and> inq (pp_engine p) = [] \<and>
    pr_events_accepted (pp_result p) = of_nat (length ms) \<and> en_stat_matches (pp_engine p) = of_nat (length rs)"
  using run_stream_delivers [OF assms] by (auto simp: pipe_inv_def rings_inv_def counts_inv_def)

theorem streamed_run_processes_all_witness:
  "\<exists>as p. run_stream (pipeline_init 1) 3 [demo_msg] as p \<and> inq (pp_engine p) = [] \<and> pr_events_accepted (pp_result p) = 1"
proof -
  obtain as p where r: "run_stream (pipeline_init 1) 3 [demo_msg] as p"
    using run_stream_exists [OF _ symbol_1 demo_msg_fresh, of 3] by auto
  from streamed_run_processes_all [OF r _ symbol_1] r show ?thesis by auto
qed

text \<open>
  C19. When the wait ends because the engine has caught up, no report is lost: if the stream produced no
  more reports than the ring holds, the drain thread logged every one of them, in order, and the
  ring is empty after \<^verbatim>\<open>stop\<close>.
\<close>

theorem caught_up_run_logs_every_fill:
  assumes "fd \<ge> 0" "unat s < kMaxSymbols" "length ms < 2 ^ 64"
    and "submit_stream (started s fd) ms as1 p1" "wait_until_drained (of_nat (length ms)) p1 as2 True p2" "pipeline_stop p2 as3 p3"
    and "dispatch_all (start_books s) ms = Some (B, rs)" "length rs \<le> queue_room"
  shows "map fst (run_fills (started s fd) (as1 @ as2 @ as3)) = rs \<and> pr_fills (pp_result p3) = of_nat (length rs) \<and>
    books_of (pp_engine p3) = B \<and> outq (pp_engine p3) = [] \<and> pr_engine_messages (pp_result p3) = of_nat (length ms)"
proof -
  note S = session_counts [OF assms(1-6)] and o = caught_up_complete [OF assms(1-6)]
  have "pipeline_start (pipeline_init s) fd = (True, started s fd)" by (rule started_start [OF assms(1)])
  from run_stream_delivers [OF run_started [OF this assms(4-6)] assms(1,2)] S(1) o assms(7,8) show ?thesis
    by (auto simp: pipe_inv_def counts_inv_def)
qed

text \<open>A buy and a sell order that trade.\<close>

definition demo_cross :: "md_msg list" where
  "demo_cross = [demo_msg, demo_msg\<lparr>md_seq := 2, md_order_id := 6, md_side := Sell\<rparr>]"

lemma demo_cross_fresh: "msgs_fresh (start_abooks 1) demo_cross"
  by (rule new_orders_fresh)
    (auto simp: demo_cross_def demo_msg_def start_abooks_def abook_init_def all_ids_def split: if_splits)

lemma demo_cross_reports: "length (snd (adispatch_all (start_abooks 1) demo_cross)) = 1"
  by (simp add: demo_cross_def demo_msg_def adispatch_def msg_cmd_def next_id_def order_of_msg_def md_zero_def aadd_def Let_def
      start_abooks_def abook_init_def kMaxSymbols_def can_rest_def num_orders_def is_buy_def crosses_def kMaxLevels_def
      kMaxOrders_def report_def priced_def)

lemma demo_cross_dispatch: "\<exists>B rs. dispatch_all (start_books 1) demo_cross = Some (B, rs) \<and> length rs = 1"
  using dispatch_all_refines [OF start_books_good demo_cross_fresh] demo_cross_reports by auto

theorem caught_up_run_logs_every_fill_witness:
  "\<exists>as1 p1 as2 p2 as3 p3. submit_stream (started 1 3) demo_cross as1 p1 \<and> wait_until_drained 2 p1 as2 True p2 \<and>
    pipeline_stop p2 as3 p3 \<and> length (run_fills (started 1 3) (as1 @ as2 @ as3)) = 1 \<and> pr_fills (pp_result p3) = 1"
proof -
  obtain B rs where d: "dispatch_all (start_books 1) demo_cross = Some (B, rs)" "length rs = 1" using demo_cross_dispatch by blast
  have n: "of_nat (length demo_cross) = (2 :: u64)" "length demo_cross < 2 ^ 64" "length rs \<le> queue_room"
    using d(2) by (simp_all add: demo_cross_def queue_room_def kQueueDepth_def)
  from session_exists [of 3, OF _ symbol_1 demo_cross_fresh] obtain as1 p1 as2 p2 as3 p3 where
    R: "submit_stream (started 1 3) demo_cross as1 p1" "wait_until_drained (of_nat (length demo_cross)) p1 as2 True p2" "pipeline_stop p2 as3 p3"
    by auto
  have "map fst (run_fills (started 1 3) (as1 @ as2 @ as3)) = rs \<and> pr_fills (pp_result p3) = of_nat (length rs) \<and>
      books_of (pp_engine p3) = B \<and> outq (pp_engine p3) = [] \<and> pr_engine_messages (pp_result p3) = of_nat (length demo_cross)"
    by (rule caught_up_run_logs_every_fill [OF _ symbol_1 n(2) R d(1) n(3)]) simp
  then have "length (run_fills (started 1 3) (as1 @ as2 @ as3)) = length rs" "pr_fills (pp_result p3) = of_nat (length rs)"
    using length_map [of fst "run_fills (started 1 3) (as1 @ as2 @ as3)"] by metis+
  then have "length (run_fills (started 1 3) (as1 @ as2 @ as3)) = 1" "pr_fills (pp_result p3) = 1" using d(2) by simp_all
  then show ?thesis using R unfolding n(1) by blast
qed

text \<open>
  C20. Without that, stopping can lose every fill: if the engine thread is slower than \<^verbatim>\<open>stop\<close>, there
  is a run on which two crossing orders are submitted and matched, but the drain thread ends before,
  and neither the log nor the fill count has the trade.
\<close>

theorem stop_can_lose_fills:
  "\<exists>as p. run_stream (pipeline_init 1) 3 demo_cross as p \<and> en_stat_matches (pp_engine p) = 1 \<and>
    run_fills (started 1 3) as = [] \<and> pr_fills (pp_result p) = 0 \<and> fs_file (pp_sink p) = []"
proof -
  have "length demo_cross \<le> queue_room" by (simp add: demo_cross_def queue_room_def kQueueDepth_def)
  with lossy_stop [of 3 1 demo_cross, OF _ symbol_1 demo_cross_fresh] obtain as p where
    r: "run_stream (pipeline_init 1) 3 demo_cross as p" "run_fills (started 1 3) as = []" by auto
  obtain B rs where d: "dispatch_all (start_books 1) demo_cross = Some (B, rs)" "length rs = 1" using demo_cross_dispatch by blast
  from run_stream_delivers [OF r(1) _ symbol_1] r d show ?thesis
    by (intro exI [of _ as] exI [of _ p]) (auto simp: pipe_inv_def rings_inv_def counts_inv_def)
qed

end
