(* ===== verification/Feed_Spec.thy ===== *)
theory Feed_Spec
  imports Hft_Spec
begin

text \<open>
  The properties of the feed side: the log and packet formats, the adapter, the synthetic stream,
  the replay's framing and arguments, the latency histogram and the ring.
\<close>

section \<open>Round trips\<close>

lemma run_fills_write: "(r, t, wn) \<in> set (run_fills p as) \<Longrightarrow> ActDrain t wn \<in> set as"
proof (induction as arbitrary: p)
  case (Cons a as)
  then have "(r, t, wn) \<in> set (act_fills p a) \<or> (\<exists>p1. (r, t, wn) \<in> set (run_fills p1 as))" by (auto split: option.splits)
  moreover have "a = ActDrain t wn" if "(r, t, wn) \<in> set (act_fills p a)"
  proof (cases a)
    case (ActDrain t' wn')
    obtain v e where po: "poll_report (pp_engine p) = (v, e)" by force
    have "act_fills p a = [] \<or> (\<exists>x. act_fills p a = [(x, t', wn')])"
      by (cases v) (simp_all add: act_fills_def ActDrain po)
    with that have "t = t'" "wn = wn'" by force+
    then show ?thesis unfolding ActDrain by simp
  qed (use that in \<open>simp_all add: act_fills_def\<close>)
  ultimately show ?case using Cons.IH by auto
qed simp

text \<open>
  C21. The log reads back. On every run in which the writes were complete, decoding the log file gives
  one entry per report handed to the drain thread, in order, with the order id, price, quantity and
  side of the report and the time of its turn.
\<close>

theorem log_file_reads_back:
  assumes "fd \<ge> 0" "unat s < kMaxSymbols" "pipe_run (started s fd) as = Some p"
    and "\<forall>(r, t, wn)\<in>set (run_fills (started s fd) as). wn = int log_entry_size"
  shows "file_entries (fs_file (pp_sink p)) = map (\<lambda>(r, t, wn). fill_entry r t) (run_fills (started s fd) as) \<and>
    length (fs_file (pp_sink p)) = log_entry_size * length (run_fills (started s fd) as)"
  using run_pipe_inv [OF started_inv(1) [OF assms(1,2)] assms(3)] log_file_entries [OF assms(4)]
  by (auto simp: pipe_inv_def counts_inv_def)

theorem log_file_reads_back_witness:
  "\<exists>p. pipe_run (started 1 3) [ActSubmit demo_msg 0, ActEngine, ActDrain 7 40] = Some p \<and>
    file_entries (fs_file (pp_sink p)) =
      map (\<lambda>(r, t, wn). fill_entry r t) (run_fills (started 1 3) [ActSubmit demo_msg 0, ActEngine, ActDrain 7 40])"
proof -
  let ?as = "[ActSubmit demo_msg 0, ActEngine, ActDrain 7 40]"
  obtain p where p: "pipe_run (started 1 3) ?as = Some p" using demo_turn_exists by blast
  have "wn = int log_entry_size" if "(r, t, wn) \<in> set (run_fills (started 1 3) ?as)" for r t wn
    using run_fills_write [OF that] by (simp add: log_entry_size_def)
  then have "\<forall>(r, t, wn)\<in>set (run_fills (started 1 3) ?as). wn = int log_entry_size" by blast
  with log_file_reads_back [OF _ symbol_1 p] have "file_entries (fs_file (pp_sink p)) = map (\<lambda>(r, t, wn). fill_entry r t) (run_fills (started 1 3) ?as)"
    by linarith
  with p show ?thesis by (intro exI [of _ p] conjI)
qed

text \<open>
  Control packets. What \<^verbatim>\<open>send_ctl\<close> sends decodes as a header of no messages whose sequence number
  is the next to be sent: a heartbeat for count 0, the end of the session for count 0xFFFF. Decoding
  and encoding a header are inverse to each other.
\<close>

lemma control_packets_decode:
  "mold_header_parse (send_ctl n kMoldHeartbeatCount) =
      Some \<lparr>mh_session = replicate 10 ch_space, mh_seq_num = n + 1, mh_msg_count = kMoldHeartbeatCount\<rparr> \<and>
    mold_header_parse (send_ctl n kMoldEndOfSessionCount) =
      Some \<lparr>mh_session = replicate 10 ch_space, mh_seq_num = n + 1, mh_msg_count = kMoldEndOfSessionCount\<rparr> \<and>
    is_heartbeat \<lparr>mh_session = s, mh_seq_num = k, mh_msg_count = kMoldHeartbeatCount\<rparr> \<and>
    is_end_of_session \<lparr>mh_session = s, mh_seq_num = k, mh_msg_count = kMoldEndOfSessionCount\<rparr> \<and>
    data_count \<lparr>mh_session = s, mh_seq_num = k, mh_msg_count = kMoldHeartbeatCount\<rparr> = 0 \<and>
    data_count \<lparr>mh_session = s, mh_seq_num = k, mh_msg_count = kMoldEndOfSessionCount\<rparr> = 0"
  using header_parse_serialise [of "\<lparr>mh_session = replicate 10 ch_space, mh_seq_num = n + 1, mh_msg_count = kMoldHeartbeatCount\<rparr>" "[]"]
    header_parse_serialise [of "\<lparr>mh_session = replicate 10 ch_space, mh_seq_num = n + 1, mh_msg_count = kMoldEndOfSessionCount\<rparr>" "[]"]
  by (simp add: send_ctl_def is_heartbeat_def is_end_of_session_def data_count_def kMoldHeartbeatCount_def)

lemma add_packet_decodes:
  "let pkt = make_mold_add_packet seq ref sd shares px in
    mold_header_parse pkt = Some \<lparr>mh_session = replicate 10 ch_space, mh_seq_num = seq, mh_msg_count = 1\<rparr> \<and>
    length pkt = 58 \<and> be16 pkt 20 = 36 \<and>
    fst (on_mold_message (adapter_init s) \<lparr>mm_length = 36, mm_body = drop 22 pkt, mm_seq_num = seq, mm_recv_ns = t\<rparr>) =
      [(md_zero\<lparr>md_seq := seq, md_order_id := ref, md_price := int (unat px) * 100, md_qty := shares, md_symbol := s,
          md_side := (if sd = ch_B then Buy else Sell), md_msg_type := NewOrder, md_order_type := Limit\<rparr>, t)]"
proof -
  let ?pkt = "make_mold_add_packet seq ref sd shares px"
  let ?b = "add_body_bytes ref sd shares (take 8 (str_bytes ''TEST     '')) px"
  let ?h = "\<lparr>mh_session = replicate 10 ch_space, mh_seq_num = seq, mh_msg_count = 1\<rparr>"
  have pkt: "?pkt = mold_header_serialise ?h @ put_be16 36 @ ?b" by (rule make_mold_add_packet_eq)
  have l: "length (mold_header_serialise ?h) = 20" by (simp add: mold_header_serialise_def)
  have lb: "length ?b = 36" by (rule length_add_body [OF length_test_stock(1)])
  have h: "mold_header_parse ?pkt = Some ?h" unfolding pkt by (rule header_parse_serialise) simp
  have n: "be16 ?pkt 20 = 36" unfolding pkt by (rule be16_at [OF l])
  have d: "drop 22 ?pkt = ?b" unfolding pkt by (simp add: l)
  have "?b ! 0 = ch_A" by (simp add: add_body_bytes_def)
  then have ev: "decode_event ?b = Decoded (EvAdd ref sd px shares)"
    by (simp add: decode_event_def parse_add_body [OF length_test_stock(1)])
  have "fst (on_mold_message (adapter_init s) \<lparr>mm_length = 36, mm_body = ?b, mm_seq_num = seq, mm_recv_ns = t\<rparr>) =
      [(md_zero\<lparr>md_seq := seq, md_order_id := ref, md_price := int (unat px) * 100, md_qty := shares, md_symbol := s,
          md_side := (if sd = ch_B then Buy else Sell), md_msg_type := NewOrder, md_order_type := Limit\<rparr>, t)]"
    using lb ev by (simp add: on_mold_message_def adapter_init_def translator_init_def on_add_def tr_make_def engine_price_def Let_def)
  then show ?thesis using h n lb l d by (simp add: Let_def pkt)
qed

lemma demo_packet_decodes:
  "fst (on_mold_message (adapter_init s) \<lparr>mm_length = 36, mm_body = drop 22 (make_mold_add_packet seq ref sd shares px),
      mm_seq_num = seq, mm_recv_ns = t\<rparr>) =
    [(md_zero\<lparr>md_seq := seq, md_order_id := ref, md_price := int (unat px) * 100, md_qty := shares, md_symbol := s,
        md_side := (if sd = ch_B then Buy else Sell), md_msg_type := NewOrder, md_order_type := Limit\<rparr>, t)]"
  using add_packet_decodes [of seq ref sd shares px s t] by (simp add: Let_def)

text \<open>
  An add packet reads back. The packet that \<^verbatim>\<open>make_mold_add_packet\<close> builds is a header with the
  sequence number and one message, whose framed body the adapter turns into exactly one limit order:
  the same reference and shares, the side, and the price times 100.
\<close>

lemma add_packet_reads_back:
  "let pkt = make_mold_add_packet seq ref sd shares px in
    mold_header_parse pkt = Some \<lparr>mh_session = replicate 10 ch_space, mh_seq_num = seq, mh_msg_count = 1\<rparr> \<and>
    length pkt = 58 \<and> be16 pkt 20 = 36 \<and>
    fst (on_mold_message (adapter_init s) \<lparr>mm_length = 36, mm_body = drop 22 pkt, mm_seq_num = seq, mm_recv_ns = t\<rparr>) =
      [(md_zero\<lparr>md_seq := seq, md_order_id := ref, md_price := int (unat px) * 100, md_qty := shares, md_symbol := s,
          md_side := (if sd = ch_B then Buy else Sell), md_msg_type := NewOrder, md_order_type := Limit\<rparr>, t)]"
  by (rule add_packet_decodes)

section \<open>Errors\<close>

text \<open>The length that a message of a book type must have.\<close>

definition book_msg_length :: "u8 \<Rightarrow> nat" where
  "book_msg_length ty = (if ty = ch_A then kLenAdd else if ty = ch_F then kLenAddMpid else if ty = ch_E then kLenExec
     else if ty = ch_C then kLenExecPrice else if ty = ch_X then kLenCancel else if ty = ch_D then kLenDelete else kLenReplace)"

lemma decode_event_malformed:
  assumes "0 < length b" "is_book_type (b ! 0)"
  shows "decode_event b = Malformed \<longleftrightarrow> length b < book_msg_length (b ! 0)"
proof -
  have "parse_header b \<noteq> None" if "11 \<le> length b" using that by (simp add: parse_header_def)
  then show ?thesis using assms
    by (auto simp: is_book_type_def decode_event_def book_msg_length_def parse_add_order_def parse_order_executed_def
        parse_order_cancel_def parse_order_delete_def parse_order_replace_def itch_lengths split: option.splits if_splits)
qed

text \<open>
  C24. A truncated message is dropped and counted. A body of a book type that is shorter than its type's
  length reaches neither the translator nor the handler: only the error count goes up. A body that is
  long enough is never counted as an error.
\<close>

theorem truncated_message_is_counted:
  assumes "0 < mm_length msg" "mm_length msg \<le> length (mm_body msg)" "is_book_type (mm_body msg ! 0)"
  shows "(mm_length msg < book_msg_length (mm_body msg ! 0) \<longrightarrow>
      on_mold_message ia msg = ([], ia\<lparr>ia_parse_errors := ia_parse_errors ia + 1\<rparr>)) \<and>
    (\<not> mm_length msg < book_msg_length (mm_body msg ! 0) \<longrightarrow> ia_parse_errors (snd (on_mold_message ia msg)) = ia_parse_errors ia)"
proof -
  let ?b = "take (mm_length msg) (mm_body msg)"
  have b: "?b ! 0 = mm_body msg ! 0" "length ?b = mm_length msg" using assms(1,2) by simp_all
  have m: "decode_event ?b = Malformed \<longleftrightarrow> mm_length msg < book_msg_length (mm_body msg ! 0)"
    using decode_event_malformed [of ?b] assms(1,3) unfolding b by blast
  show ?thesis
  proof (cases "decode_event ?b")
    case NotBook
    then show ?thesis using assms(1) m by (simp add: on_mold_message_def)
  next
    case Malformed
    then show ?thesis using assms(1) m by (simp add: on_mold_message_def)
  next
    case (Decoded ev)
    then show ?thesis using assms(1) m by (auto simp: on_mold_message_def split: prod.splits)
  qed
qed

theorem truncated_message_is_counted_witness:
  "on_mold_message (adapter_init 1) \<lparr>mm_length = 12, mm_body = ch_D # replicate 20 0, mm_seq_num = 9, mm_recv_ns = 0\<rparr> =
    ([], (adapter_init 1)\<lparr>ia_parse_errors := 1\<rparr>)"
  using truncated_message_is_counted [of "\<lparr>mm_length = 12, mm_body = ch_D # replicate 20 0, mm_seq_num = 9, mm_recv_ns = 0\<rparr>" "adapter_init 1"]
  by (simp add: is_book_type_def book_msg_length_def itch_lengths adapter_init_def)

text \<open>The options that take a value.\<close>

definition valued_options :: "string list" where
  "valued_options = [''--symbol'', ''--max-msgs'', ''--engine-start-ns'', ''--assume-engine-capacity'', ''--log'']"

text \<open>
  Argument errors. A command line without a path or without a symbol, one that ends in an option
  whose value is missing, and one with an unknown option are refused; a well-formed line
  gives its settings.
\<close>

lemma bad_arguments_are_refused:
  "parse_args strtoull [] = None \<and> parse_args strtoull [''file''] = None \<and>
    (s \<in> set valued_options \<longrightarrow> parse_args strtoull [''file'', ''--symbol'', v, s] = None) \<and>
    (s \<noteq> [] \<and> hd s = CHR ''-'' \<and> s \<noteq> ''-'' \<and> s \<notin> set valued_options \<and> s \<noteq> ''--no-engine'' \<and> s \<noteq> ''--json'' \<longrightarrow>
      parse_args strtoull (s # rest) = None) \<and>
    (v \<noteq> [] \<longrightarrow> parse_args strtoull [''-'', ''--symbol'', v, ''--max-msgs'', n, ''--json''] =
      Some (replay_args_init\<lparr>ra_path := ''-'', ra_symbol := v, ra_max_msgs := strtoull n, ra_json := True\<rparr>))"
  by (auto simp: parse_args_def valued_options_def replay_args_init_def)

section \<open>Streams and framing\<close>

text \<open>
  The synthetic stream stays around its mid: n messages, all new limit orders of the configured
  symbol with pairwise different ids, none zero, alternating sides starting with a buy, each price
  within 10 ticks of 1000 of the mid and each quantity between 10 and 49.
\<close>

lemma synthetic_stream_bounds:
  assumes "k < unat (sf_n_events cfg)"
  shows "length (make_synthetic_stream cfg) = unat (sf_n_events cfg) \<and> distinct (map md_order_id (make_synthetic_stream cfg)) \<and>
    (let m = make_synthetic_stream cfg ! k in md_msg_type m = NewOrder \<and> md_order_type m = Limit \<and> md_order_id m \<noteq> 0 \<and>
      md_symbol m = sf_symbol cfg \<and> md_side m = (if even k then Buy else Sell) \<and>
      \<bar>md_price m - sf_mid cfg\<bar> \<le> 10 * 1000 \<and> 10 \<le> unat (md_qty m) \<and> unat (md_qty m) < 50)"
proof -
  have m: "make_synthetic_stream cfg ! k = synthetic_msg cfg k" "synthetic_msg cfg k \<in> set (make_synthetic_stream cfg)"
    using assms by (simp_all add: make_synthetic_stream_def)
  have k: "k < 2 ^ 64" using assms unat_u64_less [of "sf_n_events cfg"] by linarith
  have "even k \<longleftrightarrow> (of_nat k :: u64) mod 2 = 0"
  proof -
    have "unat ((of_nat k :: u64) mod 2) = k mod 2"
      using k by (simp add: unat_mod_distrib unsigned_of_nat take_bit_nat_eq_self)
    then show ?thesis by (metis even_iff_mod_2_eq_zero unsigned_0 unsigned_word_eqI)
  qed
  then have "md_side (synthetic_msg cfg k) = (if even k then Buy else Sell)" by (simp add: synthetic_msg_def Let_def)
  moreover have "md_order_type (synthetic_msg cfg k) = Limit" by (simp add: synthetic_msg_def Let_def)
  moreover have "length (make_synthetic_stream cfg) = unat (sf_n_events cfg)" by (simp add: make_synthetic_stream_def)
  ultimately show ?thesis
    using distinct_ids_stream [of cfg] m(2) synthetic_bounds [of cfg k] unfolding Let_def m(1) by auto
qed

text \<open>
  C27. Framing. On a file of messages of 1 to 65535 bytes, each after its two-byte length, the loop
  handles every message once and in order, and nothing is counted as truncated beyond what the
  messages themselves add; a file cut inside the last message or its length ends the loop after the
  complete ones with one truncation counted.
\<close>

theorem framed_file_is_read_in_order:
  assumes "ra_max_msgs a = 0" "frames_ok bs" "frames_ok [b]" "0 < n" "n < length (frame b)"
  shows "replay_loop a st (concat (map frame bs)) = fold (replay_msg a) bs st \<and>
    (let st1 = fold (replay_msg a) bs st in
      replay_loop a st (concat (map frame bs) @ take n (frame b)) = st1\<lparr>rs_truncated := rs_truncated st1 + 1\<rparr>)"
  using replay_loop_frames [OF assms(1,2)] replay_loop_cut [OF assms] by (simp add: Let_def)


theorem framed_file_is_read_in_order_witness:
  "rs_truncated (replay_loop demo_args (replay_init demo_args) (concat (map frame []) @ take 1 (frame demo_add))) = 1"
proof -
  have f: "frames_ok []" "frames_ok [demo_add]" using demo_frames(1) by (simp_all add: frames_ok_def)
  have "1 < length (frame demo_add)" by (simp add: frame_def demo_add_def)
  from framed_file_is_read_in_order [OF demo_frames(2) f _ this] show ?thesis
    by (simp add: Let_def replay_init_def)
qed

section \<open>The adapter's output\<close>

text \<open>A message as the engine expects it from the feed of symbol \<open>s\<close>.\<close>

definition feed_msg_ok :: "symbol_id \<Rightarrow> md_msg \<Rightarrow> bool" where
  "feed_msg_ok s m \<longleftrightarrow> md_symbol m = s \<and> md_order_type m = Limit \<and> md_msg_type m \<in> {NewOrder, CancelOrder, ModifyOrder} \<and>
    (\<exists>px :: u32. md_price m = int (unat px) * 100) \<and> (md_msg_type m = CancelOrder \<longrightarrow> md_qty m = 0) \<and>
    (md_msg_type m = ModifyOrder \<longrightarrow> md_qty m \<noteq> 0)"

lemma tr_apply_ok: "\<forall>m\<in>set (fst (tr_apply tr ev)). feed_msg_ok (tr_sym tr) m"
  by (cases ev) (auto simp: feed_msg_ok_def on_add_def on_reduce_def on_delete_def on_replace_def count_unknown_def tr_make_def
      engine_price_def Let_def split: option.splits)

lemma tr_apply_sym: "tr_sym (snd (tr_apply tr ev)) = tr_sym tr"
  by (cases ev) (auto simp: on_add_def on_reduce_def on_delete_def on_replace_def count_unknown_def tr_make_def Let_def split: option.splits)

lemma tr_apply_length: "length (fst (tr_apply tr ev)) \<le> 2"
  by (cases ev) (auto simp: on_add_def on_reduce_def on_delete_def on_replace_def Let_def split: option.splits prod.splits)

lemma on_mold_message_ok:
  assumes "on_mold_message ia msg = (out, ia')"
  shows "tr_sym (ia_tr ia') = tr_sym (ia_tr ia)" "length out \<le> 2"
    "\<forall>(m, t)\<in>set out. feed_msg_ok (tr_sym (ia_tr ia)) m \<and> md_seq m = mm_seq_num msg \<and> t = mm_recv_ns msg"
proof -
  have seq: "feed_msg_ok s (m\<lparr>md_seq := n\<rparr>) = feed_msg_ok s m" for s m n by (simp add: feed_msg_ok_def)
  have "tr_sym (ia_tr ia') = tr_sym (ia_tr ia) \<and> length out \<le> 2 \<and>
    (\<forall>(m, t)\<in>set out. feed_msg_ok (tr_sym (ia_tr ia)) m \<and> md_seq m = mm_seq_num msg \<and> t = mm_recv_ns msg)"
  proof (cases "mm_length msg = 0")
    case True
    then show ?thesis using assms by (simp add: on_mold_message_def)
  next
    case n: False
    show ?thesis
    proof (cases "decode_event (take (mm_length msg) (mm_body msg))")
      case (Decoded ev)
      obtain ms tr where a: "tr_apply (ia_tr ia) ev = (ms, tr)" by force
      have o: "out = map (\<lambda>m. (m\<lparr>md_seq := mm_seq_num msg\<rparr>, mm_recv_ns msg)) ms" "ia' = ia\<lparr>ia_tr := tr\<rparr>"
        using assms n Decoded by (simp_all add: on_mold_message_def a)
      show ?thesis using tr_apply_ok [of "ia_tr ia" ev] tr_apply_sym [of "ia_tr ia" ev] tr_apply_length [of "ia_tr ia" ev]
        by (auto simp: o a seq)
    qed (use assms n in \<open>auto simp: on_mold_message_def\<close>)
  qed
  then show "tr_sym (ia_tr ia') = tr_sym (ia_tr ia)" "length out \<le> 2"
    "\<forall>(m, t)\<in>set out. feed_msg_ok (tr_sym (ia_tr ia)) m \<and> md_seq m = mm_seq_num msg \<and> t = mm_recv_ns msg" by blast+
qed

text \<open>
  C28. What the adapter emits is well formed. Whatever the bytes of the messages it is given, every message
  it hands on is a new, cancel or modify limit order of its symbol with a price that is a 32-bit
  value times 100, a cancel carries no quantity and a modify carries one, and sequence number and
  receive time are those of one of the messages; there are at most two per message.
\<close>

theorem adapter_output_is_well_formed:
  "length (fst (on_mold_messages ia msgs)) \<le> 2 * length msgs \<and>
    (\<forall>(m, t)\<in>set (fst (on_mold_messages ia msgs)). feed_msg_ok (tr_sym (ia_tr ia)) m \<and>
      (\<exists>msg\<in>set msgs. md_seq m = mm_seq_num msg \<and> t = mm_recv_ns msg))"
proof (induction msgs arbitrary: ia)
  case (Cons msg msgs)
  obtain out ia1 where o: "on_mold_message ia msg = (out, ia1)" by force
  obtain outs ia2 where os: "on_mold_messages ia1 msgs = (outs, ia2)" by force
  note M = on_mold_message_ok [OF o]
  show ?case using Cons.IH [of ia1] M by (fastforce simp: o os)
qed simp

theorem adapter_output_is_well_formed_witness:
  "feed_msg_ok 1 (md_zero\<lparr>md_seq := 9, md_order_id := 4, md_price := 700, md_qty := 3, md_symbol := 1, md_side := Sell,
     md_msg_type := NewOrder, md_order_type := Limit\<rparr>)"
proof -
  let ?msg = "\<lparr>mm_length = 36, mm_body = drop 22 (make_mold_add_packet 9 4 ch_S 3 7), mm_seq_num = 9, mm_recv_ns = 0\<rparr>"
  have "fst (on_mold_message (adapter_init 1) ?msg) = [(md_zero\<lparr>md_seq := 9, md_order_id := 4, md_price := 700, md_qty := 3,
      md_symbol := 1, md_side := Sell, md_msg_type := NewOrder, md_order_type := Limit\<rparr>, 0)]"
    using demo_packet_decodes [where seq = 9 and ref = 4 and sd = ch_S and shares = 3 and px = 7 and s = 1 and t = 0] by simp
  then show ?thesis
    using adapter_output_is_well_formed [of "adapter_init 1" "[?msg]"]
    by (simp add: adapter_init_def translator_init_def split: prod.splits)
qed

text \<open>
  Unknown references. A reduction, delete or replace of a reference the translator does not hold sends
  nothing, leaves its orders alone and is counted, once; the reference book counts it likewise and
  keeps its orders and levels.
\<close>

lemma unknown_reference_is_counted:
  assumes "map_of (tr_orders tr) ref = None" "map_of (rb_orders rb) ref = None"
    and "ev = EvReduce ref by1 ex \<or> ev = EvDelete ref \<or> ev = EvReplace ref nref q px"
  shows "tr_apply tr ev = ([], tr\<lparr>tr_c := (tr_c tr)\<lparr>tc_unknown_ref := tc_unknown_ref (tr_c tr) + 1\<rparr>\<rparr>) \<and>
    ref_apply rb ev = rb\<lparr>rb_unknown_ref := rb_unknown_ref rb + 1\<rparr>"
  using assms by (auto simp: on_reduce_def on_delete_def on_replace_def count_unknown_def rb_reduce_def rb_remove_def rb_replace_def)

text \<open>
  Symbols. \<^verbatim>\<open>trim_symbol\<close> removes exactly the trailing blanks and zeros of the eight characters.
\<close>

lemma trim_symbol_removes_padding:
  assumes "8 \<le> length s8"
  shows "\<exists>pad. take 8 s8 = trim_symbol s8 @ pad \<and> set pad \<subseteq> {ch_space, 0} \<and>
    (trim_symbol s8 \<noteq> [] \<longrightarrow> last (trim_symbol s8) \<notin> {ch_space, 0})"
  by (rule trim_symbol_spec [OF assms])

section \<open>Measuring and queueing\<close>

text \<open>
  The latency histogram. After any samples, its extremes and sum are those of the samples, and with
  a rank that stays in range every percentile is one of the samples and grows with the rank.
\<close>

lemma histogram_reports_samples:
  assumes "xs \<noteq> []" "\<And>n. rank n \<le> rank' n" "\<And>n. rank' n \<le> n" "h = fold (\<lambda>ns h. lh_record h ns) xs lh_init"
  shows "lh_count h = length xs \<and> lh_sum h = sum_list xs \<and> lh_get_min h = Min (set xs) \<and> lh_get_max h = Max (set xs) \<and>
    percentile rank h \<in> set xs \<and> percentile rank h \<le> percentile rank' h"
proof -
  have s: "lh_samples h = xs" unfolding assms(4) lh_samples_fold by (simp add: lh_init_def)
  have i: "lh_inv h" unfolding assms(4) by (rule lh_inv_fold) simp
  have r: "rank n \<le> n" for n using assms(2,3) le_trans by blast
  show ?thesis
    using i s assms(1) percentile_mem [of h rank, OF _ r] percentile_mono [of rank rank' h, OF assms(2,3)]
    by (simp add: lh_inv_def lh_count_def lh_get_min_def lh_get_max_def)
qed

text \<open>Pushes (\<open>Some x\<close>) and pops (\<open>None\<close>) on a ring: what was accepted, what came out, the ring after.\<close>

fun ring_ops :: "nat \<Rightarrow> 'a option list \<Rightarrow> 'a spsc \<Rightarrow> 'a list \<times> 'a list \<times> 'a spsc" where
  "ring_ops cap [] q = ([], [], q)"
| "ring_ops cap (Some x # cs) q = (let (ok, q1) = spsc_try_push cap x q; (ins, outs, q2) = ring_ops cap cs q1
     in (if ok then x # ins else ins, outs, q2))"
| "ring_ops cap (None # cs) q = (let (r, q1) = spsc_try_pop cap q; (ins, outs, q2) = ring_ops cap cs q1
     in (ins, (case r of None \<Rightarrow> outs | Some y \<Rightarrow> y # outs), q2))"

lemma ring_ops_runs: "ring_ops (2 ^ Suc k) cs q = sq.runs k cs q"
proof (induction "(2 :: nat) ^ Suc k" cs q rule: ring_ops.induct)
  case (2 x cs q)
  then show ?case by (cases "spsc_try_push (2 ^ Suc k) x q") (simp add: sq.runs.simps del: power_Suc)
next
  case (3 cs q)
  then show ?case by (cases "spsc_try_pop (2 ^ Suc k) q") (simp add: sq.runs.simps del: power_Suc)
qed (simp add: sq.runs.simps del: power_Suc)

text \<open>
  C32. The ring is a queue. For every power-of-two capacity above one and any sequence of pushes and pops
  from the empty ring: what came out followed by what is left is what was accepted, in order; at most
  capacity minus one elements wait, and the ring never says full before.
\<close>

theorem ring_is_fifo:
  "case ring_ops (2 ^ Suc k) cs (spsc_init x0) of (ins, outs, q) \<Rightarrow>
    ins = outs @ spsc_elems (2 ^ Suc k) q \<and> length (spsc_elems (2 ^ Suc k) q) \<le> 2 ^ Suc k - 1 \<and>
    (fst (spsc_try_push (2 ^ Suc k) x q) \<longleftrightarrow> length (spsc_elems (2 ^ Suc k) q) < 2 ^ Suc k - 1) \<and>
    (spsc_empty q \<longleftrightarrow> spsc_elems (2 ^ Suc k) q = [])"
proof -
  obtain ins outs q where r: "ring_ops (2 ^ Suc k) cs (spsc_init x0) = (ins, outs, q)" by (metis prod_cases3)
  have i: "spsc_inv (2 ^ Suc k) (spsc_init x0)" "spsc_elems (2 ^ Suc k) (spsc_init x0) = []"
    using spsc_init_facts [of "2 ^ Suc k" x0] by simp_all
  have F: "spsc_inv (2 ^ Suc k) q" "outs @ spsc_elems (2 ^ Suc k) q = ins" "length (spsc_elems (2 ^ Suc k) q) \<le> 2 ^ Suc k - 1"
    using sq.runs_fifo [OF i(1) r [unfolded ring_ops_runs]] unfolding i(2) append_Nil by blast+
  have "fst (spsc_try_pop (2 ^ Suc k) q) = None \<longleftrightarrow> spsc_empty q" by (simp add: spsc_empty_def spsc_try_pop_def Let_def)
  then show ?thesis unfolding r prod.case using sq.push_ok [OF F(1), of x] sq.pop_None [OF F(1)] F(2,3) by (simp del: power_Suc)
qed

end
