(* ===== verification/Maker_Spec.thy ===== *)
theory Maker_Spec
  imports Market_Maker Feed_Spec
begin

text \<open>The properties of the market maker: accounting, quoting and the attribution of fills.\<close>

section \<open>A round trip\<close>

lemma signed_qty_side: "signed_qty Buy q = uint q" "signed_qty Sell q = - uint q"
  by (simp_all add: signed_qty_def)

lemma qty_pos: "(q :: qty) \<noteq> 0 \<Longrightarrow> 0 < uint q"
  by (metis uint_0_iff uint_nonnegative order_le_less)

lemma uint_le_int: "unat (q :: qty) \<le> n \<Longrightarrow> uint q \<le> int n"
proof -
  have "uint q = int (unat q)" by (rule uint_nat)
  moreover assume "unat q \<le> n"
  ultimately show "uint q \<le> int n" by linarith
qed

definition fills_at :: "side \<Rightarrow> price \<Rightarrow> qty list \<Rightarrow> (side \<times> price \<times> qty) list" where
  "fills_at sd p qs = map (\<lambda>q. (sd, p, q)) qs"

lemma fills_at_simps [simp]: "fills_at sd p [] = []" "fills_at sd p (q # qs) = (sd, p, q) # fills_at sd p qs"
  by (simp_all add: fills_at_def)

lemma apply_fills_append: "apply_fills st (fs @ gs) = Option.bind (apply_fills st fs) (\<lambda>st'. apply_fills st' gs)"
proof (induction fs arbitrary: st)
  case (Cons f fs)
  obtain sd p q where "f = (sd, p, q)" by (metis prod_cases3)
  with Cons show ?case by (cases "apply_fill st sd p q") simp_all
qed simp

definition total_qty :: "qty list \<Rightarrow> int" where
  "total_qty qs = sum_list (map (\<lambda>q. uint q) qs)"

lemma total_simps [simp]: "total_qty [] = 0" "total_qty (q # qs) = uint q + total_qty qs"
  by (simp_all add: total_qty_def)

lemma total_nonneg: "0 \<le> total_qty qs"
  by (induction qs) simp_all

text \<open>Each fill of such a trip stays inside 64 bits when the value of the whole does.\<close>

lemma buy_in_range:
  assumes "apply_fill st Buy p q = Some st'" "0 < uint q" "0 \<le> ms_position st" "ms_position st = 0 \<or> ms_avg_cost_fp st = p" "\<not> ms_overflow st"
    "ms_position st + uint q < 2 ^ 63" "\<bar>p\<bar> * (ms_position st + uint q) < 2 ^ 63"
  shows "\<not> ms_overflow st'"
proof -
  let ?old = "ms_position st"
  have avg: "ms_avg_cost_fp st * ?old = p * ?old" using assms(4) by auto
  have sum: "ms_avg_cost_fp st * ?old + p * uint q = p * (?old + uint q)" unfolding avg by (simp add: distrib_left)
  have quot: "p * (?old + uint q) sdiv (?old + uint q) = p" using assms(2,3) by (intro sdiv_exact) simp
  have le: "\<bar>p * x\<bar> \<le> \<bar>p\<bar> * (?old + uint q)" if "0 \<le> x" "x \<le> ?old + uint q" for x
    using that by (simp add: abs_mult mult_left_mono)
  have one: "\<bar>p\<bar> \<le> \<bar>p\<bar> * (?old + uint q)" using mult_left_mono [of 1 "?old + uint q" "\<bar>p\<bar>"] assms(2,3) by simp
  have r: "in_int64 (p * ?old)" "in_int64 (p * uint q)" "in_int64 (p * (?old + uint q))" "in_int64 p" "in_int64 (?old + uint q)"
    using assms(2,3,6) by (intro in_int64I [OF le assms(7)] in_int64I [OF one assms(7)] in_int64I [of _ "?old + uint q"]; simp)+
  have "extend_results st p (signed_qty Buy q) = [?old + uint q, p * ?old, p * uint q, p * (?old + uint q), p]"
    unfolding extend_results_def Let_def signed_qty_side sum quot unfolding avg ..
  then have "list_all in_int64 (extend_results st p (signed_qty Buy q))" using r by (simp only: list.pred_inject simp_thms)
  moreover have "?old = 0 \<or> (?old > 0) = (signed_qty Buy q > 0)" using assms(2,3) by (auto simp: signed_qty_side)
  ultimately show ?thesis using apply_fill_overflow [OF assms(1)] assms(5) by simp
qed

lemma sell_in_range:
  assumes "apply_fill st Sell r q = Some st'" "0 < uint q" "uint q \<le> ms_position st" "ms_avg_cost_fp st = p" "\<not> ms_overflow st"
    "ms_realized_pnl_fp st = d * (r - p)" "0 \<le> d" "(d + uint q) * \<bar>r - p\<bar> < 2 ^ 63" "ms_position st < 2 ^ 63"
  shows "\<not> ms_overflow st'"
proof -
  let ?old = "ms_position st"
  have le: "\<bar>x * (r - p)\<bar> \<le> (d + uint q) * \<bar>r - p\<bar>" if "0 \<le> x" "x \<le> d + uint q" for x
    using that by (simp add: abs_mult mult_right_mono)
  have one: "\<bar>r - p\<bar> \<le> (d + uint q) * \<bar>r - p\<bar>" using mult_right_mono [of 1 "d + uint q" "\<bar>r - p\<bar>"] assms(2,7) by simp
  have real: "ms_realized_pnl_fp st + uint q * (r - p) = (d + uint q) * (r - p)" unfolding assms(6) by (simp add: distrib_right)
  have r: "in_int64 (uint q * (r - p))" "in_int64 ((d + uint q) * (r - p))" "in_int64 (r - p)" "in_int64 (uint q)" "in_int64 ?old" "in_int64 (?old - uint q)"
    using assms(2,3,7,9) by (intro in_int64I [OF le assms(8)] in_int64I [OF one assms(8)] in_int64I [of _ ?old]; simp)+
  have old: "0 < ?old" using assms(2,3) by simp
  have "min \<bar>signed_qty Sell q\<bar> \<bar>?old\<bar> = uint q" "\<bar>?old\<bar> = ?old" "\<bar>signed_qty Sell q\<bar> = uint q" "(if ?old > 0 then 1 else - 1 :: int) = 1"
    using assms(2,3) by (auto simp: signed_qty_side)
  then have "reduce_results st r (signed_qty Sell q) = [uint q, ?old, uint q, r - p, uint q * (r - p), (d + uint q) * (r - p), ?old - uint q]"
    unfolding reduce_results_def Let_def assms(4) real [symmetric] using old by (simp add: signed_qty_side)
  then have "list_all in_int64 (reduce_results st r (signed_qty Sell q))" using r by (simp only: list.pred_inject simp_thms)
  moreover have "\<not> (?old = 0 \<or> (?old > 0) = (signed_qty Sell q > 0))" using assms(2,3) by (auto simp: signed_qty_side)
  ultimately show ?thesis using apply_fill_overflow [OF assms(1)] assms(5) by simp
qed

lemma buys_at_one_price:
  assumes "0 \<notin> set qs" "0 \<le> ms_position st" "ms_position st = 0 \<or> ms_avg_cost_fp st = p" "\<not> ms_overflow st"
    "ms_position st + total_qty qs < 2 ^ 63" "\<bar>p\<bar> * (ms_position st + total_qty qs) < 2 ^ 63"
  shows "\<exists>st'. apply_fills st (fills_at Buy p qs) = Some st' \<and> ms_position st' = ms_position st + total_qty qs \<and>
    ms_realized_pnl_fp st' = ms_realized_pnl_fp st \<and> (ms_position st' = 0 \<or> ms_avg_cost_fp st' = p) \<and> \<not> ms_overflow st'"
  using assms
proof (induction qs arbitrary: st)
  case (Cons q qs)
  then have q: "q \<noteq> 0" "0 < uint q" by (auto intro: qty_pos)
  obtain st1 where st1: "apply_fill st Buy p q = Some st1" using apply_fill_returns [OF q(1)] by blast
  have pos: "ms_position st1 = ms_position st + uint q" using apply_fill_position [OF st1] by (simp add: signed_qty_side)
  have "ms_position st = 0 \<or> (ms_position st > 0) = (signed_qty Buy q > 0) \<and> ms_avg_cost_fp st = p"
    using Cons.prems(2,3) q(2) by (auto simp: signed_qty_side)
  note E = same_price_exact [OF st1 this]
  have le: "ms_position st + uint q \<le> ms_position st + total_qty (q # qs)" using total_nonneg [of qs] by simp
  have r: "ms_position st + uint q < 2 ^ 63" using le Cons.prems(5) by linarith
  have "\<bar>p\<bar> * (ms_position st + uint q) \<le> \<bar>p\<bar> * (ms_position st + total_qty (q # qs))" using le by (intro mult_left_mono) simp_all
  then have "\<bar>p\<bar> * (ms_position st + uint q) < 2 ^ 63" using Cons.prems(6) by linarith
  from buy_in_range [OF st1 q(2) Cons.prems(2-4) r this] have ov: "\<not> ms_overflow st1" .
  have "0 \<le> ms_position st1" "ms_position st1 = 0 \<or> ms_avg_cost_fp st1 = p" "ms_position st1 + total_qty qs < 2 ^ 63"
    "\<bar>p\<bar> * (ms_position st1 + total_qty qs) < 2 ^ 63" using pos E Cons.prems(2,5,6) q(2) by (simp_all add: add.assoc)
  from Cons.IH [OF _ this(1,2) ov this(3,4)] Cons.prems(1) obtain st' where
    "apply_fills st1 (fills_at Buy p qs) = Some st'" "ms_position st' = ms_position st1 + total_qty qs"
    "ms_realized_pnl_fp st' = ms_realized_pnl_fp st1" "ms_position st' = 0 \<or> ms_avg_cost_fp st' = p" "\<not> ms_overflow st'" by auto
  with st1 E pos show ?case by auto
qed simp

lemma sells_at_one_price:
  assumes "0 \<notin> set qs" "ms_avg_cost_fp st = p" "total_qty qs \<le> ms_position st" "0 < ms_position st" "\<not> ms_overflow st"
    "ms_realized_pnl_fp st = d * (r - p)" "0 \<le> d" "(d + total_qty qs) * \<bar>r - p\<bar> < 2 ^ 63" "ms_position st < 2 ^ 63"
  shows "\<exists>st'. apply_fills st (fills_at Sell r qs) = Some st' \<and> ms_position st' = ms_position st - total_qty qs \<and>
    ms_realized_pnl_fp st' = (d + total_qty qs) * (r - p) \<and> (ms_position st' = 0 \<longrightarrow> ms_avg_cost_fp st' = 0) \<and> \<not> ms_overflow st'"
  using assms
proof (induction qs arbitrary: st d)
  case (Cons q qs)
  then have q: "q \<noteq> 0" "0 < uint q" by (auto intro: qty_pos)
  have tq: "uint q \<le> ms_position st" "total_qty qs \<le> ms_position st - uint q"
    using Cons.prems(3) total_nonneg [of qs] by auto
  obtain st1 where st1: "apply_fill st Sell r q = Some st1" using apply_fill_returns [OF q(1)] by blast
  have S: "ms_position st1 = ms_position st - uint q" "ms_realized_pnl_fp st1 = ms_realized_pnl_fp st + uint q * (r - p)"
    "ms_avg_cost_fp st1 = (if ms_position st1 = 0 then 0 else p)"
    using st1 by (cases rule: apply_fill_cases; use q(2) tq(1) Cons.prems(2,4) in \<open>simp add: signed_qty_side algebra_simps\<close>)+
  have rl: "ms_realized_pnl_fp st1 = (d + uint q) * (r - p)" using S(2) Cons.prems(6) by (simp add: distrib_right)
  have "(d + uint q) * \<bar>r - p\<bar> \<le> (d + total_qty (q # qs)) * \<bar>r - p\<bar>" using total_nonneg [of qs] by (intro mult_right_mono) simp_all
  then have "(d + uint q) * \<bar>r - p\<bar> < 2 ^ 63" using Cons.prems(8) by linarith
  from sell_in_range [OF st1 q(2) tq(1) Cons.prems(2,5-7) this Cons.prems(9)] have ov: "\<not> ms_overflow st1" .
  show ?case
  proof (cases "ms_position st1 = 0")
    case True
    then have "total_qty qs = 0" using tq(2) S(1) total_nonneg [of qs] by simp
    moreover have "qs = []"
    proof (cases qs)
      case (Cons q' qs')
      then have "0 < uint q'" using Cons.prems(1) \<open>0 \<notin> set (q # qs)\<close> by (auto intro: qty_pos)
      with \<open>total_qty qs = 0\<close> Cons total_nonneg [of qs'] show ?thesis by simp
    qed
    ultimately show ?thesis using st1 S rl ov True by simp
  next
    case False
    then have p1: "0 < ms_position st1" "ms_avg_cost_fp st1 = p" "total_qty qs \<le> ms_position st1" "ms_position st1 < 2 ^ 63" "0 \<le> d + uint q"
      "(d + uint q + total_qty qs) * \<bar>r - p\<bar> < 2 ^ 63" using S tq Cons.prems(7-9) q(2) by (simp_all add: add.assoc)
    from Cons.IH [OF _ p1(2,3,1) ov rl p1(5,6,4)] Cons.prems(1) obtain st' where
      "apply_fills st1 (fills_at Sell r qs) = Some st'" "ms_position st' = ms_position st1 - total_qty qs"
      "ms_realized_pnl_fp st' = (d + uint q + total_qty qs) * (r - p)"
      "ms_position st' = 0 \<longrightarrow> ms_avg_cost_fp st' = 0" "\<not> ms_overflow st'" by auto
    with st1 S(1) show ?thesis by (auto simp: add.assoc)
  qed
qed simp

text \<open>
  C33. A round trip is exact. Buying at one price in any number of fills and selling the same total at
  another, in any number of fills, ends flat with a realized profit of exactly the quantity times the
  difference of the prices. The total quantity, its value at the buying price and the profit must fit in
  64 bits; then so does every number on the way, and nothing overflows.
\<close>

theorem round_trip_is_exact:
  assumes "0 \<notin> set bs" "0 \<notin> set ss" "total_qty bs = total_qty ss"
    "total_qty bs < 2 ^ 63" "\<bar>p\<bar> * total_qty bs < 2 ^ 63" "total_qty bs * \<bar>r - p\<bar> < 2 ^ 63"
  shows "\<exists>st. apply_fills mm_stats_zero (fills_at Buy p bs @ fills_at Sell r ss) = Some st \<and> ms_position st = 0 \<and>
    ms_avg_cost_fp st = 0 \<and> ms_realized_pnl_fp st = total_qty bs * (r - p) \<and> \<not> ms_overflow st"
proof (cases "total_qty bs = 0")
  case True
  have e: "qs = []" if "0 \<notin> set qs" "total_qty qs = 0" for qs
  proof (cases qs)
    case (Cons q qs')
    then have "0 < uint q" using that by (auto intro: qty_pos)
    with that(2) Cons total_nonneg [of qs'] show ?thesis by simp
  qed
  show ?thesis using e [OF assms(1) True] e [OF assms(2)] True assms(3) by (simp add: mm_stats_zero_def)
next
  case False
  from buys_at_one_price [OF assms(1), of mm_stats_zero p] assms(4,5) obtain st1 where
    s1: "apply_fills mm_stats_zero (fills_at Buy p bs) = Some st1" "ms_position st1 = total_qty bs" "ms_realized_pnl_fp st1 = 0"
      "ms_position st1 = 0 \<or> ms_avg_cost_fp st1 = p" "\<not> ms_overflow st1" by (auto simp: mm_stats_zero_def)
  have "0 < ms_position st1" using False s1(2) total_nonneg [of bs] by simp
  from sells_at_one_price [OF assms(2) _ _ this s1(5), of p 0 r] s1 False assms(3,4,6) show ?thesis
    by (auto simp: apply_fills_append)
qed

theorem round_trip_is_exact_witness:
  "\<exists>st. apply_fills mm_stats_zero (fills_at Buy 100 [3, 4] @ fills_at Sell 130 [5, 2]) = Some st \<and> ms_realized_pnl_fp st = 210"
  using round_trip_is_exact [of "[3, 4]" "[5, 2]" 100 130] by auto

text \<open>
  C34. The books balance. After any fills of at most \<open>n\<close> each at prices of at most \<open>P\<close>, few and small enough
  for \<open>2 P + 1\<close> times their largest total quantity to fit in 64 bits: no number on the way has left 64
  bits, the position is the sum of the signed quantities, and the realized profit differs from the cash
  flow plus the position at its average cost only by the remainders the divisions lost: at most \<open>n\<close> times
  the square of the number of fills, however large the prices are within that.
\<close>

theorem accounting_balances:
  assumes "apply_fills mm_stats_zero fs = Some st" "\<forall>(sd, p, q)\<in>set fs. unat q \<le> n \<and> \<bar>p\<bar> \<le> int P"
    "(2 * P + 1) * (length fs * n) < 2 ^ 63"
  shows "\<not> ms_overflow st \<and> ms_position st = fills_position fs \<and>
    \<bar>ms_realized_pnl_fp st - (fills_cash fs + ms_position st * ms_avg_cost_fp st)\<bar> \<le> int (length fs * (length fs * n))"
proof -
  have q: "\<forall>(sd, p, q)\<in>set fs. unat q \<le> n" using assms(2) by auto
  have "\<bar>ms_position mm_stats_zero\<bar> \<le> int 0" by (simp add: mm_stats_zero_def)
  note B = apply_fills_gap [OF assms(1) q this, of 0] apply_fills_position [OF assms(1)]
  have "\<not> ms_overflow st"
  proof (cases "n = 0")
    case True
    have "fs = []"
    proof (cases fs)
      case (Cons f fs')
      obtain sd p q where f: "f = (sd, p, q)" by (metis prod_cases3)
      then have "q = 0" using assms(2) Cons True by (simp add: unat_eq_zero)
      then show ?thesis using assms(1) Cons f by (simp add: apply_fill_def mm_stats_zero_def signed_qty_def Let_def split: if_splits)
    qed
    then show ?thesis using assms(1) by (auto simp: mm_stats_zero_def)
  next
    case False
    have z: "money_ok (int P) (int n) 0 mm_stats_zero" by (simp add: money_ok_def mm_stats_zero_def)
    have l: "\<forall>(sd, p, q)\<in>set fs. uint q \<le> int n \<and> \<bar>p\<bar> \<le> int P" using assms(2) by (auto intro: uint_le_int)
    have "int ((2 * P + 1) * (length fs * n)) < int (2 ^ 63)" using assms(3) by (simp only: of_nat_less_iff)
    then have b: "(2 * int P + 1) * ((0 + int (length fs)) * int n) < 2 ^ 63" by (simp add: distrib_right)
    show ?thesis by (rule money_ok_fills [OF assms(1) z l _ _ _ b]) (use False in simp_all)
  qed
  then show ?thesis using B by (simp add: cost_gap_def mm_stats_zero_def)
qed

theorem accounting_balances_witness:
  "\<exists>st. apply_fills mm_stats_zero [(Buy, 100, 3), (Buy, 101, 4), (Sell, 90, 2)] = Some st \<and> ms_position st = 5 \<and> \<not> ms_overflow st"
proof -
  let ?fs = "[(Buy, 100, 3), (Buy, 101, 4), (Sell, 90, 2)] :: (side \<times> price \<times> qty) list"
  obtain st where st: "apply_fills mm_stats_zero ?fs = Some st" using apply_fills_returns [of ?fs] by auto
  from accounting_balances [OF st, of 4 101] st show ?thesis by (auto simp: fills_position_def signed_qty_def)
qed

section \<open>Quotes\<close>

text \<open>
  C35. Quotes respect the limit. A side is quoted only if filling it whole keeps the position inside the
  limit; with both sides quoted the ask is twice the half spread above the bid; every side not quoted
  is counted, and quoting changes neither position nor cost.
\<close>

theorem quote_respects_limit:
  "compute_quote skew mm mid = (q, mm') \<Longrightarrow>
    (q_bid q \<noteq> PRICE_INVALID \<longrightarrow> ms_position (mm_stats_of mm) + uint (mc_quote_qty (mm_cfg mm)) \<le> mc_position_limit (mm_cfg mm)) \<and>
    (q_ask q \<noteq> PRICE_INVALID \<longrightarrow> - mc_position_limit (mm_cfg mm) \<le> ms_position (mm_stats_of mm) - uint (mc_quote_qty (mm_cfg mm))) \<and>
    (q_bid q \<noteq> PRICE_INVALID \<and> q_ask q \<noteq> PRICE_INVALID \<longrightarrow> q_ask q - q_bid q = 2 * mc_half_spread (mm_cfg mm)) \<and>
    ms_position (mm_stats_of mm') = ms_position (mm_stats_of mm) \<and> ms_avg_cost_fp (mm_stats_of mm') = ms_avg_cost_fp (mm_stats_of mm) \<and>
    ms_realized_pnl_fp (mm_stats_of mm') = ms_realized_pnl_fp (mm_stats_of mm) \<and> mm_open_orders mm' = mm_open_orders mm \<and>
    ms_suppressed (mm_stats_of mm') = ms_suppressed (mm_stats_of mm) +
      (if ms_position (mm_stats_of mm) + uint (mc_quote_qty (mm_cfg mm)) \<le> mc_position_limit (mm_cfg mm) then 0 else 1) +
      (if - mc_position_limit (mm_cfg mm) \<le> ms_position (mm_stats_of mm) - uint (mc_quote_qty (mm_cfg mm)) then 0 else 1)"
  by (auto simp: compute_quote_def Let_def split: if_splits)

definition demo_maker :: market_maker where
  "demo_maker = mm_init 1 \<lparr>mc_half_spread = 4000, mc_position_limit = 500, mc_quote_qty = 100\<rparr> 999"

theorem quote_respects_limit_witness:
  "\<exists>q mm'. compute_quote (\<lambda>_. 0) demo_maker 100000000 = (q, mm') \<and> q_bid q = 99996000 \<and> q_ask q - q_bid q = 8000"
proof -
  obtain q mm' where q: "compute_quote (\<lambda>_. 0) demo_maker 100000000 = (q, mm')" by force
  then have "q_bid q = 99996000" "q_ask q = 100004000"
    by (auto simp: compute_quote_def Let_def demo_maker_def mm_init_def mm_stats_zero_def)
  with quote_respects_limit [OF q] q show ?thesis by (auto simp: PRICE_INVALID_def demo_maker_def mm_init_def)
qed

section \<open>Attribution\<close>

lemma apply_fill_fills: "apply_fill st sd p q = Some st' \<Longrightarrow> ms_fills st' = ms_fills st \<and> ms_suppressed st' = ms_suppressed st"
  by (auto simp: apply_fill_def Let_def split: if_splits)

text \<open>The side we registered for the order a report names, the incoming one first.\<close>

definition own_side :: "market_maker \<Rightarrow> exec_report \<Rightarrow> side option" where
  "own_side mm rpt = (case map_of (mm_open_orders mm) (er_order_id rpt) of
     Some sd \<Rightarrow> Some sd | None \<Rightarrow> map_of (mm_open_orders mm) (er_contra_order_id rpt))"

text \<open>
  C36. Fills are booked on our own side. A report that names one of our orders, as the incoming order or
  as the resting one, counts as a fill and moves the position by its quantity in the direction we
  registered, whatever side the report carries; a report that names none changes nothing.
\<close>

theorem fills_are_booked_on_our_side:
  assumes "er_exec_qty rpt \<noteq> 0"
  shows "case own_side mm rpt of
      None \<Rightarrow> mm_on_fill mm rpt = Some (False, mm)
    | Some sd \<Rightarrow> (\<exists>mm'. mm_on_fill mm rpt = Some (True, mm') \<and> mm_on_fill mm (rpt\<lparr>er_side := sd'\<rparr>) = Some (True, mm') \<and>
        ms_position (mm_stats_of mm') = ms_position (mm_stats_of mm) + (if sd = Buy then uint (er_exec_qty rpt) else - uint (er_exec_qty rpt)) \<and>
        ms_fills (mm_stats_of mm') = ms_fills (mm_stats_of mm) + 1)"
proof (cases "own_side mm rpt")
  case None
  then show ?thesis by (auto simp: own_side_def mm_on_fill_def Let_def split: option.splits)
next
  case (Some sd)
  obtain st where st: "apply_fill (mm_stats_of mm) sd (er_exec_price rpt) (er_exec_qty rpt) = Some st"
    using apply_fill_returns [OF assms] by blast
  note P = apply_fill_position [OF st] apply_fill_fills [OF st]
  show ?thesis using Some st P
    by (auto simp: own_side_def mm_on_fill_def Let_def signed_qty_def split: option.splits)
qed

definition demo_report :: exec_report where
  "demo_report = \<lparr>er_order_id = 9, er_contra_order_id = 5, er_exec_price = 100, er_exec_qty = 10, er_leaves_qty = 0,
     er_symbol = 1, er_side = Sell, er_exec_type = ExecFill\<rparr>"

theorem fills_are_booked_on_our_side_witness:
  "\<exists>mm'. mm_on_fill (register_order demo_maker 5 Buy) demo_report = Some (True, mm') \<and> ms_position (mm_stats_of mm') = 10"
  using fills_are_booked_on_our_side [of demo_report "register_order demo_maker 5 Buy" Buy]
  by (auto simp: own_side_def demo_report_def register_order_def demo_maker_def mm_init_def mm_stats_zero_def)

text \<open>An incoming order that the first resting order at the best price can fill whole.\<close>

lemma aliq_queue_any: "aliq_queue 0 R = (False, sum_list (map (\<lambda>r. unat (rs_qty r)) R))"
  by (induction R) simp_all

lemma afill_zero: "afill acct 0 R = ([], 0, R, False)"
  by (cases R) simp_all

lemma hit_book:
  assumes A: "A (\<not> is_buy o1) = (p, r # R) # L" and cr: "crosses o1 p" and ac: "ord_account o1 = 0"
    and q: "ord_qty_remaining o1 \<noteq> 0" "ord_qty_remaining o1 \<le> rs_qty r"
  shows "\<exists>A'. aadd A o1 = (True, A', [(rs_id r, p, ord_qty_remaining o1)]) \<and>
    (ord_qty_remaining o1 < rs_qty r \<longrightarrow>
      A' = A(\<not> is_buy o1 := (p, r\<lparr>rs_qty := rs_qty r - ord_qty_remaining o1\<rparr> # R) # L))"
proof -
  have "unat (ord_qty_remaining o1) \<le> aliq (crosses o1) 0 (A (\<not> is_buy o1))"
    using cr q(2) by (simp add: A aliq_queue_any word_le_nat_alt)
  then have l: "\<not> aliq (crosses o1) (ord_account o1) (A (\<not> is_buy o1)) < unat (ord_qty_remaining o1)" by (simp add: ac)
  show ?thesis
  proof (cases "ord_qty_remaining o1 < rs_qty r")
    case True
    then have "\<not> rs_qty r \<le> ord_qty_remaining o1" by simp
    then have "amatch (crosses o1) (ord_account o1) (ord_qty_remaining o1) (A (\<not> is_buy o1)) =
        ([(rs_id r, p, ord_qty_remaining o1)], 0, (p, r\<lparr>rs_qty := rs_qty r - ord_qty_remaining o1\<rparr> # R) # L, False)"
      using cr q(1) by (simp add: A ac priced_def)
    then show ?thesis using l by (simp add: aadd_def Let_def)
  next
    case False
    then have e: "ord_qty_remaining o1 = rs_qty r" using q(2) by simp
    have m: "amatch cr acct 0 L = ([], 0, L, False)" for cr acct by (cases L) auto
    obtain X where "amatch (crosses o1) (ord_account o1) (ord_qty_remaining o1) (A (\<not> is_buy o1)) =
        ([(rs_id r, p, ord_qty_remaining o1)], 0, X, False)"
      using cr q(1) by (cases "R = []") (simp_all add: A ac e priced_def afill_zero m)
    then show ?thesis using l False by (simp add: aadd_def Let_def)
  qed
qed

text \<open>
  \<open>hits s sd p m\<close>: a message with a new order against side \<open>sd\<close> of symbol \<open>s\<close> that trades at \<open>p\<close>, of whatever
  type; \<open>hit_report\<close>: the report of its fill by the resting order \<open>i\<close>.
\<close>

definition hits :: "symbol_id \<Rightarrow> side \<Rightarrow> price \<Rightarrow> md_msg \<Rightarrow> bool" where
  "hits s sd p m \<longleftrightarrow> md_msg_type m = NewOrder \<and> md_symbol m = s \<and> md_order_id m \<noteq> 0 \<and> md_side m \<noteq> sd \<and> md_qty m \<noteq> 0 \<and>
    crosses (order_of_msg m (md_order_id m)) p"

definition hit_report :: "order_id \<Rightarrow> price \<Rightarrow> md_msg \<Rightarrow> exec_report" where
  "hit_report i p m = \<lparr>er_order_id = md_order_id m, er_contra_order_id = i, er_exec_price = p, er_exec_qty = md_qty m,
     er_leaves_qty = 0, er_symbol = md_symbol m, er_side = md_side m, er_exec_type = ExecFill\<rparr>"

lemma hit_dispatch:
  assumes "unat s < kMaxSymbols" "fst A (unat s) = Some a" "a (sd = Buy) = (p, r # R) # L" "hits s sd p m" "md_qty m \<le> rs_qty r"
  shows "\<exists>a'. adispatch A m = (((fst A)(unat s := Some a'), snd A), [hit_report (rs_id r) p m]) \<and>
    (md_qty m < rs_qty r \<longrightarrow> a' = a((sd = Buy) := (p, r\<lparr>rs_qty := rs_qty r - md_qty m\<rparr> # R) # L))"
proof -
  let ?o = "order_of_msg m (md_order_id m)"
  have d: "(\<not> is_buy ?o) = (sd = Buy)" using assms(4) by (cases sd; cases "md_side m") (auto simp: hits_def is_buy_def order_of_msg_def)
  have o1: "ord_account ?o = 0" "ord_qty_remaining ?o = md_qty m" "crosses ?o p" "md_qty m \<noteq> 0"
    using assms(4) by (simp add: order_of_msg_def, simp add: order_of_msg_def, simp_all add: hits_def)
  from hit_book [of a ?o p r R L, unfolded d o1(2), OF assms(3) o1(3,1,4) assms(5)] obtain a' where
    a': "aadd a ?o = (True, a', [(rs_id r, p, md_qty m)])"
      "md_qty m < rs_qty r \<longrightarrow> a' = a((sd = Buy) := (p, r\<lparr>rs_qty := rs_qty r - md_qty m\<rparr> # R) # L)" by blast
  have "adispatch A m = (((fst A)(unat s := Some a'), snd A), [hit_report (rs_id r) p m])"
    using assms(1,2,4) a'(1) by (simp add: adispatch_def hits_def msg_cmd_def next_id_def report_def hit_report_def order_of_msg_def)
  with a'(2) show ?thesis by blast
qed

text \<open>
  C37. A resting order that is hit twice is booked once. The order to forget is chosen by the report's
  leaves quantity, which is the incoming order's. Take any book in which our order stands first at the
  best price of its side, and any two incoming orders against it, of any type, each of which it can fill
  whole, the second with what the first left. The engine reports both fills; at the first report the
  market maker, whatever else it keeps, books the quantity and forgets the order although the rest of it
  still stands, and the second report is not attributed: the position has moved by the first fill only.
\<close>

theorem partial_passive_fill_is_forgotten:
  assumes "books_good B A" "unat s < kMaxSymbols" "fst A (unat s) = Some a" "a (sd = Buy) = (p, r # R) # L"
    "hits s sd p m1" "hits s sd p m2" "unat (md_qty m1) + unat (md_qty m2) \<le> unat (rs_qty r)"
    "md_order_id m1 \<notin> all_ids a" "md_order_id m2 \<notin> all_ids a" "map_of (mm_open_orders mm) (rs_id r) = Some sd"
    "map_of (mm_open_orders mm) (md_order_id m1) = None" "map_of (mm_open_orders mm) (md_order_id m2) = None"
  shows "\<exists>B' mm'. dispatch_all B [m1, m2] = Some (B', [hit_report (rs_id r) p m1, hit_report (rs_id r) p m2]) \<and>
    mm_on_fill mm (hit_report (rs_id r) p m1) = Some (True, mm') \<and> mm_on_fill mm' (hit_report (rs_id r) p m2) = Some (False, mm') \<and>
    ms_position (mm_stats_of mm') = ms_position (mm_stats_of mm) + signed_qty sd (md_qty m1)"
proof -
  have q: "md_qty m1 \<noteq> 0" "0 < unat (md_qty m2)" using assms(5,6) by (simp_all add: hits_def unat_gt_0)
  have lt: "md_qty m1 < rs_qty r" using assms(7) q(2) by (simp add: word_less_nat_alt)
  let ?r = "r\<lparr>rs_qty := rs_qty r - md_qty m1\<rparr>"
  let ?a = "a((sd = Buy) := (p, ?r # R) # L)" and ?A = "((fst A)(unat s := Some (a((sd = Buy) := (p, r\<lparr>rs_qty := rs_qty r - md_qty m1\<rparr> # R) # L))), snd A)"
  from hit_dispatch [OF assms(2-5)] lt have d1: "adispatch A m1 = (?A, [hit_report (rs_id r) p m1])" by auto
  have "unat (rs_qty r - md_qty m1) = unat (rs_qty r) - unat (md_qty m1)" using lt by (simp add: unat_sub)
  then have q2: "md_qty m2 \<le> rs_qty ?r" using assms(7) by (simp add: word_le_nat_alt)
  obtain a2 where d2: "adispatch ?A m2 = (((fst ?A)(unat s := Some a2), snd ?A), [hit_report (rs_id r) p m2])"
    using hit_dispatch [OF assms(2), of ?A ?a sd p ?r R L m2] assms(6) q2 by auto
  have ids: "all_ids ?a = all_ids a" using assms(4) by (cases "sd = Buy") (auto simp: all_ids_def)
  have c: "msg_cmd n m = Some (AddCmd (order_of_msg m (md_order_id m)))" if "hits s sd p m" for n m
    using that by (simp add: hits_def msg_cmd_def)
  have sy: "md_symbol m1 = s" "md_symbol m2 = s" using assms(5,6) by (simp_all add: hits_def)
  have "msg_fresh A m1" using assms(3,8) sy by (simp add: msg_fresh_def c [OF assms(5)] cmd_fresh_def order_of_msg_def)
  moreover have "msg_fresh ?A m2" using assms(9) sy ids by (simp add: msg_fresh_def c [OF assms(6)] cmd_fresh_def order_of_msg_def del: fun_upd_apply)
      (simp add: fun_upd_apply)
  ultimately have "msgs_fresh A [m1, m2]" by (simp add: d1 del: fun_upd_apply)
  from dispatch_all_refines [OF assms(1) this] obtain B' where
    B': "dispatch_all B [m1, m2] = Some (B', [hit_report (rs_id r) p m1, hit_report (rs_id r) p m2])"
    by (auto simp: d1 d2 simp del: fun_upd_apply)
  from apply_fill_returns [OF q(1)] obtain st where st: "apply_fill (mm_stats_of mm) sd p (md_qty m1) = Some st" by blast
  let ?mm = "mm\<lparr>mm_stats_of := st\<lparr>ms_fills := ms_fills st + 1\<rparr>, mm_open_orders := omap_del (rs_id r) (mm_open_orders mm)\<rparr>"
  have "mm_on_fill mm (hit_report (rs_id r) p m1) = Some (True, ?mm)"
    using assms(10,11) st by (simp add: mm_on_fill_def hit_report_def Let_def)
  moreover have "mm_on_fill ?mm (hit_report (rs_id r) p m2) = Some (False, ?mm)"
    using assms(12) by (simp add: mm_on_fill_def hit_report_def Let_def)
  moreover have "ms_position (mm_stats_of ?mm) = ms_position (mm_stats_of mm) + signed_qty sd (md_qty m1)"
    using apply_fill_position [OF st] by simp
  ultimately show ?thesis using B' by blast
qed

text \<open>Our bid of 100 in an empty book, and two sell orders of 10 against it.\<close>

definition demo_rest :: md_msg where
  "demo_rest = md_zero\<lparr>md_price := 100, md_symbol := 1, md_msg_type := NewOrder, md_order_type := Limit,
     md_order_id := 5, md_qty := 100, md_side := Buy\<rparr>"

definition demo_hit :: "order_id \<Rightarrow> md_msg" where
  "demo_hit i = md_zero\<lparr>md_price := 100, md_symbol := 1, md_msg_type := NewOrder, md_order_type := Limit,
     md_order_id := i, md_qty := 10, md_side := Sell\<rparr>"

lemma demo_rest_book:
  "\<exists>B. books_good B (fst (adispatch_all (start_abooks 1) [demo_rest])) \<and>
    fst (fst (adispatch_all (start_abooks 1) [demo_rest])) 1 = Some (abook_init(True := [(100, [\<lparr>rs_id = 5, rs_qty = 100, rs_acct = 0\<rparr>])]))"
proof -
  have "msgs_fresh (start_abooks 1) [demo_rest]"
    by (rule new_orders_fresh) (auto simp: demo_rest_def start_abooks_def abook_init_def all_ids_def split: if_splits)
  from dispatch_all_refines [OF start_books_good this] show ?thesis
    by (auto simp: demo_rest_def adispatch_def msg_cmd_def next_id_def order_of_msg_def md_zero_def aadd_def Let_def
      start_abooks_def abook_init_def kMaxSymbols_def can_rest_def num_orders_def is_buy_def kMaxLevels_def kMaxOrders_def)
qed

theorem partial_passive_fill_is_forgotten_witness:
  "\<exists>B B' mm'. dispatch_all B [demo_hit 9, demo_hit 10] = Some (B', [hit_report 5 100 (demo_hit 9), hit_report 5 100 (demo_hit 10)]) \<and>
    mm_on_fill (register_order demo_maker 5 Buy) (hit_report 5 100 (demo_hit 9)) = Some (True, mm') \<and>
    mm_on_fill mm' (hit_report 5 100 (demo_hit 10)) = Some (False, mm') \<and> ms_position (mm_stats_of mm') = 10"
proof -
  let ?A = "fst (adispatch_all (start_abooks 1) [demo_rest])"
  let ?a = "abook_init(True := [(100, [\<lparr>rs_id = 5, rs_qty = 100, rs_acct = 0\<rparr>])])"
  obtain B where B: "books_good B ?A" "fst ?A 1 = Some ?a" using demo_rest_book by blast
  have h: "hits 1 Buy 100 (demo_hit i)" if "i \<noteq> 0" for i
    using that by (simp add: hits_def demo_hit_def crosses_def order_of_msg_def is_buy_def md_zero_def)
  have i: "md_order_id (demo_hit 9) \<notin> all_ids ?a" "md_order_id (demo_hit 10) \<notin> all_ids ?a"
    by (simp_all add: demo_hit_def all_ids_def abook_init_def)
  let ?mm = "register_order demo_maker 5 Buy"
  have m: "map_of (mm_open_orders ?mm) 5 = Some Buy" "map_of (mm_open_orders ?mm) (md_order_id (demo_hit 9)) = None"
    "map_of (mm_open_orders ?mm) (md_order_id (demo_hit 10)) = None" "ms_position (mm_stats_of ?mm) = 0"
    by (simp_all add: register_order_def demo_maker_def mm_init_def mm_stats_zero_def demo_hit_def)
  have q: "unat (md_qty (demo_hit 9)) + unat (md_qty (demo_hit 10)) \<le> unat (100 :: qty)" "signed_qty Buy (md_qty (demo_hit 9)) = 10"
    by (simp_all add: demo_hit_def signed_qty_def)
  have s1: "unat (1 :: symbol_id) < kMaxSymbols" "fst ?A (unat (1 :: symbol_id)) = Some ?a" using B(2) by (simp_all add: kMaxSymbols_def)
  have bk: "?a (Buy = Buy) = (100, \<lparr>rs_id = 5, rs_qty = 100, rs_acct = 0\<rparr> # []) # []" by simp
  have h9: "hits 1 Buy 100 (demo_hit 9)" and h10: "hits 1 Buy 100 (demo_hit 10)" by (simp_all add: h)
  have "\<exists>B' mm'. dispatch_all B [demo_hit 9, demo_hit 10] = Some (B', [hit_report 5 100 (demo_hit 9), hit_report 5 100 (demo_hit 10)]) \<and>
    mm_on_fill ?mm (hit_report 5 100 (demo_hit 9)) = Some (True, mm') \<and> mm_on_fill mm' (hit_report 5 100 (demo_hit 10)) = Some (False, mm') \<and>
    ms_position (mm_stats_of mm') = ms_position (mm_stats_of ?mm) + signed_qty Buy (md_qty (demo_hit 9))"
    using partial_passive_fill_is_forgotten [OF B(1) s1 bk h9 h10, of ?mm] i m(1-3) q(1) by (simp only: resting.select_convs simp_thms)
  then show ?thesis unfolding m(4) q(2) by (metis add_0)
qed

end
