(* ===== verification/Exposure.thy ===== *)
theory Exposure
  imports Feed
begin

text \<open>
  What is still at stake for one order id: the quantity of it that rests in a book, and the
  quantity of reports that name it. Matching only moves quantity from the book into reports, so
  a trader's exposure is what it submitted and never grows by what others do. \<^verbatim>\<open>Mm_Demo\<close> bounds the
  market maker's position with it.
\<close>

section \<open>Quantities by order id\<close>

definition report_names :: "order_id \<Rightarrow> exec_report \<Rightarrow> bool" where
  "report_names X r \<longleftrightarrow> er_order_id r = X \<or> er_contra_order_id r = X"

definition named_qty :: "order_id \<Rightarrow> exec_report list \<Rightarrow> nat" where
  "named_qty X rs = sum_list (map (\<lambda>r. unat (er_exec_qty r)) (filter (report_names X) rs))"

definition resting_qty :: "order_id \<Rightarrow> resting list \<Rightarrow> nat" where
  "resting_qty X R = sum_list (map (\<lambda>r. unat (rs_qty r)) (filter (\<lambda>r. rs_id r = X) R))"

definition book_qty :: "order_id \<Rightarrow> abook \<Rightarrow> nat" where
  "book_qty X A = resting_qty X (orders_of (A True)) + resting_qty X (orders_of (A False))"

definition fills_of :: "order_id \<Rightarrow> (order_id \<times> price \<times> qty) list \<Rightarrow> nat" where
  "fills_of X fs = sum_list (map (\<lambda>(c, p, f). unat f) (filter (\<lambda>(c, p, f). c = X) fs))"

lemma named_qty_simps [simp]:
  "named_qty X [] = 0" "named_qty X (r # rs) = (if report_names X r then unat (er_exec_qty r) else 0) + named_qty X rs"
  "named_qty X (rs @ ss) = named_qty X rs + named_qty X ss"
  by (simp_all add: named_qty_def)

lemma resting_qty_simps [simp]:
  "resting_qty X [] = 0" "resting_qty X (r # R) = (if rs_id r = X then unat (rs_qty r) else 0) + resting_qty X R"
  "resting_qty X (R @ S) = resting_qty X R + resting_qty X S"
  by (simp_all add: resting_qty_def)

lemma fills_of_simps [simp]:
  "fills_of X [] = 0" "fills_of X ((c, p, f) # fs) = (if c = X then unat f else 0) + fills_of X fs"
  "fills_of X (fs @ gs) = fills_of X fs + fills_of X gs"
  by (simp_all add: fills_of_def)

lemma book_qty_alt: "book_qty X A = resting_qty X (orders_of (A d)) + resting_qty X (orders_of (A (\<not> d)))"
  by (cases d) (simp_all add: book_qty_def)

lemma resting_qty_mset: "mset R = mset S \<Longrightarrow> resting_qty X R = resting_qty X S"
  by (simp add: resting_qty_def flip: sum_mset_sum_list)

lemma named_qty_subseq: "subseq rs ss \<Longrightarrow> named_qty X rs \<le> named_qty X ss"
  by (induction rule: list_emb.induct) auto

lemma resting_qty_0: "X \<notin> rs_id ` set R \<Longrightarrow> resting_qty X R = 0"
  by (induction R) auto

lemma book_qty_0: "X \<notin> all_ids A \<Longrightarrow> book_qty X A = 0"
  by (auto simp: book_qty_def all_ids_def intro!: resting_qty_0)

lemma fills_of_le: "fills_of X fs \<le> fill_total fs"
  by (induction fs) auto

lemma named_reports:
  "named_qty X (reports s o1 fs) = (if ord_id o1 = X then fill_total fs else fills_of X fs)"
  by (induction fs arbitrary: o1) (auto simp: report_def report_names_def)

section \<open>Matching moves quantity into reports\<close>

lemma afill_fills_of:
  "afill acct q R = (fs, q', R', w) \<Longrightarrow> resting_qty X R = resting_qty X R' + fills_of X (priced p fs)"
proof (induction acct q R arbitrary: fs q' R' w rule: afill.induct)
  case (2 acct q r R)
  consider "q = 0 \<or> acct \<noteq> 0 \<and> acct = rs_acct r"
    | "q \<noteq> 0" "\<not> (acct \<noteq> 0 \<and> acct = rs_acct r)" "rs_qty r \<le> q"
    | "q \<noteq> 0" "\<not> (acct \<noteq> 0 \<and> acct = rs_acct r)" "\<not> rs_qty r \<le> q" by blast
  then show ?case
  proof cases
    case 1
    with "2.prems" show ?thesis by (auto simp: priced_def split: if_splits)
  next
    case 2
    obtain gs q1 R1 w1 where af: "afill acct (q - rs_qty r) R = (gs, q1, R1, w1)" by (metis prod_cases4)
    with "2.prems" 2 have "fs = (rs_id r, rs_qty r) # gs" "R' = R1" by auto
    with "2.IH" [OF 2 af] show ?thesis by (simp add: priced_def)
  next
    case 3
    with "2.prems" have "fs = [(rs_id r, q)]" "R' = r\<lparr>rs_qty := rs_qty r - q\<rparr> # R" by (auto split: if_splits)
    moreover have "unat (rs_qty r - q) = unat (rs_qty r) - unat q" "unat q \<le> unat (rs_qty r)"
      using 3(3) by (simp_all add: unat_sub_le word_le_nat_alt)
    ultimately show ?thesis by (simp add: priced_def)
  qed
qed (auto simp: priced_def)

lemma amatch_fills_of:
  "amatch cr acct q L = (fs, q', L', w) \<Longrightarrow> resting_qty X (orders_of L) = resting_qty X (orders_of L') + fills_of X fs"
proof (induction L arbitrary: q fs q' L' w)
  case (Cons l L)
  obtain p R where l: "l = (p, R)" by force
  from Cons.prems [unfolded l] show ?case
  proof (cases rule: amatch_cases)
    case none
    then show ?thesis by (simp add: l)
  next
    case (stop gs R')
    then show ?thesis using afill_fills_of [OF stop(3)] by (simp add: l)
  next
    case (next1 gs q1 hs)
    then show ?thesis using afill_fills_of [OF next1(3), of X p] Cons.IH [OF next1(4)] by (simp add: l)
  qed
qed simp

lemma ainsert_qty: "resting_qty X (orders_of (ainsert d p r L)) = resting_qty X (r # orders_of L)"
  by (rule resting_qty_mset) (simp add: ainsert_mset)

lemma aadd_exposure:
  assumes "aadd A o1 = (ok, A', fs)"
  shows "book_qty X A' + named_qty X (reports s o1 fs) \<le>
    book_qty X A + (if ord_id o1 = X then unat (ord_qty_remaining o1) else 0)"
  using assms
proof (cases rule: aadd_cases)
  case killed
  then show ?thesis by simp
next
  case (matched q L w)
  note C = amatch_conserve [OF matched(1)] and F = amatch_fills_of [OF matched(1), of X]
  have "book_qty X A' = resting_qty X (orders_of L) + resting_qty X (orders_of (A (is_buy o1)))"
    using book_qty_alt [of X A' "\<not> is_buy o1"] by (simp add: matched(2))
  moreover have "book_qty X A = resting_qty X (orders_of (A (\<not> is_buy o1))) + resting_qty X (orders_of (A (is_buy o1)))"
    using book_qty_alt [of X A "\<not> is_buy o1"] by simp
  ultimately show ?thesis using C F by (simp add: named_reports)
next
  case (rested q L w)
  note C = amatch_conserve [OF rested(1)] and F = amatch_fills_of [OF rested(1), of X]
  have "book_qty X A' = resting_qty X (orders_of L) + (if ord_id o1 = X then unat q else 0) + resting_qty X (orders_of (A (is_buy o1)))"
    using book_qty_alt [of X A' "\<not> is_buy o1"] by (simp add: rested(3) ainsert_qty)
  moreover have "book_qty X A = resting_qty X (orders_of (A (\<not> is_buy o1))) + resting_qty X (orders_of (A (is_buy o1)))"
    using book_qty_alt [of X A "\<not> is_buy o1"] by simp
  ultimately show ?thesis using C F by (simp add: named_reports)
qed

lemma acancel_exposure:
  assumes "acancel A oid = (ok, A')"
  shows "book_qty X A' \<le> book_qty X A"
proof -
  have "resting_qty X (filter P R) \<le> resting_qty X R" for P R by (induction R) auto
  then have "book_qty X (\<lambda>d. acancel_side oid (A d)) \<le> book_qty X A"
    by (simp add: book_qty_def orders_acancel add_mono)
  then show ?thesis using assms by (auto simp: acancel_def split: if_splits)
qed

section \<open>Where an order rests\<close>

definition rests_at :: "abook \<Rightarrow> bool \<Rightarrow> price \<Rightarrow> order_id \<Rightarrow> bool" where
  "rests_at A d p X \<longleftrightarrow> (\<exists>R. (p, R) \<in> set (A d) \<and> X \<in> rs_id ` set R)"

lemma rests_orders: "X \<in> rs_id ` set (orders_of (A d)) \<longleftrightarrow> (\<exists>p. rests_at A d p X)"
  unfolding orders_of_def rests_at_def by (auto simp: image_iff) (metis, metis snd_conv)

lemma all_ids_rests: "X \<in> all_ids A \<longleftrightarrow> (\<exists>d p. rests_at A d p X)"
  using rests_orders [of X A True] rests_orders [of X A False] by (auto simp: all_ids_def ex_bool_eq)

lemma afill_ids:
  "afill acct q R = (fs, q', R', w) \<Longrightarrow> rs_id ` set R' \<subseteq> rs_id ` set R \<and> fst ` set fs \<subseteq> rs_id ` set R \<and>
    ((\<forall>r\<in>set R. rs_qty r \<noteq> 0) \<longrightarrow> 0 \<notin> snd ` set fs)"
proof (induction acct q R arbitrary: fs q' R' w rule: afill.induct)
  case (2 acct q r R)
  consider "q = 0 \<or> acct \<noteq> 0 \<and> acct = rs_acct r"
    | "q \<noteq> 0" "\<not> (acct \<noteq> 0 \<and> acct = rs_acct r)" "rs_qty r \<le> q"
    | "q \<noteq> 0" "\<not> (acct \<noteq> 0 \<and> acct = rs_acct r)" "\<not> rs_qty r \<le> q" by blast
  then show ?case
  proof cases
    case 1
    with "2.prems" show ?thesis by (auto split: if_splits)
  next
    case 2
    obtain gs q1 R1 w1 where af: "afill acct (q - rs_qty r) R = (gs, q1, R1, w1)" by (metis prod_cases4)
    with "2.prems" 2 have "fs = (rs_id r, rs_qty r) # gs" "R' = R1" by auto
    with "2.IH" [OF 2 af] show ?thesis by auto
  next
    case 3
    with "2.prems" have "fs = [(rs_id r, q)]" "R' = r\<lparr>rs_qty := rs_qty r - q\<rparr> # R" by (auto split: if_splits)
    with 3 show ?thesis by auto
  qed
qed simp

lemma priced_mem: "(c, p', f) \<in> set (priced p gs) \<longleftrightarrow> p' = p \<and> (c, f) \<in> set gs"
  by (auto simp: priced_def)

lemma amatch_level:
  "amatch cr acct q L = (fs, q', L', w) \<Longrightarrow> (p, R') \<in> set L' \<Longrightarrow> \<exists>R. (p, R) \<in> set L \<and> rs_id ` set R' \<subseteq> rs_id ` set R"
proof (induction L arbitrary: q fs q' L' w)
  case (Cons l L)
  obtain p1 R1 where l: "l = (p1, R1)" by force
  from Cons.prems(1) [unfolded l] show ?case
  proof (cases rule: amatch_cases)
    case none
    then show ?thesis using Cons.prems(2) by (auto simp: l)
  next
    case (stop gs R'')
    then show ?thesis using afill_ids [OF stop(3)] Cons.prems(2) by (cases "(p, R') \<in> set L") (auto simp: l)
  next
    case (next1 gs q1 hs)
    then show ?thesis using Cons.IH [OF next1(4) Cons.prems(2)] by (auto simp: l)
  qed
qed simp

lemma amatch_fill:
  "amatch cr acct q L = (fs, q', L', w) \<Longrightarrow> (c, p, f) \<in> set fs \<Longrightarrow>
    (\<exists>R. (p, R) \<in> set L \<and> c \<in> rs_id ` set R) \<and> ((\<forall>r\<in>set (orders_of L). rs_qty r \<noteq> 0) \<longrightarrow> f \<noteq> 0)"
proof (induction L arbitrary: q fs q' L' w)
  case (Cons l L)
  obtain p1 R1 where l: "l = (p1, R1)" by force
  have fill: "(\<exists>R. (p, R) \<in> set (l # L) \<and> c \<in> rs_id ` set R) \<and> ((\<forall>r\<in>set (orders_of (l # L)). rs_qty r \<noteq> 0) \<longrightarrow> f \<noteq> 0)"
    if af: "afill acct q R1 = (gs, q1, R2, w1)" and m: "(c, p, f) \<in> set (priced p1 gs)" for gs q1 R2 w1
  proof -
    have "p = p1" "(c, f) \<in> set gs" using m by (simp_all add: priced_mem)
    then have "c \<in> fst ` set gs" "f \<in> snd ` set gs" by force+
    with afill_ids [OF af] have "c \<in> rs_id ` set R1" "(\<forall>r\<in>set R1. rs_qty r \<noteq> 0) \<longrightarrow> f \<noteq> 0" by auto
    moreover have "(p, R1) \<in> set (l # L)" by (simp add: l \<open>p = p1\<close>)
    moreover have "set R1 \<subseteq> set (orders_of (l # L))" by (simp add: l)
    ultimately show ?thesis by blast
  qed
  from Cons.prems(1) [unfolded l] show ?case
  proof (cases rule: amatch_cases)
    case none
    then show ?thesis using Cons.prems(2) by simp
  next
    case (stop gs R'')
    then show ?thesis using fill [OF stop(3)] Cons.prems(2) by simp
  next
    case (next1 gs q1 hs)
    show ?thesis
    proof (cases "(c, p, f) \<in> set hs")
      case True
      with Cons.IH [OF next1(4) this] show ?thesis by auto
    next
      case False
      with fill [OF next1(3)] Cons.prems(2) next1(5) show ?thesis by simp
    qed
  qed
qed simp

lemma ainsert_rests:
  "(p', R') \<in> set (ainsert d p r L) \<Longrightarrow> X \<in> rs_id ` set R' \<Longrightarrow>
    (\<exists>R. (p', R) \<in> set L \<and> X \<in> rs_id ` set R) \<or> X = rs_id r \<and> p' = p"
proof (induction d p r L rule: ainsert.induct)
  case (2 d p r p1 R L)
  consider "p1 = p" | "p1 \<noteq> p" "better d p1 p" | "p1 \<noteq> p" "\<not> better d p1 p" by blast
  then show ?case
  proof cases
    case 1
    have "(p, R) \<in> set ((p1, R) # L)" by (simp add: 1)
    moreover have "X \<in> rs_id ` set R \<and> p' = p \<or> X = rs_id r \<and> p' = p \<or> (p', R') \<in> set ((p1, R) # L)"
      using "2.prems" 1 by auto
    ultimately show ?thesis using "2.prems"(2) by blast
  next
    case 2
    with "2.prems" "2.IH" [OF 2] show ?thesis by auto
  next
    case 3
    with "2.prems" show ?thesis by auto
  qed
qed auto

lemma aadd_rests:
  assumes "aadd A o1 = (ok, A', fs)" "rests_at A' d p X"
  shows "rests_at A d p X \<or> X = ord_id o1 \<and> d = is_buy o1 \<and> p = ord_price o1"
proof -
  from assms(2) obtain R' where R': "(p, R') \<in> set (A' d)" "X \<in> rs_id ` set R'" by (auto simp: rests_at_def)
  from assms(1) show ?thesis
  proof (cases rule: aadd_cases)
    case killed
    then show ?thesis using assms(2) by simp
  next
    case (matched q L w)
    show ?thesis
    proof (cases "d = is_buy o1")
      case True
      with R' matched(2) show ?thesis by (auto simp: rests_at_def)
    next
      case False
      then have "d = (\<not> is_buy o1)" "(p, R') \<in> set L" using R' matched(2) by auto
      with amatch_level [OF matched(1)] R'(2) show ?thesis unfolding rests_at_def by blast
    qed
  next
    case (rested q L w)
    show ?thesis
    proof (cases "d = is_buy o1")
      case True
      with R' rested(3) have "(p, R') \<in> set (ainsert (is_buy o1) (ord_price o1)
        \<lparr>rs_id = ord_id o1, rs_qty = q, rs_acct = ord_account o1\<rparr> (A (is_buy o1)))" by simp
      from ainsert_rests [OF this R'(2)] True show ?thesis by (auto simp: rests_at_def)
    next
      case False
      then have "d = (\<not> is_buy o1)" "(p, R') \<in> set L" using R' rested(3) by auto
      with amatch_level [OF rested(1)] R'(2) show ?thesis unfolding rests_at_def by blast
    qed
  qed
qed

lemma aadd_fills:
  assumes "aadd A o1 = (ok, A', fs)" "(c, p, f) \<in> set fs"
  shows "rests_at A (\<not> is_buy o1) p c" "crosses o1 p" "wf_abook A \<Longrightarrow> f \<noteq> 0"
proof -
  from assms obtain q L w where am: "amatch (crosses o1) (ord_account o1) (ord_qty_remaining o1) (A (\<not> is_buy o1)) = (fs, q, L, w)"
    by (cases rule: aadd_cases) auto
  show "rests_at A (\<not> is_buy o1) p c" using amatch_fill [OF am assms(2)] by (simp add: rests_at_def)
  show "crosses o1 p" using amatch_crosses [OF am] assms(2) by auto
  assume "wf_abook A"
  from wf_abook_side [OF this, of "\<not> is_buy o1"] have "\<forall>r\<in>set (orders_of (A (\<not> is_buy o1))). rs_qty r \<noteq> 0"
    by (simp add: wf_side_def)
  then show "f \<noteq> 0" using amatch_fill [OF am assms(2)] by simp
qed

lemma acancel_rests:
  assumes "acancel A oid = (ok, A')" "rests_at A' d p X"
  shows "rests_at A d p X \<and> X \<noteq> oid"
proof (cases "oid \<in> all_ids A")
  case True
  then have "A' = (\<lambda>d. acancel_side oid (A d))" using assms(1) by (simp add: acancel_def)
  then show ?thesis using assms(2) by (fastforce simp: rests_at_def acancel_side_def)
next
  case False
  then show ?thesis using assms by (auto simp: acancel_def all_ids_rests)
qed

section \<open>One message\<close>

text \<open>The messages of a trader that only enters limit orders under ids of its own and cancels.\<close>

definition plain_msg :: "symbol_id \<Rightarrow> md_msg \<Rightarrow> bool" where
  "plain_msg s m \<longleftrightarrow> md_symbol m = s \<and>
    (md_msg_type m = NewOrder \<and> md_order_id m \<noteq> 0 \<and> md_order_type m = Limit \<or> md_msg_type m = CancelOrder)"

definition new_qty :: "order_id \<Rightarrow> md_msg \<Rightarrow> nat" where
  "new_qty X m = (if md_msg_type m = NewOrder \<and> md_order_id m = X then unat (md_qty m) else 0)"

lemma plain_step:
  assumes p: "plain_msg s m" and s: "unat s < kMaxSymbols" and a: "fst AB (unat s) = Some a"
  obtains a' rs where "adispatch AB m = (((fst AB)(unat s := Some a'), snd AB), rs)"
    "\<And>X. book_qty X a' + named_qty X rs \<le> book_qty X a + new_qty X m"
    "\<And>d p X. rests_at a' d p X \<Longrightarrow> rests_at a d p X \<and> (md_msg_type m = CancelOrder \<longrightarrow> X \<noteq> md_order_id m) \<or>
      md_msg_type m = NewOrder \<and> X = md_order_id m \<and> d = (md_side m = Buy) \<and> p = md_price m"
    "\<And>r. r \<in> set rs \<Longrightarrow> md_msg_type m = NewOrder \<and> er_order_id r = md_order_id m \<and>
      (\<exists>p. rests_at a (md_side m \<noteq> Buy) p (er_contra_order_id r) \<and> (if md_side m = Buy then p \<le> md_price m else md_price m \<le> p)) \<and>
      (wf_abook a \<longrightarrow> er_exec_qty r \<noteq> 0)"
proof -
  note D = adispatch_def msg_cmd_def next_id_def Let_def
  from p consider (new) "md_msg_type m = NewOrder" "md_order_id m \<noteq> 0" "md_order_type m = Limit" "md_symbol m = s"
    | (cancel) "md_msg_type m = CancelOrder" "md_symbol m = s" by (auto simp: plain_msg_def)
  then show ?thesis
  proof cases
    case new
    let ?o = "order_of_msg m (md_order_id m)"
    obtain ok a' fs where add: "aadd a ?o = (ok, a', fs)" by (metis prod_cases3)
    have o1: "ord_id ?o = md_order_id m" "ord_qty_remaining ?o = md_qty m" "is_buy ?o = (md_side m = Buy)" "ord_price ?o = md_price m"
      "ord_type ?o = Limit" by (simp_all add: order_of_msg_def is_buy_def new(3))
    have oid: "er_order_id r = ord_id o2" if "r \<in> set (reports s o2 gs)" for r o2 gs
      using that by (induction gs arbitrary: o2) (auto simp: report_def)
    show ?thesis
    proof (rule that [of a' "reports s ?o fs"])
      show "adispatch AB m = (((fst AB)(unat s := Some a'), snd AB), reports s ?o fs)"
        using new s a add by (simp add: D)
      show "book_qty X a' + named_qty X (reports s ?o fs) \<le> book_qty X a + new_qty X m" for X
        using aadd_exposure [OF add, of X s] unfolding o1 new_qty_def by (simp only: new(1) simp_thms)
      show "rests_at a d p X \<and> (md_msg_type m = CancelOrder \<longrightarrow> X \<noteq> md_order_id m) \<or>
        md_msg_type m = NewOrder \<and> X = md_order_id m \<and> d = (md_side m = Buy) \<and> p = md_price m" if "rests_at a' d p X" for d p X
        using aadd_rests [OF add that] by (simp add: o1 new(1))
      fix r assume r: "r \<in> set (reports s ?o fs)"
      note F = aadd_fills [OF add reports_mem [OF r]]
      have "if md_side m = Buy then er_exec_price r \<le> md_price m else md_price m \<le> er_exec_price r"
        using F(2) unfolding crosses_def o1 by (simp add: not_less split: if_splits)
      then show "md_msg_type m = NewOrder \<and> er_order_id r = md_order_id m \<and>
          (\<exists>p. rests_at a (md_side m \<noteq> Buy) p (er_contra_order_id r) \<and> (if md_side m = Buy then p \<le> md_price m else md_price m \<le> p)) \<and>
          (wf_abook a \<longrightarrow> er_exec_qty r \<noteq> 0)"
        using F(1,3) oid [OF r] by (auto simp: o1 new(1))
    qed
  next
    case cancel
    obtain ok a' where c: "acancel a (md_order_id m) = (ok, a')" by force
    show ?thesis
    proof (rule that [of a' "[]"])
      show "adispatch AB m = (((fst AB)(unat s := Some a'), snd AB), [])" using cancel s a c by (simp add: D)
      show "book_qty X a' + named_qty X [] \<le> book_qty X a + new_qty X m" for X
        using acancel_exposure [OF c, of X] by simp
      show "rests_at a d p X \<and> (md_msg_type m = CancelOrder \<longrightarrow> X \<noteq> md_order_id m) \<or>
        md_msg_type m = NewOrder \<and> X = md_order_id m \<and> d = (md_side m = Buy) \<and> p = md_price m" if "rests_at a' d p X" for d p X
        using acancel_rests [OF c that] by simp
    qed simp
  qed
qed

section \<open>The engine with its waiting messages\<close>

text \<open>
  \<open>A\<close> is the abstract view of the books; \<open>settled\<close> the books once the waiting messages are processed
  and \<open>future\<close> the reports these will produce. Neither depends on how far the engine has come.
\<close>

definition engine_sync :: "engine \<Rightarrow> abooks \<Rightarrow> bool" where
  "engine_sync e A \<longleftrightarrow> rings_ok e \<and> books_good (books_of e) A \<and> msgs_fresh A (inq e)"

definition settled :: "abooks \<Rightarrow> engine \<Rightarrow> abooks" where
  "settled A e = fst (adispatch_all A (inq e))"

definition future :: "abooks \<Rightarrow> engine \<Rightarrow> exec_report list" where
  "future A e = snd (adispatch_all A (inq e))"

lemma sync_step:
  assumes sy: "engine_sync e A" and st: "engine_step e = Some e'"
  obtains A' rs where "engine_sync e' A'" "settled A' e' = settled A e" "future A e = rs @ future A' e'"
    "outq e' = outq e @ take (queue_room - length (outq e)) rs"
    "inq e = [] \<and> inq e' = [] \<and> en_stat_messages e' = en_stat_messages e \<or>
     (\<exists>m. inq e = m # inq e') \<and> en_stat_messages e' = en_stat_messages e + 1"
proof -
  have ok: "rings_ok e" and g: "books_good (books_of e) A" and f: "msgs_fresh A (inq e)"
    using sy by (simp_all add: engine_sync_def)
  from ok st show ?thesis
  proof (cases rule: engine_step_ring)
    case idle
    then show ?thesis using g by (intro that [of A "[]"]) (simp_all add: engine_sync_def settled_def future_def)
  next
    case (work m ms B rs)
    obtain A' rs' where d: "adispatch A m = (A', rs')" by (cases "adispatch A m") blast
    from dispatch_refines [OF g, of m] f work(1,3) d have B: "books_good B A'" "rs = rs'" by auto
    show ?thesis
      by (rule that [of A' rs])
        (use work B f d in \<open>auto simp: engine_sync_def settled_def future_def split: prod.splits\<close>)
  qed
qed

lemma sync_step_returns:
  assumes "engine_sync e A"
  shows "\<exists>e'. engine_step e = Some e'"
proof -
  have ok: "rings_ok e" and g: "books_good (books_of e) A" and f: "msgs_fresh A (inq e)"
    using assms by (simp_all add: engine_sync_def)
  have "dispatch (books_of e) m \<noteq> None" if "inq e = m # ms" for m ms
    using dispatch_refines [OF g, of m] f that by auto
  then have "engine_step e \<noteq> None" by (intro engine_step_returns [OF ok]) (auto simp: neq_Nil_conv)
  then show ?thesis by blast
qed

lemma sync_submit:
  assumes sy: "engine_sync e A" and su: "engine_submit e m = (ok, e')" and f: "msg_fresh (settled A e) m"
  shows "engine_sync e' A" "outq e' = outq e" "en_stat_messages e' = en_stat_messages e"
    "ok = (length (inq e) < queue_room)" "inq e' = (if ok then inq e @ [m] else inq e)"
    "settled A e' = (if ok then fst (adispatch (settled A e) m) else settled A e)"
    "future A e' = (if ok then future A e @ snd (adispatch (settled A e) m) else future A e)"
proof -
  have r: "rings_ok e" using sy by (simp add: engine_sync_def)
  note S = submit_ring [OF r su]
  have "books_of e' = books_of e" using S by (simp add: books_of_def)
  then show "engine_sync e' A" using sy S f by (auto simp: engine_sync_def msgs_fresh_append settled_def)
  show "settled A e' = (if ok then fst (adispatch (settled A e) m) else settled A e)"
    "future A e' = (if ok then future A e @ snd (adispatch (settled A e) m) else future A e)"
    using S(3) by (auto simp: settled_def future_def adispatch_all_append Let_def split: prod.splits)
qed (use submit_ring [OF _ su] sy in \<open>simp_all add: engine_sync_def\<close>)

lemma sync_poll:
  assumes sy: "engine_sync e A" and po: "poll_report e = (r, e')"
  shows "engine_sync e' A" "settled A e' = settled A e" "future A e' = future A e" "inq e' = inq e"
    "en_stat_messages e' = en_stat_messages e" "r = (case outq e of [] \<Rightarrow> None | x # xs \<Rightarrow> Some x)" "outq e' = tl (outq e)"
proof -
  have "rings_ok e" using sy by (simp add: engine_sync_def)
  note P = poll_ring [OF this po]
  show "engine_sync e' A" "settled A e' = settled A e" "future A e' = future A e" "inq e' = inq e"
    "en_stat_messages e' = en_stat_messages e" "r = (case outq e of [] \<Rightarrow> None | x # xs \<Rightarrow> Some x)" "outq e' = tl (outq e)"
    using P sy by (simp_all add: engine_sync_def settled_def future_def books_of_def)
qed

lemma settled_good:
  assumes "engine_sync e A"
  shows "\<exists>B. books_good B (settled A e)"
  using dispatch_all_refines [of "books_of e" A "inq e"] assms by (auto simp: engine_sync_def settled_def)

lemma settled_wf:
  assumes "engine_sync e A" "fst (settled A e) (unat (s :: symbol_id)) = Some a"
  shows "wf_abook a"
proof -
  from settled_good [OF assms(1)] obtain B where B: "books_good B (settled A e)" by blast
  from books_goodD(2) [OF B, of s] assms(2) obtain b where "fst B (unat s) = Some b" by fastforce
  from books_goodD(3) [OF B this assms(2)] show ?thesis by (simp add: good_book_def)
qed

text \<open>What an order can still do: the reports on their way and what rests once all is processed.\<close>

definition pending :: "abooks \<Rightarrow> engine \<Rightarrow> exec_report list" where
  "pending A e = outq e @ future A e"

definition exposure :: "symbol_id \<Rightarrow> abooks \<Rightarrow> engine \<Rightarrow> order_id \<Rightarrow> nat" where
  "exposure s A e X = named_qty X (pending A e) +
    (case fst (settled A e) (unat s) of None \<Rightarrow> 0 | Some a \<Rightarrow> book_qty X a)"

end
