(* ===== verification/Mm_Demo.thy ===== *)
theory Mm_Demo
  imports Exposure Market_Maker
begin

text \<open>
  \<^verbatim>\<open>run_market_maker_demo\<close>: the market maker quoting into an engine that also receives a synthetic
  order flow. Two threads: the engine thread, and the program's own, whose program points are the
  constructors of \<open>demo_pc\<close>. One turn of either is one function; a run is any sequence of turns.
  The clock is an argument: whether the deadline of the loop being tested has passed.
\<close>

section \<open>State\<close>

datatype wait_point = AfterNoise | AfterCancel | AfterQuote | AfterWithdraw

datatype demo_pc =
    LoopTest
  | SubmitNoise nat
  | CancelBid
  | CancelAsk
  | MakeQuote
  | PostBid quote
  | PostAsk quote
  | WithdrawBid
  | WithdrawAsk
  | Waiting wait_point
  | Draining wait_point
  | Checking wait_point
  | Tail
  | TailDrain
  | LastDrain
  | StopEngine
  | Finished

text \<open>\<open>dm_noise\<close> is the stream from index \<open>i\<close> on; \<open>dm_timed_out\<close> records that some wait gave up.\<close>

record mm_demo =
  dm_engine :: engine
  dm_maker :: market_maker
  dm_noise :: "md_msg list"
  dm_pc :: demo_pc
  dm_last_trade :: price
  dm_next_mm_id :: order_id
  dm_bid_id :: order_id
  dm_ask_id :: order_id
  dm_submitted :: u64
  dm_cancel_attempts :: u64
  dm_new_orders :: u64
  dm_timed_out :: bool

definition kRequoteEvery :: nat where "kRequoteEvery = 20"

definition demo_mid :: price where "demo_mid = 100000000"

definition demo_cfg :: "int \<Rightarrow> mm_config" where
  "demo_cfg limit = \<lparr>mc_half_spread = 4000, mc_position_limit = limit, mc_quote_qty = 100\<rparr>"

definition demo_noise :: "u64 \<Rightarrow> md_msg list" where
  "demo_noise n = make_synthetic_stream \<lparr>sf_symbol = 1, sf_mid = demo_mid, sf_n_events = n, sf_seed = 1\<rparr>"

definition demo_init :: "u64 \<Rightarrow> int \<Rightarrow> mm_demo" where
  "demo_init n limit = \<lparr>dm_engine = snd (register_symbol engine_init 1), dm_maker = mm_init 1 (demo_cfg limit) 999,
     dm_noise = demo_noise n, dm_pc = LoopTest, dm_last_trade = demo_mid, dm_next_mm_id = 1000000000,
     dm_bid_id = 0, dm_ask_id = 0, dm_submitted = 0, dm_cancel_attempts = 0, dm_new_orders = 0, dm_timed_out = False\<rparr>"

section \<open>The program\<close>

text \<open>
  One attempt of \<^verbatim>\<open>submit_retry\<close>; an attempt the ring refuses is repeated, so what follows the call
  runs in the turn in which it succeeds.
\<close>

definition submit_attempt :: "md_msg \<Rightarrow> mm_demo \<Rightarrow> bool \<times> mm_demo" where
  "submit_attempt m d =
    (let (ok, e) = engine_submit (dm_engine d) m; d1 = d\<lparr>dm_engine := e\<rparr>
     in if ok then (True, d1\<lparr>dm_submitted := dm_submitted d1 + 1\<rparr>) else (False, d1))"

definition submit_retry :: "md_msg \<Rightarrow> (mm_demo \<Rightarrow> mm_demo) \<Rightarrow> mm_demo \<Rightarrow> mm_demo" where
  "submit_retry m k d = (let (ok, d1) = submit_attempt m d in if ok then k d1 else d1)"

text \<open>One iteration of \<^verbatim>\<open>drain_reports\<close>; the program goes on at \<open>next_pc\<close> when nothing is left.\<close>

definition drain_poll :: "demo_pc \<Rightarrow> mm_demo \<Rightarrow> mm_demo option" where
  "drain_poll next_pc d =
    (let (r, e) = poll_report (dm_engine d); d1 = d\<lparr>dm_engine := e\<rparr>
     in case r of
          None \<Rightarrow> Some (d1\<lparr>dm_pc := next_pc\<rparr>)
        | Some rpt \<Rightarrow>
            (let d2 = d1\<lparr>dm_last_trade := er_exec_price rpt\<rparr>
             in map_option (\<lambda>(matched, mm). d2\<lparr>dm_maker := mm\<rparr>) (mm_on_fill (dm_maker d2) rpt)))"

fun wait_return :: "wait_point \<Rightarrow> demo_pc" where
  "wait_return AfterNoise = CancelBid"
| "wait_return AfterCancel = MakeQuote"
| "wait_return AfterQuote = LoopTest"
| "wait_return AfterWithdraw = Tail"

text \<open>The head of the loop of \<^verbatim>\<open>wait_caught_up\<close>, and its test of the engine's counter.\<close>

definition wait_head :: "wait_point \<Rightarrow> bool \<Rightarrow> mm_demo \<Rightarrow> mm_demo" where
  "wait_head w expired d =
    (if expired then d\<lparr>dm_pc := wait_return w, dm_timed_out := True\<rparr> else d\<lparr>dm_pc := Draining w\<rparr>)"

definition wait_check :: "wait_point \<Rightarrow> mm_demo \<Rightarrow> mm_demo" where
  "wait_check w d =
    d\<lparr>dm_pc := if en_stat_messages (dm_engine d) \<ge> dm_submitted d then wait_return w else Waiting w\<rparr>"

text \<open>The loop over the stream, twenty orders between two quotes.\<close>

definition noise_turn :: "nat \<Rightarrow> mm_demo \<Rightarrow> mm_demo" where
  "noise_turn b d =
    (case dm_noise d of
       m # ms \<Rightarrow>
         if b < kRequoteEvery
         then submit_retry m (\<lambda>d1. d1\<lparr>dm_noise := ms, dm_pc := SubmitNoise (Suc b)\<rparr>) d
         else d\<lparr>dm_pc := Waiting AfterNoise\<rparr>
     | [] \<Rightarrow> d\<lparr>dm_pc := Waiting AfterNoise\<rparr>)"

definition cancel_msg :: "order_id \<Rightarrow> md_msg" where
  "cancel_msg oid = md_zero\<lparr>md_msg_type := CancelOrder, md_order_id := oid, md_symbol := 1\<rparr>"

definition quote_msg :: "order_id \<Rightarrow> side \<Rightarrow> price \<Rightarrow> qty \<Rightarrow> md_msg" where
  "quote_msg oid sd px q = md_zero\<lparr>md_msg_type := NewOrder, md_order_type := Limit, md_order_id := oid, md_symbol := 1,
     md_side := sd, md_price := px, md_qty := q\<rparr>"

text \<open>The cancels before a new quote are counted, those on shutdown are not.\<close>

definition cancel_turn :: "order_id \<Rightarrow> bool \<Rightarrow> demo_pc \<Rightarrow> mm_demo \<Rightarrow> mm_demo" where
  "cancel_turn oid counted next_pc d =
    (if oid = 0 then d\<lparr>dm_pc := next_pc\<rparr>
     else submit_retry (cancel_msg oid)
       (\<lambda>d1. d1\<lparr>dm_pc := next_pc, dm_cancel_attempts := (if counted then dm_cancel_attempts d1 + 1 else dm_cancel_attempts d1)\<rparr>) d)"

definition quote_turn :: "(int \<Rightarrow> price) \<Rightarrow> mm_demo \<Rightarrow> mm_demo" where
  "quote_turn skew d =
    (let (q, mm) = compute_quote skew (dm_maker d) (dm_last_trade d)
     in d\<lparr>dm_maker := mm, dm_bid_id := 0, dm_ask_id := 0, dm_pc := PostBid q\<rparr>)"

definition post_bid :: "quote \<Rightarrow> mm_demo \<Rightarrow> mm_demo" where
  "post_bid q d =
    (if q_bid q = PRICE_INVALID then d\<lparr>dm_pc := PostAsk q\<rparr>
     else submit_retry (quote_msg (dm_next_mm_id d) Buy (q_bid q) (mc_quote_qty (mm_cfg (dm_maker d))))
       (\<lambda>d1. d1\<lparr>dm_maker := register_order (dm_maker d1) (dm_next_mm_id d1) Buy, dm_bid_id := dm_next_mm_id d1,
          dm_next_mm_id := dm_next_mm_id d1 + 1, dm_new_orders := dm_new_orders d1 + 1, dm_pc := PostAsk q\<rparr>) d)"

definition post_ask :: "quote \<Rightarrow> mm_demo \<Rightarrow> mm_demo" where
  "post_ask q d =
    (if q_ask q = PRICE_INVALID then d\<lparr>dm_pc := Waiting AfterQuote\<rparr>
     else submit_retry (quote_msg (dm_next_mm_id d) Sell (q_ask q) (mc_quote_qty (mm_cfg (dm_maker d))))
       (\<lambda>d1. d1\<lparr>dm_maker := register_order (dm_maker d1) (dm_next_mm_id d1) Sell, dm_ask_id := dm_next_mm_id d1,
          dm_next_mm_id := dm_next_mm_id d1 + 1, dm_new_orders := dm_new_orders d1 + 1, dm_pc := Waiting AfterQuote\<rparr>) d)"

text \<open>\<^verbatim>\<open>mkt_engine.stop()\<close>: the engine thread empties its ring and is joined.\<close>

definition stop_turn :: "mm_demo \<Rightarrow> mm_demo option" where
  "stop_turn d = map_option (\<lambda>e. d\<lparr>dm_engine := e, dm_pc := Finished\<rparr>) (engine_drain (dm_engine d))"

definition program_turn :: "(int \<Rightarrow> price) \<Rightarrow> bool \<Rightarrow> mm_demo \<Rightarrow> mm_demo option" where
  "program_turn skew expired d =
    (case dm_pc d of
       LoopTest \<Rightarrow> Some (d\<lparr>dm_pc := if dm_noise d = [] then WithdrawBid else SubmitNoise 0\<rparr>)
     | SubmitNoise b \<Rightarrow> Some (noise_turn b d)
     | Waiting w \<Rightarrow> Some (wait_head w expired d)
     | Draining w \<Rightarrow> drain_poll (Checking w) d
     | Checking w \<Rightarrow> Some (wait_check w d)
     | CancelBid \<Rightarrow> Some (cancel_turn (dm_bid_id d) True CancelAsk d)
     | CancelAsk \<Rightarrow> Some (cancel_turn (dm_ask_id d) True (Waiting AfterCancel) d)
     | MakeQuote \<Rightarrow> Some (quote_turn skew d)
     | PostBid q \<Rightarrow> Some (post_bid q d)
     | PostAsk q \<Rightarrow> Some (post_ask q d)
     | WithdrawBid \<Rightarrow> Some (cancel_turn (dm_bid_id d) False WithdrawAsk d)
     | WithdrawAsk \<Rightarrow> Some (cancel_turn (dm_ask_id d) False (Waiting AfterWithdraw) d)
     | Tail \<Rightarrow> Some (d\<lparr>dm_pc := if expired then LastDrain else TailDrain\<rparr>)
     | TailDrain \<Rightarrow> drain_poll Tail d
     | LastDrain \<Rightarrow> drain_poll StopEngine d
     | StopEngine \<Rightarrow> stop_turn d
     | Finished \<Rightarrow> Some d)"

definition engine_thread_turn :: "mm_demo \<Rightarrow> mm_demo option" where
  "engine_thread_turn d =
    (if dm_pc d = Finished then Some d else map_option (\<lambda>e. d\<lparr>dm_engine := e\<rparr>) (engine_step (dm_engine d)))"

datatype demo_turn = EngineTurn | ProgramTurn bool

fun demo_step :: "(int \<Rightarrow> price) \<Rightarrow> demo_turn \<Rightarrow> mm_demo \<Rightarrow> mm_demo option" where
  "demo_step skew EngineTurn d = engine_thread_turn d"
| "demo_step skew (ProgramTurn expired) d = program_turn skew expired d"

text \<open>The states of all runs.\<close>

inductive demo_reach :: "(int \<Rightarrow> price) \<Rightarrow> u64 \<Rightarrow> int \<Rightarrow> mm_demo \<Rightarrow> bool" for skew n limit where
  demo_start: "demo_reach skew n limit (demo_init n limit)"
| demo_turns: "demo_reach skew n limit d \<Longrightarrow> demo_step skew a d = Some d' \<Longrightarrow> demo_reach skew n limit d'"

end
