(* ===== verification/Mm_Demo_Inv.thy ===== *)
theory Mm_Demo_Inv
  imports Mm_Demo
begin

text \<open>
  What holds in every state of the market maker demo, whatever the threads' turns: which own
  orders can rest, which ids are still unused, what the reports on their way name, and, as long as no
  wait has timed out, how far the position can still move.
\<close>

section \<open>The engine after a submit\<close>

lemma submit_view:
  assumes sy: "engine_sync e A" and a: "fst (settled A e) (unat (1 :: symbol_id)) = Some a" and p: "plain_msg 1 m"
    and f: "md_msg_type m = NewOrder \<Longrightarrow> md_order_id m \<notin> all_ids a" and su: "engine_submit e m = (True, e')"
  obtains a' rs where "engine_sync e' A" "fst (settled A e') (unat (1 :: symbol_id)) = Some a'" "future A e' = future A e @ rs"
    "outq e' = outq e" "inq e' = inq e @ [m]" "en_stat_messages e' = en_stat_messages e"
    "\<And>X. exposure 1 A e' X \<le> exposure 1 A e X + new_qty X m"
    "\<And>d p X. rests_at a' d p X \<Longrightarrow> rests_at a d p X \<and> (md_msg_type m = CancelOrder \<longrightarrow> X \<noteq> md_order_id m) \<or>
      md_msg_type m = NewOrder \<and> X = md_order_id m \<and> d = (md_side m = Buy) \<and> p = md_price m"
    "\<And>r. r \<in> set rs \<Longrightarrow> md_msg_type m = NewOrder \<and> er_order_id r = md_order_id m \<and> er_exec_qty r \<noteq> 0 \<and>
      (\<exists>p. rests_at a (md_side m \<noteq> Buy) p (er_contra_order_id r) \<and> (if md_side m = Buy then p \<le> md_price m else md_price m \<le> p))"
proof -
  have c: "msg_fresh (settled A e) m"
    using p f a by (auto simp: msg_fresh_def plain_msg_def msg_cmd_def cmd_fresh_def order_of_msg_def)
  note S = sync_submit [OF sy su c]
  have k: "unat (1 :: symbol_id) < kMaxSymbols" by (simp add: kMaxSymbols_def)
  obtain a' rs where P: "adispatch (settled A e) m = (((fst (settled A e))(unat (1 :: symbol_id) := Some a'), snd (settled A e)), rs)"
    "\<And>X. book_qty X a' + named_qty X rs \<le> book_qty X a + new_qty X m"
    "\<And>d p X. rests_at a' d p X \<Longrightarrow> rests_at a d p X \<and> (md_msg_type m = CancelOrder \<longrightarrow> X \<noteq> md_order_id m) \<or>
      md_msg_type m = NewOrder \<and> X = md_order_id m \<and> d = (md_side m = Buy) \<and> p = md_price m"
    "\<And>r. r \<in> set rs \<Longrightarrow> md_msg_type m = NewOrder \<and> er_order_id r = md_order_id m \<and>
      (\<exists>p. rests_at a (md_side m \<noteq> Buy) p (er_contra_order_id r) \<and> (if md_side m = Buy then p \<le> md_price m else md_price m \<le> p)) \<and>
      (wf_abook a \<longrightarrow> er_exec_qty r \<noteq> 0)" using plain_step [OF p k a] by metis
  have wf: "wf_abook a" by (rule settled_wf [OF sy a])
  have s': "fst (settled A e') (unat (1 :: symbol_id)) = Some a'" using S(6) P(1) by simp
  have fu: "future A e' = future A e @ rs" using S(7) P(1) by simp
  have "exposure 1 A e' X \<le> exposure 1 A e X + new_qty X m" for X
    using P(2) [of X] by (simp only: exposure_def pending_def s' a fu S(2) option.case named_qty_simps)
  then show ?thesis using that [OF S(1) s' fu S(2) _ S(3)] S(5) P(3,4) wf by auto
qed

section \<open>Ids\<close>

text \<open>The market maker's ids, disjoint from those of the stream.\<close>

definition own :: "order_id \<Rightarrow> bool" where
  "own X \<longleftrightarrow> 1000000000 \<le> X"

definition report_ok :: "order_id \<Rightarrow> exec_report \<Rightarrow> bool" where
  "report_ok nx r \<longleftrightarrow> er_exec_qty r \<noteq> 0 \<and> (own (er_order_id r) \<longrightarrow> er_order_id r < nx) \<and>
    (own (er_contra_order_id r) \<longrightarrow> er_contra_order_id r < nx) \<and> \<not> (own (er_order_id r) \<and> own (er_contra_order_id r))"

definition view_ok :: "order_id \<Rightarrow> order_id set \<Rightarrow> md_msg list \<Rightarrow> abook \<Rightarrow> exec_report list \<Rightarrow> bool" where
  "view_ok nx live noise a P \<longleftrightarrow> (\<forall>X\<in>all_ids a. own X \<longrightarrow> X \<in> live \<and> X < nx) \<and>
    (\<forall>m\<in>set noise. md_order_id m \<notin> all_ids a) \<and> (\<forall>r\<in>set P. report_ok nx r)"

definition noise_ok :: "md_msg list \<Rightarrow> bool" where
  "noise_ok ms \<longleftrightarrow> distinct (map md_order_id ms) \<and>
    (\<forall>m\<in>set ms. plain_msg 1 m \<and> md_msg_type m = NewOrder \<and> \<not> own (md_order_id m))"

lemma view_ok_mono:
  "view_ok nx live noise a P \<Longrightarrow> live \<subseteq> live' \<Longrightarrow> set noise' \<subseteq> set noise \<Longrightarrow> set P' \<subseteq> set P \<Longrightarrow> view_ok nx live' noise' a P'"
  by (auto simp: view_ok_def)

lemma view_noise:
  assumes v: "view_ok nx live (m # ms) a P" and n: "noise_ok (m # ms)"
    and r: "\<And>d p X. rests_at a' d p X \<Longrightarrow> rests_at a d p X \<or> X = md_order_id m"
    and rs: "\<And>r. r \<in> set rs \<Longrightarrow> er_order_id r = md_order_id m \<and> er_exec_qty r \<noteq> 0 \<and> er_contra_order_id r \<in> all_ids a"
  shows "view_ok nx live ms a' (P @ rs)"
proof -
  have ids: "all_ids a' \<subseteq> insert (md_order_id m) (all_ids a)" unfolding subset_iff insert_iff all_ids_rests using r by blast
  have m: "\<not> own (md_order_id m)" "md_order_id m \<notin> md_order_id ` set ms" using n by (auto simp: noise_ok_def)
  have "\<forall>x\<in>set ms. md_order_id x \<noteq> md_order_id m" using m(2) by (metis imageI)
  then have "\<forall>x\<in>set ms. md_order_id x \<notin> all_ids a'" using ids v by (auto simp: view_ok_def)
  moreover have "\<forall>X\<in>all_ids a'. own X \<longrightarrow> X \<in> live \<and> X < nx" using ids v m(1) by (auto simp: view_ok_def)
  moreover have "\<forall>r\<in>set rs. report_ok nx r" using rs v m(1) by (auto simp: view_ok_def report_ok_def)
  ultimately show ?thesis using v by (auto simp: view_ok_def)
qed

lemma view_cancel:
  assumes v: "view_ok nx live noise a P" and r: "\<And>d p X. rests_at a' d p X \<Longrightarrow> rests_at a d p X \<and> X \<noteq> oid"
    and l: "live \<subseteq> insert oid live'"
  shows "view_ok nx live' noise a' P"
proof -
  have "all_ids a' \<subseteq> all_ids a - {oid}" unfolding subset_iff Diff_iff singleton_iff all_ids_rests using r by blast
  then show ?thesis using v l by (auto simp: view_ok_def)
qed

text \<open>An own order entered under the next id, with nothing of our own at a price it can reach.\<close>

lemma view_own:
  assumes v: "view_ok nx live noise a P" and n: "noise_ok noise" and o: "own nx" "nx < nx'"
    and r: "\<And>d p X. rests_at a' d p X \<Longrightarrow> rests_at a d p X \<or> X = nx"
    and rs: "\<And>r. r \<in> set rs \<Longrightarrow> er_order_id r = nx \<and> er_exec_qty r \<noteq> 0 \<and> er_contra_order_id r \<in> all_ids a \<and> \<not> own (er_contra_order_id r)"
  shows "view_ok nx' (insert nx live) noise a' (P @ rs)"
proof -
  have ids: "all_ids a' \<subseteq> insert nx (all_ids a)" unfolding subset_iff insert_iff all_ids_rests using r by blast
  have "\<forall>m\<in>set noise. md_order_id m \<noteq> nx" using n o(1) by (auto simp: noise_ok_def)
  then have "\<forall>m\<in>set noise. md_order_id m \<notin> all_ids a'" using ids v by (auto simp: view_ok_def)
  moreover have "\<forall>X\<in>all_ids a'. own X \<longrightarrow> X \<in> insert nx live \<and> X < nx'" using ids v o(2) by (force simp: view_ok_def)
  moreover have "\<forall>r\<in>set rs. report_ok nx' r" using rs o by (auto simp: report_ok_def)
  moreover have "\<forall>r\<in>set P. report_ok nx' r" using v o(2) by (auto simp: view_ok_def report_ok_def)
  ultimately show ?thesis by (auto simp: view_ok_def)
qed

section \<open>The invariant\<close>

text \<open>The own orders that can rest once the waiting messages are processed.\<close>

fun wait_live :: "wait_point \<Rightarrow> order_id set \<Rightarrow> order_id set" where
  "wait_live AfterNoise L = L" | "wait_live AfterCancel L = {}" | "wait_live AfterQuote L = L" | "wait_live AfterWithdraw L = {}"

fun pc_live :: "demo_pc \<Rightarrow> order_id \<Rightarrow> order_id \<Rightarrow> order_id set" where
  "pc_live LoopTest b a = {b, a}" | "pc_live (SubmitNoise k) b a = {b, a}" | "pc_live CancelBid b a = {b, a}"
| "pc_live CancelAsk b a = {a}" | "pc_live (PostAsk q) b a = {b}" | "pc_live WithdrawBid b a = {b, a}"
| "pc_live WithdrawAsk b a = {a}" | "pc_live (Waiting w) b a = wait_live w {b, a}"
| "pc_live (Draining w) b a = wait_live w {b, a}" | "pc_live (Checking w) b a = wait_live w {b, a}" | "pc_live _ b a = {}"

definition live_ids :: "mm_demo \<Rightarrow> order_id set" where
  "live_ids d = pc_live (dm_pc d) (dm_bid_id d) (dm_ask_id d)"

text \<open>A bound on the messages the program can still submit.\<close>

fun wait_todo :: "wait_point \<Rightarrow> nat" where
  "wait_todo AfterNoise = 6" | "wait_todo AfterCancel = 4" | "wait_todo AfterQuote = 2" | "wait_todo AfterWithdraw = 0"

fun pc_todo :: "demo_pc \<Rightarrow> nat" where
  "pc_todo LoopTest = 2" | "pc_todo (SubmitNoise b) = (if b = 0 then 2 else 6)" | "pc_todo CancelBid = 6"
| "pc_todo CancelAsk = 5" | "pc_todo MakeQuote = 4" | "pc_todo (PostBid q) = 4" | "pc_todo (PostAsk q) = 3"
| "pc_todo WithdrawBid = 2" | "pc_todo WithdrawAsk = 1" | "pc_todo (Waiting w) = wait_todo w"
| "pc_todo (Draining w) = wait_todo w" | "pc_todo (Checking w) = wait_todo w" | "pc_todo _ = 0"

definition todo :: "mm_demo \<Rightarrow> nat" where
  "todo d = 5 * length (dm_noise d) + pc_todo (dm_pc d)"

definition counts_ok :: "nat \<Rightarrow> mm_demo \<Rightarrow> bool" where
  "counts_ok N d \<longleftrightarrow> (\<exists>k. en_stat_messages (dm_engine d) = of_nat k \<and> dm_submitted d = of_nat (k + length (inq (dm_engine d))) \<and>
     k + length (inq (dm_engine d)) + todo d \<le> N) \<and>
   10 ^ 9 \<le> unat (dm_next_mm_id d) \<and> unat (dm_next_mm_id d) + todo d \<le> 10 ^ 9 + N"

definition pc_ok :: "mm_demo \<Rightarrow> abook \<Rightarrow> bool" where
  "pc_ok d a \<longleftrightarrow> (dm_pc d = SubmitNoise 0 \<longrightarrow> dm_noise d \<noteq> []) \<and>
    (\<forall>q. dm_pc d = PostBid q \<or> dm_pc d = PostAsk q \<longrightarrow> q_bid q \<noteq> PRICE_INVALID \<and> q_ask q \<noteq> PRICE_INVALID \<longrightarrow> q_bid q < q_ask q) \<and>
    (\<forall>q e p X. dm_pc d = PostAsk q \<and> rests_at a e p X \<and> own X \<longrightarrow> q_bid q \<noteq> PRICE_INVALID \<and> e \<and> p = q_bid q)"

definition demo_inv :: "nat \<Rightarrow> int \<Rightarrow> mm_demo \<Rightarrow> abooks \<Rightarrow> bool" where
  "demo_inv N limit d A \<longleftrightarrow> engine_sync (dm_engine d) A \<and> noise_ok (dm_noise d) \<and> counts_ok N d \<and>
    mm_cfg (dm_maker d) = demo_cfg limit \<and>
    (\<exists>a. fst (settled A (dm_engine d)) (unat (1 :: symbol_id)) = Some a \<and> pc_ok d a \<and>
      view_ok (dm_next_mm_id d) (live_ids d) (dm_noise d) a (pending A (dm_engine d)))"

section \<open>Turns that submit nothing\<close>

lemma inv_local:
  assumes inv: "demo_inv N limit d A" and e: "dm_engine d' = dm_engine d" "dm_noise d' = dm_noise d" "dm_next_mm_id d' = dm_next_mm_id d"
    "dm_submitted d' = dm_submitted d" "mm_cfg (dm_maker d') = mm_cfg (dm_maker d)"
    and t: "pc_todo (dm_pc d') \<le> pc_todo (dm_pc d)" and l: "live_ids d \<subseteq> live_ids d'"
    and p: "\<And>a P. pc_ok d a \<Longrightarrow> view_ok (dm_next_mm_id d) (live_ids d) (dm_noise d) a P \<Longrightarrow> pc_ok d' a"
  shows "demo_inv N limit d' A"
proof -
  from inv obtain a where a: "fst (settled A (dm_engine d)) (unat (1 :: symbol_id)) = Some a" "pc_ok d a"
    "view_ok (dm_next_mm_id d) (live_ids d) (dm_noise d) a (pending A (dm_engine d))" by (auto simp: demo_inv_def)
  have "counts_ok N d'"
  proof -
    have "todo d' \<le> todo d" using t by (simp add: todo_def e)
    then show ?thesis using inv unfolding demo_inv_def counts_ok_def e by (meson add_left_mono le_trans)
  qed
  then show ?thesis using inv p [OF a(2,3)] view_ok_mono [OF a(3) l order_refl order_refl] a(1)
    by (simp add: demo_inv_def e)
qed

text \<open>The engine thread and the polls only move what is under way.\<close>

lemma inv_engine:
  assumes inv: "demo_inv N limit d A" and sy: "engine_sync e A'" and st: "settled A' e = settled A (dm_engine d)"
    and p: "set (pending A' e) \<subseteq> set (pending A (dm_engine d))"
    and c: "en_stat_messages e = en_stat_messages (dm_engine d) + of_nat j" "length (inq (dm_engine d)) = j + length (inq e)"
  shows "demo_inv N limit (d\<lparr>dm_engine := e\<rparr>) A'"
proof -
  from inv obtain a k where a: "fst (settled A (dm_engine d)) (unat (1 :: symbol_id)) = Some a" "pc_ok d a"
    "view_ok (dm_next_mm_id d) (live_ids d) (dm_noise d) a (pending A (dm_engine d))"
    and k: "en_stat_messages (dm_engine d) = of_nat k" "dm_submitted d = of_nat (k + length (inq (dm_engine d)))"
      "k + length (inq (dm_engine d)) + todo d \<le> N" by (auto simp: demo_inv_def counts_ok_def)
  have eq: "todo (d\<lparr>dm_engine := e\<rparr>) = todo d" "live_ids (d\<lparr>dm_engine := e\<rparr>) = live_ids d" "pc_ok (d\<lparr>dm_engine := e\<rparr>) a = pc_ok d a"
    by (simp_all add: todo_def live_ids_def pc_ok_def)
  have "counts_ok N (d\<lparr>dm_engine := e\<rparr>)"
    using inv k c unfolding counts_ok_def demo_inv_def eq by (auto intro!: exI [of _ "k + j"] simp: ac_simps)
  then show ?thesis using inv sy st a view_ok_mono [OF a(3) order_refl order_refl p] by (simp add: demo_inv_def eq)
qed

lemma subset_pending: "set xs \<subseteq> set ys \<Longrightarrow> set (xs @ zs) \<subseteq> set (ys @ zs)"
  by auto

lemma inv_engine_step:
  assumes inv: "demo_inv N limit d A" and st: "engine_step (dm_engine d) = Some e"
  obtains A' where "demo_inv N limit (d\<lparr>dm_engine := e\<rparr>) A'" "\<And>X. exposure 1 A' e X \<le> exposure 1 A (dm_engine d) X"
    "\<And>X. named_qty X (future A' e) \<le> named_qty X (future A (dm_engine d))"
proof -
  have sy: "engine_sync (dm_engine d) A" using inv by (simp add: demo_inv_def)
  from sync_step [OF sy st] obtain A' rs where S: "engine_sync e A'" "settled A' e = settled A (dm_engine d)"
    "future A (dm_engine d) = rs @ future A' e" "outq e = outq (dm_engine d) @ take (queue_room - length (outq (dm_engine d))) rs"
    "inq (dm_engine d) = [] \<and> inq e = [] \<and> en_stat_messages e = en_stat_messages (dm_engine d) \<or>
     (\<exists>m. inq (dm_engine d) = m # inq e) \<and> en_stat_messages e = en_stat_messages (dm_engine d) + 1" by metis
  obtain j where j: "en_stat_messages e = en_stat_messages (dm_engine d) + of_nat j" "length (inq (dm_engine d)) = j + length (inq e)"
    using S(5)
  proof (elim disjE conjE exE)
    assume "inq (dm_engine d) = []" "inq e = []" "en_stat_messages e = en_stat_messages (dm_engine d)"
    then show thesis using that [of 0] by simp
  next
    fix m assume "inq (dm_engine d) = m # inq e" "en_stat_messages e = en_stat_messages (dm_engine d) + 1"
    then show thesis using that [of 1] by simp
  qed
  have "set (pending A' e) \<subseteq> set (pending A (dm_engine d))"
    using set_take_subset [of _ rs] by (auto simp: pending_def S(3,4))
  from inv_engine [OF inv S(1,2) this j] have I: "demo_inv N limit (d\<lparr>dm_engine := e\<rparr>) A'" .
  have "named_qty X (take k rs) \<le> named_qty X rs" for X k by (metis append_take_drop_id le_add1 named_qty_simps(3))
  then have "exposure 1 A' e X \<le> exposure 1 A (dm_engine d) X" for X
    by (simp add: exposure_def pending_def S(2,3,4))
  moreover have "named_qty X (future A' e) \<le> named_qty X (future A (dm_engine d))" for X by (simp add: S(3))
  ultimately show ?thesis using that I by blast
qed

lemma inv_poll:
  assumes inv: "demo_inv N limit d A" and po: "poll_report (dm_engine d) = (r, e)"
  shows "demo_inv N limit (d\<lparr>dm_engine := e\<rparr>) A" "future A e = future A (dm_engine d)"
    "r = (case outq (dm_engine d) of [] \<Rightarrow> None | x # xs \<Rightarrow> Some x)"
    "exposure 1 A (dm_engine d) X = (case r of None \<Rightarrow> 0 | Some rpt \<Rightarrow> named_qty X [rpt]) + exposure 1 A e X"
    "\<And>rpt. r = Some rpt \<Longrightarrow> report_ok (dm_next_mm_id d) rpt"
proof -
  have sy: "engine_sync (dm_engine d) A" using inv by (simp add: demo_inv_def)
  note P = sync_poll [OF sy po]
  have "set (pending A e) \<subseteq> set (pending A (dm_engine d))"
    using P(7) by (cases "outq (dm_engine d)") (auto simp: pending_def P(3))
  from inv_engine [OF inv P(1,2) this, of 0] P(4,5) show "demo_inv N limit (d\<lparr>dm_engine := e\<rparr>) A" by simp
  show "future A e = future A (dm_engine d)" by (rule P(3))
  show "r = (case outq (dm_engine d) of [] \<Rightarrow> None | x # xs \<Rightarrow> Some x)" by (rule P(6))
  show "exposure 1 A (dm_engine d) X = (case r of None \<Rightarrow> 0 | Some rpt \<Rightarrow> named_qty X [rpt]) + exposure 1 A e X"
    using P(6,7) by (cases "outq (dm_engine d)") (simp_all add: exposure_def pending_def P(2,3))
  fix rpt assume "r = Some rpt"
  then have "rpt \<in> set (pending A (dm_engine d))" using P(6) by (cases "outq (dm_engine d)") (auto simp: pending_def)
  then show "report_ok (dm_next_mm_id d) rpt" using inv by (auto simp: demo_inv_def view_ok_def)
qed

section \<open>Turns that submit\<close>

lemma counts_submit:
  assumes "counts_ok N d" "inq (dm_engine d') = inq (dm_engine d) @ [m]" "en_stat_messages (dm_engine d') = en_stat_messages (dm_engine d)"
    "dm_submitted d' = dm_submitted d + 1" "todo d' + 1 \<le> todo d"
    "unat (dm_next_mm_id d) \<le> unat (dm_next_mm_id d')" "unat (dm_next_mm_id d') + todo d' \<le> unat (dm_next_mm_id d) + todo d"
  shows "counts_ok N d'"
proof -
  from assms(1) obtain k where k: "en_stat_messages (dm_engine d) = of_nat k" "dm_submitted d = of_nat (k + length (inq (dm_engine d)))"
      "k + length (inq (dm_engine d)) + todo d \<le> N" by (auto simp: counts_ok_def)
  have "dm_submitted d' = of_nat (k + length (inq (dm_engine d')))" using k(2) by (simp add: assms(2,4) ac_simps)
  moreover have "k + length (inq (dm_engine d')) + todo d' \<le> N" using k(3) assms(5) by (simp add: assms(2))
  ultimately have "\<exists>k. en_stat_messages (dm_engine d') = of_nat k \<and> dm_submitted d' = of_nat (k + length (inq (dm_engine d'))) \<and>
      k + length (inq (dm_engine d')) + todo d' \<le> N" using k(1) assms(3) by metis
  then show ?thesis using assms(1,6,7) by (auto simp: counts_ok_def)
qed

definition fresh_in :: "abooks \<Rightarrow> engine \<Rightarrow> md_msg \<Rightarrow> bool" where
  "fresh_in A e m \<longleftrightarrow> (\<forall>a. fst (settled A e) (unat (1 :: symbol_id)) = Some a \<and> md_msg_type m = NewOrder \<longrightarrow> md_order_id m \<notin> all_ids a)"

lemma inv_rejected:
  assumes inv: "demo_inv N limit d A" and m: "plain_msg 1 m" "fresh_in A (dm_engine d) m"
    and su: "engine_submit (dm_engine d) m = (False, e)"
  shows "demo_inv N limit (d\<lparr>dm_engine := e\<rparr>) A" "exposure 1 A e X = exposure 1 A (dm_engine d) X"
    "future A e = future A (dm_engine d)"
proof -
  have sy: "engine_sync (dm_engine d) A" using inv by (simp add: demo_inv_def)
  have "msg_fresh (settled A (dm_engine d)) m"
    using m by (auto simp: msg_fresh_def plain_msg_def msg_cmd_def cmd_fresh_def order_of_msg_def fresh_in_def)
  note S = sync_submit [OF sy su this]
  from inv_engine [OF inv S(1), of 0] S show "demo_inv N limit (d\<lparr>dm_engine := e\<rparr>) A"
    "exposure 1 A e X = exposure 1 A (dm_engine d) X" "future A e = future A (dm_engine d)"
    by (simp_all add: pending_def exposure_def)
qed

lemma inv_noise:
  assumes inv: "demo_inv N limit d A" and pc: "dm_pc d = SubmitNoise b" and ms: "dm_noise d = m # ms"
    and su: "engine_submit (dm_engine d) m = (True, e)"
    and d': "d' = d\<lparr>dm_engine := e, dm_submitted := dm_submitted d + 1, dm_noise := ms, dm_pc := SubmitNoise (Suc b)\<rparr>"
  shows "demo_inv N limit d' A" "own X \<Longrightarrow> exposure 1 A e X \<le> exposure 1 A (dm_engine d) X"
proof -
  from inv obtain a where a: "engine_sync (dm_engine d) A" "fst (settled A (dm_engine d)) (unat (1 :: symbol_id)) = Some a"
    "view_ok (dm_next_mm_id d) (live_ids d) (dm_noise d) a (pending A (dm_engine d))" "noise_ok (dm_noise d)" "counts_ok N d"
    by (auto simp: demo_inv_def)
  have p: "plain_msg 1 m" "md_msg_type m = NewOrder" "\<not> own (md_order_id m)" using a(4) by (simp_all add: ms noise_ok_def)
  have f: "md_order_id m \<notin> all_ids a" using a(3) by (simp add: ms view_ok_def)
  from submit_view [OF a(1,2) p(1) f su] obtain a' rs where S: "engine_sync e A" "fst (settled A e) (unat (1 :: symbol_id)) = Some a'"
    "future A e = future A (dm_engine d) @ rs" "outq e = outq (dm_engine d)" "inq e = inq (dm_engine d) @ [m]"
    "en_stat_messages e = en_stat_messages (dm_engine d)" "\<And>X. exposure 1 A e X \<le> exposure 1 A (dm_engine d) X + new_qty X m"
    "\<And>d p X. rests_at a' d p X \<Longrightarrow> rests_at a d p X \<or> X = md_order_id m"
    "\<And>r. r \<in> set rs \<Longrightarrow> er_order_id r = md_order_id m \<and> er_exec_qty r \<noteq> 0 \<and> er_contra_order_id r \<in> all_ids a"
    unfolding all_ids_rests by metis
  show "own X \<Longrightarrow> exposure 1 A e X \<le> exposure 1 A (dm_engine d) X"
    using S(7) [of X] p(3) by (auto simp: new_qty_def split: if_splits)
  have "view_ok (dm_next_mm_id d) (live_ids d) ms a' (pending A (dm_engine d) @ rs)"
    by (rule view_noise [OF a(3) [unfolded ms] a(4) [unfolded ms] S(8,9)])
  then have "view_ok (dm_next_mm_id d') (live_ids d') ms a' (pending A e)"
    by (simp add: d' pending_def S(3,4) live_ids_def pc)
  moreover have "todo d' + 1 \<le> todo d" by (simp add: d' todo_def ms pc)
  then have "counts_ok N d'" by (intro counts_submit [OF a(5)]) (use S(5,6) in \<open>simp_all add: d'\<close>)
  moreover have "noise_ok ms" using a(4) by (simp add: noise_ok_def ms)
  ultimately show "demo_inv N limit d' A" using S(1,2) inv by (simp add: demo_inv_def d' pc_ok_def)
qed

lemma inv_cancel:
  assumes inv: "demo_inv N limit d A" and su: "engine_submit (dm_engine d) (cancel_msg oid) = (True, e)"
    and d': "d' = d\<lparr>dm_engine := e, dm_submitted := dm_submitted d + 1, dm_pc := pc', dm_cancel_attempts := c\<rparr>"
    and t: "pc_todo pc' + 1 \<le> pc_todo (dm_pc d)" and l: "live_ids d \<subseteq> insert oid (pc_live pc' (dm_bid_id d) (dm_ask_id d))"
    and p: "\<And>a. pc_ok d' a"
  shows "demo_inv N limit d' A" "exposure 1 A e X \<le> exposure 1 A (dm_engine d) X" "future A e = future A (dm_engine d)"
proof -
  from inv obtain a where a: "engine_sync (dm_engine d) A" "fst (settled A (dm_engine d)) (unat (1 :: symbol_id)) = Some a"
    "view_ok (dm_next_mm_id d) (live_ids d) (dm_noise d) a (pending A (dm_engine d))" "noise_ok (dm_noise d)" "counts_ok N d"
    by (auto simp: demo_inv_def)
  have m: "plain_msg 1 (cancel_msg oid)" "md_msg_type (cancel_msg oid) = CancelOrder" "md_order_id (cancel_msg oid) = oid"
    by (simp_all add: cancel_msg_def plain_msg_def)
  then have nn: "md_msg_type (cancel_msg oid) \<noteq> NewOrder" by simp
  from submit_view [OF a(1,2) m(1) _ su] nn m(2,3) obtain a' rs where S: "engine_sync e A" "fst (settled A e) (unat (1 :: symbol_id)) = Some a'"
    "future A e = future A (dm_engine d) @ rs" "outq e = outq (dm_engine d)" "inq e = inq (dm_engine d) @ [cancel_msg oid]"
    "en_stat_messages e = en_stat_messages (dm_engine d)" "\<And>X. exposure 1 A e X \<le> exposure 1 A (dm_engine d) X + new_qty X (cancel_msg oid)"
    "\<And>d p X. rests_at a' d p X \<Longrightarrow> rests_at a d p X \<and> X \<noteq> oid" "\<And>r. r \<notin> set rs"
    by metis
  have rs: "rs = []" using S(9) by (cases rs) auto
  show "exposure 1 A e X \<le> exposure 1 A (dm_engine d) X" using S(7) [of X] m(2) by (simp add: new_qty_def)
  show "future A e = future A (dm_engine d)" using S(3) rs by simp
  have "view_ok (dm_next_mm_id d) (pc_live pc' (dm_bid_id d) (dm_ask_id d)) (dm_noise d) a' (pending A (dm_engine d))"
    by (rule view_cancel [OF a(3) S(8) l])
  then have "view_ok (dm_next_mm_id d') (live_ids d') (dm_noise d) a' (pending A e)"
    by (simp add: d' pending_def S(3,4) live_ids_def rs)
  moreover have "todo d' + 1 \<le> todo d" using t by (simp add: d' todo_def)
  then have "counts_ok N d'" by (intro counts_submit [OF a(5)]) (use S(5,6) in \<open>simp_all add: d'\<close>)
  ultimately show "demo_inv N limit d' A" using S(1,2) inv p [of a'] by (simp add: demo_inv_def d')
qed

lemma next_own:
  assumes "counts_ok N d" "10 ^ 9 + N < 2 ^ 64" "0 < todo d"
  shows "own (dm_next_mm_id d)" "dm_next_mm_id d < dm_next_mm_id d + 1" "unat (dm_next_mm_id d + 1) = unat (dm_next_mm_id d) + 1"
    "dm_next_mm_id d \<noteq> 0"
proof -
  from assms have n: "10 ^ 9 \<le> unat (dm_next_mm_id d)" "unat (dm_next_mm_id d) + 1 \<le> 10 ^ 9 + N"
    by (auto simp: counts_ok_def)
  then show own: "own (dm_next_mm_id d)" by (simp add: own_def word_le_nat_alt)
  have "unat (dm_next_mm_id d) + 1 < 2 ^ 64" using n(2) assms(2) by linarith
  then show u: "unat (dm_next_mm_id d + 1) = unat (dm_next_mm_id d) + 1" by (simp add: unat_add_no_wrap)
  then show "dm_next_mm_id d < dm_next_mm_id d + 1" by (simp add: word_less_nat_alt)
  show "dm_next_mm_id d \<noteq> 0" using n(1) by auto
qed

lemma own_unused:
  assumes "demo_inv N limit d A" "10 ^ 9 + N < 2 ^ 64" "0 < todo d"
  shows "fresh_in A (dm_engine d) (quote_msg (dm_next_mm_id d) sd px qt)" "exposure 1 A (dm_engine d) (dm_next_mm_id d) = 0"
proof -
  from assms obtain a where a: "fst (settled A (dm_engine d)) (unat (1 :: symbol_id)) = Some a"
    "view_ok (dm_next_mm_id d) (live_ids d) (dm_noise d) a (pending A (dm_engine d))" "counts_ok N d" by (auto simp: demo_inv_def)
  note O = next_own [OF a(3) assms(2,3)]
  have i: "dm_next_mm_id d \<notin> all_ids a" using a(2) O(1) by (auto simp: view_ok_def)
  then show "fresh_in A (dm_engine d) (quote_msg (dm_next_mm_id d) sd px qt)" using a(1) by (simp add: fresh_in_def quote_msg_def)
  have "\<not> report_names (dm_next_mm_id d) r" if "r \<in> set (pending A (dm_engine d))" for r
    using a(2) that O(1) by (auto simp: view_ok_def report_ok_def report_names_def)
  then have "named_qty (dm_next_mm_id d) (pending A (dm_engine d)) = 0" by (simp add: named_qty_def)
  then show "exposure 1 A (dm_engine d) (dm_next_mm_id d) = 0" using book_qty_0 [OF i] a(1) by (simp add: exposure_def)
qed

lemma inv_post:
  assumes inv: "demo_inv N limit d A" and N: "10 ^ 9 + N < 2 ^ 64"
    and su: "engine_submit (dm_engine d) (quote_msg (dm_next_mm_id d) sd px 100) = (True, e)"
    and d': "d' = d\<lparr>dm_engine := e, dm_submitted := dm_submitted d + 1, dm_maker := register_order (dm_maker d) (dm_next_mm_id d) sd,
      dm_bid_id := b', dm_ask_id := a', dm_next_mm_id := dm_next_mm_id d + 1, dm_new_orders := c, dm_pc := pc'\<rparr>"
    and t: "pc_todo pc' + 1 \<le> pc_todo (dm_pc d)" and l: "insert (dm_next_mm_id d) (live_ids d) \<subseteq> pc_live pc' b' a'"
    and nc: "\<And>a P p X. pc_ok d a \<Longrightarrow> view_ok (dm_next_mm_id d) (live_ids d) (dm_noise d) a P \<Longrightarrow> rests_at a (sd \<noteq> Buy) p X \<Longrightarrow>
      if sd = Buy then p \<le> px else px \<le> p \<Longrightarrow> \<not> own X"
    and pk: "\<And>a a' P. pc_ok d a \<Longrightarrow> view_ok (dm_next_mm_id d) (live_ids d) (dm_noise d) a P \<Longrightarrow>
      \<forall>e p X. rests_at a' e p X \<longrightarrow> rests_at a e p X \<or> X = dm_next_mm_id d \<and> e = (sd = Buy) \<and> p = px \<Longrightarrow> pc_ok d' a'"
  shows "demo_inv N limit d' A" "exposure 1 A e X \<le> exposure 1 A (dm_engine d) X + (if X = dm_next_mm_id d then 100 else 0)"
proof -
  let ?n = "dm_next_mm_id d" let ?m = "quote_msg ?n sd px 100"
  from inv obtain a where a: "engine_sync (dm_engine d) A" "fst (settled A (dm_engine d)) (unat (1 :: symbol_id)) = Some a"
    "view_ok ?n (live_ids d) (dm_noise d) a (pending A (dm_engine d))" "noise_ok (dm_noise d)" "counts_ok N d" "pc_ok d a"
    by (auto simp: demo_inv_def)
  have td: "0 < todo d" using t by (simp add: todo_def)
  note O = next_own [OF a(5) N td]
  have m: "plain_msg 1 ?m" "md_msg_type ?m = NewOrder" "md_order_id ?m = ?n" "md_side ?m = sd" "md_price ?m = px" "md_qty ?m = 100"
    using O(4) by (simp_all add: plain_msg_def quote_msg_def)
  have f: "md_order_id ?m \<notin> all_ids a" using own_unused(1) [OF inv N td] a(2) m(2) unfolding fresh_in_def by blast
  have nc1: "rests_at a (sd \<noteq> Buy) p X \<Longrightarrow> (if sd = Buy then p \<le> px else px \<le> p) \<Longrightarrow> \<not> own X" for p X
    using nc [OF a(6,3)] by blast
  from submit_view [OF a(1,2) m(1) f su] obtain a1 rs where S: "engine_sync e A" "fst (settled A e) (unat (1 :: symbol_id)) = Some a1"
    "future A e = future A (dm_engine d) @ rs" "outq e = outq (dm_engine d)" "inq e = inq (dm_engine d) @ [?m]"
    "en_stat_messages e = en_stat_messages (dm_engine d)" "\<And>X. exposure 1 A e X \<le> exposure 1 A (dm_engine d) X + new_qty X ?m"
    "\<And>d p X. rests_at a1 d p X \<Longrightarrow> rests_at a d p X \<or> X = ?n \<and> d = (sd = Buy) \<and> p = px"
    "\<And>r. r \<in> set rs \<Longrightarrow> er_order_id r = ?n \<and> er_exec_qty r \<noteq> 0 \<and> er_contra_order_id r \<in> all_ids a \<and> \<not> own (er_contra_order_id r)"
    unfolding m(3,4,5) using nc1 all_ids_rests by metis
  show "exposure 1 A e X \<le> exposure 1 A (dm_engine d) X + (if X = ?n then 100 else 0)"
    using S(7) [of X] m(2,3,6) by (auto simp: new_qty_def split: if_splits)
  have "view_ok (?n + 1) (insert ?n (live_ids d)) (dm_noise d) a1 (pending A (dm_engine d) @ rs)"
    by (rule view_own [OF a(3,4) O(1,2)]) (use S(8,9) in blast)+
  then have "view_ok (dm_next_mm_id d') (live_ids d') (dm_noise d') a1 (pending A e)"
    using view_ok_mono [OF _ l order_refl order_refl] by (simp add: d' pending_def S(3,4) live_ids_def)
  moreover have "todo d' + 1 \<le> todo d" using t by (simp add: d' todo_def)
  then have "counts_ok N d'" by (intro counts_submit [OF a(5)]) (use S(5,6) O(3) in \<open>simp_all add: d'\<close>)
  moreover have "pc_ok d' a1" using pk [OF a(6,3)] S(8) by blast
  ultimately show "demo_inv N limit d' A" using S(1,2) inv by (simp add: demo_inv_def d' register_order_def)
qed

end
