(* ===== verification/Mm_Demo_Bound.thy ===== *)
theory Mm_Demo_Bound
  imports Mm_Demo_Inv
begin

text \<open>
  How far the market maker's position can move: on each side, the position together with the
  exposure of every order it has entered there stays within the limit, as long as no wait for the
  engine has timed out. The invariants are carried through every turn of the demo here.
\<close>

section \<open>Fills\<close>

lemma on_fill_cases:
  assumes "er_exec_qty r \<noteq> 0"
  obtains (filled) b mm' where "mm_on_fill mm r = Some (b, mm')" "mm_cfg mm' = mm_cfg mm"
    "mm' = mm \<or> (\<exists>Y sd. map_of (mm_open_orders mm) Y = Some sd \<and> report_names Y r \<and>
      ms_position (mm_stats_of mm') = ms_position (mm_stats_of mm) + signed_qty sd (er_exec_qty r) \<and>
      (\<forall>X s. map_of (mm_open_orders mm') X = Some s \<longrightarrow> map_of (mm_open_orders mm) X = Some s))"
proof -
  have step: thesis if m: "map_of (mm_open_orders mm) Y = Some sd" "report_names Y r"
    and f: "\<And>st. apply_fill (mm_stats_of mm) sd (er_exec_price r) (er_exec_qty r) = Some st \<Longrightarrow>
      mm_on_fill mm r = Some (True, mm\<lparr>mm_stats_of := st\<lparr>ms_fills := ms_fills st + 1\<rparr>,
        mm_open_orders := (if er_leaves_qty r = 0 then omap_del Y (mm_open_orders mm) else mm_open_orders mm)\<rparr>)" for Y sd
  proof -
    obtain st where st: "apply_fill (mm_stats_of mm) sd (er_exec_price r) (er_exec_qty r) = Some st"
      using apply_fill_returns [OF assms] by blast
    show thesis
      by (rule filled [OF f [OF st]])
        (use m apply_fill_position [OF st] in \<open>auto simp: fun_upd_def split: if_splits intro!: exI [of _ Y] exI [of _ sd]\<close>)
  qed
  show thesis
  proof (cases "map_of (mm_open_orders mm) (er_order_id r)")
    case (Some sd)
    show thesis by (rule step [OF Some]) (simp_all add: report_names_def mm_on_fill_def Some)
  next
    case None
    show thesis
    proof (cases "map_of (mm_open_orders mm) (er_contra_order_id r)")
      case (Some sd)
      show thesis by (rule step [OF Some]) (simp_all add: report_names_def mm_on_fill_def Some None)
    next
      case none2: None
      show thesis by (rule filled [of False mm]) (simp_all add: mm_on_fill_def None none2)
    qed
  qed
qed

section \<open>The invariant of the position\<close>

definition side_pos :: "side \<Rightarrow> market_maker \<Rightarrow> int" where
  "side_pos sd mm = (if sd = Buy then ms_position (mm_stats_of mm) else - ms_position (mm_stats_of mm))"

definition side_price :: "side \<Rightarrow> quote \<Rightarrow> price" where
  "side_price sd q = (if sd = Buy then q_bid q else q_ask q)"

text \<open>
  What each program point knows of one side: \<open>Q\<close> that no report on an own order is still to be
  produced, \<open>C\<close> that nothing of the own orders is left at all, \<open>R q\<close> that a quote leaves room.
\<close>

fun pc_stage :: "demo_pc \<Rightarrow> bool \<Rightarrow> bool \<Rightarrow> (quote \<Rightarrow> bool) \<Rightarrow> side \<Rightarrow> bool" where
  "pc_stage CancelBid Q C R sd = Q" | "pc_stage CancelAsk Q C R sd = Q"
| "pc_stage (Waiting w) Q C R sd = (w = AfterCancel \<longrightarrow> Q)" | "pc_stage (Draining w) Q C R sd = (w = AfterCancel \<longrightarrow> Q)"
| "pc_stage (Checking w) Q C R sd = (w = AfterCancel \<longrightarrow> C)" | "pc_stage MakeQuote Q C R sd = C"
| "pc_stage (PostBid q) Q C R sd = (C \<and> R q)" | "pc_stage (PostAsk q) Q C R sd = (sd = Sell \<longrightarrow> C \<and> R q)"
| "pc_stage _ Q C R sd = True"

definition stage_ok :: "int \<Rightarrow> mm_demo \<Rightarrow> abooks \<Rightarrow> (side \<Rightarrow> order_id set) \<Rightarrow> side \<Rightarrow> bool" where
  "stage_ok limit d A S sd \<longleftrightarrow> pc_stage (dm_pc d) (\<forall>X\<in>S sd. named_qty X (future A (dm_engine d)) = 0)
    (\<forall>X\<in>S sd. exposure 1 A (dm_engine d) X = 0)
    (\<lambda>q. side_price sd q \<noteq> PRICE_INVALID \<longrightarrow> side_pos sd (dm_maker d) + 100 \<le> limit) sd"

definition bound_inv :: "int \<Rightarrow> mm_demo \<Rightarrow> abooks \<Rightarrow> (side \<Rightarrow> order_id set) \<Rightarrow> bool" where
  "bound_inv limit d A S \<longleftrightarrow> (\<forall>sd. finite (S sd) \<and> (\<forall>X\<in>S sd. own X \<and> X < dm_next_mm_id d)) \<and>
    (\<forall>X sd. map_of (mm_open_orders (dm_maker d)) X = Some sd \<longrightarrow> X \<in> S sd) \<and>
    (\<forall>sd. side_pos sd (dm_maker d) + int (\<Sum>X\<in>S sd. exposure 1 A (dm_engine d) X) \<le> limit) \<and> (\<forall>sd. stage_ok limit d A S sd)"

definition full_inv :: "nat \<Rightarrow> int \<Rightarrow> mm_demo \<Rightarrow> bool" where
  "full_inv N limit d \<longleftrightarrow> (\<exists>A S. demo_inv N limit d A \<and> (\<not> dm_timed_out d \<longrightarrow> bound_inv limit d A S))"

lemma full_invI: "demo_inv N limit d A \<Longrightarrow> (\<not> dm_timed_out d \<Longrightarrow> bound_inv limit d A S) \<Longrightarrow> full_inv N limit d"
  unfolding full_inv_def by blast

lemma bound_keep:
  assumes b: "bound_inv limit d A S" and m: "side_pos Buy (dm_maker d') = side_pos Buy (dm_maker d)"
    "mm_open_orders (dm_maker d') = mm_open_orders (dm_maker d)" "dm_next_mm_id d' = dm_next_mm_id d"
    and x: "\<And>X. own X \<Longrightarrow> exposure 1 A' (dm_engine d') X \<le> exposure 1 A (dm_engine d) X"
    and s: "\<And>sd. stage_ok limit d A S sd \<Longrightarrow> stage_ok limit d' A' S sd"
  shows "bound_inv limit d' A' S"
proof -
  have p: "side_pos sd (dm_maker d') = side_pos sd (dm_maker d)" for sd
    using m(1) by (cases sd) (simp_all add: side_pos_def)
  have "(\<Sum>X\<in>S sd. exposure 1 A' (dm_engine d') X) \<le> (\<Sum>X\<in>S sd. exposure 1 A (dm_engine d) X)" for sd
    using b x by (intro sum_mono) (auto simp: bound_inv_def)
  then have le: "int (\<Sum>X\<in>S sd. exposure 1 A' (dm_engine d') X) \<le> int (\<Sum>X\<in>S sd. exposure 1 A (dm_engine d) X)" for sd
    by (simp only: of_nat_le_iff)
  have "side_pos sd (dm_maker d') + int (\<Sum>X\<in>S sd. exposure 1 A' (dm_engine d') X) \<le> limit" for sd
  proof -
    have "side_pos sd (dm_maker d) + int (\<Sum>X\<in>S sd. exposure 1 A (dm_engine d) X) \<le> limit" using b by (simp add: bound_inv_def)
    then show ?thesis using le [of sd] p [of sd] by linarith
  qed
  then show ?thesis using b s m(2,3) by (simp add: bound_inv_def)
qed

text \<open>A turn that leaves the program point, the maker and the exposures as they are, or lowers them.\<close>

lemma bound_same_pc:
  assumes b: "bound_inv limit d A S" and m: "dm_maker d' = dm_maker d" "dm_next_mm_id d' = dm_next_mm_id d" "dm_pc d' = dm_pc d"
    and x: "\<And>X. exposure 1 A' (dm_engine d') X \<le> exposure 1 A (dm_engine d) X"
      "\<And>X. named_qty X (future A' (dm_engine d')) \<le> named_qty X (future A (dm_engine d))"
  shows "bound_inv limit d' A' S"
proof (rule bound_keep [OF b])
  fix sd assume s: "stage_ok limit d A S sd"
  have z: "named_qty X (future A (dm_engine d)) = 0 \<Longrightarrow> named_qty X (future A' (dm_engine d')) = 0"
    "exposure 1 A (dm_engine d) X = 0 \<Longrightarrow> exposure 1 A' (dm_engine d') X = 0" for X
    using x [of X] by simp_all
  show "stage_ok limit d' A' S sd" using s z by (cases "dm_pc d") (auto simp: stage_ok_def m)
qed (use m x in simp_all)

lemma full_engine:
  assumes "full_inv N limit d" "engine_step (dm_engine d) = Some e"
  shows "full_inv N limit (d\<lparr>dm_engine := e\<rparr>)"
proof -
  from assms(1) obtain A S where I: "demo_inv N limit d A" "\<not> dm_timed_out d \<longrightarrow> bound_inv limit d A S" by (auto simp: full_inv_def)
  from inv_engine_step [OF I(1) assms(2)] obtain A' where J: "demo_inv N limit (d\<lparr>dm_engine := e\<rparr>) A'"
    "\<And>X. exposure 1 A' e X \<le> exposure 1 A (dm_engine d) X" "\<And>X. named_qty X (future A' e) \<le> named_qty X (future A (dm_engine d))" by metis
  have "bound_inv limit (d\<lparr>dm_engine := e\<rparr>) A' S" if "bound_inv limit d A S"
    using J(2,3) by (intro bound_same_pc [OF that]) simp_all
  then show ?thesis using I(2) by (intro full_invI [OF J(1)]) simp
qed

lemma full_rejected:
  assumes "demo_inv N limit d A" "\<not> dm_timed_out d \<longrightarrow> bound_inv limit d A S" "plain_msg 1 m" "fresh_in A (dm_engine d) m"
    "engine_submit (dm_engine d) m = (False, e)"
  shows "full_inv N limit (d\<lparr>dm_engine := e\<rparr>)"
proof -
  note R = inv_rejected [OF assms(1,3,4,5)]
  have "bound_inv limit (d\<lparr>dm_engine := e\<rparr>) A S" if "bound_inv limit d A S"
    using R by (intro bound_same_pc [OF that]) simp_all
  then show ?thesis using assms(2) by (intro full_invI [OF R(1)]) simp
qed

section \<open>Every turn of the program\<close>

lemma submit_retry_alt:
  "engine_submit (dm_engine d) m = (ok, e) \<Longrightarrow> submit_retry m k d =
    (if ok then k (d\<lparr>dm_engine := e, dm_submitted := dm_submitted d + 1\<rparr>) else d\<lparr>dm_engine := e\<rparr>)"
  by (simp add: submit_retry_def submit_attempt_def Let_def)

fun pc_posts :: "demo_pc \<Rightarrow> bool" where
  "pc_posts (PostBid q) = True" | "pc_posts (PostAsk q) = True" | "pc_posts _ = False"

lemma pc_ok_plain: "\<not> pc_posts (dm_pc d) \<Longrightarrow> dm_pc d \<noteq> SubmitNoise 0 \<or> dm_noise d \<noteq> [] \<Longrightarrow> pc_ok d a"
  by (auto simp: pc_ok_def)

text \<open>A move from one program point to another.\<close>

lemma full_move:
  assumes I: "demo_inv N limit d A" "\<not> dm_timed_out d \<longrightarrow> bound_inv limit d A S"
    and t: "pc_todo pc' \<le> pc_todo (dm_pc d)" and l: "live_ids d \<subseteq> pc_live pc' (dm_bid_id d) (dm_ask_id d)"
    and p: "\<not> pc_posts pc'" "pc' \<noteq> SubmitNoise 0 \<or> dm_noise d \<noteq> []" and o: "dm_timed_out d \<Longrightarrow> o'"
    and s: "\<And>sd. \<not> o' \<Longrightarrow> bound_inv limit d A S \<Longrightarrow> stage_ok limit d A S sd \<Longrightarrow> stage_ok limit (d\<lparr>dm_pc := pc'\<rparr>) A S sd"
  shows "full_inv N limit (d\<lparr>dm_pc := pc', dm_timed_out := o'\<rparr>)"
proof (rule full_invI [where A = A and S = S])
  let ?d = "d\<lparr>dm_pc := pc', dm_timed_out := o'\<rparr>"
  show "demo_inv N limit ?d A"
    by (rule inv_local [OF I(1)]) (use t l p in \<open>simp_all add: live_ids_def pc_ok_plain\<close>)
  assume "\<not> dm_timed_out ?d"
  then have o1: "\<not> o'" "\<not> dm_timed_out d" using o by auto
  then have b: "bound_inv limit d A S" using I(2) by simp
  show "bound_inv limit ?d A S"
    by (rule bound_keep [OF b]) (use s [OF o1(1) b] in \<open>simp_all add: stage_ok_def\<close>)
qed

lemma full_noise:
  assumes I: "demo_inv N limit d A" "\<not> dm_timed_out d \<longrightarrow> bound_inv limit d A S" and pc: "dm_pc d = SubmitNoise b"
  shows "full_inv N limit (noise_turn b d)"
proof (cases "dm_noise d = [] \<or> \<not> b < kRequoteEvery")
  case True
  then have "noise_turn b d = d\<lparr>dm_pc := Waiting AfterNoise, dm_timed_out := dm_timed_out d\<rparr>"
    by (cases "dm_noise d") (auto simp: noise_turn_def)
  moreover have "b \<noteq> 0" using True I(1) pc by (auto simp: demo_inv_def pc_ok_def kRequoteEvery_def)
  then have "full_inv N limit (d\<lparr>dm_pc := Waiting AfterNoise, dm_timed_out := dm_timed_out d\<rparr>)"
    by (intro full_move [OF I]) (simp_all add: pc live_ids_def stage_ok_def)
  ultimately show ?thesis by simp
next
  case False
  then obtain m ms where ms: "dm_noise d = m # ms" "b < kRequoteEvery" by (cases "dm_noise d") auto
  obtain ok e where su: "engine_submit (dm_engine d) m = (ok, e)" by force
  let ?d = "d\<lparr>dm_engine := e, dm_submitted := dm_submitted d + 1, dm_noise := ms, dm_pc := SubmitNoise (Suc b)\<rparr>"
  have t: "noise_turn b d = (if ok then ?d else d\<lparr>dm_engine := e\<rparr>)"
    using ms by (simp add: noise_turn_def submit_retry_alt [OF su])
  show ?thesis
  proof (cases ok)
    case True
    then have "engine_submit (dm_engine d) m = (True, e)" using su by simp
    note S = inv_noise [OF I(1) pc ms(1) this refl]
    have "bound_inv limit ?d A S" if "bound_inv limit d A S"
      by (rule bound_keep [OF that]) (use S(2) in \<open>simp_all add: stage_ok_def\<close>)
    then have "full_inv N limit ?d" using I(2) by (intro full_invI [OF S(1)]) simp
    then show ?thesis using t True by simp
  next
    case False
    have "plain_msg 1 m" "fresh_in A (dm_engine d) m"
      using I(1) ms by (auto simp: demo_inv_def noise_ok_def view_ok_def fresh_in_def)
    from full_rejected [OF I this] su False t show ?thesis by simp
  qed
qed

lemma full_cancel:
  assumes I: "demo_inv N limit d A" "\<not> dm_timed_out d \<longrightarrow> bound_inv limit d A S"
    and t: "pc_todo pc' + 1 \<le> pc_todo (dm_pc d)" and l: "live_ids d \<subseteq> insert oid (pc_live pc' (dm_bid_id d) (dm_ask_id d))"
    and p: "\<not> pc_posts pc'" "pc' \<noteq> SubmitNoise 0"
    and s: "\<And>Q C R Q' C' R' sd. (Q \<longrightarrow> Q') \<Longrightarrow> pc_stage (dm_pc d) Q C R sd \<Longrightarrow> pc_stage pc' Q' C' R' sd"
  shows "full_inv N limit (cancel_turn oid counted pc' d)"
proof (cases "oid = 0")
  case True
  show ?thesis
  proof -
    let ?d = "d\<lparr>dm_pc := pc'\<rparr>"
    from I(1) obtain a where a: "fst (settled A (dm_engine d)) (unat (1 :: symbol_id)) = Some a"
      "view_ok (dm_next_mm_id d) (live_ids d) (dm_noise d) a (pending A (dm_engine d))" by (auto simp: demo_inv_def)
    have "\<not> own 0" by (simp add: own_def)
    then have v: "view_ok (dm_next_mm_id d) (pc_live pc' (dm_bid_id d) (dm_ask_id d)) (dm_noise d) a (pending A (dm_engine d))"
      using a(2) l True by (fastforce simp: view_ok_def)
    have "counts_ok N ?d"
    proof -
      have "todo ?d \<le> todo d" using t by (simp add: todo_def)
      then show ?thesis using I(1) unfolding demo_inv_def counts_ok_def by (fastforce intro: order_trans [rotated])
    qed
    then have "demo_inv N limit ?d A" using I(1) v a(1) p by (simp add: demo_inv_def live_ids_def pc_ok_plain)
    moreover have "bound_inv limit ?d A S" if "bound_inv limit d A S"
    proof (rule bound_keep [OF that])
      fix sd assume "stage_ok limit d A S sd"
      then have "pc_stage pc' (\<forall>X\<in>S sd. named_qty X (future A (dm_engine d)) = 0) (\<forall>X\<in>S sd. exposure 1 A (dm_engine d) X = 0)
        (\<lambda>q. side_price sd q \<noteq> PRICE_INVALID \<longrightarrow> side_pos sd (dm_maker d) + 100 \<le> limit) sd"
        unfolding stage_ok_def by (rule s [rotated]) simp
      then show "stage_ok limit ?d A S sd" by (simp add: stage_ok_def)
    qed simp_all
    ultimately show ?thesis using I(2) True by (auto simp: cancel_turn_def intro: full_invI)
  qed
next
  case False
  obtain ok e where su: "engine_submit (dm_engine d) (cancel_msg oid) = (ok, e)" by force
  let ?d = "d\<lparr>dm_engine := e, dm_submitted := dm_submitted d + 1, dm_pc := pc',
    dm_cancel_attempts := (if counted then dm_cancel_attempts d + 1 else dm_cancel_attempts d)\<rparr>"
  have tt: "cancel_turn oid counted pc' d = (if ok then ?d else d\<lparr>dm_engine := e\<rparr>)"
    using False by (simp add: cancel_turn_def submit_retry_alt [OF su])
  show ?thesis
  proof (cases ok)
    case True
    have pk: "pc_ok ?d a" for a using p by (intro pc_ok_plain) simp_all
    have "engine_submit (dm_engine d) (cancel_msg oid) = (True, e)" using su True by simp
    note C = inv_cancel [OF I(1) this refl t l pk]
    have "bound_inv limit ?d A S" if "bound_inv limit d A S"
    proof (rule bound_keep [OF that])
      fix sd assume "stage_ok limit d A S sd"
      then show "stage_ok limit ?d A S sd" unfolding stage_ok_def by (simp add: C(3)) (rule s [rotated], auto)
    qed (use C in simp_all)
    then have "full_inv N limit ?d" using I(2) C by (intro full_invI [where A = A and S = S]) simp_all
    then show ?thesis using tt True by simp
  next
    case rej: False
    have "plain_msg 1 (cancel_msg oid)" "fresh_in A (dm_engine d) (cancel_msg oid)"
      by (simp_all add: plain_msg_def cancel_msg_def fresh_in_def)
    from full_rejected [OF I this] su rej tt show ?thesis by simp
  qed
qed

lemma full_wait_head:
  assumes I: "demo_inv N limit d A" "\<not> dm_timed_out d \<longrightarrow> bound_inv limit d A S" and pc: "dm_pc d = Waiting w"
  shows "full_inv N limit (wait_head w expired d)"
proof (cases expired)
  case True
  have "full_inv N limit (d\<lparr>dm_pc := wait_return w, dm_timed_out := True\<rparr>)"
    by (rule full_move [OF I]; cases w) (simp_all add: pc live_ids_def)
  then show ?thesis using True by (simp add: wait_head_def)
next
  case False
  have "full_inv N limit (d\<lparr>dm_pc := Draining w, dm_timed_out := dm_timed_out d\<rparr>)"
    by (rule full_move [OF I]) (simp_all add: pc live_ids_def stage_ok_def)
  then show ?thesis using False by (simp add: wait_head_def)
qed

text \<open>The counters tell when the engine has taken every message.\<close>

lemma caught_up_empty:
  assumes "counts_ok N d" "N < 2 ^ 64" "dm_submitted d \<le> en_stat_messages (dm_engine d)"
  shows "inq (dm_engine d) = []"
proof -
  from assms(1) obtain k where k: "en_stat_messages (dm_engine d) = of_nat k" "dm_submitted d = of_nat (k + length (inq (dm_engine d)))"
    "k + length (inq (dm_engine d)) + todo d \<le> N" by (auto simp: counts_ok_def)
  have u: "unat (of_nat j :: u64) = j" if "j \<le> N" for j
    using that assms(2) by (simp add: unsigned_of_nat take_bit_nat_eq_self)
  have "k + length (inq (dm_engine d)) \<le> k"
    using assms(3) k u [of k] u [of "k + length (inq (dm_engine d))"] by (simp add: word_le_nat_alt)
  then show ?thesis by simp
qed

lemma full_wait_check:
  assumes I: "demo_inv N limit d A" "\<not> dm_timed_out d \<longrightarrow> bound_inv limit d A S" and pc: "dm_pc d = Checking w" and N: "N < 2 ^ 64"
  shows "full_inv N limit (wait_check w d)"
proof (cases "dm_submitted d \<le> en_stat_messages (dm_engine d)")
  case True
  have "inq (dm_engine d) = []" using I(1) by (intro caught_up_empty [OF _ N True]) (simp add: demo_inv_def)
  then have f: "future A (dm_engine d) = []" by (simp add: future_def)
  have "full_inv N limit (d\<lparr>dm_pc := wait_return w, dm_timed_out := dm_timed_out d\<rparr>)"
    by (rule full_move [OF I]; cases w) (simp_all add: pc live_ids_def stage_ok_def f)
  then show ?thesis using True by (simp add: wait_check_def)
next
  case False
  have "full_inv N limit (d\<lparr>dm_pc := Waiting w, dm_timed_out := dm_timed_out d\<rparr>)"
  proof (rule full_move [OF I])
    fix sd assume "stage_ok limit d A S sd"
    then show "stage_ok limit (d\<lparr>dm_pc := Waiting w\<rparr>) A S sd"
      by (auto simp: stage_ok_def pc exposure_def pending_def)
  qed (simp_all add: pc live_ids_def)
  then show ?thesis using False by (simp add: wait_check_def)
qed

text \<open>What \<^verbatim>\<open>on_fill\<close> books is taken from the exposure of the order it books it on.\<close>

lemma bound_fill:
  assumes b: "bound_inv limit d A S" and po: "\<And>X. exposure 1 A (dm_engine d) X = named_qty X [r] + exposure 1 A e X"
    and f: "future A e = future A (dm_engine d)"
    and mm: "mm' = dm_maker d \<or> (\<exists>Y sd. map_of (mm_open_orders (dm_maker d)) Y = Some sd \<and> report_names Y r \<and>
      ms_position (mm_stats_of mm') = ms_position (mm_stats_of (dm_maker d)) + signed_qty sd (er_exec_qty r) \<and>
      (\<forall>X s. map_of (mm_open_orders mm') X = Some s \<longrightarrow> map_of (mm_open_orders (dm_maker d)) X = Some s))"
    and pc: "\<not> pc_posts (dm_pc d)"
  shows "bound_inv limit (d\<lparr>dm_engine := e, dm_last_trade := p, dm_maker := mm'\<rparr>) A S"
proof -
  let ?d = "d\<lparr>dm_engine := e, dm_last_trade := p, dm_maker := mm'\<rparr>"
  let ?x = "\<lambda>X. exposure 1 A (dm_engine d) X" and ?y = "\<lambda>X. exposure 1 A e X"
  have fin: "finite (S sd)" for sd using b by (simp add: bound_inv_def)
  have le: "?y X \<le> ?x X" for X using po [of X] by simp
  have oo: "\<forall>X sd. map_of (mm_open_orders mm') X = Some sd \<longrightarrow> X \<in> S sd" using b mm by (auto simp: bound_inv_def)
  have tot: "side_pos sd mm' + int (\<Sum>X\<in>S sd. ?y X) \<le> side_pos sd (dm_maker d) + int (\<Sum>X\<in>S sd. ?x X)" for sd
    using mm
  proof (elim disjE exE conjE)
    assume "mm' = dm_maker d"
    then show ?thesis using sum_mono [of "S sd" ?y ?x] le by (simp only: add_left_mono of_nat_le_iff)
  next
    fix Y s assume Y: "map_of (mm_open_orders (dm_maker d)) Y = Some s" "report_names Y r"
      "ms_position (mm_stats_of mm') = ms_position (mm_stats_of (dm_maker d)) + signed_qty s (er_exec_qty r)"
    have q: "0 \<le> uint (er_exec_qty r)" "int (unat (er_exec_qty r)) = uint (er_exec_qty r)" by simp_all
    show ?thesis
    proof (cases "sd = s")
      case True
      have "Y \<in> S sd" using b Y(1) True by (auto simp: bound_inv_def)
      from sum.remove [OF fin this, of ?x] sum.remove [OF fin this, of ?y]
      have "(\<Sum>X\<in>S sd. ?y X) + unat (er_exec_qty r) \<le> (\<Sum>X\<in>S sd. ?x X)"
        using po [of Y] Y(2) sum_mono [of "S sd - {Y}" ?y ?x] le by simp
      then have "int (\<Sum>X\<in>S sd. ?y X) + uint (er_exec_qty r) \<le> int (\<Sum>X\<in>S sd. ?x X)"
        unfolding q(2) [symmetric] of_nat_add [symmetric] of_nat_le_iff .
      moreover have "side_pos sd mm' = side_pos sd (dm_maker d) + uint (er_exec_qty r)"
        using Y(3) True by (cases s) (simp_all add: side_pos_def signed_qty_def)
      ultimately show ?thesis by linarith
    next
      case False
      have "int (\<Sum>X\<in>S sd. ?y X) \<le> int (\<Sum>X\<in>S sd. ?x X)" using sum_mono [of "S sd" ?y ?x] le by (simp only: of_nat_le_iff)
      moreover have "side_pos sd mm' \<le> side_pos sd (dm_maker d)"
        using Y(3) False q(1) by (cases s; cases sd) (simp_all add: side_pos_def signed_qty_def)
      ultimately show ?thesis by linarith
    qed
  qed
  have z: "?x X = 0 \<Longrightarrow> ?y X = 0" for X using le [of X] by simp
  have "stage_ok limit ?d A S sd" for sd
  proof -
    have "stage_ok limit d A S sd" using b by (simp add: bound_inv_def)
    then show ?thesis using z pc by (cases "dm_pc d") (auto simp: stage_ok_def f)
  qed
  moreover have "side_pos sd mm' + int (\<Sum>X\<in>S sd. ?y X) \<le> limit" for sd
    using tot [of sd] b unfolding bound_inv_def by (meson order_trans)
  ultimately show ?thesis using b oo by (simp add: bound_inv_def)
qed

text \<open>A poll always returns, since no report is empty.\<close>

lemma full_drain:
  assumes I: "demo_inv N limit d A" "\<not> dm_timed_out d \<longrightarrow> bound_inv limit d A S" and pc: "\<not> pc_posts (dm_pc d)" "\<not> pc_posts pc'"
    "pc_todo pc' \<le> pc_todo (dm_pc d)" "live_ids d \<subseteq> pc_live pc' (dm_bid_id d) (dm_ask_id d)" "pc' \<noteq> SubmitNoise 0" "dm_pc d \<noteq> SubmitNoise 0"
    and s: "\<And>Q C R Q' C' R' sd. (Q \<longrightarrow> live_ids d = {} \<longrightarrow> C') \<Longrightarrow> pc_stage (dm_pc d) Q C R sd \<Longrightarrow> pc_stage pc' Q' C' R' sd"
  obtains d' where "drain_poll pc' d = Some d'" "full_inv N limit d'"
    "dm_pc d' = (if outq (dm_engine d) = [] then pc' else dm_pc d)" "outq (dm_engine d') = tl (outq (dm_engine d))"
    "inq (dm_engine d') = inq (dm_engine d)" "dm_timed_out d' = dm_timed_out d" "dm_noise d' = dm_noise d"
proof -
  obtain r e where po: "poll_report (dm_engine d) = (r, e)" by force
  note P = inv_poll [OF I(1) po]
  have sy: "engine_sync (dm_engine d) A" using I(1) by (simp add: demo_inv_def)
  note E = sync_poll(4,6,7) [OF sy po]
  show ?thesis
  proof (cases r)
    case None
    then have o: "outq (dm_engine d) = []" using E(2) by (cases "outq (dm_engine d)") auto
    let ?d = "d\<lparr>dm_engine := e, dm_pc := pc', dm_timed_out := dm_timed_out d\<rparr>"
    have b: "bound_inv limit (d\<lparr>dm_engine := e\<rparr>) A S" if "bound_inv limit d A S"
      using P(2,4) None by (intro bound_same_pc [OF that]) simp_all
    have "full_inv N limit ((d\<lparr>dm_engine := e\<rparr>)\<lparr>dm_pc := pc', dm_timed_out := dm_timed_out d\<rparr>)"
    proof (rule full_move [OF P(1)])
      show "\<not> dm_timed_out (d\<lparr>dm_engine := e\<rparr>) \<longrightarrow> bound_inv limit (d\<lparr>dm_engine := e\<rparr>) A S" using I(2) b by simp
      fix sd assume bi: "bound_inv limit (d\<lparr>dm_engine := e\<rparr>) A S" and st: "stage_ok limit (d\<lparr>dm_engine := e\<rparr>) A S sd"
      have z: "exposure 1 A e X = 0" if X: "X \<in> S sd" "live_ids d = {}" and f: "named_qty X (future A e) = 0" for X
      proof -
        from P(1) obtain a where a: "fst (settled A e) (unat (1 :: symbol_id)) = Some a"
          "view_ok (dm_next_mm_id d) (live_ids d) (dm_noise d) a (pending A e)" by (auto simp: demo_inv_def live_ids_def)
        have "X \<notin> all_ids a" using a(2) X bi by (auto simp: view_ok_def bound_inv_def)
        then have "book_qty X a = 0" by (rule book_qty_0)
        moreover have "outq e = []" using E(3) o by simp
        ultimately show ?thesis using a(1) f by (simp add: exposure_def pending_def)
      qed
      show "stage_ok limit (d\<lparr>dm_engine := e, dm_pc := pc'\<rparr>) A S sd"
        using st unfolding stage_ok_def by simp (erule s [rotated], use z in blast)
    qed (use pc in \<open>simp_all add: live_ids_def\<close>)
    then show ?thesis using o E(1,3) by (intro that [of ?d]) (simp_all add: drain_poll_def po None)
  next
    case (Some rpt)
    have q: "er_exec_qty rpt \<noteq> 0" using P(5) [OF Some] by (simp add: report_ok_def)
    from on_fill_cases [OF q, of "dm_maker d"] obtain b mm' where F: "mm_on_fill (dm_maker d) rpt = Some (b, mm')"
      "mm_cfg mm' = mm_cfg (dm_maker d)"
      "mm' = dm_maker d \<or> (\<exists>Y sd. map_of (mm_open_orders (dm_maker d)) Y = Some sd \<and> report_names Y rpt \<and>
      ms_position (mm_stats_of mm') = ms_position (mm_stats_of (dm_maker d)) + signed_qty sd (er_exec_qty rpt) \<and>
      (\<forall>X s. map_of (mm_open_orders mm') X = Some s \<longrightarrow> map_of (mm_open_orders (dm_maker d)) X = Some s))" by metis
    let ?d = "d\<lparr>dm_engine := e, dm_last_trade := er_exec_price rpt, dm_maker := mm'\<rparr>"
    have "demo_inv N limit ?d A"
      by (rule inv_local [OF P(1)]) (use pc F(2) in \<open>simp_all add: live_ids_def pc_ok_plain\<close>)
    moreover have "bound_inv limit ?d A S" if "bound_inv limit d A S"
      by (rule bound_fill [OF that _ P(2) F(3) pc(1)]) (use P(4) Some in simp)
    ultimately have "full_inv N limit ?d" using I(2) by (intro full_invI [where A = A and S = S]) simp_all
    moreover have "outq (dm_engine d) \<noteq> []" using E(2) Some by (cases "outq (dm_engine d)") auto
    ultimately show ?thesis using E(1,3) F(1) by (intro that [of ?d]) (simp_all add: drain_poll_def po Some)
  qed
qed

section \<open>Quoting\<close>

lemma quote_facts:
  assumes "compute_quote skew mm mid = (q, mm')" "mm_cfg mm = demo_cfg limit"
  shows "mm_cfg mm' = demo_cfg limit" "mm_open_orders mm' = mm_open_orders mm" "side_pos sd mm' = side_pos sd mm"
    "side_price sd q \<noteq> PRICE_INVALID \<Longrightarrow> side_pos sd mm + 100 \<le> limit"
    "q_bid q \<noteq> PRICE_INVALID \<Longrightarrow> q_ask q \<noteq> PRICE_INVALID \<Longrightarrow> q_bid q < q_ask q"
  using assms by (auto simp: compute_quote_def Let_def demo_cfg_def side_pos_def side_price_def split: if_splits)

lemma full_quote:
  assumes I: "demo_inv N limit d A" "\<not> dm_timed_out d \<longrightarrow> bound_inv limit d A S" and pc: "dm_pc d = MakeQuote"
  shows "full_inv N limit (quote_turn skew d)"
proof -
  obtain q mm where q: "compute_quote skew (dm_maker d) (dm_last_trade d) = (q, mm)" by force
  have c: "mm_cfg (dm_maker d) = demo_cfg limit" using I(1) by (simp add: demo_inv_def)
  note Q = quote_facts [OF q c]
  let ?d = "d\<lparr>dm_maker := mm, dm_bid_id := 0, dm_ask_id := 0, dm_pc := PostBid q\<rparr>"
  have "demo_inv N limit ?d A"
    by (rule inv_local [OF I(1)]) (use Q(1,5) c in \<open>simp_all add: pc live_ids_def pc_ok_def\<close>)
  moreover have "bound_inv limit ?d A S" if "bound_inv limit d A S"
    by (rule bound_keep [OF that]) (use Q(2,3,4) in \<open>simp_all add: stage_ok_def pc\<close>)
  ultimately have "full_inv N limit ?d" using I(2) by (intro full_invI [where A = A and S = S]) simp_all
  then show ?thesis by (simp add: quote_turn_def q)
qed

text \<open>Entering an order on a side where nothing is left and the position leaves room for it.\<close>

lemma bound_post:
  assumes b: "bound_inv limit d A S" and nx: "own (dm_next_mm_id d)" "dm_next_mm_id d < dm_next_mm_id d + 1"
    and x: "\<And>X. exposure 1 A e X \<le> exposure 1 A (dm_engine d) X + (if X = dm_next_mm_id d then 100 else 0)"
    and z: "exposure 1 A (dm_engine d) (dm_next_mm_id d) = 0"
    and cl: "\<forall>X\<in>S sd. exposure 1 A (dm_engine d) X = 0" and rm: "side_pos sd (dm_maker d) + 100 \<le> limit"
    and d': "d' = d\<lparr>dm_engine := e, dm_submitted := k, dm_maker := register_order (dm_maker d) (dm_next_mm_id d) sd,
      dm_bid_id := b', dm_ask_id := a', dm_next_mm_id := dm_next_mm_id d + 1, dm_new_orders := c, dm_pc := pc'\<rparr>"
    and s: "\<And>s. (\<forall>X\<in>S s. exposure 1 A (dm_engine d) X = 0 \<longrightarrow> exposure 1 A e X = 0) \<Longrightarrow> stage_ok limit d A S s \<Longrightarrow>
      stage_ok limit d' A (S(sd := insert (dm_next_mm_id d) (S sd))) s"
  shows "bound_inv limit d' A (S(sd := insert (dm_next_mm_id d) (S sd)))"
proof -
  let ?n = "dm_next_mm_id d" and ?S = "S(sd := insert (dm_next_mm_id d) (S sd))"
  let ?x = "\<lambda>X. exposure 1 A (dm_engine d) X" and ?y = "\<lambda>X. exposure 1 A e X"
  have B: "finite (S s)" "\<forall>X\<in>S s. own X \<and> X < ?n" for s using b by (auto simp: bound_inv_def)
  have le: "?y X \<le> ?x X" if "X \<in> S s" for X s using x [of X] B(2) [of s] that by (auto split: if_splits)
  have p: "side_pos s (dm_maker d') = side_pos s (dm_maker d)" for s by (simp add: d' register_order_def side_pos_def)
  have tot: "side_pos s (dm_maker d') + int (\<Sum>X\<in>?S s. ?y X) \<le> limit" for s
  proof (cases "s = sd")
    case True
    have "(\<Sum>X\<in>S sd. ?y X) = 0" using cl le [of _ sd] by (intro sum.neutral) fastforce
    moreover have "?n \<notin> S sd" using B(2) [of sd] by auto
    ultimately have "(\<Sum>X\<in>?S s. ?y X) = ?y ?n" using True B(1) [of sd] by simp
    moreover have "?y ?n \<le> 100" using x [of ?n] z by simp
    ultimately show ?thesis using rm p [of s] True by simp
  next
    case False
    have "int (\<Sum>X\<in>S s. ?y X) \<le> int (\<Sum>X\<in>S s. ?x X)" using sum_mono [of "S s" ?y ?x] le [of _ s] by (simp only: of_nat_le_iff)
    moreover have "side_pos s (dm_maker d) + int (\<Sum>X\<in>S s. ?x X) \<le> limit" using b by (simp add: bound_inv_def)
    ultimately show ?thesis using False p [of s] by simp
  qed
  have st: "stage_ok limit d' A ?S s" for s
    by (rule s) (use le [of _ s] b in \<open>fastforce simp: bound_inv_def\<close>)+
  have nb: "\<forall>X\<in>?S s. own X \<and> X < dm_next_mm_id d'" for s using B(2) [of s] nx by (auto simp: d' intro: less_trans)
  have oo: "map_of (mm_open_orders (dm_maker d')) X = Some s \<longrightarrow> X \<in> ?S s" for X s
    using b by (auto simp: d' register_order_def bound_inv_def)
  have "dm_engine d' = e" by (simp add: d')
  moreover have "finite (?S s)" for s using B(1) by simp
  ultimately show ?thesis unfolding bound_inv_def using nb oo tot st by (metis (no_types, lifting))
qed

lemma full_post_bid:
  assumes I: "demo_inv N limit d A" "\<not> dm_timed_out d \<longrightarrow> bound_inv limit d A S" and pc: "dm_pc d = PostBid q" and N: "10 ^ 9 + N < 2 ^ 64"
  shows "full_inv N limit (post_bid q d)"
proof (cases "q_bid q = PRICE_INVALID")
  case True
  have v: "\<not> own X" if "view_ok (dm_next_mm_id d) (live_ids d) (dm_noise d) a P" "rests_at a e p X" for a P e p X
    using that by (auto simp: view_ok_def live_ids_def pc all_ids_rests)
  let ?d = "d\<lparr>dm_pc := PostAsk q\<rparr>"
  have "demo_inv N limit ?d A"
    by (rule inv_local [OF I(1)]) (use v in \<open>auto simp: pc live_ids_def pc_ok_def True\<close>)
  moreover have "bound_inv limit ?d A S" if "bound_inv limit d A S"
    by (rule bound_keep [OF that]) (auto simp: stage_ok_def pc)
  ultimately have "full_inv N limit ?d" using I(2) by (intro full_invI [where A = A and S = S]) simp_all
  then show ?thesis by (simp add: post_bid_def True)
next
  case False
  have c: "mc_quote_qty (mm_cfg (dm_maker d)) = 100" using I(1) by (simp add: demo_inv_def demo_cfg_def)
  let ?m = "quote_msg (dm_next_mm_id d) Buy (q_bid q) 100"
  obtain ok e where su: "engine_submit (dm_engine d) ?m = (ok, e)" by force
  have td: "0 < todo d" by (simp add: todo_def pc)
  have co: "counts_ok N d" using I(1) by (simp add: demo_inv_def)
  note O = next_own [OF co N td] and U = own_unused [OF I(1) N td]
  let ?d = "d\<lparr>dm_engine := e, dm_submitted := dm_submitted d + 1, dm_maker := register_order (dm_maker d) (dm_next_mm_id d) Buy,
      dm_bid_id := dm_next_mm_id d, dm_ask_id := dm_ask_id d, dm_next_mm_id := dm_next_mm_id d + 1,
      dm_new_orders := dm_new_orders d + 1, dm_pc := PostAsk q\<rparr>"
  have tt: "post_bid q d = (if ok then ?d else d\<lparr>dm_engine := e\<rparr>)"
    using False by (simp add: post_bid_def c submit_retry_alt [OF su])
  show ?thesis
  proof (cases ok)
    case True
    then have su1: "engine_submit (dm_engine d) ?m = (True, e)" using su by simp
    have v: "\<not> own X" if "view_ok (dm_next_mm_id d) (live_ids d) (dm_noise d) a P" "rests_at a e p X" for a P e p X
      using that by (auto simp: view_ok_def live_ids_def pc all_ids_rests)
    have t: "pc_todo (PostAsk q) + 1 \<le> pc_todo (dm_pc d)"
      "insert (dm_next_mm_id d) (live_ids d) \<subseteq> pc_live (PostAsk q) (dm_next_mm_id d) (dm_ask_id d)"
      by (simp_all add: pc live_ids_def)
    have pk: "pc_ok ?d a'" if h: "pc_ok d a" "view_ok (dm_next_mm_id d) (live_ids d) (dm_noise d) a P"
      "\<forall>e p X. rests_at a' e p X \<longrightarrow> rests_at a e p X \<or> X = dm_next_mm_id d \<and> e = (Buy = Buy) \<and> p = q_bid q" for a a' P
    proof -
      have "e \<and> p = q_bid q" if r: "rests_at a' e p X" "own X" for e p X
        using h(3) [rule_format, OF r(1)] v [OF h(2), of e p X] r(2) by auto
      then show ?thesis using h(1) False unfolding pc_ok_def by (simp add: pc) blast
    qed
    note P = inv_post [OF I(1) N su1 refl t v [rotated] pk]
    have "bound_inv limit ?d A (S(Buy := insert (dm_next_mm_id d) (S Buy)))" if b: "bound_inv limit d A S"
    proof (rule bound_post [OF b O(1,2) P(2) U(2) _ _ refl])
      have "stage_ok limit d A S Buy" using b by (simp add: bound_inv_def)
      then show "\<forall>X\<in>S Buy. exposure 1 A (dm_engine d) X = 0" "side_pos Buy (dm_maker d) + 100 \<le> limit"
        using False by (auto simp: stage_ok_def pc side_price_def)
    qed (auto simp: stage_ok_def pc side_pos_def register_order_def)
    then have b: "\<not> dm_timed_out d \<Longrightarrow> bound_inv limit ?d A (S(Buy := insert (dm_next_mm_id d) (S Buy)))" using I(2) by blast
    have "full_inv N limit ?d"
    proof (rule full_invI [OF P(1)])
      assume "\<not> dm_timed_out ?d"
      then show "bound_inv limit ?d A (S(Buy := insert (dm_next_mm_id d) (S Buy)))" by (intro b) simp
    qed
    then show ?thesis using tt True by simp
  next
    case rej: False
    have "plain_msg 1 ?m" using O(4) by (simp add: plain_msg_def quote_msg_def)
    from full_rejected [OF I this U(1)] su rej tt show ?thesis by simp
  qed
qed

lemma full_post_ask:
  assumes I: "demo_inv N limit d A" "\<not> dm_timed_out d \<longrightarrow> bound_inv limit d A S" and pc: "dm_pc d = PostAsk q" and N: "10 ^ 9 + N < 2 ^ 64"
  shows "full_inv N limit (post_ask q d)"
proof (cases "q_ask q = PRICE_INVALID")
  case True
  have "full_inv N limit (d\<lparr>dm_pc := Waiting AfterQuote, dm_timed_out := dm_timed_out d\<rparr>)"
    by (rule full_move [OF I]) (simp_all add: pc live_ids_def stage_ok_def)
  then show ?thesis by (simp add: post_ask_def True)
next
  case False
  have c: "mc_quote_qty (mm_cfg (dm_maker d)) = 100" using I(1) by (simp add: demo_inv_def demo_cfg_def)
  let ?m = "quote_msg (dm_next_mm_id d) Sell (q_ask q) 100"
  obtain ok e where su: "engine_submit (dm_engine d) ?m = (ok, e)" by force
  have td: "0 < todo d" by (simp add: todo_def pc)
  have co: "counts_ok N d" using I(1) by (simp add: demo_inv_def)
  note O = next_own [OF co N td] and U = own_unused [OF I(1) N td]
  let ?d = "d\<lparr>dm_engine := e, dm_submitted := dm_submitted d + 1, dm_maker := register_order (dm_maker d) (dm_next_mm_id d) Sell,
      dm_bid_id := dm_bid_id d, dm_ask_id := dm_next_mm_id d, dm_next_mm_id := dm_next_mm_id d + 1,
      dm_new_orders := dm_new_orders d + 1, dm_pc := Waiting AfterQuote\<rparr>"
  have tt: "post_ask q d = (if ok then ?d else d\<lparr>dm_engine := e\<rparr>)"
    using False by (simp add: post_ask_def c submit_retry_alt [OF su])
  show ?thesis
  proof (cases ok)
    case True
    then have su1: "engine_submit (dm_engine d) ?m = (True, e)" using su by simp
    have t: "pc_todo (Waiting AfterQuote) + 1 \<le> pc_todo (dm_pc d)"
      "insert (dm_next_mm_id d) (live_ids d) \<subseteq> pc_live (Waiting AfterQuote) (dm_bid_id d) (dm_next_mm_id d)"
      by (simp_all add: pc live_ids_def)
    have nc: "\<not> own X" if "pc_ok d a" "rests_at a (Sell \<noteq> Buy) p X" "if Sell = Buy then p \<le> q_ask q else q_ask q \<le> p" for a p X
    proof
      assume "own X"
      with that False have "p = q_bid q" "q_bid q < q_ask q" "q_ask q \<le> p" by (auto simp: pc_ok_def pc)
      then show False by simp
    qed
    have pk: "pc_ok ?d a'" for a' by (rule pc_ok_plain) simp_all
    note P = inv_post [OF I(1) N su1 refl t nc pk]
    have "bound_inv limit ?d A (S(Sell := insert (dm_next_mm_id d) (S Sell)))" if b: "bound_inv limit d A S"
    proof (rule bound_post [OF b O(1,2) P(2) U(2) _ _ refl])
      have "stage_ok limit d A S Sell" using b by (simp add: bound_inv_def)
      then show "\<forall>X\<in>S Sell. exposure 1 A (dm_engine d) X = 0" "side_pos Sell (dm_maker d) + 100 \<le> limit"
        using False by (auto simp: stage_ok_def pc side_price_def)
    qed (auto simp: stage_ok_def)
    then have b: "\<not> dm_timed_out d \<Longrightarrow> bound_inv limit ?d A (S(Sell := insert (dm_next_mm_id d) (S Sell)))" using I(2) by blast
    have "full_inv N limit ?d"
    proof (rule full_invI [OF P(1)])
      assume "\<not> dm_timed_out ?d"
      then show "bound_inv limit ?d A (S(Sell := insert (dm_next_mm_id d) (S Sell)))" by (intro b) simp
    qed
    then show ?thesis using tt True by simp
  next
    case rej: False
    have "plain_msg 1 ?m" using O(4) by (simp add: plain_msg_def quote_msg_def)
    from full_rejected [OF I this U(1)] su rej tt show ?thesis by simp
  qed
qed

section \<open>One turn\<close>

text \<open>Once the demo has finished only the final position is left of the invariant.\<close>

definition run_inv :: "nat \<Rightarrow> int \<Rightarrow> mm_demo \<Rightarrow> bool" where
  "run_inv N limit d \<longleftrightarrow> (if dm_pc d = Finished
     then \<not> dm_timed_out d \<longrightarrow> \<bar>ms_position (mm_stats_of (dm_maker d))\<bar> \<le> limit else full_inv N limit d)"

lemma bound_position:
  assumes "bound_inv limit d A S"
  shows "\<bar>ms_position (mm_stats_of (dm_maker d))\<bar> \<le> limit"
proof -
  have "side_pos sd (dm_maker d) \<le> limit" for sd
  proof -
    have "side_pos sd (dm_maker d) + int (\<Sum>X\<in>S sd. exposure 1 A (dm_engine d) X) \<le> limit" using assms by (simp add: bound_inv_def)
    moreover have "0 \<le> int (\<Sum>X\<in>S sd. exposure 1 A (dm_engine d) X)" by (rule of_nat_0_le_iff)
    ultimately show ?thesis by linarith
  qed
  from this [of Buy] this [of Sell] show ?thesis by (simp add: side_pos_def abs_le_iff)
qed

lemma run_position: "run_inv N limit d \<Longrightarrow> \<not> dm_timed_out d \<Longrightarrow> \<bar>ms_position (mm_stats_of (dm_maker d))\<bar> \<le> limit"
  using bound_position by (auto simp: run_inv_def full_inv_def split: if_splits)

lemma full_run: "full_inv N limit d \<Longrightarrow> run_inv N limit d"
  using bound_position by (auto simp: run_inv_def full_inv_def)

lemma stop_returns:
  assumes "full_inv N limit d"
  obtains d' where "stop_turn d = Some d'" "dm_pc d' = Finished" "dm_maker d' = dm_maker d" "dm_timed_out d' = dm_timed_out d"
proof -
  from assms obtain A where "engine_sync (dm_engine d) A" by (auto simp: full_inv_def demo_inv_def)
  then have R: "rings_ok (dm_engine d)" "books_good (books_of (dm_engine d)) A" "msgs_fresh A (inq (dm_engine d))"
    by (simp_all add: engine_sync_def)
  from dispatch_all_refines [OF R(2,3)] obtain B rs where "dispatch_all (books_of (dm_engine d)) (inq (dm_engine d)) = Some (B, rs)" by blast
  from engine_drain_returns [OF R(1) this] obtain e where "engine_drain (dm_engine d) = Some e" by blast
  then show ?thesis by (intro that [of "d\<lparr>dm_engine := e, dm_pc := Finished\<rparr>"]) (simp_all add: stop_turn_def)
qed

lemma program_step_inv:
  assumes f: "full_inv N limit d" and N: "10 ^ 9 + N < 2 ^ 64" and nf: "dm_pc d \<noteq> Finished"
  shows "\<exists>d'. program_turn skew x d = Some d' \<and> run_inv N limit d'"
proof -
  from f obtain A S where I: "demo_inv N limit d A" "\<not> dm_timed_out d \<longrightarrow> bound_inv limit d A S" by (auto simp: full_inv_def)
  have N1: "N < 2 ^ 64" using N by simp
  have ok: ?thesis if "program_turn skew x d = Some d'" "full_inv N limit d'" for d'
    using that full_run by blast
  have drain: "\<exists>d'. drain_poll pc' d = Some d' \<and> run_inv N limit d'"
    if "\<not> pc_posts (dm_pc d)" "\<not> pc_posts pc'" "pc_todo pc' \<le> pc_todo (dm_pc d)" "live_ids d \<subseteq> pc_live pc' (dm_bid_id d) (dm_ask_id d)"
      "pc' \<noteq> SubmitNoise 0" "dm_pc d \<noteq> SubmitNoise 0"
      "\<And>Q C R Q' C' R' sd. (Q \<longrightarrow> live_ids d = {} \<longrightarrow> C') \<Longrightarrow> pc_stage (dm_pc d) Q C R sd \<Longrightarrow> pc_stage pc' Q' C' R' sd" for pc'
    by (rule full_drain [OF I that]) (simp_all add: full_run)
  show ?thesis
  proof (cases "dm_pc d")
    case LoopTest
    have "full_inv N limit (d\<lparr>dm_pc := if dm_noise d = [] then WithdrawBid else SubmitNoise 0, dm_timed_out := dm_timed_out d\<rparr>)"
      by (rule full_move [OF I]) (simp_all add: LoopTest live_ids_def stage_ok_def)
    then show ?thesis by (intro ok [of "d\<lparr>dm_pc := if dm_noise d = [] then WithdrawBid else SubmitNoise 0\<rparr>"]) (simp_all add: program_turn_def LoopTest)
  next
    case (SubmitNoise b)
    show ?thesis by (rule ok [OF _ full_noise [OF I SubmitNoise]]) (simp add: program_turn_def SubmitNoise)
  next
    case CancelBid
    show ?thesis
      by (rule ok [OF _ full_cancel [OF I]]) (auto simp: program_turn_def CancelBid live_ids_def)
  next
    case CancelAsk
    show ?thesis
      by (rule ok [OF _ full_cancel [OF I]]) (auto simp: program_turn_def CancelAsk live_ids_def)
  next
    case MakeQuote
    show ?thesis by (rule ok [OF _ full_quote [OF I MakeQuote]]) (simp add: program_turn_def MakeQuote)
  next
    case (PostBid q)
    show ?thesis by (rule ok [OF _ full_post_bid [OF I PostBid N]]) (simp add: program_turn_def PostBid)
  next
    case (PostAsk q)
    show ?thesis by (rule ok [OF _ full_post_ask [OF I PostAsk N]]) (simp add: program_turn_def PostAsk)
  next
    case WithdrawBid
    show ?thesis
      by (rule ok [OF _ full_cancel [OF I]]) (auto simp: program_turn_def WithdrawBid live_ids_def)
  next
    case WithdrawAsk
    show ?thesis
      by (rule ok [OF _ full_cancel [OF I]]) (auto simp: program_turn_def WithdrawAsk live_ids_def)
  next
    case (Waiting w)
    show ?thesis by (rule ok [OF _ full_wait_head [OF I Waiting]]) (simp add: program_turn_def Waiting)
  next
    case (Draining w)
    show ?thesis unfolding program_turn_def Draining demo_pc.case
      by (rule drain) (auto simp: Draining live_ids_def)
  next
    case (Checking w)
    show ?thesis by (rule ok [OF _ full_wait_check [OF I Checking N1]]) (simp add: program_turn_def Checking)
  next
    case Tail
    have "full_inv N limit (d\<lparr>dm_pc := if x then LastDrain else TailDrain, dm_timed_out := dm_timed_out d\<rparr>)"
      by (rule full_move [OF I]) (simp_all add: Tail live_ids_def stage_ok_def)
    then show ?thesis by (intro ok [of "d\<lparr>dm_pc := if x then LastDrain else TailDrain\<rparr>"]) (simp_all add: program_turn_def Tail)
  next
    case TailDrain
    show ?thesis unfolding program_turn_def TailDrain demo_pc.case
      by (rule drain) (auto simp: TailDrain live_ids_def)
  next
    case LastDrain
    show ?thesis unfolding program_turn_def LastDrain demo_pc.case
      by (rule drain) (auto simp: LastDrain live_ids_def)
  next
    case StopEngine
    have "\<bar>ms_position (mm_stats_of (dm_maker d))\<bar> \<le> limit" if "\<not> dm_timed_out d" using that I(2) bound_position by blast
    moreover obtain d' where "stop_turn d = Some d'" "dm_pc d' = Finished" "dm_maker d' = dm_maker d" "dm_timed_out d' = dm_timed_out d"
      by (rule stop_returns [OF f])
    ultimately show ?thesis by (simp add: program_turn_def StopEngine run_inv_def)
  qed (use nf in simp)
qed

lemma demo_step_inv:
  assumes f: "run_inv N limit d" and N: "10 ^ 9 + N < 2 ^ 64"
  shows "\<exists>d'. demo_step skew a d = Some d' \<and> run_inv N limit d'"
proof (cases "dm_pc d = Finished")
  case True
  then show ?thesis using f by (cases a) (simp_all add: engine_thread_turn_def program_turn_def)
next
  case False
  then have fu: "full_inv N limit d" using f by (simp add: run_inv_def)
  show ?thesis
  proof (cases a)
    case EngineTurn
    from fu obtain A where "engine_sync (dm_engine d) A" by (auto simp: full_inv_def demo_inv_def)
    from sync_step_returns [OF this] obtain e where e: "engine_step (dm_engine d) = Some e" by blast
    from full_engine [OF fu e] False e EngineTurn show ?thesis by (simp add: engine_thread_turn_def run_inv_def)
  next
    case (ProgramTurn x)
    then show ?thesis using program_step_inv [OF fu N False] by simp
  qed
qed

section \<open>The start\<close>

lemma demo_noise_ok:
  assumes "unat n < 10 ^ 9"
  shows "noise_ok (demo_noise n)" "length (demo_noise n) = unat n"
proof -
  let ?c = "\<lparr>sf_symbol = 1, sf_mid = demo_mid, sf_n_events = n, sf_seed = 1\<rparr>"
  have "plain_msg 1 m \<and> md_msg_type m = NewOrder \<and> \<not> own (md_order_id m)" if h: "m \<in> set (demo_noise n)" for m
  proof -
    obtain k where k: "k < unat n" "m = synthetic_msg ?c k" using h by (auto simp: demo_noise_def make_synthetic_stream_def)
    have u: "unat (1 + of_nat k :: u64) = 1 + k"
      using k(1) assms unat_add_no_wrap [of "1 :: u64" "of_nat k"] by (simp add: unsigned_of_nat take_bit_nat_eq_self)
    have "\<not> own (1 + of_nat k :: u64)" using k(1) assms by (simp add: own_def word_le_nat_alt u)
    moreover have "md_msg_type m = NewOrder \<and> md_order_id m \<noteq> 0 \<and> md_symbol m = 1"
      using distinct_ids_stream(2) [of ?c] h by (simp add: demo_noise_def)
    moreover have "md_order_type m = Limit" "md_order_id m = 1 + of_nat k" by (simp_all add: k(2) synthetic_msg_def Let_def)
    ultimately show ?thesis by (simp add: plain_msg_def)
  qed
  then show "noise_ok (demo_noise n)" using distinct_ids_stream(1) [of ?c] by (simp add: noise_ok_def demo_noise_def)
  show "length (demo_noise n) = unat n" by (simp add: demo_noise_def make_synthetic_stream_def)
qed

lemma demo_init_inv:
  assumes n: "unat n < 10 ^ 9" and l: "0 \<le> limit"
  shows "run_inv (5 * unat n + 2) limit (demo_init n limit)"
proof -
  let ?d = "demo_init n limit" let ?A = "start_abooks 1"
  have r: "dm_engine ?d = engine_init\<lparr>en_books := (\<lambda>_. None)(unat (1 :: symbol_id) := Some (book_init 1))\<rparr>"
    by (simp add: demo_init_def register_symbol_def kMaxSymbols_def) (simp add: engine_init_def)
  have b: "books_of (dm_engine ?d) = start_books 1" by (simp add: r books_of_def start_books_def) (simp add: engine_init_def)
  have q: "rings_ok (dm_engine ?d)" "inq (dm_engine ?d) = []" "outq (dm_engine ?d) = []" "en_stat_messages (dm_engine ?d) = 0"
    by (simp_all add: r) (simp add: engine_init_def)
  have sy: "engine_sync (dm_engine ?d) ?A" using q b start_books_good [of 1] by (simp add: engine_sync_def)
  have se: "fst (settled ?A (dm_engine ?d)) (unat (1 :: symbol_id)) = Some abook_init" "pending ?A (dm_engine ?d) = []"
    by (simp_all add: settled_def pending_def future_def q start_abooks_def)
  have co: "counts_ok (5 * unat n + 2) ?d"
    using q demo_noise_ok(2) [OF n] by (simp add: counts_ok_def todo_def demo_init_def)
  have "pc_ok ?d abook_init" by (rule pc_ok_plain) (simp_all add: demo_init_def)
  moreover have "view_ok (dm_next_mm_id ?d) (live_ids ?d) (dm_noise ?d) abook_init (pending ?A (dm_engine ?d))"
    by (simp add: view_ok_def se all_ids_def abook_init_def)
  ultimately have I: "demo_inv (5 * unat n + 2) limit ?d ?A"
    using sy se co demo_noise_ok(1) [OF n] by (simp add: demo_inv_def) (simp add: demo_init_def mm_init_def)
  have "bound_inv limit ?d ?A (\<lambda>_. {})"
    using l by (auto simp: bound_inv_def stage_ok_def side_pos_def demo_init_def mm_init_def mm_stats_zero_def)
  then have "full_inv (5 * unat n + 2) limit ?d" by (intro full_invI [OF I]) 
  then show ?thesis by (simp add: run_inv_def demo_init_def)
qed

lemma reach_inv:
  assumes "demo_reach skew n limit d" "unat n < 10 ^ 9" "0 \<le> limit"
  shows "run_inv (5 * unat n + 2) limit d"
  using assms(1)
proof induction
  case demo_start
  show ?case by (rule demo_init_inv [OF assms(2,3)])
next
  case (demo_turns d a d')
  have "10 ^ 9 + (5 * unat n + 2) < (2 :: nat) ^ 64" using assms(2) by simp
  from demo_step_inv [OF demo_turns.IH this, of skew a] demo_turns.hyps(2) show ?case by simp
qed

end
