(* ===== verification/Mm_Demo_Live.thy ===== *)
theory Mm_Demo_Live
  imports Mm_Demo_Bound
begin

text \<open>
  The demo can always be finished: from every state of a run there are further turns, the engine's
  among them, after which the program has returned, without another wait timing out.
\<close>

fun demo_run :: "(int \<Rightarrow> price) \<Rightarrow> demo_turn list \<Rightarrow> mm_demo \<Rightarrow> mm_demo option" where
  "demo_run skew [] d = Some d"
| "demo_run skew (a # as) d = Option.bind (demo_step skew a d) (demo_run skew as)"

lemma demo_run_append: "demo_run skew (as @ bs) d = Option.bind (demo_run skew as d) (demo_run skew bs)"
proof (induction as arbitrary: d)
  case (Cons a as)
  then show ?case by (cases "demo_step skew a d") simp_all
qed simp

text \<open>\<open>goes\<close>: some turns lead from one good state to another, with no new timeout.\<close>

definition goes :: "(int \<Rightarrow> price) \<Rightarrow> nat \<Rightarrow> int \<Rightarrow> mm_demo \<Rightarrow> mm_demo \<Rightarrow> bool" where
  "goes skew N limit d d' \<longleftrightarrow> (\<exists>as. demo_run skew as d = Some d') \<and> run_inv N limit d' \<and> dm_timed_out d' = dm_timed_out d"

lemma goes_refl: "run_inv N limit d \<Longrightarrow> goes skew N limit d d"
  unfolding goes_def by (metis demo_run.simps(1))

lemma goes_trans: "goes skew N limit d d1 \<Longrightarrow> goes skew N limit d1 d2 \<Longrightarrow> goes skew N limit d d2"
  unfolding goes_def by (metis demo_run_append Option.bind.bind_lunit)

lemma goes_step:
  assumes "run_inv N limit d" "10 ^ 9 + N < 2 ^ 64" "demo_step skew a d = Some d'" "dm_timed_out d' = dm_timed_out d"
  shows "goes skew N limit d d'"
proof -
  have "demo_run skew [a] d = Some d'" using assms(3) by simp
  moreover have "run_inv N limit d'" using demo_step_inv [OF assms(1,2), of skew a] assms(3) by simp
  ultimately show ?thesis using assms(4) unfolding goes_def by blast
qed

text \<open>The engine catches up.\<close>

lemma goes_caught_up:
  assumes N: "10 ^ 9 + N < 2 ^ 64"
  shows "full_inv N limit d \<Longrightarrow> dm_pc d \<noteq> Finished \<Longrightarrow>
    \<exists>e. goes skew N limit d (d\<lparr>dm_engine := e\<rparr>) \<and> inq e = [] \<and> full_inv N limit (d\<lparr>dm_engine := e\<rparr>)"
proof (induction "length (inq (dm_engine d))" arbitrary: d rule: less_induct)
  case less
  show ?case
  proof (cases "inq (dm_engine d)")
    case Nil
    then show ?thesis using less.prems goes_refl [of N limit d skew] by (intro exI [of _ "dm_engine d"]) (simp add: full_run)
  next
    case (Cons m ms)
    from less.prems(1) obtain A where sy: "engine_sync (dm_engine d) A" by (auto simp: full_inv_def demo_inv_def)
    from sync_step_returns [OF sy] obtain e where e: "engine_step (dm_engine d) = Some e" by blast
    have l: "inq e = ms"
      by (rule sync_step [OF sy e]) (use Cons in auto)
    let ?d = "d\<lparr>dm_engine := e\<rparr>"
    have f: "full_inv N limit ?d" by (rule full_engine [OF less.prems(1) e])
    have g: "goes skew N limit d ?d"
      by (rule goes_step [OF full_run [OF less.prems(1)] N, of _ EngineTurn]) (use e less.prems(2) in \<open>simp_all add: engine_thread_turn_def\<close>)
    have "length (inq (dm_engine ?d)) < length (inq (dm_engine d))" using l Cons by simp
    from less.hyps [OF this f] less.prems(2) obtain e' where
      "goes skew N limit ?d (?d\<lparr>dm_engine := e'\<rparr>)" "inq e' = []" "full_inv N limit (?d\<lparr>dm_engine := e'\<rparr>)" by auto
    then show ?thesis using goes_trans [OF g] by auto
  qed
qed

text \<open>\<^verbatim>\<open>drain_reports\<close> ends.\<close>

fun drain_target :: "demo_pc \<Rightarrow> demo_pc option" where
  "drain_target (Draining w) = Some (Checking w)" | "drain_target TailDrain = Some Tail"
| "drain_target LastDrain = Some StopEngine" | "drain_target _ = None"

lemma goes_drained:
  assumes N: "10 ^ 9 + N < 2 ^ 64"
  shows "full_inv N limit d \<Longrightarrow> drain_target (dm_pc d) = Some pc' \<Longrightarrow>
    \<exists>d'. goes skew N limit d d' \<and> dm_pc d' = pc' \<and> inq (dm_engine d') = inq (dm_engine d) \<and> dm_noise d' = dm_noise d \<and> full_inv N limit d'"
proof (induction "length (outq (dm_engine d))" arbitrary: d rule: less_induct)
  case less
  from less.prems(1) obtain A S where I: "demo_inv N limit d A" "\<not> dm_timed_out d \<longrightarrow> bound_inv limit d A S" by (auto simp: full_inv_def)
  have pt: "program_turn skew False d = drain_poll pc' d" using less.prems(2) by (cases "dm_pc d") (auto simp: program_turn_def)
  have pcs: "\<not> pc_posts (dm_pc d)" "\<not> pc_posts pc'" "pc_todo pc' \<le> pc_todo (dm_pc d)" "live_ids d \<subseteq> pc_live pc' (dm_bid_id d) (dm_ask_id d)"
    "pc' \<noteq> SubmitNoise 0" "dm_pc d \<noteq> SubmitNoise 0"
    using less.prems(2) by (cases "dm_pc d"; auto simp: live_ids_def)+
  have st: "pc_stage pc' Q' C' R' sd" if "Q \<longrightarrow> live_ids d = {} \<longrightarrow> C'" "pc_stage (dm_pc d) Q C R sd" for Q C R Q' C' R' sd
    using less.prems(2) that by (cases "dm_pc d") (auto simp: live_ids_def)
  obtain d1 where d1: "drain_poll pc' d = Some d1" "full_inv N limit d1"
    "dm_pc d1 = (if outq (dm_engine d) = [] then pc' else dm_pc d)" "outq (dm_engine d1) = tl (outq (dm_engine d))"
    "inq (dm_engine d1) = inq (dm_engine d)" "dm_timed_out d1 = dm_timed_out d" "dm_noise d1 = dm_noise d"
    by (rule full_drain [OF I pcs st])
  have g: "goes skew N limit d d1"
    by (rule goes_step [OF full_run [OF less.prems(1)] N, of _ "ProgramTurn False"]) (use pt d1 in simp_all)
  show ?case
  proof (cases "outq (dm_engine d) = []")
    case True
    then show ?thesis using g d1 by auto
  next
    case False
    then have "length (outq (dm_engine d1)) < length (outq (dm_engine d))" using d1(4) by (cases "outq (dm_engine d)") auto
    from less.hyps [OF this d1(2)] less.prems(2) d1(3) False obtain d' where
      "goes skew N limit d1 d'" "dm_pc d' = pc'" "inq (dm_engine d') = inq (dm_engine d1)" "dm_noise d' = dm_noise d1" "full_inv N limit d'" by auto
    then show ?thesis using goes_trans [OF g] d1(5,7) by auto
  qed
qed

text \<open>A wait returns once the engine has caught up.\<close>

fun wait_of :: "demo_pc \<Rightarrow> wait_point option" where
  "wait_of (Waiting w) = Some w" | "wait_of (Draining w) = Some w" | "wait_of (Checking w) = Some w" | "wait_of _ = None"

lemma goes_checked:
  assumes N: "10 ^ 9 + N < 2 ^ 64" and f: "full_inv N limit d" and pc: "dm_pc d = Checking w" and q: "inq (dm_engine d) = []"
  shows "\<exists>d'. goes skew N limit d d' \<and> dm_pc d' = wait_return w \<and> dm_noise d' = dm_noise d"
proof -
  have "dm_submitted d = en_stat_messages (dm_engine d)" using f q by (auto simp: full_inv_def demo_inv_def counts_ok_def)
  then have t: "demo_step skew (ProgramTurn False) d = Some (d\<lparr>dm_pc := wait_return w\<rparr>)"
    by (simp add: program_turn_def pc wait_check_def)
  from goes_step [OF full_run [OF f] N t] show ?thesis by (intro exI [of _ "d\<lparr>dm_pc := wait_return w\<rparr>"]) simp
qed

lemma goes_drained_wait:
  assumes N: "10 ^ 9 + N < 2 ^ 64" and f: "full_inv N limit d" and pc: "dm_pc d = Draining w" and q: "inq (dm_engine d) = []"
  shows "\<exists>d'. goes skew N limit d d' \<and> dm_pc d' = wait_return w \<and> dm_noise d' = dm_noise d"
proof -
  from goes_drained [OF N f, of "Checking w"] pc q obtain d1 where
    d1: "goes skew N limit d d1" "dm_pc d1 = Checking w" "inq (dm_engine d1) = []" "dm_noise d1 = dm_noise d" "full_inv N limit d1" by auto
  from goes_checked [OF N d1(5,2,3)] d1(4) goes_trans [OF d1(1)] show ?thesis by metis
qed

lemma goes_waited:
  assumes N: "10 ^ 9 + N < 2 ^ 64" and f: "full_inv N limit d" and pc: "wait_of (dm_pc d) = Some w"
  shows "\<exists>d'. goes skew N limit d d' \<and> dm_pc d' = wait_return w \<and> dm_noise d' = dm_noise d"
proof -
  have "dm_pc d \<noteq> Finished" using pc by auto
  from goes_caught_up [OF N f this] obtain e where e: "goes skew N limit d (d\<lparr>dm_engine := e\<rparr>)" "inq e = []" "full_inv N limit (d\<lparr>dm_engine := e\<rparr>)" by blast
  let ?d = "d\<lparr>dm_engine := e\<rparr>"
  have "\<exists>d'. goes skew N limit ?d d' \<and> dm_pc d' = wait_return w \<and> dm_noise d' = dm_noise ?d"
  proof (cases "dm_pc d")
    case (Waiting v)
    let ?d1 = "?d\<lparr>dm_pc := Draining w\<rparr>"
    have t: "demo_step skew (ProgramTurn False) ?d = Some ?d1" using pc Waiting by (simp add: program_turn_def wait_head_def)
    have g: "goes skew N limit ?d ?d1" by (rule goes_step [OF full_run [OF e(3)] N t]) simp
    then have "full_inv N limit ?d1" by (simp add: goes_def run_inv_def)
    from goes_drained_wait [OF N this, of w skew] e(2) obtain d' where
      "goes skew N limit ?d1 d'" "dm_pc d' = wait_return w" "dm_noise d' = dm_noise d" by auto
    then show ?thesis using goes_trans [OF g] by auto
  next
    case (Draining v)
    then show ?thesis using goes_drained_wait [OF N e(3)] pc e(2) by auto
  next
    case (Checking v)
    then show ?thesis using goes_checked [OF N e(3)] pc e(2) by auto
  qed (use pc in simp_all)
  then show ?thesis using goes_trans [OF e(1)] by auto
qed

section \<open>Progress\<close>

fun wait_rank :: "wait_point \<Rightarrow> nat" where
  "wait_rank AfterNoise = 16" | "wait_rank AfterCancel = 13" | "wait_rank AfterQuote = 9" | "wait_rank AfterWithdraw = 5"

fun pc_rank :: "demo_pc \<Rightarrow> nat" where
  "pc_rank (SubmitNoise b) = (if b = 0 then 7 else 17)" | "pc_rank CancelBid = 15" | "pc_rank CancelAsk = 14"
| "pc_rank MakeQuote = 12" | "pc_rank (PostBid q) = 11" | "pc_rank (PostAsk q) = 10" | "pc_rank LoopTest = 8"
| "pc_rank WithdrawBid = 7" | "pc_rank WithdrawAsk = 6" | "pc_rank (Waiting w) = wait_rank w" | "pc_rank (Draining w) = wait_rank w"
| "pc_rank (Checking w) = wait_rank w" | "pc_rank TailDrain = 4" | "pc_rank Tail = 3" | "pc_rank LastDrain = 2"
| "pc_rank StopEngine = 1" | "pc_rank Finished = 0"

definition rank :: "mm_demo \<Rightarrow> nat" where
  "rank d = 20 * length (dm_noise d) + pc_rank (dm_pc d)"

lemma submit_room:
  assumes "engine_sync e A" "inq e = []"
  shows "\<exists>e'. engine_submit e m = (True, e')"
proof -
  obtain ok e' where s: "engine_submit e m = (ok, e')" by force
  have "rings_ok e" using assms(1) by (simp add: engine_sync_def)
  from submit_ring(2) [OF this s] have "ok" using assms(2) by (simp add: queue_room_def kQueueDepth_def)
  with s show ?thesis by simp
qed

text \<open>With its ring empty, the engine takes what the program submits.\<close>

lemma retry_succeeds:
  assumes "full_inv N limit d" "inq (dm_engine d) = []"
  shows "\<exists>e. submit_retry m k d = k (d\<lparr>dm_engine := e, dm_submitted := dm_submitted d + 1\<rparr>)"
proof -
  from assms(1) obtain A where "engine_sync (dm_engine d) A" by (auto simp: full_inv_def demo_inv_def)
  from submit_room [OF this assms(2)] obtain e where "engine_submit (dm_engine d) m = (True, e)" by blast
  from submit_retry_alt [OF this] show ?thesis by auto
qed

text \<open>Program points passed in one turn, once the engine has caught up.\<close>

lemma cancel_succeeds:
  assumes "full_inv N limit d" "inq (dm_engine d) = []"
  shows "dm_pc (cancel_turn oid c pc' d) = pc'" "dm_noise (cancel_turn oid c pc' d) = dm_noise d"
    "dm_timed_out (cancel_turn oid c pc' d) = dm_timed_out d"
proof -
  from retry_succeeds [OF assms, of "cancel_msg oid" "\<lambda>d1. d1\<lparr>dm_pc := pc', dm_cancel_attempts :=
    (if c then dm_cancel_attempts d1 + 1 else dm_cancel_attempts d1)\<rparr>"] obtain e where
    e: "submit_retry (cancel_msg oid) (\<lambda>d1. d1\<lparr>dm_pc := pc', dm_cancel_attempts :=
    (if c then dm_cancel_attempts d1 + 1 else dm_cancel_attempts d1)\<rparr>) d =
    (\<lambda>d1. d1\<lparr>dm_pc := pc', dm_cancel_attempts := (if c then dm_cancel_attempts d1 + 1 else dm_cancel_attempts d1)\<rparr>)
      (d\<lparr>dm_engine := e, dm_submitted := dm_submitted d + 1\<rparr>)" by blast
  show "dm_pc (cancel_turn oid c pc' d) = pc'" "dm_noise (cancel_turn oid c pc' d) = dm_noise d"
    "dm_timed_out (cancel_turn oid c pc' d) = dm_timed_out d"
    unfolding cancel_turn_def e by simp_all
qed

lemma post_succeeds:
  assumes "full_inv N limit d" "inq (dm_engine d) = []"
  shows "dm_pc (post_bid q d) = PostAsk q \<and> dm_noise (post_bid q d) = dm_noise d \<and> dm_timed_out (post_bid q d) = dm_timed_out d"
    "dm_pc (post_ask q d) = Waiting AfterQuote \<and> dm_noise (post_ask q d) = dm_noise d \<and> dm_timed_out (post_ask q d) = dm_timed_out d"
proof -
  have r: "\<exists>e. submit_retry m k d = k (d\<lparr>dm_engine := e, dm_submitted := dm_submitted d + 1\<rparr>)" for m k
    by (rule retry_succeeds [OF assms])
  have P: "dm_pc (submit_retry m k d) = pc' \<and> dm_noise (submit_retry m k d) = dm_noise d \<and> dm_timed_out (submit_retry m k d) = dm_timed_out d"
    if k: "\<And>d1. dm_pc (k d1) = pc' \<and> dm_noise (k d1) = dm_noise d1 \<and> dm_timed_out (k d1) = dm_timed_out d1" for m k pc'
  proof -
    obtain e where "submit_retry m k d = k (d\<lparr>dm_engine := e, dm_submitted := dm_submitted d + 1\<rparr>)" using r by blast
    then show ?thesis using k by simp
  qed
  show "dm_pc (post_bid q d) = PostAsk q \<and> dm_noise (post_bid q d) = dm_noise d \<and> dm_timed_out (post_bid q d) = dm_timed_out d"
  proof (cases "q_bid q = PRICE_INVALID")
    case False
    show ?thesis unfolding post_bid_def if_not_P [OF False] by (rule P) simp
  qed (simp add: post_bid_def)
  show "dm_pc (post_ask q d) = Waiting AfterQuote \<and> dm_noise (post_ask q d) = dm_noise d \<and> dm_timed_out (post_ask q d) = dm_timed_out d"
  proof (cases "q_ask q = PRICE_INVALID")
    case False
    show ?thesis unfolding post_ask_def if_not_P [OF False] by (rule P) simp
  qed (simp add: post_ask_def)
qed

lemma noise_succeeds:
  assumes "full_inv N limit d" "inq (dm_engine d) = []" "dm_pc d = SubmitNoise b"
  shows "rank (noise_turn b d) < rank d \<and> dm_timed_out (noise_turn b d) = dm_timed_out d"
proof (cases "dm_noise d = [] \<or> \<not> b < kRequoteEvery")
  case True
  then have "noise_turn b d = d\<lparr>dm_pc := Waiting AfterNoise\<rparr>" by (cases "dm_noise d") (auto simp: noise_turn_def)
  moreover have "b \<noteq> 0" using True assms(1,3) by (auto simp: full_inv_def demo_inv_def pc_ok_def kRequoteEvery_def)
  ultimately show ?thesis using assms(3) by (simp add: rank_def)
next
  case False
  then obtain m ms where ms: "dm_noise d = m # ms" "b < kRequoteEvery" by (cases "dm_noise d") auto
  from retry_succeeds [OF assms(1,2), of m "\<lambda>d1. d1\<lparr>dm_noise := ms, dm_pc := SubmitNoise (Suc b)\<rparr>"] obtain e where
    "submit_retry m (\<lambda>d1. d1\<lparr>dm_noise := ms, dm_pc := SubmitNoise (Suc b)\<rparr>) d =
      (\<lambda>d1. d1\<lparr>dm_noise := ms, dm_pc := SubmitNoise (Suc b)\<rparr>) (d\<lparr>dm_engine := e, dm_submitted := dm_submitted d + 1\<rparr>)" by blast
  then show ?thesis using ms assms(3) by (simp add: noise_turn_def rank_def)
qed

text \<open>From the program's next turn, if it needs no more than an empty ring.\<close>

definition one_turn :: "(int \<Rightarrow> price) \<Rightarrow> mm_demo \<Rightarrow> bool" where
  "one_turn skew d \<longleftrightarrow> (\<exists>d'. program_turn skew True d = Some d' \<and> rank d' < rank d \<and> dm_timed_out d' = dm_timed_out d)"

lemma one_turn_moves:
  assumes f: "full_inv N limit d" and q: "inq (dm_engine d) = []" and pc: "drain_target (dm_pc d) = None" "wait_of (dm_pc d) = None" "dm_pc d \<noteq> Finished"
  shows "one_turn skew d"
proof (cases "dm_pc d")
  case (SubmitNoise b)
  then show ?thesis using noise_succeeds [OF f q SubmitNoise] by (simp add: one_turn_def program_turn_def)
next
  case (PostBid q1)
  then show ?thesis using post_succeeds(1) [OF f q, of q1] by (simp add: one_turn_def program_turn_def rank_def)
next
  case (PostAsk q1)
  then show ?thesis using post_succeeds(2) [OF f q, of q1] by (simp add: one_turn_def program_turn_def rank_def)
next
  case MakeQuote
  obtain q1 mm where "compute_quote skew (dm_maker d) (dm_last_trade d) = (q1, mm)" by force
  then show ?thesis by (simp add: one_turn_def program_turn_def MakeQuote quote_turn_def rank_def)
next
  case StopEngine
  obtain d' where d': "stop_turn d = Some d'" "dm_pc d' = Finished" "dm_timed_out d' = dm_timed_out d"
    by (rule stop_returns [OF f])
  have "dm_noise d' = dm_noise d" using d'(1) by (auto simp: stop_turn_def)
  then show ?thesis using d' by (simp add: one_turn_def program_turn_def StopEngine rank_def)
qed (use pc cancel_succeeds [OF f q] in \<open>auto simp: one_turn_def program_turn_def rank_def\<close>)

lemma advance:
  assumes N: "10 ^ 9 + N < 2 ^ 64" and r: "run_inv N limit d" and nf: "dm_pc d \<noteq> Finished"
  shows "\<exists>d'. goes skew N limit d d' \<and> rank d' < rank d"
proof -
  have f: "full_inv N limit d" using r nf by (simp add: run_inv_def)
  show ?thesis
  proof (cases "wait_of (dm_pc d)")
    case (Some w)
    have rk: "pc_rank (dm_pc d) = wait_rank w" using Some by (cases "dm_pc d") auto
    have "pc_rank (wait_return w) < wait_rank w" by (cases w) simp_all
    with goes_waited [OF N f Some, of skew] rk show ?thesis by (auto simp: rank_def)
  next
    case None
    show ?thesis
    proof (cases "drain_target (dm_pc d)")
      case (Some pc')
      have "pc_rank pc' < pc_rank (dm_pc d)" using Some None by (cases "dm_pc d") auto
      with goes_drained [OF N f Some, of skew] show ?thesis by (auto simp: rank_def)
    next
      case none2: None
      from goes_caught_up [OF N f nf, of skew] obtain e where
        e: "goes skew N limit d (d\<lparr>dm_engine := e\<rparr>)" "inq e = []" "full_inv N limit (d\<lparr>dm_engine := e\<rparr>)" by blast
      have "one_turn skew (d\<lparr>dm_engine := e\<rparr>)" by (rule one_turn_moves [OF e(3)]) (use e(2) None none2 nf in simp_all)
      then obtain d' where d': "program_turn skew True (d\<lparr>dm_engine := e\<rparr>) = Some d'" "rank d' < rank (d\<lparr>dm_engine := e\<rparr>)"
        "dm_timed_out d' = dm_timed_out (d\<lparr>dm_engine := e\<rparr>)" by (auto simp: one_turn_def)
      have "goes skew N limit (d\<lparr>dm_engine := e\<rparr>) d'"
        by (rule goes_step [OF full_run [OF e(3)] N, of _ "ProgramTurn True"]) (use d' in simp_all)
      then show ?thesis using goes_trans [OF e(1)] d'(2) by (auto simp: rank_def)
    qed
  qed
qed

lemma finishes:
  assumes N: "10 ^ 9 + N < 2 ^ 64"
  shows "run_inv N limit d \<Longrightarrow> \<exists>d'. goes skew N limit d d' \<and> dm_pc d' = Finished"
proof (induction "rank d" arbitrary: d rule: less_induct)
  case less
  show ?case
  proof (cases "dm_pc d = Finished")
    case True
    then show ?thesis using goes_refl [OF less.prems] by blast
  next
    case False
    from advance [OF N less.prems this, of skew] obtain d1 where d1: "goes skew N limit d d1" "rank d1 < rank d" by blast
    have "run_inv N limit d1" using d1(1) by (simp add: goes_def)
    from less.hyps [OF d1(2) this] goes_trans [OF d1(1)] show ?thesis by blast
  qed
qed

end
