(* ===== verification/Demo_Spec.thy ===== *)
theory Demo_Spec
  imports Mm_Demo_Live Maker_Spec
begin

text \<open>The properties of the market maker demo.\<close>

section \<open>Runs with a trade\<close>

lemma run_reach: "demo_reach skew n limit d \<Longrightarrow> demo_run skew as d = Some d' \<Longrightarrow> demo_reach skew n limit d'"
proof (induction as arbitrary: d)
  case (Cons a as)
  then obtain d1 where d1: "demo_step skew a d = Some d1" "demo_run skew as d1 = Some d'" by (auto simp: bind_eq_Some_conv)
  from Cons.IH [OF demo_turns [OF Cons.prems(1) d1(1)] d1(2)] show ?case .
qed simp

text \<open>Some of the stream goes into the engine's ring before the engine does anything.\<close>

lemma submit_some:
  "dm_pc d = SubmitNoise b \<Longrightarrow> dm_noise d = ms @ rest \<Longrightarrow> b + length ms \<le> kRequoteEvery \<Longrightarrow> rings_ok (dm_engine d) \<Longrightarrow>
    length (inq (dm_engine d)) + length ms \<le> queue_room \<Longrightarrow>
    \<exists>as d'. demo_run skew as d = Some d' \<and> dm_pc d' = SubmitNoise (b + length ms) \<and> rings_ok (dm_engine d') \<and>
      inq (dm_engine d') = inq (dm_engine d) @ ms \<and> outq (dm_engine d') = outq (dm_engine d) \<and> books_of (dm_engine d') = books_of (dm_engine d)"
proof (induction ms arbitrary: d b)
  case Nil
  then show ?case by (intro exI [of _ "[]"] exI [of _ d]) simp
next
  case (Cons m ms)
  obtain ok e where su: "engine_submit (dm_engine d) m = (ok, e)" by force
  note S = submit_ring [OF Cons.prems(4) su]
  have ok: "ok" using S(2) Cons.prems(5) by simp
  let ?d = "d\<lparr>dm_engine := e, dm_submitted := dm_submitted d + 1, dm_noise := ms @ rest, dm_pc := SubmitNoise (Suc b)\<rparr>"
  have t: "demo_step skew (ProgramTurn False) d = Some ?d"
    using Cons.prems(1,2,3) ok by (simp add: program_turn_def noise_turn_def submit_retry_alt [OF su])
  have "\<exists>as d'. demo_run skew as ?d = Some d' \<and> dm_pc d' = SubmitNoise (Suc b + length ms) \<and> rings_ok (dm_engine d') \<and>
      inq (dm_engine d') = inq (dm_engine ?d) @ ms \<and> outq (dm_engine d') = outq (dm_engine ?d) \<and> books_of (dm_engine d') = books_of (dm_engine ?d)"
    by (rule Cons.IH) (use Cons.prems S ok in simp_all)
  then obtain as d' where r: "demo_run skew as ?d = Some d'" "dm_pc d' = SubmitNoise (Suc b + length ms)" "rings_ok (dm_engine d')"
      "inq (dm_engine d') = inq e @ ms" "outq (dm_engine d') = outq e" "books_of (dm_engine d') = books_of e" by auto
  have "demo_run skew (ProgramTurn False # as) d = Some d'" using t r(1) by simp
  moreover have "books_of e = books_of (dm_engine d)" using S(5,6) by (simp add: books_of_def)
  ultimately show ?case using r(2-6) S(3,4) ok by (intro exI [of _ "ProgramTurn False # as"] exI [of _ d']) simp
qed

text \<open>The engine then turns all of it into reports.\<close>

lemma engine_reports:
  "engine_sync (dm_engine d) A \<Longrightarrow> dm_pc d \<noteq> Finished \<Longrightarrow> length (pending A (dm_engine d)) \<le> queue_room \<Longrightarrow>
    \<exists>as d'. demo_run skew as d = Some d' \<and> dm_pc d' = dm_pc d \<and> inq (dm_engine d') = [] \<and> outq (dm_engine d') = pending A (dm_engine d)"
proof (induction "length (inq (dm_engine d))" arbitrary: d A)
  case 0
  then show ?case by (intro exI [of _ "[]"] exI [of _ d]) (simp add: pending_def future_def)
next
  case (Suc k)
  from sync_step_returns [OF Suc.prems(1)] obtain e where e: "engine_step (dm_engine d) = Some e" by blast
  obtain A' rs where S: "engine_sync e A'" "future A (dm_engine d) = rs @ future A' e"
    "outq e = outq (dm_engine d) @ take (queue_room - length (outq (dm_engine d))) rs" "k = length (inq e)"
    by (rule sync_step [OF Suc.prems(1) e]) (use Suc.hyps(2) in auto)
  have "length rs \<le> queue_room - length (outq (dm_engine d))" using Suc.prems(3) by (simp add: pending_def S(2))
  then have p: "pending A' e = pending A (dm_engine d)" by (simp add: pending_def S(2,3))
  let ?d = "d\<lparr>dm_engine := e\<rparr>"
  have t: "demo_step skew EngineTurn d = Some ?d" using e Suc.prems(2) by (simp add: engine_thread_turn_def)
  from Suc.hyps(1) [of ?d A'] S(1,4) Suc.prems(2,3) p obtain as d' where
    "demo_run skew as ?d = Some d'" "dm_pc d' = dm_pc d" "inq (dm_engine d') = []" "outq (dm_engine d') = pending A (dm_engine d)" by auto
  then show ?case using t by (intro exI [of _ "EngineTurn # as"] exI [of _ d']) simp
qed

text \<open>The first four orders of the stream trade once: the fourth, a sell at the mid, meets the third.\<close>

definition demo_trade :: exec_report where
  "demo_trade = \<lparr>er_order_id = 4, er_contra_order_id = 3, er_exec_price = demo_mid + 4000, er_exec_qty = 13, er_leaves_qty = 1,
     er_symbol = 1, er_side = Sell, er_exec_type = ExecPartialFill\<rparr>"

lemma demo_noise_4: "demo_noise 4 = map (synthetic_msg \<lparr>sf_symbol = 1, sf_mid = demo_mid, sf_n_events = 4, sf_seed = 1\<rparr>) [0, 1, 2, 3]"
proof -
  have "[0..<unat (4 :: u64)] = [0, 1, 2, 3]" by (simp add: upt_rec)
  then show ?thesis by (simp only: demo_noise_def make_synthetic_stream_def synthetic_feed_config.select_convs)
qed

lemma demo_noise_trades: "snd (adispatch_all (start_abooks 1) (demo_noise 4)) = [demo_trade]"
  by (simp add: demo_noise_4 synthetic_msg_def demo_trade_def adispatch_def msg_cmd_def next_id_def order_of_msg_def md_zero_def aadd_def Let_def
      start_abooks_def abook_init_def kMaxSymbols_def can_rest_def num_orders_def is_buy_def crosses_def kMaxLevels_def
      kMaxOrders_def report_def priced_def demo_mid_def better_def)

lemma some_trade_polled:
  "\<exists>d e. demo_reach (\<lambda>_. 0) 4 500 d \<and> dm_pc d \<noteq> Finished \<and> poll_report (dm_engine d) = (Some demo_trade, e)"
proof -
  let ?d0 = "demo_init 4 500" let ?d1 = "?d0\<lparr>dm_pc := SubmitNoise 0\<rparr>"
  have ns: "dm_noise ?d0 = demo_noise 4" "dm_pc ?d0 = LoopTest" "demo_noise 4 \<noteq> []" by (simp_all add: demo_init_def demo_noise_4)
  have r1: "demo_reach (\<lambda>_. 0) 4 500 ?d1"
    by (rule demo_turns [OF demo_start, where a = "ProgramTurn False"]) (simp add: program_turn_def ns)
  from demo_init_inv [of 4 500] have "full_inv 22 500 ?d0" by (simp add: run_inv_def ns(2))
  have e: "books_of (dm_engine ?d0) = start_books 1" "rings_ok (dm_engine ?d0)" "inq (dm_engine ?d0) = []" "outq (dm_engine ?d0) = []"
    by (simp_all add: demo_init_def register_symbol_def kMaxSymbols_def engine_init_def [symmetric])
      (simp_all add: books_of_def start_books_def engine_init_def)
  have "\<exists>as d'. demo_run (\<lambda>_. 0) as ?d1 = Some d' \<and> dm_pc d' = SubmitNoise (0 + length (demo_noise 4)) \<and> rings_ok (dm_engine d') \<and>
      inq (dm_engine d') = inq (dm_engine ?d1) @ demo_noise 4 \<and> outq (dm_engine d') = outq (dm_engine ?d1) \<and>
      books_of (dm_engine d') = books_of (dm_engine ?d1)"
    by (rule submit_some) (use e ns in \<open>simp_all add: demo_noise_4 kRequoteEvery_def queue_room_def kQueueDepth_def\<close>)
  then obtain as d2 where d2: "demo_run (\<lambda>_. 0) as ?d1 = Some d2" "dm_pc d2 = SubmitNoise 4" "rings_ok (dm_engine d2)"
    "inq (dm_engine d2) = demo_noise 4" "outq (dm_engine d2) = []" "books_of (dm_engine d2) = start_books 1"
    using e by (auto simp: demo_noise_4)
  have sy: "engine_sync (dm_engine d2) (start_abooks 1)"
    using d2(3,4,6) start_books_good synthetic_fresh by (simp add: engine_sync_def demo_noise_def)
  have pn: "pending (start_abooks 1) (dm_engine d2) = [demo_trade]"
    using demo_noise_trades by (simp add: pending_def future_def d2(4,5))
  have q: "length (pending (start_abooks 1) (dm_engine d2)) \<le> queue_room" by (simp add: pn queue_room_def kQueueDepth_def)
  have "dm_pc d2 \<noteq> Finished" using d2(2) by simp
  from engine_reports [OF sy this q] obtain bs d3 where
    d3: "demo_run (\<lambda>_. 0) bs d2 = Some d3" "dm_pc d3 = dm_pc d2" "outq (dm_engine d3) = [demo_trade]" unfolding pn by blast
  have r3: "demo_reach (\<lambda>_. 0) 4 500 d3" by (rule run_reach [OF run_reach [OF r1 d2(1)] d3(1)])
  have "full_inv 22 500 d3" using reach_inv [OF r3] d2(2) d3(2) by (simp add: run_inv_def)
  then have "rings_ok (dm_engine d3)" by (auto simp: full_inv_def demo_inv_def engine_sync_def)
  moreover obtain r e where po: "poll_report (dm_engine d3) = (r, e)" by force
  ultimately have "r = Some demo_trade" using poll_ring(2) d3(3) by fastforce
  then show ?thesis using r3 po d2(2) d3(2) by auto
qed

section \<open>The position\<close>

text \<open>
  C38. The position stays within the limit. In every state of every run of the market maker demo,
  whatever the turns of the two threads, the price shifts and the fills, the booked position is at most
  the limit on either side, provided no wait for the engine has timed out. (The limit is only checked
  when a quote is computed; that the old quote is withdrawn and its fills booked before is what the
  waits achieve.)
\<close>

theorem position_stays_within_limit:
  assumes "demo_reach skew n limit d" "unat n < 10 ^ 9" "0 \<le> limit" "\<not> dm_timed_out d"
  shows "\<bar>ms_position (mm_stats_of (dm_maker d))\<bar> \<le> limit"
  using run_position [OF reach_inv [OF assms(1-3)] assms(4)] .

theorem position_stays_within_limit_witness:
  "\<exists>d. demo_reach (\<lambda>_. 0) 100 500 d \<and> dm_pc d = Finished \<and> \<not> dm_timed_out d \<and> \<bar>ms_position (mm_stats_of (dm_maker d))\<bar> \<le> 500"
proof -
  have "run_inv 502 500 (demo_init 100 500)" using demo_init_inv [of 100 500] by simp
  from finishes [OF _ this, of "\<lambda>_. 0"] obtain d as where
    d: "demo_run (\<lambda>_. 0) as (demo_init 100 500) = Some d" "dm_pc d = Finished" "dm_timed_out d = dm_timed_out (demo_init 100 500)"
    by (auto simp: goes_def)
  have "\<not> dm_timed_out d" using d(3) by (simp add: demo_init_def)
  with position_stays_within_limit [OF run_reach [OF demo_start d(1)]] run_reach [OF demo_start d(1)] d(2) show ?thesis by auto
qed

section \<open>Self-trades\<close>

text \<open>
  C39. The market maker never trades with itself. Every report the program can poll names at most one
  order of the market maker (those with ids from one billion): bid and ask of one quote do not reach each
  other, the orders of earlier quotes are gone before new ones arrive, and the stream uses other ids.
  This also holds when waits time out.
\<close>

theorem own_orders_never_meet:
  assumes "demo_reach skew n limit d" "unat n < 10 ^ 9" "0 \<le> limit" "dm_pc d \<noteq> Finished" "poll_report (dm_engine d) = (Some rpt, e)"
  shows "\<not> (own (er_order_id rpt) \<and> own (er_contra_order_id rpt)) \<and> er_exec_qty rpt \<noteq> 0"
proof -
  from reach_inv [OF assms(1-3)] assms(4) obtain A where "demo_inv (5 * unat n + 2) limit d A"
    by (auto simp: run_inv_def full_inv_def)
  from inv_poll(5) [OF this assms(5) refl] show ?thesis by (simp add: report_ok_def)
qed

theorem own_orders_never_meet_witness:
  "\<exists>d. demo_reach (\<lambda>_. 0) 4 500 d \<and> \<not> (own (er_order_id demo_trade) \<and> own (er_contra_order_id demo_trade))"
  using some_trade_polled own_orders_never_meet [of "\<lambda>_. 0" 4 500] by fastforce

section \<open>The demo ends\<close>

text \<open>
  C40. The demo never gets stuck. From every state of a run every turn returns, and there are further
  turns after which the program has finished without another timeout: every submit is accepted in the
  end, every wait can see the engine caught up, every drain ends and the engine stops.
\<close>

theorem demo_can_always_finish:
  assumes "demo_reach skew n limit d" "unat n < 10 ^ 9" "0 \<le> limit"
  shows "(\<forall>a. demo_step skew a d \<noteq> None) \<and>
    (\<exists>as d'. demo_run skew as d = Some d' \<and> dm_pc d' = Finished \<and> dm_timed_out d' = dm_timed_out d)"
proof -
  have N: "10 ^ 9 + (5 * unat n + 2) < (2 :: nat) ^ 64" using assms(2) by simp
  note R = reach_inv [OF assms]
  from demo_step_inv [OF R N] have "\<forall>a. demo_step skew a d \<noteq> None" by fastforce
  with finishes [OF N R, of skew] show ?thesis by (auto simp: goes_def)
qed

theorem demo_can_always_finish_witness:
  "\<exists>as d'. demo_run (\<lambda>p. p) as (demo_init 20000 500) = Some d' \<and> dm_pc d' = Finished \<and> \<not> dm_timed_out d'"
  using demo_can_always_finish [OF demo_start, of 20000 500 "\<lambda>p. p"] by (auto simp: demo_init_def)

end
