(* ===== verification/Gap_Buffer.thy ===== *)
theory Gap_Buffer
  imports Wire_Format Itch50
begin

text \<open>
  \<^verbatim>\<open>feed::GapBuffer\<close> of \<^verbatim>\<open>udp-multicast-receiver/include/feed/gap_buffer.hpp\<close>: sequencing of
  MoldUDP64 packets, buffering out of order, gap tracking, retransmission requests and the session's
  life. The callbacks are the list of the calls an operation makes; only whether a retransmission
  callback is set changes what the code does.
\<close>

section \<open>State\<close>

definition kMaxMessageBytes :: nat where "kMaxMessageBytes = 1500"
definition kCapacity :: nat where "kCapacity = 4096"

record gap_event =
  ge_first_missing_seq :: u64
  ge_last_missing_seq :: u64
  ge_detected_at_ns :: u64

record session_change_event =
  sc_old_session :: "u8 list"
  sc_new_session :: "u8 list"
  sc_new_first_seq :: u64

record end_of_session_event =
  ee_session :: "u8 list"
  ee_final_next_seq :: u64

datatype gb_call =
    OnMessage mold_message
  | OnGap gap_event
  | OnRetransmitRequest retransmit_request
  | OnSessionChange session_change_event
  | OnEndOfSession end_of_session_event

record buffered_message =
  bm_seq_num :: u64
  bm_recv_ns :: u64
  bm_length :: u16
  bm_occupied :: bool
  bm_data :: "u8 list"

record gb_config =
  gc_gap_timeout_ns :: u64
  gc_retry_interval_ns :: u64
  gc_max_retransmit_count :: u16
  gc_session :: "u8 list"
  gc_accept_session_change :: bool
  gc_expected_first_seq :: u64

definition gb_config_default :: gb_config where
  "gb_config_default = \<lparr>gc_gap_timeout_ns = 100000, gc_retry_interval_ns = 1000000, gc_max_retransmit_count = 100,
     gc_session = replicate 10 ch_space, gc_accept_session_change = False, gc_expected_first_seq = 0\<rparr>"

record gb_stats =
  gs_packets :: u64
  gs_messages :: u64
  gs_gaps :: u64
  gs_duplicates :: u64
  gs_delivered :: u64
  gs_retx :: u64
  gs_heartbeats :: u64
  gs_buffer_overflows :: u64
  gs_session_mismatches :: u64
  gs_session_changes :: u64
  gs_malformed :: u64

record gap_buffer =
  gb_cfg :: gb_config
  gb_session :: "u8 list"
  gb_session_synced :: bool
  gb_seq_synced :: bool
  gb_next_expected :: u64
  gb_high_water :: u64
  gb_in_gap :: bool
  gb_gap_detected_at_ns :: u64
  gb_gap_last_retx_ns :: u64
  gb_retx_requested_end :: u64
  gb_eos_seen :: bool
  gb_eos_seq :: u64
  gb_retx_set :: bool
  gb_slots :: "nat \<Rightarrow> buffered_message"
  gb_stats_of :: gb_stats

definition is_blank :: "u8 list \<Rightarrow> bool" where
  "is_blank s \<longleftrightarrow> (\<forall>i < 10. s ! i = ch_space)"

definition reset_sequence_state :: "gap_buffer \<Rightarrow> gap_buffer" where
  "reset_sequence_state g = g\<lparr>gb_seq_synced := gc_expected_first_seq (gb_cfg g) \<noteq> 0,
     gb_next_expected := gc_expected_first_seq (gb_cfg g), gb_high_water := gc_expected_first_seq (gb_cfg g),
     gb_in_gap := False, gb_gap_detected_at_ns := 0, gb_gap_last_retx_ns := 0, gb_retx_requested_end := 0,
     gb_eos_seen := False, gb_eos_seq := 0\<rparr>"

definition free_slot :: buffered_message where
  "free_slot = \<lparr>bm_seq_num = 0, bm_recv_ns = 0, bm_length = 0, bm_occupied = False, bm_data = replicate kMaxMessageBytes 0\<rparr>"

definition gb_stats_zero :: gb_stats where
  "gb_stats_zero = \<lparr>gs_packets = 0, gs_messages = 0, gs_gaps = 0, gs_duplicates = 0, gs_delivered = 0, gs_retx = 0,
     gs_heartbeats = 0, gs_buffer_overflows = 0, gs_session_mismatches = 0, gs_session_changes = 0, gs_malformed = 0\<rparr>"

text \<open>\<open>retx\<close>: a retransmission callback is set.\<close>

definition gap_buffer_init :: "gb_config \<Rightarrow> bool \<Rightarrow> gap_buffer" where
  "gap_buffer_init cfg retx = reset_sequence_state
     \<lparr>gb_cfg = cfg, gb_session = gc_session cfg, gb_session_synced = \<not> is_blank (gc_session cfg), gb_seq_synced = False,
      gb_next_expected = 0, gb_high_water = 0, gb_in_gap = False, gb_gap_detected_at_ns = 0, gb_gap_last_retx_ns = 0,
      gb_retx_requested_end = 0, gb_eos_seen = False, gb_eos_seq = 0, gb_retx_set = retx, gb_slots = (\<lambda>_. free_slot),
      gb_stats_of = gb_stats_zero\<rparr>"

definition release_all :: "gap_buffer \<Rightarrow> gap_buffer" where
  "release_all g = g\<lparr>gb_slots := (\<lambda>i. (gb_slots g i)\<lparr>bm_occupied := False\<rparr>)\<rparr>"

definition gb_reset :: "gap_buffer \<Rightarrow> gap_buffer" where
  "gb_reset g = reset_sequence_state ((release_all g)\<lparr>gb_session := gc_session (gb_cfg g),
     gb_session_synced := \<not> is_blank (gc_session (gb_cfg g))\<rparr>)"

definition session_complete :: "gap_buffer \<Rightarrow> bool" where
  "session_complete g \<longleftrightarrow> gb_eos_seen g \<and> \<not> gb_in_gap g \<and> gb_next_expected g \<ge> gb_eos_seq g"

section \<open>Session, high water, end of session\<close>

definition check_session :: "mold_header \<Rightarrow> gap_buffer \<Rightarrow> bool \<times> gb_call list \<times> gap_buffer" where
  "check_session h g =
    (if \<not> gb_session_synced g then (True, [], g\<lparr>gb_session := mh_session h, gb_session_synced := True\<rparr>)
     else if gb_session g = mh_session h then (True, [], g)
     else let st = gb_stats_of g in
       if \<not> gc_accept_session_change (gb_cfg g)
       then (False, [], g\<lparr>gb_stats_of := st\<lparr>gs_session_mismatches := gs_session_mismatches st + 1\<rparr>\<rparr>)
       else
         (let ev = \<lparr>sc_old_session = gb_session g, sc_new_session = mh_session h, sc_new_first_seq = mh_seq_num h\<rparr>;
              g1 = reset_sequence_state ((release_all g)\<lparr>gb_session := mh_session h\<rparr>)
          in (True, [OnSessionChange ev], g1\<lparr>gb_stats_of := st\<lparr>gs_session_changes := gs_session_changes st + 1\<rparr>\<rparr>)))"

definition on_end_of_session :: "mold_header \<Rightarrow> gap_buffer \<Rightarrow> gb_call list \<times> gap_buffer" where
  "on_end_of_session h g =
    (if gb_eos_seen g then ([], g)
     else ([OnEndOfSession \<lparr>ee_session = gb_session g, ee_final_next_seq = mh_seq_num h\<rparr>],
       g\<lparr>gb_eos_seen := True, gb_eos_seq := mh_seq_num h\<rparr>))"

definition note_high_water :: "u64 \<Rightarrow> gap_buffer \<Rightarrow> gap_buffer" where
  "note_high_water next_seq g = (if next_seq > gb_high_water g then g\<lparr>gb_high_water := next_seq\<rparr> else g)"

section \<open>Gaps\<close>

text \<open>\<open>slot_at g s\<close> is the slot of sequence number \<open>s\<close>, \<open>present g s\<close> that it holds it.\<close>

definition slot_of :: "u64 \<Rightarrow> nat" where
  "slot_of s = unat (s AND of_nat (kCapacity - 1))"

definition present :: "gap_buffer \<Rightarrow> u64 \<Rightarrow> bool" where
  "present g s \<longleftrightarrow> bm_occupied (gb_slots g (slot_of s)) \<and> bm_seq_num (gb_slots g (slot_of s)) = s"

definition handle_gap :: "u64 \<Rightarrow> u64 \<Rightarrow> gap_buffer \<Rightarrow> gb_call list \<times> gap_buffer" where
  "handle_gap first_known_after now_ns g =
    (if gb_in_gap g then ([], g)
     else (let st = gb_stats_of g in
       ([OnGap \<lparr>ge_first_missing_seq = gb_next_expected g, ge_last_missing_seq = first_known_after - 1, ge_detected_at_ns = now_ns\<rparr>],
        g\<lparr>gb_in_gap := True, gb_gap_detected_at_ns := now_ns, gb_gap_last_retx_ns := 0,
          gb_stats_of := st\<lparr>gs_gaps := gs_gaps st + 1\<rparr>\<rparr>)))"

text \<open>The loops over sequence numbers; the first argument is how many are left.\<close>

fun present_from :: "nat \<Rightarrow> u64 \<Rightarrow> gap_buffer \<Rightarrow> u64 option" where
  "present_from 0 s g = None"
| "present_from (Suc k) s g = (if present g s then Some s else present_from k (s + 1) g)"

definition first_present_after :: "gap_buffer \<Rightarrow> u64" where
  "first_present_after g =
    (let limit = min (gb_high_water g) (gb_next_expected g + of_nat kCapacity)
     in case present_from (unat limit - unat (gb_next_expected g)) (gb_next_expected g) g of
          Some s \<Rightarrow> s | None \<Rightarrow> gb_high_water g)"

fun missing_from :: "nat \<Rightarrow> u64 \<Rightarrow> gap_buffer \<Rightarrow> nat" where
  "missing_from 0 s g = 0"
| "missing_from (Suc k) s g = (if present g s then 0 else Suc (missing_from k (s + 1) g))"

definition missing_run :: "gap_buffer \<Rightarrow> u64" where
  "missing_run g = (let limit = min (gb_high_water g - gb_next_expected g) (ucast (gc_max_retransmit_count (gb_cfg g)))
     in of_nat (missing_from (unat limit) (gb_next_expected g) g))"

definition update_gap_state :: "u64 \<Rightarrow> gap_buffer \<Rightarrow> gb_call list \<times> gap_buffer" where
  "update_gap_state now_ns g =
    (if gb_next_expected g \<ge> gb_high_water g then ([], g\<lparr>gb_in_gap := False\<rparr>)
     else if \<not> gb_in_gap g then handle_gap (first_present_after g) now_ns g
     else if gb_gap_last_retx_ns g \<noteq> 0 \<and> gb_next_expected g \<ge> gb_retx_requested_end g
     then ([], g\<lparr>gb_gap_last_retx_ns := 0\<rparr>) else ([], g))"

definition check_gap_timeout :: "u64 \<Rightarrow> gap_buffer \<Rightarrow> gb_call list \<times> gap_buffer" where
  "check_gap_timeout now_ns g =
    (if \<not> gb_in_gap g then ([], g)
     else
       let first_request = gb_gap_last_retx_ns g = 0 \<and> now_ns - gb_gap_detected_at_ns g \<ge> gc_gap_timeout_ns (gb_cfg g);
           retry_request = gb_gap_last_retx_ns g \<noteq> 0 \<and> now_ns - gb_gap_last_retx_ns g \<ge> gc_retry_interval_ns (gb_cfg g)
       in if \<not> first_request \<and> \<not> retry_request then ([], g)
          else if \<not> gb_retx_set g then ([], g)
          else let missing = missing_run g; st = gb_stats_of g in
            if missing = 0 then ([], g\<lparr>gb_in_gap := gb_next_expected g < gb_high_water g\<rparr>)
            else ([OnRetransmitRequest \<lparr>rq_session = gb_session g, rq_first_seq = gb_next_expected g, rq_count = ucast missing\<rparr>],
              g\<lparr>gb_gap_last_retx_ns := now_ns, gb_retx_requested_end := gb_next_expected g + missing,
                gb_stats_of := st\<lparr>gs_retx := gs_retx st + 1\<rparr>\<rparr>))"

definition gb_tick :: "u64 \<Rightarrow> gap_buffer \<Rightarrow> gb_call list \<times> gap_buffer" where
  "gb_tick now_ns g = check_gap_timeout now_ns g"

section \<open>Delivery and buffering\<close>

definition deliver :: "u64 \<Rightarrow> u8 list \<Rightarrow> u16 \<Rightarrow> u64 \<Rightarrow> gap_buffer \<Rightarrow> gb_call list \<times> gap_buffer" where
  "deliver s body len recv_ns g =
    (let sl = gb_slots g (slot_of s);
         g1 = (if present g s then g\<lparr>gb_slots := (gb_slots g)(slot_of s := sl\<lparr>bm_occupied := False\<rparr>)\<rparr> else g);
         st = gb_stats_of g1
     in ([OnMessage \<lparr>mm_length = unat len, mm_body = body, mm_seq_num = s, mm_recv_ns = recv_ns\<rparr>],
         g1\<lparr>gb_stats_of := st\<lparr>gs_delivered := gs_delivered st + 1\<rparr>, gb_next_expected := s + 1\<rparr>))"

text \<open>\<^verbatim>\<open>memcpy\<close> overwrites the first bytes of the slot's array.\<close>

definition buffer_message :: "u64 \<Rightarrow> u8 list \<Rightarrow> u16 \<Rightarrow> u64 \<Rightarrow> gap_buffer \<Rightarrow> gap_buffer" where
  "buffer_message s body len recv_ns g =
    (let st = gb_stats_of g; sl = gb_slots g (slot_of s) in
     if s - gb_next_expected g \<ge> of_nat kCapacity \<or> unat len > kMaxMessageBytes
     then g\<lparr>gb_stats_of := st\<lparr>gs_buffer_overflows := gs_buffer_overflows st + 1\<rparr>\<rparr>
     else if present g s then g
     else g\<lparr>gb_slots := (gb_slots g)(slot_of s := \<lparr>bm_seq_num = s, bm_recv_ns = recv_ns, bm_length = len, bm_occupied = True,
       bm_data = take (unat len) body @ drop (unat len) (bm_data sl)\<rparr>)\<rparr>)"

definition occupied_slots :: "gap_buffer \<Rightarrow> nat set" where
  "occupied_slots g = {i. i < kCapacity \<and> bm_occupied (gb_slots g i)}"

lemma slot_of_less: "slot_of s < kCapacity"
proof -
  have "(s AND 4095) \<le> 4095" by (rule word_and_le1)
  then have "unat (s AND 4095) \<le> 4095" by (simp add: word_le_nat_alt)
  then show ?thesis by (simp add: slot_of_def kCapacity_def)
qed

function flush_buffer :: "gap_buffer \<Rightarrow> gb_call list \<times> gap_buffer" where
  "flush_buffer g =
    (let s = gb_next_expected g; sl = gb_slots g (slot_of s); st = gb_stats_of g in
     if \<not> present g s then ([], g)
     else
       let g1 = g\<lparr>gb_slots := (gb_slots g)(slot_of s := sl\<lparr>bm_occupied := False\<rparr>),
                  gb_stats_of := st\<lparr>gs_delivered := gs_delivered st + 1\<rparr>, gb_next_expected := s + 1\<rparr>;
           (calls, g2) = flush_buffer g1
       in (OnMessage \<lparr>mm_length = unat (bm_length sl), mm_body = bm_data sl, mm_seq_num = bm_seq_num sl, mm_recv_ns = bm_recv_ns sl\<rparr> # calls, g2))"
  by auto
termination
proof (relation "measure (\<lambda>g. card (occupied_slots g))")
  fix g :: gap_buffer and s sl st g1
  assume s: "s = gb_next_expected g" and sl: "sl = gb_slots g (slot_of s)" and p: "\<not> \<not> present g s"
    and g1: "g1 = g\<lparr>gb_slots := (gb_slots g)(slot_of s := sl\<lparr>bm_occupied := False\<rparr>),
      gb_stats_of := st\<lparr>gs_delivered := gs_delivered st + 1\<rparr>, gb_next_expected := s + 1\<rparr>"
  have "occupied_slots g1 = occupied_slots g - {slot_of s}" by (auto simp: occupied_slots_def g1)
  moreover have "slot_of s \<in> occupied_slots g" using p slot_of_less by (auto simp: occupied_slots_def present_def)
  moreover have "finite (occupied_slots g)" by (simp add: occupied_slots_def)
  ultimately show "(g1, g) \<in> measure (\<lambda>g. card (occupied_slots g))" by (simp only: in_measure card_Diff1_less)
qed simp

declare flush_buffer.simps [simp del]

text \<open>The rest of the packet, and how many messages its header still announces.\<close>

fun walk_packet :: "nat \<Rightarrow> u64 \<Rightarrow> u8 list \<Rightarrow> u64 \<Rightarrow> gap_buffer \<Rightarrow> gb_call list \<times> gap_buffer" where
  "walk_packet 0 s cursor recv_ns g = ([], g)"
| "walk_packet (Suc n) s cursor recv_ns g =
    (let st = gb_stats_of g; malformed = ([], g\<lparr>gb_stats_of := st\<lparr>gs_malformed := gs_malformed st + 1\<rparr>\<rparr>) in
     if length cursor < 2 then malformed
     else
       let msg_len = be16 cursor 0; cur = drop 2 cursor in
       if length cur < unat msg_len then malformed
       else
         let body = take (unat msg_len) cur; rest = drop (unat msg_len) cur;
             (calls, g1) =
               (if s < gb_next_expected g then ([], g)
                else if s = gb_next_expected g
                then (let (c1, ga) = deliver s body msg_len recv_ns g; (c2, gb) = flush_buffer ga in (c1 @ c2, gb))
                else ([], buffer_message s body msg_len recv_ns g));
             (calls', g2) = walk_packet n (s + 1) rest recv_ns g1
         in (calls @ calls', g2))"

section \<open>The entry point\<close>

text \<open>\<open>sync_first\<close>: the first packet of a session gives the position, unless its number is 0.\<close>

definition sync_first :: "mold_header \<Rightarrow> gap_buffer \<Rightarrow> gap_buffer" where
  "sync_first h g =
    (if \<not> gb_seq_synced g \<and> mh_seq_num h \<noteq> 0
     then g\<lparr>gb_next_expected := mh_seq_num h, gb_high_water := mh_seq_num h, gb_seq_synced := True\<rparr> else g)"

definition ingest_control :: "mold_header \<Rightarrow> u64 \<Rightarrow> gap_buffer \<Rightarrow> gb_call list \<times> gap_buffer" where
  "ingest_control h now_ns g =
    (let st = gb_stats_of g;
         g1 = (if is_heartbeat h then g\<lparr>gb_stats_of := st\<lparr>gs_heartbeats := gs_heartbeats st + 1\<rparr>\<rparr> else g);
         (c2, g2) = (if gb_seq_synced g1 then
             (let ga = note_high_water (mh_seq_num h) g1
              in if mh_seq_num h > gb_next_expected ga then handle_gap (mh_seq_num h) now_ns ga else ([], ga))
           else ([], g1));
         (c3, g3) = (if is_end_of_session h then on_end_of_session h g2 else ([], g2));
         (c4, g4) = check_gap_timeout now_ns g3
     in (c2 @ c3 @ c4, g4))"

definition ingest_data :: "mold_header \<Rightarrow> u8 list \<Rightarrow> u64 \<Rightarrow> gap_buffer \<Rightarrow> int \<times> gb_call list \<times> gap_buffer" where
  "ingest_data h payload now_ns g =
    (let st = gb_stats_of g in
     if \<not> gb_seq_synced g then (-1, [], g\<lparr>gb_stats_of := st\<lparr>gs_malformed := gs_malformed st + 1\<rparr>\<rparr>)
     else
       let g1 = g\<lparr>gb_stats_of := st\<lparr>gs_packets := gs_packets st + 1, gs_messages := gs_messages st + ucast (mh_msg_count h)\<rparr>\<rparr>;
           pkt_first = mh_seq_num h; pkt_end = pkt_first + ucast (mh_msg_count h);
           g2 = note_high_water pkt_end g1; st2 = gb_stats_of g2
       in if pkt_end \<le> gb_next_expected g2
          then (let (c, g3) = check_gap_timeout now_ns (g2\<lparr>gb_stats_of := st2\<lparr>gs_duplicates := gs_duplicates st2 + 1\<rparr>\<rparr>) in (0, c, g3))
          else
            let (c3, g3) = (if pkt_first > gb_next_expected g2 then handle_gap pkt_first now_ns g2 else ([], g2));
                (c4, g4) = walk_packet (unat (mh_msg_count h)) pkt_first (drop kMoldHeaderSize payload) now_ns g3;
                (c5, g5) = update_gap_state now_ns g4;
                (c6, g6) = check_gap_timeout now_ns g5
            in (int (length c4), c3 @ c4 @ c5 @ c6, g6))"

definition ingest :: "u8 list \<Rightarrow> u64 \<Rightarrow> gap_buffer \<Rightarrow> int \<times> gb_call list \<times> gap_buffer" where
  "ingest payload now_ns g =
    (case mold_header_parse payload of
       None \<Rightarrow> (-1, [], g)
     | Some h \<Rightarrow>
         let (ok, c0, g0) = check_session h g in
         if \<not> ok then (0, c0, g0)
         else
           let g1 = sync_first h g0 in
           if is_heartbeat h \<or> is_end_of_session h
           then (let (c, g2) = ingest_control h now_ns g1 in (0, c0 @ c, g2))
           else (let (n, c, g2) = ingest_data h payload now_ns g1 in (n, c0 @ c, g2)))"

end
