(* ===== verification/Gap_Order.thy ===== *)
theory Gap_Order
  imports Gap_Buffer
begin

text \<open>
  Sequencing by \<^verbatim>\<open>feed::GapBuffer\<close>: whatever the order, repetition and truncation of the datagrams
  of a feed, its messages go downstream once each, in order and with the feed's bytes, and a message
  that arrived is delivered, buffered or counted as an overflow.
\<close>

section \<open>Runs\<close>

datatype gb_input = Datagram "u8 list" u64 | Tick u64

fun gb_step :: "gb_input \<Rightarrow> gap_buffer \<Rightarrow> gb_call list \<times> gap_buffer" where
  "gb_step (Datagram payload now) g = (case ingest payload now g of (_, c, g') \<Rightarrow> (c, g'))"
| "gb_step (Tick now) g = gb_tick now g"

fun gb_run :: "gb_input list \<Rightarrow> gap_buffer \<Rightarrow> gb_call list \<times> gap_buffer" where
  "gb_run [] g = ([], g)"
| "gb_run (i # is) g = (let (c, g1) = gb_step i g; (cs, g2) = gb_run is g1 in (c @ cs, g2))"

text \<open>The messages among the calls, and their sequence numbers and lengths with the bytes in use.\<close>

definition messages_of :: "gb_call list \<Rightarrow> mold_message list" where
  "messages_of cs = List.map_filter (\<lambda>c. case c of OnMessage m \<Rightarrow> Some m | _ \<Rightarrow> None) cs"

definition delivered :: "gb_call list \<Rightarrow> (u64 \<times> nat \<times> u8 list) list" where
  "delivered cs = map (\<lambda>m. (mm_seq_num m, mm_length m, take (mm_length m) (mm_body m))) (messages_of cs)"

lemma messages_of_simps [simp]: "messages_of [] = []" "messages_of (OnMessage m # cs) = m # messages_of cs"
  "messages_of (OnGap e # cs) = messages_of cs" "messages_of (OnRetransmitRequest r # cs) = messages_of cs"
  "messages_of (OnSessionChange x # cs) = messages_of cs" "messages_of (OnEndOfSession y # cs) = messages_of cs"
  "messages_of (cs @ ds) = messages_of cs @ messages_of ds"
  by (simp_all add: messages_of_def List.map_filter_def)

lemma delivered_simps [simp]: "delivered [] = []"
  "delivered (OnMessage m # cs) = (mm_seq_num m, mm_length m, take (mm_length m) (mm_body m)) # delivered cs"
  "delivered (OnGap e # cs) = delivered cs" "delivered (OnRetransmitRequest r # cs) = delivered cs"
  "delivered (OnSessionChange x # cs) = delivered cs" "delivered (OnEndOfSession y # cs) = delivered cs"
  "delivered (cs @ ds) = delivered cs @ delivered ds"
  by (simp_all add: delivered_def)

text \<open>The requests among the calls.\<close>

definition requests_of :: "gb_call list \<Rightarrow> retransmit_request list" where
  "requests_of cs = List.map_filter (\<lambda>c. case c of OnRetransmitRequest r \<Rightarrow> Some r | _ \<Rightarrow> None) cs"

lemma requests_of_simps [simp]: "requests_of [] = []" "requests_of (OnMessage m # cs) = requests_of cs"
  "requests_of (OnGap e # cs) = requests_of cs" "requests_of (OnRetransmitRequest r # cs) = r # requests_of cs"
  "requests_of (OnSessionChange x # cs) = requests_of cs" "requests_of (OnEndOfSession y # cs) = requests_of cs"
  "requests_of (cs @ ds) = requests_of cs @ requests_of ds"
  by (simp_all add: requests_of_def List.map_filter_def)

section \<open>The messages of a packet\<close>

text \<open>The complete messages that follow a header, with their sequence numbers.\<close>

fun packet_msgs :: "nat \<Rightarrow> u64 \<Rightarrow> u8 list \<Rightarrow> (u64 \<times> u8 list) list" where
  "packet_msgs 0 s cursor = []"
| "packet_msgs (Suc n) s cursor =
    (let len = unat (be16 cursor 0); cur = drop 2 cursor in
     if length cursor < 2 \<or> length cur < len then []
     else (s, take len cur) # packet_msgs n (s + 1) (drop len cur))"

definition take_message :: "u64 \<times> u8 list \<Rightarrow> u64 \<Rightarrow> gap_buffer \<Rightarrow> gb_call list \<times> gap_buffer" where
  "take_message sb recv_ns g = (case sb of (s, body) \<Rightarrow>
    (if s < gb_next_expected g then ([], g)
     else if s = gb_next_expected g
     then (let (c1, ga) = deliver s body (of_nat (length body)) recv_ns g; (c2, gb) = flush_buffer ga in (c1 @ c2, gb))
     else ([], buffer_message s body (of_nat (length body)) recv_ns g)))"

definition count_malformed :: "gap_buffer \<Rightarrow> gap_buffer" where
  "count_malformed g = g\<lparr>gb_stats_of := (gb_stats_of g)\<lparr>gs_malformed := gs_malformed (gb_stats_of g) + 1\<rparr>\<rparr>"

lemma walk_packet_Suc:
  "walk_packet (Suc n) s cursor recv_ns g =
    (let len = unat (be16 cursor 0); cur = drop 2 cursor in
     if length cursor < 2 \<or> length cur < len then ([], count_malformed g)
     else (let (c, g1) = take_message (s, take len cur) recv_ns g;
               (cs, g2) = walk_packet n (s + 1) (drop len cur) recv_ns g1 in (c @ cs, g2)))"
proof (cases "length cursor < 2 \<or> length (drop 2 cursor) < unat (be16 cursor 0)")
  case True
  then show ?thesis by (auto simp: Let_def count_malformed_def)
next
  case False
  then have l: "length (take (unat (be16 cursor 0)) (drop 2 cursor)) = unat (be16 cursor 0)" by (auto simp: min_def)
  have "(of_nat (unat (be16 cursor 0)) :: u16) = be16 cursor 0" by simp
  then show ?thesis using False unfolding take_message_def Let_def prod.case l walk_packet.simps(2)
    by (simp only: de_Morgan_disj if_False split: prod.splits) simp
qed

declare walk_packet.simps(2) [simp del]

text \<open>
  A packet is its messages one by one: what one message keeps, with the messages taken so far and the
  calls made so far as ghosts, the packet keeps.
\<close>

lemma walk_induct:
  assumes walk: "walk_packet n s cursor t g = (c, g')"
    and P: "P ms D g"
    and mal: "\<And>ms D g. P ms D g \<Longrightarrow> P ms D (count_malformed g)"
    and step: "\<And>ms D g m c g'. P ms D g \<Longrightarrow> m \<in> set (packet_msgs n s cursor) \<Longrightarrow> take_message m t g = (c, g') \<Longrightarrow>
      P (ms @ [m]) (D @ c) g'"
  shows "P (ms @ packet_msgs n s cursor) (D @ c) g'"
  using walk P step
proof (induction n arbitrary: s cursor g ms D c)
  case (Suc n)
  let ?len = "unat (be16 cursor 0)" and ?cur = "drop 2 cursor"
  show ?case
  proof (cases "length cursor < 2 \<or> length ?cur < ?len")
    case True
    then have "c = []" "g' = count_malformed g" using Suc.prems(1) by (auto simp: walk_packet_Suc Let_def split: if_splits)
    with True mal [OF Suc.prems(2)] show ?thesis by auto
  next
    case False
    obtain c1 g1 where m: "take_message (s, take ?len ?cur) t g = (c1, g1)" by force
    obtain c2 where w: "walk_packet n (s + 1) (drop ?len ?cur) t g1 = (c2, g')" "c = c1 @ c2"
      using Suc.prems(1) False m by (auto simp only: walk_packet_Suc Let_def split: prod.splits if_splits)
    have pm: "packet_msgs (Suc n) s cursor = (s, take ?len ?cur) # packet_msgs n (s + 1) (drop ?len ?cur)"
      using False by (simp add: Let_def)
    have "P (ms @ [(s, take ?len ?cur)]) (D @ c1) g1"
      by (rule Suc.prems(3) [OF Suc.prems(2) _ m]) (simp add: pm del: packet_msgs.simps)
    from Suc.IH [OF w(1) this] Suc.prems(3) show ?thesis by (simp add: pm w(2) del: packet_msgs.simps)
  qed
qed simp

section \<open>Slots\<close>

lemma slot_of_mod: "slot_of s = unat s mod kCapacity"
proof -
  have m: "(4095 :: u64) = mask 12" by (simp add: mask_eq_exp_minus_1)
  have "s AND 4095 = take_bit 12 s" unfolding m by (simp add: take_bit_eq_mask)
  then have "unat (s AND 4095) = take_bit 12 (unat s)" by (simp add: unsigned_take_bit_eq)
  then show ?thesis by (simp add: slot_of_def kCapacity_def take_bit_eq_mod)
qed

lemma mod_window:
  fixes a b n k :: nat
  assumes "a mod k = b mod k" "n \<le> a" "n \<le> b" "a < n + k" "b < n + k"
  shows "a = b"
proof -
  have "x = y" if h: "x mod k = y mod k" "n \<le> x" "y < n + k" "x \<le> y" for x y :: nat
  proof -
    have "k dvd (y - x)" using h(4) mod_eq_dvd_iff_nat [of x y k] h(1) by simp
    moreover have "y - x < k" using h(2,3,4) by linarith
    ultimately have "y - x = 0" by (meson dvd_imp_le not_le neq0_conv)
    with h(4) show ?thesis by simp
  qed
  from this [of a b] this [of b a] assms show ?thesis by (metis nat_le_linear)
qed

lemma same_slot:
  assumes "slot_of a = slot_of b" "unat n \<le> unat a" "unat n \<le> unat b" "unat a < unat n + kCapacity" "unat b < unat n + kCapacity"
  shows "a = b"
  by (rule iffD2 [OF word_unat_eq_iff], rule mod_window) (use assms in \<open>simp_all add: slot_of_mod\<close>)

section \<open>The invariant\<close>

text \<open>
  \<open>C s\<close> is the message the feed numbers \<open>s\<close>, \<open>N\<close> is one past the last number. What a slot holds is
  the message of its sequence number, and that number lies in the window at \<^verbatim>\<open>next_expected_\<close>.
\<close>

definition slots_ok :: "(u64 \<Rightarrow> u8 list) \<Rightarrow> u64 \<Rightarrow> gap_buffer \<Rightarrow> bool" where
  "slots_ok C N g \<longleftrightarrow> (\<forall>i. bm_occupied (gb_slots g i) \<longrightarrow>
     (let b = gb_slots g i in slot_of (bm_seq_num b) = i \<and> gb_next_expected g \<le> bm_seq_num b \<and>
       unat (bm_seq_num b) < unat (gb_next_expected g) + kCapacity \<and> bm_seq_num b < N \<and>
       unat (bm_length b) = length (C (bm_seq_num b)) \<and> take (unat (bm_length b)) (bm_data b) = C (bm_seq_num b)))"

text \<open>Messages \<open>from\<close> to \<open>to\<close>, one past the last.\<close>

definition feed_slice :: "(u64 \<Rightarrow> u8 list) \<Rightarrow> u64 \<Rightarrow> u64 \<Rightarrow> (u64 \<times> nat \<times> u8 list) list" where
  "feed_slice C from to = map (\<lambda>k. (of_nat k, length (C (of_nat k)), C (of_nat k))) [unat from..<unat to]"

abbreviation overflows :: "gap_buffer \<Rightarrow> u64" where
  "overflows g \<equiv> gs_buffer_overflows (gb_stats_of g)"

text \<open>A feed that fits the buffer's window overflows it in no order.\<close>

definition fits :: "(u64 \<Rightarrow> u8 list) \<Rightarrow> u64 \<Rightarrow> u64 \<Rightarrow> bool" where
  "fits C N start \<longleftrightarrow> unat N \<le> unat start + kCapacity \<and> (\<forall>s. length (C s) \<le> kMaxMessageBytes)"

definition seq_inv :: "(u64 \<Rightarrow> u8 list) \<Rightarrow> u64 \<Rightarrow> u64 \<Rightarrow> (u64 \<times> u8 list) list \<Rightarrow> gb_call list \<Rightarrow> gap_buffer \<Rightarrow> bool" where
  "seq_inv C N start ms D g \<longleftrightarrow> slots_ok C N g \<and> start \<le> gb_next_expected g \<and> gb_next_expected g \<le> N \<and>
     delivered D = feed_slice C start (gb_next_expected g) \<and> (fits C N start \<longrightarrow> overflows g = 0) \<and>
     (length ms < 2 ^ 64 \<longrightarrow> unat (overflows g) \<le> length ms \<and>
       (overflows g = 0 \<longrightarrow> (\<forall>m\<in>set ms. start \<le> fst m \<longrightarrow> fst m < gb_next_expected g \<or> present g (fst m))))"

abbreviation drained :: "gap_buffer \<Rightarrow> bool" where
  "drained g \<equiv> \<not> present g (gb_next_expected g)"

lemma slots_okD:
  assumes "slots_ok C N g" "bm_occupied (gb_slots g i)"
  shows "slot_of (bm_seq_num (gb_slots g i)) = i" "gb_next_expected g \<le> bm_seq_num (gb_slots g i)"
    "unat (bm_seq_num (gb_slots g i)) < unat (gb_next_expected g) + kCapacity" "bm_seq_num (gb_slots g i) < N"
    "take (unat (bm_length (gb_slots g i))) (bm_data (gb_slots g i)) = C (bm_seq_num (gb_slots g i))"
    "unat (bm_length (gb_slots g i)) = length (C (bm_seq_num (gb_slots g i)))"
  using assms by (auto simp: slots_ok_def Let_def)

lemma seq_inv_cong:
  assumes "gb_slots g' = gb_slots g" "gb_next_expected g' = gb_next_expected g" "overflows g' = overflows g" "delivered D' = delivered D"
  shows "seq_inv C N start ms D' g' = seq_inv C N start ms D g"
  using assms by (simp add: seq_inv_def slots_ok_def present_def)

lemma word_Suc:
  fixes s N :: u64
  assumes "s < N"
  shows "unat (s + 1) = Suc (unat s)" "s + 1 \<le> N" "s < s + 1"
proof -
  have l: "unat s < unat N" using assms by (simp add: word_less_nat_alt)
  then show u: "unat (s + 1) = Suc (unat s)" using unat_u64_less [of N] unat_add_no_wrap [of s 1] by simp
  then show "s + 1 \<le> N" "s < s + 1" using l by (simp_all add: word_le_nat_alt word_less_nat_alt)
qed

lemma feed_slice_snoc:
  assumes "start \<le> s" "s < N"
  shows "feed_slice C start (s + 1) = feed_slice C start s @ [(s, length (C s), C s)]"
  using assms word_Suc(1) [OF assms(2)] by (simp add: feed_slice_def word_le_nat_alt)

text \<open>Moving past \<open>next_expected\<close> once its message went downstream.\<close>

lemma seq_inv_advance:
  assumes inv: "seq_inv C N start ms D g" and s: "s = gb_next_expected g" "s < N"
    and D: "delivered D' = delivered D @ [(s, length (C s), C s)]"
    and g': "gb_next_expected g' = s + 1" "overflows g' = overflows g"
      "\<And>i. bm_occupied (gb_slots g' i) \<Longrightarrow> gb_slots g' i = gb_slots g i"
      "\<And>s'. s < s' \<Longrightarrow> present g s' \<Longrightarrow> present g' s'" "\<not> present g' s"
    and ms: "set ms' \<subseteq> insert (s, b) (set ms)" "length ms \<le> length ms'"
  shows "seq_inv C N start ms' D' g'"
proof -
  note I = inv[unfolded seq_inv_def]
  note w = word_Suc [OF s(2)]
  have "slots_ok C N g'" unfolding slots_ok_def Let_def
  proof (intro allI impI)
    fix i assume o: "bm_occupied (gb_slots g' i)"
    then have e: "gb_slots g' i = gb_slots g i" by (rule g'(3))
    note k = slots_okD [OF conjunct1 [OF I], of i, folded e, OF o]
    have "bm_seq_num (gb_slots g' i) \<noteq> s"
      using g'(5) k(1) o by (auto simp: present_def)
    then have "s < bm_seq_num (gb_slots g' i)" using k(2) s(1) by simp
    then have "s + 1 \<le> bm_seq_num (gb_slots g' i)" by (simp add: w(1) word_le_nat_alt word_less_nat_alt)
    then show "slot_of (bm_seq_num (gb_slots g' i)) = i \<and> gb_next_expected g' \<le> bm_seq_num (gb_slots g' i) \<and>
       unat (bm_seq_num (gb_slots g' i)) < unat (gb_next_expected g') + kCapacity \<and> bm_seq_num (gb_slots g' i) < N \<and>
       unat (bm_length (gb_slots g' i)) = length (C (bm_seq_num (gb_slots g' i))) \<and>
       take (unat (bm_length (gb_slots g' i))) (bm_data (gb_slots g' i)) = C (bm_seq_num (gb_slots g' i))"
      using k w(1) s(1) g'(1) by simp
  qed
  moreover have "start \<le> gb_next_expected g'" using I s(1) w(3) g'(1) by (auto intro: order.trans less_imp_le)
  moreover have "gb_next_expected g' \<le> N" using w(2) g'(1) by simp
  moreover have "delivered D' = feed_slice C start (gb_next_expected g')"
    using D I feed_slice_snoc [of start s N C] s g'(1) by auto
  moreover have "fst m < gb_next_expected g' \<or> present g' (fst m)"
    if h: "length ms' < 2 ^ 64" "overflows g' = 0" "m \<in> set ms'" "start \<le> fst m" for m
  proof (cases "fst m \<le> s")
    case True
    then show ?thesis using w(3) g'(1) by (auto intro: le_less_trans)
  next
    case False
    then have m: "m \<in> set ms" "s < fst m" using h(3) ms(1) by (auto simp: not_le)
    then have "present g (fst m)" using I h ms(2) g'(2) s(1) by (auto dest: less_asym')
    then show ?thesis using g'(4) m(2) by blast
  qed
  moreover have "fits C N start \<longrightarrow> overflows g' = 0" using I g'(2) by auto
  moreover have "length ms' < 2 ^ 64 \<longrightarrow> unat (overflows g') \<le> length ms'" using I ms(2) g'(2) by auto
  ultimately show ?thesis unfolding seq_inv_def by blast
qed

section \<open>Every operation keeps it\<close>

lemma flush_inv:
  assumes "seq_inv C N start ms D g" "flush_buffer g = (c, g')"
  shows "seq_inv C N start ms (D @ c) g' \<and> drained g'"
  using assms
proof (induction g arbitrary: D c rule: flush_buffer.induct)
  case (1 g)
  let ?s = "gb_next_expected g" and ?sl = "gb_slots g (slot_of (gb_next_expected g))"
  let ?g = "g\<lparr>gb_slots := (gb_slots g)(slot_of ?s := ?sl\<lparr>bm_occupied := False\<rparr>),
    gb_stats_of := (gb_stats_of g)\<lparr>gs_delivered := gs_delivered (gb_stats_of g) + 1\<rparr>, gb_next_expected := ?s + 1\<rparr>"
  let ?m = "OnMessage \<lparr>mm_length = unat (bm_length ?sl), mm_body = bm_data ?sl, mm_seq_num = bm_seq_num ?sl, mm_recv_ns = bm_recv_ns ?sl\<rparr>"
  show ?case
  proof (cases "present g ?s")
    case False
    then show ?thesis using "1.prems" by (simp add: flush_buffer.simps [of g] Let_def)
  next
    case True
    obtain c2 where f: "flush_buffer ?g = (c2, g')" "c = ?m # c2"
      using "1.prems"(2) True by (auto simp: flush_buffer.simps [of g] Let_def split: prod.splits)
    have ok: "slots_ok C N g" using "1.prems"(1) by (simp add: seq_inv_def)
    have o: "bm_occupied ?sl" "bm_seq_num ?sl = ?s" using True by (auto simp: present_def)
    note k = slots_okD [OF ok o(1), unfolded o(2)]
    have "seq_inv C N start ms (D @ [?m]) ?g"
    proof (rule seq_inv_advance [OF "1.prems"(1) refl k(4), where b = "[]"])
      show "delivered (D @ [?m]) = delivered D @ [(?s, length (C ?s), C ?s)]" using k(5,6) o(2) by simp
      fix s' assume "?s < s'" "present g s'"
      then show "present ?g s'" using o(2) by (auto simp: present_def)
    qed (auto simp: present_def split: if_splits)
    from "1.IH" [OF refl refl refl _ refl this f(1)] True have "seq_inv C N start ms ((D @ [?m]) @ c2) g' \<and> drained g'" by simp
    then show ?thesis by (simp add: f(2))
  qed
qed

lemma buffer_inv:
  assumes inv: "seq_inv C N start ms D g" and s: "gb_next_expected g < s" "s < N" and b: "body = C s" "length body < 2 ^ 16"
    and dr: "drained g"
  shows "seq_inv C N start (ms @ [(s, body)]) D (buffer_message s body (of_nat (length body)) t g)"
    "drained (buffer_message s body (of_nat (length body)) t g)"
proof -
  note I = inv[unfolded seq_inv_def]
  let ?g = "buffer_message s body (of_nat (length body)) t g"
  have n: "unat (of_nat (length body) :: u16) = length body" using b(2) by (simp add: unsigned_of_nat take_bit_nat_eq_self)
  have d: "unat (s - gb_next_expected g) = unat s - unat (gb_next_expected g)" using s(1) by (intro unat_sub_le) simp
  have l: "unat (gb_next_expected g) < unat s" using s(1) by (simp add: word_less_nat_alt)
  have kc: "unat (of_nat kCapacity :: u64) = kCapacity" by (simp add: kCapacity_def)
  have over: "unat (overflows g + 1) = Suc (unat (overflows g))" "overflows g + 1 \<noteq> 0"
    if h: "length ms < 2 ^ 64 - 1" "unat (overflows g) \<le> length ms"
  proof -
    show u: "unat (overflows g + 1) = Suc (unat (overflows g))" using h unat_add_no_wrap [of "overflows g" 1] by simp
    then show "overflows g + 1 \<noteq> 0" by (metis nat.distinct(1) unsigned_0)
  qed
  let ?new = "g\<lparr>gb_slots := (gb_slots g)(slot_of s := \<lparr>bm_seq_num = s, bm_recv_ns = t, bm_length = of_nat (length body),
    bm_occupied = True, bm_data = body @ drop (length body) (bm_data (gb_slots g (slot_of s)))\<rparr>)\<rparr>"
  have bm: "?g = (if kCapacity \<le> unat s - unat (gb_next_expected g) \<or> kMaxMessageBytes < length body
      then g\<lparr>gb_stats_of := (gb_stats_of g)\<lparr>gs_buffer_overflows := overflows g + 1\<rparr>\<rparr>
      else if present g s then g else ?new)"
    using n d kc by (simp add: buffer_message_def Let_def word_le_nat_alt cong: if_cong)
  show "seq_inv C N start (ms @ [(s, body)]) D ?g"
  proof (cases "kCapacity \<le> unat s - unat (gb_next_expected g) \<or> kMaxMessageBytes < length body"; cases "present g s")
    assume o: "kCapacity \<le> unat s - unat (gb_next_expected g) \<or> kMaxMessageBytes < length body"
    have dropped: "?g = g\<lparr>gb_stats_of := (gb_stats_of g)\<lparr>gs_buffer_overflows := overflows g + 1\<rparr>\<rparr>" unfolding bm if_P [OF o] by (rule refl)
    have "\<not> fits C N start"
    proof
      assume f: "fits C N start"
      then have "length body \<le> kMaxMessageBytes" by (simp add: fits_def b(1))
      moreover have "unat s < unat (gb_next_expected g) + kCapacity"
        using f s(2) conjunct1 [OF conjunct2 [OF I]] by (simp add: fits_def word_less_nat_alt word_le_nat_alt)
      ultimately show False using o l by linarith
    qed
    then show "seq_inv C N start (ms @ [(s, body)]) D ?g" using I over unfolding seq_inv_def dropped by (auto simp: slots_ok_def)
    then show "seq_inv C N start (ms @ [(s, body)]) D ?g" .
  next
    assume o: "\<not> (kCapacity \<le> unat s - unat (gb_next_expected g) \<or> kMaxMessageBytes < length body)" and p: "present g s"
    have known: "?g = g" unfolding bm if_not_P [OF o] if_P [OF p] by (rule refl)
    show "seq_inv C N start (ms @ [(s, body)]) D ?g" using I p unfolding seq_inv_def known by auto
  next
    assume o: "\<not> (kCapacity \<le> unat s - unat (gb_next_expected g) \<or> kMaxMessageBytes < length body)" and p: "\<not> present g s"
    have kept: "unat s < unat (gb_next_expected g) + kCapacity" "\<not> present g s" "?g = ?new"
      using o p l bm by auto
    have alone: "\<not> bm_occupied (gb_slots g (slot_of s))"
    proof
      assume o: "bm_occupied (gb_slots g (slot_of s))"
      note k = slots_okD [OF conjunct1 [OF I] o]
      have "bm_seq_num (gb_slots g (slot_of s)) = s"
        by (rule same_slot [of _ _ "gb_next_expected g"]) (use k l kept(1) in \<open>simp_all add: word_le_nat_alt\<close>)
      with o kept(2) show False by (simp add: present_def)
    qed
    have p: "present ?g s'" if "present g s' \<or> s' = s" for s'
      using that alone unfolding kept(3) by (auto simp: present_def)
    have "slots_ok C N ?g"
      using I s n[unfolded b(1)] b(1) kept(1) unfolding kept(3) slots_ok_def by auto
    moreover have "gb_next_expected ?g = gb_next_expected g" "overflows ?g = overflows g" unfolding kept(3) by simp_all
    ultimately show ?thesis using I p by (auto simp: seq_inv_def)
  qed
  have "slot_of s \<noteq> slot_of (gb_next_expected g)" if "unat s < unat (gb_next_expected g) + kCapacity"
    using same_slot [of s "gb_next_expected g" "gb_next_expected g"] that l s(1) by (auto simp: kCapacity_def)
  then show "drained ?g" using dr d l kc by (auto simp: buffer_message_def Let_def present_def word_le_nat_alt n)
qed

text \<open>A message of the feed: its bytes, and a number below the bound.\<close>

definition authentic :: "(u64 \<Rightarrow> u8 list) \<Rightarrow> u64 \<Rightarrow> u64 \<times> u8 list \<Rightarrow> bool" where
  "authentic C N m \<longleftrightarrow> fst m < N \<and> snd m = C (fst m) \<and> length (snd m) < 2 ^ 16"

lemma take_message_inv:
  assumes inv: "seq_inv C N start ms D g" and dr: "drained g" and a: "authentic C N m" and t: "take_message m t g = (c, g')"
  shows "seq_inv C N start (ms @ [m]) (D @ c) g' \<and> drained g'"
proof -
  obtain s body where m: "m = (s, body)" by force
  note A = a[unfolded authentic_def m, simplified]
  consider (old) "s < gb_next_expected g" | (now) "s = gb_next_expected g" | (ahead) "gb_next_expected g < s" by force
  then show ?thesis
  proof cases
    case old
    then have "c = []" "g' = g" using t by (auto simp: take_message_def m)
    with inv dr old show ?thesis by (auto simp: seq_inv_def m)
  next
    case ahead
    then have "\<not> s < gb_next_expected g" "s \<noteq> gb_next_expected g" by auto
    then have "c = []" "g' = buffer_message s body (of_nat (length body)) t g" using t by (auto simp: take_message_def m)
    moreover have "body = C s" "length body < 2 ^ 16" using A by auto
    ultimately show ?thesis using buffer_inv [OF inv ahead _ _ _ dr, of body t] A by (simp add: m)
  next
    case now
    obtain c1 ga where d: "deliver s body (of_nat (length body)) t g = (c1, ga)" by force
    obtain c2 where f: "flush_buffer ga = (c2, g')" "c = c1 @ c2"
      using t now d by (auto simp: take_message_def m Let_def split: prod.splits)
    have np: "\<not> present g s" using dr now by simp
    have len: "unat (of_nat (length body) :: u16) = length body"
      using conjunct2 [OF conjunct2 [OF A]] by (simp only: unsigned_of_nat) (simp add: take_bit_nat_eq_self)
    have c1: "delivered c1 = [(s, length (C s), C s)]" using d len A by (auto simp: deliver_def Let_def)
    have ga: "gb_next_expected ga = s + 1" "overflows ga = overflows g" "gb_slots ga = gb_slots g"
      using d np by (auto simp: deliver_def Let_def)
    have "seq_inv C N start (ms @ [m]) (D @ c1) ga"
      by (rule seq_inv_advance [OF inv now, where b = body]) (use A c1 ga np in \<open>auto simp: present_def m\<close>)
    from flush_inv [OF this f(1)] show ?thesis by (simp add: f(2))
  qed
qed

section \<open>What leaves the sequence alone\<close>

text \<open>
  \<open>gb_core\<close> is what sequencing reads, \<open>env\<close> what taking messages never changes. Gap tracking, the
  counters and the end of the session leave the core alone and hand no message downstream.
\<close>

definition env :: "gap_buffer \<Rightarrow> gb_config \<times> u8 list \<times> bool \<times> bool \<times> bool" where
  "env g = (gb_cfg g, gb_session g, gb_session_synced g, gb_seq_synced g, gb_retx_set g)"

definition gb_core :: "gap_buffer \<Rightarrow> (gb_config \<times> u8 list \<times> bool \<times> bool \<times> bool) \<times> (nat \<Rightarrow> buffered_message) \<times> u64 \<times> u64" where
  "gb_core g = (env g, gb_slots g, gb_next_expected g, overflows g)"

lemma gb_coreD:
  assumes "gb_core g' = gb_core g"
  shows "gb_slots g' = gb_slots g" "gb_next_expected g' = gb_next_expected g" "overflows g' = overflows g" "env g' = env g"
    "gb_session g' = gb_session g" "gb_session_synced g' = gb_session_synced g" "gb_seq_synced g' = gb_seq_synced g" "gb_cfg g' = gb_cfg g"
    "gb_retx_set g' = gb_retx_set g"
  using assms by (auto simp: gb_core_def env_def)

named_theorems quiet

lemma quiet_handle_gap [quiet]: "handle_gap f t g = (c, g') \<Longrightarrow> gb_core g' = gb_core g \<and> messages_of c = []"
  by (auto simp: handle_gap_def Let_def gb_core_def env_def split: if_splits)

lemma quiet_note_high_water [quiet]: "gb_core (note_high_water n g) = gb_core g"
  by (simp add: note_high_water_def gb_core_def env_def)

lemma quiet_update_gap_state [quiet]: "update_gap_state t g = (c, g') \<Longrightarrow> gb_core g' = gb_core g \<and> messages_of c = []"
  by (auto simp: update_gap_state_def gb_core_def env_def split: if_splits dest!: quiet_handle_gap)

lemma quiet_check_gap_timeout [quiet]: "check_gap_timeout t g = (c, g') \<Longrightarrow> gb_core g' = gb_core g \<and> messages_of c = []"
  by (auto simp: check_gap_timeout_def Let_def gb_core_def env_def split: if_splits)

lemma quiet_on_end_of_session [quiet]: "on_end_of_session h g = (c, g') \<Longrightarrow> gb_core g' = gb_core g \<and> messages_of c = []"
  by (auto simp: on_end_of_session_def gb_core_def env_def split: if_splits)

text \<open>A control packet, step by step.\<close>

definition count_heartbeat :: "mold_header \<Rightarrow> gap_buffer \<Rightarrow> gap_buffer" where
  "count_heartbeat h g = (if is_heartbeat h
     then g\<lparr>gb_stats_of := (gb_stats_of g)\<lparr>gs_heartbeats := gs_heartbeats (gb_stats_of g) + 1\<rparr>\<rparr> else g)"

lemma ingest_control_split:
  assumes "ingest_control h t g = (c, g')"
  obtains c2 g2 c3 g3 c4 where
    "(let ga = note_high_water (mh_seq_num h) (count_heartbeat h g) in
      if gb_seq_synced g then if mh_seq_num h > gb_next_expected ga then handle_gap (mh_seq_num h) t ga else ([], ga)
      else ([], count_heartbeat h g)) = (c2, g2)"
    "(if is_end_of_session h then on_end_of_session h g2 else ([], g2)) = (c3, g3)"
    "check_gap_timeout t g3 = (c4, g')" "c = c2 @ c3 @ c4"
proof -
  have s: "gb_seq_synced (count_heartbeat h g) = gb_seq_synced g" by (simp add: count_heartbeat_def)
  define x2 where "x2 = (let ga = note_high_water (mh_seq_num h) (count_heartbeat h g) in
      if gb_seq_synced g then if mh_seq_num h > gb_next_expected ga then handle_gap (mh_seq_num h) t ga else ([], ga)
      else ([], count_heartbeat h g))"
  obtain c2 g2 where x: "x2 = (c2, g2)" by force
  obtain c3 g3 where y: "(if is_end_of_session h then on_end_of_session h g2 else ([], g2)) = (c3, g3)" by force
  obtain c4 g4 where z: "check_gap_timeout t g3 = (c4, g4)" by force
  have "ingest_control h t g = (c2 @ c3 @ c4, g4)"
    unfolding ingest_control_def Let_def count_heartbeat_def [symmetric] s
    using x y z by (simp add: x2_def Let_def)
  with assms x y z that show thesis by (simp add: x2_def)
qed

lemma quiet_ingest_control:
  assumes "ingest_control h t g = (c, g')"
  shows "gb_core g' = gb_core g \<and> messages_of c = []"
  using assms
proof (rule ingest_control_split)
  fix c2 g2 c3 g3 c4
  assume x: "(let ga = note_high_water (mh_seq_num h) (count_heartbeat h g) in
      if gb_seq_synced g then if mh_seq_num h > gb_next_expected ga then handle_gap (mh_seq_num h) t ga else ([], ga)
      else ([], count_heartbeat h g)) = (c2, g2)"
    and y: "(if is_end_of_session h then on_end_of_session h g2 else ([], g2)) = (c3, g3)"
    and z: "check_gap_timeout t g3 = (c4, g')" "c = c2 @ c3 @ c4"
  have "gb_core (count_heartbeat h g) = gb_core g" by (simp add: count_heartbeat_def gb_core_def env_def)
  then have "gb_core g2 = gb_core g \<and> messages_of c2 = []"
    using x quiet_handle_gap [of "mh_seq_num h" t "note_high_water (mh_seq_num h) (count_heartbeat h g)" c2 g2]
      quiet_note_high_water [of "mh_seq_num h" "count_heartbeat h g"]
    by (auto simp: Let_def split: if_splits)
  moreover have "gb_core g3 = gb_core g2 \<and> messages_of c3 = []"
    using y quiet_on_end_of_session [of h g2 c3 g3] by (auto split: if_splits)
  ultimately show ?thesis using quiet_check_gap_timeout [OF z(1)] z(2) by simp
qed

lemma delivered_messages: "messages_of c = [] \<Longrightarrow> delivered c = []"
  by (simp add: delivered_def)

lemma seq_inv_core:
  assumes "gb_core g' = gb_core g" "messages_of c = []"
  shows "seq_inv C N start ms (D @ c) g' = seq_inv C N start ms D g" "drained g' = drained g"
proof -
  show "seq_inv C N start ms (D @ c) g' = seq_inv C N start ms D g"
    by (rule seq_inv_cong) (simp_all add: gb_coreD [OF assms(1)] delivered_messages [OF assms(2)])
  show "drained g' = drained g" by (simp add: present_def gb_coreD [OF assms(1)])
qed

text \<open>Taking messages touches neither the environment nor the marks of the feed.\<close>

definition fixed :: "gap_buffer \<Rightarrow> (gb_config \<times> u8 list \<times> bool \<times> bool \<times> bool) \<times> u64 \<times> bool \<times> u64" where
  "fixed g = (env g, gb_high_water g, gb_eos_seen g, gb_eos_seq g)"

lemma fixed_flush: "flush_buffer g = (c, g') \<Longrightarrow> fixed g' = fixed g"
proof (induction g arbitrary: c rule: flush_buffer.induct)
  case (1 g)
  show ?case
  proof (cases "present g (gb_next_expected g)")
    case False
    then show ?thesis using "1.prems" by (simp add: flush_buffer.simps [of g] Let_def)
  next
    case True
    with "1.prems" obtain c2 where "flush_buffer (g\<lparr>gb_slots := (gb_slots g)(slot_of (gb_next_expected g) :=
        gb_slots g (slot_of (gb_next_expected g))\<lparr>bm_occupied := False\<rparr>),
        gb_stats_of := (gb_stats_of g)\<lparr>gs_delivered := gs_delivered (gb_stats_of g) + 1\<rparr>, gb_next_expected := gb_next_expected g + 1\<rparr>) = (c2, g')"
      by (auto simp: flush_buffer.simps [of g] Let_def split: prod.splits)
    from "1.IH" [OF refl refl refl _ refl this] True show ?thesis by (simp add: fixed_def env_def)
  qed
qed

lemma fixed_take_message: "take_message m t g = (c, g') \<Longrightarrow> fixed g' = fixed g"
proof -
  assume h: "take_message m t g = (c, g')"
  have "fixed ga = fixed g" if "deliver s b l t g = (c1, ga)" for s b l c1 ga
    using that by (cases "present g s") (auto simp: deliver_def Let_def fixed_def env_def)
  moreover have "fixed (buffer_message s b l t g) = fixed g" for s b l by (simp add: buffer_message_def Let_def fixed_def env_def)
  ultimately show ?thesis using h by (auto simp: take_message_def Let_def split: prod.splits if_splits dest!: fixed_flush)
qed

lemma fixed_walk: "walk_packet n s cursor t g = (c, g') \<Longrightarrow> fixed g' = fixed g"
  by (rule walk_induct [of n s cursor t g c g' "\<lambda>ms D ga. fixed ga = fixed g" "[]" "[]"])
    (auto simp: count_malformed_def fixed_take_message, simp add: fixed_def env_def)

lemma env_take_message: "take_message m t g = (c, g') \<Longrightarrow> env g' = env g"
  by (drule fixed_take_message) (simp add: fixed_def)

lemma walk_inv:
  assumes "walk_packet n s cursor t g = (c, g')" "seq_inv C N start ms D g" "drained g"
    and "\<forall>m\<in>set (packet_msgs n s cursor). authentic C N m"
  shows "seq_inv C N start (ms @ packet_msgs n s cursor) (D @ c) g' \<and> drained g' \<and> env g' = env g"
proof (rule walk_induct [OF assms(1), of "\<lambda>ms D ga. seq_inv C N start ms D ga \<and> drained ga \<and> env ga = env g" ms D])
  fix ms D ga assume P: "seq_inv C N start ms D ga \<and> drained ga \<and> env ga = env g"
  have k: "gb_core (count_malformed ga) = gb_core ga" by (simp add: count_malformed_def gb_core_def env_def)
  have "seq_inv C N start ms D (count_malformed ga)"
    using P seq_inv_core(1) [OF k messages_of_simps(1), of C N start ms D] by simp
  then show "seq_inv C N start ms D (count_malformed ga) \<and> drained (count_malformed ga) \<and> env (count_malformed ga) = env g"
    using P seq_inv_core(2) [OF k messages_of_simps(1)] gb_coreD(4) [OF k] by simp
next
  fix ms D ga m c gb
  assume P: "seq_inv C N start ms D ga \<and> drained ga \<and> env ga = env g" and m: "m \<in> set (packet_msgs n s cursor)"
    and t: "take_message m t ga = (c, gb)"
  have a: "authentic C N m" using assms(4) m by blast
  from take_message_inv [OF conjunct1 [OF P] conjunct1 [OF conjunct2 [OF P]] a t] env_take_message [OF t] P
  show "seq_inv C N start (ms @ [m]) (D @ c) gb \<and> drained gb \<and> env gb = env g" by simp
next
  show "seq_inv C N start ms D g \<and> drained g \<and> env g = env g" using assms(2,3) by simp
qed

section \<open>Datagrams\<close>

definition is_data :: "mold_header \<Rightarrow> bool" where
  "is_data h \<longleftrightarrow> \<not> is_heartbeat h \<and> \<not> is_end_of_session h"

definition data_msgs :: "mold_header \<Rightarrow> u8 list \<Rightarrow> (u64 \<times> u8 list) list" where
  "data_msgs h payload = packet_msgs (unat (mh_msg_count h)) (mh_seq_num h) (drop kMoldHeaderSize payload)"

text \<open>
  An input of the feed \<open>C\<close> of session \<open>sess\<close>: a datagram may be truncated, late, repeated, of
  another session or no packet at all, but the complete messages it has are the feed's.
\<close>

definition packet_from_feed :: "(u64 \<Rightarrow> u8 list) \<Rightarrow> u64 \<Rightarrow> mold_header \<Rightarrow> u8 list \<Rightarrow> bool" where
  "packet_from_feed C N h payload \<longleftrightarrow> mh_seq_num h \<le> N \<and>
    (is_data h \<longrightarrow> mh_seq_num h \<noteq> 0 \<and> unat (mh_seq_num h) + unat (mh_msg_count h) \<le> unat N \<and>
      (\<forall>m\<in>set (data_msgs h payload). snd m = C (fst m)))"

fun from_feed :: "(u64 \<Rightarrow> u8 list) \<Rightarrow> u64 \<Rightarrow> u8 list \<Rightarrow> gb_input \<Rightarrow> bool" where
  "from_feed C N sess (Datagram payload now) = (case mold_header_parse payload of None \<Rightarrow> True
     | Some h \<Rightarrow> mh_session h = sess \<longrightarrow> packet_from_feed C N h payload)"
| "from_feed C N sess (Tick now) = True"

fun input_msgs :: "u8 list \<Rightarrow> gb_input \<Rightarrow> (u64 \<times> u8 list) list" where
  "input_msgs sess (Datagram payload now) = (case mold_header_parse payload of None \<Rightarrow> []
     | Some h \<Rightarrow> if mh_session h = sess \<and> is_data h then data_msgs h payload else [])"
| "input_msgs sess (Tick now) = []"

text \<open>The messages that arrived.\<close>

definition arrived :: "u8 list \<Rightarrow> gb_input list \<Rightarrow> (u64 \<times> u8 list) list" where
  "arrived sess ins = concat (map (input_msgs sess) ins)"

fun is_stray :: "u8 list \<Rightarrow> gb_input \<Rightarrow> bool" where
  "is_stray sess (Datagram payload now) = (case mold_header_parse payload of None \<Rightarrow> False | Some h \<Rightarrow> mh_session h \<noteq> sess)"
| "is_stray sess (Tick now) = False"

lemma packet_msgs_range:
  "m \<in> set (packet_msgs n s cursor) \<Longrightarrow> unat s + n \<le> unat N \<Longrightarrow>
    s \<le> fst m \<and> unat (fst m) < unat s + n \<and> fst m < N \<and> length (snd m) < 2 ^ 16"
proof (induction n arbitrary: s cursor)
  case (Suc n)
  have s: "s < N" using Suc.prems(2) by (simp add: word_less_nat_alt)
  note w = word_Suc [OF s]
  let ?len = "unat (be16 cursor 0)"
  have l: "?len < 2 ^ 16" using unsigned_less [of "be16 cursor 0", where ?'a = nat] by simp
  have "m = (s, take ?len (drop 2 cursor)) \<or> m \<in> set (packet_msgs n (s + 1) (drop ?len (drop 2 cursor)))"
    using Suc.prems(1) by (auto simp: Let_def split: if_splits)
  then show ?case
  proof
    assume "m = (s, take ?len (drop 2 cursor))"
    then show ?thesis using s l by simp
  next
    assume "m \<in> set (packet_msgs n (s + 1) (drop ?len (drop 2 cursor)))"
    from Suc.IH [OF this] w Suc.prems(2) show ?thesis by (auto intro: order.trans less_imp_le)
  qed
qed simp

lemma from_feed_authentic:
  assumes "packet_from_feed C N h payload" "is_data h"
  shows "\<forall>m\<in>set (data_msgs h payload). authentic C N m"
proof
  fix m assume m: "m \<in> set (data_msgs h payload)"
  from m assms packet_msgs_range [OF m[unfolded data_msgs_def], of N] show "authentic C N m"
    by (simp add: authentic_def packet_from_feed_def)
qed

lemma seq_inv_old:
  assumes "seq_inv C N start ms D g" "\<forall>m\<in>set ms'. fst m < gb_next_expected g"
  shows "seq_inv C N start (ms @ ms') D g"
  using assms by (auto simp: seq_inv_def)

text \<open>A data packet is a duplicate, or its messages are taken one by one.\<close>

lemma ingest_data_cases:
  assumes sy: "gb_seq_synced g" and i: "ingest_data h payload t g = (n, c, g')"
  obtains (duplicate) g3 where "mh_seq_num h + ucast (mh_msg_count h) \<le> gb_next_expected g" "gb_core g3 = gb_core g"
      "gb_in_gap g3 = gb_in_gap g" "gb_high_water g \<le> gb_high_water g3" "check_gap_timeout t g3 = (c, g')"
      "gb_high_water g3 \<le> max (gb_high_water g) (mh_seq_num h + ucast (mh_msg_count h))"
      "gb_eos_seen g3 = gb_eos_seen g" "gb_eos_seq g3 = gb_eos_seq g"
    | (taken) c3 g3 c4 g4 c5 g5 c6 where "gb_core g3 = gb_core g" "messages_of c3 = []"
      "walk_packet (unat (mh_msg_count h)) (mh_seq_num h) (drop kMoldHeaderSize payload) t g3 = (c4, g4)"
      "update_gap_state t g4 = (c5, g5)" "check_gap_timeout t g5 = (c6, g')" "c = c3 @ c4 @ c5 @ c6"
      "gb_high_water g3 \<le> max (gb_high_water g) (mh_seq_num h + ucast (mh_msg_count h))"
      "gb_eos_seen g3 = gb_eos_seen g" "gb_eos_seq g3 = gb_eos_seq g" "gb_high_water g \<le> gb_high_water g3" "requests_of c3 = []"
proof -
  let ?e = "mh_seq_num h + ucast (mh_msg_count h)"
  define g1 where "g1 = g\<lparr>gb_stats_of := (gb_stats_of g)\<lparr>gs_packets := gs_packets (gb_stats_of g) + 1,
    gs_messages := gs_messages (gb_stats_of g) + ucast (mh_msg_count h)\<rparr>\<rparr>"
  define g2 where "g2 = note_high_water ?e g1"
  have c2: "gb_core g2 = gb_core g" unfolding g2_def quiet_note_high_water by (simp add: g1_def gb_core_def env_def)
  have m2: "gb_high_water g2 \<le> max (gb_high_water g) ?e" "gb_eos_seen g2 = gb_eos_seen g" "gb_eos_seq g2 = gb_eos_seq g"
      "gb_high_water g \<le> gb_high_water g2"
    by (auto simp: g2_def g1_def note_high_water_def)
  show thesis
  proof (cases "?e \<le> gb_next_expected g2")
    case True
    define g3 where "g3 = g2\<lparr>gb_stats_of := (gb_stats_of g2)\<lparr>gs_duplicates := gs_duplicates (gb_stats_of g2) + 1\<rparr>\<rparr>"
    have "check_gap_timeout t g3 = (c, g')"
      using i True sy unfolding ingest_data_def Let_def g1_def [symmetric] g2_def [symmetric] g3_def [symmetric]
      by (auto split: prod.splits)
    moreover have "gb_core g3 = gb_core g" using c2 by (simp add: g3_def gb_core_def env_def)
    moreover have "gb_in_gap g3 = gb_in_gap g" "gb_high_water g \<le> gb_high_water g3"
      by (auto simp: g3_def g2_def g1_def note_high_water_def)
    moreover have "gb_high_water g3 \<le> max (gb_high_water g) ?e" "gb_eos_seen g3 = gb_eos_seen g" "gb_eos_seq g3 = gb_eos_seq g"
      using m2 by (simp_all add: g3_def)
    ultimately show thesis using duplicate True gb_coreD(2) [OF c2] by simp
  next
    case False
    define x3 where "x3 = (if mh_seq_num h > gb_next_expected g2 then handle_gap (mh_seq_num h) t g2 else ([], g2))"
    obtain c3 g3 where x: "x3 = (c3, g3)" by force
    obtain c4 g4 where w: "walk_packet (unat (mh_msg_count h)) (mh_seq_num h) (drop kMoldHeaderSize payload) t g3 = (c4, g4)" by force
    obtain c5 g5 where u: "update_gap_state t g4 = (c5, g5)" by force
    obtain c6 where v: "check_gap_timeout t g5 = (c6, g')" "c = c3 @ c4 @ c5 @ c6"
      using i False sy x w u unfolding ingest_data_def Let_def g1_def [symmetric] g2_def [symmetric] x3_def [symmetric]
      by (auto split: prod.splits)
    have "gb_core g3 = gb_core g" "messages_of c3 = []"
      using x c2 quiet_handle_gap [of "mh_seq_num h" t g2 c3 g3] by (auto simp: x3_def split: if_splits)
    moreover have "gb_high_water g3 = gb_high_water g2 \<and> gb_eos_seen g3 = gb_eos_seen g2 \<and> gb_eos_seq g3 = gb_eos_seq g2"
      using x by (auto simp: x3_def handle_gap_def Let_def split: if_splits)
    moreover have "requests_of c3 = []" using x by (auto simp: x3_def handle_gap_def Let_def split: if_splits)
    ultimately show thesis using taken [OF _ _ w u v] m2 by simp
  qed
qed

lemma packet_end:
  assumes "packet_from_feed C N h payload" "is_data h"
  shows "unat (mh_seq_num h + ucast (mh_msg_count h)) = unat (mh_seq_num h) + unat (mh_msg_count h)"
proof -
  have "unat (ucast (mh_msg_count h) :: u64) = unat (mh_msg_count h)"
    using unsigned_less [of "mh_msg_count h", where ?'a = nat] by (simp add: unsigned_ucast_eq take_bit_nat_eq_self)
  then show ?thesis
    using assms unat_u64_less [of N] unat_add_no_wrap [of "mh_seq_num h" "ucast (mh_msg_count h)"] by (auto simp: packet_from_feed_def)
qed

lemma data_msgs_before_end:
  assumes "packet_from_feed C N h payload" "is_data h" "m \<in> set (data_msgs h payload)"
  shows "fst m < mh_seq_num h + ucast (mh_msg_count h)"
  using packet_msgs_range [OF assms(3) [unfolded data_msgs_def], of N] packet_end [OF assms(1,2)] assms(1,2)
  by (simp add: packet_from_feed_def word_less_nat_alt)

lemma ingest_data_inv:
  assumes inv: "seq_inv C N start ms D g" "drained g" and sy: "gb_seq_synced g"
    and p: "packet_from_feed C N h payload" "is_data h" and i: "ingest_data h payload t g = (n, c, g')"
  shows "seq_inv C N start (ms @ data_msgs h payload) (D @ c) g' \<and> drained g' \<and> env g' = env g"
  using sy i
proof (cases rule: ingest_data_cases)
  case (duplicate g3)
  then have q: "gb_core g' = gb_core g" "messages_of c = []" using quiet_check_gap_timeout [OF duplicate(5)] by simp_all
  have "\<forall>m\<in>set (data_msgs h payload). fst m < gb_next_expected g"
    using data_msgs_before_end [OF p] duplicate(1) by (auto intro: less_le_trans)
  then have "seq_inv C N start (ms @ data_msgs h payload) D g" by (rule seq_inv_old [OF inv(1)])
  then show ?thesis using seq_inv_core [OF q] inv(2) gb_coreD(4) [OF q(1)] by simp
next
  case (taken c3 g3 c4 g4 c5 g5 c6)
  have i3: "seq_inv C N start ms (D @ c3) g3" "drained g3" using seq_inv_core [OF taken(1,2)] inv by simp_all
  note i4 = walk_inv [OF taken(3) i3 from_feed_authentic [OF p, unfolded data_msgs_def], folded data_msgs_def]
  have q6: "gb_core g' = gb_core g4" "messages_of (c5 @ c6) = []"
    using quiet_update_gap_state [OF taken(4)] quiet_check_gap_timeout [OF taken(5)] by simp_all
  show ?thesis
    using i4 seq_inv_core(1) [OF q6, of C N start "ms @ data_msgs h payload" "D @ c3 @ c4"] seq_inv_core(2) [OF q6]
      gb_coreD(4) [OF q6(1)] gb_coreD(4) [OF taken(1)] taken(6) by simp
qed

section \<open>Runs keep it\<close>

text \<open>
  \<open>ready\<close>: the buffer follows session \<open>sess\<close>, or will learn it from the first packet. Strays are
  allowed once the session is known, as long as a change of session is not accepted.
\<close>

definition ready :: "u8 list \<Rightarrow> gb_input \<Rightarrow> gap_buffer \<Rightarrow> bool" where
  "ready sess i g \<longleftrightarrow> (gb_session_synced g \<longrightarrow> gb_session g = sess) \<and>
    (is_stray sess i \<longrightarrow> gb_session_synced g \<and> \<not> gc_accept_session_change (gb_cfg g))"

definition untouched :: "gap_buffer \<Rightarrow> bool" where
  "untouched g \<longleftrightarrow> \<not> gb_seq_synced g \<and> gb_next_expected g = 0 \<and> overflows g = 0 \<and> (\<forall>i. \<not> bm_occupied (gb_slots g i))"

definition run_inv :: "(u64 \<Rightarrow> u8 list) \<Rightarrow> u64 \<Rightarrow> u64 \<Rightarrow> (u64 \<times> u8 list) list \<Rightarrow> gb_call list \<Rightarrow> gap_buffer \<Rightarrow> bool" where
  "run_inv C N start ms D g \<longleftrightarrow>
    (if gb_seq_synced g then start \<noteq> 0 \<and> seq_inv C N start ms D g \<and> drained g
     else start = 0 \<and> untouched g \<and> ms = [] \<and> delivered D = [])"

text \<open>The first sequence number that a packet of the session names.\<close>

fun input_seq :: "u8 list \<Rightarrow> gb_input \<Rightarrow> u64" where
  "input_seq sess (Datagram payload now) = (case mold_header_parse payload of None \<Rightarrow> 0
     | Some h \<Rightarrow> if mh_session h = sess then mh_seq_num h else 0)"
| "input_seq sess (Tick now) = 0"

fun first_seq :: "u8 list \<Rightarrow> u64 \<Rightarrow> gb_input list \<Rightarrow> u64" where
  "first_seq sess start [] = start"
| "first_seq sess start (i # is) = first_seq sess (if start = 0 then input_seq sess i else start) is"

lemma run_inv_cong:
  assumes "gb_slots g' = gb_slots g" "gb_next_expected g' = gb_next_expected g" "overflows g' = overflows g"
    "gb_seq_synced g' = gb_seq_synced g"
  shows "run_inv C N start ms D g' = run_inv C N start ms D g"
  using assms by (simp add: run_inv_def untouched_def seq_inv_def slots_ok_def present_def)

lemma run_inv_core:
  assumes "gb_core g' = gb_core g" "messages_of c = []" "run_inv C N start ms D g"
  shows "run_inv C N start ms (D @ c) g'"
  using assms(3) seq_inv_core [OF assms(1,2)] gb_coreD [OF assms(1)] delivered_messages [OF assms(2)]
  by (simp add: run_inv_def untouched_def split: if_splits)

lemma sync_first_inv:
  assumes "run_inv C N start ms D g" "mh_seq_num h \<le> N"
  shows "run_inv C N (if start = 0 then mh_seq_num h else start) ms D (sync_first h g)"
    "gb_seq_synced (sync_first h g) \<longleftrightarrow> gb_seq_synced g \<or> mh_seq_num h \<noteq> 0"
proof -
  show "run_inv C N (if start = 0 then mh_seq_num h else start) ms D (sync_first h g)"
  proof (cases "gb_seq_synced g \<or> mh_seq_num h = 0")
    case True
    then show ?thesis using assms(1) by (auto simp: sync_first_def run_inv_def)
  next
    case False
    then show ?thesis using assms
      by (auto simp: sync_first_def run_inv_def untouched_def seq_inv_def slots_ok_def feed_slice_def present_def)
  qed
qed (simp add: sync_first_def)

lemma ingest_run_inv:
  assumes inv: "run_inv C N start ms D g" and r: "ready sess (Datagram payload now) g"
    and ff: "from_feed C N sess (Datagram payload now)" and i: "ingest payload now g = (n, c, g')"
  shows "run_inv C N (if start = 0 then input_seq sess (Datagram payload now) else start)
      (ms @ input_msgs sess (Datagram payload now)) (D @ c) g' \<and>
    (gb_session_synced g' \<longrightarrow> gb_session g' = sess) \<and> (gb_session_synced g \<longrightarrow> gb_session_synced g') \<and> gb_cfg g' = gb_cfg g"
proof (cases "mold_header_parse payload")
  case None
  then show ?thesis using inv i r by (auto simp: ingest_def ready_def)
next
  case (Some h)
  show ?thesis
  proof (cases "mh_session h = sess")
    case False
    then have s: "gb_session_synced g" "\<not> gc_accept_session_change (gb_cfg g)" "gb_session g = sess"
      using r Some by (auto simp: ready_def)
    have "gb_core g' = gb_core g" "c = []" using s False i Some
      by (auto simp: ingest_def check_session_def Let_def gb_core_def env_def)
    moreover have "run_inv C N start ms D g" by (rule inv)
    ultimately show ?thesis using run_inv_core [of g' g "[]" C N start ms D] gb_coreD [of g' g] s Some False
      by (cases "start = 0") simp_all
  next
    case True
    define g0 where "g0 = g\<lparr>gb_session := sess, gb_session_synced := True\<rparr>"
    have g0: "check_session h g = (True, [], g0)"
      using r True unfolding ready_def g0_def check_session_def by (cases "gb_session_synced g") auto
    have inv0: "run_inv C N start ms D g0"
      using inv run_inv_cong [of g0 g C N start ms D] by (simp add: g0_def)
    have pf: "packet_from_feed C N h payload" using ff Some True by simp
    let ?start = "if start = 0 then mh_seq_num h else start" and ?g1 = "sync_first h g0"
    have "mh_seq_num h \<le> N" using pf by (simp add: packet_from_feed_def)
    note inv1 = sync_first_inv [OF inv0 this]
    have e1: "gb_session ?g1 = sess" "gb_session_synced ?g1" "gb_cfg ?g1 = gb_cfg g" by (simp_all add: sync_first_def g0_def)
    have "run_inv C N ?start (ms @ input_msgs sess (Datagram payload now)) (D @ c) g' \<and> env g' = env ?g1"
    proof (cases "is_data h")
      case False
      then obtain c2 where k: "ingest_control h now ?g1 = (c2, g')" "c = c2"
        using i Some g0 by (auto simp: ingest_def is_data_def split: prod.splits)
      from quiet_ingest_control [OF k(1)] have "gb_core g' = gb_core ?g1" "messages_of c2 = []" by simp_all
      from run_inv_core [OF this inv1(1)] gb_coreD(4) [OF this(1)] False Some True show ?thesis by (simp add: k(2))
    next
      case d: True
      then obtain n' where k: "ingest_data h payload now ?g1 = (n', c, g')"
        using i Some g0 by (auto simp: ingest_def is_data_def split: prod.splits)
      have sy: "gb_seq_synced ?g1" using inv1(2) pf d by (simp add: packet_from_feed_def)
      then have "seq_inv C N ?start ms D ?g1" "drained ?g1" "?start \<noteq> 0" using inv1(1) by (simp_all add: run_inv_def)
      from ingest_data_inv [OF this(1,2) sy pf d k] this(3) sy Some True d show ?thesis
        by (simp add: run_inv_def env_def)
    qed
    with e1 Some True show ?thesis by (cases "start = 0"; cases "is_data h") (simp_all add: env_def)
  qed
qed

lemma gb_run_inv:
  assumes "gb_run ins g = (c, g')" "run_inv C N start ms D g" "\<forall>i\<in>set ins. ready sess i g \<and> from_feed C N sess i"
    "gb_session_synced g \<longrightarrow> gb_session g = sess"
  shows "run_inv C N (first_seq sess start ins) (ms @ arrived sess ins) (D @ c) g' \<and> (gb_session_synced g' \<longrightarrow> gb_session g' = sess)"
  using assms
proof (induction ins arbitrary: g c start ms D)
  case Nil
  then show ?case by (simp add: arrived_def)
next
  case (Cons i "is")
  obtain c1 g1 where s: "gb_step i g = (c1, g1)" by force
  obtain c2 where run: "gb_run is g1 = (c2, g')" "c = c1 @ c2" using Cons.prems(1) s by (auto split: prod.splits)
  have st: "run_inv C N (if start = 0 then input_seq sess i else start) (ms @ input_msgs sess i) (D @ c1) g1 \<and>
      (gb_session_synced g1 \<longrightarrow> gb_session g1 = sess) \<and> (gb_session_synced g \<longrightarrow> gb_session_synced g1) \<and> gb_cfg g1 = gb_cfg g"
  proof (cases i)
    case (Datagram payload now)
    then obtain n where "ingest payload now g = (n, c1, g1)" using s by (auto split: prod.splits)
    from ingest_run_inv [OF Cons.prems(2) _ _ this, of sess] Cons.prems(3) show ?thesis unfolding Datagram by (metis list.set_intros(1))
  next
    case (Tick now)
    then have "check_gap_timeout now g = (c1, g1)" using s by (simp add: gb_tick_def)
    from quiet_check_gap_timeout [OF this] have q: "gb_core g1 = gb_core g" "messages_of c1 = []" by simp_all
    from run_inv_core [OF q Cons.prems(2)] gb_coreD [OF q(1)] Cons.prems(3) show ?thesis by (cases "start = 0") (simp_all add: Tick ready_def)
  qed
  have "\<forall>i\<in>set is. ready sess i g1 \<and> from_feed C N sess i" using Cons.prems(3) st by (auto simp: ready_def)
  from Cons.IH [OF run(1) conjunct1 [OF st] this] st show ?case by (simp add: run(2) arrived_def)
qed

section \<open>In order, once, complete\<close>

lemma init_run_inv:
  assumes "gc_expected_first_seq cfg \<le> N"
  shows "run_inv C N (gc_expected_first_seq cfg) [] [] (gap_buffer_init cfg retx)"
  using assms by (simp add: gap_buffer_init_def reset_sequence_state_def run_inv_def untouched_def seq_inv_def slots_ok_def
    feed_slice_def free_slot_def gb_stats_zero_def present_def)

text \<open>
  The hypotheses of a run: the inputs are the feed's, strays come only once the session is pinned, and
  the configuration fits the feed.
\<close>

definition feed_run :: "(u64 \<Rightarrow> u8 list) \<Rightarrow> u64 \<Rightarrow> u8 list \<Rightarrow> gb_config \<Rightarrow> gb_input list \<Rightarrow> bool" where
  "feed_run C N sess cfg ins \<longleftrightarrow>
    (\<forall>i\<in>set ins. from_feed C N sess i \<and> (is_stray sess i \<longrightarrow> \<not> is_blank (gc_session cfg) \<and> \<not> gc_accept_session_change cfg)) \<and>
    (is_blank (gc_session cfg) \<or> gc_session cfg = sess) \<and> gc_expected_first_seq cfg \<le> N"

lemma feed_run_inv:
  assumes "feed_run C N sess cfg ins" "gb_run ins (gap_buffer_init cfg retx) = (c, g)"
  shows "run_inv C N (first_seq sess (gc_expected_first_seq cfg) ins) (arrived sess ins) c g"
    "gb_session_synced g \<longrightarrow> gb_session g = sess"
proof -
  have "\<forall>i\<in>set ins. ready sess i (gap_buffer_init cfg retx) \<and> from_feed C N sess i"
    "gb_session_synced (gap_buffer_init cfg retx) \<longrightarrow> gb_session (gap_buffer_init cfg retx) = sess"
    "gc_expected_first_seq cfg \<le> N"
    using assms(1) by (auto simp: feed_run_def ready_def gap_buffer_init_def reset_sequence_state_def)
  from gb_run_inv [OF assms(2) init_run_inv [OF this(3)] this(1,2)]
  show "run_inv C N (first_seq sess (gc_expected_first_seq cfg) ins) (arrived sess ins) c g"
    "gb_session_synced g \<longrightarrow> gb_session g = sess" by simp_all
qed

lemma sequenced:
  assumes "run_inv C N start ms c g"
  shows "delivered c = feed_slice C start (gb_next_expected g)" "start \<le> gb_next_expected g" "gb_next_expected g \<le> N"
    "length ms < 2 ^ 64 \<Longrightarrow> overflows g = 0 \<Longrightarrow> \<forall>s. start \<le> s \<and> s < to \<longrightarrow> s \<in> fst ` set ms \<Longrightarrow> to \<le> gb_next_expected g"
    "fits C N start \<Longrightarrow> overflows g = 0"
proof -
  show "fits C N start \<Longrightarrow> overflows g = 0" using assms by (auto simp: run_inv_def seq_inv_def untouched_def split: if_splits)
  show d: "delivered c = feed_slice C start (gb_next_expected g)" "start \<le> gb_next_expected g" "gb_next_expected g \<le> N"
    using assms by (auto simp: run_inv_def seq_inv_def untouched_def feed_slice_def split: if_splits)
  assume l: "length ms < 2 ^ 64" "overflows g = 0" and all: "\<forall>s. start \<le> s \<and> s < to \<longrightarrow> s \<in> fst ` set ms"
  show "to \<le> gb_next_expected g"
  proof (rule ccontr)
    assume "\<not> to \<le> gb_next_expected g"
    then have "gb_next_expected g < to" by simp
    then have a: "gb_next_expected g \<in> fst ` set ms" using all d(2) by blast
    then have "gb_seq_synced g" using assms by (auto simp: run_inv_def split: if_splits)
    then have "seq_inv C N start ms c g" "drained g" using assms by (auto simp: run_inv_def)
    with a l d(2) show False unfolding seq_inv_def by auto
  qed
qed

end
