(* ===== verification/Gap_Recovery.thy ===== *)
theory Gap_Recovery
  imports Gap_Order
begin

text \<open>
  Gap tracking of \<^verbatim>\<open>feed::GapBuffer\<close> under any bytes at all: a gap is open only while something is
  missing below the high-water mark, a request names exactly the missing run, and the datagram that
  answers it moves the buffer past the run.
\<close>

section \<open>An open gap has something missing\<close>

definition gap_ok :: "gap_buffer \<Rightarrow> bool" where
  "gap_ok g \<longleftrightarrow> (gb_in_gap g \<longrightarrow> gb_seq_synced g \<and> gb_next_expected g < gb_high_water g)"

lemma gap_ok_init [simp]: "gap_ok (gap_buffer_init cfg retx)"
  by (simp add: gap_ok_def gap_buffer_init_def reset_sequence_state_def)

lemma gap_ok_high_water: "gap_ok g \<Longrightarrow> gap_ok (note_high_water n g)"
  by (auto simp: gap_ok_def note_high_water_def)

lemma gap_ok_check_session: "check_session h g = (b, c, g') \<Longrightarrow> gap_ok g \<Longrightarrow> gap_ok g'"
  by (auto simp: check_session_def gap_ok_def Let_def reset_sequence_state_def split: if_splits)

lemma gap_ok_sync_first: "gap_ok g \<Longrightarrow> gap_ok (sync_first h g)"
  by (auto simp: sync_first_def gap_ok_def)

lemma gap_ok_timeout: "check_gap_timeout t g = (c, g') \<Longrightarrow> gap_ok g \<Longrightarrow> gap_ok g'"
  by (auto simp: check_gap_timeout_def gap_ok_def Let_def split: if_splits)

lemma gap_ok_handle_gap: "handle_gap f t g = (c, g') \<Longrightarrow> gb_seq_synced g \<Longrightarrow> gb_next_expected g < gb_high_water g \<Longrightarrow> gap_ok g'"
  by (auto simp: handle_gap_def gap_ok_def Let_def split: if_splits)

lemma gap_ok_update: "update_gap_state t g = (c, g') \<Longrightarrow> gb_seq_synced g \<Longrightarrow> gap_ok g'"
  by (auto simp: update_gap_state_def gap_ok_def not_le split: if_splits dest: gap_ok_handle_gap [unfolded gap_ok_def])

lemma gap_ok_eos: "on_end_of_session h g = (c, g') \<Longrightarrow> gap_ok g \<Longrightarrow> gap_ok g'"
  by (auto simp: on_end_of_session_def gap_ok_def split: if_splits)

lemma gap_ok_control:
  assumes "ingest_control h t g = (c, g')" "gap_ok g"
  shows "gap_ok g'"
  using assms(1)
proof (rule ingest_control_split)
  let ?g1 = "count_heartbeat h g"
  let ?ga = "note_high_water (mh_seq_num h) ?g1"
  fix c2 g2 c3 g3 c4
  assume x: "(let ga = ?ga in
      if gb_seq_synced g then if mh_seq_num h > gb_next_expected ga then handle_gap (mh_seq_num h) t ga else ([], ga)
      else ([], ?g1)) = (c2, g2)"
    and y: "(if is_end_of_session h then on_end_of_session h g2 else ([], g2)) = (c3, g3)"
    and z: "check_gap_timeout t g3 = (c4, g')"
  have g1: "gap_ok ?g1" using assms(2) by (simp add: count_heartbeat_def gap_ok_def)
  have hw: "mh_seq_num h \<le> gb_high_water ?ga" "gb_seq_synced ?ga = gb_seq_synced g"
    by (auto simp: note_high_water_def count_heartbeat_def)
  have "gap_ok g2" using x gap_ok_handle_gap [of "mh_seq_num h" t ?ga c2 g2] hw g1 gap_ok_high_water [OF g1]
    by (auto simp: Let_def split: if_splits intro: less_le_trans)
  then have "gap_ok g3" using y gap_ok_eos by (auto split: if_splits)
  with z show ?thesis by (rule gap_ok_timeout)
qed

lemma env_walk: "walk_packet n s cursor t g = (c, g') \<Longrightarrow> env g' = env g"
  by (drule fixed_walk) (simp add: fixed_def)

lemma gap_ok_data:
  assumes "ingest_data h payload t g = (n, c, g')" "gap_ok g"
  shows "gap_ok g'"
proof (cases "gb_seq_synced g")
  case False
  then show ?thesis using assms by (auto simp: ingest_data_def gap_ok_def Let_def)
next
  case True
  from True assms(1) show ?thesis
  proof (cases rule: ingest_data_cases)
    case (duplicate g3)
    then have "gap_ok g3" using assms(2) gb_coreD [OF duplicate(2)] by (auto simp: gap_ok_def)
    with duplicate(5) show ?thesis by (rule gap_ok_timeout)
  next
    case (taken c3 g3 c4 g4 c5 g5 c6)
    have "gb_seq_synced g4" using True env_walk [OF taken(3)] taken(1) by (simp add: gb_core_def env_def)
    from gap_ok_update [OF taken(4) this] taken(5) show ?thesis by (blast intro: gap_ok_timeout)
  qed
qed

lemma gap_ok_ingest: "ingest payload t g = (n, c, g') \<Longrightarrow> gap_ok g \<Longrightarrow> gap_ok g'"
  by (auto simp: ingest_def Let_def split: option.splits prod.splits if_splits
    dest!: gap_ok_check_session gap_ok_control gap_ok_data intro: gap_ok_sync_first)

lemma gap_ok_run: "gb_run ins g = (c, g') \<Longrightarrow> gap_ok g \<Longrightarrow> gap_ok g'"
proof (induction ins arbitrary: g c)
  case (Cons i "is")
  obtain c1 g1 where s: "gb_step i g = (c1, g1)" by force
  have "gap_ok g1" using s Cons.prems(2) gap_ok_ingest gap_ok_timeout by (cases i) (auto simp: gb_tick_def split: prod.splits)
  with Cons.IH [of g1] Cons.prems(1) s show ?case by (auto split: prod.splits)
qed simp

section \<open>What a request names\<close>

definition next_seqs :: "gap_buffer \<Rightarrow> nat \<Rightarrow> u64" where
  "next_seqs g k = gb_next_expected g + of_nat k"

lemma missing_from_spec:
  "missing_from k s g \<le> k \<and> (\<forall>j < missing_from k s g. \<not> present g (s + of_nat j)) \<and>
    (missing_from k s g < k \<longrightarrow> present g (s + of_nat (missing_from k s g)))"
proof (induction k arbitrary: s)
  case (Suc k)
  show ?case
  proof (cases "present g s")
    case False
    have "\<not> present g (s + of_nat j)" if "j < Suc (missing_from k (s + 1) g)" for j
      using that Suc.IH [of "s + 1"] False by (cases j) (auto simp: algebra_simps)
    with Suc.IH [of "s + 1"] False show ?thesis by (auto simp: algebra_simps)
  qed simp
qed simp

text \<open>The longest run from \<^verbatim>\<open>next_expected_\<close> that a request may name.\<close>

definition request_limit :: "gap_buffer \<Rightarrow> nat" where
  "request_limit g = min (unat (gb_high_water g) - unat (gb_next_expected g)) (unat (gc_max_retransmit_count (gb_cfg g)))"

definition missing_count :: "gap_buffer \<Rightarrow> nat" where
  "missing_count g = missing_from (request_limit g) (gb_next_expected g) g"

lemma unat_missing_run:
  assumes "gb_next_expected g < gb_high_water g"
  shows "missing_run g = of_nat (missing_count g)" "unat (missing_run g) = missing_count g"
    "(ucast (missing_run g) :: u16) = of_nat (missing_count g)"
    "missing_count g \<le> unat (gc_max_retransmit_count (gb_cfg g))"
    "unat (gb_next_expected g) + missing_count g \<le> unat (gb_high_water g)"
proof -
  let ?m = "gc_max_retransmit_count (gb_cfg g)"
  have m: "unat (ucast ?m :: u64) = unat ?m" "unat ?m < 2 ^ 16"
    using unsigned_less [of ?m, where ?'a = nat] by (simp_all add: unsigned_ucast_eq take_bit_nat_eq_self)
  have "unat (min (gb_high_water g - gb_next_expected g) (ucast ?m)) = request_limit g"
    using assms m(1) by (simp add: unat_min request_limit_def unat_sub_le)
  then show r: "missing_run g = of_nat (missing_count g)" by (simp add: missing_run_def Let_def missing_count_def)
  have le: "missing_count g \<le> request_limit g" using missing_from_spec by (simp add: missing_count_def)
  then show b: "missing_count g \<le> unat ?m" by (simp add: request_limit_def)
  show "unat (gb_next_expected g) + missing_count g \<le> unat (gb_high_water g)"
    using le assms unfolding request_limit_def word_less_nat_alt by linarith
  have lt: "missing_count g < 2 ^ 64" using b m(2) by simp
  then show "unat (missing_run g) = missing_count g" unfolding r by (simp add: unsigned_of_nat take_bit_nat_eq_self)
  show "(ucast (missing_run g) :: u16) = of_nat (missing_count g)" unfolding r using lt by (simp add: unsigned_of_nat take_bit_nat_eq_self)
qed

text \<open>A request is due: the first after \<^verbatim>\<open>gap_timeout_ns\<close>, the next ones after \<^verbatim>\<open>retry_interval_ns\<close>.\<close>

definition request_due :: "u64 \<Rightarrow> gap_buffer \<Rightarrow> bool" where
  "request_due now g \<longleftrightarrow> (if gb_gap_last_retx_ns g = 0 then now - gb_gap_detected_at_ns g \<ge> gc_gap_timeout_ns (gb_cfg g)
     else now - gb_gap_last_retx_ns g \<ge> gc_retry_interval_ns (gb_cfg g))"

lemma tick_request:
  assumes ok: "gap_ok g"
  shows "fst (gb_tick now g) = (if gb_in_gap g \<and> request_due now g \<and> gb_retx_set g \<and> missing_count g \<noteq> 0
    then [OnRetransmitRequest \<lparr>rq_session = gb_session g, rq_first_seq = gb_next_expected g, rq_count = of_nat (missing_count g)\<rparr>] else [])"
proof (cases "gb_in_gap g")
  case True
  then have "gb_next_expected g < gb_high_water g" using ok by (simp add: gap_ok_def)
  note m = unat_missing_run [OF this]
  have z: "missing_run g = 0 \<longleftrightarrow> missing_count g = 0" using m(2) by (metis unat_eq_zero)
  show ?thesis using True by (auto simp: gb_tick_def check_gap_timeout_def Let_def request_due_def z m(3))
qed (simp add: gb_tick_def check_gap_timeout_def)

section \<open>The datagram that answers it\<close>

text \<open>Once every number below \<open>s\<close> has been delivered, a packet from \<open>s\<close> on is delivered as it comes.\<close>

lemma seq_inv_forward:
  assumes "seq_inv C N start ms D g" "seq_inv C N start ms' (D @ c) g'"
  shows "gb_next_expected g \<le> gb_next_expected g'"
proof -
  have "length (feed_slice C start (gb_next_expected g)) \<le> length (feed_slice C start (gb_next_expected g'))"
    using assms unfolding seq_inv_def by (metis delivered_simps(7) length_append le_add1)
  moreover have "start \<le> gb_next_expected g" "start \<le> gb_next_expected g'" using assms by (simp_all add: seq_inv_def)
  ultimately show ?thesis by (simp add: feed_slice_def word_le_nat_alt)
qed

lemma walk_forward:
  assumes "walk_packet n s cursor t g = (c, g')" "seq_inv C N start ms D g" "drained g" "s \<le> gb_next_expected g"
    "\<forall>m\<in>set (packet_msgs n s cursor). authentic C N m"
  shows "unat s + length (packet_msgs n s cursor) \<le> unat (gb_next_expected g')"
  using assms
proof (induction n arbitrary: s cursor g c D ms)
  case 0
  then show ?case by (simp add: word_le_nat_alt)
next
  case (Suc n)
  let ?len = "unat (be16 cursor 0)" and ?cur = "drop 2 cursor"
  show ?case
  proof (cases "length cursor < 2 \<or> length ?cur < ?len")
    case True
    then have "packet_msgs (Suc n) s cursor = []" "g' = count_malformed g" using Suc.prems(1) by (auto simp: walk_packet_Suc Let_def split: if_splits)
    then show ?thesis using Suc.prems(4) by (simp add: count_malformed_def word_le_nat_alt)
  next
    case False
    obtain c1 g1 where m: "take_message (s, take ?len ?cur) t g = (c1, g1)" by force
    obtain c2 where w: "walk_packet n (s + 1) (drop ?len ?cur) t g1 = (c2, g')"
      using Suc.prems(1) False m by (auto simp only: walk_packet_Suc Let_def split: prod.splits if_splits)
    have pm: "packet_msgs (Suc n) s cursor = (s, take ?len ?cur) # packet_msgs n (s + 1) (drop ?len ?cur)"
      using False by (simp add: Let_def)
    have a: "authentic C N (s, take ?len ?cur)" using Suc.prems(5) unfolding pm by simp
    from take_message_inv [OF Suc.prems(2,3) a m]
    have i1: "seq_inv C N start (ms @ [(s, take ?len ?cur)]) (D @ c1) g1" "drained g1" by simp_all
    have sN: "s < N" using a by (simp add: authentic_def)
    have "s < gb_next_expected g1"
    proof (cases "s = gb_next_expected g")
      case False
      then show ?thesis using Suc.prems(4) seq_inv_forward [OF Suc.prems(2) i1(1)] by auto
    next
      case True
      then have "delivered c1 \<noteq> []" using m by (auto simp: take_message_def deliver_def Let_def split: prod.splits)
      moreover have "delivered (D @ c1) = feed_slice C start (gb_next_expected g1)" "delivered D = feed_slice C start s" "start \<le> s"
        using i1(1) Suc.prems(2) True by (auto simp: seq_inv_def)
      ultimately have "length (feed_slice C start s) < length (feed_slice C start (gb_next_expected g1))"
        by (metis delivered_simps(7) length_append length_greater_0_conv less_add_same_cancel1)
      then show ?thesis using \<open>start \<le> s\<close> by (simp add: feed_slice_def word_less_nat_alt)
    qed
    then have "s + 1 \<le> gb_next_expected g1" using word_Suc(1) [OF sN] by (simp add: word_le_nat_alt word_less_nat_alt)
    moreover have "\<forall>m\<in>set (packet_msgs n (s + 1) (drop ?len ?cur)). authentic C N m" using Suc.prems(5) unfolding pm by simp
    ultimately have "unat (s + 1) + length (packet_msgs n (s + 1) (drop ?len ?cur)) \<le> unat (gb_next_expected g')"
      by (rule Suc.IH [OF w i1])
    then show ?thesis unfolding pm using word_Suc(1) [OF sN] by simp
  qed
qed

lemma ingest_data_forward:
  assumes inv: "seq_inv C N start ms D g" "drained g" and sy: "gb_seq_synced g"
    and p: "packet_from_feed C N h payload" "is_data h" and i: "ingest_data h payload t g = (n, c, g')"
    and le: "mh_seq_num h \<le> gb_next_expected g"
  shows "unat (mh_seq_num h) + length (data_msgs h payload) \<le> unat (gb_next_expected g')"
  using sy i
proof (cases rule: ingest_data_cases)
  case (duplicate g3)
  have "length (packet_msgs k s cur) \<le> k" for k s cur by (induction k arbitrary: s cur) (simp_all add: Let_def)
  then have "length (data_msgs h payload) \<le> unat (mh_msg_count h)" by (simp add: data_msgs_def)
  moreover have "gb_next_expected g' = gb_next_expected g"
    using gb_coreD(2) [OF duplicate(2)] gb_coreD(2) [OF conjunct1 [OF quiet_check_gap_timeout [OF duplicate(5)]]] by simp
  ultimately show ?thesis using duplicate(1) packet_end [OF p] by (simp add: word_le_nat_alt)
next
  case (taken c3 g3 c4 g4 c5 g5 c6)
  have i3: "seq_inv C N start ms (D @ c3) g3" "drained g3" using seq_inv_core [OF taken(1,2)] inv by simp_all
  have "mh_seq_num h \<le> gb_next_expected g3" using le gb_coreD(2) [OF taken(1)] by simp
  from walk_forward [OF taken(3) i3 this from_feed_authentic [OF p, unfolded data_msgs_def], folded data_msgs_def]
  have "unat (mh_seq_num h) + length (data_msgs h payload) \<le> unat (gb_next_expected g4)" .
  moreover have "gb_next_expected g' = gb_next_expected g4"
    using gb_coreD(2) [OF conjunct1 [OF quiet_update_gap_state [OF taken(4)]]]
      gb_coreD(2) [OF conjunct1 [OF quiet_check_gap_timeout [OF taken(5)]]] by simp
  ultimately show ?thesis by simp
qed

lemma reply_forward:
  assumes inv: "run_inv C N start ms D g" and sy: "gb_seq_synced g" and se: "gb_session_synced g \<longrightarrow> gb_session g = sess"
    and h: "mold_header_parse payload = Some h" "mh_session h = sess" "is_data h" "packet_from_feed C N h payload"
    and le: "mh_seq_num h \<le> gb_next_expected g" and st: "gb_step (Datagram payload t) g = (c, g')"
  shows "unat (mh_seq_num h) + length (data_msgs h payload) \<le> unat (gb_next_expected g')"
proof -
  define g0 where "g0 = g\<lparr>gb_session := sess, gb_session_synced := True\<rparr>"
  have cs: "check_session h g = (True, [], g0)"
    using se h(2) by (cases "gb_session_synced g") (auto simp: check_session_def g0_def)
  have s0: "sync_first h g0 = g0" using sy by (simp add: sync_first_def g0_def)
  have inv0: "run_inv C N start ms D g0" using inv run_inv_cong [of g0 g C N start ms D] by (simp add: g0_def)
  have sy0: "gb_seq_synced g0" "mh_seq_num h \<le> gb_next_expected g0" using sy le by (simp_all add: g0_def)
  obtain n where d: "ingest_data h payload t g0 = (n, c, g')"
    using st h(3) by (auto simp: ingest_def h(1) cs s0 is_data_def split: prod.splits)
  from inv0 sy0(1) have "seq_inv C N start ms D g0" "drained g0" by (simp_all add: run_inv_def)
  from ingest_data_forward [OF this sy0(1) h(4,3) d sy0(2)] show ?thesis .
qed

lemma missing_run_exact:
  assumes "gb_next_expected g < gb_high_water g"
  shows "missing_count g \<le> unat (gc_max_retransmit_count (gb_cfg g))"
    "unat (gb_next_expected g) + missing_count g \<le> unat (gb_high_water g)"
    "\<forall>j < missing_count g. \<not> present g (next_seqs g j)"
    "missing_count g = unat (gc_max_retransmit_count (gb_cfg g)) \<or>
     unat (gb_next_expected g) + missing_count g = unat (gb_high_water g) \<or> present g (next_seqs g (missing_count g))"
proof -
  note M = unat_missing_run(4,5) [OF assms]
  show "missing_count g \<le> unat (gc_max_retransmit_count (gb_cfg g))"
    "unat (gb_next_expected g) + missing_count g \<le> unat (gb_high_water g)" by (rule M(1), rule M(2))
  note F = missing_from_spec [of "request_limit g" "gb_next_expected g" g, folded missing_count_def]
  show "\<forall>j < missing_count g. \<not> present g (next_seqs g j)" using F by (simp add: next_seqs_def)
  show "missing_count g = unat (gc_max_retransmit_count (gb_cfg g)) \<or>
     unat (gb_next_expected g) + missing_count g = unat (gb_high_water g) \<or> present g (next_seqs g (missing_count g))"
  proof (cases "missing_count g < request_limit g")
    case True
    then show ?thesis using F by (simp add: next_seqs_def)
  next
    case False
    then have "missing_count g = request_limit g" using F by simp
    moreover have "unat (gb_next_expected g) < unat (gb_high_water g)" using assms by (simp add: word_less_nat_alt)
    ultimately show ?thesis unfolding request_limit_def by linarith
  qed
qed

section \<open>The marks of a session\<close>

text \<open>
  While every packet of the session names no number above \<open>E\<close> and its end names \<open>E\<close>: the high-water mark
  stays at or below it, and once the end was seen (\<open>b\<close>: it was sent to us) it is recorded as \<open>E\<close>.
\<close>

definition marks_ok :: "u64 \<Rightarrow> bool \<Rightarrow> gap_buffer \<Rightarrow> bool" where
  "marks_ok E b g \<longleftrightarrow> gb_high_water g \<le> E \<and> (gb_eos_seen g \<longrightarrow> gb_eos_seq g = E) \<and> (b \<longrightarrow> gb_eos_seen g)"

lemma marks_cong:
  assumes "gb_high_water g' = gb_high_water g" "gb_eos_seen g' = gb_eos_seen g" "gb_eos_seq g' = gb_eos_seq g"
  shows "marks_ok E b g' = marks_ok E b g"
  using assms by (simp add: marks_ok_def)

lemma marks_fixed: "fixed g' = fixed g \<Longrightarrow> marks_ok E b g' = marks_ok E b g"
  by (rule marks_cong) (simp_all add: fixed_def)

lemma marks_handle_gap: "handle_gap f t g = (c, g') \<Longrightarrow> marks_ok E b g' = marks_ok E b g"
  by (rule marks_cong) (auto simp: handle_gap_def Let_def split: if_splits)

lemma marks_timeout: "check_gap_timeout t g = (c, g') \<Longrightarrow> marks_ok E b g' = marks_ok E b g"
  by (rule marks_cong) (auto simp: check_gap_timeout_def Let_def split: if_splits)

lemma marks_update: "update_gap_state t g = (c, g') \<Longrightarrow> marks_ok E b g' = marks_ok E b g"
  by (auto simp: update_gap_state_def marks_ok_def split: if_splits dest!: marks_handle_gap [of _ _ _ _ _ E b, unfolded marks_ok_def])

lemma marks_high_water: "marks_ok E b g \<Longrightarrow> s \<le> E \<Longrightarrow> marks_ok E b (note_high_water s g)"
  by (auto simp: marks_ok_def note_high_water_def)

lemma marks_control:
  assumes "ingest_control h t g = (c, g')" "marks_ok E b g" "mh_seq_num h \<le> E" "is_end_of_session h \<longrightarrow> mh_seq_num h = E"
  shows "marks_ok E (b \<or> is_end_of_session h) g'"
  using assms(1)
proof (rule ingest_control_split)
  let ?g1 = "count_heartbeat h g"
  let ?ga = "note_high_water (mh_seq_num h) ?g1"
  fix c2 g2 c3 g3 c4
  assume x: "(let ga = ?ga in
      if gb_seq_synced g then if mh_seq_num h > gb_next_expected ga then handle_gap (mh_seq_num h) t ga else ([], ga)
      else ([], ?g1)) = (c2, g2)"
    and y: "(if is_end_of_session h then on_end_of_session h g2 else ([], g2)) = (c3, g3)"
    and z: "check_gap_timeout t g3 = (c4, g')"
  have g1: "marks_ok E b ?g1" using assms(2) by (simp add: count_heartbeat_def marks_ok_def)
  have "marks_ok E b ?ga" by (rule marks_high_water [OF g1 assms(3)])
  then have "marks_ok E b g2" using x g1 marks_handle_gap [of "mh_seq_num h" t ?ga c2 g2 E b] by (auto simp: Let_def split: if_splits)
  then have "marks_ok E (b \<or> is_end_of_session h) g3"
    using y assms(4) by (auto simp: on_end_of_session_def marks_ok_def split: if_splits)
  then show ?thesis using marks_timeout [OF z] by simp
qed

lemma marks_data:
  assumes "ingest_data h payload t g = (n, c, g')" "marks_ok E b g" "mh_seq_num h + ucast (mh_msg_count h) \<le> E"
  shows "marks_ok E b g'"
proof (cases "gb_seq_synced g")
  case False
  then show ?thesis using assms by (auto simp: ingest_data_def marks_ok_def Let_def)
next
  case True
  from True assms(1) show ?thesis
  proof (cases rule: ingest_data_cases)
    case (duplicate g3)
    have "gb_high_water g3 \<le> E" using duplicate(6) assms(2,3) by (auto simp: marks_ok_def intro: order.trans)
    then have "marks_ok E b g3" using assms(2) duplicate(7,8) by (simp add: marks_ok_def)
    then show ?thesis using marks_timeout [OF duplicate(5)] by simp
  next
    case (taken c3 g3 c4 g4 c5 g5 c6)
    have "gb_high_water g3 \<le> E" using taken(7) assms(2,3) by (auto simp: marks_ok_def intro: order.trans)
    then have "marks_ok E b g3" using assms(2) taken(8,9) by (simp add: marks_ok_def)
    then show ?thesis using marks_fixed [OF fixed_walk [OF taken(3)]] marks_update [OF taken(4)] marks_timeout [OF taken(5)] by simp
  qed
qed

text \<open>A packet of the session, or nothing that the buffer follows.\<close>

definition within_session :: "u64 \<Rightarrow> mold_header \<Rightarrow> bool" where
  "within_session E h \<longleftrightarrow> mh_seq_num h \<le> E \<and> (is_end_of_session h \<longrightarrow> mh_seq_num h = E) \<and>
    (is_data h \<longrightarrow> mh_seq_num h + ucast (mh_msg_count h) \<le> E)"

lemma marks_step:
  assumes "gb_step (Datagram payload t) g = (c, g')" "marks_ok E b g" "mold_header_parse payload = Some h" "mh_session h = sess"
    "gb_session_synced g \<longrightarrow> gb_session g = sess" "within_session E h"
  shows "marks_ok E (b \<or> is_end_of_session h) g'"
proof -
  define g0 where "g0 = g\<lparr>gb_session := sess, gb_session_synced := True\<rparr>"
  have cs: "check_session h g = (True, [], g0)"
    using assms(4,5) by (cases "gb_session_synced g") (auto simp: check_session_def g0_def)
  let ?g1 = "sync_first h g0"
  have m1: "marks_ok E b ?g1" using assms(2,6) by (simp add: sync_first_def g0_def marks_ok_def within_session_def)
  show ?thesis
  proof (cases "is_data h")
    case True
    then obtain n where d: "ingest_data h payload t ?g1 = (n, c, g')"
      using assms(1,3) cs by (auto simp: ingest_def is_data_def split: prod.splits)
    have "\<not> is_end_of_session h" using True by (simp add: is_data_def)
    with marks_data [OF d m1] assms(6) True show ?thesis by (simp add: within_session_def)
  next
    case False
    then have "ingest_control h t ?g1 = (c, g')"
      using assms(1,3) cs by (auto simp: ingest_def is_data_def split: prod.splits)
    from marks_control [OF this m1] assms(6) show ?thesis by (simp add: within_session_def)
  qed
qed

end
