(* ===== verification/Feed_Pipeline.thy ===== *)
theory Feed_Pipeline
  imports Pipeline_Stream Gap_Buffer
begin

text \<open>
  \<^verbatim>\<open>tools/run_feed_pipeline.cpp\<close>: datagrams through the gap buffer and the adapter into the pipeline.
  The buffer and the adapter belong to the control thread, so what they hand to the pipeline is a
  function of the datagrams and their receive times; the submissions then interleave with the engine
  and the drain thread.
\<close>

section \<open>The program\<close>

text \<open>\<^verbatim>\<open>ItchAdapter::attach\<close> makes the adapter the buffer's message callback.\<close>

definition adapter_calls :: "itch_adapter \<Rightarrow> gb_call list \<Rightarrow> (md_msg \<times> u64) list \<times> itch_adapter" where
  "adapter_calls ia cs = on_mold_messages ia (List.map_filter (\<lambda>c. case c of OnMessage m \<Rightarrow> Some m | _ \<Rightarrow> None) cs)"

text \<open>The loop from packet \<open>k\<close> on; the list has the receive times of the packets still to come.\<close>

fun feed_loop :: "nat \<Rightarrow> u64 list \<Rightarrow> gap_buffer \<Rightarrow> itch_adapter \<Rightarrow> (md_msg \<times> u64) list" where
  "feed_loop k [] gb ia = []"
| "feed_loop k (recv # recvs) gb ia =
    (let (n, cs, gb1) = ingest (feed_packet k) recv gb; (out, ia1) = adapter_calls ia cs
     in out @ feed_loop (Suc k) recvs gb1 ia1)"

text \<open>\<open>fd\<close> is what opening the log returns; the exit code and the pipeline at the end.\<close>

inductive run_feed_pipeline :: "int \<Rightarrow> u64 list \<Rightarrow> pipe_act list \<Rightarrow> int \<Rightarrow> pipeline \<Rightarrow> bool" for fd recvs where
  feed_not_started: "pipeline_start (pipeline_init 1) fd = (False, p) \<Longrightarrow> run_feed_pipeline fd recvs [] 1 p"
| feed_done: "pipeline_start (pipeline_init 1) fd = (True, p1) \<Longrightarrow>
    submit_timed p1 (feed_loop 0 recvs (gap_buffer_init gb_config_default False) (adapter_init 1)) as1 p2 \<Longrightarrow>
    wait_until_drained (of_nat (length recvs)) p2 as2 c p3 \<Longrightarrow> pipeline_stop p3 as3 p4 \<Longrightarrow>
    run_feed_pipeline fd recvs (as1 @ as2 @ as3) 0 p4"

inductive_cases run_feed_pipelineE: "run_feed_pipeline fd recvs as ex p"

section \<open>A packet in its turn\<close>

text \<open>Nothing buffered, nothing missing.\<close>

definition clear :: "gap_buffer \<Rightarrow> bool" where
  "clear g \<longleftrightarrow> gb_seq_synced g \<and> \<not> gb_in_gap g \<and> gb_high_water g = gb_next_expected g \<and> (\<forall>i. \<not> bm_occupied (gb_slots g i))"

lemma ingest_data_in_turn:
  assumes c: "clear g" and h: "mh_seq_num h = gb_next_expected g" "mh_msg_count h = 1" "unat (gb_next_expected g) + 1 < 2 ^ 64"
    and p: "drop kMoldHeaderSize payload = put_be16 len @ body" "length body = unat len"
  shows "\<exists>g'. ingest_data h payload t g = (1, [OnMessage \<lparr>mm_length = unat len, mm_body = body, mm_seq_num = gb_next_expected g, mm_recv_ns = t\<rparr>], g') \<and>
    clear g' \<and> gb_next_expected g' = gb_next_expected g + 1 \<and> gb_session g' = gb_session g \<and> gb_session_synced g' = gb_session_synced g"
proof -
  let ?e = "gb_next_expected g + 1"
  have e: "unat ?e = unat (gb_next_expected g) + 1" using h(3) unat_add_no_wrap [of "gb_next_expected g" 1] by simp
  then have lt: "gb_next_expected g < ?e" "\<not> ?e \<le> gb_next_expected g" by (simp_all add: word_less_nat_alt word_le_nat_alt)
  have cnt: "ucast (mh_msg_count h) = (1 :: u64)" "unat (mh_msg_count h) = Suc 0" by (simp_all add: h(2))
  have b: "be16 (put_be16 len @ body) 0 = len" using be16_append [of "[]" len body] by simp
  define g2 where "g2 = note_high_water ?e (g\<lparr>gb_stats_of := (gb_stats_of g)\<lparr>gs_packets := gs_packets (gb_stats_of g) + 1,
    gs_messages := gs_messages (gb_stats_of g) + 1\<rparr>\<rparr>)"
  have g2: "gb_high_water g2 = ?e" "gb_next_expected g2 = gb_next_expected g" "\<not> gb_in_gap g2" "gb_seq_synced g2"
    "\<not> bm_occupied (gb_slots g2 i)" "gb_session g2 = gb_session g" "gb_session_synced g2 = gb_session_synced g" for i
    using c lt by (simp_all add: g2_def note_high_water_def clear_def)
  define g4 where "g4 = g2\<lparr>gb_stats_of := (gb_stats_of g2)\<lparr>gs_delivered := gs_delivered (gb_stats_of g2) + 1\<rparr>, gb_next_expected := ?e\<rparr>"
  have d: "deliver (gb_next_expected g) body len t g2 = ([OnMessage \<lparr>mm_length = unat len, mm_body = body, mm_seq_num = gb_next_expected g, mm_recv_ns = t\<rparr>], g4)"
    using g2 by (simp add: deliver_def present_def g4_def Let_def)
  have np: "\<not> present g4 (gb_next_expected g4)" using g2(5) by (simp add: present_def g4_def)
  have f: "flush_buffer g4 = ([], g4)" by (simp add: flush_buffer.simps [of g4] np Let_def)
  have w: "walk_packet (Suc 0) (gb_next_expected g) (put_be16 len @ body) t g2 =
      ([OnMessage \<lparr>mm_length = unat len, mm_body = body, mm_seq_num = gb_next_expected g, mm_recv_ns = t\<rparr>], g4)"
    using p(2) g2(2) by (simp add: Let_def b d f)
  have u: "update_gap_state t g4 = ([], g4\<lparr>gb_in_gap := False\<rparr>)" using g2(1) by (simp add: update_gap_state_def g4_def)
  have v: "check_gap_timeout t (g4\<lparr>gb_in_gap := False\<rparr>) = ([], g4\<lparr>gb_in_gap := False\<rparr>)" by (simp add: check_gap_timeout_def)
  have "ingest_data h payload t g = (1, [OnMessage \<lparr>mm_length = unat len, mm_body = body, mm_seq_num = gb_next_expected g, mm_recv_ns = t\<rparr>],
      g4\<lparr>gb_in_gap := False\<rparr>)"
    using c lt g2(2) unfolding ingest_data_def Let_def h(1) cnt p(1) g2_def [symmetric]
    by (simp add: clear_def w u v del: walk_packet.simps)
  moreover have "clear (g4\<lparr>gb_in_gap := False\<rparr>)" using g2 by (simp add: clear_def g4_def)
  ultimately show ?thesis using g2 by (intro exI [of _ "g4\<lparr>gb_in_gap := False\<rparr>"]) (simp add: g4_def)
qed

section \<open>What the pipeline is given\<close>

text \<open>The order of packet \<open>k\<close>, in the engine's units.\<close>

definition feed_order :: "nat \<Rightarrow> md_msg" where
  "feed_order k = md_zero\<lparr>md_seq := of_nat (k + 1), md_order_id := of_nat (k + 1), md_symbol := 1,
     md_side := (if even k then Buy else Sell), md_msg_type := NewOrder, md_order_type := Limit,
     md_price := (1000000 + (int (k mod 21) - 10) * 100) * 100, md_qty := of_nat (10 + k mod 20)\<rparr>"

lemma adapter_add:
  assumes "length stock = 8" "tr_sym (ia_tr ia) = s"
  shows "\<exists>ia'. on_mold_message ia \<lparr>mm_length = 36, mm_body = add_body_bytes ref sd shares stock px, mm_seq_num = q, mm_recv_ns = t\<rparr> =
    ([(md_zero\<lparr>md_seq := q, md_order_id := ref, md_price := int (unat px) * 100, md_qty := shares, md_symbol := s,
        md_side := (if sd = ch_B then Buy else Sell), md_msg_type := NewOrder, md_order_type := Limit\<rparr>, t)], ia') \<and> tr_sym (ia_tr ia') = s"
proof -
  let ?b = "add_body_bytes ref sd shares stock px"
  have "?b ! 0 = ch_A" by (simp add: add_body_bytes_def)
  then have "decode_event ?b = Decoded (EvAdd ref sd px shares)" by (simp add: decode_event_def parse_add_body [OF assms(1)])
  then show ?thesis using assms by (simp add: on_mold_message_def on_add_def tr_make_def engine_price_def Let_def)
qed

definition feed_header :: "nat \<Rightarrow> mold_header" where
  "feed_header k = \<lparr>mh_session = replicate 10 ch_space, mh_seq_num = of_nat (k + 1), mh_msg_count = 1\<rparr>"

definition feed_side :: "nat \<Rightarrow> u8" where "feed_side k = (if even k then ch_B else ch_S)"
definition feed_price :: "nat \<Rightarrow> u32" where "feed_price k = 1000000 + ucast (((of_nat k :: u64) mod 21 - 10) * 100)"
definition feed_shares :: "nat \<Rightarrow> u32" where "feed_shares k = ucast (10 + (of_nat k :: u64) mod 20)"

definition feed_body :: "nat \<Rightarrow> u8 list" where
  "feed_body k = add_body_bytes (of_nat (k + 1)) (feed_side k) (feed_shares k) (take 8 (str_bytes ''TEST     '')) (feed_price k)"

lemma even_of_nat_u64: "(of_nat k :: u64) mod 2 = 0 \<longleftrightarrow> even k"
proof -
  have "(of_nat k :: u64) mod 2 = 0 \<longleftrightarrow> even (of_nat k :: u64)" by (simp add: even_iff_mod_2_eq_zero)
  then show ?thesis by simp
qed

lemma unat_mod_of_nat:
  assumes "k < 2 ^ 64" "n < 2 ^ 64"
  shows "unat ((of_nat k :: u64) mod of_nat n) = k mod n"
  using assms by (simp add: unat_mod_distrib unsigned_of_nat take_bit_nat_eq_self)

lemma ucast_of_int_u64: "(ucast (of_int z :: u64) :: u32) = of_int z"
  by (rule bit_word_eqI) (simp add: bit_simps)

lemma feed_values:
  assumes k: "k < 2 ^ 64"
  shows "uint (feed_price k) = 1000000 + (int (k mod 21) - 10) * 100" "feed_shares k = of_nat (10 + k mod 20)"
proof -
  have m: "(of_nat k :: u64) mod of_nat n = of_int (int (k mod n))" if "n < 2 ^ 64" for n
  proof (rule iffD2 [OF word_unat_eq_iff])
    have "k mod n < 2 ^ 64" using k by (meson le_less_trans mod_less_eq_dividend)
    then show "unat ((of_nat k :: u64) mod of_nat n) = unat (of_int (int (k mod n)) :: u64)"
      using unat_mod_of_nat [OF k that] by (simp add: unsigned_of_nat take_bit_nat_eq_self)
  qed
  let ?z = "(int (k mod 21) - 10) * 100"
  have e: "feed_price k = of_int (1000000 + ?z)"
  proof -
    have "((of_nat k :: u64) mod 21 - 10) * 100 = of_int ?z" using m [of 21] by simp
    then show ?thesis unfolding feed_price_def by (simp only: ucast_of_int_u64) simp
  qed
  have "0 \<le> int (k mod 21)" "int (k mod 21) < 21" by simp_all
  then have "0 \<le> 1000000 + ?z" "1000000 + ?z < 2 ^ 32" by simp_all
  then have "take_bit 32 (1000000 + ?z) = 1000000 + ?z" by (rule take_bit_int_eq_self)
  moreover have "uint (of_int (1000000 + ?z) :: u32) = take_bit 32 (1000000 + ?z)"
    by (simp only: uint_word_of_int_eq) simp
  ultimately show "uint (feed_price k) = 1000000 + ?z" unfolding e by simp
  have "10 + (of_nat k :: u64) mod 20 = of_nat (10 + k mod 20)" using m [of 20] by simp
  then show "feed_shares k = of_nat (10 + k mod 20)"
    unfolding feed_shares_def using ucast_of_int_u64 [of "int (10 + k mod 20)"] by (simp only: of_int_of_nat_eq)
qed

lemma feed_packet_eq: "feed_packet k = mold_header_serialise (feed_header k) @ put_be16 36 @ feed_body k"
  by (simp only: feed_packet_def Let_def make_mold_add_packet_eq even_of_nat_u64)
    (simp add: feed_header_def feed_body_def feed_side_def feed_shares_def feed_price_def add.commute)

lemma length_feed_body: "length (feed_body k) = 36"
  unfolding feed_body_def by (rule length_add_body [OF length_test_stock(1)])

lemma feed_packet_read:
  "mold_header_parse (feed_packet k) = Some (feed_header k)" "drop kMoldHeaderSize (feed_packet k) = put_be16 36 @ feed_body k"
proof -
  show "mold_header_parse (feed_packet k) = Some (feed_header k)"
    unfolding feed_packet_eq by (rule header_parse_serialise) (simp add: feed_header_def)
  have "length (mold_header_serialise (feed_header k)) = kMoldHeaderSize"
    by (simp add: mold_header_serialise_def feed_header_def kMoldHeaderSize_def)
  then show "drop kMoldHeaderSize (feed_packet k) = put_be16 36 @ feed_body k" unfolding feed_packet_eq by simp
qed

lemma feed_packet_order:
  assumes "k < 2 ^ 64" "tr_sym (ia_tr ia) = 1"
  shows "\<exists>ia'. on_mold_message ia \<lparr>mm_length = 36, mm_body = feed_body k, mm_seq_num = of_nat (k + 1), mm_recv_ns = t\<rparr> =
    ([(feed_order k, t)], ia') \<and> tr_sym (ia_tr ia') = 1"
proof -
  have e: "feed_order k = md_zero\<lparr>md_seq := of_nat (k + 1), md_order_id := of_nat (k + 1), md_price := int (unat (feed_price k)) * 100,
      md_qty := feed_shares k, md_symbol := 1, md_side := (if feed_side k = ch_B then Buy else Sell), md_msg_type := NewOrder,
      md_order_type := Limit\<rparr>"
    by (simp add: feed_order_def feed_values [OF assms(1)] feed_side_def)
  show ?thesis
    using adapter_add [OF length_test_stock(1) assms(2), of "of_nat (k + 1)" "feed_side k" "feed_shares k" "feed_price k" "of_nat (k + 1)" t]
    by (simp only: e feed_body_def)
qed

section \<open>The loop\<close>

text \<open>The buffer is ready for packet \<open>k\<close>: as constructed, or clear with that number next.\<close>

definition ready_for :: "nat \<Rightarrow> gap_buffer \<Rightarrow> bool" where
  "ready_for k g \<longleftrightarrow> (gb_session_synced g \<longrightarrow> gb_session g = replicate 10 ch_space) \<and>
    clear (sync_first (feed_header k) g) \<and> gb_next_expected (sync_first (feed_header k) g) = of_nat (k + 1)"

lemma ready_init: "ready_for 0 (gap_buffer_init gb_config_default False)"
  by (simp add: ready_for_def gap_buffer_init_def reset_sequence_state_def gb_config_default_def is_blank_def sync_first_def
    feed_header_def clear_def free_slot_def)

lemma ingest_feed_packet:
  assumes r: "ready_for k g" and k: "k + 2 < 2 ^ 64"
  shows "\<exists>g'. ingest (feed_packet k) t g =
      (1, [OnMessage \<lparr>mm_length = 36, mm_body = feed_body k, mm_seq_num = of_nat (k + 1), mm_recv_ns = t\<rparr>], g') \<and> ready_for (Suc k) g'"
proof -
  let ?h = "feed_header k"
  define g0 where "g0 = g\<lparr>gb_session := replicate 10 ch_space, gb_session_synced := True\<rparr>"
  have s: "check_session ?h g = (True, [], g0)"
    using r by (cases "gb_session_synced g") (auto simp: ready_for_def check_session_def feed_header_def g0_def)
  let ?g1 = "sync_first ?h g0"
  have g1: "?g1 = (sync_first ?h g)\<lparr>gb_session := replicate 10 ch_space, gb_session_synced := True\<rparr>"
    by (simp add: sync_first_def g0_def)
  have c: "clear ?g1" "gb_next_expected ?g1 = of_nat (k + 1)" using r unfolding g1 by (simp_all add: ready_for_def clear_def)
  have n: "unat (of_nat (k + 1) :: u64) = k + 1" using k by (simp only: unsigned_of_nat) (simp add: take_bit_nat_eq_self)
  have len: "unat (36 :: u16) = 36" by simp
  from ingest_data_in_turn [OF c(1), of ?h "feed_packet k" 36 "feed_body k" t] obtain g' where
    d: "ingest_data ?h (feed_packet k) t ?g1 =
        (1, [OnMessage \<lparr>mm_length = 36, mm_body = feed_body k, mm_seq_num = of_nat (k + 1), mm_recv_ns = t\<rparr>], g')"
      "clear g'" "gb_next_expected g' = of_nat (k + 1) + 1" "gb_session g' = gb_session ?g1" "gb_session_synced g' = gb_session_synced ?g1"
    using c(2) k n by (auto simp: feed_packet_read(2) length_feed_body feed_header_def)
  have ctl: "\<not> is_heartbeat ?h" "\<not> is_end_of_session ?h"
    by (simp_all add: is_heartbeat_def is_end_of_session_def feed_header_def kMoldHeartbeatCount_def kMoldEndOfSessionCount_def)
  have "ingest (feed_packet k) t g =
      (1, [OnMessage \<lparr>mm_length = 36, mm_body = feed_body k, mm_seq_num = of_nat (k + 1), mm_recv_ns = t\<rparr>], g')"
    using d(1) by (simp add: ingest_def feed_packet_read(1) s ctl)
  moreover have "sync_first (feed_header (Suc k)) g' = g'" using d(2) by (simp add: sync_first_def clear_def)
  then have "ready_for (Suc k) g'" using d(2-5) unfolding g1 by (simp add: ready_for_def add.commute)
  ultimately show ?thesis by blast
qed

lemma feed_loop_eq:
  "ready_for k g \<Longrightarrow> k + length recvs + 1 < 2 ^ 64 \<Longrightarrow> tr_sym (ia_tr ia) = 1 \<Longrightarrow>
    feed_loop k recvs g ia = zip (map feed_order [k..<k + length recvs]) recvs"
proof (induction recvs arbitrary: k g ia)
  case (Cons t ts)
  obtain g' where g': "ingest (feed_packet k) t g =
      (1, [OnMessage \<lparr>mm_length = 36, mm_body = feed_body k, mm_seq_num = of_nat (k + 1), mm_recv_ns = t\<rparr>], g')" "ready_for (Suc k) g'"
    using ingest_feed_packet [OF Cons.prems(1)] Cons.prems(2) by auto
  obtain ia' where ia': "on_mold_message ia \<lparr>mm_length = 36, mm_body = feed_body k, mm_seq_num = of_nat (k + 1), mm_recv_ns = t\<rparr> =
      ([(feed_order k, t)], ia')" "tr_sym (ia_tr ia') = 1"
    using feed_packet_order [of k ia t] Cons.prems(2,3) by (auto simp del: of_nat_add)
  have "feed_loop (Suc k) ts g' ia' = zip (map feed_order [Suc k..<Suc k + length ts]) ts"
    using Cons.IH [OF g'(2) _ ia'(2)] Cons.prems(2) by simp
  then show ?case using g'(1) ia'(1)
    by (simp add: adapter_calls_def List.map_filter_def upt_conv_Cons del: upt_Suc)
qed simp

section \<open>Every run\<close>

lemma zip_feed_orders: "map fst (zip (map feed_order [0..<length recvs]) recvs) = map feed_order [0..<length recvs]"
  by simp

lemma feed_orders_fresh:
  assumes "n + 1 < 2 ^ 64"
  shows "msgs_fresh (start_abooks 1) (map feed_order [0..<n])"
  by (rule numbered_orders_fresh) (use assms in \<open>simp_all add: feed_order_def\<close>)

lemma feed_submissions:
  assumes "length recvs + 1 < 2 ^ 64"
  shows "feed_loop 0 recvs (gap_buffer_init gb_config_default False) (adapter_init 1) = zip (map feed_order [0..<length recvs]) recvs"
  using feed_loop_eq [OF ready_init, of recvs "adapter_init 1"] assms by (simp add: adapter_init_def translator_init_def)

lemma feed_pipeline_delivers:
  assumes run: "run_feed_pipeline fd recvs as ex p" and fd: "fd \<ge> 0" and n: "length recvs + 1 < 2 ^ 64"
  shows "ex = 0" "\<exists>rs. dispatch_all (start_books 1) (map feed_order [0..<length recvs]) = Some (books_of (pp_engine p), rs) \<and>
    inq (pp_engine p) = [] \<and> pipe_inv (start_books 1) p (map feed_order [0..<length recvs]) (run_fills (started 1 fd) as) \<and>
    subseq (map fst (run_fills (started 1 fd) as) @ outq (pp_engine p)) rs \<and>
    (length rs \<le> queue_room \<longrightarrow> map fst (run_fills (started 1 fd) as) @ outq (pp_engine p) = rs)"
proof -
  have s: "unat (1 :: symbol_id) < kMaxSymbols" by (simp add: kMaxSymbols_def)
  have st: "pipeline_start (pipeline_init 1) fd = (True, started 1 fd)" by (rule started_start [OF fd])
  from run obtain as1 p2 c p3 as2 as3 where R: "ex = 0" "as = as1 @ as2 @ as3"
    "submit_timed (started 1 fd) (zip (map feed_order [0..<length recvs]) recvs) as1 p2"
    "wait_until_drained (of_nat (length recvs)) p2 as2 c p3" "pipeline_stop p3 as3 p"
    by (rule run_feed_pipelineE) (use st feed_submissions [OF n] in auto)
  show "ex = 0" by (rule R(1))
  from session_delivers [OF R(3-5) fd s]
  show "\<exists>rs. dispatch_all (start_books 1) (map feed_order [0..<length recvs]) = Some (books_of (pp_engine p), rs) \<and>
    inq (pp_engine p) = [] \<and> pipe_inv (start_books 1) p (map feed_order [0..<length recvs]) (run_fills (started 1 fd) as) \<and>
    subseq (map fst (run_fills (started 1 fd) as) @ outq (pp_engine p)) rs \<and>
    (length rs \<le> queue_room \<longrightarrow> map fst (run_fills (started 1 fd) as) @ outq (pp_engine p) = rs)"
    unfolding R(2) zip_feed_orders .
qed

lemma feed_pipeline_exists:
  assumes fd: "fd \<ge> 0" and n: "length recvs + 1 < 2 ^ 64"
  shows "\<exists>as p. run_feed_pipeline fd recvs as 0 p"
proof -
  have s: "unat (1 :: symbol_id) < kMaxSymbols" by (simp add: kMaxSymbols_def)
  have "msgs_fresh (start_abooks 1) (map fst (zip (map feed_order [0..<length recvs]) recvs))"
    unfolding zip_feed_orders by (rule feed_orders_fresh [OF n])
  from session_returns [OF fd s this] obtain as1 p2 as3 p' where
    R: "submit_timed (started 1 fd) (feed_loop 0 recvs (gap_buffer_init gb_config_default False) (adapter_init 1)) as1 p2"
      "pipeline_stop p2 as3 p'" unfolding feed_submissions [OF n] by blast
  from feed_done [OF started_start [OF fd] R(1) wait_timeout R(2)] show ?thesis by blast
qed

end
