(* ===== verification/Live_Pipeline.thy ===== *)
theory Live_Pipeline
  imports Feed_Pipeline Gap_Order
begin

text \<open>
  \<^verbatim>\<open>tools/run_live_pipeline.cpp\<close>: the multicast receiver's loop feeds the gap buffer, whose messages go
  through the adapter to the pipeline. The callback submits each message once and drops the result.
  What the sockets, the clock, the allocator and \<^verbatim>\<open>std::stoi\<close> return are arguments.
\<close>

section \<open>Arguments and set-up\<close>

record live_args =
  la_group :: string
  la_port :: u16
  la_iface :: string
  la_duration_s :: int
  la_rr_addr :: string

definition arg_or :: "string list \<Rightarrow> nat \<Rightarrow> string \<Rightarrow> string" where
  "arg_or argv i d = (if i < length argv then argv ! i else d)"

text \<open>\<open>argv\<close> is without the program's name; \<open>None\<close> is the exception of \<^verbatim>\<open>std::stoi\<close>, which nobody catches.\<close>

definition parse_live_args :: "(string \<Rightarrow> int option) \<Rightarrow> string list \<Rightarrow> live_args option" where
  "parse_live_args stoi argv = do {
     port \<leftarrow> (if 1 < length argv then map_option of_int (stoi (argv ! 1)) else Some 15001);
     dur \<leftarrow> (if 3 < length argv then stoi (argv ! 3) else Some 10);
     Some \<lparr>la_group = arg_or argv 0 ''239.1.1.1'', la_port = port, la_iface = arg_or argv 2 ''lo'',
       la_duration_s = dur, la_rr_addr = arg_or argv 4 []\<rparr> }"

text \<open>\<^verbatim>\<open>rfind(':')\<close>: the text before and after the last colon.\<close>

fun split_last_colon :: "string \<Rightarrow> (string \<times> string) option" where
  "split_last_colon [] = None"
| "split_last_colon (c # cs) = (case split_last_colon cs of
     Some (a, b) \<Rightarrow> Some (c # a, b)
   | None \<Rightarrow> if c = CHR '':'' then Some ([], cs) else None)"

record live_env =
  lx_fd :: int
  lx_gap_alloc :: bool
  lx_receiver_open :: bool
  lx_retx_open :: bool

definition live_gap_config :: "live_args \<Rightarrow> gb_config" where
  "live_gap_config a = (if la_rr_addr a \<noteq> [] then gb_config_default\<lparr>gc_expected_first_seq := 1\<rparr> else gb_config_default)"

text \<open>What follows the start of the pipeline: whether the program goes on; \<open>None\<close> as above.\<close>

definition live_setup :: "(string \<Rightarrow> int option) \<Rightarrow> live_env \<Rightarrow> live_args \<Rightarrow> bool option" where
  "live_setup stoi lx a =
    (if \<not> lx_gap_alloc lx then Some False
     else if \<not> lx_receiver_open lx then Some False
     else if la_rr_addr a = [] then Some True
     else case split_last_colon (la_rr_addr a) of
       None \<Rightarrow> Some False
     | Some (ip, port) \<Rightarrow> (case stoi port of None \<Rightarrow> None | Some n \<Rightarrow> Some (lx_retx_open lx)))"

section \<open>The receiver's loop\<close>

text \<open>
  One round of \<^verbatim>\<open>MulticastReceiver::run\<close>: the datagram of \<^verbatim>\<open>recv_one\<close> with its kernel timestamp, the
  replies of the retransmission client's \<^verbatim>\<open>poll\<close>, and the clock's readings.
\<close>

record live_round =
  lr_packet :: "(u8 list \<times> u64) option"
  lr_recv_ns :: u64
  lr_replies :: "(u8 list \<times> u64) list"
  lr_now :: u64

definition kTickInterval :: u64 where "kTickInterval = 100000"
definition kMaxDatagramsPerPoll :: nat where "kMaxDatagramsPerPoll = 64"

definition recv_one :: "live_round \<Rightarrow> gb_input list" where
  "recv_one r = (case lr_packet r of None \<Rightarrow> []
     | Some (payload, sw_ns) \<Rightarrow> [Datagram payload (if sw_ns \<noteq> 0 then sw_ns else lr_recv_ns r)])"

definition retx_poll :: "live_round \<Rightarrow> gb_input list" where
  "retx_poll r = map (\<lambda>(payload, t). Datagram payload t) (take kMaxDatagramsPerPoll (lr_replies r))"

fun receiver_run :: "bool \<Rightarrow> u64 \<Rightarrow> live_round list \<Rightarrow> gb_input list" where
  "receiver_run client last_tick [] = []"
| "receiver_run client last_tick (r # rs) =
    recv_one r @ (if client then retx_poll r else []) @
    (if lr_now r - last_tick \<ge> kTickInterval then Tick (lr_now r) # receiver_run client (lr_now r) rs
     else receiver_run client last_tick rs)"

section \<open>The program\<close>

text \<open>Offering messages: each is submitted once, whatever \<^verbatim>\<open>submit_with_ts\<close> returns.\<close>

inductive offer_all :: "pipeline \<Rightarrow> (md_msg \<times> u64) list \<Rightarrow> pipe_act list \<Rightarrow> pipeline \<Rightarrow> bool" where
  offer_end: "offer_all p [] [] p"
| offer_other: "other_turn a \<Longrightarrow> pipe_turn p a = Some p1 \<Longrightarrow> offer_all p1 ms as p' \<Longrightarrow> offer_all p ms (a # as) p'"
| offer_msg: "submit_with_ts p m ts = (ok, p1) \<Longrightarrow> offer_all p1 ms as p' \<Longrightarrow> offer_all p ((m, ts) # ms) (ActSubmit m ts # as) p'"

text \<open>The buffer after the rounds, and what the adapter made of its calls.\<close>

definition live_feed :: "live_args \<Rightarrow> u64 \<Rightarrow> live_round list \<Rightarrow> (md_msg \<times> u64) list \<times> gap_buffer" where
  "live_feed a t0 rounds =
    (let client = la_rr_addr a \<noteq> [];
         (cs, gb) = gb_run (receiver_run client t0 rounds) (gap_buffer_init (live_gap_config a) client)
     in (fst (adapter_calls (adapter_init 1) cs), gb))"

inductive run_live_pipeline :: "(string \<Rightarrow> int option) \<Rightarrow> live_env \<Rightarrow> live_args \<Rightarrow> u64 \<Rightarrow> live_round list \<Rightarrow>
    pipe_act list \<Rightarrow> int \<Rightarrow> pipeline \<Rightarrow> bool" for stoi lx a t0 rounds where
  live_not_started: "pipeline_start (pipeline_init 1) (lx_fd lx) = (False, p) \<Longrightarrow>
    run_live_pipeline stoi lx a t0 rounds [] 1 p"
| live_setup_failed: "pipeline_start (pipeline_init 1) (lx_fd lx) = (True, p1) \<Longrightarrow>
    live_setup stoi lx a = Some False \<Longrightarrow> pipeline_stop p1 as1 p2 \<Longrightarrow> run_live_pipeline stoi lx a t0 rounds as1 1 p2"
| live_done: "pipeline_start (pipeline_init 1) (lx_fd lx) = (True, p1) \<Longrightarrow>
    live_setup stoi lx a = Some True \<Longrightarrow> offer_all p1 (fst (live_feed a t0 rounds)) as1 p2 \<Longrightarrow> pipeline_stop p2 as2 p3 \<Longrightarrow>
    run_live_pipeline stoi lx a t0 rounds (as1 @ as2) 0 p3"

inductive_cases run_live_pipelineE: "run_live_pipeline stoi lx a t0 rounds as 0 p"

section \<open>Every run\<close>

lemma offer_all_run:
  "offer_all p ms as p' \<Longrightarrow> pipe_run p as = Some p' \<and> subseq (run_accepts p as) (map fst ms) \<and> ActStop \<notin> set as \<and> pp_running p' = pp_running p"
proof (induction rule: offer_all.induct)
  case (offer_other a p p1 ms as p')
  then show ?case by (auto simp: act_accepts_def other_turn_running other_turn_def split: pipe_act.splits)
qed (auto simp: act_accepts_def submit_ts_running)

text \<open>Other turns leave the counter of submitted messages alone.\<close>

lemma take_recv_submitted: "pr_events_submitted (pp_result (take_recv p r t)) = pr_events_submitted (pp_result p)"
  by (simp add: take_recv_def Let_def split: option.splits)

lemma other_turn_submitted:
  assumes "other_turn a" "pipe_turn p a = Some p1"
  shows "pr_events_submitted (pp_result p1) = pr_events_submitted (pp_result p)"
proof (cases a)
  case ActEngine
  then show ?thesis using assms(2) by (auto simp: engine_turn_def Let_def split: if_splits prod.splits option.splits)
next
  case (ActDrain t wn)
  then show ?thesis using assms(2)
    by (auto simp: drain_turn_def pipeline_on_fill_def take_recv_submitted Let_def split: if_splits prod.splits option.splits)
qed (use assms in \<open>simp_all add: other_turn_def\<close>)

lemma submit_submitted: "submit_with_ts p m ts = (ok, p1) \<Longrightarrow> pr_events_submitted (pp_result p1) = pr_events_submitted (pp_result p) + 1"
  by (auto simp: submit_with_ts_def Let_def split: prod.splits if_splits)

lemma offer_all_submitted:
  "offer_all p ms as p' \<Longrightarrow> pr_events_submitted (pp_result p') = pr_events_submitted (pp_result p) + of_nat (length ms)"
  by (induction rule: offer_all.induct) (auto simp: other_turn_submitted submit_submitted)

lemma others_submitted:
  "\<forall>a\<in>set as. other_turn a \<Longrightarrow> pipe_run p as = Some p' \<Longrightarrow> pr_events_submitted (pp_result p') = pr_events_submitted (pp_result p)"
proof (induction as arbitrary: p)
  case (Cons a as)
  then obtain p1 where p1: "pipe_turn p a = Some p1" "pipe_run p1 as = Some p'" by (auto simp: bind_eq_Some_conv)
  with Cons.prems(1) Cons.IH [of p1] other_turn_submitted [of a p p1] show ?case by simp
qed simp

lemma stop_submitted:
  assumes "pipeline_stop p as p'"
  shows "pr_events_submitted (pp_result p') = pr_events_submitted (pp_result p)"
  using assms
proof cases
  case (stop_running cs bs p1)
  from stop_running(5) obtain q where q: "pipe_run (p\<lparr>pp_running := False\<rparr>) cs = Some q"
    "pipe_run (if pp_running q then q else q\<lparr>pp_engine_running := False\<rparr>) bs = Some p1"
    using stop_running(3) by (auto simp: pipe_run_append bind_eq_Some_conv)
  show ?thesis using others_submitted [OF _ q(1)] others_submitted [OF _ q(2)] stop_running(2,4)
    by (auto simp: finish_stop_def Let_def split: if_splits)
qed simp

lemma live_delivers:
  assumes run: "run_live_pipeline stoi lx a t0 rounds as 0 p" and fd: "lx_fd lx \<ge> 0"
  defines "acc \<equiv> run_accepts (started 1 (lx_fd lx)) as" and "ms \<equiv> map fst (fst (live_feed a t0 rounds))"
  shows "subseq acc ms" "pr_events_submitted (pp_result p) = of_nat (length ms)"
    "\<exists>rs. dispatch_all (start_books 1) acc = Some (books_of (pp_engine p), rs) \<and> inq (pp_engine p) = [] \<and>
      pipe_inv (start_books 1) p acc (run_fills (started 1 (lx_fd lx)) as)"
proof -
  have s: "unat (1 :: symbol_id) < kMaxSymbols" by (simp add: kMaxSymbols_def)
  note st = started_start [OF fd, of 1]
  from run obtain p2 as1 as2 where R: "as = as1 @ as2"
    "offer_all (started 1 (lx_fd lx)) (fst (live_feed a t0 rounds)) as1 p2" "pipeline_stop p2 as2 p"
    by (rule run_live_pipelineE) (use st in auto)
  note O = offer_all_run [OF R(2)] and T = stop_run [OF R(3)] and I0 = started_inv [OF fd s]
  have acc: "acc = run_accepts (started 1 (lx_fd lx)) as1"
    using O run_accepts_append [of "started 1 (lx_fd lx)" as1 p2 as2] T(2) by (simp add: acc_def R(1) no_submit_accepts)
  then show "subseq acc ms" using O by (simp add: ms_def)
  have r0: "pr_events_submitted (pp_result (started 1 (lx_fd lx))) = 0"
    using fd by (simp add: started_def pipeline_start_def sink_open_def pipeline_init_def pr_zero_def Let_def)
  show "pr_events_submitted (pp_result p) = of_nat (length ms)"
    using stop_submitted [OF R(3)] offer_all_submitted [OF R(2)] r0 by (simp add: ms_def)
  have run1: "pipe_run (started 1 (lx_fd lx)) as = Some p" using O T(1) by (simp add: R(1) pipe_run_append)
  have inv: "pipe_inv (start_books 1) p acc (run_fills (started 1 (lx_fd lx)) as)"
    using run_pipe_inv [OF I0(1) run1] by (simp add: acc_def)
  have "submits_before_stop False as" unfolding R(1) using submits_before_stop_append [of as1 as2] O T(2) by simp
  from run_stop_inv [OF started_stop_inv [OF fd s] I0(1) this run1] obtain sb where sb: "stop_inv p sb" by blast
  have "pp_running p2" using O I0(5) by simp
  then have "\<not> pp_engine_alive p" using stopped_engine_ended [OF R(3)] by simp
  then have "inq (pp_engine p) = []" using sb by (simp add: stop_inv_def)
  with inv show "\<exists>rs. dispatch_all (start_books 1) acc = Some (books_of (pp_engine p), rs) \<and> inq (pp_engine p) = [] \<and>
      pipe_inv (start_books 1) p acc (run_fills (started 1 (lx_fd lx)) as)"
    by (auto simp: pipe_inv_def rings_inv_def)
qed

section \<open>A run that loses messages\<close>

text \<open>Offering more than the ring holds before the engine thread takes its first turn.\<close>

lemma offer_without_engine:
  "pipe_inv B0 p acc fl \<Longrightarrow>
    \<exists>as p'. offer_all p ms as p' \<and> run_accepts p as = take (queue_room - length (inq (pp_engine p))) (map fst ms) \<and>
      pipe_inv B0 p' (acc @ take (queue_room - length (inq (pp_engine p))) (map fst ms)) fl \<and>
      outq (pp_engine p') = outq (pp_engine p) \<and> pp_running p' = pp_running p \<and>
      pp_engine_alive p' = pp_engine_alive p \<and> pp_drain_alive p' = pp_drain_alive p"
proof (induction ms arbitrary: p acc)
  case Nil
  then show ?case using offer_end [of p] by (intro exI [of _ "[]"] exI [of _ p]) simp
next
  case (Cons mt ms)
  obtain m ts where mt: "mt = (m, ts)" by force
  have ok: "rings_ok (pp_engine p)" using Cons.prems(1) by (auto simp: pipe_inv_def rings_inv_def)
  obtain k e where e: "engine_submit (pp_engine p) m = (k, e)" by force
  let ?p1 = "snd (submit_with_ts p m ts)"
  have p1: "submit_with_ts p m ts = (k, ?p1)" "pp_engine ?p1 = e" "pp_drain_alive ?p1 = pp_drain_alive p"
    using e by (simp_all add: submit_with_ts_def Let_def)
  have k: "k \<longleftrightarrow> length (inq (pp_engine p)) < queue_room" using submit_ring(2) [OF ok e] .
  have i1: "pipe_inv B0 ?p1 (acc @ (if k then [m] else [])) fl"
    using submit_pipe_inv [OF Cons.prems(1), of m ts] p1(1) by (metis fst_conv)
  have q1: "inq e = (if k then inq (pp_engine p) @ [m] else inq (pp_engine p))" "outq e = outq (pp_engine p)"
    using submit_ring(3,4) [OF ok e] by simp_all
  let ?n = "queue_room - length (inq (pp_engine ?p1))"
  have t: "(if k then [m] else []) @ take ?n (map fst ms) = take (queue_room - length (inq (pp_engine p))) (map fst (mt # ms))"
  proof (cases k)
    case True
    then have "queue_room - length (inq (pp_engine p)) = Suc ?n" using k by (simp add: p1(2) q1)
    then show ?thesis by (simp add: True mt)
  next
    case False
    then have "?n = 0" "queue_room - length (inq (pp_engine p)) = 0" using k by (simp_all add: p1(2) q1)
    then show ?thesis by (simp add: False)
  qed
  from Cons.IH [OF i1] obtain as p' where
    r: "offer_all ?p1 ms as p'" "run_accepts ?p1 as = take ?n (map fst ms)"
      "pipe_inv B0 p' ((acc @ (if k then [m] else [])) @ take ?n (map fst ms)) fl" "outq (pp_engine p') = outq (pp_engine ?p1)"
      "pp_running p' = pp_running ?p1" "pp_engine_alive p' = pp_engine_alive ?p1" "pp_drain_alive p' = pp_drain_alive ?p1" by blast
  have "run_accepts p (ActSubmit m ts # as) = take (queue_room - length (inq (pp_engine p))) (map fst (mt # ms))"
  proof -
    have "act_accepts p (ActSubmit m ts) = (if k then [m] else [])" using p1(1) by (simp add: act_accepts_def) (metis fst_conv)
    then show ?thesis unfolding t [symmetric] by (simp add: r(2))
  qed
  moreover have "pipe_inv B0 p' (acc @ take (queue_room - length (inq (pp_engine p))) (map fst (mt # ms))) fl"
    using r(3) unfolding append_assoc t .
  moreover have "offer_all p (mt # ms) (ActSubmit m ts # as) p'" unfolding mt by (rule offer_msg [OF p1(1) r(1)])
  ultimately show ?case using r(4-7) submit_flags [of p m ts] by (intro exI [of _ "ActSubmit m ts # as"] exI [of _ p']) (simp add: p1(2,3) q1)
qed

text \<open>The packets of \<open>feed_packet\<close> in order, one a round, all in the same nanosecond.\<close>

definition packet_round :: "nat \<Rightarrow> live_round" where
  "packet_round k = \<lparr>lr_packet = Some (feed_packet k, 1), lr_recv_ns = 0, lr_replies = [], lr_now = 0\<rparr>"

definition packet_msg :: "nat \<Rightarrow> mold_message" where
  "packet_msg k = \<lparr>mm_length = 36, mm_body = feed_body k, mm_seq_num = of_nat (k + 1), mm_recv_ns = 1\<rparr>"

lemma receiver_run_packets: "receiver_run False 0 (map packet_round ks) = map (\<lambda>k. Datagram (feed_packet k) 1) ks"
  by (induction ks) (simp_all add: packet_round_def recv_one_def kTickInterval_def)

lemma gb_run_packets:
  "ready_for k g \<Longrightarrow> k + n + 1 < 2 ^ 64 \<Longrightarrow>
    messages_of (fst (gb_run (map (\<lambda>k. Datagram (feed_packet k) 1) [k..<k + n]) g)) = map packet_msg [k..<k + n]"
proof (induction n arbitrary: k g)
  case (Suc n)
  obtain g1 where g1: "ingest (feed_packet k) 1 g = (1, [OnMessage (packet_msg k)], g1)" "ready_for (Suc k) g1"
    using ingest_feed_packet [OF Suc.prems(1)] Suc.prems(2) by (auto simp: packet_msg_def)
  have u: "[k..<k + Suc n] = k # [Suc k..<Suc k + n]" by (simp add: upt_conv_Cons del: upt_Suc)
  show ?case unfolding u using Suc.IH [OF g1(2)] Suc.prems(2) g1(1) by (auto split: prod.splits simp del: upt_Suc)
qed simp

lemma adapter_packets:
  "k + n + 1 < 2 ^ 64 \<Longrightarrow> tr_sym (ia_tr ia) = 1 \<Longrightarrow>
    fst (on_mold_messages ia (map packet_msg [k..<k + n])) = map (\<lambda>k. (feed_order k, 1)) [k..<k + n]"
proof (induction n arbitrary: k ia)
  case (Suc n)
  obtain ia1 where i: "on_mold_message ia (packet_msg k) = ([(feed_order k, 1)], ia1)" "tr_sym (ia_tr ia1) = 1"
    using feed_packet_order [of k ia 1] Suc.prems unfolding packet_msg_def by (auto simp del: of_nat_add)
  have u: "[k..<k + Suc n] = k # [Suc k..<Suc k + n]" by (simp add: upt_conv_Cons del: upt_Suc)
  show ?case unfolding u using Suc.IH [of "Suc k", OF _ i(2)] Suc.prems(1) i(1) by (auto split: prod.splits simp del: upt_Suc)
qed simp

lemma live_feed_packets:
  assumes "la_rr_addr a = []" "n + 1 < 2 ^ 64"
  shows "fst (live_feed a 0 (map packet_round [0..<n])) = map (\<lambda>k. (feed_order k, 1)) [0..<n]"
proof -
  have "messages_of (fst (gb_run (map (\<lambda>k. Datagram (feed_packet k) 1) [0..<n]) (gap_buffer_init gb_config_default False))) =
      map packet_msg [0..<n]"
    using gb_run_packets [OF ready_init, of n] assms(2) by simp
  moreover have "fst (on_mold_messages (adapter_init 1) (map packet_msg [0..<n])) = map (\<lambda>k. (feed_order k, 1)) [0..<n]"
    using adapter_packets [of 0 n "adapter_init 1"] assms(2) by (simp add: adapter_init_def translator_init_def)
  ultimately show ?thesis using assms(1)
    by (auto simp: live_feed_def Let_def receiver_run_packets live_gap_config_def adapter_calls_def messages_of_def split: prod.splits)
qed

lemma lossy_live_run:
  assumes fd: "lx_fd lx \<ge> 0" and ok: "live_setup stoi lx a = Some True" "la_rr_addr a = []" and n: "n + 1 < 2 ^ 64"
  shows "\<exists>as p. run_live_pipeline stoi lx a 0 (map packet_round [0..<n]) as 0 p \<and>
    run_accepts (started 1 (lx_fd lx)) as = map feed_order [0..<min queue_room n]"
proof -
  have s: "unat (1 :: symbol_id) < kMaxSymbols" by (simp add: kMaxSymbols_def)
  note I = started_inv [OF fd s]
  have q0: "inq (pp_engine (started 1 (lx_fd lx))) = []" "outq (pp_engine (started 1 (lx_fd lx))) = []"
    using I(1) by (auto simp: pipe_inv_def rings_inv_def)
  have t: "take queue_room (map fst (map (\<lambda>k. (feed_order k, 1 :: u64)) [0..<n])) = map feed_order [0..<min queue_room n]"
    by (simp add: take_map comp_def min_def)
  from offer_without_engine [OF I(1), of "map (\<lambda>k. (feed_order k, 1)) [0..<n]"] obtain as1 p2 where
    P: "offer_all (started 1 (lx_fd lx)) (map (\<lambda>k. (feed_order k, 1)) [0..<n]) as1 p2"
      "run_accepts (started 1 (lx_fd lx)) as1 = map feed_order [0..<min queue_room n]"
      "pipe_inv (start_books 1) p2 (map feed_order [0..<min queue_room n]) []"
      "outq (pp_engine p2) = []" "pp_running p2" "pp_engine_alive p2" "pp_drain_alive p2"
    using I(2-5) q0 t by auto
  have "msgs_fresh (start_abooks 1) (map feed_order [0..<min queue_room n])" by (rule feed_orders_fresh) (use n in simp)
  from stop_at_once [OF P(3) this P(4-7)] obtain as3 p' where st: "pipeline_stop p2 as3 p'" by blast
  have "offer_all (started 1 (lx_fd lx)) (fst (live_feed a 0 (map packet_round [0..<n]))) as1 p2"
    unfolding live_feed_packets [OF ok(2) n] by (rule P(1))
  from live_done [OF started_start [OF fd] ok(1) this st]
  have "run_live_pipeline stoi lx a 0 (map packet_round [0..<n]) (as1 @ as3) 0 p'" .
  moreover have "run_accepts (started 1 (lx_fd lx)) (as1 @ as3) = map feed_order [0..<min queue_room n]"
    using offer_all_run [OF P(1)] P(2) run_accepts_append [of "started 1 (lx_fd lx)" as1 p2 as3] stop_run(2) [OF st]
    by (simp add: no_submit_accepts)
  ultimately show ?thesis by blast
qed

end
