(* ===== verification/Gap_Bench.thy ===== *)
theory Gap_Bench
  imports Gap_Order Itch_Adapter "HOL-Library.Multiset"
begin

text \<open>
  \<^verbatim>\<open>bench/bench_gapbuffer_numa.cpp\<close>: laps of one window of packets each, every lap in a shuffled order.
  The shuffle is an argument; that it permutes is what \<^verbatim>\<open>std::shuffle\<close> promises. The timing of the
  laps is not modelled.
\<close>

section \<open>The program\<close>

definition kSpan :: nat where "kSpan = 4096"

definition bench_gap_config :: gb_config where
  "bench_gap_config = gb_config_default\<lparr>gc_expected_first_seq := 1\<rparr>"

definition bench_body :: "u64 \<Rightarrow> u8 list" where
  "bench_body s = bench_make_add s (1000000 + ucast (s mod 100))"

definition lap_seqs :: "u64 \<Rightarrow> u64 list" where
  "lap_seqs base_seq = map (\<lambda>i. base_seq + of_nat i) [0..<kSpan]"

text \<open>\<open>lap\<close> counts up, \<open>n\<close> is how many laps are left; the calls are those of the message callback.\<close>

fun bench_laps :: "(nat \<Rightarrow> u64 list \<Rightarrow> u64 list) \<Rightarrow> nat \<Rightarrow> nat \<Rightarrow> u64 \<Rightarrow> gap_buffer \<Rightarrow> gb_call list \<times> gap_buffer" where
  "bench_laps shuffle lap 0 base_seq g = ([], g)"
| "bench_laps shuffle lap (Suc n) base_seq g =
    (let seqs = shuffle lap (lap_seqs base_seq);
         (c, g1) = gb_run (map (\<lambda>s. Datagram (bench_mold_packet s (bench_body s)) 0) seqs) g;
         (cs, g2) = bench_laps shuffle (Suc lap) n (base_seq + of_nat kSpan) g1
     in (c @ cs, g2))"

text \<open>The number of messages delivered, and the buffer at the end.\<close>

definition bench_run :: "(nat \<Rightarrow> u64 list \<Rightarrow> u64 list) \<Rightarrow> nat \<Rightarrow> gb_call list \<times> gap_buffer" where
  "bench_run shuffle n_laps = bench_laps shuffle 0 n_laps 1 (gap_buffer_init bench_gap_config False)"

section \<open>A packet of the bench\<close>

definition bench_session :: "u8 list" where "bench_session = str_bytes ''GBNUMA    ''"

definition bench_header :: "u64 \<Rightarrow> mold_header" where
  "bench_header s = \<lparr>mh_session = bench_session, mh_seq_num = s, mh_msg_count = 1\<rparr>"

lemma length_bench_session: "length bench_session = 10"
  by (simp add: bench_session_def str_bytes_def)

lemma length_bench_body: "length (bench_body s) = 36"
  by (simp add: bench_body_def bench_make_add_def Let_def length_test_stock)

lemma bench_packet_read:
  "mold_header_parse (bench_mold_packet s (bench_body s)) = Some (bench_header s)"
  "data_msgs (bench_header s) (bench_mold_packet s (bench_body s)) = [(s, bench_body s)]" "is_data (bench_header s)"
proof -
  have e: "bench_mold_packet s (bench_body s) = mold_header_serialise (bench_header s) @ put_be16 36 @ bench_body s"
    by (simp add: bench_mold_packet_def bench_header_def bench_session_def length_bench_body)
  have l: "length (mold_header_serialise (bench_header s)) = kMoldHeaderSize"
    by (simp add: mold_header_serialise_def bench_header_def length_bench_session kMoldHeaderSize_def)
  show "mold_header_parse (bench_mold_packet s (bench_body s)) = Some (bench_header s)"
    unfolding e by (rule header_parse_serialise) (simp add: bench_header_def length_bench_session)
  have "be16 (put_be16 36 @ bench_body s) 0 = 36" using be16_append [of "[]" 36 "bench_body s"] by simp
  moreover have "drop kMoldHeaderSize (bench_mold_packet s (bench_body s)) = put_be16 36 @ bench_body s" unfolding e using l by simp
  ultimately show "data_msgs (bench_header s) (bench_mold_packet s (bench_body s)) = [(s, bench_body s)]"
    by (simp add: data_msgs_def bench_header_def Let_def length_bench_body)
  show "is_data (bench_header s)"
    by (simp add: is_data_def is_heartbeat_def is_end_of_session_def bench_header_def kMoldHeartbeatCount_def kMoldEndOfSessionCount_def)
qed

section \<open>A lap\<close>

text \<open>Between laps nothing is buffered.\<close>

definition between_laps :: "u64 \<Rightarrow> gap_buffer \<Rightarrow> bool" where
  "between_laps base_seq g \<longleftrightarrow> gb_seq_synced g \<and> gb_next_expected g = base_seq \<and> overflows g = 0 \<and>
    (\<forall>i. \<not> bm_occupied (gb_slots g i)) \<and> (gb_session_synced g \<longrightarrow> gb_session g = bench_session)"

lemma lap_range:
  assumes "unat base_seq + kSpan < 2 ^ 64"
  shows "unat (base_seq + of_nat kSpan) = unat base_seq + kSpan" "s \<in> set (lap_seqs base_seq) \<longleftrightarrow> base_seq \<le> s \<and> s < base_seq + of_nat kSpan"
proof -
  have k: "unat (of_nat i :: u64) = i" if "i \<le> kSpan" for i
    using that by (simp add: unsigned_of_nat take_bit_nat_eq_self kSpan_def)
  have a: "unat (base_seq + of_nat i) = unat base_seq + i" if "i \<le> kSpan" for i
    using unat_add_no_wrap [of base_seq "of_nat i"] k [OF that] assms that by simp
  then show n: "unat (base_seq + of_nat kSpan) = unat base_seq + kSpan" by simp
  show "s \<in> set (lap_seqs base_seq) \<longleftrightarrow> base_seq \<le> s \<and> s < base_seq + of_nat kSpan"
  proof
    assume "s \<in> set (lap_seqs base_seq)"
    then obtain i where "i < kSpan" "s = base_seq + of_nat i" by (auto simp: lap_seqs_def)
    then show "base_seq \<le> s \<and> s < base_seq + of_nat kSpan" using a [of i] n by (simp add: word_le_nat_alt word_less_nat_alt)
  next
    assume h: "base_seq \<le> s \<and> s < base_seq + of_nat kSpan"
    let ?i = "unat s - unat base_seq"
    have i: "?i < kSpan" "unat base_seq \<le> unat s" using h n by (auto simp: word_le_nat_alt word_less_nat_alt)
    then have "unat (base_seq + of_nat ?i) = unat s" using a [of ?i] by simp
    then have e: "s = base_seq + of_nat ?i" by (simp only: word_unat_eq_iff)
    have "?i \<in> {0..<kSpan}" using i(1) by simp
    then show "s \<in> set (lap_seqs base_seq)" unfolding lap_seqs_def set_map set_upt by (rule rev_image_eqI) (rule e)
  qed
qed

lemma lap_delivers:
  assumes b: "between_laps base_seq g" "base_seq \<noteq> 0" "unat base_seq + kSpan < 2 ^ 64"
    and seqs: "mset seqs = mset (lap_seqs base_seq)"
    and run: "gb_run (map (\<lambda>s. Datagram (bench_mold_packet s (bench_body s)) 0) seqs) g = (c, g')"
  shows "delivered c = feed_slice bench_body base_seq (base_seq + of_nat kSpan) \<and> between_laps (base_seq + of_nat kSpan) g'"
proof -
  let ?N = "base_seq + of_nat kSpan" and ?ins = "map (\<lambda>s. Datagram (bench_mold_packet s (bench_body s)) 0) seqs"
  note R = lap_range [OF b(3)]
  have set: "set seqs = set (lap_seqs base_seq)" using seqs by (rule mset_eq_setD)
  have len: "length seqs = kSpan" using mset_eq_length [OF seqs] by (simp add: lap_seqs_def)
  have fits: "fits bench_body ?N base_seq"
    using R(1) by (simp add: fits_def length_bench_body kMaxMessageBytes_def kSpan_def kCapacity_def)
  have i0: "run_inv bench_body ?N base_seq [] [] g"
    using b R(1) by (auto simp: run_inv_def between_laps_def seq_inv_def slots_ok_def present_def feed_slice_def word_le_nat_alt)
  have hs: "mh_session (bench_header s) = bench_session" for s by (simp add: bench_header_def)
  have arr: "arrived bench_session ?ins = map (\<lambda>s. (s, bench_body s)) seqs"
    by (induction seqs) (simp_all add: arrived_def bench_packet_read hs)
  have "ready bench_session i g \<and> from_feed bench_body ?N bench_session i" if i: "i \<in> set ?ins" for i
  proof -
    obtain s where s: "s \<in> set seqs" "i = Datagram (bench_mold_packet s (bench_body s)) 0" using i by auto
    then have "base_seq \<le> s" "s < ?N" using R(2) set by auto
    then have "s \<le> ?N" by simp
    then have "packet_from_feed bench_body ?N (bench_header s) (bench_mold_packet s (bench_body s))"
      using b(2) \<open>base_seq \<le> s\<close> \<open>s < ?N\<close> word_Suc [of s ?N] by (auto simp: packet_from_feed_def bench_packet_read) (auto simp: bench_header_def word_less_nat_alt)
    then show ?thesis using b(1) by (simp add: s(2) ready_def bench_packet_read between_laps_def hs)
  qed
  then have "\<forall>i\<in>set ?ins. ready bench_session i g \<and> from_feed bench_body ?N bench_session i" by blast
  moreover have "gb_session_synced g \<longrightarrow> gb_session g = bench_session" using b(1) by (simp add: between_laps_def)
  ultimately have inv: "run_inv bench_body ?N (first_seq bench_session base_seq ?ins) (arrived bench_session ?ins) c g'"
    and se: "gb_session_synced g' \<longrightarrow> gb_session g' = bench_session"
    using gb_run_inv [OF run i0] by simp_all
  have fs: "first_seq bench_session base_seq is = base_seq" for "is" by (induction "is") (simp_all add: b(2))
  note inv = inv[unfolded fs]
  note S = sequenced [OF inv]
  have "length (arrived bench_session ?ins) < 2 ^ 64" by (simp add: arr len kSpan_def)
  moreover have "\<forall>s. base_seq \<le> s \<and> s < ?N \<longrightarrow> s \<in> fst ` set (arrived bench_session ?ins)"
    using R(2) set by (auto simp: arr image_image)
  ultimately have nx: "gb_next_expected g' = ?N" using S(3) S(4) [of ?N] S(5) [OF fits] by (simp add: order.antisym)
  have d: "delivered c = feed_slice bench_body base_seq ?N" using S(1) nx by simp
  have sy: "gb_seq_synced g'" using inv b(2) by (auto simp: run_inv_def split: if_splits)
  then have sl: "slots_ok bench_body ?N g'" using inv by (simp add: run_inv_def seq_inv_def)
  have "\<not> bm_occupied (gb_slots g' i)" for i
    using slots_okD(2,4) [OF sl, of i] nx by auto
  then show ?thesis using d nx sy S(5) [OF fits] se by (simp add: between_laps_def)
qed

lemma feed_slice_append:
  assumes "unat a \<le> unat b" "unat b \<le> unat d"
  shows "feed_slice C a b @ feed_slice C b d = feed_slice C a d"
  using upt_add_eq_append [OF assms(1), of "unat d - unat b"] assms(2) by (simp add: feed_slice_def flip: map_append)

lemma laps_deliver:
  assumes sh: "\<forall>lap xs. mset (shuffle lap xs) = mset xs"
  shows "between_laps base_seq g \<Longrightarrow> base_seq \<noteq> 0 \<Longrightarrow> unat base_seq + kSpan * n < 2 ^ 64 \<Longrightarrow>
    bench_laps shuffle lap n base_seq g = (c, g') \<Longrightarrow>
    delivered c = feed_slice bench_body base_seq (base_seq + of_nat (kSpan * n)) \<and> between_laps (base_seq + of_nat (kSpan * n)) g'"
proof (induction n arbitrary: lap base_seq g c)
  case 0
  then show ?case by (simp add: feed_slice_def)
next
  case (Suc n)
  let ?b = "base_seq + of_nat kSpan"
  obtain c1 g1 where r: "gb_run (map (\<lambda>s. Datagram (bench_mold_packet s (bench_body s)) 0) (shuffle lap (lap_seqs base_seq))) g = (c1, g1)"
    by force
  obtain c2 where l: "bench_laps shuffle (Suc lap) n ?b g1 = (c2, g')" "c = c1 @ c2"
    using Suc.prems(4) r by (auto split: prod.splits)
  have k: "unat base_seq + kSpan < 2 ^ 64" using Suc.prems(3) by simp
  note R = lap_range(1) [OF k]
  from lap_delivers [OF Suc.prems(1,2) k _ r] sh
  have d1: "delivered c1 = feed_slice bench_body base_seq ?b" "between_laps ?b g1" by simp_all
  have nz: "?b \<noteq> 0" using R Suc.prems(2) by (metis add_is_0 unat_eq_zero)
  have "unat ?b + kSpan * n < 2 ^ 64" using R Suc.prems(3) by simp
  from Suc.IH [OF d1(2) nz this l(1)]
  have d2: "delivered c2 = feed_slice bench_body ?b (?b + of_nat (kSpan * n))" "between_laps (?b + of_nat (kSpan * n)) g'" by simp_all
  have e: "?b + of_nat (kSpan * n) = base_seq + of_nat (kSpan * Suc n)" by (simp add: algebra_simps)
  have "unat (of_nat (kSpan * n) :: u64) = kSpan * n"
    using Suc.prems(3) by (simp only: unsigned_of_nat) (simp add: take_bit_nat_eq_self)
  then have "unat (?b + of_nat (kSpan * n)) = unat ?b + kSpan * n"
    using unat_add_no_wrap [of ?b "of_nat (kSpan * n)"] R Suc.prems(3) by simp
  then have "delivered c = feed_slice bench_body base_seq (?b + of_nat (kSpan * n))"
    using feed_slice_append [of base_seq ?b "?b + of_nat (kSpan * n)" bench_body] R by (simp add: l(2) d1(1) d2(1))
  then show ?case using d2(2) unfolding e by simp
qed

end
