(* ===== verification/Send_Live.thy ===== *)
theory Send_Live
  imports Feed_Pipeline Gap_Recovery
begin

text \<open>
  \<^verbatim>\<open>tools/send_live_itch.cpp\<close>, the venue of the live demo: the datagrams it sends, and what a gap buffer
  makes of them in whatever order and number they arrive. The random drops and the results of
  \<^verbatim>\<open>sendto\<close> are arguments.
\<close>

section \<open>The sender\<close>

text \<open>The loop from \<open>seq\<close> on, \<open>left\<close> packets to go. A dropped packet is skipped, a failed send ends it.\<close>

fun send_loop :: "(nat \<Rightarrow> bool) \<Rightarrow> (nat \<Rightarrow> bool) \<Rightarrow> nat \<Rightarrow> nat \<Rightarrow> u8 list list" where
  "send_loop dropped sent 0 seq = []"
| "send_loop dropped sent (Suc left) seq =
    (if dropped seq then send_loop dropped sent left (Suc seq)
     else if sent seq then live_packet seq # send_loop dropped sent left (Suc seq)
     else [])"

text \<open>With a re-request server, heartbeats for as long as the sender lingers; then three times the end of session.\<close>

definition send_controls :: "nat \<Rightarrow> bool \<Rightarrow> nat \<Rightarrow> u8 list list" where
  "send_controls n rr beats = (if rr then replicate beats (send_ctl (of_nat n) kMoldHeartbeatCount) else []) @
    replicate 3 (send_ctl (of_nat n) kMoldEndOfSessionCount)"

definition send_live_itch :: "(nat \<Rightarrow> bool) \<Rightarrow> (nat \<Rightarrow> bool) \<Rightarrow> nat \<Rightarrow> bool \<Rightarrow> nat \<Rightarrow> u8 list list" where
  "send_live_itch dropped sent n rr beats = send_loop dropped sent n 1 @ send_controls n rr beats"

text \<open>What the sender may put on the wire.\<close>

definition on_the_wire :: "nat \<Rightarrow> u8 list \<Rightarrow> bool" where
  "on_the_wire n d \<longleftrightarrow> d \<in> live_packet ` {1..n} \<union> {send_ctl (of_nat n) kMoldHeartbeatCount, send_ctl (of_nat n) kMoldEndOfSessionCount}"

lemma send_loop_set: "set (send_loop dropped sent left seq) \<subseteq> live_packet ` {seq..<seq + left}"
proof (induction left arbitrary: seq)
  case (Suc left)
  have "live_packet ` {Suc seq..<Suc seq + left} \<subseteq> live_packet ` {seq..<seq + Suc left}" by (intro image_mono) auto
  moreover have "live_packet seq \<in> live_packet ` {seq..<seq + Suc left}" by (intro imageI) simp
  ultimately show ?case using Suc.IH [of "Suc seq"] by auto
qed simp

lemma sent_is_on_the_wire:
  assumes "d \<in> set (send_live_itch dropped sent n rr beats)"
  shows "on_the_wire n d"
proof -
  have "{1..<1 + n} = {1..n}" by auto
  with assms send_loop_set [of dropped sent n 1] show ?thesis
    by (auto simp: send_live_itch_def send_controls_def on_the_wire_def split: if_splits)
qed

lemma send_loop_all: "send_loop (\<lambda>_. False) (\<lambda>_. True) left seq = map live_packet [seq..<seq + left]"
  by (induction left arbitrary: seq) (simp_all add: upt_conv_Cons del: upt_Suc)

section \<open>Its feed\<close>

definition live_side :: "u64 \<Rightarrow> u8" where "live_side s = (if s mod 2 = 0 then ch_B else ch_S)"
definition live_price :: "u64 \<Rightarrow> u32" where "live_price s = 1000000 + of_int ((uint ((s * 17) mod 21) - 10) * 100)"
definition live_shares :: "u64 \<Rightarrow> u32" where "live_shares s = ucast (10 + s mod 40)"

definition live_body :: "u64 \<Rightarrow> u8 list" where
  "live_body s = add_body_bytes s (live_side s) (live_shares s) (take 8 (str_bytes ''TEST     '')) (live_price s)"

definition live_header :: "u64 \<Rightarrow> u16 \<Rightarrow> mold_header" where
  "live_header s k = \<lparr>mh_session = replicate 10 ch_space, mh_seq_num = s, mh_msg_count = k\<rparr>"

text \<open>The engine message of packet \<open>s\<close>.\<close>

definition live_order :: "u64 \<Rightarrow> md_msg" where
  "live_order s = md_zero\<lparr>md_seq := s, md_order_id := s, md_symbol := 1, md_side := (if s mod 2 = 0 then Buy else Sell),
     md_msg_type := NewOrder, md_order_type := Limit, md_price := (1000000 + (uint ((s * 17) mod 21) - 10) * 100) * 100,
     md_qty := live_shares s\<rparr>"

lemma length_live_body: "length (live_body s) = 36"
  unfolding live_body_def by (rule length_add_body [OF length_test_stock(1)])

lemma live_price_value: "uint (live_price s) = 1000000 + (uint ((s * 17) mod 21) - 10) * 100"
proof -
  have "unat ((s * 17) mod 21) < 21" using unat_mod_small [of 21 "s * 17"] by simp
  moreover have "uint ((s * 17) mod 21) = int (unat ((s * 17) mod 21))" by (rule uint_nat)
  ultimately have "uint ((s * 17) mod 21) < 21" by linarith
  then have "0 \<le> 1000000 + (uint ((s * 17) mod 21) - 10) * 100" "1000000 + (uint ((s * 17) mod 21) - 10) * 100 < 2 ^ 32"
    using uint_ge_0 [of "(s * 17) mod 21"] by simp_all
  then have "take_bit 32 (1000000 + (uint ((s * 17) mod 21) - 10) * 100) = 1000000 + (uint ((s * 17) mod 21) - 10) * 100"
    by (rule take_bit_int_eq_self)
  moreover have "live_price s = of_int (1000000 + (uint ((s * 17) mod 21) - 10) * 100)" by (simp add: live_price_def)
  ultimately show ?thesis by (simp only: uint_word_of_int_eq) simp
qed

lemma live_packet_eq: "live_packet k = mold_header_serialise (live_header (of_nat k) 1) @ put_be16 36 @ live_body (of_nat k)"
  by (simp only: live_packet_def Let_def make_mold_add_packet_eq)
    (simp add: live_header_def live_body_def live_side_def live_shares_def live_price_def)

lemma live_packet_read:
  "mold_header_parse (live_packet k) = Some (live_header (of_nat k) 1)" "is_data (live_header (of_nat k) 1)"
  "data_msgs (live_header (of_nat k) 1) (live_packet k) = [(of_nat k, live_body (of_nat k))]"
proof -
  have l: "length (mold_header_serialise (live_header (of_nat k) 1)) = kMoldHeaderSize"
    by (simp add: mold_header_serialise_def live_header_def kMoldHeaderSize_def)
  show "mold_header_parse (live_packet k) = Some (live_header (of_nat k) 1)"
    unfolding live_packet_eq by (rule header_parse_serialise) (simp add: live_header_def)
  show "is_data (live_header (of_nat k) 1)"
    by (simp add: is_data_def is_heartbeat_def is_end_of_session_def live_header_def kMoldHeartbeatCount_def kMoldEndOfSessionCount_def)
  have "be16 (put_be16 36 @ live_body (of_nat k)) 0 = 36" using be16_append [of "[]" 36 "live_body (of_nat k)"] by simp
  moreover have "drop kMoldHeaderSize (live_packet k) = put_be16 36 @ live_body (of_nat k)" unfolding live_packet_eq using l by simp
  ultimately show "data_msgs (live_header (of_nat k) 1) (live_packet k) = [(of_nat k, live_body (of_nat k))]"
    by (simp add: data_msgs_def live_header_def Let_def length_live_body)
qed

lemma send_ctl_read: "mold_header_parse (send_ctl (of_nat n) k) = Some (live_header (of_nat n + 1) k)"
  using header_parse_serialise [of "live_header (of_nat n + 1) k" "[]"] by (simp add: send_ctl_def live_header_def)

lemma live_message_order:
  assumes "tr_sym (ia_tr ia) = 1"
  shows "\<exists>ia'. on_mold_message ia \<lparr>mm_length = 36, mm_body = live_body s, mm_seq_num = s, mm_recv_ns = t\<rparr> = ([(live_order s, t)], ia') \<and>
    tr_sym (ia_tr ia') = 1"
proof -
  have e: "live_order s = md_zero\<lparr>md_seq := s, md_order_id := s, md_price := int (unat (live_price s)) * 100,
      md_qty := live_shares s, md_symbol := 1, md_side := (if live_side s = ch_B then Buy else Sell), md_msg_type := NewOrder,
      md_order_type := Limit\<rparr>"
    by (simp add: live_order_def live_price_value live_side_def)
  show ?thesis
    using adapter_add [OF length_test_stock(1) assms, of s "live_side s" "live_shares s" "live_price s" s t]
    by (simp only: e live_body_def)
qed

lemma live_messages_orders:
  "tr_sym (ia_tr ia) = 1 \<Longrightarrow>
    map fst (fst (on_mold_messages ia (map (\<lambda>s. \<lparr>mm_length = 36, mm_body = live_body s, mm_seq_num = s, mm_recv_ns = t\<rparr>) ss))) =
    map live_order ss"
proof (induction ss arbitrary: ia)
  case (Cons s ss)
  obtain ia' where i: "on_mold_message ia \<lparr>mm_length = 36, mm_body = live_body s, mm_seq_num = s, mm_recv_ns = t\<rparr> = ([(live_order s, t)], ia')"
    "tr_sym (ia_tr ia') = 1" using live_message_order [OF Cons.prems] by blast
  show ?case using Cons.IH [OF i(2)] i(1) by (auto split: prod.splits)
qed simp

section \<open>Any arrival of its datagrams\<close>

fun wire_input :: "nat \<Rightarrow> gb_input \<Rightarrow> bool" where
  "wire_input n (Datagram d t) = on_the_wire n d"
| "wire_input n (Tick t) = True"

text \<open>The buffer of \<^verbatim>\<open>run_live_pipeline\<close> with a re-request server.\<close>

definition recovering :: gb_config where
  "recovering = gb_config_default\<lparr>gc_expected_first_seq := 1\<rparr>"

definition eos_input :: "nat \<Rightarrow> gb_input \<Rightarrow> bool" where
  "eos_input n i \<longleftrightarrow> (case i of Datagram d t \<Rightarrow> d = send_ctl (of_nat n) kMoldEndOfSessionCount | Tick t \<Rightarrow> False)"

lemma control_headers:
  "is_heartbeat (live_header s kMoldHeartbeatCount)" "\<not> is_end_of_session (live_header s kMoldHeartbeatCount)"
  "is_end_of_session (live_header s kMoldEndOfSessionCount)" "\<not> is_data (live_header s kMoldHeartbeatCount)"
  "\<not> is_data (live_header s kMoldEndOfSessionCount)" "\<not> is_end_of_session (live_header s 1)"
  by (simp_all add: is_data_def is_heartbeat_def is_end_of_session_def live_header_def kMoldHeartbeatCount_def kMoldEndOfSessionCount_def)

lemma live_end: "n + 1 < 2 ^ 64 \<Longrightarrow> k \<le> n + 1 \<Longrightarrow> unat (of_nat k :: u64) = k"
  by (simp only: unsigned_of_nat) (simp add: take_bit_nat_eq_self)

text \<open>A datagram on the wire is one of the three kinds.\<close>

lemma wire_cases:
  assumes "on_the_wire n d" "n + 1 < 2 ^ 64"
  obtains (packet) k where "1 \<le> k" "k \<le> n" "d = live_packet k" | (beat) "d = send_ctl (of_nat n) kMoldHeartbeatCount"
    | (eos) "d = send_ctl (of_nat n) kMoldEndOfSessionCount"
  using assms(1) unfolding on_the_wire_def by fastforce

lemma wire_header:
  assumes "on_the_wire n d" and n: "n + 1 < 2 ^ 64"
  obtains h where "mold_header_parse d = Some h" "mh_session h = replicate 10 ch_space" "within_session (of_nat n + 1) h"
    "packet_from_feed live_body (of_nat n + 1) h d" "is_end_of_session h \<longleftrightarrow> d = send_ctl (of_nat n) kMoldEndOfSessionCount"
proof -
  have e: "(of_nat n + 1 :: u64) = of_nat (n + 1)" by simp
  note u = live_end [OF n]
  have ne: "send_ctl (of_nat n) kMoldHeartbeatCount \<noteq> send_ctl (of_nat n) kMoldEndOfSessionCount"
  proof
    assume "send_ctl (of_nat n) kMoldHeartbeatCount = send_ctl (of_nat n) kMoldEndOfSessionCount"
    then have "live_header (of_nat n + 1) kMoldHeartbeatCount = live_header (of_nat n + 1) kMoldEndOfSessionCount"
      using send_ctl_read [of n] by (metis option.inject)
    then show False by (simp add: live_header_def kMoldHeartbeatCount_def kMoldEndOfSessionCount_def)
  qed
  show thesis using assms
  proof (cases rule: wire_cases)
    case (packet k)
    have k: "unat (of_nat k :: u64) = k" "unat (of_nat (n + 1) :: u64) = n + 1" using u [of k] u [of "n + 1"] packet(2) by simp_all
    then have k1: "unat (of_nat k + 1 :: u64) = k + 1" using unat_add_no_wrap [of "of_nat k :: u64" 1] n packet(2) by simp
    have "live_packet k \<noteq> send_ctl (of_nat n) kMoldEndOfSessionCount"
    proof
      assume "live_packet k = send_ctl (of_nat n) kMoldEndOfSessionCount"
      then have "live_header (of_nat k) 1 = live_header (of_nat n + 1) kMoldEndOfSessionCount"
        using live_packet_read(1) [of k] send_ctl_read [of n] by (metis option.inject)
      then show False by (simp add: live_header_def kMoldEndOfSessionCount_def)
    qed
    moreover have "within_session (of_nat n + 1) (live_header (of_nat k) 1)"
      using packet(1,2) k k1 unfolding e by (auto simp: within_session_def control_headers live_packet_read(2))
        (simp_all add: live_header_def word_le_nat_alt)
    moreover have "packet_from_feed live_body (of_nat n + 1) (live_header (of_nat k) 1) (live_packet k)"
    proof -
      have "(of_nat k :: u64) \<noteq> 0" using k(1) packet(1) by (metis not_one_le_zero unsigned_0)
      then show ?thesis using packet(1,2) k unfolding e packet_from_feed_def
        by (simp add: live_packet_read) (simp add: live_header_def word_le_nat_alt)
    qed
    ultimately show thesis using that [of "live_header (of_nat k) 1"] packet(3) live_packet_read(1) [of k] control_headers(6)
      by (simp add: live_header_def)
  next
    case beat
    show thesis using that [of "live_header (of_nat n + 1) kMoldHeartbeatCount"] ne
      by (simp add: beat send_ctl_read within_session_def packet_from_feed_def control_headers) (simp add: live_header_def)
  next
    case eos
    show thesis using that [of "live_header (of_nat n + 1) kMoldEndOfSessionCount"]
      by (simp add: eos send_ctl_read within_session_def packet_from_feed_def control_headers) (simp add: live_header_def)
  qed
qed

lemma wire_feed:
  assumes "wire_input n i" "n + 1 < 2 ^ 64"
  shows "from_feed live_body (of_nat n + 1) (replicate 10 ch_space) i" "\<not> is_stray (replicate 10 ch_space) i"
    "length (input_msgs (replicate 10 ch_space) i) \<le> 1"
proof -
  have "from_feed live_body (of_nat n + 1) (replicate 10 ch_space) i \<and> \<not> is_stray (replicate 10 ch_space) i \<and>
    length (input_msgs (replicate 10 ch_space) i) \<le> 1"
  proof (cases i)
    case (Datagram d t)
    then have w: "on_the_wire n d" using assms(1) by simp
    from wire_header [OF w assms(2)] obtain h where
      h: "mold_header_parse d = Some h" "mh_session h = replicate 10 ch_space" "packet_from_feed live_body (of_nat n + 1) h d" by metis
    have "length (input_msgs (replicate 10 ch_space) i) \<le> 1" unfolding Datagram using w assms(2)
    proof (cases rule: wire_cases)
      case (packet k)
      then show "length (input_msgs (replicate 10 ch_space) (Datagram d t)) \<le> 1" by (simp add: live_packet_read)
    qed (simp_all add: send_ctl_read control_headers)
    with h show ?thesis by (simp add: Datagram)
  qed simp
  then show "from_feed live_body (of_nat n + 1) (replicate 10 ch_space) i" "\<not> is_stray (replicate 10 ch_space) i"
    "length (input_msgs (replicate 10 ch_space) i) \<le> 1" by blast+
qed

lemma wire_feed_run:
  assumes "\<forall>i\<in>set ins. wire_input n i" "n + 1 < 2 ^ 64"
  shows "feed_run live_body (of_nat n + 1) (replicate 10 ch_space) recovering ins"
proof -
  have "unat (of_nat (n + 1) :: u64) = n + 1" by (rule live_end [OF assms(2)]) simp
  then have "(1 :: u64) \<le> of_nat n + 1" by (simp add: word_le_nat_alt add.commute)
  then show ?thesis using assms wire_feed
    by (auto simp: feed_run_def recovering_def gb_config_default_def is_blank_def)
qed

lemma wire_run:
  assumes "gb_run ins g = (c, g')" "\<forall>i\<in>set ins. wire_input n i" "n + 1 < 2 ^ 64"
    "run_inv live_body (of_nat n + 1) start ms D g" "gb_session_synced g \<longrightarrow> gb_session g = replicate 10 ch_space"
    "marks_ok (of_nat n + 1) b g"
  shows "marks_ok (of_nat n + 1) (b \<or> (\<exists>i\<in>set ins. eos_input n i)) g'"
  using assms
proof (induction ins arbitrary: g c start ms D b)
  case (Cons i "is")
  obtain c1 g1 where s: "gb_step i g = (c1, g1)" by force
  obtain c2 where run: "gb_run is g1 = (c2, g')" using Cons.prems(1) s by (auto split: prod.splits)
  have w: "wire_input n i" using Cons.prems(2) by simp
  have one: "gb_run [i] g = (c1, g1)" using s by simp
  have "\<forall>i\<in>set [i]. ready (replicate 10 ch_space) i g \<and> from_feed live_body (of_nat n + 1) (replicate 10 ch_space) i"
    using wire_feed(1,2) [OF w Cons.prems(3)] Cons.prems(5) by (simp add: ready_def)
  note N = gb_run_inv [OF one Cons.prems(4) this Cons.prems(5)]
  have "marks_ok (of_nat n + 1) (b \<or> eos_input n i) g1"
  proof (cases i)
    case (Datagram d t)
    then have d: "on_the_wire n d" using w by simp
    obtain h where h: "mold_header_parse d = Some h" "mh_session h = replicate 10 ch_space" "within_session (of_nat n + 1) h"
      "packet_from_feed live_body (of_nat n + 1) h d" "is_end_of_session h \<longleftrightarrow> d = send_ctl (of_nat n) kMoldEndOfSessionCount"
      by (rule wire_header [OF d Cons.prems(3)])
    from marks_step [OF s[unfolded Datagram] Cons.prems(6) h(1,2) Cons.prems(5) h(3)] h(5) show ?thesis
      by (simp add: Datagram eos_input_def)
  next
    case (Tick t)
    then have "check_gap_timeout t g = (c1, g1)" using s by (simp add: gb_tick_def)
    then show ?thesis using marks_timeout [of t g c1 g1] Cons.prems(6) by (simp add: Tick eos_input_def)
  qed
  from Cons.IH [OF run _ Cons.prems(3) conjunct1 [OF N] conjunct2 [OF N] this] Cons.prems(2) show ?case by (simp add: disj_assoc)
qed simp

lemma arrived_length:
  assumes "n + 1 < 2 ^ 64"
  shows "\<forall>i\<in>set ins. wire_input n i \<Longrightarrow> length (arrived (replicate 10 ch_space) ins) \<le> length ins"
proof (induction ins)
  case (Cons i "is")
  then show ?case using wire_feed(3) [of n i, OF _ assms] by (fastforce simp: arrived_def)
qed (simp add: arrived_def)

lemma arrived_packet:
  assumes "Datagram (live_packet k) t \<in> set ins"
  shows "(of_nat k, live_body (of_nat k)) \<in> set (arrived (replicate 10 ch_space) ins)"
proof -
  have "(of_nat k, live_body (of_nat k)) \<in> set (input_msgs (replicate 10 ch_space) (Datagram (live_packet k) t))"
    by (simp add: live_packet_read) (simp add: live_header_def)
  with assms show ?thesis unfolding arrived_def by (auto intro!: bexI [of _ "Datagram (live_packet k) t"])
qed

lemma wire_state:
  assumes "gb_run ins (gap_buffer_init recovering retx) = (c, g)" "\<forall>i\<in>set ins. wire_input n i" "n + 1 < 2 ^ 64"
  shows "run_inv live_body (of_nat n + 1) 1 (arrived (replicate 10 ch_space) ins) c g"
    "marks_ok (of_nat n + 1) (\<exists>i\<in>set ins. eos_input n i) g" "gap_ok g"
proof -
  have f: "first_seq (replicate 10 ch_space) 1 ins = 1" by (induction ins) simp_all
  note F = wire_feed_run [OF assms(2,3)]
  show "run_inv live_body (of_nat n + 1) 1 (arrived (replicate 10 ch_space) ins) c g"
    using feed_run_inv(1) [OF F assms(1)] f by (simp add: recovering_def)
  have c: "gc_expected_first_seq recovering \<le> of_nat n + 1" using F by (simp add: feed_run_def)
  then have "marks_ok (of_nat n + 1) False (gap_buffer_init recovering retx)"
    by (simp add: marks_ok_def gap_buffer_init_def reset_sequence_state_def)
  moreover have "gb_session_synced (gap_buffer_init recovering retx) \<longrightarrow> gb_session (gap_buffer_init recovering retx) = replicate 10 ch_space"
    by (simp add: gap_buffer_init_def reset_sequence_state_def recovering_def gb_config_default_def)
  ultimately show "marks_ok (of_nat n + 1) (\<exists>i\<in>set ins. eos_input n i) g"
    using wire_run [OF assms init_run_inv [OF c], of False] by simp
  show "gap_ok g" using gap_ok_run [OF assms(1)] by simp
qed

end
