(* ===== verification/Rerequest_Server.thy ===== *)
theory Rerequest_Server
  imports Gap_Recovery
begin

text \<open>
  \<^verbatim>\<open>feed::RerequestServer\<close> (rerequest_server.hpp), the venue's side of recovery, and the sending side of
  \<^verbatim>\<open>feed::RetransmitClient\<close>. The sockets' results are arguments. \<open>None\<close> is a write past the reply's
  65535 bytes, which the code does not check for.
\<close>

section \<open>Its state\<close>

record server_config =
  sc_session :: "u8 list"
  sc_max_payload :: nat
  sc_drop_every_nth_reply :: u32

definition server_config_default :: server_config where
  "server_config_default = \<lparr>sc_session = replicate 10 ch_space, sc_max_payload = 1400, sc_drop_every_nth_reply = 0\<rparr>"

record rerequest_server =
  sv_cfg :: server_config
  sv_store :: "u8 list list"
  sv_reply_counter :: u64
  sv_requests :: u64
  sv_rejected :: u64
  sv_replies_sent :: u64
  sv_replies_dropped :: u64
  sv_messages_replayed :: u64

definition server_init :: "server_config \<Rightarrow> rerequest_server" where
  "server_init cfg = \<lparr>sv_cfg = cfg, sv_store = [], sv_reply_counter = 0, sv_requests = 0, sv_rejected = 0,
     sv_replies_sent = 0, sv_replies_dropped = 0, sv_messages_replayed = 0\<rparr>"

section \<open>Recording\<close>

definition record_msg :: "u64 \<Rightarrow> u8 list \<Rightarrow> rerequest_server \<Rightarrow> rerequest_server" where
  "record_msg s body sv = (if s \<noteq> of_nat (length (sv_store sv)) + 1 then sv else sv\<lparr>sv_store := sv_store sv @ [body]\<rparr>)"

text \<open>The rest of the packet, and how many messages its header still announces.\<close>

fun record_msgs :: "nat \<Rightarrow> u64 \<Rightarrow> u8 list \<Rightarrow> rerequest_server \<Rightarrow> rerequest_server" where
  "record_msgs 0 s cursor sv = sv"
| "record_msgs (Suc n) s cursor sv =
    (if length cursor < 2 then sv
     else let ml = unat (be16 cursor 0); p = drop 2 cursor in
       if length p < ml then sv else record_msgs n (s + 1) (drop ml p) (record_msg s (take ml p) sv))"

definition record_packet :: "u8 list \<Rightarrow> rerequest_server \<Rightarrow> rerequest_server" where
  "record_packet pkt sv = (case mold_header_parse pkt of
     None \<Rightarrow> sv
   | Some h \<Rightarrow> if data_count h = 0 then sv
       else record_msgs (unat (mh_msg_count h)) (mh_seq_num h) (drop kMoldHeaderSize pkt) sv)"

section \<open>Answering\<close>

text \<open>One message in a packet.\<close>

definition block :: "u8 list \<Rightarrow> u8 list" where
  "block m = put_be16 (of_nat (length m)) @ m"

text \<open>
  The loop that fills the reply: the messages that go in, from offset \<open>off\<close> on with \<open>count\<close> messages
  already in. \<open>count\<close> cannot exceed the request's 16 bits.
\<close>

fun fill_reply :: "nat \<Rightarrow> nat \<Rightarrow> nat \<Rightarrow> u8 list list \<Rightarrow> u8 list list option" where
  "fill_reply max_payload off count [] = Some []"
| "fill_reply max_payload off count (m # ms) =
    (if off + 2 + length m > max_payload \<and> count > 0 then Some []
     else if off + 2 + length m > 65535 then None
     else map_option (Cons m) (fill_reply max_payload (off + 2 + length m) (Suc count) ms))"

text \<open>\<open>sent\<close>: \<^verbatim>\<open>sendto\<close> took the whole reply. The result of \<^verbatim>\<open>answer\<close>, the datagram on its way, the state.\<close>

definition answer :: "retransmit_request \<Rightarrow> bool \<Rightarrow> rerequest_server \<Rightarrow> (bool \<times> u8 list list \<times> rerequest_server) option" where
  "answer req sent sv =
    (let avail_end = of_nat (length (sv_store sv)) + 1 :: u64 in
     if rq_first_seq req \<ge> avail_end then Some (False, [], sv\<lparr>sv_rejected := sv_rejected sv + 1\<rparr>)
     else
       let want_end = min avail_end (rq_first_seq req + ucast (rq_count req));
           wanted = drop (unat (rq_first_seq req) - 1) (take (unat want_end - 1) (sv_store sv))
       in (case fill_reply (sc_max_payload (sv_cfg sv)) kMoldHeaderSize 0 wanted of
         None \<Rightarrow> None
       | Some ms \<Rightarrow>
         let hdr = \<lparr>mh_session = sc_session (sv_cfg sv), mh_seq_num = rq_first_seq req, mh_msg_count = of_nat (length ms)\<rparr>;
             pkt = mold_header_serialise hdr @ concat (map block ms);
             sv1 = sv\<lparr>sv_reply_counter := sv_reply_counter sv + 1\<rparr>;
             nth = ucast (sc_drop_every_nth_reply (sv_cfg sv)) :: u64
         in if nth \<noteq> 0 \<and> sv_reply_counter sv1 mod nth = 0 then Some (True, [], sv1\<lparr>sv_replies_dropped := sv_replies_dropped sv1 + 1\<rparr>)
            else if sent then Some (True, [pkt], sv1\<lparr>sv_replies_sent := sv_replies_sent sv1 + 1,
              sv_messages_replayed := sv_messages_replayed sv1 + of_nat (length ms)\<rparr>)
            else Some (True, [], sv1)))"

text \<open>
  All pending requests, each with what \<^verbatim>\<open>sendto\<close> will do with its reply; a request is read into 64
  bytes. The number of requests served, the replies, the state.
\<close>

fun server_poll :: "(u8 list \<times> bool) list \<Rightarrow> rerequest_server \<Rightarrow> (nat \<times> u8 list list \<times> rerequest_server) option" where
  "server_poll [] sv = Some (0, [], sv)"
| "server_poll ((d, sent) # ds) sv =
    (let sv1 = sv\<lparr>sv_requests := sv_requests sv + 1\<rparr>; rejected = sv1\<lparr>sv_rejected := sv_rejected sv1 + 1\<rparr> in
     case request_parse (take 64 d) of
       None \<Rightarrow> server_poll ds rejected
     | Some req \<Rightarrow>
       if rq_session req \<noteq> sc_session (sv_cfg sv) \<or> rq_first_seq req = 0 \<or> rq_count req = 0 then server_poll ds rejected
       else (case answer req sent sv1 of
         None \<Rightarrow> None
       | Some (ok, replies, sv2) \<Rightarrow> map_option (\<lambda>(n, rs, sv3). ((if ok then Suc n else n), replies @ rs, sv3)) (server_poll ds sv2)))"

section \<open>The client's requests\<close>

text \<open>What an open client puts on the wire for a call of the buffer's retransmission callback.\<close>

definition retx_send :: "gb_call \<Rightarrow> u8 list list" where
  "retx_send c = (case c of OnRetransmitRequest req \<Rightarrow> if rq_count req = 0 then [] else [request_serialise req] | _ \<Rightarrow> [])"

section \<open>What is recorded\<close>

lemma record_msgs_fold: "record_msgs n s cursor sv = fold (\<lambda>(q, b). record_msg q b) (packet_msgs n s cursor) sv"
  by (induction n s cursor sv rule: record_msgs.induct) (simp_all add: Let_def)

lemma record_packet_data:
  assumes "mold_header_parse pkt = Some h" "is_data h"
  shows "record_packet pkt sv = fold (\<lambda>(q, b). record_msg q b) (data_msgs h pkt) sv"
proof -
  have "data_count h = mh_msg_count h" "mh_msg_count h \<noteq> 0"
    using assms(2) by (simp_all add: data_count_def is_data_def is_heartbeat_def kMoldHeartbeatCount_def)
  then show ?thesis by (simp add: record_packet_def assms(1) record_msgs_fold data_msgs_def)
qed

text \<open>The store holds the feed below \<open>N\<close>.\<close>

definition holds_feed :: "(u64 \<Rightarrow> u8 list) \<Rightarrow> u64 \<Rightarrow> rerequest_server \<Rightarrow> bool" where
  "holds_feed C N sv \<longleftrightarrow> Suc (length (sv_store sv)) = unat N \<and> (\<forall>i < length (sv_store sv). sv_store sv ! i = C (of_nat (i + 1)))"

section \<open>A reply\<close>

lemma fill_reply_prefix:
  assumes "\<forall>m\<in>set ms. length m \<le> 65513" "max_payload \<le> 65535" "count > 0 \<or> off = kMoldHeaderSize"
  shows "\<exists>k \<le> length ms. fill_reply max_payload off count ms = Some (take k ms) \<and> (count = 0 \<and> ms \<noteq> [] \<longrightarrow> 0 < k) \<and>
    (off + sum_list (map (\<lambda>m. 2 + length m) ms) \<le> max_payload \<longrightarrow> k = length ms) \<and> (1 < k \<longrightarrow> off + 2 * k \<le> max_payload)"
  using assms
proof (induction ms arbitrary: off count)
  case (Cons m ms)
  show ?case
  proof (cases "off + 2 + length m > max_payload \<and> count > 0")
    case True
    then show ?thesis by (intro exI [of _ 0]) simp
  next
    case False
    have fit: "off + 2 + length m \<le> 65535" using False Cons.prems by (auto simp: kMoldHeaderSize_def)
    have p: "\<forall>m\<in>set ms. length m \<le> 65513" "Suc count > 0 \<or> off + 2 + length m = kMoldHeaderSize" using Cons.prems(1) by simp_all
    from Cons.IH [OF p(1) Cons.prems(2) p(2)] obtain k where
      k: "k \<le> length ms" "fill_reply max_payload (off + 2 + length m) (Suc count) ms = Some (take k ms)"
        "off + 2 + length m + sum_list (map (\<lambda>m. 2 + length m) ms) \<le> max_payload \<longrightarrow> k = length ms"
        "1 < k \<longrightarrow> off + 2 + length m + 2 * k \<le> max_payload" by blast
    have "off + 2 * Suc k \<le> max_payload" if one: "k = 1"
    proof -
      obtain m' ms' where ms: "ms = m' # ms'" using k(1) one by (cases ms) auto
      have "\<not> off + 2 + length m + 2 + length m' > max_payload"
        using k(2) one unfolding ms by (auto split: if_splits)
      then show ?thesis using one by simp
    qed
    then have "1 < Suc k \<longrightarrow> off + 2 * Suc k \<le> max_payload" using k(4) by (cases "k = 1") auto
    moreover have "off + sum_list (map (\<lambda>m. 2 + length m) (m # ms)) \<le> max_payload \<longrightarrow> Suc k = length (m # ms)"
      using k(3) by (simp add: add.assoc)
    moreover have "fill_reply max_payload off count (m # ms) = Some (take (Suc k) (m # ms))"
      using k(2) fit False by (auto simp: add.assoc)
    ultimately show ?thesis using k(1) by (intro exI [of _ "Suc k"]) simp
  qed
qed simp

lemma packet_msgs_blocks:
  "\<forall>m\<in>set ms. length m < 2 ^ 16 \<Longrightarrow>
    packet_msgs (length ms) s (concat (map block ms)) = map (\<lambda>i. (s + of_nat i, ms ! i)) [0..<length ms]"
proof (induction ms arbitrary: s)
  case (Cons m ms)
  let ?X = "concat (map block ms)"
  have b: "be16 (put_be16 (of_nat (length m)) @ m @ ?X) 0 = of_nat (length m)"
    using be16_append [of "[]" "of_nat (length m)" "m @ ?X"] by simp
  have u: "unat (of_nat (length m) :: u16) = length m"
    using Cons.prems by (simp only: unsigned_of_nat) (simp add: take_bit_nat_eq_self)
  have e: "concat (map block (m # ms)) = put_be16 (of_nat (length m)) @ m @ ?X" by (simp add: block_def)
  have "packet_msgs (length (m # ms)) s (concat (map block (m # ms))) = (s, m) # packet_msgs (length ms) (s + 1) ?X"
    unfolding e by (simp add: b u Let_def)
  also have "\<dots> = (s, m) # map (\<lambda>i. (s + 1 + of_nat i, ms ! i)) [0..<length ms]" using Cons.IH [of "s + 1"] Cons.prems by simp
  also have "\<dots> = map (\<lambda>i. (s + of_nat i, (m # ms) ! i)) (0 # map Suc [0..<length ms])" by (simp add: add.assoc)
  also have "0 # map Suc [0..<length ms] = [0..<length (m # ms)]" by (simp add: upt_conv_Cons map_Suc_upt del: upt_Suc)
  finally show ?case .
qed simp

lemma unat_ucast_u16_u64: "unat (ucast (w :: u16) :: u64) = unat w"
proof -
  have "unat w < 2 ^ 64" using unsigned_less [of w, where ?'a = nat] by simp
  then show ?thesis by (simp add: unsigned_ucast_eq take_bit_nat_eq_self)
qed

text \<open>
  A server whose replies have room for every message: each fits a reply of its own, the limit of a reply
  is within the 65535 bytes of its buffer, and none is dropped.
\<close>

definition serves :: "(u64 \<Rightarrow> u8 list) \<Rightarrow> u64 \<Rightarrow> u8 list \<Rightarrow> rerequest_server \<Rightarrow> bool" where
  "serves C N sess sv \<longleftrightarrow> holds_feed C N sv \<and> (\<forall>m\<in>set (sv_store sv). length m \<le> 65513) \<and> sc_max_payload (sv_cfg sv) \<le> 65535 \<and>
    sc_drop_every_nth_reply (sv_cfg sv) = 0 \<and> sc_session (sv_cfg sv) = sess \<and> length sess = 10"

lemma serves_cong: "sv_store sv' = sv_store sv \<Longrightarrow> sv_cfg sv' = sv_cfg sv \<Longrightarrow> serves C N sess sv' = serves C N sess sv"
  by (simp add: serves_def holds_feed_def)

text \<open>The packet with messages \<open>f\<close>, \<open>f + 1\<close>, \dots of the feed.\<close>

definition feed_packet_of :: "(u64 \<Rightarrow> u8 list) \<Rightarrow> u8 list \<Rightarrow> u64 \<Rightarrow> nat \<Rightarrow> u8 list" where
  "feed_packet_of C sess f k = mold_header_serialise \<lparr>mh_session = sess, mh_seq_num = f, mh_msg_count = of_nat k\<rparr> @
     concat (map block (map (\<lambda>i. C (f + of_nat i)) [0..<k]))"

lemma feed_packet_of_read:
  assumes "length sess = 10" "0 < k" "k < 65535" "\<forall>i<k. length (C (f + of_nat i)) < 2 ^ 16"
  defines "h \<equiv> \<lparr>mh_session = sess, mh_seq_num = f, mh_msg_count = of_nat k\<rparr>"
  shows "mold_header_parse (feed_packet_of C sess f k) = Some h" "is_data h" "unat (mh_msg_count h) = k"
    "data_msgs h (feed_packet_of C sess f k) = map (\<lambda>i. (f + of_nat i, C (f + of_nat i))) [0..<k]"
proof -
  show "mold_header_parse (feed_packet_of C sess f k) = Some h"
    unfolding feed_packet_of_def h_def by (rule header_parse_serialise) (simp add: assms(1))
  have u: "unat (of_nat k :: u16) = k" using assms(3) by (simp only: unsigned_of_nat) (simp add: take_bit_nat_eq_self)
  then show c: "unat (mh_msg_count h) = k" by (simp add: h_def)
  have "unat (of_nat k :: u16) \<noteq> unat (0 :: u16)" "unat (of_nat k :: u16) \<noteq> unat (0xFFFF :: u16)"
    unfolding u using assms(2,3) by simp_all
  then show "is_data h"
    by (auto simp: is_data_def is_heartbeat_def is_end_of_session_def h_def kMoldHeartbeatCount_def kMoldEndOfSessionCount_def)
  let ?ms = "map (\<lambda>i. C (f + of_nat i)) [0..<k]"
  have "drop kMoldHeaderSize (feed_packet_of C sess f k) = concat (map block ?ms)"
    using assms(1) by (simp add: feed_packet_of_def mold_header_serialise_def kMoldHeaderSize_def)
  moreover have "packet_msgs (length ?ms) f (concat (map block ?ms)) = map (\<lambda>i. (f + of_nat i, ?ms ! i)) [0..<length ?ms]"
    by (rule packet_msgs_blocks) (use assms(4) in simp)
  ultimately show "data_msgs h (feed_packet_of C sess f k) = map (\<lambda>i. (f + of_nat i, C (f + of_nat i))) [0..<k]"
    by (simp add: data_msgs_def c) (simp add: h_def)
qed

lemma wanted_messages:
  assumes "holds_feed C N sv" "0 < unat f" "unat f + n \<le> unat N"
  shows "drop (unat f - 1) (take (unat f + n - 1) (sv_store sv)) = map (\<lambda>i. C (f + of_nat i)) [0..<n]"
proof (rule nth_equalityI)
  have L: "Suc (length (sv_store sv)) = unat N" using assms(1) by (simp add: holds_feed_def)
  then show l: "length (drop (unat f - 1) (take (unat f + n - 1) (sv_store sv))) = length (map (\<lambda>i. C (f + of_nat i)) [0..<n])"
    using assms(2,3) by simp
  fix i assume "i < length (drop (unat f - 1) (take (unat f + n - 1) (sv_store sv)))"
  then have i: "i < n" using l by simp
  have "drop (unat f - 1) (take (unat f + n - 1) (sv_store sv)) ! i = sv_store sv ! (unat f - 1 + i)"
    using i assms(2,3) L by (simp add: nth_drop)
  also have "\<dots> = C (of_nat (unat f - 1 + i + 1))" using assms(1,2,3) i L by (simp add: holds_feed_def)
  also have "unat f - 1 + i + 1 = unat f + i" using assms(2) by simp
  finally show "drop (unat f - 1) (take (unat f + n - 1) (sv_store sv)) ! i = map (\<lambda>i. C (f + of_nat i)) [0..<n] ! i"
    using i by simp
qed

lemma answer_reply:
  assumes sv: "serves C N sess sv" and f: "0 < unat f" and n: "n = unat c" "0 < n" "unat f + n \<le> unat N"
  shows "\<exists>k sv'. answer \<lparr>rq_session = s, rq_first_seq = f, rq_count = c\<rparr> True sv = Some (True, [feed_packet_of C sess f k], sv') \<and>
    0 < k \<and> k \<le> n \<and> k < 65535 \<and> (\<forall>i<k. length (C (f + of_nat i)) < 2 ^ 16) \<and> sv_store sv' = sv_store sv \<and> sv_cfg sv' = sv_cfg sv \<and>
    (kMoldHeaderSize + sum_list (map (\<lambda>i. 2 + length (C (f + of_nat i))) [0..<n]) \<le> sc_max_payload (sv_cfg sv) \<longrightarrow> k = n)"
proof -
  let ?ms = "map (\<lambda>i. C (f + of_nat i)) [0..<n]"
  have H: "holds_feed C N sv" "\<forall>m\<in>set (sv_store sv). length m \<le> 65513" "sc_max_payload (sv_cfg sv) \<le> 65535"
    "sc_drop_every_nth_reply (sv_cfg sv) = 0" "sc_session (sv_cfg sv) = sess" using sv by (simp_all add: serves_def)
  have L: "of_nat (length (sv_store sv)) + 1 = N"
  proof -
    have "N = of_nat (Suc (length (sv_store sv)))" using H(1) by (simp add: holds_feed_def)
    then show ?thesis by simp
  qed
  have u: "unat (f + ucast c) = unat f + n"
  proof -
    have c: "unat (ucast c :: u64) = n" using n(1) by (simp add: unat_ucast_u16_u64)
    then show ?thesis using n(3) unat_u64_less [of N] unat_add_no_wrap [of f "ucast c"] by simp
  qed
  then have lt: "\<not> N \<le> f" and e: "unat (min N (f + ucast c)) = unat f + n"
    using n(2,3) by (simp_all add: word_le_nat_alt unat_min)
  note W = wanted_messages [OF H(1) f n(3)]
  have "set ?ms \<subseteq> set (sv_store sv)" using W by (metis set_drop_subset set_take_subset subset_trans)
  then have m: "\<forall>m\<in>set ?ms. length m \<le> 65513" using H(2) by blast
  from fill_reply_prefix [OF m H(3), of 0 kMoldHeaderSize] obtain k where
    k: "k \<le> n" "fill_reply (sc_max_payload (sv_cfg sv)) kMoldHeaderSize 0 ?ms = Some (take k ?ms)" "0 < k"
      "kMoldHeaderSize + sum_list (map (\<lambda>m. 2 + length m) ?ms) \<le> sc_max_payload (sv_cfg sv) \<longrightarrow> k = n"
      "1 < k \<longrightarrow> kMoldHeaderSize + 2 * k \<le> sc_max_payload (sv_cfg sv)" using n(2) by auto
  have t: "take k ?ms = map (\<lambda>i. C (f + of_nat i)) [0..<k]" using k(1) by (simp add: take_map)
  have "k < 65535" using k(5) H(3) by (cases "k = 1") (auto simp: kMoldHeaderSize_def)
  moreover have "\<forall>i<k. length (C (f + of_nat i)) < 2 ^ 16" 
  proof (intro allI impI)
    fix i assume "i < k"
    then have "length (C (f + of_nat i)) \<le> 65513" using m k(1) by simp
    then show "length (C (f + of_nat i)) < 2 ^ 16" by simp
  qed
  moreover obtain sv' where "answer \<lparr>rq_session = s, rq_first_seq = f, rq_count = c\<rparr> True sv = Some (True, [feed_packet_of C sess f k], sv')"
      "sv_store sv' = sv_store sv" "sv_cfg sv' = sv_cfg sv"
  proof -
    have "answer \<lparr>rq_session = s, rq_first_seq = f, rq_count = c\<rparr> True sv = Some (True, [feed_packet_of C sess f k],
        sv\<lparr>sv_reply_counter := sv_reply_counter sv + 1, sv_replies_sent := sv_replies_sent sv + 1,
           sv_messages_replayed := sv_messages_replayed sv + of_nat k\<rparr>)"
      using lt k(2)[unfolded t] by (simp add: answer_def L e W [unfolded One_nat_def] Let_def H(4,5) feed_packet_of_def)
    then show thesis by (rule that) simp_all
  qed
  ultimately show ?thesis using k(1,3,4) by (auto simp: comp_def)
qed

text \<open>The first message of a reply goes in whatever its size: one of more than 65513 bytes is written past the end.\<close>

lemma oversized_message_overruns:
  assumes "holds_feed C N sv" "0 < unat f" "unat f < unat N" "0 < unat c" "65513 < length (C f)" "unat f + unat c < 2 ^ 64"
  shows "answer \<lparr>rq_session = s, rq_first_seq = f, rq_count = c\<rparr> sent sv = None"
proof -
  have N: "N = of_nat (Suc (length (sv_store sv)))" using assms(1) by (simp add: holds_feed_def)
  then have L: "of_nat (length (sv_store sv)) + 1 = N" by simp
  have lt: "\<not> N \<le> f" using assms(3) by (simp add: word_le_nat_alt)
  let ?n = "unat (min N (f + ucast c)) - unat f"
  have u: "unat (f + ucast c) = unat f + unat c" using assms(6) unat_add_no_wrap [of f "ucast c"] by (simp add: unat_ucast_u16_u64)
  have n: "unat (min N (f + ucast c)) = unat f + ?n" "0 < ?n" "unat f + ?n \<le> unat N"
    using u assms(3,4) by (simp_all add: unat_min)
  have w: "drop (unat f - Suc 0) (take (unat (min N (f + ucast c)) - Suc 0) (sv_store sv)) = map (\<lambda>i. C (f + of_nat i)) [0..<?n]"
    using wanted_messages [OF assms(1,2) n(3)] n(1) by simp
  have "[0..<?n] = 0 # [1..<?n]" using n(2) by (simp add: upt_conv_Cons)
  then show ?thesis using assms(5) lt by (simp add: answer_def L w kMoldHeaderSize_def del: upt_eq_Cons_conv)
qed

end
