(* ===== verification/Recovery_Loop.thy ===== *)
theory Recovery_Loop
  imports Rerequest_Server Send_Live
begin

text \<open>
  The two ends of recovery: what the buffer asks for, whatever it was given, and what the re-request
  server, which may not hold the whole feed yet, makes of it. \<open>recoverable\<close> is the invariant of a buffer
  that is given datagrams of one session and ticks.
\<close>

section \<open>What goes out\<close>

text \<open>The datagrams that the client sends for the buffer's calls.\<close>

definition sent_requests :: "gb_call list \<Rightarrow> u8 list list" where
  "sent_requests cs = concat (map retx_send cs)"

section \<open>What no input changes\<close>

lemma env_data:
  assumes "ingest_data h payload t g = (n, c, g')"
  shows "env g' = env g"
proof (cases "gb_seq_synced g")
  case False
  then show ?thesis using assms by (auto simp: ingest_data_def env_def Let_def)
next
  case True
  from True assms show ?thesis
  proof (cases rule: ingest_data_cases)
    case (duplicate g3)
    then show ?thesis using gb_coreD(4) [OF duplicate(2)] gb_coreD(4) [OF conjunct1 [OF quiet_check_gap_timeout [OF duplicate(5)]]] by simp
  next
    case (taken c3 g3 c4 g4 c5 g5 c6)
    then show ?thesis
      using gb_coreD(4) [OF taken(1)] env_walk [OF taken(3)] gb_coreD(4) [OF conjunct1 [OF quiet_update_gap_state [OF taken(4)]]]
        gb_coreD(4) [OF conjunct1 [OF quiet_check_gap_timeout [OF taken(5)]]] by simp
  qed
qed

lemma check_session_env:
  "check_session h g = (b, c, g') \<Longrightarrow> gb_cfg g' = gb_cfg g \<and> gb_retx_set g' = gb_retx_set g \<and> gb_session_synced g'"
  by (auto simp: check_session_def Let_def reset_sequence_state_def release_all_def split: if_splits)

lemma ingest_env:
  assumes "ingest payload t g = (n, c, g')"
  shows "gb_cfg g' = gb_cfg g \<and> gb_retx_set g' = gb_retx_set g \<and> (gb_session_synced g' \<or> g' = g)"
proof (cases "mold_header_parse payload")
  case None
  then show ?thesis using assms by (simp add: ingest_def)
next
  case (Some h)
  obtain b c1 ga where k: "check_session h g = (b, c1, ga)" by (metis prod_cases3)
  note K = check_session_env [OF k]
  let ?g1 = "sync_first h ga"
  have s: "gb_cfg ?g1 = gb_cfg ga" "gb_retx_set ?g1 = gb_retx_set ga" "gb_session_synced ?g1 = gb_session_synced ga"
    by (simp_all add: sync_first_def)
  have "g' = ga \<or> env g' = env ?g1"
    using assms Some k by (auto simp: ingest_def Let_def split: prod.splits if_splits
      dest!: env_data gb_coreD(4) [OF conjunct1 [OF quiet_ingest_control]])
  with K s show ?thesis by (auto simp: env_def)
qed

lemma step_env:
  assumes "gb_step i g = (c, g')"
  shows "gb_cfg g' = gb_cfg g \<and> gb_retx_set g' = gb_retx_set g \<and> (gb_session_synced g \<longrightarrow> gb_session_synced g') \<and>
    (gb_in_gap g' \<or> gb_eos_seen g' \<longrightarrow> gb_session_synced g' \<or> gb_in_gap g \<or> gb_eos_seen g)"
proof (cases i)
  case (Datagram payload t)
  then show ?thesis using assms ingest_env [of payload t g] by (auto split: prod.splits)
next
  case (Tick t)
  then have "check_gap_timeout t g = (c, g')" using assms by (simp add: gb_tick_def)
  then show ?thesis by (auto simp: check_gap_timeout_def Let_def split: if_splits)
qed

lemma run_env:
  "gb_run ins g = (c, g') \<Longrightarrow> gb_cfg g' = gb_cfg g \<and> gb_retx_set g' = gb_retx_set g \<and> (gb_session_synced g \<longrightarrow> gb_session_synced g') \<and>
    (gb_in_gap g' \<or> gb_eos_seen g' \<longrightarrow> gb_session_synced g' \<or> gb_in_gap g \<or> gb_eos_seen g)"
proof (induction ins arbitrary: g c)
  case (Cons i "is")
  obtain c1 g1 where s: "gb_step i g = (c1, g1)" by force
  obtain c2 where r: "gb_run is g1 = (c2, g')" using Cons.prems s by (auto split: prod.splits)
  show ?case using step_env [OF s] Cons.IH [OF r] by auto
qed simp

section \<open>What a request names\<close>

text \<open>Whatever the input: a request names the session and something missing of the buffer it leaves.\<close>

definition asked :: "gap_buffer \<Rightarrow> retransmit_request \<Rightarrow> bool" where
  "asked g rq \<longleftrightarrow> rq_session rq = gb_session g \<and> rq_first_seq rq = gb_next_expected g \<and> gb_seq_synced g \<and>
    unat (gb_next_expected g) + unat (rq_count rq) \<le> unat (gb_high_water g) \<and> gb_in_gap g"

lemma timeout_requests:
  assumes "check_gap_timeout t g = (c, g')" "gap_ok g" "rq \<in> set (requests_of c)"
  shows "asked g' rq"
proof -
  have k: "gb_core g' = gb_core g" using quiet_check_gap_timeout [OF assms(1)] by simp
  have h: "gb_high_water g' = gb_high_water g" "gb_in_gap g'"
    using assms(1,3) by (auto simp: check_gap_timeout_def Let_def split: if_splits)
  have "c = fst (gb_tick t g)" using assms(1) by (simp add: gb_tick_def)
  with assms(3) have gap: "gb_in_gap g" and rq: "rq = \<lparr>rq_session = gb_session g, rq_first_seq = gb_next_expected g, rq_count = of_nat (missing_count g)\<rparr>"
    by (auto simp: tick_request [OF assms(2)] split: if_splits)
  have lt: "gb_next_expected g < gb_high_water g" and s: "gb_seq_synced g" using gap assms(2) by (simp_all add: gap_ok_def)
  note M = missing_run_exact(1,2) [OF lt]
  have "missing_count g < 2 ^ 16" using M(1) unsigned_less [of "gc_max_retransmit_count (gb_cfg g)", where ?'a = nat] by simp
  then have "unat (of_nat (missing_count g) :: u16) = missing_count g"
    by (simp only: unsigned_of_nat) (simp add: take_bit_nat_eq_self)
  then show ?thesis using M(2) gb_coreD(2) [OF k] gb_coreD(5) [OF k] gb_coreD(7) [OF k] h s by (simp add: asked_def rq)
qed

lemma quiet_requests:
  "handle_gap f t g = (c, g') \<Longrightarrow> requests_of c = []" "update_gap_state t g = (c, g') \<Longrightarrow> requests_of c = []"
  "on_end_of_session h g = (c, g') \<Longrightarrow> requests_of c = []" "check_session h g = (b, c, g') \<Longrightarrow> requests_of c = []"
  by (auto simp: handle_gap_def update_gap_state_def on_end_of_session_def check_session_def Let_def split: if_splits)

lemma flush_requests: "flush_buffer g = (c, g') \<Longrightarrow> requests_of c = []"
proof (induction g arbitrary: c rule: flush_buffer.induct)
  case (1 g)
  show ?case
  proof (cases "present g (gb_next_expected g)")
    case False
    then show ?thesis using "1.prems" by (simp add: flush_buffer.simps [of g] Let_def)
  next
    case True
    with "1.prems" obtain m c2 where "flush_buffer (g\<lparr>gb_slots := (gb_slots g)(slot_of (gb_next_expected g) :=
        gb_slots g (slot_of (gb_next_expected g))\<lparr>bm_occupied := False\<rparr>),
        gb_stats_of := (gb_stats_of g)\<lparr>gs_delivered := gs_delivered (gb_stats_of g) + 1\<rparr>, gb_next_expected := gb_next_expected g + 1\<rparr>) = (c2, g')"
        "c = OnMessage m # c2"
      by (auto simp: flush_buffer.simps [of g] Let_def split: prod.splits)
    with "1.IH" [OF refl refl refl _ refl this(1)] True show ?thesis by simp
  qed
qed

lemma take_requests: "take_message m t g = (c, g') \<Longrightarrow> requests_of c = []"
  by (auto simp: take_message_def deliver_def Let_def split: prod.splits if_splits dest: flush_requests)

lemma walk_requests:
  assumes "walk_packet n s cursor t g = (c, g')"
  shows "requests_of c = []"
proof -
  have "requests_of ([] @ c) = []"
    by (rule walk_induct [OF assms, of "\<lambda>ms D g. requests_of D = []" "[]" "[]"]) (simp_all add: take_requests)
  then show ?thesis by simp
qed

lemma data_requests:
  assumes "ingest_data h payload t g = (n, c, g')" "gap_ok g" "rq \<in> set (requests_of c)"
  shows "asked g' rq"
proof (cases "gb_seq_synced g")
  case False
  then show ?thesis using assms by (auto simp: ingest_data_def Let_def)
next
  case True
  from True assms(1) show ?thesis
  proof (cases rule: ingest_data_cases)
    case (duplicate g3)
    then have "gap_ok g3" using assms(2) gb_coreD [OF duplicate(2)] by (auto simp: gap_ok_def)
    from timeout_requests [OF duplicate(5) this assms(3)] show ?thesis .
  next
    case (taken c3 g3 c4 g4 c5 g5 c6)
    have "gb_seq_synced g4" using True env_walk [OF taken(3)] taken(1) by (simp add: gb_core_def env_def)
    then have "gap_ok g5" by (rule gap_ok_update [OF taken(4)])
    moreover have "rq \<in> set (requests_of c6)"
      using assms(3) taken(6,11) walk_requests [OF taken(3)] quiet_requests(2) [OF taken(4)] by simp
    ultimately show ?thesis by (rule timeout_requests [OF taken(5)])
  qed
qed

lemma control_requests:
  assumes "ingest_control h t g = (c, g')" "gap_ok g" "rq \<in> set (requests_of c)"
  shows "asked g' rq"
  using assms(1)
proof (rule ingest_control_split)
  let ?g1 = "count_heartbeat h g"
  let ?ga = "note_high_water (mh_seq_num h) ?g1"
  fix c2 g2 c3 g3 c4
  assume x: "(let ga = ?ga in
      if gb_seq_synced g then if mh_seq_num h > gb_next_expected ga then handle_gap (mh_seq_num h) t ga else ([], ga)
      else ([], ?g1)) = (c2, g2)"
    and y: "(if is_end_of_session h then on_end_of_session h g2 else ([], g2)) = (c3, g3)"
    and z: "check_gap_timeout t g3 = (c4, g')" "c = c2 @ c3 @ c4"
  have g1: "gap_ok ?g1" using assms(2) by (simp add: count_heartbeat_def gap_ok_def)
  have hw: "mh_seq_num h \<le> gb_high_water ?ga" "gb_seq_synced ?ga = gb_seq_synced g"
    by (auto simp: note_high_water_def count_heartbeat_def)
  have "gap_ok g2" using x gap_ok_handle_gap [of "mh_seq_num h" t ?ga c2 g2] hw g1 gap_ok_high_water [OF g1]
    by (auto simp: Let_def split: if_splits intro: less_le_trans)
  then have ok: "gap_ok g3" using y gap_ok_eos by (auto split: if_splits)
  have "requests_of c2 = []" using x quiet_requests(1) [of "mh_seq_num h" t ?ga c2 g2] by (auto simp: Let_def split: if_splits)
  moreover have "requests_of c3 = []" using y quiet_requests(3) [of h g2 c3 g3] by (auto split: if_splits)
  ultimately have "rq \<in> set (requests_of c4)" using assms(3) z(2) by simp
  then show ?thesis by (rule timeout_requests [OF z(1) ok])
qed

lemma step_requests:
  assumes "gb_step i g = (c, g')" "gap_ok g" "rq \<in> set (requests_of c)"
  shows "asked g' rq"
proof (cases i)
  case (Tick t)
  then have "check_gap_timeout t g = (c, g')" using assms(1) by (simp add: gb_tick_def)
  from timeout_requests [OF this assms(2,3)] show ?thesis .
next
  case (Datagram payload t)
  show ?thesis
  proof (cases "mold_header_parse payload")
    case None
    then show ?thesis using assms Datagram by (simp add: ingest_def)
  next
    case (Some h)
    obtain ok c0 g0 where k: "check_session h g = (ok, c0, g0)" by (metis prod_cases3)
    note c0 = quiet_requests(4) [OF k] and g1 = gap_ok_sync_first [OF gap_ok_check_session [OF k assms(2)], of h]
    show ?thesis
    proof (cases "is_heartbeat h \<or> is_end_of_session h")
      case True
      show ?thesis
        using assms(1,3) Datagram Some k True c0
        by (auto simp: ingest_def Let_def split: prod.splits if_splits intro: control_requests [OF _ g1])
    next
      case False
      show ?thesis
        using assms(1,3) Datagram Some k False c0
        by (auto simp: ingest_def Let_def split: prod.splits if_splits intro: data_requests [OF _ g1])
    qed
  qed
qed

section \<open>Something missing is an open gap\<close>

text \<open>The converse of \<open>gap_ok\<close>; and the end of the session counts towards the high-water mark.\<close>

definition open_ok :: "gap_buffer \<Rightarrow> bool" where
  "open_ok g \<longleftrightarrow> (\<not> gb_seq_synced g \<longrightarrow> gb_high_water g = 0) \<and>
    (gb_seq_synced g \<and> gb_next_expected g < gb_high_water g \<longrightarrow> gb_in_gap g) \<and> (gb_eos_seen g \<longrightarrow> gb_eos_seq g \<le> gb_high_water g)"

lemma open_ok_init [simp]: "open_ok (gap_buffer_init cfg retx)"
  by (simp add: open_ok_def gap_buffer_init_def reset_sequence_state_def)

lemma open_ok_check_session: "check_session h g = (b, c, g') \<Longrightarrow> open_ok g \<Longrightarrow> open_ok g'"
  by (auto simp: check_session_def open_ok_def Let_def reset_sequence_state_def split: if_splits)

lemma open_ok_sync_first: "open_ok g \<Longrightarrow> open_ok (sync_first h g) \<and> (gb_seq_synced (sync_first h g) \<or> mh_seq_num h = 0)"
  by (auto simp: sync_first_def open_ok_def)

lemma open_ok_timeout: "check_gap_timeout t g = (c, g') \<Longrightarrow> open_ok g \<Longrightarrow> open_ok g'"
  by (auto simp: check_gap_timeout_def open_ok_def Let_def split: if_splits)

lemma open_ok_update:
  "update_gap_state t g = (c, g') \<Longrightarrow> gb_seq_synced g \<Longrightarrow> gb_eos_seen g \<longrightarrow> gb_eos_seq g \<le> gb_high_water g \<Longrightarrow> open_ok g'"
  by (auto simp: update_gap_state_def handle_gap_def open_ok_def Let_def not_le split: if_splits)

lemma open_ok_control:
  assumes "ingest_control h t g = (c, g')" "open_ok g" "gb_seq_synced g \<or> mh_seq_num h = 0"
  shows "open_ok g'"
  using assms(1)
proof (rule ingest_control_split)
  let ?g1 = "count_heartbeat h g"
  let ?ga = "note_high_water (mh_seq_num h) ?g1"
  fix c2 g2 c3 g3 c4
  assume x: "(let ga = ?ga in
      if gb_seq_synced g then if mh_seq_num h > gb_next_expected ga then handle_gap (mh_seq_num h) t ga else ([], ga)
      else ([], ?g1)) = (c2, g2)"
    and y: "(if is_end_of_session h then on_end_of_session h g2 else ([], g2)) = (c3, g3)"
    and z: "check_gap_timeout t g3 = (c4, g')"
  have g1: "open_ok ?g1" "gb_seq_synced ?g1 = gb_seq_synced g" using assms(2) by (simp_all add: count_heartbeat_def open_ok_def)
  have "open_ok g2 \<and> (mh_seq_num h \<le> gb_high_water g2)"
  proof (cases "gb_seq_synced g")
    case True
    then have "(if mh_seq_num h > gb_next_expected ?ga then handle_gap (mh_seq_num h) t ?ga else ([], ?ga)) = (c2, g2)"
      using x by (simp add: Let_def)
    then show ?thesis using True g1
      by (auto simp: open_ok_def note_high_water_def handle_gap_def Let_def not_less split: if_splits)
  next
    case False
    then show ?thesis using x g1 assms(3) by simp
  qed
  then have "open_ok g3" using y by (auto simp: on_end_of_session_def open_ok_def split: if_splits)
  with z show ?thesis by (rule open_ok_timeout)
qed

lemma open_ok_data:
  assumes "ingest_data h payload t g = (n, c, g')" "open_ok g"
  shows "open_ok g'"
proof (cases "gb_seq_synced g")
  case False
  then show ?thesis using assms by (auto simp: ingest_data_def open_ok_def Let_def)
next
  case True
  from True assms(1) show ?thesis
  proof (cases rule: ingest_data_cases)
    case (duplicate g3)
    note K = gb_coreD [OF duplicate(2)]
    have "gb_next_expected g < gb_high_water g" if "gb_next_expected g < gb_high_water g3"
      using that duplicate(1,6) by (auto simp: max_def split: if_splits)
    then have "open_ok g3" using assms(2) True duplicate(3,4,7,8) K(2,7) by (auto simp: open_ok_def intro: order.trans)
    with duplicate(5) show ?thesis by (rule open_ok_timeout)
  next
    case (taken c3 g3 c4 g4 c5 g5 c6)
    have f: "gb_high_water g4 = gb_high_water g3" "gb_eos_seen g4 = gb_eos_seen g3" "gb_eos_seq g4 = gb_eos_seq g3" "env g4 = env g3"
      using fixed_walk [OF taken(3)] by (simp_all add: fixed_def)
    have "gb_seq_synced g4" using True f(4) gb_coreD(7) [OF taken(1)] by (simp add: env_def)
    moreover have "gb_eos_seen g4 \<longrightarrow> gb_eos_seq g4 \<le> gb_high_water g4"
      using assms(2) f taken(8,9,10) by (auto simp: open_ok_def intro: order.trans)
    ultimately have "open_ok g5" by (rule open_ok_update [OF taken(4)])
    with taken(5) show ?thesis by (rule open_ok_timeout)
  qed
qed

lemma open_ok_step:
  assumes "gb_step i g = (c, g')" "open_ok g"
  shows "open_ok g'"
proof (cases i)
  case (Tick t)
  then have "check_gap_timeout t g = (c, g')" using assms(1) by (simp add: gb_tick_def)
  from open_ok_timeout [OF this assms(2)] show ?thesis .
next
  case (Datagram payload t)
  show ?thesis
  proof (cases "mold_header_parse payload")
    case None
    then show ?thesis using assms Datagram by (simp add: ingest_def)
  next
    case (Some h)
    obtain ok c0 g0 where k: "check_session h g = (ok, c0, g0)" by (metis prod_cases3)
    note g0 = open_ok_check_session [OF k assms(2)] and g1 = open_ok_sync_first [OF open_ok_check_session [OF k assms(2)], of h]
    show ?thesis
      using assms(1) Datagram Some k g0
      by (auto simp: ingest_def Let_def split: prod.splits if_splits
        intro: open_ok_control [OF _ conjunct1 [OF g1] conjunct2 [OF g1]] open_ok_data [OF _ conjunct1 [OF g1]])
  qed
qed

lemma open_ok_run: "gb_run ins g = (c, g') \<Longrightarrow> open_ok g \<Longrightarrow> open_ok g'"
proof (induction ins arbitrary: g c)
  case (Cons i "is")
  obtain c1 g1 where s: "gb_step i g = (c1, g1)" by force
  with Cons.IH [OF _ open_ok_step [OF s Cons.prems(2)]] Cons.prems(1) show ?case by (auto split: prod.splits)
qed simp

section \<open>The high-water mark only rises\<close>

lemma high_water_kept:
  "handle_gap f t g = (c, g') \<Longrightarrow> gb_high_water g' = gb_high_water g"
  "check_gap_timeout t g = (c, g') \<Longrightarrow> gb_high_water g' = gb_high_water g"
  "update_gap_state t g = (c, g') \<Longrightarrow> gb_high_water g' = gb_high_water g"
  by (auto simp: handle_gap_def check_gap_timeout_def update_gap_state_def Let_def split: if_splits)

lemma high_water_data:
  assumes "ingest_data h payload t g = (n, c, g')" "gb_seq_synced g"
  shows "gb_high_water g \<le> gb_high_water g'"
  using assms(2,1)
proof (cases rule: ingest_data_cases)
  case (duplicate g3)
  then show ?thesis using high_water_kept(2) [OF duplicate(5)] by simp
next
  case (taken c3 g3 c4 g4 c5 g5 c6)
  have "gb_high_water g4 = gb_high_water g3" using fixed_walk [OF taken(3)] by (simp add: fixed_def)
  then show ?thesis using taken(10) high_water_kept(3) [OF taken(4)] high_water_kept(2) [OF taken(5)] by simp
qed

lemma high_water_control:
  assumes "ingest_control h t g = (c, g')" "gb_seq_synced g"
  shows "gb_high_water g \<le> gb_high_water g' \<and> mh_seq_num h \<le> gb_high_water g'"
  using assms(1)
proof (rule ingest_control_split)
  let ?g1 = "count_heartbeat h g"
  let ?ga = "note_high_water (mh_seq_num h) ?g1"
  fix c2 g2 c3 g3 c4
  assume x: "(let ga = ?ga in
      if gb_seq_synced g then if mh_seq_num h > gb_next_expected ga then handle_gap (mh_seq_num h) t ga else ([], ga)
      else ([], ?g1)) = (c2, g2)"
    and y: "(if is_end_of_session h then on_end_of_session h g2 else ([], g2)) = (c3, g3)"
    and z: "check_gap_timeout t g3 = (c4, g')"
  have "gb_high_water g \<le> gb_high_water ?ga" "mh_seq_num h \<le> gb_high_water ?ga" by (auto simp: note_high_water_def count_heartbeat_def)
  moreover have "gb_high_water g2 = gb_high_water ?ga"
    using x assms(2) high_water_kept(1) [of "mh_seq_num h" t ?ga c2 g2] by (auto simp: Let_def split: if_splits)
  moreover have "gb_high_water g3 = gb_high_water g2" using y by (auto simp: on_end_of_session_def split: if_splits)
  ultimately show ?thesis using high_water_kept(2) [OF z] by simp
qed

section \<open>A buffer that recovers\<close>

definition recoverable :: "(u64 \<Rightarrow> u8 list) \<Rightarrow> u64 \<Rightarrow> u8 list \<Rightarrow> u64 \<Rightarrow> gb_call list \<Rightarrow> gap_buffer \<Rightarrow> bool" where
  "recoverable C N sess start D g \<longleftrightarrow> (\<exists>ms. run_inv C N start ms D g) \<and> start \<noteq> 0 \<and>
    (gb_session_synced g \<longrightarrow> gb_session g = sess) \<and> (gb_in_gap g \<or> gb_eos_seen g \<longrightarrow> gb_session_synced g) \<and>
    gap_ok g \<and> open_ok g \<and> marks_ok N (gb_eos_seen g) g \<and> gb_retx_set g \<and> gc_max_retransmit_count (gb_cfg g) \<noteq> 0"

lemma recoverableD:
  assumes "recoverable C N sess start D g"
  shows "gb_seq_synced g" "drained g" "0 < unat (gb_next_expected g)" "gb_next_expected g \<le> N" "gb_high_water g \<le> N"
    "delivered D = feed_slice C start (gb_next_expected g)" "gb_in_gap g \<Longrightarrow> gb_session g = sess"
proof -
  obtain ms where I: "run_inv C N start ms D g" "start \<noteq> 0" using assms by (auto simp: recoverable_def)
  note S = sequenced [OF I(1)]
  show "gb_seq_synced g" "drained g" using I by (auto simp: run_inv_def split: if_splits)
  have "0 < unat start" using I(2) by (metis unat_eq_zero neq0_conv)
  with S(2) show "0 < unat (gb_next_expected g)" by (simp add: word_le_nat_alt)
  show "gb_next_expected g \<le> N" "delivered D = feed_slice C start (gb_next_expected g)" by (rule S)+
  show "gb_high_water g \<le> N" using assms by (simp add: recoverable_def marks_ok_def)
  show "gb_in_gap g \<Longrightarrow> gb_session g = sess" using assms by (simp add: recoverable_def)
qed

text \<open>A request within the feed.\<close>

definition legit :: "u64 \<Rightarrow> u8 list \<Rightarrow> retransmit_request \<Rightarrow> bool" where
  "legit N sess rq \<longleftrightarrow> rq_session rq = sess \<and> 0 < unat (rq_first_seq rq) \<and> unat (rq_first_seq rq) + unat (rq_count rq) \<le> unat N"

text \<open>An input of the session: a tick or a packet of the feed.\<close>

definition of_session :: "(u64 \<Rightarrow> u8 list) \<Rightarrow> u64 \<Rightarrow> u8 list \<Rightarrow> gb_input \<Rightarrow> bool" where
  "of_session C N sess i \<longleftrightarrow> (case i of Tick t \<Rightarrow> True
     | Datagram payload t \<Rightarrow> (\<exists>h. mold_header_parse payload = Some h \<and> mh_session h = sess \<and> within_session N h \<and> packet_from_feed C N h payload))"

lemma recoverable_step:
  assumes R: "recoverable C N sess start D g" and s: "gb_step i g = (c, g')" and i: "of_session C N sess i"
  shows "recoverable C N sess start (D @ c) g'" "gb_next_expected g \<le> gb_next_expected g'" "\<forall>rq\<in>set (requests_of c). legit N sess rq"
    "gb_eos_seen g \<longrightarrow> gb_eos_seen g'"
proof -
  obtain ms where I: "run_inv C N start ms D g" and st: "start \<noteq> 0" and se: "gb_session_synced g \<longrightarrow> gb_session g = sess"
    and ok: "gap_ok g" "open_ok g" "marks_ok N (gb_eos_seen g) g" using R by (auto simp: recoverable_def)
  have run: "gb_run [i] g = (c, g')" using s by simp
  have fd: "\<forall>j\<in>set [i]. ready sess j g \<and> from_feed C N sess j"
    using i se by (cases i) (auto simp: of_session_def ready_def)
  note N1 = gb_run_inv [OF run I fd se]
  have I': "run_inv C N start (ms @ arrived sess [i]) (D @ c) g'" using N1 st by simp
  note E = step_env [OF s]
  have m: "marks_ok N (gb_eos_seen g) g'"
  proof (cases i)
    case (Tick t)
    then have "check_gap_timeout t g = (c, g')" using s by (simp add: gb_tick_def)
    from marks_timeout [OF this] ok(3) show ?thesis by simp
  next
    case (Datagram payload t)
    with i obtain h where h: "mold_header_parse payload = Some h" "mh_session h = sess" "within_session N h" by (auto simp: of_session_def)
    from marks_step [OF s [unfolded Datagram] ok(3) h(1,2) se h(3)] show ?thesis by (auto simp: marks_ok_def)
  qed
  then show eos: "gb_eos_seen g \<longrightarrow> gb_eos_seen g'" by (simp add: marks_ok_def)
  have "marks_ok N (gb_eos_seen g') g'" using m by (simp add: marks_ok_def)
  moreover have "gap_ok g'" using gap_ok_run [OF run ok(1)] .
  moreover have "open_ok g'" by (rule open_ok_step [OF s ok(2)])
  ultimately show R': "recoverable C N sess start (D @ c) g'" using R I' st N1 E by (auto simp: recoverable_def)
  have "gb_seq_synced g" "gb_seq_synced g'" by (rule recoverableD(1) [OF R], rule recoverableD(1) [OF R'])
  then have "seq_inv C N start ms D g" "seq_inv C N start (ms @ arrived sess [i]) (D @ c) g'" using I I' by (simp_all add: run_inv_def)
  then show "gb_next_expected g \<le> gb_next_expected g'" by (rule seq_inv_forward)
  show "\<forall>rq\<in>set (requests_of c). legit N sess rq"
  proof
    fix rq assume "rq \<in> set (requests_of c)"
    from step_requests [OF s ok(1) this] have "asked g' rq" .
    then show "legit N sess rq" using recoverableD(3,5,7) [OF R'] by (auto simp: asked_def legit_def word_le_nat_alt)
  qed
qed

text \<open>A control packet of the session reports its number; the mark never falls.\<close>

lemma recoverable_high_water:
  assumes R: "recoverable C N sess start D g" and s: "gb_step i g = (c, g')" and i: "of_session C N sess i"
  shows "gb_high_water g \<le> gb_high_water g'"
    "i = Datagram payload t \<Longrightarrow> mold_header_parse payload = Some h \<Longrightarrow> \<not> is_data h \<Longrightarrow> mh_seq_num h \<le> gb_high_water g'"
    "i = Datagram payload t \<Longrightarrow> mold_header_parse payload = Some h \<Longrightarrow> is_end_of_session h \<Longrightarrow> gb_eos_seen g'"
proof -
  have "gb_high_water g \<le> gb_high_water g' \<and> (\<forall>payload t h. i = Datagram payload t \<and> mold_header_parse payload = Some h \<longrightarrow>
      (\<not> is_data h \<longrightarrow> mh_seq_num h \<le> gb_high_water g') \<and> (is_end_of_session h \<longrightarrow> gb_eos_seen g'))"
  proof (cases i)
    case (Tick t)
    then have "check_gap_timeout t g = (c, g')" using s by (simp add: gb_tick_def)
    then show ?thesis using high_water_kept(2) Tick by simp
  next
    case (Datagram p t)
    with i obtain h where h: "mold_header_parse p = Some h" "mh_session h = sess" "within_session N h" by (auto simp: of_session_def)
    define g0 where "g0 = g\<lparr>gb_session := sess, gb_session_synced := True\<rparr>"
    have se: "gb_session_synced g \<longrightarrow> gb_session g = sess" "marks_ok N (gb_eos_seen g) g" using R by (simp_all add: recoverable_def)
    have cs: "check_session h g = (True, [], g0)" using se(1) h(2) by (cases "gb_session_synced g") (auto simp: check_session_def g0_def)
    have sy: "gb_seq_synced g0" using recoverableD(1) [OF R] by (simp add: g0_def)
    then have s0: "sync_first h g0 = g0" by (simp add: sync_first_def)
    have hw: "gb_high_water g0 = gb_high_water g" by (simp add: g0_def)
    have e: "is_end_of_session h \<longrightarrow> gb_eos_seen g'"
      using marks_step [OF s[unfolded Datagram] se(2) h(1,2) se(1) h(3)] by (simp add: marks_ok_def)
    show ?thesis
    proof (cases "is_data h")
      case True
      then obtain n where "ingest_data h p t g0 = (n, c, g')"
        using s Datagram by (auto simp: ingest_def h(1) cs s0 is_data_def split: prod.splits)
      from high_water_data [OF this sy] show ?thesis using Datagram h(1) hw True e by simp
    next
      case False
      then have "ingest_control h t g0 = (c, g')"
        using s Datagram by (auto simp: ingest_def h(1) cs s0 is_data_def split: prod.splits)
      from high_water_control [OF this sy] show ?thesis using Datagram h(1) hw e by simp
    qed
  qed
  then show "gb_high_water g \<le> gb_high_water g'"
    "i = Datagram payload t \<Longrightarrow> mold_header_parse payload = Some h \<Longrightarrow> \<not> is_data h \<Longrightarrow> mh_seq_num h \<le> gb_high_water g'"
    "i = Datagram payload t \<Longrightarrow> mold_header_parse payload = Some h \<Longrightarrow> is_end_of_session h \<Longrightarrow> gb_eos_seen g'" by blast+
qed

text \<open>What a run of such inputs leaves and how it moves on.\<close>

definition moves :: "gap_buffer \<Rightarrow> gap_buffer \<Rightarrow> bool" where
  "moves g g' \<longleftrightarrow> gb_next_expected g \<le> gb_next_expected g' \<and> gb_high_water g \<le> gb_high_water g' \<and>
    (gb_eos_seen g \<longrightarrow> gb_eos_seen g') \<and> gb_cfg g' = gb_cfg g"

lemma moves_refl [simp]: "moves g g"
  by (simp add: moves_def)

lemma moves_trans: "moves g g1 \<Longrightarrow> moves g1 g2 \<Longrightarrow> moves g g2"
  by (auto simp: moves_def intro: order.trans)

lemma recoverable_run:
  "recoverable C N sess start D g \<Longrightarrow> \<forall>i\<in>set ins. of_session C N sess i \<Longrightarrow> gb_run ins g = (c, g') \<Longrightarrow>
    recoverable C N sess start (D @ c) g' \<and> moves g g' \<and> (\<forall>rq\<in>set (requests_of c). legit N sess rq)"
proof (induction ins arbitrary: g D c)
  case (Cons i "is")
  obtain c1 g1 where s: "gb_step i g = (c1, g1)" by force
  obtain c2 where r: "gb_run is g1 = (c2, g')" "c = c1 @ c2"
    using Cons.prems(3) s by (auto simp del: gb_step.simps split: prod.splits)
  have i: "of_session C N sess i" using Cons.prems(2) by simp
  note S = recoverable_step [OF Cons.prems(1) s i]
  have "moves g g1" using S recoverable_high_water(1) [OF Cons.prems(1) s i] step_env [OF s] by (simp add: moves_def)
  moreover have "recoverable C N sess start ((D @ c1) @ c2) g' \<and> moves g1 g' \<and> (\<forall>rq\<in>set (requests_of c2). legit N sess rq)"
    by (rule Cons.IH [OF S(1) _ r(1)]) (use Cons.prems(2) in simp)
  ultimately show ?case using S(3) r(2) by (auto intro: moves_trans)
qed simp

section \<open>Replies\<close>

definition valid_reply :: "(u64 \<Rightarrow> u8 list) \<Rightarrow> u64 \<Rightarrow> u64 \<Rightarrow> nat \<Rightarrow> bool" where
  "valid_reply C N f k \<longleftrightarrow> 0 < unat f \<and> 0 < k \<and> k < 65535 \<and> unat f + k \<le> unat N \<and> (\<forall>i<k. length (C (f + of_nat i)) < 2 ^ 16)"

lemma reply_of_session:
  assumes v: "valid_reply C N f k" and l: "length sess = 10"
  defines "h \<equiv> \<lparr>mh_session = sess, mh_seq_num = f, mh_msg_count = of_nat k\<rparr>"
  shows "mold_header_parse (feed_packet_of C sess f k) = Some h" "is_data h" "packet_from_feed C N h (feed_packet_of C sess f k)"
    "length (data_msgs h (feed_packet_of C sess f k)) = k" "of_session C N sess (Datagram (feed_packet_of C sess f k) t)"
proof -
  have V: "0 < unat f" "0 < k" "k < 65535" "unat f + k \<le> unat N" "\<forall>i<k. length (C (f + of_nat i)) < 2 ^ 16"
    using v by (simp_all add: valid_reply_def)
  note P = feed_packet_of_read [OF l V(2,3,5), folded h_def]
  show "mold_header_parse (feed_packet_of C sess f k) = Some h" "is_data h" by (rule P(1), rule P(2))
  have hs: "mh_seq_num h = f" "mh_session h = sess" by (simp_all add: h_def)
  have f0: "f \<noteq> 0" using V(1) by auto
  have fN: "f \<le> N" using V(4) by (simp add: word_le_nat_alt)
  show pf: "packet_from_feed C N h (feed_packet_of C sess f k)"
    using V(4) f0 fN by (auto simp: packet_from_feed_def hs P(3,4))
  show "length (data_msgs h (feed_packet_of C sess f k)) = k" by (simp add: P(4))
  have "mh_seq_num h + ucast (mh_msg_count h) \<le> N" using packet_end [OF pf P(2)] V(4) by (simp add: word_le_nat_alt hs P(3))
  then have "within_session N h" using fN P(2) by (simp add: within_session_def hs is_data_def)
  then show "of_session C N sess (Datagram (feed_packet_of C sess f k) t)" using P(1) pf hs(2) by (auto simp: of_session_def)
qed

lemma reply_step:
  assumes R: "recoverable C N sess start D g" and l: "length sess = 10" and v: "valid_reply C N f k"
    and s: "gb_step (Datagram (feed_packet_of C sess f k) t) g = (c, g')" and le: "f \<le> gb_next_expected g"
  shows "unat f + k \<le> unat (gb_next_expected g')"
proof -
  let ?h = "\<lparr>mh_session = sess, mh_seq_num = f, mh_msg_count = of_nat k\<rparr>"
  note P = reply_of_session [OF v l]
  obtain ms where I: "run_inv C N start ms D g" "gb_session_synced g \<longrightarrow> gb_session g = sess" using R by (auto simp: recoverable_def)
  from reply_forward [OF I(1) recoverableD(1) [OF R] I(2) P(1) _ P(2,3) _ s] le P(4) show ?thesis by simp
qed

section \<open>The server's poll\<close>

text \<open>A request beyond what is stored is cut; what the server sends is of the feed, or nothing.\<close>

lemma answer_clip:
  assumes sv: "serves C M sess sv" and n: "0 < unat (rq_first_seq rq)" "unat (rq_first_seq rq) < unat M"
    "unat (rq_first_seq rq) + unat (rq_count rq) < 2 ^ 64"
  shows "answer rq sent sv = answer (rq\<lparr>rq_count := of_nat (min (unat (rq_count rq)) (unat M - unat (rq_first_seq rq)))\<rparr>) sent sv"
proof -
  let ?f = "rq_first_seq rq" and ?c = "rq_count rq"
  let ?d = "min (unat ?c) (unat M - unat ?f)"
  have h: "Suc (length (sv_store sv)) = unat M" using sv by (simp add: serves_def holds_feed_def)
  have L: "of_nat (length (sv_store sv)) + 1 = M"
  proof -
    have "M = of_nat (Suc (length (sv_store sv)))" unfolding h by simp
    then show ?thesis by simp
  qed
  have "?d < 2 ^ 16" using unsigned_less [of ?c, where ?'a = nat] by simp
  then have d: "unat (of_nat ?d :: u16) = ?d" by (simp only: unsigned_of_nat) (simp add: take_bit_nat_eq_self)
  have u: "unat (?f + ucast ?c) = unat ?f + unat ?c"
    using n(3) unat_add_no_wrap [of ?f "ucast ?c"] by (simp add: unat_ucast_u16_u64)
  have v: "unat (?f + ucast (of_nat ?d :: u16)) = unat ?f + ?d"
    using n(3) d unat_add_no_wrap [of ?f "ucast (of_nat ?d :: u16)"] by (simp add: unat_ucast_u16_u64)
  have "min M (?f + ucast ?c) = min M (?f + ucast (of_nat ?d :: u16))"
    using u v n(2) by (intro word_unat_eq_iff [THEN iffD2]) (simp add: unat_min)
  then have e: "min M (?f + ucast (rq_count (rq\<lparr>rq_count := of_nat ?d\<rparr>))) = min M (?f + ucast ?c)" by simp
  have r: "rq_first_seq (rq\<lparr>rq_count := of_nat ?d\<rparr>) = ?f" by simp
  show ?thesis unfolding answer_def Let_def L r e ..
qed

lemma answer_unsent:
  assumes "answer rq True sv = Some (True, [pkt], sv')"
  shows "\<exists>sv''. answer rq False sv = Some (True, [], sv'') \<and> sv_store sv'' = sv_store sv \<and> sv_cfg sv'' = sv_cfg sv"
  using assms by (auto simp: answer_def Let_def split: if_splits option.splits)

lemma answer_any:
  assumes sv: "serves C M sess sv" and MN: "unat M \<le> unat N" and rq: "legit N sess rq" "rq_count rq \<noteq> 0"
  shows "\<exists>ok fks sv'. answer rq sent sv = Some (ok, map (\<lambda>(f, k). feed_packet_of C sess f k) fks, sv') \<and>
    (\<forall>(f, k)\<in>set fks. valid_reply C N f k) \<and> serves C M sess sv' \<and> (M = N \<and> sent \<longrightarrow> map fst fks = [rq_first_seq rq])"
proof (cases "unat (rq_first_seq rq) < unat M")
  case False
  have h: "Suc (length (sv_store sv)) = unat M" using sv by (simp add: serves_def holds_feed_def)
  have L: "of_nat (length (sv_store sv)) + 1 = M"
  proof -
    have "M = of_nat (Suc (length (sv_store sv)))" unfolding h by simp
    then show ?thesis by simp
  qed
  have "M \<le> rq_first_seq rq" using False by (simp add: word_le_nat_alt)
  then have "answer rq sent sv = Some (False, map (\<lambda>(f, k). feed_packet_of C sess f k) [], sv\<lparr>sv_rejected := sv_rejected sv + 1\<rparr>)"
    by (simp add: answer_def L)
  moreover have "serves C M sess (sv\<lparr>sv_rejected := sv_rejected sv + 1\<rparr>)" using serves_cong [of "sv\<lparr>sv_rejected := sv_rejected sv + 1\<rparr>" sv] sv by simp
  moreover have "0 < unat (rq_count rq)" using rq(2) by (simp add: unat_gt_0)
  then have "M \<noteq> N" using False rq(1) by (auto simp: legit_def)
  ultimately show ?thesis by (intro exI [of _ False] exI [of _ "[]"] exI [of _ "sv\<lparr>sv_rejected := sv_rejected sv + 1\<rparr>"]) simp
next
  case True
  let ?f = "rq_first_seq rq"
  let ?d = "min (unat (rq_count rq)) (unat M - unat ?f)"
  have n: "0 < unat (rq_count rq)" "0 < unat ?f" "unat ?f + unat (rq_count rq) \<le> unat N"
    using rq by (simp_all add: legit_def unat_gt_0)
  have "?d < 2 ^ 16" using unsigned_less [of "rq_count rq", where ?'a = nat] by simp
  then have d: "?d = unat (of_nat ?d :: u16)" by (simp only: unsigned_of_nat) (simp add: take_bit_nat_eq_self)
  have dn: "0 < ?d" "unat ?f + ?d \<le> unat M" using True n by auto
  have lt: "unat ?f + unat (rq_count rq) < 2 ^ 64" using n(3) unat_u64_less [of N] by simp
  have e: "rq\<lparr>rq_count := of_nat ?d\<rparr> = \<lparr>rq_session = rq_session rq, rq_first_seq = ?f, rq_count = of_nat ?d\<rparr>" by simp
  from answer_reply [OF sv n(2) d dn, of "rq_session rq"] obtain k sv' where
    a: "answer rq True sv = Some (True, [feed_packet_of C sess ?f k], sv')" and
    k: "0 < k" "k \<le> ?d" "k < 65535" "\<forall>i<k. length (C (?f + of_nat i)) < 2 ^ 16" "sv_store sv' = sv_store sv" "sv_cfg sv' = sv_cfg sv"
    unfolding e [symmetric] answer_clip [OF sv n(2) True lt, symmetric] by blast
  have "unat ?f + k \<le> unat N" using k(2) dn(2) MN by linarith
  then have v: "valid_reply C N ?f k" using k(1,3,4) n(2) by (simp add: valid_reply_def)
  show ?thesis
  proof (cases sent)
    case True
    have "serves C M sess sv'" using serves_cong [OF k(5,6)] sv by simp
    then show ?thesis using a v True by (intro exI [of _ True] exI [of _ "[(?f, k)]"] exI [of _ sv']) simp
  next
    case False
    from answer_unsent [OF a] obtain sv2 where "answer rq False sv = Some (True, [], sv2)" "sv_store sv2 = sv_store sv" "sv_cfg sv2 = sv_cfg sv" by blast
    then show ?thesis using serves_cong [of sv2 sv] sv False by (intro exI [of _ True] exI [of _ "[]"] exI [of _ sv2]) simp
  qed
qed

lemma poll_serves:
  "serves C M sess sv \<Longrightarrow> unat M \<le> unat N \<Longrightarrow> \<forall>rq\<in>set rqs. legit N sess rq \<and> rq_count rq \<noteq> 0 \<Longrightarrow>
    \<exists>served fks sv'. server_poll (zip (map request_serialise rqs) sents) sv =
        Some (served, map (\<lambda>(f, k). feed_packet_of C sess f k) fks, sv') \<and> serves C M sess sv' \<and>
      (\<forall>(f, k)\<in>set fks. valid_reply C N f k) \<and> (M = N \<and> sents = replicate (length rqs) True \<longrightarrow> map fst fks = map rq_first_seq rqs)"
proof (induction rqs arbitrary: sv sents)
  case Nil
  then show ?case by (intro exI [of _ 0] exI [of _ "[]"] exI [of _ sv]) simp
next
  case (Cons rq rqs)
  show ?case
  proof (cases sents)
    case Nil
    then show ?thesis using Cons.prems by (intro exI [of _ 0] exI [of _ "[]"] exI [of _ sv]) simp
  next
    case s: (Cons sent sents')
    let ?sv1 = "sv\<lparr>sv_requests := sv_requests sv + 1\<rparr>"
    have sv1: "serves C M sess ?sv1" using serves_cong [of ?sv1 sv] Cons.prems(1) by simp
    have rq: "legit N sess rq" "rq_count rq \<noteq> 0" using Cons.prems(3) by simp_all
    have l: "length (rq_session rq) = 10" "rq_session rq = sc_session (sv_cfg sv)" "rq_first_seq rq \<noteq> 0"
      using Cons.prems(1) rq(1) by (auto simp: serves_def legit_def)
    have p: "request_parse (take 64 (request_serialise rq)) = Some rq"
      using request_parse_serialise [OF l(1), of "[]"] l(1) by (simp add: request_serialise_def)
    from answer_any [OF sv1 Cons.prems(2) rq, of sent] obtain ok fks sv2 where
      a: "answer rq sent ?sv1 = Some (ok, map (\<lambda>(f, k). feed_packet_of C sess f k) fks, sv2)" "\<forall>(f, k)\<in>set fks. valid_reply C N f k"
        "serves C M sess sv2" "M = N \<and> sent \<longrightarrow> map fst fks = [rq_first_seq rq]" by (elim exE conjE) (rule that)
    from Cons.IH [OF a(3) Cons.prems(2), of sents'] Cons.prems(3) obtain served fks' sv3 where
      i: "server_poll (zip (map request_serialise rqs) sents') sv2 = Some (served, map (\<lambda>(f, k). feed_packet_of C sess f k) fks', sv3)"
        "serves C M sess sv3" "\<forall>(f, k)\<in>set fks'. valid_reply C N f k"
        "M = N \<and> sents' = replicate (length rqs) True \<longrightarrow> map fst fks' = map rq_first_seq rqs" by auto
    show ?thesis
      by (intro exI [of _ "if ok then Suc served else served"] exI [of _ "fks @ fks'"] exI [of _ sv3])
        (use p l(2,3) rq(2) a i s in \<open>auto simp: Let_def\<close>)
  qed
qed

section \<open>Requests on their way\<close>

definition on_their_way :: "u64 \<Rightarrow> u8 list \<Rightarrow> u8 list list \<Rightarrow> bool" where
  "on_their_way N sess reqs \<longleftrightarrow> (\<exists>rqs. reqs = map request_serialise rqs \<and> (\<forall>rq\<in>set rqs. legit N sess rq \<and> rq_count rq \<noteq> 0))"

lemma sent_requests_alt: "sent_requests cs = map request_serialise (filter (\<lambda>rq. rq_count rq \<noteq> 0) (requests_of cs))"
proof (induction cs)
  case (Cons c cs)
  then show ?case by (cases c) (simp_all add: sent_requests_def retx_send_def)
qed (simp add: sent_requests_def)

lemma sent_legit: "\<forall>rq\<in>set (requests_of cs). legit N sess rq \<Longrightarrow> on_their_way N sess (sent_requests cs)"
  unfolding on_their_way_def sent_requests_alt by (intro exI conjI refl) auto

lemma on_their_way_append: "on_their_way N sess reqs \<Longrightarrow> on_their_way N sess reqs' \<Longrightarrow> on_their_way N sess (reqs @ reqs')"
  unfolding on_their_way_def by (metis Un_iff map_append set_append)

lemma missing_something:
  assumes "recoverable C N sess start D g" "gb_in_gap g"
  shows "0 < missing_count g" "unat (of_nat (missing_count g) :: u16) = missing_count g"
proof -
  have lt: "gb_next_expected g < gb_high_water g" and mx: "gc_max_retransmit_count (gb_cfg g) \<noteq> 0"
    using assms by (auto simp: recoverable_def gap_ok_def)
  note M = missing_run_exact [OF lt]
  have "unat (gc_max_retransmit_count (gb_cfg g)) \<noteq> 0" using mx by (simp add: unat_eq_zero)
  moreover have "unat (gb_next_expected g) < unat (gb_high_water g)" using lt by (simp add: word_less_nat_alt)
  moreover have "\<not> present g (next_seqs g 0)" using recoverableD(2) [OF assms(1)] by (simp add: next_seqs_def)
  ultimately show "0 < missing_count g" using M(4) by (metis add_0_right less_not_refl neq0_conv)
  have "missing_count g < 2 ^ 16" using M(1) unsigned_less [of "gc_max_retransmit_count (gb_cfg g)", where ?'a = nat] by simp
  then show "unat (of_nat (missing_count g) :: u16) = missing_count g"
    by (simp only: unsigned_of_nat) (simp add: take_bit_nat_eq_self)
qed

lemma due_gap_requests:
  assumes R: "recoverable C N sess start D g" and due: "gb_in_gap g" "request_due now g"
  shows "\<exists>rq. fst (gb_tick now g) = [OnRetransmitRequest rq] \<and> rq_first_seq rq = gb_next_expected g \<and> rq_count rq \<noteq> 0"
proof -
  have ok: "gap_ok g" "gb_retx_set g" using R by (simp_all add: recoverable_def)
  note M = missing_something [OF R due(1)]
  have "(of_nat (missing_count g) :: u16) \<noteq> 0" using M by (metis less_not_refl unsigned_0)
  then show ?thesis using tick_request [OF ok(1), of now] due ok(2) M(1)
    by (intro exI [of _ "\<lparr>rq_session = gb_session g, rq_first_seq = gb_next_expected g, rq_count = of_nat (missing_count g)\<rparr>"]) simp
qed

text \<open>No gap open after the end was seen: everything is there.\<close>

lemma recovered_complete:
  assumes "recoverable C N sess start D g" "gb_eos_seen g" "\<not> gb_in_gap g"
  shows "session_complete g" "gb_next_expected g = N"
proof -
  have s: "gb_seq_synced g" by (rule recoverableD(1) [OF assms(1)])
  have e: "gb_eos_seq g = N" "gb_eos_seq g \<le> gb_high_water g" "\<not> gb_next_expected g < gb_high_water g"
    using assms s by (auto simp: recoverable_def marks_ok_def open_ok_def)
  then show "gb_next_expected g = N" using recoverableD(4) [OF assms(1)] by simp
  then show "session_complete g" using e(1) assms(2,3) by (simp add: session_complete_def)
qed

end
