(* ===== verification/Live_System.thy ===== *)
theory Live_System
  imports Recovery_Loop Live_Pipeline
begin

text \<open>
  The live demo as a whole: \<^verbatim>\<open>send_live_itch\<close> with its re-request server's thread, the network, and the
  receiving thread of \<^verbatim>\<open>run_live_pipeline\<close>. Each takes turns, in any order and as often as may be. The
  network may lose, repeat and reorder whatever is on its way.
\<close>

section \<open>States and turns\<close>

text \<open>
  Where the sender is: at packet \<open>k\<close> of its loop, in the period of heartbeats, having sent \<open>i\<close> of the three
  ends of session, or returned, with the server's thread stopped.
\<close>

datatype sender_point = Sending nat | Lingering | Ending nat | Stopped

text \<open>
  The datagrams on their way to the multicast socket, to the server and to the client; \<^verbatim>\<open>last_tick\<close> of the
  receiving loop; the calls the buffer has made so far.
\<close>

record live_system =
  sy_sender :: sender_point
  sy_server :: rerequest_server
  sy_line :: "u8 list list"
  sy_requests :: "u8 list list"
  sy_replies :: "u8 list list"
  sy_last_tick :: u64
  sy_buffer :: gap_buffer
  sy_calls :: "gb_call list"

definition live_start :: "u64 \<Rightarrow> live_system" where
  "live_start t0 = \<lparr>sy_sender = Sending 1, sy_server = server_init server_config_default, sy_line = [], sy_requests = [],
     sy_replies = [], sy_last_tick = t0, sy_buffer = gap_buffer_init recovering True, sy_calls = []\<rparr>"

text \<open>
  One step of the sender. A packet is recorded before it is dropped or sent; a failed send leaves the loop.
  \<open>lingers\<close>: the clock is before the end of the period of heartbeats.
\<close>

definition sender_turn :: "(nat \<Rightarrow> bool) \<Rightarrow> (nat \<Rightarrow> bool) \<Rightarrow> nat \<Rightarrow> bool \<Rightarrow> live_system \<Rightarrow> live_system" where
  "sender_turn dropped sent n lingers s = (case sy_sender s of
     Sending k \<Rightarrow>
       if k \<le> n then
         (let s1 = s\<lparr>sy_server := record_packet (live_packet k) (sy_server s)\<rparr> in
          if dropped k then s1\<lparr>sy_sender := Sending (Suc k)\<rparr>
          else if sent k then s1\<lparr>sy_sender := Sending (Suc k), sy_line := sy_line s @ [live_packet k]\<rparr>
          else s1\<lparr>sy_sender := Lingering\<rparr>)
       else s\<lparr>sy_sender := Lingering\<rparr>
   | Lingering \<Rightarrow>
       if lingers then s\<lparr>sy_line := sy_line s @ [send_ctl (of_nat n) kMoldHeartbeatCount]\<rparr> else s\<lparr>sy_sender := Ending 0\<rparr>
   | Ending i \<Rightarrow>
       if i < 3 then s\<lparr>sy_sender := Ending (Suc i), sy_line := sy_line s @ [send_ctl (of_nat n) kMoldEndOfSessionCount]\<rparr>
       else s\<lparr>sy_sender := Stopped\<rparr>
   | Stopped \<Rightarrow> s)"

text \<open>
  One iteration of \<^verbatim>\<open>MulticastReceiver::run\<close>. \<open>hears\<close>: a datagram of the line has arrived, with this kernel
  timestamp (or 0); \<open>polls\<close>: the clock's readings for the replies that have arrived, of which the client takes
  64 at most. What arrives between two calls of an iteration arrives in an iteration of its own.
\<close>

definition turn_round :: "u64 option \<Rightarrow> u64 \<Rightarrow> u64 list \<Rightarrow> u64 \<Rightarrow> live_system \<Rightarrow> live_round" where
  "turn_round hears recv_ns polls now s =
    \<lparr>lr_packet = (case (hears, sy_line s) of (Some sw_ns, d # _) \<Rightarrow> Some (d, sw_ns) | _ \<Rightarrow> None),
     lr_recv_ns = recv_ns, lr_replies = zip (sy_replies s) polls, lr_now = now\<rparr>"

definition receiver_turn :: "u64 option \<Rightarrow> u64 \<Rightarrow> u64 list \<Rightarrow> u64 \<Rightarrow> live_system \<Rightarrow> live_system" where
  "receiver_turn hears recv_ns polls now s =
    (let r = turn_round hears recv_ns polls now s;
         (cs, g) = gb_run (receiver_run True (sy_last_tick s) [r]) (sy_buffer s)
     in s\<lparr>sy_line := drop (length (recv_one r)) (sy_line s),
          sy_requests := sy_requests s @ sent_requests cs,
          sy_replies := drop (length (retx_poll r)) (sy_replies s),
          sy_last_tick := (if now - sy_last_tick s \<ge> kTickInterval then now else sy_last_tick s),
          sy_buffer := g,
          sy_calls := sy_calls s @ cs\<rparr>)"

text \<open>One poll of the server's thread, of the requests that have arrived: what \<^verbatim>\<open>sendto\<close> does with each reply.\<close>

definition server_turn :: "bool list \<Rightarrow> live_system \<Rightarrow> live_system option" where
  "server_turn sents s =
    (if sy_sender s = Stopped then Some s
     else map_option (\<lambda>(served, replies, sv). s\<lparr>sy_server := sv, sy_requests := drop (length sents) (sy_requests s),
         sy_replies := sy_replies s @ replies\<rparr>)
       (server_poll (zip (sy_requests s) sents) (sy_server s)))"

text \<open>The network: what is on its way is replaced by these of its datagrams, in this order.\<close>

definition pick :: "nat list \<Rightarrow> 'a list \<Rightarrow> 'a list" where
  "pick is xs = map ((!) xs) (filter (\<lambda>i. i < length xs) is)"

definition network_turn :: "nat list \<Rightarrow> nat list \<Rightarrow> nat list \<Rightarrow> live_system \<Rightarrow> live_system" where
  "network_turn is js ks s = s\<lparr>sy_line := pick is (sy_line s), sy_requests := pick js (sy_requests s), sy_replies := pick ks (sy_replies s)\<rparr>"

datatype live_act =
    SenderTurn bool
  | ReceiverTurn "u64 option" u64 "u64 list" u64
  | ServerTurn "bool list"
  | NetworkTurn "nat list" "nat list" "nat list"

fun live_turn :: "(nat \<Rightarrow> bool) \<Rightarrow> (nat \<Rightarrow> bool) \<Rightarrow> nat \<Rightarrow> live_system \<Rightarrow> live_act \<Rightarrow> live_system option" where
  "live_turn dropped sent n s (SenderTurn lingers) = Some (sender_turn dropped sent n lingers s)"
| "live_turn dropped sent n s (ReceiverTurn hears recv_ns polls now) = Some (receiver_turn hears recv_ns polls now s)"
| "live_turn dropped sent n s (ServerTurn sents) = server_turn sents s"
| "live_turn dropped sent n s (NetworkTurn is js ks) = Some (network_turn is js ks s)"

fun live_run :: "(nat \<Rightarrow> bool) \<Rightarrow> (nat \<Rightarrow> bool) \<Rightarrow> nat \<Rightarrow> live_system \<Rightarrow> live_act list \<Rightarrow> live_system option" where
  "live_run dropped sent n s [] = Some s"
| "live_run dropped sent n s (a # as) = Option.bind (live_turn dropped sent n s a) (\<lambda>s1. live_run dropped sent n s1 as)"

lemma live_run_append:
  "live_run dropped sent n s (as @ bs) = Option.bind (live_run dropped sent n s as) (\<lambda>s1. live_run dropped sent n s1 bs)"
  by (induction as arbitrary: s) (simp_all split: bind_split)

lemma set_pick: "set (pick is xs) \<subseteq> set xs"
  by (auto simp: pick_def)

section \<open>The receiving thread is the one of the pipeline\<close>

lemma receiver_run_append:
  "receiver_run client t (rs @ [r]) =
    receiver_run client t rs @ receiver_run client (fold (\<lambda>r t. if lr_now r - t \<ge> kTickInterval then lr_now r else t) rs t) [r]"
  by (induction rs arbitrary: t) simp_all

lemma gb_run_append:
  "gb_run (is @ js) g = (let (c, g1) = gb_run is g; (c', g2) = gb_run js g1 in (c @ c', g2))"
  by (induction "is" arbitrary: g) (auto simp: Let_def split: prod.splits)

definition received_by :: "u64 \<Rightarrow> live_system \<Rightarrow> bool" where
  "received_by t0 s \<longleftrightarrow> (\<exists>rounds. gb_run (receiver_run True t0 rounds) (gap_buffer_init recovering True) = (sy_calls s, sy_buffer s) \<and>
    sy_last_tick s = fold (\<lambda>r t. if lr_now r - t \<ge> kTickInterval then lr_now r else t) rounds t0)"

lemma received_turn:
  assumes "live_turn dropped sent n s a = Some s'" "received_by t0 s"
  shows "received_by t0 s'"
proof (cases a)
  case (ReceiverTurn hears recv_ns polls now)
  from assms(2) obtain rounds where R: "gb_run (receiver_run True t0 rounds) (gap_buffer_init recovering True) = (sy_calls s, sy_buffer s)"
    "sy_last_tick s = fold (\<lambda>r t. if lr_now r - t \<ge> kTickInterval then lr_now r else t) rounds t0" unfolding received_by_def by blast
  let ?r = "turn_round hears recv_ns polls now s"
  obtain cs g where g: "gb_run (receiver_run True (sy_last_tick s) [?r]) (sy_buffer s) = (cs, g)" by force
  have now: "lr_now ?r = now" by (simp add: turn_round_def)
  have s': "s' = receiver_turn hears recv_ns polls now s" using assms(1) ReceiverTurn by simp
  have "gb_run (receiver_run True t0 (rounds @ [?r])) (gap_buffer_init recovering True) = (sy_calls s', sy_buffer s')"
    unfolding receiver_run_append gb_run_append R(1) R(2) [symmetric] using g by (simp add: s' receiver_turn_def Let_def)
  moreover have "sy_last_tick s' = fold (\<lambda>r t. if lr_now r - t \<ge> kTickInterval then lr_now r else t) (rounds @ [?r]) t0"
    using g R(2) now by (simp add: s' receiver_turn_def Let_def)
  ultimately show ?thesis unfolding received_by_def by blast
next
  case (SenderTurn b)
  with assms show ?thesis by (auto simp: sender_turn_def received_by_def Let_def split: sender_point.splits if_splits)
next
  case (ServerTurn sents)
  with assms show ?thesis by (auto simp: server_turn_def received_by_def split: if_splits)
next
  case (NetworkTurn is' js ks)
  with assms show ?thesis by (auto simp: network_turn_def received_by_def)
qed

lemma received_run: "live_run dropped sent n s as = Some s' \<Longrightarrow> received_by t0 s \<Longrightarrow> received_by t0 s'"
  by (induction as arbitrary: s) (auto simp: bind_eq_Some_conv dest: received_turn)

lemma received_start: "received_by t0 (live_start t0)"
  unfolding received_by_def by (intro exI [of _ "[]"]) (simp add: live_start_def)

section \<open>The invariant\<close>

abbreviation live_session :: "u8 list" where "live_session \<equiv> replicate 10 ch_space"
abbreviation live_replies :: "(u64 \<times> nat) list \<Rightarrow> u8 list list" where
  "live_replies fks \<equiv> map (\<lambda>(f, k). feed_packet_of live_body live_session f k) fks"

text \<open>How many packets are recorded: all of them when the loop was not left early.\<close>

definition recorded :: "(nat \<Rightarrow> bool) \<Rightarrow> (nat \<Rightarrow> bool) \<Rightarrow> nat \<Rightarrow> sender_point \<Rightarrow> nat \<Rightarrow> bool" where
  "recorded dropped sent n pc m \<longleftrightarrow> m \<le> n \<and> (case pc of Sending k \<Rightarrow> k = Suc m
     | _ \<Rightarrow> (\<forall>k\<in>{1..n}. dropped k \<or> sent k) \<longrightarrow> m = n)"

definition server_inv :: "(nat \<Rightarrow> bool) \<Rightarrow> (nat \<Rightarrow> bool) \<Rightarrow> nat \<Rightarrow> live_system \<Rightarrow> bool" where
  "server_inv dropped sent n s \<longleftrightarrow>
    (\<exists>m. recorded dropped sent n (sy_sender s) m \<and> serves live_body (of_nat m + 1) live_session (sy_server s))"

definition buffer_inv :: "nat \<Rightarrow> live_system \<Rightarrow> bool" where
  "buffer_inv n s \<longleftrightarrow> recoverable live_body (of_nat n + 1) live_session 1 (sy_calls s) (sy_buffer s) \<and> gb_cfg (sy_buffer s) = recovering"

definition wires_inv :: "nat \<Rightarrow> live_system \<Rightarrow> bool" where
  "wires_inv n s \<longleftrightarrow> (\<forall>d\<in>set (sy_line s). on_the_wire n d) \<and> on_their_way (of_nat n + 1) live_session (sy_requests s) \<and>
    (\<exists>fks. sy_replies s = live_replies fks \<and> (\<forall>(f, k)\<in>set fks. valid_reply live_body (of_nat n + 1) f k))"

definition live_inv :: "(nat \<Rightarrow> bool) \<Rightarrow> (nat \<Rightarrow> bool) \<Rightarrow> nat \<Rightarrow> live_system \<Rightarrow> bool" where
  "live_inv dropped sent n s \<longleftrightarrow> n + 1 < 2 ^ 64 \<and> server_inv dropped sent n s \<and> buffer_inv n s \<and> wires_inv n s"

lemma unat_end: "m \<le> n \<Longrightarrow> n + 1 < 2 ^ 64 \<Longrightarrow> unat (of_nat m + 1 :: u64) = m + 1"
proof -
  assume a: "m \<le> n" "n + 1 < 2 ^ 64"
  have e: "(of_nat m + 1 :: u64) = of_nat (m + 1)" by simp
  show ?thesis unfolding e by (rule live_end [OF a(2)]) (use a in simp)
qed

lemma wire_of_session: "on_the_wire n d \<Longrightarrow> n + 1 < 2 ^ 64 \<Longrightarrow> of_session live_body (of_nat n + 1) live_session (Datagram d t)"
  by (erule (1) wire_header) (simp add: of_session_def)

section \<open>The sender keeps it\<close>

lemma server_start: "serves live_body 1 live_session (server_init server_config_default)"
  by (simp add: serves_def holds_feed_def server_init_def server_config_default_def)

lemma server_records:
  assumes "serves live_body (of_nat m + 1) live_session sv" "m + 1 \<le> n" "n + 1 < 2 ^ 64"
  shows "serves live_body (of_nat (Suc m) + 1) live_session (record_packet (live_packet (Suc m)) sv)"
proof -
  have L: "length (sv_store sv) = m" using assms(1) unat_end [of m n] assms(2,3) by (simp add: serves_def holds_feed_def)
  have "record_packet (live_packet (Suc m)) sv = record_msg (of_nat (Suc m)) (live_body (of_nat (Suc m))) sv"
    using live_packet_read(3) [of "Suc m"] record_packet_data [OF live_packet_read(1,2), of "Suc m"] by simp
  then have r: "record_packet (live_packet (Suc m)) sv = sv\<lparr>sv_store := sv_store sv @ [live_body (of_nat (Suc m))]\<rparr>"
    by (simp add: record_msg_def L add.commute)
  have u: "unat (of_nat (Suc m) + 1 :: u64) = Suc (Suc m)" using unat_end [of "Suc m" n] assms(2,3) by simp
  have st: "\<forall>i<m. sv_store sv ! i = live_body (of_nat (i + 1))" using assms(1) L by (simp add: serves_def holds_feed_def)
  have "\<forall>i<Suc m. (sv_store sv @ [live_body (of_nat (Suc m))]) ! i = live_body (of_nat (i + 1))"
    unfolding less_Suc_eq using st L by (auto simp: nth_append)
  then have "holds_feed live_body (of_nat (Suc m) + 1) (sv\<lparr>sv_store := sv_store sv @ [live_body (of_nat (Suc m))]\<rparr>)"
    unfolding holds_feed_def u using L by simp
  then show ?thesis unfolding r using assms(1) by (auto simp: serves_def length_live_body)
qed

lemma sender_keeps:
  assumes "live_inv dropped sent n s"
  shows "live_inv dropped sent n (sender_turn dropped sent n lingers s)" "sy_buffer (sender_turn dropped sent n lingers s) = sy_buffer s"
    "sy_replies (sender_turn dropped sent n lingers s) = sy_replies s"
proof -
  let ?s' = "sender_turn dropped sent n lingers s"
  have n: "n + 1 < 2 ^ 64" using assms by (simp add: live_inv_def)
  obtain m where m: "recorded dropped sent n (sy_sender s) m" "serves live_body (of_nat m + 1) live_session (sy_server s)"
    using assms by (auto simp: live_inv_def server_inv_def)
  have "sy_calls ?s' = sy_calls s" "sy_requests ?s' = sy_requests s"
    and same: "sy_buffer ?s' = sy_buffer s" "sy_replies ?s' = sy_replies s"
    by (simp_all add: sender_turn_def Let_def split: sender_point.split)
  moreover have "\<forall>d\<in>set (sy_line ?s'). on_the_wire n d"
    using assms m(1) by (auto simp: sender_turn_def live_inv_def wires_inv_def on_the_wire_def recorded_def Let_def split: sender_point.splits)
  moreover have "server_inv dropped sent n ?s'"
  proof (cases "sy_sender s")
    case (Sending k)
    then have k: "k = Suc m" using m(1) by (simp add: recorded_def)
    show ?thesis
    proof (cases "k \<le> n")
      case True
      have "serves live_body (of_nat (Suc m) + 1) live_session (record_packet (live_packet (Suc m)) (sy_server s))"
        by (rule server_records [OF m(2) _ n]) (use True k in simp)
      moreover have "recorded dropped sent n (sy_sender ?s') (Suc m)" using True Sending k m(1)
        by (auto simp: sender_turn_def recorded_def Let_def)
      ultimately show ?thesis using True Sending k unfolding server_inv_def
        by (intro exI [of _ "Suc m"]) (auto simp: sender_turn_def Let_def)
    next
      case False
      then show ?thesis using Sending k m unfolding server_inv_def
        by (intro exI [of _ m]) (auto simp: sender_turn_def recorded_def)
    qed
  qed (use m in \<open>auto simp: sender_turn_def server_inv_def recorded_def\<close>)
  ultimately show "live_inv dropped sent n ?s'" using assms by (simp add: live_inv_def buffer_inv_def wires_inv_def)
  show "sy_buffer ?s' = sy_buffer s" "sy_replies ?s' = sy_replies s" by (rule same)+
qed

section \<open>The receiver keeps it\<close>

lemma round_inputs:
  assumes "live_inv dropped sent n s" "i \<in> set (receiver_run True t [turn_round hears recv_ns polls now s])"
  shows "of_session live_body (of_nat n + 1) live_session i"
proof -
  from assms(1) obtain fks where fks: "sy_replies s = live_replies fks" "\<forall>(f, k)\<in>set fks. valid_reply live_body (of_nat n + 1) f k"
    by (auto simp: live_inv_def wires_inv_def)
  have n: "n + 1 < 2 ^ 64" and w: "\<forall>d\<in>set (sy_line s). on_the_wire n d" using assms(1) by (simp_all add: live_inv_def wires_inv_def)
  consider (line) d u where "i = Datagram d u" "d \<in> set (sy_line s)" | (reply) d u where "i = Datagram d u" "d \<in> set (sy_replies s)"
    | (tick) "i = Tick now"
    using assms(2) by (auto simp: recv_one_def retx_poll_def turn_round_def split: option.splits list.splits if_splits
      dest!: in_set_takeD set_zip_leftD)
  then show ?thesis
  proof cases
    case line
    then show ?thesis using wire_of_session [OF _ n] w by simp
  next
    case reply
    then obtain f k where "(f, k) \<in> set fks" "d = feed_packet_of live_body live_session f k" by (auto simp: fks(1))
    then show ?thesis using reply_of_session(5) [of live_body "of_nat n + 1" f k live_session u] fks(2) reply(1) by auto
  next
    case tick
    then show ?thesis by (simp add: of_session_def)
  qed
qed

lemma receiver_keeps:
  assumes "live_inv dropped sent n s"
  shows "live_inv dropped sent n (receiver_turn hears recv_ns polls now s)"
    "moves (sy_buffer s) (sy_buffer (receiver_turn hears recv_ns polls now s))"
proof -
  let ?r = "turn_round hears recv_ns polls now s"
  obtain cs g where g: "gb_run (receiver_run True (sy_last_tick s) [?r]) (sy_buffer s) = (cs, g)" by force
  from assms obtain fks where fks: "sy_replies s = live_replies fks" "\<forall>(f, k)\<in>set fks. valid_reply live_body (of_nat n + 1) f k"
    by (auto simp: live_inv_def wires_inv_def)
  have "recoverable live_body (of_nat n + 1) live_session 1 (sy_calls s) (sy_buffer s)"
    using assms by (simp add: live_inv_def buffer_inv_def)
  from recoverable_run [OF this _ g] round_inputs [OF assms]
  have R: "recoverable live_body (of_nat n + 1) live_session 1 (sy_calls s @ cs) g" "moves (sy_buffer s) g"
    "on_their_way (of_nat n + 1) live_session (sent_requests cs)" by (auto intro: sent_legit)
  have rp: "drop j (sy_replies s) = live_replies (drop j fks)" for j by (simp add: fks(1) drop_map)
  have e: "receiver_turn hears recv_ns polls now s = s\<lparr>sy_line := drop (length (recv_one ?r)) (sy_line s),
      sy_requests := sy_requests s @ sent_requests cs, sy_replies := drop (length (retx_poll ?r)) (sy_replies s),
      sy_last_tick := (if now - sy_last_tick s \<ge> kTickInterval then now else sy_last_tick s), sy_buffer := g, sy_calls := sy_calls s @ cs\<rparr>"
    unfolding receiver_turn_def Let_def g by simp
  have "wires_inv n (receiver_turn hears recv_ns polls now s)"
    using assms R(3) fks(2) by (auto simp: e live_inv_def wires_inv_def rp intro: on_their_way_append dest!: in_set_dropD)
  then show "live_inv dropped sent n (receiver_turn hears recv_ns polls now s)"
    using assms R by (simp add: e live_inv_def buffer_inv_def server_inv_def moves_def)
  show "moves (sy_buffer s) (sy_buffer (receiver_turn hears recv_ns polls now s))" using R(2) by (simp add: e)
qed

section \<open>The server and the network keep it\<close>

lemma server_keeps:
  assumes "live_inv dropped sent n s"
  shows "\<exists>s'. server_turn sents s = Some s' \<and> live_inv dropped sent n s' \<and> sy_buffer s' = sy_buffer s"
proof (cases "sy_sender s = Stopped")
  case True
  then show ?thesis using assms by (simp add: server_turn_def)
next
  case False
  from assms obtain rqs where q: "sy_requests s = map request_serialise rqs"
    "\<forall>rq\<in>set rqs. legit (of_nat n + 1) live_session rq \<and> rq_count rq \<noteq> 0" by (auto simp: live_inv_def wires_inv_def on_their_way_def)
  obtain m where m: "recorded dropped sent n (sy_sender s) m" "serves live_body (of_nat m + 1) live_session (sy_server s)"
    using assms by (auto simp: live_inv_def server_inv_def)
  have n: "n + 1 < 2 ^ 64" using assms by (simp add: live_inv_def)
  have "unat (of_nat m + 1 :: u64) \<le> unat (of_nat n + 1 :: u64)"
    using unat_end [of m n] unat_end [of n n] m(1) n by (simp add: recorded_def)
  from poll_serves [OF m(2) this q(2), of sents, folded q(1)] obtain served fks sv where
    p: "server_poll (zip (sy_requests s) sents) (sy_server s) = Some (served, live_replies fks, sv)"
      "serves live_body (of_nat m + 1) live_session sv" "\<forall>(f, k)\<in>set fks. valid_reply live_body (of_nat n + 1) f k"
    by (elim exE conjE) (rule that)
  let ?s' = "s\<lparr>sy_server := sv, sy_requests := drop (length sents) (sy_requests s), sy_replies := sy_replies s @ live_replies fks\<rparr>"
  from assms obtain fks0 where fks: "sy_replies s = live_replies fks0" "\<forall>(f, k)\<in>set fks0. valid_reply live_body (of_nat n + 1) f k"
    by (auto simp: live_inv_def wires_inv_def)
  have "on_their_way (of_nat n + 1) live_session (drop (length sents) (sy_requests s))"
    unfolding on_their_way_def by (intro exI [of _ "drop (length sents) rqs"]) (use q in \<open>auto simp: drop_map dest!: in_set_dropD\<close>)
  moreover have "\<exists>fks1. sy_replies s @ live_replies fks = live_replies fks1 \<and> (\<forall>(f, k)\<in>set fks1. valid_reply live_body (of_nat n + 1) f k)"
    by (intro exI [of _ "fks0 @ fks"]) (use fks p(3) in auto)
  ultimately have "wires_inv n ?s'" using assms by (simp add: live_inv_def wires_inv_def)
  moreover have "server_inv dropped sent n ?s'" unfolding server_inv_def using m(1) p(2) by (intro exI [of _ m]) simp
  ultimately have "live_inv dropped sent n ?s'" using assms by (simp add: live_inv_def buffer_inv_def)
  moreover have "server_turn sents s = Some ?s'" using False p(1) by (simp add: server_turn_def)
  ultimately show ?thesis by simp
qed

lemma network_keeps:
  assumes "live_inv dropped sent n s"
  shows "live_inv dropped sent n (network_turn is js ks s)"
proof -
  from assms obtain rqs where q: "sy_requests s = map request_serialise rqs"
    "\<forall>rq\<in>set rqs. legit (of_nat n + 1) live_session rq \<and> rq_count rq \<noteq> 0" by (auto simp: live_inv_def wires_inv_def on_their_way_def)
  from assms obtain fks where fks: "sy_replies s = live_replies fks" "\<forall>(f, k)\<in>set fks. valid_reply live_body (of_nat n + 1) f k"
    by (auto simp: live_inv_def wires_inv_def)
  have pm: "pick ls (map h xs) = map h (pick ls xs)" for ls and h :: "'x \<Rightarrow> 'y" and xs by (auto simp: pick_def)
  have "on_their_way (of_nat n + 1) live_session (pick js (sy_requests s))"
    unfolding on_their_way_def q(1) pm using q(2) set_pick [of js rqs] by (intro exI [of _ "pick js rqs"]) auto
  moreover have "\<exists>fks1. pick ks (sy_replies s) = live_replies fks1 \<and> (\<forall>(f, k)\<in>set fks1. valid_reply live_body (of_nat n + 1) f k)"
    unfolding fks(1) pm using fks(2) set_pick [of ks fks] by (intro exI [of _ "pick ks fks"]) auto
  ultimately show ?thesis using assms set_pick [of "is" "sy_line s"]
    by (auto simp: live_inv_def wires_inv_def network_turn_def server_inv_def buffer_inv_def)
qed

section \<open>Every run\<close>

lemma live_turn_keeps:
  assumes "live_inv dropped sent n s"
  shows "\<exists>s'. live_turn dropped sent n s a = Some s' \<and> live_inv dropped sent n s' \<and> moves (sy_buffer s) (sy_buffer s')"
proof (cases a)
  case (SenderTurn b)
  then show ?thesis using sender_keeps [OF assms] by simp
next
  case (ReceiverTurn hears recv_ns polls now)
  then show ?thesis using receiver_keeps [OF assms] by simp
next
  case (ServerTurn sents)
  then show ?thesis using server_keeps [OF assms, of sents] by auto
next
  case (NetworkTurn ls js ks)
  then show ?thesis using network_keeps [OF assms] by (simp add: network_turn_def)
qed

lemma live_run_keeps:
  "live_inv dropped sent n s \<Longrightarrow> \<exists>s'. live_run dropped sent n s as = Some s' \<and> live_inv dropped sent n s' \<and> moves (sy_buffer s) (sy_buffer s')"
proof (induction as arbitrary: s)
  case (Cons a as)
  from live_turn_keeps [OF Cons.prems, of a] obtain s1 where
    s1: "live_turn dropped sent n s a = Some s1" "live_inv dropped sent n s1" "moves (sy_buffer s) (sy_buffer s1)" by blast
  from Cons.IH [OF s1(2)] obtain s' where "live_run dropped sent n s1 as = Some s'" "live_inv dropped sent n s'" "moves (sy_buffer s1) (sy_buffer s')"
    by blast
  with s1 show ?case by (auto intro: moves_trans)
qed simp

lemma live_start_inv:
  assumes "n + 1 < 2 ^ 64"
  shows "live_inv dropped sent n (live_start t0)"
proof -
  have "(1 :: u64) \<le> of_nat n + 1" using unat_end [of n n] assms by (simp add: word_le_nat_alt)
  then have "gc_expected_first_seq recovering \<le> of_nat n + 1" by (simp add: recovering_def)
  from init_run_inv [OF this, of live_body True] have "run_inv live_body (of_nat n + 1) 1 [] [] (gap_buffer_init recovering True)"
    by (simp add: recovering_def)
  moreover have "marks_ok (of_nat n + 1) False (gap_buffer_init recovering True)"
    using \<open>gc_expected_first_seq recovering \<le> of_nat n + 1\<close> by (simp add: marks_ok_def gap_buffer_init_def reset_sequence_state_def)
  moreover have "\<not> gb_in_gap (gap_buffer_init recovering True)" "\<not> gb_eos_seen (gap_buffer_init recovering True)"
    "\<not> gb_session_synced (gap_buffer_init recovering True)" "gb_retx_set (gap_buffer_init recovering True)"
    "gb_cfg (gap_buffer_init recovering True) = recovering" "gc_max_retransmit_count recovering = 100"
    by (simp_all add: gap_buffer_init_def reset_sequence_state_def recovering_def gb_config_default_def is_blank_def)
  ultimately have "recoverable live_body (of_nat n + 1) live_session 1 [] (gap_buffer_init recovering True)"
    by (auto simp: recoverable_def)
  then show ?thesis using assms server_start \<open>gb_cfg (gap_buffer_init recovering True) = recovering\<close>
    by (auto simp: live_inv_def server_inv_def buffer_inv_def wires_inv_def live_start_def recorded_def on_their_way_def intro!: exI [of _ 0])
qed

end
