(* ===== verification/Live_Recovery.thy ===== *)
theory Live_Recovery
  imports Live_System
begin

text \<open>
  Recovery in the live demo: while the sender has not reached the end of its heartbeats, turns without
  further loss bring everything that was lost, whatever happened before.
\<close>

section \<open>Turns without further loss\<close>

text \<open>The clock's readings of a turn, in the order they are taken.\<close>

fun turn_readings :: "live_act \<Rightarrow> u64 list" where
  "turn_readings (ReceiverTurn hears recv_ns polls now) = (case hears of Some sw_ns \<Rightarrow> [sw_ns] | None \<Rightarrow> []) @ recv_ns # polls @ [now]"
| "turn_readings a = []"

text \<open>The network and \<^verbatim>\<open>sendto\<close> lose nothing; the clock runs forward from \<open>lo\<close> to \<open>hi\<close>.\<close>

definition lossless :: "live_act \<Rightarrow> bool" where
  "lossless a \<longleftrightarrow> (case a of NetworkTurn is js ks \<Rightarrow> False | ServerTurn sents \<Rightarrow> False \<notin> set sents | _ \<Rightarrow> True)"

definition calm :: "nat \<Rightarrow> nat \<Rightarrow> live_act list \<Rightarrow> bool" where
  "calm lo hi as \<longleftrightarrow> list_all lossless as \<and> sorted (map unat (concat (map turn_readings as))) \<and>
    list_all (\<lambda>t. lo \<le> unat t \<and> unat t \<le> hi) (concat (map turn_readings as))"

lemma calm_append:
  assumes "calm a b as" "calm b c bs" "a \<le> b" "b \<le> c"
  shows "calm a c (as @ bs)"
proof -
  have A: "\<forall>x\<in>set (concat (map turn_readings as)). a \<le> unat x \<and> unat x \<le> b" and B: "\<forall>x\<in>set (concat (map turn_readings bs)). b \<le> unat x \<and> unat x \<le> c"
    using assms(1,2) unfolding calm_def list_all_iff by blast+
  have "\<forall>x\<in>set (concat (map turn_readings (as @ bs))). a \<le> unat x \<and> unat x \<le> c"
    using A B assms(3,4) unfolding map_append concat_append set_append by (meson Un_iff order.trans)
  moreover have "sorted (map unat (concat (map turn_readings (as @ bs))))"
    using assms(1,2) A B unfolding calm_def map_append concat_append sorted_append set_map
    by (metis (no_types, lifting) image_iff order.trans)
  ultimately show ?thesis using assms(1,2) unfolding calm_def list_all_iff by auto
qed

definition leads :: "(nat \<Rightarrow> bool) \<Rightarrow> (nat \<Rightarrow> bool) \<Rightarrow> nat \<Rightarrow> nat \<Rightarrow> nat \<Rightarrow> live_system \<Rightarrow> live_system \<Rightarrow> bool" where
  "leads dropped sent n lo hi s s' \<longleftrightarrow> lo \<le> hi \<and> (\<exists>as. live_run dropped sent n s as = Some s' \<and> calm lo hi as)"

lemma leads_refl: "lo \<le> hi \<Longrightarrow> leads dropped sent n lo hi s s"
  unfolding leads_def by (intro conjI exI [of _ "[]"]) (simp_all add: calm_def)

lemma leads_trans: "leads dropped sent n a b s s1 \<Longrightarrow> leads dropped sent n b c s1 s2 \<Longrightarrow> leads dropped sent n a c s s2"
  unfolding leads_def using calm_append by (auto simp: live_run_append) (metis Option.bind.simps(2) live_run_append)

lemma leads_turn: "lo \<le> hi \<Longrightarrow> live_turn dropped sent n s a = Some s' \<Longrightarrow> calm lo hi [a] \<Longrightarrow> leads dropped sent n lo hi s s'"
  unfolding leads_def by (intro conjI exI [of _ "[a]"]) simp_all

section \<open>One datagram of the line, one reply\<close>

lemma gb_run_two: "gb_run (i # is) g = (c, g') \<Longrightarrow> \<exists>c1 g1 c2. gb_step i g = (c1, g1) \<and> gb_run is g1 = (c2, g') \<and> c = c1 @ c2"
  by (cases "gb_step i g") (auto simp del: gb_step.simps split: prod.splits)

lemma turn_inputs:
  "sy_line s = d # ds \<Longrightarrow> receiver_run True lt [turn_round (Some t) t [] t s] = Datagram d t # (if t - lt \<ge> kTickInterval then [Tick t] else [])"
  "sy_replies s = d # rs \<Longrightarrow> receiver_run True lt [turn_round None t [t] t s] = Datagram d t # (if t - lt \<ge> kTickInterval then [Tick t] else [])"
  "receiver_run True lt [turn_round None t [] t s] = (if t - lt \<ge> kTickInterval then [Tick t] else [])"
  by (simp_all add: turn_round_def recv_one_def retx_poll_def kMaxDatagramsPerPoll_def)

lemma turn_leaves:
  "sy_line s = d # ds \<Longrightarrow> sy_line (receiver_turn (Some t) t [] t s) = ds \<and> sy_replies (receiver_turn (Some t) t [] t s) = sy_replies s"
  "sy_replies s = d # rs \<Longrightarrow> sy_replies (receiver_turn None t [t] t s) = rs \<and> sy_line (receiver_turn None t [t] t s) = sy_line s"
  "sy_replies (receiver_turn None t [] t s) = sy_replies s \<and> sy_line (receiver_turn None t [] t s) = sy_line s"
  by (simp_all add: receiver_turn_def turn_round_def recv_one_def retx_poll_def kMaxDatagramsPerPoll_def Let_def split: prod.split)

lemma turn_sender: "sy_sender (receiver_turn hears recv_ns polls now s) = sy_sender s"
  by (simp add: receiver_turn_def Let_def split: prod.split)

lemma calm_turns:
  assumes "T < 2 ^ 64"
  shows "calm T T [ReceiverTurn (Some (of_nat T)) (of_nat T) [] (of_nat T)]" "calm T T [ReceiverTurn None (of_nat T) [of_nat T] (of_nat T)]"
    "calm T T [ReceiverTurn None (of_nat T) [] (of_nat T)]"
proof -
  have "unat (of_nat T :: u64) = T" using assms by (simp only: unsigned_of_nat) (simp add: take_bit_nat_eq_self)
  then show "calm T T [ReceiverTurn (Some (of_nat T)) (of_nat T) [] (of_nat T)]" "calm T T [ReceiverTurn None (of_nat T) [of_nat T] (of_nat T)]"
    "calm T T [ReceiverTurn None (of_nat T) [] (of_nat T)]" by (simp_all add: calm_def lossless_def)
qed

text \<open>What a datagram of the line tells the buffer.\<close>

definition told :: "nat \<Rightarrow> u8 list \<Rightarrow> gap_buffer \<Rightarrow> bool" where
  "told n d g \<longleftrightarrow> (d = send_ctl (of_nat n) kMoldHeartbeatCount \<longrightarrow> of_nat n + 1 \<le> gb_high_water g) \<and>
    (d = send_ctl (of_nat n) kMoldEndOfSessionCount \<longrightarrow> gb_eos_seen g)"

lemma told_moves: "told n d g \<Longrightarrow> moves g g' \<Longrightarrow> told n d g'"
  by (auto simp: told_def moves_def intro: order.trans)

lemma first_input:
  assumes "live_inv dropped sent n s" "receiver_run True (sy_last_tick s) [turn_round hears recv_ns polls now s] = i # is"
  obtains c1 g1 where "gb_step i (sy_buffer s) = (c1, g1)" "moves g1 (sy_buffer (receiver_turn hears recv_ns polls now s))"
    "recoverable live_body (of_nat n + 1) live_session 1 (sy_calls s) (sy_buffer s)" "of_session live_body (of_nat n + 1) live_session i"
    "fst (gb_run (i # is) (sy_buffer s)) = c1 @ fst (gb_run is g1)"
proof -
  note I = round_inputs [OF assms(1), of _ "sy_last_tick s" hears recv_ns polls now, unfolded assms(2)]
  obtain c g where r: "gb_run (i # is) (sy_buffer s) = (c, g)" by force
  from gb_run_two [OF r] obtain c1 g1 c2 where g1: "gb_step i (sy_buffer s) = (c1, g1)" "gb_run is g1 = (c2, g)" "c = c1 @ c2" by blast
  have R: "recoverable live_body (of_nat n + 1) live_session 1 (sy_calls s) (sy_buffer s)" using assms(1) by (simp add: live_inv_def buffer_inv_def)
  have "recoverable live_body (of_nat n + 1) live_session 1 (sy_calls s @ c1) g1" by (rule recoverable_step(1) [OF R g1(1)]) (rule I, simp)
  from recoverable_run [OF this _ g1(2)] have "moves g1 g" using I by simp
  moreover have "sy_buffer (receiver_turn hears recv_ns polls now s) = g"
    using r unfolding receiver_turn_def Let_def assms(2) by simp
  ultimately show thesis using that [OF g1(1)] R I r g1 by simp
qed

lemma hear_one:
  assumes "live_inv dropped sent n s" "sy_line s = d # ds"
  shows "told n d (sy_buffer (receiver_turn (Some t) t [] t s))"
proof -
  from first_input [OF assms(1) turn_inputs(1) [OF assms(2)]] obtain c1 g1 where
    g: "gb_step (Datagram d t) (sy_buffer s) = (c1, g1)" "moves g1 (sy_buffer (receiver_turn (Some t) t [] t s))"
    "recoverable live_body (of_nat n + 1) live_session 1 (sy_calls s) (sy_buffer s)" "of_session live_body (of_nat n + 1) live_session (Datagram d t)"
    by blast
  note H = recoverable_high_water(2,3) [OF g(3,1,4) refl]
  have "told n d g1" unfolding told_def
  proof (intro conjI impI)
    assume "d = send_ctl (of_nat n) kMoldHeartbeatCount"
    then have "mold_header_parse d = Some (live_header (of_nat n + 1) kMoldHeartbeatCount)" by (simp add: send_ctl_read)
    from H(1) [OF this] show "of_nat n + 1 \<le> gb_high_water g1" using control_headers(4) by (simp add: live_header_def)
  next
    assume "d = send_ctl (of_nat n) kMoldEndOfSessionCount"
    then have "mold_header_parse d = Some (live_header (of_nat n + 1) kMoldEndOfSessionCount)" by (simp add: send_ctl_read)
    from H(2) [OF this] show "gb_eos_seen g1" using control_headers(3) by simp
  qed
  then show ?thesis using g(2) by (rule told_moves)
qed

lemma poll_one:
  assumes "live_inv dropped sent n s" "sy_replies s = feed_packet_of live_body live_session f k # rs" "valid_reply live_body (of_nat n + 1) f k"
    "f \<le> gb_next_expected (sy_buffer s)"
  shows "unat f + k \<le> unat (gb_next_expected (sy_buffer (receiver_turn None t [t] t s)))"
proof -
  from first_input [OF assms(1) turn_inputs(2) [OF assms(2)]] obtain c1 g1 where
    g: "gb_step (Datagram (feed_packet_of live_body live_session f k) t) (sy_buffer s) = (c1, g1)"
    "moves g1 (sy_buffer (receiver_turn None t [t] t s))" "recoverable live_body (of_nat n + 1) live_session 1 (sy_calls s) (sy_buffer s)" by blast
  from reply_step [OF g(3) _ assms(3) g(1) assms(4)] have "unat f + k \<le> unat (gb_next_expected g1)" by simp
  also have "\<dots> \<le> unat (gb_next_expected (sy_buffer (receiver_turn None t [t] t s)))" using g(2) by (simp add: moves_def word_le_nat_alt)
  finally show ?thesis .
qed

section \<open>All that has arrived\<close>

lemma drain_line:
  "live_inv dropped sent n s \<Longrightarrow> T < 2 ^ 64 \<Longrightarrow>
    \<exists>s'. leads dropped sent n T T s s' \<and> live_inv dropped sent n s' \<and> moves (sy_buffer s) (sy_buffer s') \<and> sy_line s' = [] \<and>
      sy_replies s' = sy_replies s \<and> sy_sender s' = sy_sender s \<and> (\<forall>d\<in>set (sy_line s). told n d (sy_buffer s'))"
proof (induction "sy_line s" arbitrary: s)
  case Nil
  then show ?case by (intro exI [of _ s]) (simp add: leads_refl)
next
  case (Cons d ds)
  let ?t = "of_nat T :: u64"
  let ?s1 = "receiver_turn (Some ?t) ?t [] ?t s"
  have l: "sy_line s = d # ds" using Cons.hyps(2) by simp
  note L = turn_leaves(1) [OF l, of ?t] and K = receiver_keeps [OF Cons.prems(1), of "Some ?t" ?t "[]" ?t]
  have "ds = sy_line ?s1" using L by simp
  from Cons.hyps(1) [OF this K(1) Cons.prems(2)] obtain s' where
    r: "leads dropped sent n T T ?s1 s'" "live_inv dropped sent n s'" "moves (sy_buffer ?s1) (sy_buffer s')" "sy_line s' = []"
      "sy_replies s' = sy_replies ?s1" "sy_sender s' = sy_sender ?s1" "\<forall>d\<in>set (sy_line ?s1). told n d (sy_buffer s')" by blast
  have "leads dropped sent n T T s ?s1" by (rule leads_turn [OF _ _ calm_turns(1) [OF Cons.prems(2)]]) simp_all
  moreover have "told n d (sy_buffer s')" using hear_one [OF Cons.prems(1) l] r(3) by (rule told_moves)
  ultimately show ?case using r K(2) L
    by (intro exI [of _ s']) (auto simp: l turn_sender intro: leads_trans moves_trans)
qed

lemma drain_replies:
  "live_inv dropped sent n s \<Longrightarrow> T < 2 ^ 64 \<Longrightarrow> sy_replies s = live_replies fks \<Longrightarrow> \<forall>(f, k)\<in>set fks. valid_reply live_body (of_nat n + 1) f k \<Longrightarrow>
    \<exists>s'. leads dropped sent n T T s s' \<and> live_inv dropped sent n s' \<and> moves (sy_buffer s) (sy_buffer s') \<and> sy_line s' = sy_line s \<and>
      sy_replies s' = [] \<and> sy_sender s' = sy_sender s \<and>
      (\<forall>(f, k)\<in>set fks. f \<le> gb_next_expected (sy_buffer s) \<longrightarrow> unat f + k \<le> unat (gb_next_expected (sy_buffer s')))"
proof (induction fks arbitrary: s)
  case Nil
  then show ?case by (intro exI [of _ s]) (simp add: leads_refl)
next
  case (Cons fk fks)
  obtain f k where fk: "fk = (f, k)" by force
  let ?t = "of_nat T :: u64"
  let ?s1 = "receiver_turn None ?t [?t] ?t s"
  have l: "sy_replies s = feed_packet_of live_body live_session f k # live_replies fks" using Cons.prems(3) by (simp add: fk)
  have v: "valid_reply live_body (of_nat n + 1) f k" "\<forall>(f, k)\<in>set fks. valid_reply live_body (of_nat n + 1) f k"
    using Cons.prems(4) by (simp_all add: fk)
  note L = turn_leaves(2) [OF l, of ?t] and K = receiver_keeps [OF Cons.prems(1), of None ?t "[?t]" ?t]
  from Cons.IH [OF K(1) Cons.prems(2) conjunct1 [OF L] v(2)] obtain s' where
    r: "leads dropped sent n T T ?s1 s'" "live_inv dropped sent n s'" "moves (sy_buffer ?s1) (sy_buffer s')" "sy_line s' = sy_line ?s1"
      "sy_replies s' = []" "sy_sender s' = sy_sender ?s1"
      "\<forall>(f, k)\<in>set fks. f \<le> gb_next_expected (sy_buffer ?s1) \<longrightarrow> unat f + k \<le> unat (gb_next_expected (sy_buffer s'))" by blast
  have "leads dropped sent n T T s ?s1" by (rule leads_turn [OF _ _ calm_turns(2) [OF Cons.prems(2)]]) simp_all
  moreover have "f \<le> gb_next_expected (sy_buffer s) \<longrightarrow> unat f + k \<le> unat (gb_next_expected (sy_buffer s'))"
    using poll_one [OF Cons.prems(1) l v(1), of ?t] r(3) by (auto simp: moves_def word_le_nat_alt)
  moreover have "\<forall>(f, k)\<in>set fks. f \<le> gb_next_expected (sy_buffer s) \<longrightarrow> unat f + k \<le> unat (gb_next_expected (sy_buffer s'))"
    using r(7) K(2) by (auto simp: moves_def intro: order.trans)
  ultimately show ?case using r K(2) L
    by (intro exI [of _ s']) (auto simp: fk turn_sender intro: leads_trans moves_trans)
qed
section \<open>A request that is due, and its answer\<close>

text \<open>Of three moments a millisecond apart, at one the tick is due and so is a request, whatever the clock gave before.\<close>

lemma later_reading:
  assumes "(w :: u64) - a < 1000000" "d = 1000000 \<or> d = 2000000"
  shows "\<not> w + d - a < 1000000"
proof -
  have e: "w + d - a = (w - a) + d" by simp
  have u: "unat (w - a) < 1000000" using assms(1) by (simp add: word_less_nat_alt)
  have d: "unat d = 1000000 \<or> unat d = 2000000" using assms(2) by auto
  then have "unat ((w - a) + d) = unat (w - a) + unat d" using u by (intro unat_add_no_wrap) auto
  then show ?thesis unfolding e word_less_nat_alt using d by auto
qed

lemma due_reading:
  assumes "gb_cfg g = recovering" "T + 2000000 < 2 ^ 64"
  shows "\<exists>T'. T \<le> T' \<and> T' \<le> T + 2000000 \<and> (of_nat T' :: u64) - last_tick \<ge> kTickInterval \<and> request_due (of_nat T') g"
proof -
  define a where "a = (if gb_gap_last_retx_ns g = 0 then gb_gap_detected_at_ns g else gb_gap_last_retx_ns g)"
  have c: "gc_gap_timeout_ns (gb_cfg g) = 100000" "gc_retry_interval_ns (gb_cfg g) = 1000000"
    by (simp_all add: assms(1) recovering_def gb_config_default_def)
  have due: "request_due w g" if w: "\<not> w - a < 1000000" for w
  proof (cases "gb_gap_last_retx_ns g = 0")
    case True
    have "(100000 :: u64) \<le> 1000000" by simp
    also have "1000000 \<le> w - a" using w by simp
    finally show ?thesis using True by (simp add: request_due_def a_def c)
  next
    case False
    then show ?thesis using w by (simp add: request_due_def a_def c)
  qed
  have tick: "w - last_tick \<ge> kTickInterval" if w: "\<not> w - last_tick < 1000000" for w
  proof -
    have "kTickInterval \<le> 1000000" by (simp add: kTickInterval_def)
    also have "1000000 \<le> w - last_tick" using w by simp
    finally show ?thesis .
  qed
  let ?w = "of_nat T :: u64"
  have e: "(of_nat (T + 1000000) :: u64) = ?w + 1000000" "(of_nat (T + 2000000) :: u64) = ?w + 1000000 + 1000000"
    "(of_nat (T + 2000000) :: u64) = ?w + 2000000" by simp_all
  have one: "\<not> x + 1000000 - b < 1000000" if "x - b < 1000000" for x b :: u64 by (rule later_reading [OF that]) simp
  have two: "\<not> x + 2000000 - b < 1000000" if "x - b < 1000000" for x b :: u64 by (rule later_reading [OF that]) simp
  have "(\<not> ?w - a < 1000000 \<and> \<not> ?w - last_tick < 1000000) \<or>
    (\<not> of_nat (T + 1000000) - a < 1000000 \<and> \<not> of_nat (T + 1000000) - last_tick < 1000000) \<or>
    (\<not> of_nat (T + 2000000) - a < 1000000 \<and> \<not> of_nat (T + 2000000) - last_tick < 1000000)"
    using one [of ?w a] two [of ?w a] one [of ?w last_tick] two [of ?w last_tick] one [of "?w + 1000000" a] one [of "?w + 1000000" last_tick]
    unfolding e(1) e(2) [symmetric] unfolding e(3) by blast
  then obtain T' where "T' \<in> {T, T + 1000000, T + 2000000}" "\<not> of_nat T' - a < 1000000" "\<not> of_nat T' - last_tick < 1000000" by blast
  then show ?thesis using due tick by (intro exI [of _ T']) auto
qed

lemma tick_asks:
  assumes "live_inv dropped sent n s" "gb_in_gap (sy_buffer s)" "request_due t (sy_buffer s)" "t - sy_last_tick s \<ge> kTickInterval"
  shows "\<exists>rq. request_serialise rq \<in> set (sy_requests (receiver_turn None t [] t s)) \<and> length (rq_session rq) = 10 \<and>
    rq_first_seq rq = gb_next_expected (sy_buffer s)"
proof -
  have R: "recoverable live_body (of_nat n + 1) live_session 1 (sy_calls s) (sy_buffer s)" using assms(1) by (simp add: live_inv_def buffer_inv_def)
  from due_gap_requests [OF R assms(2,3)] obtain rq where
    rq: "fst (gb_tick t (sy_buffer s)) = [OnRetransmitRequest rq]" "rq_first_seq rq = gb_next_expected (sy_buffer s)" "rq_count rq \<noteq> 0" by blast
  obtain g where g: "gb_tick t (sy_buffer s) = ([OnRetransmitRequest rq], g)" using rq(1) by (metis prod.collapse)
  have "receiver_run True (sy_last_tick s) [turn_round None t [] t s] = [Tick t]" using assms(4) by (simp only: turn_inputs(3) if_True)
  then have "sy_requests (receiver_turn None t [] t s) = sy_requests s @ sent_requests [OnRetransmitRequest rq]"
    unfolding receiver_turn_def Let_def using g by simp
  then have "request_serialise rq \<in> set (sy_requests (receiver_turn None t [] t s))" using rq(3) by (simp add: sent_requests_alt)
  moreover have "gb_step (Tick t) (sy_buffer s) = ([OnRetransmitRequest rq], g)" using g by simp
  from recoverable_step(3) [OF R this] have "legit (of_nat n + 1) live_session rq" by (simp add: of_session_def)
  ultimately show ?thesis using rq(2) by (intro exI [of _ rq]) (simp add: legit_def)
qed

lemma server_answers:
  assumes "live_inv dropped sent n s" "sy_sender s = Lingering" "\<forall>k\<in>{1..n}. dropped k \<or> sent k"
  shows "\<exists>s' fks. leads dropped sent n T T s s' \<and> live_inv dropped sent n s' \<and> sy_buffer s' = sy_buffer s \<and> sy_line s' = sy_line s \<and>
    sy_sender s' = sy_sender s \<and> sy_replies s' = sy_replies s @ live_replies fks \<and>
    (\<forall>(f, k)\<in>set fks. valid_reply live_body (of_nat n + 1) f k) \<and>
    (\<forall>rq. request_serialise rq \<in> set (sy_requests s) \<and> length (rq_session rq) = 10 \<longrightarrow> rq_first_seq rq \<in> fst ` set fks)"
proof -
  let ?sents = "replicate (length (sy_requests s)) True"
  from server_keeps [OF assms(1), of ?sents] obtain s' where s': "server_turn ?sents s = Some s'" "live_inv dropped sent n s'" "sy_buffer s' = sy_buffer s"
    by blast
  from assms(1) obtain rqs where q: "sy_requests s = map request_serialise rqs"
    "\<forall>rq\<in>set rqs. legit (of_nat n + 1) live_session rq \<and> rq_count rq \<noteq> 0" by (auto simp: live_inv_def wires_inv_def on_their_way_def)
  have "serves live_body (of_nat n + 1) live_session (sy_server s)"
    using assms by (auto simp: live_inv_def server_inv_def recorded_def)
  from poll_serves [OF this _ q(2), of ?sents, folded q(1)] obtain served fks sv where
    p: "server_poll (zip (sy_requests s) ?sents) (sy_server s) = Some (served, live_replies fks, sv)"
      "\<forall>(f, k)\<in>set fks. valid_reply live_body (of_nat n + 1) f k" "map fst fks = map rq_first_seq rqs"
    using q(1) by auto
  have st: "sy_line s' = sy_line s" "sy_sender s' = sy_sender s" "sy_replies s' = sy_replies s @ live_replies fks"
    using s'(1) assms(2) p(1) by (auto simp: server_turn_def)
  have "rq_first_seq rq \<in> fst ` set fks" if rq: "request_serialise rq \<in> set (sy_requests s)" "length (rq_session rq) = 10" for rq
  proof -
    from rq(1) obtain rq' where rq': "rq' \<in> set rqs" "request_serialise rq = request_serialise rq'" by (auto simp: q(1))
    then have "length (rq_session rq') = 10" using q(2) by (auto simp: legit_def)
    from request_parse_serialise [OF this, of "[]"] request_parse_serialise [OF rq(2), of "[]"] rq'(2) have "rq = rq'" by simp
    then have "rq_first_seq rq \<in> set (map rq_first_seq rqs)" using rq'(1) by simp
    then show ?thesis unfolding p(3) [symmetric] by simp
  qed
  moreover have "leads dropped sent n T T s s'" by (rule leads_turn [of _ _ _ _ _ _ "ServerTurn ?sents"]) (simp_all add: s'(1) calm_def lossless_def)
  ultimately show ?thesis using s'(2,3) st p(2) by (intro exI [of _ s'] exI [of _ fks]) blast
qed

section \<open>A round, and all of them\<close>

text \<open>A sender in its heartbeats, with nothing left on the line, whose number has been heard.\<close>

definition heard :: "(nat \<Rightarrow> bool) \<Rightarrow> (nat \<Rightarrow> bool) \<Rightarrow> nat \<Rightarrow> live_system \<Rightarrow> bool" where
  "heard dropped sent n s \<longleftrightarrow> live_inv dropped sent n s \<and> sy_sender s = Lingering \<and> sy_line s = [] \<and> sy_replies s = [] \<and>
    of_nat n + 1 \<le> gb_high_water (sy_buffer s)"

lemma round_progress:
  assumes h: "heard dropped sent n s" and ok: "\<forall>k\<in>{1..n}. dropped k \<or> sent k" and T: "T + 2000000 < 2 ^ 64"
    and lt: "gb_next_expected (sy_buffer s) < of_nat n + 1"
  shows "\<exists>s'. leads dropped sent n T (T + 2000000) s s' \<and> heard dropped sent n s' \<and>
    gb_next_expected (sy_buffer s) < gb_next_expected (sy_buffer s')"
proof -
  have I: "live_inv dropped sent n s" "sy_sender s = Lingering" "sy_line s = []" "sy_replies s = []" "of_nat n + 1 \<le> gb_high_water (sy_buffer s)"
    using h by (simp_all add: heard_def)
  have R: "recoverable live_body (of_nat n + 1) live_session 1 (sy_calls s) (sy_buffer s)" and cfg: "gb_cfg (sy_buffer s) = recovering"
    using I(1) by (simp_all add: live_inv_def buffer_inv_def)
  have "open_ok (sy_buffer s)" using R by (simp add: recoverable_def)
  then have gap: "gb_in_gap (sy_buffer s)" using recoverableD(1) [OF R] lt I(5) by (auto simp: open_ok_def)
  from due_reading [OF cfg T, of "sy_last_tick s"] obtain T' where
    T': "T \<le> T'" "T' \<le> T + 2000000" "(of_nat T' :: u64) - sy_last_tick s \<ge> kTickInterval" "request_due (of_nat T') (sy_buffer s)" by blast
  have b: "T' < 2 ^ 64" using T'(2) T by simp
  let ?t = "of_nat T' :: u64"
  let ?s1 = "receiver_turn None ?t [] ?t s"
  note K = receiver_keeps [OF I(1), of None ?t "[]" ?t] and L = turn_leaves(3) [of ?t s]
  have l1: "leads dropped sent n T' T' s ?s1" by (rule leads_turn [OF _ _ calm_turns(3) [OF b]]) simp_all
  from tick_asks [OF I(1) gap T'(4,3)] obtain rq where
    rq: "request_serialise rq \<in> set (sy_requests ?s1)" "length (rq_session rq) = 10" "rq_first_seq rq = gb_next_expected (sy_buffer s)" by blast
  have "sy_sender ?s1 = Lingering" by (simp add: turn_sender I(2))
  from server_answers [OF K(1) this ok, of T'] obtain s2 fks where
    s2: "leads dropped sent n T' T' ?s1 s2" "live_inv dropped sent n s2" "sy_buffer s2 = sy_buffer ?s1" "sy_line s2 = sy_line ?s1"
      "sy_sender s2 = sy_sender ?s1" "sy_replies s2 = sy_replies ?s1 @ live_replies fks" "\<forall>(f, k)\<in>set fks. valid_reply live_body (of_nat n + 1) f k"
      "\<forall>rq. request_serialise rq \<in> set (sy_requests ?s1) \<and> length (rq_session rq) = 10 \<longrightarrow> rq_first_seq rq \<in> fst ` set fks"
    by (elim exE conjE) (rule that)
  from s2(8) rq have "gb_next_expected (sy_buffer s) \<in> fst ` set fks" by metis
  then obtain k where k: "(gb_next_expected (sy_buffer s), k) \<in> set fks" by auto
  have "sy_replies s2 = live_replies fks" using s2(6) L I(4) by simp
  from drain_replies [OF s2(2) b this s2(7)] obtain s3 where
    s3: "leads dropped sent n T' T' s2 s3" "live_inv dropped sent n s3" "moves (sy_buffer s2) (sy_buffer s3)" "sy_line s3 = sy_line s2"
      "sy_replies s3 = []" "sy_sender s3 = sy_sender s2"
      "\<forall>(f, k)\<in>set fks. f \<le> gb_next_expected (sy_buffer s2) \<longrightarrow> unat f + k \<le> unat (gb_next_expected (sy_buffer s3))" by blast
  have m: "moves (sy_buffer s) (sy_buffer s3)" using K(2) s3(3) s2(3) by (auto intro: moves_trans)
  have "0 < k" using s2(7) k by (auto simp: valid_reply_def)
  moreover have "gb_next_expected (sy_buffer s) \<le> gb_next_expected (sy_buffer s2)" using K(2) s2(3) by (simp add: moves_def)
  then have "unat (gb_next_expected (sy_buffer s)) + k \<le> unat (gb_next_expected (sy_buffer s3))" using s3(7) k by blast
  ultimately have "gb_next_expected (sy_buffer s) < gb_next_expected (sy_buffer s3)" by (simp add: word_less_nat_alt)
  moreover have "heard dropped sent n s3"
    using s3 s2(4,5) L I m by (auto simp: heard_def turn_sender moves_def intro: order.trans)
  moreover have "leads dropped sent n T (T + 2000000) s s3"
  proof -
    have "leads dropped sent n T' T' s s3" using l1 s2(1) s3(1) by (blast intro: leads_trans)
    then show ?thesis using leads_trans [OF leads_refl [OF T'(1)] leads_trans [OF _ leads_refl [OF T'(2)]]] by blast
  qed
  ultimately show ?thesis by blast
qed

lemma rounds_recover:
  "heard dropped sent n s \<Longrightarrow> \<forall>k\<in>{1..n}. dropped k \<or> sent k \<Longrightarrow>
    T + (n + 1 - unat (gb_next_expected (sy_buffer s))) * 2000000 < 2 ^ 64 \<Longrightarrow>
    \<exists>s'. leads dropped sent n T (T + (n + 1 - unat (gb_next_expected (sy_buffer s))) * 2000000) s s' \<and> heard dropped sent n s' \<and>
      gb_next_expected (sy_buffer s') = of_nat n + 1"
proof (induction "n + 1 - unat (gb_next_expected (sy_buffer s))" arbitrary: s T rule: less_induct)
  case less
  let ?d = "\<lambda>s. n + 1 - unat (gb_next_expected (sy_buffer s))"
  have n: "n + 1 < 2 ^ 64" and R: "recoverable live_body (of_nat n + 1) live_session 1 (sy_calls s) (sy_buffer s)"
    using less.prems(1) by (simp_all add: heard_def live_inv_def buffer_inv_def)
  note E = unat_end [of n n, OF _ n, simplified]
  show ?case
  proof (cases "gb_next_expected (sy_buffer s) = of_nat n + 1")
    case True
    then show ?thesis using less.prems(1) by (intro exI [of _ s]) (simp add: leads_refl)
  next
    case False
    then have lt: "gb_next_expected (sy_buffer s) < of_nat n + 1" using recoverableD(4) [OF R] by simp
    then have lt': "unat (gb_next_expected (sy_buffer s)) < n + 1" using E by (simp add: word_less_nat_alt)
    then have "T + 2000000 < 2 ^ 64" using less.prems(3) by (cases "?d s") simp_all
    from round_progress [OF less.prems(1,2) this lt] obtain s1 where
      s1: "leads dropped sent n T (T + 2000000) s s1" "heard dropped sent n s1" "gb_next_expected (sy_buffer s) < gb_next_expected (sy_buffer s1)"
      by blast
    have dec: "?d s1 < ?d s" using s1(3) lt' by (simp add: word_less_nat_alt)
    then have le: "T + 2000000 + ?d s1 * 2000000 \<le> T + ?d s * 2000000" by linarith
    then have "T + 2000000 + ?d s1 * 2000000 < 2 ^ 64" using less.prems(3) by linarith
    from less.hyps [OF dec s1(2) less.prems(2) this] obtain s' where
      s': "leads dropped sent n (T + 2000000) (T + 2000000 + ?d s1 * 2000000) s1 s'" "heard dropped sent n s'"
        "gb_next_expected (sy_buffer s') = of_nat n + 1" by blast
    have "leads dropped sent n T (T + ?d s * 2000000) s s'"
      using leads_trans [OF leads_trans [OF s1(1) s'(1)] leads_refl [OF le]] .
    then show ?thesis using s' by blast
  qed
qed

section \<open>From anywhere before the end\<close>

lemma sender_leads: "leads dropped sent n T T s (sender_turn dropped sent n lingers s)"
  by (rule leads_turn [of _ _ _ _ _ _ "SenderTurn lingers"]) (simp_all add: calm_def lossless_def)

text \<open>The sender goes through the rest of its loop.\<close>

lemma sender_lingers:
  assumes ok: "\<forall>k\<in>{1..n}. dropped k \<or> sent k"
  shows "live_inv dropped sent n s \<Longrightarrow> sy_sender s = Lingering \<or> sy_sender s = Sending k \<Longrightarrow>
    \<exists>s'. leads dropped sent n T T s s' \<and> live_inv dropped sent n s' \<and> sy_buffer s' = sy_buffer s \<and> sy_sender s' = Lingering"
proof (induction "n + 1 - k" arbitrary: s k)
  case 0
  show ?case
  proof (cases "sy_sender s = Lingering")
    case True
    then show ?thesis using "0.prems" leads_refl by blast
  next
    case False
    then have "sy_sender (sender_turn dropped sent n True s) = Lingering" using 0 by (simp add: sender_turn_def)
    then show ?thesis using sender_keeps [OF "0.prems"(1), of True] sender_leads by blast
  qed
next
  case (Suc x)
  show ?case
  proof (cases "sy_sender s = Lingering")
    case True
    then show ?thesis using Suc.prems leads_refl by blast
  next
    case False
    then have k: "sy_sender s = Sending k" using Suc.prems(2) by simp
    let ?s1 = "sender_turn dropped sent n True s"
    note K = sender_keeps [OF Suc.prems(1), of True]
    obtain m where "recorded dropped sent n (sy_sender s) m" using Suc.prems(1) by (auto simp: live_inv_def server_inv_def)
    then have "1 \<le> k" using k by (simp add: recorded_def)
    moreover have "k \<le> n" using Suc.hyps(2) by simp
    ultimately have "sy_sender ?s1 = Sending (Suc k)" using k ok by (auto simp: sender_turn_def Let_def)
    moreover have "x = n + 1 - Suc k" using Suc.hyps(2) by simp
    ultimately obtain s' where "leads dropped sent n T T ?s1 s'" "live_inv dropped sent n s'" "sy_buffer s' = sy_buffer ?s1" "sy_sender s' = Lingering"
      using Suc.hyps(1) [OF _ K(1)] by blast
    then show ?thesis using K(2) sender_leads by (metis leads_trans)
  qed
qed

lemma hear_heartbeat:
  assumes "live_inv dropped sent n s" "sy_sender s = Lingering" "T < 2 ^ 64"
  shows "\<exists>s'. leads dropped sent n T T s s' \<and> heard dropped sent n s' \<and> moves (sy_buffer s) (sy_buffer s')"
proof -
  let ?s1 = "sender_turn dropped sent n True s"
  have s1: "sy_sender ?s1 = Lingering" "send_ctl (of_nat n) kMoldHeartbeatCount \<in> set (sy_line ?s1)" using assms(2) by (simp_all add: sender_turn_def)
  note K = sender_keeps [OF assms(1), of True]
  from drain_line [OF K(1) assms(3)] obtain s2 where
    s2: "leads dropped sent n T T ?s1 s2" "live_inv dropped sent n s2" "moves (sy_buffer ?s1) (sy_buffer s2)" "sy_line s2 = []"
      "sy_sender s2 = sy_sender ?s1" "\<forall>d\<in>set (sy_line ?s1). told n d (sy_buffer s2)" by blast
  from s2(2) obtain fks where fks: "sy_replies s2 = live_replies fks" "\<forall>(f, k)\<in>set fks. valid_reply live_body (of_nat n + 1) f k"
    by (auto simp: live_inv_def wires_inv_def)
  from drain_replies [OF s2(2) assms(3) fks] obtain s3 where
    s3: "leads dropped sent n T T s2 s3" "live_inv dropped sent n s3" "moves (sy_buffer s2) (sy_buffer s3)" "sy_line s3 = sy_line s2"
      "sy_replies s3 = []" "sy_sender s3 = sy_sender s2" by blast
  have "told n (send_ctl (of_nat n) kMoldHeartbeatCount) (sy_buffer s3)" using s2(6) s1(2) s3(3) told_moves by blast
  then have "heard dropped sent n s3" using s3 s2(4,5) s1(1) by (simp add: heard_def told_def)
  moreover have "moves (sy_buffer s) (sy_buffer s3)" using K(2) s2(3) s3(3) by (metis moves_trans)
  moreover have "leads dropped sent n T T s s3" using sender_leads s2(1) s3(1) by (metis leads_trans)
  ultimately show ?thesis by blast
qed

lemma end_completes:
  assumes h: "heard dropped sent n s" and nx: "gb_next_expected (sy_buffer s) = of_nat n + 1" and T: "T < 2 ^ 64"
  shows "\<exists>s'. leads dropped sent n T T s s' \<and> live_inv dropped sent n s' \<and> session_complete (sy_buffer s')"
proof -
  have I: "live_inv dropped sent n s" "sy_sender s = Lingering" using h by (simp_all add: heard_def)
  let ?s1 = "sender_turn dropped sent n False s"
  let ?s2 = "sender_turn dropped sent n False ?s1"
  note K1 = sender_keeps [OF I(1), of False]
  note K2 = sender_keeps [OF K1(1), of False]
  have "sy_sender ?s1 = Ending 0" using I(2) by (simp add: sender_turn_def)
  then have "send_ctl (of_nat n) kMoldEndOfSessionCount \<in> set (sy_line ?s2)" by (simp add: sender_turn_def [of dropped sent n False ?s1])
  moreover from drain_line [OF K2(1) T] obtain s3 where
    s3: "leads dropped sent n T T ?s2 s3" "live_inv dropped sent n s3" "moves (sy_buffer ?s2) (sy_buffer s3)"
      "\<forall>d\<in>set (sy_line ?s2). told n d (sy_buffer s3)" by blast
  ultimately have eos: "gb_eos_seen (sy_buffer s3)" by (auto simp: told_def)
  have R: "recoverable live_body (of_nat n + 1) live_session 1 (sy_calls s3) (sy_buffer s3)" using s3(2) by (simp add: live_inv_def buffer_inv_def)
  have "of_nat n + 1 \<le> gb_next_expected (sy_buffer s3)" using s3(3) nx K1(2) K2(2) by (simp add: moves_def)
  then have "gb_next_expected (sy_buffer s3) = of_nat n + 1" using recoverableD(4) [OF R] by simp
  moreover have "gap_ok (sy_buffer s3)" using R by (simp add: recoverable_def)
  ultimately have "\<not> gb_in_gap (sy_buffer s3)" using recoverableD(5) [OF R] by (auto simp: gap_ok_def)
  with recovered_complete(1) [OF R eos] have "session_complete (sy_buffer s3)" by simp
  moreover have "leads dropped sent n T T s s3" using sender_leads s3(1) by (metis leads_trans)
  ultimately show ?thesis using s3(2) by blast
qed

lemma recovery_possible:
  assumes "live_inv dropped sent n s" "sy_sender s = Lingering \<or> sy_sender s = Sending k" "\<forall>k\<in>{1..n}. dropped k \<or> sent k"
    "T + n * 2000000 < 2 ^ 64"
  shows "\<exists>s'. leads dropped sent n T (T + n * 2000000) s s' \<and> live_inv dropped sent n s' \<and> session_complete (sy_buffer s')"
proof -
  from sender_lingers [OF assms(3,1,2), of T] obtain s1 where
    s1: "leads dropped sent n T T s s1" "live_inv dropped sent n s1" "sy_sender s1 = Lingering" by blast
  have T: "T < 2 ^ 64" using assms(4) by linarith
  from hear_heartbeat [OF s1(2,3) T] obtain s2 where s2: "leads dropped sent n T T s1 s2" "heard dropped sent n s2" by blast
  let ?d = "n + 1 - unat (gb_next_expected (sy_buffer s2))"
  have "recoverable live_body (of_nat n + 1) live_session 1 (sy_calls s2) (sy_buffer s2)"
    using s2(2) by (simp add: heard_def live_inv_def buffer_inv_def)
  from recoverableD(3) [OF this] have "?d \<le> n" by linarith
  then have le: "T + ?d * 2000000 \<le> T + n * 2000000" by simp
  then have b: "T + ?d * 2000000 < 2 ^ 64" using assms(4) by linarith
  from rounds_recover [OF s2(2) assms(3) b] obtain s3 where
    s3: "leads dropped sent n T (T + ?d * 2000000) s2 s3" "heard dropped sent n s3" "gb_next_expected (sy_buffer s3) = of_nat n + 1" by blast
  from end_completes [OF s3(2,3) b] obtain s4 where
    s4: "leads dropped sent n (T + ?d * 2000000) (T + ?d * 2000000) s3 s4" "live_inv dropped sent n s4" "session_complete (sy_buffer s4)" by blast
  have "leads dropped sent n T (T + n * 2000000) s s4"
    using leads_trans [OF leads_trans [OF leads_trans [OF leads_trans [OF s1(1) s2(1)] s3(1)] s4(1)] leads_refl [OF le]] .
  then show ?thesis using s4(2,3) by blast
qed

end
