(* ===== verification/Gap_Spec.thy ===== *)
theory Gap_Spec
  imports Gap_Recovery Live_Pipeline Gap_Bench Send_Live Live_Recovery
begin

text \<open>
  The properties of the gap buffer and of what is composed from it: sequencing through the adapter,
  recovery of a gap and of a whole session, the programs \<^verbatim>\<open>run_feed_pipeline\<close> and \<^verbatim>\<open>run_live_pipeline\<close> from datagrams to books,
  the sender \<^verbatim>\<open>send_live_itch\<close> and the shuffled laps of the gap buffer's bench.
\<close>

section \<open>Through the adapter\<close>

text \<open>The feed's messages as they would come one by one, with receive time 0.\<close>

definition feed_messages :: "(u64 \<Rightarrow> u8 list) \<Rightarrow> u64 \<Rightarrow> u64 \<Rightarrow> mold_message list" where
  "feed_messages C from to = map (\<lambda>(s, n, b). \<lparr>mm_length = n, mm_body = b, mm_seq_num = s, mm_recv_ns = 0\<rparr>) (feed_slice C from to)"

text \<open>The engine messages that a list of feed messages makes the adapter emit.\<close>

definition engine_msgs :: "itch_adapter \<Rightarrow> mold_message list \<Rightarrow> md_msg list" where
  "engine_msgs ia msgs = map fst (fst (on_mold_messages ia msgs))"

definition msg_view :: "mold_message \<Rightarrow> u64 \<times> nat \<times> u8 list" where
  "msg_view m = (mm_seq_num m, mm_length m, take (mm_length m) (mm_body m))"

lemma adapter_view:
  assumes "msg_view m = msg_view m'"
  shows "map fst (fst (on_mold_message ia m)) = map fst (fst (on_mold_message ia m'))"
    "snd (on_mold_message ia m) = snd (on_mold_message ia m')"
  using assms by (auto simp: msg_view_def on_mold_message_def comp_def split: decoded.split prod.split)

lemma engine_msgs_view: "map msg_view ms = map msg_view ms' \<Longrightarrow> engine_msgs ia ms = engine_msgs ia ms'"
proof (induction ms arbitrary: ia ms')
  case (Cons m ms)
  then obtain m' ms2 where m': "ms' = m' # ms2" "msg_view m = msg_view m'" "map msg_view ms = map msg_view ms2" by (cases ms') auto
  obtain o1 ia1 where o1: "on_mold_message ia m = (o1, ia1)" by force
  obtain o2 ia2 where o2: "on_mold_message ia m' = (o2, ia2)" by force
  have "map fst o1 = map fst o2" "ia1 = ia2" using adapter_view [OF m'(2), of ia] by (simp_all add: o1 o2)
  moreover have "engine_msgs ia1 ms = engine_msgs ia1 ms2" by (rule Cons.IH [OF m'(3)])
  ultimately show ?case by (auto simp: engine_msgs_def m'(1) o1 o2 split: prod.splits)
qed simp

lemma feed_slice_view: "map msg_view (feed_messages C from to) = feed_slice C from to"
  by (simp add: feed_messages_def feed_slice_def msg_view_def)

lemma delivered_view: "delivered c = map msg_view (messages_of c)"
  by (simp add: delivered_def msg_view_def)

section \<open>A feed whose packets come out of order\<close>

text \<open>Message \<open>s\<close> is the one byte \<open>s\<close>; each packet has one message.\<close>

definition demo_content :: "u64 \<Rightarrow> u8 list" where "demo_content s = [ucast s]"

definition demo_header :: "u64 \<Rightarrow> mold_header" where
  "demo_header s = \<lparr>mh_session = replicate 10 ch_space, mh_seq_num = s, mh_msg_count = 1\<rparr>"

definition demo_packet :: "u64 \<Rightarrow> u8 list" where
  "demo_packet s = mold_header_serialise (demo_header s) @ put_be16 1 @ [ucast s]"

definition demo_inputs :: "gb_input list" where
  "demo_inputs = [Datagram (demo_packet 2) 5, Tick 6, Datagram (demo_packet 1) 7]"

definition demo_gb_config :: gb_config where
  "demo_gb_config = gb_config_default\<lparr>gc_expected_first_seq := 1\<rparr>"

lemma demo_packet_read:
  "mold_header_parse (demo_packet s) = Some (demo_header s)" "data_msgs (demo_header s) (demo_packet s) = [(s, [ucast s])]" "is_data (demo_header s)"
proof -
  have l: "length (mold_header_serialise (demo_header s)) = kMoldHeaderSize"
    by (simp add: mold_header_serialise_def demo_header_def kMoldHeaderSize_def)
  show "mold_header_parse (demo_packet s) = Some (demo_header s)"
    unfolding demo_packet_def by (rule header_parse_serialise) (simp add: demo_header_def)
  have "be16 (put_be16 1 @ [ucast s]) 0 = 1" using be16_append [of "[]" 1 "[ucast s]"] by simp
  moreover have "drop kMoldHeaderSize (demo_packet s) = put_be16 1 @ [ucast s]" unfolding demo_packet_def using l by simp
  ultimately show "data_msgs (demo_header s) (demo_packet s) = [(s, [ucast s])]"
    by (simp add: data_msgs_def demo_header_def Let_def)
  show "is_data (demo_header s)"
    by (simp add: is_data_def is_heartbeat_def is_end_of_session_def demo_header_def kMoldHeartbeatCount_def kMoldEndOfSessionCount_def)
qed

lemma demo_feed_run: "feed_run demo_content 3 (replicate 10 ch_space) demo_gb_config demo_inputs"
  by (simp add: feed_run_def demo_inputs_def demo_packet_read packet_from_feed_def demo_content_def demo_gb_config_def gb_config_default_def
      is_blank_def) (simp add: demo_header_def)

lemma demo_arrived: "arrived (replicate 10 ch_space) demo_inputs = [(2, [2]), (1, [1])]"
  by (simp add: arrived_def demo_inputs_def demo_packet_read) (simp add: demo_header_def)

lemma demo_no_overflow: "overflows (snd (gb_run demo_inputs (gap_buffer_init demo_gb_config True))) = 0"
  by code_simp

text \<open>Packet 2 has come, packet 1 has not.\<close>

definition demo_gap :: gap_buffer where
  "demo_gap = snd (gb_run [Datagram (demo_packet 2) 5] (gap_buffer_init demo_gb_config True))"

lemma demo_gap_state:
  "gb_in_gap demo_gap \<and> request_due 200000 demo_gap \<and> gb_retx_set demo_gap \<and> missing_count demo_gap = 1 \<and>
    gb_session demo_gap = replicate 10 ch_space \<and> gb_next_expected demo_gap = 1 \<and> gb_seq_synced demo_gap"
  by code_simp

text \<open>A slice of the live sender's feed is its orders.\<close>

lemma live_slice_orders:
  assumes "delivered c = feed_slice live_body 1 to"
  shows "engine_msgs (adapter_init 1) (messages_of c) = map (\<lambda>k. live_order (of_nat k)) [1..<unat to]"
proof -
  have "engine_msgs (adapter_init 1) (messages_of c) = engine_msgs (adapter_init 1) (feed_messages live_body 1 to)"
    by (rule engine_msgs_view) (simp add: assms feed_slice_view flip: delivered_view)
  moreover have "feed_messages live_body 1 to = map (\<lambda>s. \<lparr>mm_length = 36, mm_body = live_body s, mm_seq_num = s, mm_recv_ns = 0\<rparr>)
      (map of_nat [1..<unat to])"
    by (simp add: feed_messages_def feed_slice_def length_live_body)
  ultimately show ?thesis
    using live_messages_orders [of "adapter_init 1" 0 "map of_nat [1..<unat to]"]
    by (simp only: engine_msgs_def map_map comp_def) (simp add: adapter_init_def translator_init_def)
qed





section \<open>Properties\<close>

text \<open>
  C22. The feed comes out in order, once, and complete. Whatever the order, repetition, truncation and
  timing of the datagrams of a feed (and of strays of other sessions), the messages handed downstream
  are those from the starting number up to \<^verbatim>\<open>next_expected_\<close>, each once, in order and with the
  feed's bytes, and the adapter turns them into the engine messages of an undisturbed feed. If
  every message below a number arrived and none was counted as an overflow, all of them are delivered;
  a feed of messages of at most 1500 bytes that fits the window of 4096 overflows in no order.
\<close>

theorem feed_delivered_in_order:
  assumes "feed_run C N sess cfg ins" "gb_run ins (gap_buffer_init cfg retx) = (c, g)"
  shows "let start = first_seq sess (gc_expected_first_seq cfg) ins; next = gb_next_expected g in
    start \<le> next \<and> next \<le> N \<and> delivered c = feed_slice C start next \<and>
    engine_msgs ia (messages_of c) = engine_msgs ia (feed_messages C start next) \<and>
    (length (arrived sess ins) < 2 ^ 64 \<and> overflows g = 0 \<and>
      (\<forall>s. start \<le> s \<and> s < to \<longrightarrow> s \<in> fst ` set (arrived sess ins)) \<longrightarrow> to \<le> next) \<and>
    (fits C N start \<longrightarrow> overflows g = 0)"
proof -
  note S = sequenced [OF feed_run_inv(1) [OF assms]]
  show ?thesis unfolding Let_def
    using S(1-3) S(4) [of to] S(5) engine_msgs_view [of "messages_of c" "feed_messages C _ (gb_next_expected g)" ia]
    by (simp add: feed_slice_view flip: delivered_view)
qed

theorem feed_delivered_in_order_witness:
  "delivered (fst (gb_run demo_inputs (gap_buffer_init demo_gb_config True))) = [(1, 1, [1]), (2, 1, [2])]"
proof -
  obtain c g where r: "gb_run demo_inputs (gap_buffer_init demo_gb_config True) = (c, g)" by force
  have f: "first_seq (replicate 10 ch_space) 1 demo_inputs = 1" by (simp add: demo_inputs_def)
  have start: "gc_expected_first_seq demo_gb_config = 1" by (simp add: demo_gb_config_def)
  have two: "s = 1 \<or> s = 2" if "1 \<le> s" "s < 3" for s :: u64
  proof -
    have "unat s = 1 \<or> unat s = 2" using that by (auto simp: word_le_nat_alt word_less_nat_alt)
    then show ?thesis by (auto simp: word_unat_eq_iff)
  qed
  then have "\<forall>s. 1 \<le> s \<and> s < 3 \<longrightarrow> s \<in> fst ` set (arrived (replicate 10 ch_space) demo_inputs)" by (auto simp: demo_arrived)
  then have "3 \<le> gb_next_expected g \<and> gb_next_expected g \<le> 3 \<and> delivered c = feed_slice demo_content 1 (gb_next_expected g)"
    using feed_delivered_in_order [OF demo_feed_run r, where to = 3 and ia = "adapter_init 1"] demo_no_overflow
    by (simp add: Let_def f start r demo_arrived)
  then have "delivered c = feed_slice demo_content 1 3" by (auto dest: order.antisym)
  then show ?thesis by (simp add: r feed_slice_def demo_content_def upt_rec)
qed

text \<open>
  C23. The live pipeline loses what the ring refuses. In every completed run of \<^verbatim>\<open>run_live_pipeline\<close> the
  engine processes, in order, exactly those messages of the adapter that the inbound ring took; the
  others are gone, and \<^verbatim>\<open>queue_full_rejects\<close> is how many. Such losses happen: on a feed without any gap
  of one packet more than the ring holds, there is a run that completes, exits with 0 and never gives
  the last order to the engine.
\<close>

theorem live_pipeline_loses_refused_messages:
  assumes fd: "lx_fd lx \<ge> 0"
  shows "(run_live_pipeline stoi lx a t0 rounds as 0 p \<longrightarrow>
      (let acc = run_accepts (started 1 (lx_fd lx)) as; ms = map fst (fst (live_feed a t0 rounds)) in
        subseq acc ms \<and> (\<exists>rs. dispatch_all (start_books 1) acc = Some (books_of (pp_engine p), rs)) \<and> inq (pp_engine p) = [] \<and>
        pr_events_accepted (pp_result p) = of_nat (length acc) \<and>
        pr_queue_full_rejects (pp_result p) = of_nat (length ms - length acc))) \<and>
    (live_setup stoi lx a = Some True \<and> la_rr_addr a = [] \<longrightarrow>
      (let rounds = map packet_round [0..<queue_room + 1] in
        map fst (fst (live_feed a 0 rounds)) = map feed_order [0..<queue_room + 1] \<and>
        (\<exists>as p. run_live_pipeline stoi lx a 0 rounds as 0 p \<and> pr_queue_full_rejects (pp_result p) = 1 \<and>
          run_accepts (started 1 (lx_fd lx)) as = map feed_order [0..<queue_room])))"
proof (intro conjI impI)
  have rej: "pr_queue_full_rejects (pp_result p) = of_nat (length (fst (live_feed a t0 rounds)) - length (run_accepts (started 1 (lx_fd lx)) as))"
    and acc: "pr_events_accepted (pp_result p) = of_nat (length (run_accepts (started 1 (lx_fd lx)) as))"
    if run: "run_live_pipeline stoi lx a t0 rounds as 0 p" for t0 rounds as p
  proof -
    note L = live_delivers [OF run fd]
    have c: "counts_inv p (length (run_accepts (started 1 (lx_fd lx)) as)) (run_fills (started 1 (lx_fd lx)) as)"
      using L(3) by (auto simp: pipe_inv_def)
    then show "pr_events_accepted (pp_result p) = of_nat (length (run_accepts (started 1 (lx_fd lx)) as))" by (simp add: counts_inv_def)
    have "length (run_accepts (started 1 (lx_fd lx)) as) \<le> length (fst (live_feed a t0 rounds))"
      using list_emb_length [OF L(1)] by simp
    then show "pr_queue_full_rejects (pp_result p) = of_nat (length (fst (live_feed a t0 rounds)) - length (run_accepts (started 1 (lx_fd lx)) as))"
      using c L(2) by (simp add: counts_inv_def of_nat_diff)
  qed
  show "let acc = run_accepts (started 1 (lx_fd lx)) as; ms = map fst (fst (live_feed a t0 rounds)) in
        subseq acc ms \<and> (\<exists>rs. dispatch_all (start_books 1) acc = Some (books_of (pp_engine p), rs)) \<and> inq (pp_engine p) = [] \<and>
        pr_events_accepted (pp_result p) = of_nat (length acc) \<and>
        pr_queue_full_rejects (pp_result p) = of_nat (length ms - length acc)"
    if run: "run_live_pipeline stoi lx a t0 rounds as 0 p"
    using live_delivers [OF run fd] rej [OF run] acc [OF run] by (auto simp: Let_def)
  assume ok: "live_setup stoi lx a = Some True \<and> la_rr_addr a = []"
  let ?rounds = "map packet_round [0..<queue_room + 1]"
  have n: "queue_room + 1 + 1 < 2 ^ 64" by (simp add: queue_room_def kQueueDepth_def)
  have f: "fst (live_feed a 0 ?rounds) = map (\<lambda>k. (feed_order k, 1)) [0..<queue_room + 1]"
    by (rule live_feed_packets [OF conjunct2 [OF ok] n])
  from lossy_live_run [OF fd conjunct1 [OF ok] conjunct2 [OF ok] n] obtain as p where
    r: "run_live_pipeline stoi lx a 0 ?rounds as 0 p" "run_accepts (started 1 (lx_fd lx)) as = map feed_order [0..<min queue_room (queue_room + 1)]"
    by blast
  have m: "min queue_room (queue_room + 1) = queue_room" by simp
  have "pr_queue_full_rejects (pp_result p) = 1" using rej [OF r(1)] by (simp only: r(2) f m length_map length_upt) simp
  then show "let rounds = ?rounds in
        map fst (fst (live_feed a 0 rounds)) = map feed_order [0..<queue_room + 1] \<and>
        (\<exists>as p. run_live_pipeline stoi lx a 0 rounds as 0 p \<and> pr_queue_full_rejects (pp_result p) = 1 \<and>
          run_accepts (started 1 (lx_fd lx)) as = map feed_order [0..<queue_room])"
    unfolding Let_def f using r unfolding m by (auto simp: comp_def simp del: upt_Suc)
qed

theorem live_pipeline_loses_refused_messages_witness:
  "\<exists>as p. run_live_pipeline (\<lambda>_. None) \<lparr>lx_fd = 3, lx_gap_alloc = True, lx_receiver_open = True, lx_retx_open = True\<rparr>
      (the (parse_live_args (\<lambda>_. None) [''239.1.1.1''])) 0 (map packet_round [0..<queue_room + 1]) as 0 p \<and>
    pr_queue_full_rejects (pp_result p) = 1"
proof -
  let ?lx = "\<lparr>lx_fd = 3, lx_gap_alloc = True, lx_receiver_open = True, lx_retx_open = True\<rparr>"
  let ?a = "the (parse_live_args (\<lambda>_. None) [''239.1.1.1''])"
  have "la_rr_addr ?a = []" by (simp add: parse_live_args_def arg_or_def)
  moreover from this have "live_setup (\<lambda>_. None) ?lx ?a = Some True" by (simp add: live_setup_def)
  moreover have "lx_fd ?lx \<ge> 0" by simp
  ultimately show ?thesis
    using live_pipeline_loses_refused_messages [of ?lx "\<lambda>_. None" ?a] unfolding Let_def by blast
qed

text \<open>
  C25. Shuffled laps come out in order. Whatever permutation the shuffle makes of each lap of 4096 packets,
  the bench's buffer delivers every message of every lap, once and in order, and none is dropped: the
  window is exactly as wide as a lap.
\<close>

theorem shuffled_laps_are_delivered:
  assumes "\<forall>lap xs. mset (shuffle lap xs) = mset xs" "kSpan * n + 1 < 2 ^ 64" "bench_run shuffle n = (c, g)"
  shows "length (messages_of c) = kSpan * n \<and> delivered c = feed_slice bench_body 1 (of_nat (kSpan * n + 1)) \<and>
    gb_next_expected g = of_nat (kSpan * n + 1) \<and> overflows g = 0"
proof -
  have "between_laps 1 (gap_buffer_init bench_gap_config False)"
    by (simp add: between_laps_def gap_buffer_init_def reset_sequence_state_def bench_gap_config_def gb_config_default_def
        is_blank_def free_slot_def gb_stats_zero_def)
  from laps_deliver [OF assms(1) this, of n 0 c g] assms(2,3)
  have d: "delivered c = feed_slice bench_body 1 (of_nat (kSpan * n + 1))" "between_laps (of_nat (kSpan * n + 1)) g"
    by (simp_all add: bench_run_def add.commute)
  have "unat (of_nat (kSpan * n + 1) :: u64) = kSpan * n + 1"
    using assms(2) by (simp only: unsigned_of_nat) (simp add: take_bit_nat_eq_self)
  then have "length (delivered c) = kSpan * n" unfolding d(1) feed_slice_def length_map length_upt by simp
  then have "length (messages_of c) = kSpan * n" by (simp add: delivered_def)
  with d show ?thesis by (simp add: between_laps_def)
qed

theorem shuffled_laps_are_delivered_witness:
  "length (messages_of (fst (bench_run (\<lambda>lap xs. if even lap then rev xs else xs) 2))) = 8192"
proof -
  obtain c g where r: "bench_run (\<lambda>lap xs. if even lap then rev xs else xs) 2 = (c, g)" by force
  from shuffled_laps_are_delivered [OF _ _ r] show ?thesis by (simp add: r kSpan_def)
qed

text \<open>
  C26. A gap is requested exactly and closed by its answer. After any inputs at all, a gap is open only
  while something below the high-water mark is missing; a tick asks for something exactly when a gap is
  open, its timeout or retry interval has passed, a callback is set and something is missing, and it
  asks for the missing run from \<^verbatim>\<open>next_expected_\<close> on: none of it is buffered, all of it is below the
  mark, and it ends at the cap, at the mark or at a buffered message. On the inputs of a feed, a
  datagram that starts at \<^verbatim>\<open>next_expected_\<close> moves the buffer past each complete message it has.
\<close>

theorem gap_is_requested_and_closed:
  assumes "gb_run ins (gap_buffer_init cfg retx) = (c, g)"
  shows "(gb_in_gap g \<longrightarrow> gb_next_expected g < gb_high_water g) \<and>
    fst (gb_tick now g) = (if gb_in_gap g \<and> request_due now g \<and> gb_retx_set g \<and> missing_count g \<noteq> 0
      then [OnRetransmitRequest \<lparr>rq_session = gb_session g, rq_first_seq = gb_next_expected g, rq_count = of_nat (missing_count g)\<rparr>] else []) \<and>
    (gb_in_gap g \<longrightarrow> (let n = missing_count g; max = unat (gc_max_retransmit_count (gb_cfg g)) in
      n \<le> max \<and> unat (gb_next_expected g) + n \<le> unat (gb_high_water g) \<and> (\<forall>j < n. \<not> present g (next_seqs g j)) \<and>
      (n = max \<or> unat (gb_next_expected g) + n = unat (gb_high_water g) \<or> present g (next_seqs g n)))) \<and>
    (feed_run C N sess cfg ins \<and> gb_seq_synced g \<and> mold_header_parse payload = Some h \<and> mh_session h = sess \<and> is_data h \<and>
      packet_from_feed C N h payload \<and> mh_seq_num h = gb_next_expected g \<longrightarrow>
      unat (gb_next_expected g) + length (data_msgs h payload) \<le> unat (gb_next_expected (snd (gb_step (Datagram payload t) g))))"
proof (intro conjI impI)
  have ok: "gap_ok g" using gap_ok_run [OF assms] by simp
  then show n: "gb_next_expected g < gb_high_water g" if "gb_in_gap g" using that by (simp add: gap_ok_def)
  show "fst (gb_tick now g) = (if gb_in_gap g \<and> request_due now g \<and> gb_retx_set g \<and> missing_count g \<noteq> 0
      then [OnRetransmitRequest \<lparr>rq_session = gb_session g, rq_first_seq = gb_next_expected g, rq_count = of_nat (missing_count g)\<rparr>] else [])"
    by (rule tick_request [OF ok])
  show "let n = missing_count g; max = unat (gc_max_retransmit_count (gb_cfg g)) in
      n \<le> max \<and> unat (gb_next_expected g) + n \<le> unat (gb_high_water g) \<and> (\<forall>j < n. \<not> present g (next_seqs g j)) \<and>
      (n = max \<or> unat (gb_next_expected g) + n = unat (gb_high_water g) \<or> present g (next_seqs g n))" if "gb_in_gap g"
    using missing_run_exact [OF n [OF that]] by (simp add: Let_def)
  assume a: "feed_run C N sess cfg ins \<and> gb_seq_synced g \<and> mold_header_parse payload = Some h \<and> mh_session h = sess \<and> is_data h \<and>
      packet_from_feed C N h payload \<and> mh_seq_num h = gb_next_expected g"
  obtain c' g' where st: "gb_step (Datagram payload t) g = (c', g')" by force
  from feed_run_inv [OF _ assms, of C N sess] reply_forward [OF _ _ _ _ _ _ _ _ st] a
  show "unat (gb_next_expected g) + length (data_msgs h payload) \<le> unat (gb_next_expected (snd (gb_step (Datagram payload t) g)))"
    unfolding st by (metis order_refl snd_conv)
qed

theorem gap_is_requested_and_closed_witness:
  "fst (gb_tick 200000 demo_gap) = [OnRetransmitRequest \<lparr>rq_session = replicate 10 ch_space, rq_first_seq = 1, rq_count = 1\<rparr>] \<and>
    2 \<le> unat (gb_next_expected (snd (gb_step (Datagram (demo_packet 1) 9) demo_gap)))"
proof -
  obtain c where r: "gb_run [Datagram (demo_packet 2) 5] (gap_buffer_init demo_gb_config True) = (c, demo_gap)"
    unfolding demo_gap_def by (metis prod.collapse)
  have f: "feed_run demo_content 3 (replicate 10 ch_space) demo_gb_config [Datagram (demo_packet 2) 5]"
    using demo_feed_run by (simp add: feed_run_def demo_inputs_def)
  have p: "packet_from_feed demo_content 3 (demo_header 1) (demo_packet 1)" "mh_session (demo_header 1) = replicate 10 ch_space"
    "mh_seq_num (demo_header 1) = 1"
    by (simp_all add: packet_from_feed_def demo_packet_read demo_content_def) (simp_all add: demo_header_def)
  note G = gap_is_requested_and_closed [OF r, of 200000 demo_content 3 "replicate 10 ch_space" "demo_packet 1" "demo_header 1" 9]
  have "fst (gb_tick 200000 demo_gap) = [OnRetransmitRequest \<lparr>rq_session = replicate 10 ch_space, rq_first_seq = 1, rq_count = 1\<rparr>]"
    using conjunct1 [OF conjunct2 [OF G]] demo_gap_state by simp
  moreover have "unat (1 :: u64) + 1 \<le> unat (gb_next_expected (snd (gb_step (Datagram (demo_packet 1) 9) demo_gap)))"
    using conjunct2 [OF conjunct2 [OF conjunct2 [OF G]]] f p demo_gap_state demo_packet_read [of 1] by simp
  ultimately show ?thesis by simp
qed

text \<open>
  C29. What \<^verbatim>\<open>send_live_itch\<close> sends arrives as its orders. Whatever datagrams that the sender of n packets may put
  on the wire reach a recovering buffer, in any order and number, the engine messages are its orders
  from the first to \<^verbatim>\<open>next_expected_\<close>, in order and once. If \<^verbatim>\<open>session_complete\<close> holds, they are all n
  orders; and it holds once each datagram of a sender without drops has come, whatever the order, if
  nothing overflowed or n is at most 4096.
\<close>

theorem sent_feed_arrives_complete:
  assumes "gb_run ins (gap_buffer_init recovering retx) = (c, g)" "\<forall>i\<in>set ins. wire_input n i" "n + 1 < 2 ^ 64"
  shows "1 \<le> unat (gb_next_expected g) \<and> unat (gb_next_expected g) \<le> n + 1 \<and>
    engine_msgs (adapter_init 1) (messages_of c) = map (\<lambda>k. live_order (of_nat k)) [1..<unat (gb_next_expected g)] \<and>
    (session_complete g \<longrightarrow> engine_msgs (adapter_init 1) (messages_of c) = map (\<lambda>k. live_order (of_nat k)) [1..<n + 1]) \<and>
    ((\<forall>d\<in>set (send_live_itch (\<lambda>_. False) (\<lambda>_. True) n rr beats). \<exists>t. Datagram d t \<in> set ins) \<and> length ins < 2 ^ 64 \<and>
      (overflows g = 0 \<or> n \<le> kCapacity) \<longrightarrow> session_complete g)"
proof -
  let ?E = "of_nat n + 1 :: u64" and ?sess = "replicate 10 ch_space :: u8 list"
  note W = wire_state [OF assms] and S = sequenced [OF wire_state(1) [OF assms]]
  have e: "?E = of_nat (n + 1)" by simp
  have E: "unat ?E = n + 1" unfolding e by (rule live_end [OF assms(3)]) simp
  have b: "1 \<le> unat (gb_next_expected g)" "unat (gb_next_expected g) \<le> n + 1" using S(2,3) E by (simp_all add: word_le_nat_alt)
  note out = live_slice_orders [OF S(1)]
  have all: "unat (gb_next_expected g) = n + 1" if "session_complete g"
    using that W(2) b E by (auto simp: session_complete_def marks_ok_def word_le_nat_alt)
  have complete: "session_complete g"
    if came: "\<forall>d\<in>set (send_live_itch (\<lambda>_. False) (\<lambda>_. True) n rr beats). \<exists>t. Datagram d t \<in> set ins" and l: "length ins < 2 ^ 64"
      and ov: "overflows g = 0 \<or> n \<le> kCapacity"
  proof -
    have "fits live_body ?E 1" if "n \<le> kCapacity" using that E by (simp add: fits_def length_live_body kMaxMessageBytes_def)
    then have ov0: "overflows g = 0" using ov S(5) by blast
    have sent: "live_packet k \<in> set (send_live_itch (\<lambda>_. False) (\<lambda>_. True) n rr beats)" if "1 \<le> k" "k \<le> n" for k
    proof -
      have "live_packet k \<in> live_packet ` {1..<1 + n}" using that by (intro imageI) simp
      then show ?thesis by (simp add: send_live_itch_def send_loop_all del: upt_Suc)
    qed
    have "s \<in> fst ` set (arrived ?sess ins)" if h: "1 \<le> s" "s < ?E" for s
    proof -
      have "1 \<le> unat s" "unat s \<le> n" using h E by (simp_all add: word_le_nat_alt word_less_nat_alt)
      then obtain t where "Datagram (live_packet (unat s)) t \<in> set ins" using came sent by blast
      from arrived_packet [OF this] show ?thesis by (force intro: rev_image_eqI)
    qed
    moreover have "length (arrived ?sess ins) < 2 ^ 64" using arrived_length [OF assms(3,2)] l by linarith
    ultimately have nx: "gb_next_expected g = ?E" using S(3) S(4) [of ?E] ov0 by (simp add: order.antisym)
    have "send_ctl (of_nat n) kMoldEndOfSessionCount \<in> set (send_live_itch (\<lambda>_. False) (\<lambda>_. True) n rr beats)"
      by (simp add: send_live_itch_def send_controls_def)
    with came obtain t where "Datagram (send_ctl (of_nat n) kMoldEndOfSessionCount) t \<in> set ins" by blast
    then have "\<exists>i\<in>set ins. eos_input n i" by (intro bexI [of _ "Datagram _ t"]) (simp_all add: eos_input_def)
    then have "gb_eos_seen g" "gb_eos_seq g = ?E" "gb_high_water g \<le> ?E" using W(2) by (auto simp: marks_ok_def)
    then show ?thesis using W(3) nx by (auto simp: session_complete_def gap_ok_def)
  qed
  show ?thesis using b out all complete by auto
qed

theorem sent_feed_arrives_complete_witness:
  "session_complete (snd (gb_run (map (\<lambda>d. Datagram d 9) (rev (send_live_itch (\<lambda>_. False) (\<lambda>_. True) 3 False 0)))
    (gap_buffer_init recovering True)))"
proof -
  let ?ds = "send_live_itch (\<lambda>_. False) (\<lambda>_. True) 3 False 0" and ?ins = "map (\<lambda>d. Datagram d 9) (rev (send_live_itch (\<lambda>_. False) (\<lambda>_. True) 3 False 0))"
  obtain c g where r: "gb_run ?ins (gap_buffer_init recovering True) = (c, g)" by force
  have w: "\<forall>i\<in>set ?ins. wire_input 3 i" using sent_is_on_the_wire [of _ "\<lambda>_. False" "\<lambda>_. True" 3 False 0] by auto
  have "\<forall>d\<in>set ?ds. \<exists>t. Datagram d t \<in> set ?ins" by auto
  moreover have "length ?ins < 2 ^ 64" by (simp add: send_live_itch_def send_loop_all send_controls_def)
  ultimately have "session_complete g"
    using sent_feed_arrives_complete [OF r w, where rr = False and beats = 0] by (simp add: kCapacity_def)
  then show ?thesis by (simp add: r)
qed

text \<open>
  C30. \<^verbatim>\<open>run_feed_pipeline\<close> from datagrams to books. Once its log has opened, the program can always
  finish, and every run of it, however the threads took turns and whatever the receive times, exits
  with 0 after the engine has processed exactly the n orders its packets carry, in order: the books
  are those of processing them one after the other, and the accepted count, the fills and the log are
  those of the reports the drain thread took, in order.
\<close>

theorem feed_pipeline_from_bytes_to_books:
  assumes "fd \<ge> 0" "length recvs + 1 < 2 ^ 64"
  shows "(\<exists>as p. run_feed_pipeline fd recvs as 0 p) \<and>
    (\<forall>as ex p. run_feed_pipeline fd recvs as ex p \<longrightarrow> ex = 0 \<and> inq (pp_engine p) = [] \<and>
      pr_events_accepted (pp_result p) = of_nat (length recvs) \<and>
      (\<exists>rs. dispatch_all (start_books 1) (map feed_order [0..<length recvs]) = Some (books_of (pp_engine p), rs) \<and>
        subseq (map fst (run_fills (started 1 fd) as)) rs \<and> pr_fills (pp_result p) = of_nat (length (run_fills (started 1 fd) as)) \<and>
        fs_file (pp_sink p) = concat (map fill_bytes (run_fills (started 1 fd) as))))"
proof (intro conjI allI impI)
  show "\<exists>as p. run_feed_pipeline fd recvs as 0 p" by (rule feed_pipeline_exists [OF assms])
  fix as ex p assume run: "run_feed_pipeline fd recvs as ex p"
  note D = feed_pipeline_delivers [OF run assms]
  show "ex = 0" by (rule D(1))
  from D(2) obtain rs where rs: "dispatch_all (start_books 1) (map feed_order [0..<length recvs]) = Some (books_of (pp_engine p), rs)"
    "inq (pp_engine p) = []" "pipe_inv (start_books 1) p (map feed_order [0..<length recvs]) (run_fills (started 1 fd) as)"
    "subseq (map fst (run_fills (started 1 fd) as) @ outq (pp_engine p)) rs" by blast
  have cnt: "counts_inv p (length (map feed_order [0..<length recvs])) (run_fills (started 1 fd) as)"
    using rs(3) by (auto simp: pipe_inv_def)
  show "inq (pp_engine p) = []" by (rule rs(2))
  show "pr_events_accepted (pp_result p) = of_nat (length recvs)" using cnt by (simp add: counts_inv_def)
  have "subseq (map fst (run_fills (started 1 fd) as)) rs"
    using rs(4) subseq_order.order_trans [OF list_emb_append_mono [OF subseq_order.order_refl list_emb_Nil, unfolded append_Nil2]] by blast
  then show "\<exists>rs. dispatch_all (start_books 1) (map feed_order [0..<length recvs]) = Some (books_of (pp_engine p), rs) \<and>
        subseq (map fst (run_fills (started 1 fd) as)) rs \<and> pr_fills (pp_result p) = of_nat (length (run_fills (started 1 fd) as)) \<and>
        fs_file (pp_sink p) = concat (map fill_bytes (run_fills (started 1 fd) as))"
    using rs(1) cnt by (auto simp: counts_inv_def)
qed

theorem feed_pipeline_from_bytes_to_books_witness:
  "\<exists>as p. run_feed_pipeline 3 [5, 9] as 0 p \<and> pr_events_accepted (pp_result p) = 2"
proof -
  have l: "(3 :: int) \<ge> 0" "length [5, 9 :: u64] + 1 < 2 ^ 64" by simp_all
  note F = feed_pipeline_from_bytes_to_books [OF l]
  from F obtain as p where r: "run_feed_pipeline 3 [5, 9] as 0 p" by blast
  with F have "pr_events_accepted (pp_result p) = of_nat (length [5, 9 :: u64])" by blast
  with r show ?thesis by auto
qed



end
