(* ===== verification/Entry_Points.thy ===== *)
theory Entry_Points
  imports Pipeline_Stream
begin

text \<open>
  The programs that run the pipeline on generated orders: \<^verbatim>\<open>tools/run_pipeline.cpp\<close>,
  \<^verbatim>\<open>bench/bench_pipeline.cpp\<close> and \<^verbatim>\<open>bench/bench_tick_to_trade.cpp\<close>, from the start of the pipeline to the
  exit code. \<open>mid\<close> is \<^verbatim>\<open>to_price(100.0)\<close>, \<open>fd\<close> what opening the log returns. Printing and the
  measurement of time have no effect on the pipeline.
\<close>

section \<open>The programs\<close>

text \<open>\<^verbatim>\<open>run_synthetic\<close> returns nothing: the program exits with 0 also when the log could not be opened.\<close>

definition run_pipeline :: "price \<Rightarrow> int \<Rightarrow> u64 \<Rightarrow> pipe_act list \<Rightarrow> int \<Rightarrow> pipeline \<Rightarrow> bool" where
  "run_pipeline mid fd n as ex p \<longleftrightarrow> run_synthetic mid (pipeline_init 1) fd n as p \<and> ex = 0"

definition bench_stream :: "price \<Rightarrow> u64 \<Rightarrow> md_msg list" where
  "bench_stream mid n = make_synthetic_stream \<lparr>sf_symbol = 1, sf_mid = mid, sf_n_events = n, sf_seed = 1\<rparr>"

inductive bench_pipeline :: "price \<Rightarrow> int \<Rightarrow> u64 \<Rightarrow> pipe_act list \<Rightarrow> int \<Rightarrow> pipeline \<Rightarrow> bool" for mid fd n where
  bench_not_started: "pipeline_start (pipeline_init 1) fd = (False, p) \<Longrightarrow> bench_pipeline mid fd n [] 1 p"
| bench_done: "pipeline_start (pipeline_init 1) fd = (True, p1) \<Longrightarrow> submit_stream p1 (bench_stream mid n) as1 p2 \<Longrightarrow>
    wait_until_drained n p2 as2 c p3 \<Longrightarrow> pipeline_stop p3 as3 p4 \<Longrightarrow> bench_pipeline mid fd n (as1 @ as2 @ as3) 0 p4"

text \<open>
  \<^verbatim>\<open>bench_tick_to_trade\<close> does not wait for the engine: it sleeps, while the other threads take whatever
  turns they take, and stops. Its burst mode only yields less often.
\<close>

definition ttt_submissions :: "price \<Rightarrow> u64 list \<Rightarrow> (md_msg \<times> u64) list" where
  "ttt_submissions mid recvs = zip (map (bench_ttt_msg mid) [0..<length recvs]) recvs"

inductive bench_tick_to_trade :: "price \<Rightarrow> int \<Rightarrow> u64 list \<Rightarrow> pipe_act list \<Rightarrow> int \<Rightarrow> pipeline \<Rightarrow> bool" for mid fd recvs where
  ttt_not_started: "pipeline_start (pipeline_init 1) fd = (False, p) \<Longrightarrow> bench_tick_to_trade mid fd recvs [] 1 p"
| ttt_done: "pipeline_start (pipeline_init 1) fd = (True, p1) \<Longrightarrow> submit_timed p1 (ttt_submissions mid recvs) as1 p2 \<Longrightarrow>
    \<forall>a\<in>set as2. other_turn a \<Longrightarrow> pipe_run p2 as2 = Some p3 \<Longrightarrow> pipeline_stop p3 as3 p4 \<Longrightarrow>
    bench_tick_to_trade mid fd recvs (as1 @ as2 @ as3) 0 p4"

inductive_cases bench_pipelineE: "bench_pipeline mid fd n as ex p"
inductive_cases bench_tick_to_tradeE: "bench_tick_to_trade mid fd recvs as ex p"

section \<open>Every run\<close>

text \<open>A log that does not open: the tool exits with 0, the benches with 1; none submits anything.\<close>

lemma start_fails: "fd < 0 \<Longrightarrow> \<exists>p. pipeline_start (pipeline_init s) fd = (False, p)"
  by (simp add: pipeline_start_def pipeline_init_def sink_open_def sink_init_def split: prod.splits)

lemma unopened_log:
  assumes "fd < 0"
  shows "run_pipeline mid fd n as ex p \<Longrightarrow> ex = 0 \<and> as = []" "bench_pipeline mid fd n as ex p \<Longrightarrow> ex = 1 \<and> as = []"
    "bench_tick_to_trade mid fd recvs as ex p \<Longrightarrow> ex = 1 \<and> as = []"
proof -
  obtain q where q: "pipeline_start (pipeline_init 1) fd = (False, q)" using start_fails [OF assms] by blast
  show "ex = 0 \<and> as = []" if "run_pipeline mid fd n as ex p"
    using that unfolding run_pipeline_def run_synthetic_def by (auto elim: run_streamE simp: q)
  show "ex = 1 \<and> as = []" if "bench_pipeline mid fd n as ex p" using that by (auto elim: bench_pipelineE simp: q)
  show "ex = 1 \<and> as = []" if "bench_tick_to_trade mid fd recvs as ex p" using that by (auto elim: bench_tick_to_tradeE simp: q)
qed

text \<open>Otherwise the bench of the pipeline is the tool.\<close>

lemma bench_is_run_pipeline:
  assumes "fd \<ge> 0"
  shows "bench_pipeline mid fd n as ex p \<longleftrightarrow> run_pipeline mid fd n as ex p"
proof -
  have l: "of_nat (length (bench_stream mid n)) = n" by (simp add: bench_stream_def make_synthetic_stream_def)
  have s: "pp_symbol (pipeline_init 1) = 1" by (simp add: pipeline_init_def)
  have "run_pipeline mid fd n as ex p \<longleftrightarrow> run_stream (pipeline_init 1) fd (bench_stream mid n) as p \<and> ex = 0"
    by (simp add: run_pipeline_def run_synthetic_def bench_stream_def s)
  moreover have "bench_pipeline mid fd n as ex p \<longleftrightarrow> run_stream (pipeline_init 1) fd (bench_stream mid n) as p \<and> ex = 0"
    using started_start [OF assms, of 1]
    by (auto elim!: bench_pipelineE run_streamE simp: l intro: bench_done run_started [where ms = "bench_stream mid n", unfolded l])
  ultimately show ?thesis by simp
qed

lemma sleep_is_a_wait: "\<forall>a\<in>set as. other_turn a \<Longrightarrow> pipe_run p as = Some p' \<Longrightarrow> wait_until_drained n p as False p'"
  by (induction as arbitrary: p) (auto intro: wait_timeout wait_other simp: bind_eq_Some_conv)

text \<open>However short the sleep, the engine has processed all orders when the bench ends.\<close>

lemma ttt_orders: "map fst (ttt_submissions mid recvs) = map (bench_ttt_msg mid) [0..<length recvs]"
  by (simp add: ttt_submissions_def)

lemma tick_to_trade_delivers:
  assumes run: "bench_tick_to_trade mid fd recvs as ex p" and fd: "fd \<ge> 0"
  shows "ex = 0" "\<exists>rs. dispatch_all (start_books 1) (map (bench_ttt_msg mid) [0..<length recvs]) = Some (books_of (pp_engine p), rs) \<and>
    inq (pp_engine p) = [] \<and> pr_events_accepted (pp_result p) = of_nat (length recvs) \<and>
    subseq (map fst (run_fills (started 1 fd) as) @ outq (pp_engine p)) rs"
proof -
  have s: "unat (1 :: symbol_id) < kMaxSymbols" by (simp add: kMaxSymbols_def)
  from run obtain as1 p2 as2 p3 as3 where R: "ex = 0" "as = as1 @ as2 @ as3" "submit_timed (started 1 fd) (ttt_submissions mid recvs) as1 p2"
    "\<forall>a\<in>set as2. other_turn a" "pipe_run p2 as2 = Some p3" "pipeline_stop p3 as3 p"
    by (rule bench_tick_to_tradeE) (use started_start [OF fd, of 1] in auto)
  show "ex = 0" by (rule R(1))
  from session_delivers [OF R(3) sleep_is_a_wait [OF R(4,5), of 0] R(6) fd s]
  show "\<exists>rs. dispatch_all (start_books 1) (map (bench_ttt_msg mid) [0..<length recvs]) = Some (books_of (pp_engine p), rs) \<and>
    inq (pp_engine p) = [] \<and> pr_events_accepted (pp_result p) = of_nat (length recvs) \<and>
    subseq (map fst (run_fills (started 1 fd) as) @ outq (pp_engine p)) rs"
    by (auto simp: R(2) ttt_orders pipe_inv_def counts_inv_def)
qed

lemma tick_to_trade_exists:
  assumes fd: "fd \<ge> 0" and n: "length recvs < 2 ^ 64"
  shows "\<exists>as p. bench_tick_to_trade mid fd recvs as 0 p"
proof -
  have s: "unat (1 :: symbol_id) < kMaxSymbols" by (simp add: kMaxSymbols_def)
  have "msgs_fresh (start_abooks 1) (map fst (ttt_submissions mid recvs))"
    unfolding ttt_orders by (rule numbered_orders_fresh [OF n]) (simp_all add: bench_ttt_msg_def Let_def)
  from session_returns [OF fd s this] obtain as1 p2 as3 p' where
    R: "submit_timed (started 1 fd) (ttt_submissions mid recvs) as1 p2" "pipeline_stop p2 as3 p'" by blast
  have "bench_tick_to_trade mid fd recvs (as1 @ [] @ as3) 0 p'"
    by (rule ttt_done [OF started_start [OF fd] R(1) _ _ R(2)]) simp_all
  then show ?thesis by blast
qed

end
