(* ===== verification/Spec2Isabelle.thy ===== *)
theory Spec2Isabelle
  imports Book_Spec Hft_Spec Feed_Spec Maker_Spec Demo_Spec Gap_Spec Entry_Points
begin

text \<open>
  Verification development for \<^verbatim>\<open>tick-to-trade\<close>, a market-data-to-execution pipeline in C++: a
  NASDAQ feed is decoded, translated and submitted to a matching engine, whose execution reports are
  measured and logged.

  \<^bold>\<open>The program's parts and how they interact.\<close> A MoldUDP64 packet carries ITCH 5.0 messages.
  \<^verbatim>\<open>feed::GapBuffer\<close> puts the messages of packets that arrive in any order, repeatedly or not at all,
  into the order of their numbers and asks a re-request server for what is missing.
  \<^verbatim>\<open>hft::ItchAdapter\<close> (or, from a file, \<^verbatim>\<open>tools/replay_itch50.cpp\<close>) decodes a message with the
  decoders of \<^verbatim>\<open>include/hft/itch50.hpp\<close> and gives the event to the \<^verbatim>\<open>Translator\<close>, which keeps the
  resting orders and emits engine messages. \<^verbatim>\<open>hft::Pipeline\<close> submits them to
  \<^verbatim>\<open>engine::MatchingEngine\<close> through an SPSC ring; the engine thread applies them to the
  \<^verbatim>\<open>OrderBook\<close> of their symbol and pushes execution reports into a second ring; the drain thread
  polls them, measures latency and writes the log. The replay keeps a \<^verbatim>\<open>RefBook\<close> built from the
  same messages and compares the engine's book with it. \<^verbatim>\<open>hft::MarketMaker\<close> turns reports into
  position and profit and positions into quotes.

  \<^bold>\<open>Theories, bottom up.\<close>
  \<^item> \<^verbatim>\<open>Prelude\<close> (shared lemmas and word abbreviations), \<^verbatim>\<open>Containers\<close> (\<^verbatim>\<open>std::map\<close> and
    \<^verbatim>\<open>std::unordered_map\<close> as sorted association lists), \<^verbatim>\<open>Bytes\<close> (big-endian access).
  \<^item> The order book of \<^verbatim>\<open>third_party/options-engine\<close>: \<^verbatim>\<open>Engine_Types\<close> (types.hpp),
    \<^verbatim>\<open>Order_Index\<close> (the hash index), \<^verbatim>\<open>Slot_Pool\<close>, \<^verbatim>\<open>Price_Levels\<close>, \<^verbatim>\<open>Order_Book\<close> (all of
    order_book.cpp); \<^verbatim>\<open>Book_Abs\<close> is the abstract book, price levels holding queues, and
    \<^verbatim>\<open>Book_Rep\<close>, \<^verbatim>\<open>Book_Refine\<close>, \<^verbatim>\<open>Book_Ops\<close>, \<^verbatim>\<open>Book_Edit\<close>, \<^verbatim>\<open>Book_Props\<close> show that every
    operation on slots and arrays is the abstract one. \<^verbatim>\<open>Book_Spec\<close> holds C1 to C11.
  \<^item> \<^verbatim>\<open>Spsc_Queue\<close> (spsc_queue.hpp) with the interface \<open>bounded_queue\<close>, and \<^verbatim>\<open>Matching_Engine\<close>
    (matching_engine.cpp), whose two rings are that interface.
  \<^item> \<^verbatim>\<open>Itch50\<close>, \<^verbatim>\<open>Ref_Book\<close>, \<^verbatim>\<open>Translator\<close> (itch50.hpp); \<^verbatim>\<open>Book_Mirror\<close> relates the resting
    orders of the feed to the abstract book, \<^verbatim>\<open>Translator_Correct\<close> shows that an event's messages
    keep them related.
  \<^item> \<^verbatim>\<open>Wire_Format\<close> and \<^verbatim>\<open>Itch_Adapter\<close> (packets and itch_adapter.hpp), \<^verbatim>\<open>Latency\<close>, \<^verbatim>\<open>Log_Sink\<close>,
    \<^verbatim>\<open>Pipeline\<close> (pipeline.hpp: its operations and the turns of its threads), \<^verbatim>\<open>Feed\<close> (feed.hpp and
    the generators of the tools), \<^verbatim>\<open>Pipeline_Stream\<close> (the control thread's loops),
    \<^verbatim>\<open>Replay_Itch50\<close>, \<^verbatim>\<open>Market_Maker\<close>.
  \<^item> \<^verbatim>\<open>Hft_Spec\<close> holds C12 to C20, \<^verbatim>\<open>Feed_Spec\<close> C21, C24, C27, C28 and C32, \<^verbatim>\<open>Maker_Spec\<close> C33 to C37.
  \<^item> \<^verbatim>\<open>Gap_Buffer\<close> (gap_buffer.hpp, every operation); \<^verbatim>\<open>Gap_Order\<close> (what its runs deliver) and
    \<^verbatim>\<open>Gap_Recovery\<close> (gaps, requests, the marks of a session). Composed from it: \<^verbatim>\<open>Feed_Pipeline\<close>
    (run_feed_pipeline.cpp), \<^verbatim>\<open>Live_Pipeline\<close> (run_live_pipeline.cpp with the loop of
    \<^verbatim>\<open>MulticastReceiver::run\<close> and the poll of \<^verbatim>\<open>RetransmitClient\<close>), \<^verbatim>\<open>Send_Live\<close> (send_live_itch.cpp, the
    venue), \<^verbatim>\<open>Rerequest_Server\<close> (rerequest_server.hpp, and what the client sends), \<^verbatim>\<open>Recovery_Loop\<close>
    (what the buffer requests and the server replies), \<^verbatim>\<open>Live_System\<close> (sender with its server's thread, network and
    receiving thread, taking turns), \<^verbatim>\<open>Live_Recovery\<close> (how turns without loss bring back what was lost) and
    \<^verbatim>\<open>Gap_Bench\<close> (bench_gapbuffer_numa.cpp). \<^verbatim>\<open>Gap_Spec\<close> holds
    C22, C23, C25, C26 and C29 to C31. \<^verbatim>\<open>Entry_Points\<close> is run_pipeline.cpp, bench_pipeline.cpp and
    bench_tick_to_trade.cpp.
  \<^item> \<^verbatim>\<open>Mm_Demo\<close> (run_market_maker_demo.cpp: its program points, the turns of its two threads),
    \<^verbatim>\<open>Exposure\<close> (how much of an order can still be reported), \<^verbatim>\<open>Mm_Demo_Inv\<close> and \<^verbatim>\<open>Mm_Demo_Bound\<close> (the
    invariants of every turn), \<^verbatim>\<open>Mm_Demo_Live\<close> (progress); \<^verbatim>\<open>Demo_Spec\<close> holds C38 to C40.

  \<^bold>\<open>How the model corresponds to the code.\<close> A class is a record of its members, an operation a
  function from the state (and arguments) to the result and the new state; \<open>None\<close> stands for what the
  code must never reach (reading outside an array, a loop without end, dividing by zero), except where
  a text says that it is the code's own failure value. Machine integers are words of their width;
  prices and money, which are \<^verbatim>\<open>int64_t\<close>, are integers. A price of the feed is a 32-bit value times 100, far
  inside that range; a price times a quantity need not be, so the market maker's accounting carries a flag
  that a result has left 64 bits, where C++ promises nothing, and C33 and C34 give the conditions under which it
  stays down. A callback or handler is the list of
  its calls. What an operating-system call or a clock returns is an argument. The threads of the pipeline take turns,
  each touching one end of one ring; a run is any list of turns, so theorems about runs hold for every
  interleaving.

  \<^bold>\<open>What the lemmas show.\<close> The book theories carry an invariant (\<open>good_book\<close>) through every
  operation and reduce all questions about slots to the abstract book. \<open>pipe_inv\<close> is the invariant of
  every run; \<open>run_returns\<close> shows that runs with fresh order ids never fail; \<open>run_stop_inv\<close> and
  \<open>quiet_inv\<close> describe shutdown. \<open>in_sync\<close> ties reference book, translator and engine book together and
  \<open>replay_sync\<close> carries it through the replay's loop. \<open>demo_inv\<close> and \<open>bound_inv\<close> describe the states of the
  market maker demo: which own orders can rest at each program point and what is at stake for them.
  \<open>seq_inv\<close> says that the buffer has delivered a slice of the feed and that each slot in use holds a later
  message of it, in its place; \<open>run_inv\<close> adds the session and the first packet, \<open>gap_ok\<close> the gap's
  flag, \<open>open_ok\<close> its converse, \<open>marks_ok\<close> the high-water and end-of-session marks; \<open>recoverable\<close> joins
  them, and \<open>live_inv\<close> adds what is on its way and what the server has recorded, for every state of the live
  demo. \<open>leads\<close> is progress by turns without loss with their clock readings bounded.

  \<^bold>\<open>Bounds.\<close> The capacities are the code's: 4096 levels a side, 65536 orders, rings of 65536 places
  (one unused), a window of 4096 messages in the gap buffer. Loops are structural or end by a measure
  (bytes left for the replay, slots in use for the buffer's flush), index probing by the table size; there
  is no fuel to exhaust in a theorem's hypothesis. A clock reading is any word; recovery asks of the
  clock only that it runs on for 2 ms a round (a retry interval is 1 ms, a tick interval 0.1 ms), a round
  brings at least one message, so n rounds are enough. Sequence numbers wrap; the properties of the gap
  buffer are stated for feeds whose end is below 2 to the 64.

  \<^bold>\<open>Not modelled.\<close> Sockets, files, signals, threads' creation, pinning and NUMA placement, printing and
  the measurement of time; floating point (the mean latency, the percentile's product and the market
  maker's price shift are function arguments); the io_uring sink (a build option); of
  \<^verbatim>\<open>third_party/udp-multicast-receiver\<close> the A/B feed arbiter, the feed's own book and
  decision engine, PCAP replay and the receive statistics; of \<^verbatim>\<open>third_party/options-engine\<close> the other
  queues, the allocators and the execution layer, which the integration layer does not use.
\<close>

end
